(* ===== verification/Luthier_Prelude.thy ===== *)
theory Luthier_Prelude
  imports Main "HOL-Library.Word"
begin

text \<open>
  The prelude of the development: the result type that carries \<open>llvm::Error\<close> and
  \<open>llvm::Expected\<close>, the two error macros of \<open>include/luthier/Common/ErrorCheck.h\<close>
  and \<open>GenericLuthierError.h\<close> as functions on it, the interface of LLVM's insert-only maps
  (an insert keeps the first value of a key) with its two implementations, and the lemmas on
  words and lists that the components share.
\<close>

unbundle bit_operations_syntax

named_theorems emit_defs \<open>definitions of the instruction emitters\<close>
named_theorems lane_eval \<open>equations that evaluate one lane of a wavefront\<close>

subsection \<open>Errors as values\<close>

text \<open>
  \<open>LUTHIER_GENERIC_ERROR_CHECK(Cond, Msg)\<close> is \<open>err_check\<close>: it is an error when the
  condition is false. \<open>LUTHIER_RETURN_ON_ERROR\<close> is \<open>err_bind\<close>: the caller returns the
  error and runs nothing after it.
\<close>

definition err_check :: "bool \<Rightarrow> 'e \<Rightarrow> 'e + unit" where
  "err_check c e = (if c then Inr () else Inl e)"

fun err_bind :: "'e + 'a \<Rightarrow> ('a \<Rightarrow> 'e + 'b) \<Rightarrow> 'e + 'b" where
  "err_bind (Inl e) f = Inl e"
| "err_bind (Inr x) f = f x"

lemma err_check_simps [simp]:
  "err_check True e = Inr ()" "err_check False e = Inl e"
  by (simp_all add: err_check_def)

lemma err_check_Inr_iff [simp]: "err_check c e = Inr u \<longleftrightarrow> c"
  by (cases u) (simp add: err_check_def)

lemma err_check_Inl_iff [simp]: "err_check c e = Inl e' \<longleftrightarrow> \<not> c \<and> e' = e"
  by (auto simp: err_check_def)

lemma err_bind_Inr_iff: "err_bind r f = Inr y \<longleftrightarrow> (\<exists>x. r = Inr x \<and> f x = Inr y)"
  by (cases r) auto

lemma err_bind_Inl_iff:
  "err_bind r f = Inl e \<longleftrightarrow> r = Inl e \<or> (\<exists>x. r = Inr x \<and> f x = Inl e)"
  by (cases r) auto

lemma err_bind_assoc: "err_bind (err_bind r f) g = err_bind r (\<lambda>x. err_bind (f x) g)"
  by (cases r) auto

text \<open>A loop that stops at the first error.\<close>

fun err_fold :: "('a \<Rightarrow> 's \<Rightarrow> 'e + 's) \<Rightarrow> 'a list \<Rightarrow> 's \<Rightarrow> 'e + 's" where
  "err_fold f [] s = Inr s"
| "err_fold f (x # xs) s = err_bind (f x s) (err_fold f xs)"

lemma err_fold_append:
  "err_fold f (xs @ ys) s = err_bind (err_fold f xs s) (err_fold f ys)"
proof (induction xs arbitrary: s)
  case Nil
  then show ?case by simp
next
  case (Cons x xs)
  then show ?case by (cases "f x s") simp_all
qed

lemma err_fold_inv:
  assumes "err_fold f xs s = Inr t" and "P s"
    and "\<And>x u v. x \<in> set xs \<Longrightarrow> P u \<Longrightarrow> f x u = Inr v \<Longrightarrow> P v"
  shows "P t"
  using assms
proof (induction xs arbitrary: s)
  case Nil
  then show ?case by simp
next
  case (Cons x xs)
  from Cons.prems(1) obtain u where u: "f x s = Inr u" "err_fold f xs u = Inr t"
    by (auto simp: err_bind_Inr_iff)
  show ?case
  proof (rule Cons.IH [OF u(2)])
    show "P u" using Cons.prems(2,3) u(1) by auto
  qed (use Cons.prems(3) in auto)
qed

subsection \<open>Maps whose insert keeps the first value\<close>

text \<open>
  \<open>DenseMap::insert\<close>, \<open>MapVector::insert\<close>, \<open>StringMap::insert\<close> and
  \<open>std::map::insert\<close> leave the map as it is when the key is present. Two of the code's maps are
  modelled as lists: \<open>MapVector\<close> iterates in insertion order, \<open>std::map\<close> in key order.
\<close>

locale insert_map =
  fixes emp :: "'m"
    and ins :: "'k \<Rightarrow> 'v \<Rightarrow> 'm \<Rightarrow> 'm"
    and look :: "'m \<Rightarrow> 'k \<Rightarrow> 'v option"
    and inv :: "'m \<Rightarrow> bool"
  assumes inv_emp: "inv emp"
    and look_emp: "look emp k = None"
    and inv_ins: "inv m \<Longrightarrow> inv (ins k v m)"
    and look_ins: "inv m \<Longrightarrow>
      look (ins k v m) k' = (if k' = k \<and> look m k = None then Some v else look m k')"
begin

lemma look_ins_new: "inv m \<Longrightarrow> look m k = None \<Longrightarrow> look (ins k v m) k = Some v"
  by (simp add: look_ins)

lemma look_ins_old: "inv m \<Longrightarrow> look m k = Some w \<Longrightarrow> look (ins k v m) k' = look m k'"
  by (simp add: look_ins)

lemma look_ins_mono: "inv m \<Longrightarrow> look m k' = Some w \<Longrightarrow> look (ins k v m) k' = Some w"
  by (auto simp: look_ins)

lemma dom_ins: "inv m \<Longrightarrow> dom (look (ins k v m)) = insert k (dom (look m))"
  by (auto simp: look_ins dom_def)

lemma ins_all:
  assumes "inv m" and "\<And>k v. look m k = Some v \<Longrightarrow> P k v" and "P k v"
    and "look (ins k v m) k' = Some v'"
  shows "P k' v'"
  using assms by (auto simp: look_ins split: if_splits)

end

text \<open>A \<open>MapVector\<close>: entries in insertion order.\<close>

definition mv_insert :: "'k \<Rightarrow> 'v \<Rightarrow> ('k \<times> 'v) list \<Rightarrow> ('k \<times> 'v) list" where
  "mv_insert k v m = (if map_of m k = None then m @ [(k, v)] else m)"

lemma map_of_snoc:
  "map_of (m @ [(k, v)]) k' =
     (case map_of m k' of None \<Rightarrow> if k' = k then Some v else None | Some w \<Rightarrow> Some w)"
  by (induction m) auto

lemma distinct_mv_insert: "distinct (map fst m) \<Longrightarrow> distinct (map fst (mv_insert k v m))"
  by (auto simp: mv_insert_def map_of_eq_None_iff)

interpretation mv: insert_map "[]" mv_insert map_of "\<lambda>m. distinct (map fst m)"
  by unfold_locales
    (auto simp: distinct_mv_insert mv_insert_def map_of_snoc simp del: map_of_append
      split: option.splits)

lemma set_mv_insert_iff: "x \<in> set (mv_insert k v m) \<longleftrightarrow> x \<in> set m \<or> (map_of m k = None \<and> x = (k, v))"
  by (auto simp: mv_insert_def)

text \<open>A \<open>std::map\<close>: entries in increasing key order.\<close>

fun omap_insert :: "'k::linorder \<Rightarrow> 'v \<Rightarrow> ('k \<times> 'v) list \<Rightarrow> ('k \<times> 'v) list" where
  "omap_insert k v [] = [(k, v)]"
| "omap_insert k v ((k', v') # m) =
     (if k < k' then (k, v) # (k', v') # m
      else if k = k' then (k', v') # m
      else (k', v') # omap_insert k v m)"

lemma set_omap_insert: "set (omap_insert k v m) \<subseteq> insert (k, v) (set m)"
  by (induction k v m rule: omap_insert.induct) auto

lemma set_omap_insert_mono: "set m \<subseteq> set (omap_insert k v m)"
  by (induction k v m rule: omap_insert.induct) auto

lemma fst_omap_insert: "fst ` set (omap_insert k v m) = insert k (fst ` set m)"
  by (induction k v m rule: omap_insert.induct) auto

lemma sorted_omap_insert:
  "sorted_wrt (<) (map fst m) \<Longrightarrow> sorted_wrt (<) (map fst (omap_insert k v m))"
proof (induction m)
  case Nil
  then show ?case by simp
next
  case (Cons e m)
  obtain k' v' where e: "e = (k', v')" by (cases e)
  have "\<forall>y\<in>fst ` set (omap_insert k v m). k' < y" if "k' < k"
    using Cons.prems that by (auto simp: fst_omap_insert e)
  with Cons show ?case by (auto simp: e)
qed

lemma omap_insert_lookup:
  "sorted_wrt (<) (map fst m) \<Longrightarrow>
   map_of (omap_insert k v m) k' = (if k' = k \<and> map_of m k = None then Some v else map_of m k')"
proof (induction m)
  case Nil
  then show ?case by simp
next
  case (Cons e m)
  obtain a b where e: "e = (a, b)" by (cases e)
  have notin: "map_of m k = None" if "k < a"
  proof -
    have "k \<notin> fst ` set m" using Cons.prems that by (auto simp: e)
    then show ?thesis by (simp add: map_of_eq_None_iff)
  qed
  from Cons.prems have "sorted_wrt (<) (map fst m)" by (simp add: e)
  with Cons.IH notin show ?case by (auto simp: e)
qed

interpretation omap: insert_map "[]" omap_insert map_of "\<lambda>m. sorted_wrt (<) (map fst m)"
  by unfold_locales (auto simp: sorted_omap_insert omap_insert_lookup)

subsection \<open>Lists and words\<close>

lemma list_all_concat: "list_all P (concat xss) = list_all (list_all P) xss"
  by (induction xss) auto

lemma nth_append_middle: "(xs @ y # ys) ! length xs = y"
  by simp

lemma word32_xor_swap:
  fixes a b :: "'a::len word"
  shows "(a XOR b) XOR b = a" "a XOR (a XOR b) = b" "(a XOR b) XOR a = b"
  by (simp_all add: xor.assoc xor.left_commute xor.commute)

end
