(* ===== verification/Call_Graph.thy ===== *)
theory Call_Graph
  imports Luthier_Prelude
begin

text \<open>
  \<open>src/lib/ToolCodeGen/PrototypeCallGraph.cpp\<close>: the recovery of the call graph of the lifted module.
  The callee operand of an indirect call is traced back to constants, through SSA values, through memory
  and into the arguments of the known callers; what an injected payload writes counts as well; the loop
  repeats until nothing new is resolved. The IR is a graph of numbered values; LLVM's constant folder, its
  alias analysis and MemorySSA are inputs. The recursion runs on fuel: \<open>OutOfFuel\<close> is an evaluation that
  has not ended yet.
\<close>

subsection \<open>The lifted IR\<close>

type_synonym val = nat
type_synonym fn = nat
type_synonym ty = nat

datatype opcode = IntToPtr | PtrToInt | BitCast | AddrSpaceCast | OtherOpcode nat

datatype ir_constant = ConstantInt ty "64 word" | ConstantFn fn | ConstantExpr opcode ir_constant | OtherConstant nat

text \<open>
  A call has its callee operand, its arguments, whether the callee is inline assembly, and the trace
  address of its \<open>MD_pcsections\<close> metadata. The first component of a load or store is \<open>isSimple\<close>.
\<close>

datatype ir_inst =
    PHINode "val list"
  | SelectInst val val val
  | CastInst opcode val
  | LoadInst bool val
  | StoreInst bool val val
  | CallInst val "val list" bool "64 word option"
  | OtherInst "val list"

datatype ir_value = VConstant ir_constant | VArgument | VInst ir_inst

datatype mem_access = LiveOnEntry | MemoryDef "val option" | MemoryPhi "nat list"

datatype intrinsic_id = NotIntrinsic | S_GETPC | SSA_COPY | OtherIntrinsic

text \<open>
  What LLVM answers: the clobbering access of a load, the one seen from an incoming access of a memory phi
  for the location of a load, and the results of the constant folder.
\<close>

record llvm =
  val_of :: "val \<Rightarrow> ir_value"
  ty_of :: "val \<Rightarrow> ty"
  const_ty :: "ir_constant \<Rightarrow> ty"
  intrinsic :: "fn \<Rightarrow> intrinsic_id"
  isMustAlias :: "val \<Rightarrow> val \<Rightarrow> bool"
  addr_space :: "val \<Rightarrow> nat"
  store_size :: "ty \<Rightarrow> nat"
  clobbering :: "val \<Rightarrow> mem_access"
  clobbering_at :: "nat \<Rightarrow> val \<Rightarrow> mem_access"
  fold_inst :: "val \<Rightarrow> ir_constant list \<Rightarrow> ir_constant option"
  fold_cast :: "opcode \<Rightarrow> ir_constant \<Rightarrow> ty \<Rightarrow> ir_constant option"

datatype trace_error = OutOfFuel | NoEntryPoint

fun operands_of :: "ir_inst \<Rightarrow> val list" where
  "operands_of (PHINode ws) = ws"
| "operands_of (SelectInst c t f) = [c, t, f]"
| "operands_of (CastInst _ w) = [w]"
| "operands_of (LoadInst _ p) = [p]"
| "operands_of (StoreInst _ v p) = [v, p]"
| "operands_of (CallInst c as _ _) = as @ [c]"
| "operands_of (OtherInst ws) = ws"

definition getCalledFunction :: "llvm \<Rightarrow> val \<Rightarrow> fn option" where
  "getCalledFunction L callee = (case val_of L callee of VConstant (ConstantFn f) \<Rightarrow> Some f | _ \<Rightarrow> None)"

definition getIntrinsicID :: "llvm \<Rightarrow> val \<Rightarrow> intrinsic_id" where
  "getIntrinsicID L callee =
     (case getCalledFunction L callee of None \<Rightarrow> NotIntrinsic | Some f \<Rightarrow> intrinsic L f)"

subsection \<open>Tracing one constant\<close>

primrec stripPtrCasts :: "nat \<Rightarrow> llvm \<Rightarrow> val \<Rightarrow> trace_error + val" where
  "stripPtrCasts 0 L p = Inl OutOfFuel"
| "stripPtrCasts (Suc n) L p =
     (case val_of L p of
       VInst (CastInst op q) \<Rightarrow>
         if op = IntToPtr \<or> op = BitCast \<or> op = AddrSpaceCast then stripPtrCasts n L q else Inr p
     | _ \<Rightarrow> Inr p)"

definition ptr_operand :: "llvm \<Rightarrow> val \<Rightarrow> val" where
  "ptr_operand L v =
     (case val_of L v of VInst (LoadInst _ p) \<Rightarrow> p | VInst (StoreInst _ _ p) \<Rightarrow> p | _ \<Rightarrow> v)"

definition stored_value :: "llvm \<Rightarrow> val \<Rightarrow> val" where
  "stored_value L s = (case val_of L s of VInst (StoreInst _ v _) \<Rightarrow> v | _ \<Rightarrow> s)"

definition simple_store :: "llvm \<Rightarrow> val \<Rightarrow> bool" where
  "simple_store L s = (case val_of L s of VInst (StoreInst simple _ _) \<Rightarrow> simple | _ \<Rightarrow> False)"

definition storeMatchesLoad :: "nat \<Rightarrow> llvm \<Rightarrow> val \<Rightarrow> val \<Rightarrow> trace_error + bool" where
  "storeMatchesLoad n L SI LI =
     (if \<not> simple_store L SI then Inr False
      else
        (let same_size = (store_size L (ty_of L (stored_value L SI)) = store_size L (ty_of L LI)) in
         if isMustAlias L LI SI then Inr same_size
         else if addr_space L LI \<noteq> addr_space L SI then Inr False
         else
           err_bind (stripPtrCasts n L (ptr_operand L LI)) (\<lambda>a.
           err_bind (stripPtrCasts n L (ptr_operand L SI)) (\<lambda>b. Inr (a = b \<and> same_size)))))"

type_synonym subst = "val \<rightharpoonup> ir_constant"
type_synonym cache = "val \<rightharpoonup> ir_constant option"

definition to_load_type :: "llvm \<Rightarrow> val \<Rightarrow> ir_constant \<Rightarrow> ir_constant option" where
  "to_load_type L LI c = (if const_ty L c = ty_of L LI then Some c else fold_cast L BitCast c (ty_of L LI))"

definition cached :: "val \<Rightarrow> ir_constant option \<times> cache \<Rightarrow> ir_constant option \<times> cache" where
  "cached V rc = (fst rc, (snd rc)(V \<mapsto> fst rc))"

text \<open>The operands from left to right, to the first that does not fold.\<close>

fun eval_operands ::
  "(val \<Rightarrow> cache \<Rightarrow> trace_error + ir_constant option \<times> cache) \<Rightarrow> val list \<Rightarrow> cache \<Rightarrow>
    trace_error + ir_constant list option \<times> cache" where
  "eval_operands ev [] C = Inr (Some [], C)"
| "eval_operands ev (v # vs) C =
     err_bind (ev v C) (\<lambda>(r, C).
       case r of
         None \<Rightarrow> Inr (None, C)
       | Some c \<Rightarrow>
           err_bind (eval_operands ev vs C) (\<lambda>(rs, C). Inr (map_option ((#) c) rs, C)))"

definition fold_operands ::
  "llvm \<Rightarrow> (val \<Rightarrow> cache \<Rightarrow> trace_error + ir_constant option \<times> cache) \<Rightarrow> val \<Rightarrow> ir_inst \<Rightarrow> cache \<Rightarrow>
    trace_error + ir_constant option \<times> cache" where
  "fold_operands L ev V i C =
     err_bind (eval_operands ev (operands_of i) C) (\<lambda>(rs, C).
       Inr (cached V (Option.bind rs (fold_inst L V), C)))"

definition eval_load ::
  "nat \<Rightarrow> llvm \<Rightarrow> (val \<Rightarrow> cache \<Rightarrow> trace_error + ir_constant option \<times> cache) \<Rightarrow> val \<Rightarrow> cache \<Rightarrow>
    trace_error + ir_constant option \<times> cache" where
  "eval_load n L ev V C =
     (case clobbering L V of
       MemoryDef (Some SI) \<Rightarrow>
         err_bind (storeMatchesLoad n L SI V) (\<lambda>ok.
           if \<not> ok then Inr (cached V (None, C))
           else
             err_bind (ev (stored_value L SI) (C(V \<mapsto> None))) (\<lambda>(r, C).
               Inr (cached V (Option.bind r (to_load_type L V), C))))
     | _ \<Rightarrow> Inr (cached V (None, C)))"

primrec tryEvalConst ::
  "nat \<Rightarrow> llvm \<Rightarrow> subst \<Rightarrow> val \<Rightarrow> cache \<Rightarrow> trace_error + ir_constant option \<times> cache" where
  "tryEvalConst 0 L S V C = Inl OutOfFuel"
| "tryEvalConst (Suc n) L S V C =
     (case C V of
       Some r \<Rightarrow> Inr (r, C)
     | None \<Rightarrow>
         (case val_of L V of
           VConstant c \<Rightarrow> Inr (cached V (Some c, C))
         | VArgument \<Rightarrow> Inr (cached V (S V, C))
         | VInst i \<Rightarrow>
             (case S V of
               Some c \<Rightarrow> Inr (cached V (Some c, C))
             | None \<Rightarrow>
                 (case i of
                   PHINode _ \<Rightarrow> Inr (cached V (None, C))
                 | CallInst callee as asm addr \<Rightarrow>
                     if getIntrinsicID L callee = S_GETPC then
                       Inr (cached V (map_option (\<lambda>a. ConstantInt (ty_of L V) (a + 4)) addr, C))
                     else if getIntrinsicID L callee = SSA_COPY then
                       err_bind (tryEvalConst n L S (hd as) C) (\<lambda>rc. Inr (cached V rc))
                     else fold_operands L (tryEvalConst n L S) V i C
                 | LoadInst simple _ \<Rightarrow>
                     if \<not> simple then Inr (cached V (None, C)) else eval_load n L (tryEvalConst n L S) V C
                 | _ \<Rightarrow> fold_operands L (tryEvalConst n L S) V i C))))"

subsection \<open>All constants of a call target\<close>

definition add_const :: "ir_constant option \<Rightarrow> ir_constant list \<Rightarrow> ir_constant list" where
  "add_const c Out =
     (case c of None \<Rightarrow> Out | Some d \<Rightarrow> if d \<in> set Out then Out else Out @ [d])"

definition add_stored ::
  "nat \<Rightarrow> llvm \<Rightarrow> (val \<Rightarrow> ir_constant list \<Rightarrow> trace_error + ir_constant list) \<Rightarrow> val \<Rightarrow> nat \<Rightarrow> ir_constant list \<Rightarrow>
    trace_error + ir_constant list" where
  "add_stored k L ev LI a Out =
     (case clobbering_at L a LI of
       MemoryDef (Some SI) \<Rightarrow>
         err_bind (storeMatchesLoad k L SI LI) (\<lambda>ok.
           if \<not> ok then Inr Out
           else
             err_bind (ev (stored_value L SI) []) (\<lambda>SVals.
               Inr (fold (\<lambda>c. add_const (to_load_type L LI c)) SVals Out)))
     | _ \<Rightarrow> Inr Out)"

text \<open>The fuel \<open>k\<close> is the one of \<open>tryEvalConst\<close>.\<close>

primrec evalConstTargets ::
  "nat \<Rightarrow> nat \<Rightarrow> llvm \<Rightarrow> subst \<Rightarrow> val set \<Rightarrow> val \<Rightarrow> ir_constant list \<Rightarrow> trace_error + ir_constant list" where
  "evalConstTargets 0 k L S Active V Out = Inl OutOfFuel"
| "evalConstTargets (Suc n) k L S Active V Out =
     err_bind (tryEvalConst k L S V Map.empty) (\<lambda>(r, _).
       if r \<noteq> None then Inr (add_const r Out)
       else if V \<in> Active then Inr Out
       else
         (let ev = evalConstTargets n k L S (insert V Active) in
          case val_of L V of
            VInst (PHINode ws) \<Rightarrow> err_fold ev ws Out
          | VInst (SelectInst _ t f) \<Rightarrow> err_fold ev [t, f] Out
          | VInst (CastInst op w) \<Rightarrow>
              err_bind (ev w []) (\<lambda>Ops.
                Inr (fold (\<lambda>c. add_const (fold_cast L op c (ty_of L V))) Ops Out))
          | VInst (LoadInst simple _) \<Rightarrow>
              if \<not> simple then Inr Out
              else (case clobbering L V of
                  MemoryPhi as \<Rightarrow> err_fold (add_stored k L ev V) as Out
                | _ \<Rightarrow> Inr Out)
          | _ \<Rightarrow> Inr Out))"

fun extractAddr :: "ir_constant \<Rightarrow> 64 word" where
  "extractAddr (ConstantExpr IntToPtr (ConstantInt t w)) = w"
| "extractAddr (ConstantExpr PtrToInt c) = extractAddr c"
| "extractAddr (ConstantInt t w) = w"
| "extractAddr _ = 0"

fun extractFunctionHandle :: "ir_constant \<Rightarrow> fn option" where
  "extractFunctionHandle (ConstantFn f) = Some f"
| "extractFunctionHandle (ConstantExpr op c) =
     (if op = IntToPtr \<or> op = PtrToInt \<or> op = BitCast \<or> op = AddrSpaceCast then extractFunctionHandle c
      else None)"
| "extractFunctionHandle _ = None"

subsection \<open>The call graph\<close>

text \<open>
  A function with its body in order; \<open>intrinsic_attr\<close> is the value of the attribute that marks the Luthier
  intrinsics. An instrumentation point is a machine instruction with its trace address and the payloads
  attached to it, in the iteration order of \<open>mi_payloads\<close>.
\<close>

record ir_fn =
  is_kernel :: bool
  isDeclaration :: bool
  isIntrinsic :: bool
  entry_point :: "64 word option"
  fn_insts :: "val list"
  fn_args :: "val list"
  intrinsic_attr :: "string option"

record ir_mod =
  ir :: llvm
  fns :: "fn list"
  fn_of :: "fn \<Rightarrow> ir_fn"

datatype call_opcode = S_SWAPPC_B64 | S_SETPC_B64 | S_SETPC_B64_return | OtherMC nat

record inst_point =
  ip_addr :: "64 word option"
  ip_opcode :: call_opcode
  ip_operands :: "32 word option list"
  ip_payloads :: "fn list"

definition getIndirectCallTargetReg :: "inst_point \<Rightarrow> 32 word option" where
  "getIndirectCallTargetReg MI =
     (case ip_opcode MI of
       S_SWAPPC_B64 \<Rightarrow> if 2 \<le> length (ip_operands MI) then ip_operands MI ! 1 else None
     | OtherMC _ \<Rightarrow> None
     | _ \<Rightarrow> if 1 \<le> length (ip_operands MI) then ip_operands MI ! 0 else None)"

record pcg =
  CallTargets :: "val \<rightharpoonup> fn list"
  DiscoveredCallTargetAddresses :: "64 word set"
  IncompleteCallSites :: "val set"
  FullyRecovered :: bool

text \<open>
  The state of the trace. The loop over the known callers of a function adds callers while it runs: a new
  key may rehash the map, a new caller of the same function may move its vector. \<open>may_dangle\<close> records that
  this has happened; the loop itself is modelled as one over the callers known at its start.
\<close>

record trace_state =
  graph :: pcg
  KnownCallers :: "fn \<rightharpoonup> (val \<times> fn) list"
  Changed :: bool
  emitted_errors :: "(fn \<times> fn \<times> 32 word \<times> fn) list"
  may_dangle :: bool

definition entry_of :: "ir_mod \<Rightarrow> fn \<Rightarrow> (64 word \<rightharpoonup> fn) \<Rightarrow> trace_error + (64 word \<rightharpoonup> fn)" where
  "entry_of M F EP =
     (if is_kernel (fn_of M F) \<or> isDeclaration (fn_of M F) then Inr EP
      else (case entry_point (fn_of M F) of None \<Rightarrow> Inl NoEntryPoint | Some a \<Rightarrow> Inr (EP(a \<mapsto> F))))"

definition EntryPointToDevFunc :: "ir_mod \<Rightarrow> trace_error + (64 word \<rightharpoonup> fn)" where
  "EntryPointToDevFunc M = err_fold (entry_of M) (fns M) Map.empty"

definition discover :: "64 word \<Rightarrow> trace_state \<Rightarrow> trace_state" where
  "discover a st =
     st\<lparr>graph := (graph st)\<lparr>DiscoveredCallTargetAddresses := insert a (DiscoveredCallTargetAddresses (graph st))\<rparr>\<rparr>"

definition known_callers :: "trace_state \<Rightarrow> fn \<Rightarrow> (val \<times> fn) list" where
  "known_callers st F = (case KnownCallers st F of None \<Rightarrow> [] | Some cs \<Rightarrow> cs)"

definition call_targets :: "trace_state \<Rightarrow> val \<Rightarrow> fn list" where
  "call_targets st ci = (case CallTargets (graph st) ci of None \<Rightarrow> [] | Some ts \<Rightarrow> ts)"

definition set_targets :: "val \<Rightarrow> fn list \<Rightarrow> trace_state \<Rightarrow> trace_state" where
  "set_targets ci ts st = st\<lparr>graph := (graph st)\<lparr>CallTargets := (CallTargets (graph st))(ci \<mapsto> ts)\<rparr>\<rparr>"

definition add_caller :: "fn \<Rightarrow> val \<Rightarrow> fn \<Rightarrow> trace_state \<Rightarrow> trace_state" where
  "add_caller T ci F st = st\<lparr>KnownCallers := (KnownCallers st)(T \<mapsto> known_callers st T @ [(ci, F)])\<rparr>"

text \<open>The fourth argument: whether the known callers of \<open>F\<close> are being iterated over.\<close>

definition add_target :: "val \<Rightarrow> fn \<Rightarrow> fn \<Rightarrow> bool \<Rightarrow> trace_state \<Rightarrow> trace_state" where
  "add_target ci F T iterating st =
     (if T \<in> set (call_targets st ci) then st
      else
        (add_caller T ci F (set_targets ci (call_targets st ci @ [T]) st))
          \<lparr>Changed := True,
           may_dangle := may_dangle st \<or> iterating \<and> (KnownCallers st T = None \<or> T = F)\<rparr>)"

definition seed_call :: "ir_mod \<Rightarrow> fn \<Rightarrow> val \<Rightarrow> trace_state \<Rightarrow> trace_state" where
  "seed_call M F ci st =
     (case val_of (ir M) ci of
       VInst (CallInst callee _ _ _) \<Rightarrow>
         (case getCalledFunction (ir M) callee of
           None \<Rightarrow> st
         | Some T \<Rightarrow>
             (let st = add_caller T ci F st in
              if isIntrinsic (fn_of M T) \<or> isDeclaration (fn_of M T) then st
              else
                (let st = set_targets ci (call_targets st ci @ [T]) st in
                 case entry_point (fn_of M T) of None \<Rightarrow> st | Some a \<Rightarrow> discover a st)))
     | _ \<Rightarrow> st)"

definition seed :: "ir_mod \<Rightarrow> trace_state \<Rightarrow> trace_state" where
  "seed M st = fold (\<lambda>F. fold (seed_call M F) (fn_insts (fn_of M F))) (fns M) st"

definition is_indirect :: "llvm \<Rightarrow> val \<Rightarrow> bool" where
  "is_indirect L ci =
     (case val_of L ci of
       VInst (CallInst callee _ asm _) \<Rightarrow> getCalledFunction L callee = None \<and> \<not> asm
     | _ \<Rightarrow> False)"

definition called_operand :: "llvm \<Rightarrow> val \<Rightarrow> val" where
  "called_operand L ci = (case val_of L ci of VInst (CallInst callee _ _ _) \<Rightarrow> callee | _ \<Rightarrow> ci)"

definition call_args :: "llvm \<Rightarrow> val \<Rightarrow> val list" where
  "call_args L ci = (case val_of L ci of VInst (CallInst _ as _ _) \<Rightarrow> as | _ \<Rightarrow> [])"

definition trace_addr :: "llvm \<Rightarrow> val \<Rightarrow> 64 word option" where
  "trace_addr L ci = (case val_of L ci of VInst (CallInst _ _ _ addr) \<Rightarrow> addr | _ \<Rightarrow> None)"

definition resolve_constant ::
  "ir_mod \<Rightarrow> (64 word \<rightharpoonup> fn) \<Rightarrow> val \<Rightarrow> fn \<Rightarrow> bool \<Rightarrow> ir_constant \<Rightarrow> trace_state \<Rightarrow> trace_state" where
  "resolve_constant M EP ci F iterating c st =
     (case extractFunctionHandle c of
       Some T \<Rightarrow> if T \<in> set (fns M) then add_target ci F T iterating st else st
     | None \<Rightarrow>
         if extractAddr c = 0 then st
         else
           (let st = discover (extractAddr c) st in
            case EP (extractAddr c) of None \<Rightarrow> st | Some T \<Rightarrow> add_target ci F T iterating st))"

definition tryResolve ::
  "nat \<Rightarrow> ir_mod \<Rightarrow> (64 word \<rightharpoonup> fn) \<Rightarrow> val \<Rightarrow> fn \<Rightarrow> bool \<Rightarrow> subst \<Rightarrow> trace_state \<Rightarrow> trace_error + trace_state" where
  "tryResolve n M EP ci F iterating S st =
     err_bind (evalConstTargets n n (ir M) S {} (called_operand (ir M) ci) []) (\<lambda>Cs.
       Inr (fold (resolve_constant M EP ci F iterating) Cs st))"

definition bind_arg ::
  "nat \<Rightarrow> llvm \<Rightarrow> val \<times> val \<Rightarrow> subst \<times> cache \<Rightarrow> trace_error + subst \<times> cache" where
  "bind_arg n L ap SC =
     err_bind (tryEvalConst n L Map.empty (fst ap) (snd SC)) (\<lambda>(r, C).
       Inr (case r of None \<Rightarrow> fst SC | Some c \<Rightarrow> (fst SC)(snd ap \<mapsto> c), C))"

definition site_subst :: "nat \<Rightarrow> ir_mod \<Rightarrow> val \<Rightarrow> fn \<Rightarrow> trace_error + subst" where
  "site_subst n M site F =
     err_bind (err_fold (bind_arg n (ir M)) (zip (call_args (ir M) site) (fn_args (fn_of M F))) (Map.empty, Map.empty))
       (\<lambda>SC. Inr (fst SC))"

definition from_caller ::
  "nat \<Rightarrow> ir_mod \<Rightarrow> (64 word \<rightharpoonup> fn) \<Rightarrow> fn \<Rightarrow> val \<Rightarrow> val \<times> fn \<Rightarrow> trace_state \<Rightarrow> trace_error + trace_state" where
  "from_caller n M EP F ci site st =
     err_bind (site_subst n M (fst site) F) (\<lambda>S.
       if list_ex (\<lambda>p. S p \<noteq> None) (fn_args (fn_of M F)) then tryResolve n M EP ci F True S st
       else Inr st)"

definition visit_call ::
  "nat \<Rightarrow> ir_mod \<Rightarrow> (64 word \<rightharpoonup> fn) \<Rightarrow> fn \<Rightarrow> val \<Rightarrow> trace_state \<Rightarrow> trace_error + trace_state" where
  "visit_call n M EP F ci st =
     (if \<not> is_indirect (ir M) ci then Inr st
      else
        err_bind (tryResolve n M EP ci F False Map.empty st) (\<lambda>st.
          err_fold (from_caller n M EP F ci) (known_callers st F) st))"

definition for_calls ::
  "ir_mod \<Rightarrow> (fn \<Rightarrow> val \<Rightarrow> trace_state \<Rightarrow> trace_error + trace_state) \<Rightarrow> trace_state \<Rightarrow> trace_error + trace_state" where
  "for_calls M visit st =
     err_fold (\<lambda>F st.
       if isDeclaration (fn_of M F) then Inr st else err_fold (visit F) (fn_insts (fn_of M F)) st) (fns M) st"

subsection \<open>Payloads\<close>

definition payload_write :: "nat \<Rightarrow> ir_mod \<Rightarrow> val \<Rightarrow> trace_error + (32 word \<times> ir_constant list) list" where
  "payload_write n IM ci =
     (case val_of (ir IM) ci of
       VInst (CallInst callee as _ _) \<Rightarrow>
         (case getCalledFunction (ir IM) callee of
           None \<Rightarrow> Inr []
         | Some f \<Rightarrow>
             if intrinsic_attr (fn_of IM f) \<noteq> Some ''luthier::writeReg'' \<or> length as < 2 then Inr []
             else
               (case val_of (ir IM) (as ! 0) of
                 VConstant (ConstantInt _ d) \<Rightarrow>
                   err_bind (evalConstTargets n n (ir IM) Map.empty {} (as ! 1) []) (\<lambda>Values.
                     Inr (if Values = [] then [] else [(ucast d, Values)]))
               | _ \<Rightarrow> Inr []))
     | _ \<Rightarrow> Inr [])"

definition collectPayloadWrites :: "nat \<Rightarrow> ir_mod \<Rightarrow> fn \<Rightarrow> trace_error + (32 word \<times> ir_constant list) list" where
  "collectPayloadWrites n IM Payload =
     err_fold (\<lambda>ci Out. err_bind (payload_write n IM ci) (\<lambda>W. Inr (Out @ W))) (fn_insts (fn_of IM Payload)) []"

definition buildTraceAddrToMIMap :: "inst_point list \<Rightarrow> (64 word \<rightharpoonup> inst_point)" where
  "buildTraceAddrToMIMap ps =
     fold (\<lambda>p m. case ip_addr p of None \<Rightarrow> m | Some a \<Rightarrow> m(a \<mapsto> p)) ps Map.empty"

definition resolve_write ::
  "ir_mod \<Rightarrow> (64 word \<rightharpoonup> fn) \<Rightarrow> val \<Rightarrow> fn \<Rightarrow> fn \<Rightarrow> 32 word \<Rightarrow> ir_constant \<Rightarrow> trace_state \<Rightarrow> trace_state" where
  "resolve_write M EP ci F Payload Dest c st =
     (let (TgtFn, st) =
        (case extractFunctionHandle c of
          Some T \<Rightarrow> (Some T, st)
        | None \<Rightarrow>
            if extractAddr c = 0 then (None, st) else (EP (extractAddr c), discover (extractAddr c) st))
      in case TgtFn of
          None \<Rightarrow> st
        | Some T \<Rightarrow>
            if T \<in> set (fns M) then add_target ci F T False st
            else st\<lparr>emitted_errors := emitted_errors st @ [(Payload, F, Dest, T)]\<rparr>)"

definition consult_payload ::
  "nat \<Rightarrow> ir_mod \<Rightarrow> ir_mod \<Rightarrow> (64 word \<rightharpoonup> fn) \<Rightarrow> fn \<Rightarrow> val \<Rightarrow> fn \<Rightarrow> trace_state \<Rightarrow> trace_error + trace_state" where
  "consult_payload n M IM EP F ci Payload st =
     err_bind (collectPayloadWrites n IM Payload) (\<lambda>Writes.
       Inr (fold (\<lambda>W. fold (resolve_write M EP ci F Payload (fst W)) (snd W)) Writes st))"

definition visit_payload_site ::
  "nat \<Rightarrow> ir_mod \<Rightarrow> ir_mod \<Rightarrow> (64 word \<rightharpoonup> fn) \<Rightarrow> inst_point list \<Rightarrow> fn \<Rightarrow> val \<Rightarrow> trace_state \<Rightarrow>
    trace_error + trace_state" where
  "visit_payload_site n M IM EP Points F ci st =
     (if \<not> is_indirect (ir M) ci \<or> CallTargets (graph st) ci \<noteq> None then Inr st
      else
        (case trace_addr (ir M) ci of
          None \<Rightarrow> Inr st
        | Some a \<Rightarrow>
            (case buildTraceAddrToMIMap Points a of
              None \<Rightarrow> Inr st
            | Some MI \<Rightarrow> err_fold (consult_payload n M IM EP F ci) (ip_payloads MI) st)))"

definition resolveViaPayloads ::
  "nat \<Rightarrow> ir_mod \<Rightarrow> ir_mod \<Rightarrow> (64 word \<rightharpoonup> fn) \<Rightarrow> inst_point list \<Rightarrow> trace_state \<Rightarrow> trace_error + trace_state" where
  "resolveViaPayloads n M IM EP Points st =
     (if Points = [] then Inr st else for_calls M (visit_payload_site n M IM EP Points) st)"

subsection \<open>The fixed point\<close>

definition trace_pass ::
  "nat \<Rightarrow> ir_mod \<Rightarrow> ir_mod \<Rightarrow> (64 word \<rightharpoonup> fn) \<Rightarrow> inst_point list \<Rightarrow> trace_state \<Rightarrow> trace_error + trace_state" where
  "trace_pass n M IM EP Points st =
     err_bind (for_calls M (visit_call n M EP) (st\<lparr>Changed := False\<rparr>)) (\<lambda>st.
       if Changed st then Inr st else resolveViaPayloads n M IM EP Points st)"

primrec trace_loop ::
  "nat \<Rightarrow> (trace_state \<Rightarrow> trace_error + trace_state) \<Rightarrow> trace_state \<Rightarrow> trace_error + trace_state" where
  "trace_loop 0 pass st = Inl OutOfFuel"
| "trace_loop (Suc m) pass st =
     (if Changed st then err_bind (pass st) (trace_loop m pass) else Inr st)"

definition mark_site :: "ir_mod \<Rightarrow> val \<Rightarrow> trace_state \<Rightarrow> trace_state" where
  "mark_site M ci st =
     (if is_indirect (ir M) ci \<and> CallTargets (graph st) ci = None then
        st\<lparr>graph := (graph st)
          \<lparr>IncompleteCallSites := insert ci (IncompleteCallSites (graph st)), FullyRecovered := False\<rparr>\<rparr>
      else st)"

definition mark_incomplete :: "ir_mod \<Rightarrow> trace_state \<Rightarrow> trace_state" where
  "mark_incomplete M st =
     fold (\<lambda>F st. if isDeclaration (fn_of M F) then st else fold (mark_site M) (fn_insts (fn_of M F)) st) (fns M) st"

definition initial_trace :: trace_state where
  "initial_trace =
     \<lparr>graph = \<lparr>CallTargets = Map.empty, DiscoveredCallTargetAddresses = {}, IncompleteCallSites = {},
        FullyRecovered = True\<rparr>,
      KnownCallers = Map.empty, Changed = True, emitted_errors = [], may_dangle = False\<rparr>"

text \<open>The fuel \<open>n\<close> bounds the passes, the depth of an evaluation and the chains of pointer casts.\<close>

definition runTrace :: "nat \<Rightarrow> ir_mod \<Rightarrow> ir_mod \<Rightarrow> inst_point list \<Rightarrow> trace_error + trace_state" where
  "runTrace n M IM Points =
     err_bind (EntryPointToDevFunc M) (\<lambda>EP.
     err_bind (trace_loop n (trace_pass n M IM EP Points) (seed M initial_trace)) (\<lambda>st.
       Inr (mark_incomplete M st)))"


end
