(* ===== verification/Call_Graph_Tracing.thy ===== *)
theory Call_Graph_Tracing
  imports Call_Graph
begin

text \<open>
  What the tracing of a callee operand finds. Soundness: every constant it returns is one that the rules of
  the IR allow (the locales \<open>tracing\<close> and \<open>fan_out\<close>, interpreted on the relation \<open>possible\<close> and on the
  states of the program). Completeness: on a traceable operand it returns the constant of every state.
\<close>

subsection \<open>Soundness of the tracing\<close>

text \<open>
  A relation between values and constants that is closed under the rules by which the code computes:
  \<open>tracing\<close> for one constant, \<open>fan_out\<close> for the sets. The tracing stays inside every such relation.
\<close>

definition matching_store :: "llvm \<Rightarrow> val \<Rightarrow> val \<Rightarrow> bool" where
  "matching_store L SI LI \<longleftrightarrow> (\<exists>n. storeMatchesLoad n L SI LI = Inr True)"

definition folds :: "ir_inst \<Rightarrow> bool" where
  "folds i = (case i of PHINode _ \<Rightarrow> False | LoadInst _ _ \<Rightarrow> False | _ \<Rightarrow> True)"

locale tracing =
  fixes L :: llvm and S :: subst and Q :: "val \<Rightarrow> ir_constant \<Rightarrow> bool"
  assumes Q_const: "val_of L v = VConstant c \<Longrightarrow> Q v c"
    and Q_subst: "\<nexists>d. val_of L v = VConstant d \<Longrightarrow> S v = Some c \<Longrightarrow> Q v c"
    and Q_getpc: "val_of L v = VInst (CallInst f as asm (Some a)) \<Longrightarrow> getIntrinsicID L f = S_GETPC \<Longrightarrow>
      Q v (ConstantInt (ty_of L v) (a + 4))"
    and Q_copy: "val_of L v = VInst (CallInst f as asm addr) \<Longrightarrow> getIntrinsicID L f = SSA_COPY \<Longrightarrow>
      Q (hd as) c \<Longrightarrow> Q v c"
    and Q_load: "val_of L v = VInst (LoadInst True p) \<Longrightarrow> clobbering L v = MemoryDef (Some SI) \<Longrightarrow>
      matching_store L SI v \<Longrightarrow> Q (stored_value L SI) c \<Longrightarrow> to_load_type L v c = Some d \<Longrightarrow> Q v d"
    and Q_fold: "val_of L v = VInst i \<Longrightarrow> folds i \<Longrightarrow> list_all2 Q (operands_of i) cs \<Longrightarrow>
      fold_inst L v cs = Some c \<Longrightarrow> Q v c"
begin

definition cache_ok :: "cache \<Rightarrow> bool" where
  "cache_ok C \<longleftrightarrow> (\<forall>v c. C v = Some (Some c) \<longrightarrow> Q v c)"

lemma cache_ok_upd: "cache_ok C \<Longrightarrow> (\<And>c. r = Some c \<Longrightarrow> Q v c) \<Longrightarrow> cache_ok (C(v \<mapsto> r))"
  by (auto simp: cache_ok_def)

definition sound :: "(val \<Rightarrow> cache \<Rightarrow> trace_error + ir_constant option \<times> cache) \<Rightarrow> bool" where
  "sound ev \<longleftrightarrow> (\<forall>v C r C'. ev v C = Inr (r, C') \<longrightarrow> cache_ok C \<longrightarrow> cache_ok C' \<and> (\<forall>c. r = Some c \<longrightarrow> Q v c))"

lemma soundD:
  "sound ev \<Longrightarrow> ev v C = Inr (r, C') \<Longrightarrow> cache_ok C \<Longrightarrow> cache_ok C' \<and> (\<forall>c. r = Some c \<longrightarrow> Q v c)"
  by (simp add: sound_def)

lemma eval_operands_sound:
  assumes "sound ev"
  shows "eval_operands ev vs C = Inr (rs, C') \<Longrightarrow> cache_ok C \<Longrightarrow>
    cache_ok C' \<and> (\<forall>cs. rs = Some cs \<longrightarrow> list_all2 Q vs cs)"
proof (induction vs arbitrary: C rs C')
  case Nil
  then show ?case by auto
next
  case (Cons v vs)
  from Cons.prems(1) obtain r C1 where 1: "ev v C = Inr (r, C1)"
    and 2: "(case r of None \<Rightarrow> Inr (None, C1) | Some c \<Rightarrow>
       err_bind (eval_operands ev vs C1) (\<lambda>(rs, C). Inr (map_option ((#) c) rs, C))) = Inr (rs, C')"
    by (auto simp: err_bind_Inr_iff)
  from soundD [OF assms 1 Cons.prems(2)] have C1: "cache_ok C1" and Qv: "\<And>c. r = Some c \<Longrightarrow> Q v c" by auto
  show ?case
  proof (cases r)
    case None
    then show ?thesis using 2 C1 by simp
  next
    case (Some c)
    with 2 obtain rs' where "eval_operands ev vs C1 = Inr (rs', C')" "rs = map_option ((#) c) rs'"
      by (auto simp: err_bind_Inr_iff)
    with Cons.IH C1 Qv [OF Some] show ?thesis by auto
  qed
qed

lemma fold_operands_sound:
  assumes "sound ev" and "val_of L V = VInst i" and "folds i"
    and "fold_operands L ev V i C = Inr (r, C')" and "cache_ok C"
  shows "cache_ok C' \<and> (\<forall>c. r = Some c \<longrightarrow> Q V c)"
proof -
  from assms(4) obtain rs C1 where ops: "eval_operands ev (operands_of i) C = Inr (rs, C1)"
    and r: "r = Option.bind rs (fold_inst L V)" "C' = C1(V \<mapsto> r)"
    by (auto simp: fold_operands_def err_bind_Inr_iff cached_def)
  from eval_operands_sound [OF assms(1) ops assms(5)] have C1: "cache_ok C1"
    and all: "\<And>cs. rs = Some cs \<Longrightarrow> list_all2 Q (operands_of i) cs" by auto
  have "Q V c" if "r = Some c" for c
    using Q_fold [OF assms(2,3) all] that r(1) by (cases rs) auto
  with cache_ok_upd [OF C1] r(2) show ?thesis by blast
qed

lemma eval_load_sound:
  assumes "sound ev" and "val_of L V = VInst (LoadInst True p)"
    and "eval_load n L ev V C = Inr (r, C')" and "cache_ok C"
  shows "cache_ok C' \<and> (\<forall>c. r = Some c \<longrightarrow> Q V c)"
proof (cases "\<exists>SI. clobbering L V = MemoryDef (Some SI) \<and> storeMatchesLoad n L SI V = Inr True")
  case True
  then obtain SI where SI: "clobbering L V = MemoryDef (Some SI)" "storeMatchesLoad n L SI V = Inr True" by blast
  with assms(3) obtain q C1 where ev: "ev (stored_value L SI) (C(V \<mapsto> None)) = Inr (q, C1)"
    and r: "r = Option.bind q (to_load_type L V)" "C' = C1(V \<mapsto> r)"
    by (auto simp: eval_load_def err_bind_Inr_iff cached_def)
  have "cache_ok (C(V \<mapsto> None))" using assms(4) by (rule cache_ok_upd) simp
  from soundD [OF assms(1) ev this] have C1: "cache_ok C1" and Qs: "\<And>c. q = Some c \<Longrightarrow> Q (stored_value L SI) c"
    by auto
  have "matching_store L SI V" using SI(2) by (auto simp: matching_store_def)
  then have "Q V c" if "r = Some c" for c
    using Q_load [OF assms(2) SI(1)] Qs that r(1) by (cases q) auto
  with cache_ok_upd [OF C1] r(2) show ?thesis by blast
next
  case False
  with assms(3) have "r = None \<and> C' = C(V \<mapsto> None)"
    by (auto simp: eval_load_def err_bind_Inr_iff cached_def split: mem_access.splits option.splits if_splits)
  with cache_ok_upd [OF assms(4), of None V] show ?thesis by simp
qed

lemma cached_sound:
  "Inr (cached V (q, C)) = Inr (r, C') \<Longrightarrow> cache_ok C \<Longrightarrow> (\<And>c. q = Some c \<Longrightarrow> Q V c) \<Longrightarrow>
   cache_ok C' \<and> (\<forall>c. r = Some c \<longrightarrow> Q V c)"
  using cache_ok_upd by (auto simp: cached_def)

lemma tryEvalConst_sound: "sound (tryEvalConst n L S)"
proof (induction n)
  case 0
  then show ?case by (simp add: sound_def)
next
  case (Suc n)
  show ?case unfolding sound_def
  proof (intro allI impI)
    fix V C r C'
    assume run: "tryEvalConst (Suc n) L S V C = Inr (r, C')" and C: "cache_ok C"
    show "cache_ok C' \<and> (\<forall>c. r = Some c \<longrightarrow> Q V c)"
    proof (cases "C V")
      case (Some q)
      then show ?thesis using run C by (auto simp: cache_ok_def)
    next
      case uncached: None
      show ?thesis
      proof (cases "val_of L V")
        case (VConstant c)
        then show ?thesis using run uncached Q_const
          by (intro cached_sound [OF _ C, of V "Some c"]) auto
      next
        case VArgument
        then show ?thesis using run uncached Q_subst
          by (intro cached_sound [OF _ C, of V "S V"]) auto
      next
        case (VInst i)
        show ?thesis
        proof (cases "S V")
          case (Some c)
          then show ?thesis using run uncached VInst Q_subst
            by (intro cached_sound [OF _ C, of V "Some c"]) auto
        next
          case nosubst: None
          note run' = run [simplified, unfolded uncached VInst nosubst, simplified]
          show ?thesis
          proof (cases i)
            case (PHINode ws)
            then show ?thesis using run' by (intro cached_sound [OF _ C, of V None]) auto
          next
            case (LoadInst simple p)
            show ?thesis
            proof (cases simple)
              case True
              then show ?thesis
                using eval_load_sound [OF Suc.IH _ _ C, of V p n r C'] run' VInst LoadInst by simp
            next
              case False
              then show ?thesis using run' LoadInst by (intro cached_sound [OF _ C, of V None]) auto
            qed
          next
            case (CallInst f as asm addr)
            consider "getIntrinsicID L f = S_GETPC" | "getIntrinsicID L f = SSA_COPY"
              | "getIntrinsicID L f \<noteq> S_GETPC" "getIntrinsicID L f \<noteq> SSA_COPY" by blast
            then show ?thesis
            proof cases
              case 1
              show ?thesis
                by (rule cached_sound [OF _ C, of V "map_option (\<lambda>a. ConstantInt (ty_of L V) (a + 4)) addr"])
                  (use 1 run' CallInst VInst Q_getpc in auto)
            next
              case 2
              then obtain q C1 where "tryEvalConst n L S (hd as) C = Inr (q, C1)" "Inr (cached V (q, C1)) = Inr (r, C')"
                using run' CallInst by (auto simp: err_bind_Inr_iff cached_def)
              with soundD [OF Suc.IH this(1) C] cached_sound [of V q C1 r C'] Q_copy [of V f as asm addr] VInst CallInst 2
              show ?thesis by auto
            next
              case 3
              then show ?thesis
                using fold_operands_sound [OF Suc.IH VInst _ _ C, of r C'] run' CallInst by (simp add: folds_def)
            qed
          qed (use fold_operands_sound [OF Suc.IH VInst _ _ C, of r C'] run' in \<open>simp_all add: folds_def\<close>)
        qed
      qed
    qed
  qed
qed

lemma tryEvalConst_fresh: "tryEvalConst n L S V Map.empty = Inr (Some c, C) \<Longrightarrow> Q V c"
  using soundD [OF tryEvalConst_sound, of n V Map.empty] by (auto simp: cache_ok_def)

end

locale fan_out = tracing +
  assumes Q_phi: "val_of L v = VInst (PHINode ws) \<Longrightarrow> w \<in> set ws \<Longrightarrow> Q w c \<Longrightarrow> Q v c"
    and Q_select: "val_of L v = VInst (SelectInst b t f) \<Longrightarrow> w = t \<or> w = f \<Longrightarrow> Q w c \<Longrightarrow> Q v c"
    and Q_cast: "val_of L v = VInst (CastInst op w) \<Longrightarrow> Q w c \<Longrightarrow> fold_cast L op c (ty_of L v) = Some d \<Longrightarrow> Q v d"
    and Q_memphi: "val_of L v = VInst (LoadInst True p) \<Longrightarrow> clobbering L v = MemoryPhi accs \<Longrightarrow> a \<in> set accs \<Longrightarrow>
      clobbering_at L a v = MemoryDef (Some SI) \<Longrightarrow> matching_store L SI v \<Longrightarrow> Q (stored_value L SI) c \<Longrightarrow>
      to_load_type L v c = Some d \<Longrightarrow> Q v d"
begin

lemma set_add_const: "set (add_const r Out) = set Out \<union> set_option r"
  by (auto simp: add_const_def split: option.splits)

lemma set_fold_add_const:
  "set (fold (\<lambda>c. add_const (g c)) cs Out) = set Out \<union> (\<Union>c\<in>set cs. set_option (g c))"
  by (induction cs arbitrary: Out) (auto simp: set_add_const)

definition sound_targets :: "(val \<Rightarrow> ir_constant list \<Rightarrow> trace_error + ir_constant list) \<Rightarrow> bool" where
  "sound_targets ev \<longleftrightarrow> (\<forall>V Out Out' c. ev V Out = Inr Out' \<longrightarrow> c \<in> set Out' \<longrightarrow> c \<in> set Out \<or> Q V c)"

lemma sound_targetsD: "sound_targets ev \<Longrightarrow> ev V Out = Inr Out' \<Longrightarrow> c \<in> set Out' \<Longrightarrow> c \<in> set Out \<or> Q V c"
  by (simp add: sound_targets_def)

lemma fold_targets_sound:
  assumes "\<And>w Out Out' c. w \<in> set ws \<Longrightarrow> ev w Out = Inr Out' \<Longrightarrow> c \<in> set Out' \<Longrightarrow> c \<in> set Out \<or> Q V c"
    and "err_fold ev ws Out = Inr Out'" and "c \<in> set Out'"
  shows "c \<in> set Out \<or> Q V c"
  using assms
proof (induction ws arbitrary: Out)
  case (Cons w ws)
  from Cons.prems(2) obtain Out1 where 1: "ev w Out = Inr Out1" and 2: "err_fold ev ws Out1 = Inr Out'"
    by (auto simp: err_bind_Inr_iff)
  have "c \<in> set Out1 \<or> Q V c"
    using Cons.prems(1,3) by (intro Cons.IH [OF _ 2]) auto
  with Cons.prems(1) [of w, OF _ 1] show ?case by auto
qed simp

lemma add_stored_sound:
  assumes "sound_targets ev" and "val_of L V = VInst (LoadInst True p)" and "clobbering L V = MemoryPhi accs"
    and "a \<in> set accs" and "add_stored k L ev V a Out = Inr Out'" and "c \<in> set Out'"
  shows "c \<in> set Out \<or> Q V c"
proof (cases "\<exists>SI. clobbering_at L a V = MemoryDef (Some SI) \<and> storeMatchesLoad k L SI V = Inr True")
  case True
  then obtain SI where SI: "clobbering_at L a V = MemoryDef (Some SI)" "storeMatchesLoad k L SI V = Inr True" by blast
  with assms(5) obtain vs where vs: "ev (stored_value L SI) [] = Inr vs"
    and Out': "Out' = fold (\<lambda>c. add_const (to_load_type L V c)) vs Out"
    by (auto simp: add_stored_def err_bind_Inr_iff)
  have m: "matching_store L SI V" using SI(2) by (auto simp: matching_store_def)
  from assms(6) Out' consider "c \<in> set Out" | d where "d \<in> set vs" "to_load_type L V d = Some c"
    by (auto simp: set_fold_add_const)
  then show ?thesis
  proof cases
    case 2
    with sound_targetsD [OF assms(1) vs] have "Q (stored_value L SI) d" by auto
    with Q_memphi [OF assms(2-4) SI(1) m] 2 show ?thesis by blast
  qed simp
next
  case False
  with assms(5) have "Out' = Out"
    by (auto simp: add_stored_def err_bind_Inr_iff split: mem_access.splits option.splits if_splits)
  with assms(6) show ?thesis by simp
qed

lemma evalConstTargets_sound: "sound_targets (evalConstTargets n k L S Active)"
proof (induction n arbitrary: Active)
  case 0
  then show ?case by (simp add: sound_targets_def)
next
  case (Suc n)
  show ?case unfolding sound_targets_def
  proof (intro allI impI)
    fix V Out Out' c
    assume run: "evalConstTargets (Suc n) k L S Active V Out = Inr Out'" and c: "c \<in> set Out'"
    let ?ev = "evalConstTargets n k L S (insert V Active)"
    from run obtain r C where r: "tryEvalConst k L S V Map.empty = Inr (r, C)"
      by (auto simp: err_bind_Inr_iff)
    note ev = Suc.IH [of "insert V Active"] and D = sound_targetsD [OF Suc.IH [of "insert V Active"]]
    show "c \<in> set Out \<or> Q V c"
    proof (cases r)
      case (Some d)
      then show ?thesis using run r c tryEvalConst_fresh [of k V d C] by (auto simp: set_add_const)
    next
      case None
      show ?thesis
      proof (cases "V \<in> Active")
        case True
        then show ?thesis using run r None c by simp
      next
        case False
        show ?thesis
        proof (cases "val_of L V")
          case (VInst i)
          note run' = run [simplified, unfolded r None, simplified False VInst Let_def, simplified]
          show ?thesis
          proof (cases i)
            case (PHINode ws)
            have "d \<in> set O1 \<or> Q V d" if "w \<in> set ws" "?ev w O1 = Inr O2" "d \<in> set O2" for w O1 O2 d
              using D [OF that(2,3)] Q_phi [OF VInst [unfolded PHINode] that(1)] by blast
            then show ?thesis using run' c PHINode by (intro fold_targets_sound [of ws ?ev V Out Out']) auto
          next
            case (SelectInst b t f)
            have "d \<in> set O1 \<or> Q V d" if "w \<in> set [t, f]" "?ev w O1 = Inr O2" "d \<in> set O2" for w O1 O2 d
              using D [OF that(2,3)] Q_select [OF VInst [unfolded SelectInst], of w] that(1) by auto
            then show ?thesis using run' c SelectInst by (intro fold_targets_sound [of "[t, f]" ?ev V Out Out']) auto
          next
            case (CastInst op w)
            with run' obtain Ops where Ops: "?ev w [] = Inr Ops"
              and Out': "Out' = fold (\<lambda>c. add_const (fold_cast L op c (ty_of L V))) Ops Out"
              by (auto simp: err_bind_Inr_iff)
            from c Out' consider "c \<in> set Out" | d where "d \<in> set Ops" "fold_cast L op d (ty_of L V) = Some c"
              by (auto simp: set_fold_add_const)
            then show ?thesis using D [OF Ops] Q_cast [of V op w] VInst CastInst by cases auto
          next
            case (LoadInst simple p)
            show ?thesis
            proof (cases "simple \<and> (\<exists>accs. clobbering L V = MemoryPhi accs)")
              case True
              then obtain accs where accs: "clobbering L V = MemoryPhi accs" by blast
              have load: "val_of L V = VInst (LoadInst True p)" using VInst LoadInst True by simp
              have "err_fold (add_stored k L ?ev V) accs Out = Inr Out'" using run' LoadInst True accs by simp
              then show ?thesis using c
                by (rule fold_targets_sound [rotated]) (rule add_stored_sound [OF ev load accs])
            next
              case False
              then show ?thesis using run' LoadInst c by (auto split: mem_access.splits if_splits)
            qed
          qed (use run' c in auto)
        qed (use run r None False c in auto)
      qed
    qed
  qed
qed

end

text \<open>The values that a value can have on some path, and a state of the program that respects the IR.\<close>

inductive possible :: "llvm \<Rightarrow> subst \<Rightarrow> val \<Rightarrow> ir_constant \<Rightarrow> bool" for L S where
  possible_const: "val_of L v = VConstant c \<Longrightarrow> possible L S v c"
| possible_subst: "\<nexists>d. val_of L v = VConstant d \<Longrightarrow> S v = Some c \<Longrightarrow> possible L S v c"
| possible_getpc: "val_of L v = VInst (CallInst f as asm (Some a)) \<Longrightarrow> getIntrinsicID L f = S_GETPC \<Longrightarrow>
    possible L S v (ConstantInt (ty_of L v) (a + 4))"
| possible_copy: "val_of L v = VInst (CallInst f as asm addr) \<Longrightarrow> getIntrinsicID L f = SSA_COPY \<Longrightarrow>
    possible L S (hd as) c \<Longrightarrow> possible L S v c"
| possible_load: "val_of L v = VInst (LoadInst True p) \<Longrightarrow> clobbering L v = MemoryDef (Some SI) \<Longrightarrow>
    matching_store L SI v \<Longrightarrow> possible L S (stored_value L SI) c \<Longrightarrow> to_load_type L v c = Some d \<Longrightarrow>
    possible L S v d"
| possible_fold: "val_of L v = VInst i \<Longrightarrow> folds i \<Longrightarrow> list_all2 (possible L S) (operands_of i) cs \<Longrightarrow>
    fold_inst L v cs = Some c \<Longrightarrow> possible L S v c"
| possible_phi: "val_of L v = VInst (PHINode ws) \<Longrightarrow> w \<in> set ws \<Longrightarrow> possible L S w c \<Longrightarrow> possible L S v c"
| possible_select: "val_of L v = VInst (SelectInst b t f) \<Longrightarrow> w = t \<or> w = f \<Longrightarrow> possible L S w c \<Longrightarrow>
    possible L S v c"
| possible_cast: "val_of L v = VInst (CastInst op w) \<Longrightarrow> possible L S w c \<Longrightarrow>
    fold_cast L op c (ty_of L v) = Some d \<Longrightarrow> possible L S v d"
| possible_memphi: "val_of L v = VInst (LoadInst True p) \<Longrightarrow> clobbering L v = MemoryPhi accs \<Longrightarrow>
    a \<in> set accs \<Longrightarrow> clobbering_at L a v = MemoryDef (Some SI) \<Longrightarrow> matching_store L SI v \<Longrightarrow>
    possible L S (stored_value L SI) c \<Longrightarrow> to_load_type L v c = Some d \<Longrightarrow> possible L S v d"

interpretation possible: fan_out L S "possible L S" for L S
  by unfold_locales (fact possible.intros)+

lemma targets_possible:
  "evalConstTargets n k L S A V Out = Inr Out' \<Longrightarrow> c \<in> set Out' \<Longrightarrow> c \<in> set Out \<or> possible L S V c"
  by (rule possible.sound_targetsD [OF possible.evalConstTargets_sound])

subsection \<open>Completeness on traceable operands\<close>

text \<open>
  A state \<open>\<rho>\<close> of the program that respects the IR, the constant folder, and what MemorySSA says about a
  load: it reads what its clobbering store wrote, or what one of the stores that reach it wrote.
\<close>

definition reads_store :: "llvm \<Rightarrow> (val \<Rightarrow> ir_constant) \<Rightarrow> val \<Rightarrow> mem_access \<Rightarrow> bool" where
  "reads_store L \<rho> v acc =
     (\<forall>SI c. acc = MemoryDef (Some SI) \<longrightarrow> matching_store L SI v \<longrightarrow>
       to_load_type L v (\<rho> (stored_value L SI)) = Some c \<longrightarrow> \<rho> v = c)"

definition respects_inst :: "llvm \<Rightarrow> (val \<Rightarrow> ir_constant) \<Rightarrow> val \<Rightarrow> ir_inst \<Rightarrow> bool" where
  "respects_inst L \<rho> v i =
     ((folds i \<longrightarrow> (\<forall>c. fold_inst L v (map \<rho> (operands_of i)) = Some c \<longrightarrow> \<rho> v = c)) \<and>
      (case i of
        PHINode ws \<Rightarrow> \<rho> v \<in> \<rho> ` set ws
      | SelectInst _ t f \<Rightarrow> \<rho> v = \<rho> t \<or> \<rho> v = \<rho> f
      | CastInst op w \<Rightarrow> (\<forall>c. fold_cast L op (\<rho> w) (ty_of L v) = Some c \<longrightarrow> \<rho> v = c)
      | LoadInst simple _ \<Rightarrow>
          simple \<longrightarrow>
            (case clobbering L v of
              MemoryPhi accs \<Rightarrow> (\<exists>a\<in>set accs. reads_store L \<rho> v (clobbering_at L a v))
            | acc \<Rightarrow> reads_store L \<rho> v acc)
      | CallInst f as _ addr \<Rightarrow>
          (getIntrinsicID L f = S_GETPC \<longrightarrow> (\<forall>a. addr = Some a \<longrightarrow> \<rho> v = ConstantInt (ty_of L v) (a + 4))) \<and>
          (getIntrinsicID L f = SSA_COPY \<longrightarrow> \<rho> v = \<rho> (hd as))
      | _ \<Rightarrow> True))"

definition consistent :: "llvm \<Rightarrow> subst \<Rightarrow> (val \<Rightarrow> ir_constant) \<Rightarrow> bool" where
  "consistent L S \<rho> =
     (\<forall>v. case val_of L v of
        VConstant c \<Rightarrow> \<rho> v = c
      | VArgument \<Rightarrow> (\<forall>c. S v = Some c \<longrightarrow> \<rho> v = c)
      | VInst i \<Rightarrow> (\<forall>c. S v = Some c \<longrightarrow> \<rho> v = c) \<and> respects_inst L \<rho> v i)"

lemma consistent_inst: "consistent L S \<rho> \<Longrightarrow> val_of L v = VInst i \<Longrightarrow> respects_inst L \<rho> v i"
  by (force simp: consistent_def dest: spec [of _ v])

lemma consistent_tracing:
  assumes "consistent L S \<rho>"
  shows "tracing L S (\<lambda>v c. \<rho> v = c)"
proof
  fix v c f as asm a i SI p d addr and cs :: "ir_constant list"
  show "val_of L v = VConstant c \<Longrightarrow> \<rho> v = c"
    using assms by (force simp: consistent_def dest: spec [of _ v])
  show "\<nexists>d. val_of L v = VConstant d \<Longrightarrow> S v = Some c \<Longrightarrow> \<rho> v = c"
    using assms by (cases "val_of L v") (force simp: consistent_def dest: spec [of _ v])+
  note inst = consistent_inst [OF assms, of v, unfolded respects_inst_def]
  show "val_of L v = VInst (CallInst f as asm (Some a)) \<Longrightarrow> getIntrinsicID L f = S_GETPC \<Longrightarrow>
      \<rho> v = ConstantInt (ty_of L v) (a + 4)"
    using inst by force
  show "val_of L v = VInst (CallInst f as asm addr) \<Longrightarrow> getIntrinsicID L f = SSA_COPY \<Longrightarrow> \<rho> (hd as) = c \<Longrightarrow> \<rho> v = c"
    using inst by force
  show "val_of L v = VInst (LoadInst True p) \<Longrightarrow> clobbering L v = MemoryDef (Some SI) \<Longrightarrow> matching_store L SI v \<Longrightarrow>
      \<rho> (stored_value L SI) = c \<Longrightarrow> to_load_type L v c = Some d \<Longrightarrow> \<rho> v = d"
    using inst by (force simp: reads_store_def)
  assume i: "val_of L v = VInst i" "folds i" and ops: "list_all2 (\<lambda>v c. \<rho> v = c) (operands_of i) cs"
    and c: "fold_inst L v cs = Some c"
  have "cs = map \<rho> (operands_of i)" using ops by (simp add: list_all2_conv_all_nth list_eq_iff_nth_eq)
  with inst [OF i(1)] i(2) c show "\<rho> v = c" by simp
qed

definition folds_to_const :: "nat \<Rightarrow> llvm \<Rightarrow> subst \<Rightarrow> val \<Rightarrow> bool" where
  "folds_to_const k L S V = (case tryEvalConst k L S V Map.empty of Inr (Some _, _) \<Rightarrow> True | _ \<Rightarrow> False)"

text \<open>
  An operand is traceable when the fan-out ends in constants only, within a depth: every arm of a phi or
  select, every store that reaches a load.
\<close>

definition arms :: "(val \<Rightarrow> bool) \<Rightarrow> nat \<Rightarrow> llvm \<Rightarrow> val \<Rightarrow> bool" where
  "arms T k L V =
     (case val_of L V of
       VInst (PHINode ws) \<Rightarrow> list_all T ws
     | VInst (SelectInst _ t f) \<Rightarrow> T t \<and> T f
     | VInst (CastInst op w) \<Rightarrow> T w
     | VInst (LoadInst simple p) \<Rightarrow>
         simple \<and>
         (case clobbering L V of
           MemoryPhi accs \<Rightarrow>
             list_all (\<lambda>a. case clobbering_at L a V of
               MemoryDef (Some SI) \<Rightarrow> storeMatchesLoad k L SI V = Inr True \<and> T (stored_value L SI)
             | _ \<Rightarrow> False) accs
         | _ \<Rightarrow> False)
     | _ \<Rightarrow> False)"

primrec traceable :: "nat \<Rightarrow> nat \<Rightarrow> llvm \<Rightarrow> subst \<Rightarrow> val \<Rightarrow> bool" where
  "traceable 0 k L S V = folds_to_const k L S V"
| "traceable (Suc d) k L S V = (folds_to_const k L S V \<or> arms (traceable d k L S) k L V)"

lemma arms_mono:
  assumes "\<And>v. T v \<Longrightarrow> T' v" and "arms T k L V"
  shows "arms T' k L V"
proof (cases "\<exists>simple p accs. val_of L V = VInst (LoadInst simple p) \<and> clobbering L V = MemoryPhi accs")
  case True
  then obtain simple p accs where *: "val_of L V = VInst (LoadInst simple p)" "clobbering L V = MemoryPhi accs" by blast
  let ?g = "\<lambda>T a. case clobbering_at L a V of
      MemoryDef (Some SI) \<Rightarrow> storeMatchesLoad k L SI V = Inr True \<and> T (stored_value L SI) | _ \<Rightarrow> False"
  have "?g T' a" if "?g T a" for a
    using that assms(1) by (cases "clobbering_at L a V") (auto split: option.splits)
  with assms(2) show ?thesis by (simp add: arms_def * list_all_iff)
next
  case False
  show ?thesis
  proof (cases "val_of L V")
    case (VInst i)
    then show ?thesis
    proof (cases i)
      case (LoadInst simple p)
      then show ?thesis using assms(2) VInst False by (cases "clobbering L V") (auto simp: arms_def)
    qed (use assms in \<open>simp_all add: arms_def list_all_iff\<close>)
  qed (use assms(2) in \<open>simp_all add: arms_def\<close>)
qed

lemma traceable_mono: "traceable d k L S V \<Longrightarrow> traceable (Suc d) k L S V"
proof (induction d arbitrary: V)
  case (Suc d)
  from Suc.prems arms_mono [of "traceable d k L S" "traceable (Suc d) k L S", OF Suc.IH]
  show ?case by (simp only: traceable.simps(2)) blast
qed simp

lemma add_const_mono: "set Out \<subseteq> set (add_const r Out)"
  by (auto simp: add_const_def split: option.splits)

lemma fold_add_const_mono: "set Out \<subseteq> set (fold (\<lambda>c. add_const (g c)) cs Out)"
proof (induction cs arbitrary: Out)
  case (Cons c cs)
  show ?case using subset_trans [OF add_const_mono Cons.IH] by simp
qed simp

lemma fold_add_const_mem:
  "c \<in> set cs \<Longrightarrow> g c = Some d \<Longrightarrow> d \<in> set (fold (\<lambda>c. add_const (g c)) cs Out)"
proof (induction cs arbitrary: Out)
  case (Cons a cs)
  show ?case
  proof (cases "a = c")
    case True
    then have "d \<in> set (add_const (g a) Out)" using Cons.prems(2) by (simp add: add_const_def)
    with subsetD [OF fold_add_const_mono this, of g cs] show ?thesis by simp
  qed (use Cons in simp)
qed simp

lemma err_fold_mono:
  assumes "\<And>w Out Out'. ev w Out = Inr Out' \<Longrightarrow> set Out \<subseteq> set Out'" and "err_fold ev ws Out = Inr Out'"
  shows "set Out \<subseteq> set Out'"
  using assms(2) by (induction ws arbitrary: Out) (auto simp: err_bind_Inr_iff dest!: assms(1))

lemma targets_cases:
  assumes "evalConstTargets (Suc n) k L S A V Out = Inr Out'"
  obtains (const) c C where "tryEvalConst k L S V Map.empty = Inr (Some c, C)" "Out' = add_const (Some c) Out"
  | (phi) ws where "val_of L V = VInst (PHINode ws)" "V \<notin> A"
      "err_fold (evalConstTargets n k L S (insert V A)) ws Out = Inr Out'"
  | (select) b t f where "val_of L V = VInst (SelectInst b t f)" "V \<notin> A"
      "err_fold (evalConstTargets n k L S (insert V A)) [t, f] Out = Inr Out'"
  | (cast) op w Ops where "val_of L V = VInst (CastInst op w)" "V \<notin> A"
      "evalConstTargets n k L S (insert V A) w [] = Inr Ops"
      "Out' = fold (\<lambda>c. add_const (fold_cast L op c (ty_of L V))) Ops Out"
  | (load) p accs where "val_of L V = VInst (LoadInst True p)" "V \<notin> A" "clobbering L V = MemoryPhi accs"
      "err_fold (add_stored k L (evalConstTargets n k L S (insert V A)) V) accs Out = Inr Out'"
  | (nothing) "Out' = Out" "V \<in> A \<or> (\<forall>d. \<not> traceable d k L S V)"
proof -
  from assms obtain r C where r: "tryEvalConst k L S V Map.empty = Inr (r, C)"
    by (auto simp: err_bind_Inr_iff)
  note run = assms [unfolded evalConstTargets.simps r err_bind.simps]
  show thesis
  proof (cases r)
    case (Some c)
    then show ?thesis using run r by (intro const [of c C]) simp_all
  next
    case None
    have nf: "\<not> folds_to_const k L S V" using None r by (simp add: folds_to_const_def)
    show ?thesis
    proof (cases "V \<in> A")
      case True
      with run None have "Out' = Out" by simp
      then show ?thesis by (rule nothing) (use True in simp)
    next
      case False
      have nothing': thesis if "Out = Out'" "\<And>d. \<not> traceable d k L S V"
        by (rule nothing) (use that in simp_all)
      have stuck: "\<not> traceable d k L S V" if "\<And>T. \<not> arms T k L V" for d
        using that nf by (cases d) simp_all
      note run' = run [simplified None, simplified False Let_def, simplified]
      show ?thesis
      proof (cases "val_of L V")
        case (VInst i)
        show ?thesis
        proof (cases i)
          case (CastInst op w)
          then show ?thesis using run' VInst False by (auto simp: err_bind_Inr_iff intro: cast)
        next
          case (LoadInst b p)
          show ?thesis
          proof (cases "b \<and> (\<exists>accs. clobbering L V = MemoryPhi accs)")
            case True
            then show ?thesis using run' VInst LoadInst False by (auto intro: load)
          next
            case False
            then have "Out' = Out" using run' VInst LoadInst by (auto split: mem_access.splits if_splits)
            moreover have "\<not> arms T k L V" for T
              using False VInst LoadInst by (auto simp: arms_def split: mem_access.splits)
            then have "V \<in> A \<or> (\<forall>d. \<not> traceable d k L S V)" using stuck by blast
            ultimately show ?thesis by (rule nothing)
          qed
        qed (use run' VInst False stuck phi select nothing' in \<open>auto simp: arms_def\<close>)
      qed (use run' stuck nothing' in \<open>auto simp: arms_def\<close>)
    qed
  qed
qed

lemma add_stored_mono: "add_stored k L ev V a Out = Inr Out' \<Longrightarrow> set Out \<subseteq> set Out'"
  using fold_add_const_mono [of Out "to_load_type L V"]
  by (auto simp: add_stored_def err_bind_Inr_iff split: mem_access.splits option.splits if_splits)

lemma targets_mono: "evalConstTargets n k L S A V Out = Inr Out' \<Longrightarrow> set Out \<subseteq> set Out'"
proof (induction n arbitrary: A V Out Out')
  case (Suc n)
  from Suc.prems show ?case
  proof (cases rule: targets_cases)
    case (phi ws)
    from err_fold_mono [OF Suc.IH phi(3)] show ?thesis .
  next
    case (select b t f)
    from err_fold_mono [OF Suc.IH select(3)] show ?thesis .
  next
    case (load p accs)
    from err_fold_mono [OF add_stored_mono load(4)] show ?thesis .
  next
    case (cast op w Ops)
    then show ?thesis using fold_add_const_mono by simp
  qed (use add_const_mono in auto)
qed simp

lemma err_fold_cover:
  assumes "\<And>w Out Out'. w \<in> set ws \<Longrightarrow> ev w Out = Inr Out' \<Longrightarrow> f w \<in> set Out'"
    and "\<And>w Out Out'. ev w Out = Inr Out' \<Longrightarrow> set Out \<subseteq> set Out'"
    and "err_fold ev ws Out = Inr Out'" and "w \<in> set ws"
  shows "f w \<in> set Out'"
  using assms(1,3,4)
proof (induction ws arbitrary: Out)
  case (Cons x ws)
  from Cons.prems(2) obtain O1 where O1: "ev x Out = Inr O1" "err_fold ev ws O1 = Inr Out'"
    by (auto simp: err_bind_Inr_iff)
  show ?case
  proof (cases "w = x")
    case True
    from err_fold_mono [OF assms(2) O1(2)] have "set O1 \<subseteq> set Out'" .
    with True Cons.prems(1) [OF _ O1(1)] show ?thesis by auto
  next
    case False
    with Cons.IH [OF _ O1(2)] Cons.prems(1,3) show ?thesis by auto
  qed
qed simp

lemma folds_to_const_cover:
  assumes "consistent L S \<rho>" and "folds_to_const k L S V" and "evalConstTargets n k L S A V Out = Inr Out'"
  shows "\<rho> V \<in> set Out'"
proof -
  from assms(2) obtain c C where c: "tryEvalConst k L S V Map.empty = Inr (Some c, C)"
    by (auto simp: folds_to_const_def split: sum.splits option.splits)
  have "\<rho> V = c" by (rule tracing.tryEvalConst_fresh [OF consistent_tracing [OF assms(1)] c])
  with assms(3) c show ?thesis by (cases n) (auto simp: add_const_def)
qed

lemma cast_cover:
  assumes "consistent L S \<rho>" and "val_of L V = VInst (CastInst op w)" and "fold_cast L op (\<rho> w) (ty_of L V) \<noteq> None"
    and "\<rho> w \<in> set Ops"
  shows "\<rho> V \<in> set (fold (\<lambda>c. add_const (fold_cast L op c (ty_of L V))) Ops Out)"
proof -
  from assms(3) obtain c where c: "fold_cast L op (\<rho> w) (ty_of L V) = Some c" by blast
  then have "\<rho> V = c" using consistent_inst [OF assms(1,2)] by (simp add: respects_inst_def)
  with fold_add_const_mem [OF assms(4), of _ c] c show ?thesis by simp
qed

lemma traceable_cover:
  assumes "consistent L S \<rho>" and casts: "\<forall>op c t. fold_cast L op c t \<noteq> None"
  shows "traceable d k L S V \<Longrightarrow> \<forall>a\<in>A. \<not> traceable d k L S a \<Longrightarrow>
    evalConstTargets n k L S A V Out = Inr Out' \<Longrightarrow> \<rho> V \<in> set Out'"
proof (induction d arbitrary: n A V Out Out')
  case 0
  with folds_to_const_cover [OF assms(1)] show ?case by simp
next
  case (Suc d)
  have A: "\<forall>a\<in>A. \<not> traceable d k L S a" using Suc.prems(2) traceable_mono by blast
  show ?case
  proof (cases "traceable d k L S V \<or> folds_to_const k L S V")
    case True
    with Suc.IH [OF _ A Suc.prems(3)] folds_to_const_cover [OF assms(1) _ Suc.prems(3)] show ?thesis by blast
  next
    case False
    then have A': "\<forall>a\<in>insert V A. \<not> traceable d k L S a" using A by blast
    note IH = Suc.IH [OF _ A'] and C = consistent_inst [OF assms(1), of V, unfolded respects_inst_def]
    obtain m where m: "n = Suc m" using Suc.prems(3) by (cases n) auto
    have nA: "V \<notin> A" using Suc.prems(1,2) by blast
    from Suc.prems(3) [unfolded m] show ?thesis
    proof (cases rule: targets_cases)
      case (const c C)
      with False show ?thesis by (simp add: folds_to_const_def)
    next
      case (phi ws)
      from Suc.prems(1) False phi(1) have "\<forall>w\<in>set ws. traceable d k L S w" by (simp add: arms_def list_all_iff)
      then have step: "\<rho> w \<in> set O2"
        if "w \<in> set ws" "evalConstTargets m k L S (insert V A) w O1 = Inr O2" for w O1 O2
        using IH [OF _ that(2)] that(1) by blast
      have "\<rho> w \<in> set Out'" if "w \<in> set ws" for w
        by (rule err_fold_cover [OF step targets_mono phi(3) that])
      with C [OF phi(1)] show ?thesis by (auto simp: image_iff)
    next
      case (select b t f)
      from Suc.prems(1) False select(1) have "\<forall>w\<in>set [t, f]. traceable d k L S w" by (simp add: arms_def)
      then have step: "\<rho> w \<in> set O2"
        if "w \<in> set [t, f]" "evalConstTargets m k L S (insert V A) w O1 = Inr O2" for w O1 O2
        using IH [OF _ that(2)] that(1) by blast
      have "\<rho> w \<in> set Out'" if "w \<in> set [t, f]" for w
        by (rule err_fold_cover [OF step targets_mono select(3) that])
      with C [OF select(1)] show ?thesis by auto
    next
      case (cast op w Ops)
      from Suc.prems(1) False cast(1) have "traceable d k L S w" by (simp add: arms_def)
      from IH [OF this cast(3)] have "\<rho> w \<in> set Ops" .
      with cast_cover [OF assms(1) cast(1)] casts cast(4) show ?thesis by simp
    next
      case (load p accs)
      from C [OF load(1)] load(3) obtain a where a: "a \<in> set accs" "reads_store L \<rho> V (clobbering_at L a V)"
        by auto
      let ?p = "\<lambda>x. case clobbering_at L x V of
          MemoryDef (Some SI) \<Rightarrow> storeMatchesLoad k L SI V = Inr True \<and> traceable d k L S (stored_value L SI)
        | _ \<Rightarrow> False"
      from Suc.prems(1) False load(1,3) have p: "list_all ?p accs" by (simp add: arms_def)
      have acc: "\<exists>SI. clobbering_at L x V = MemoryDef (Some SI) \<and> storeMatchesLoad k L SI V = Inr True \<and>
          traceable d k L S (stored_value L SI)" if "x \<in> set accs" for x
      proof -
        from p that have "?p x" by (simp add: list_all_iff)
        then show ?thesis by (cases "clobbering_at L x V") (auto split: option.splits)
      qed
      let ?f = "\<lambda>x. case clobbering_at L x V of
          MemoryDef (Some SI) \<Rightarrow> the (to_load_type L V (\<rho> (stored_value L SI))) | _ \<Rightarrow> \<rho> V"
      have stored: "?f x \<in> set O2" if x: "x \<in> set accs"
        and run: "add_stored k L (evalConstTargets m k L S (insert V A)) V x O1 = Inr O2" for x O1 O2
      proof -
        from acc [OF x] obtain SI where SI: "clobbering_at L x V = MemoryDef (Some SI)"
          "storeMatchesLoad k L SI V = Inr True" "traceable d k L S (stored_value L SI)" by blast
        from run SI obtain vs where vs: "evalConstTargets m k L S (insert V A) (stored_value L SI) [] = Inr vs"
          and O2: "O2 = fold (\<lambda>c. add_const (to_load_type L V c)) vs O1"
          by (auto simp: add_stored_def err_bind_Inr_iff)
        have "to_load_type L V (\<rho> (stored_value L SI)) \<noteq> None" using casts by (auto simp: to_load_type_def)
        then obtain c where "to_load_type L V (\<rho> (stored_value L SI)) = Some c" by blast
        with fold_add_const_mem [OF IH [OF SI(3) vs], of "to_load_type L V" c O1] SI(1) O2 show ?thesis by simp
      qed
      have in_Out: "?f a \<in> set Out'"
        by (rule err_fold_cover [OF stored add_stored_mono load(4) a(1)])
      from acc [OF a(1)] obtain SI where SI: "clobbering_at L a V = MemoryDef (Some SI)"
        "storeMatchesLoad k L SI V = Inr True" by blast
      have "to_load_type L V (\<rho> (stored_value L SI)) \<noteq> None" using casts by (auto simp: to_load_type_def)
      then obtain c where c: "to_load_type L V (\<rho> (stored_value L SI)) = Some c" by blast
      have "matching_store L SI V" using SI(2) by (auto simp: matching_store_def)
      with a(2) SI(1) c have "\<rho> V = c" by (simp add: reads_store_def)
      with in_Out SI(1) c show ?thesis by simp
    next
      case nothing
      with nA Suc.prems(1) show ?thesis by blast
    qed
  qed
qed


end
