(* ===== verification/Call_Graph_Fixpoint.thy ===== *)
theory Call_Graph_Fixpoint
  imports Call_Graph_Tracing
begin

text \<open>
  The passes of \<open>runTrace\<close>: what the last pass covers, the reason that every target has, what counts as
  incomplete, and the fuel that is enough. The state only grows (\<open>grows\<close>), a pass that changes nothing has
  looked at every call under every known caller, and each other pass adds a pair of a call and a function.
\<close>

subsection \<open>What the passes do to the state\<close>

definition names_function :: "ir_mod \<Rightarrow> (64 word \<rightharpoonup> fn) \<Rightarrow> ir_constant \<Rightarrow> fn \<Rightarrow> bool" where
  "names_function M EP c T =
     (case extractFunctionHandle c of
       Some T' \<Rightarrow> T' = T \<and> T \<in> set (fns M)
     | None \<Rightarrow> extractAddr c \<noteq> 0 \<and> EP (extractAddr c) = Some T)"

lemma err_fold_visit:
  assumes "err_fold f xs s = Inr t" and "x \<in> set xs"
    and refl: "\<And>u. R u u" and trans: "\<And>u v w. R u v \<Longrightarrow> R v w \<Longrightarrow> R u w"
    and step: "\<And>x u v. x \<in> set xs \<Longrightarrow> f x u = Inr v \<Longrightarrow> R u v"
  shows "\<exists>u v. R s u \<and> f x u = Inr v \<and> R v t"
  using assms(1,2,5)
proof (induction xs arbitrary: s)
  case (Cons y xs)
  from Cons.prems(1) obtain s' where s': "f y s = Inr s'" "err_fold f xs s' = Inr t"
    by (auto simp: err_bind_Inr_iff)
  show ?case
  proof (cases "x = y")
    case True
    have "R s' v" if "z \<in> set xs" "R s' u" "f z u = Inr v" for z u v
      using trans [OF that(2) Cons.prems(3) [OF _ that(3)]] that(1) by simp
    with s'(2) refl have "R s' t" by (rule err_fold_inv [where P = "R s'"])
    then show ?thesis using True s'(1) refl by blast
  next
    case False
    have "\<exists>u v. R s' u \<and> f x u = Inr v \<and> R v t"
      by (rule Cons.IH [OF s'(2)]) (use False Cons.prems(2,3) in auto)
    then obtain u v where "R s' u" "f x u = Inr v" "R v t" by blast
    with trans Cons.prems(3) [of y s s'] s'(1) show ?thesis by (metis list.set_intros(1))
  qed
qed simp

text \<open>Nothing is removed, and a state that ends unchanged has the targets and callers it began with.\<close>

definition grows :: "trace_state \<Rightarrow> trace_state \<Rightarrow> bool" where
  "grows u v \<longleftrightarrow>
     (\<forall>ci. set (call_targets u ci) \<subseteq> set (call_targets v ci)) \<and>
     (Changed u \<longrightarrow> Changed v) \<and>
     (\<not> Changed v \<longrightarrow> CallTargets (graph v) = CallTargets (graph u) \<and> KnownCallers v = KnownCallers u)"

lemma grows_refl: "grows u u"
  by (simp add: grows_def)

lemma grows_trans: "grows u v \<Longrightarrow> grows v w \<Longrightarrow> grows u w"
  unfolding grows_def by (metis subset_trans)

lemma grows_targets: "grows u v \<Longrightarrow> T \<in> set (call_targets u ci) \<Longrightarrow> T \<in> set (call_targets v ci)"
  by (auto simp: grows_def)

lemma grows_fold: "(\<And>x u. grows u (f x u)) \<Longrightarrow> grows u (fold f xs u)"
  by (induction xs arbitrary: u) (auto intro: grows_refl grows_trans)

lemma grows_err_fold:
  assumes "\<And>x u v. x \<in> set xs \<Longrightarrow> f x u = Inr v \<Longrightarrow> grows u v" and "err_fold f xs s = Inr t"
  shows "grows s t"
  using assms(2) grows_refl by (rule err_fold_inv [where P = "grows s"]) (use assms(1) grows_trans in blast)

lemma grows_discover: "grows st (discover a st)"
  by (simp add: grows_def discover_def call_targets_def)

lemma call_targets_add:
  "call_targets (add_target ci F T it st) ci' =
     (if ci' = ci \<and> T \<notin> set (call_targets st ci) then call_targets st ci @ [T] else call_targets st ci')"
  by (simp add: add_target_def call_targets_def set_targets_def add_caller_def)

lemma known_callers_add:
  "known_callers (add_target ci F T it st) G =
     (if G = T \<and> T \<notin> set (call_targets st ci) then known_callers st T @ [(ci, F)] else known_callers st G)"
  by (simp add: add_target_def set_targets_def add_caller_def known_callers_def)

lemma grows_add_target: "grows st (add_target ci F T it st)"
proof (cases "T \<in> set (call_targets st ci)")
  case True
  then show ?thesis by (simp add: add_target_def grows_refl)
next
  case False
  then have "Changed (add_target ci F T it st)" by (simp add: add_target_def)
  then show ?thesis by (auto simp: grows_def call_targets_add)
qed

lemma grows_resolve_constant: "grows st (resolve_constant M EP ci F it c st)"
  using grows_add_target grows_discover grows_trans grows_refl
  by (auto simp: resolve_constant_def Let_def split: option.splits) blast

lemma grows_error: "grows st (st\<lparr>emitted_errors := e\<rparr>)"
  by (simp add: grows_def call_targets_def)

lemma grows_resolve_write: "grows st (resolve_write M EP ci F P d c st)"
  using grows_trans [OF grows_discover grows_add_target] grows_trans [OF grows_discover grows_error]
  by (auto simp: resolve_write_def intro: grows_add_target grows_discover grows_error grows_refl split: option.splits)

lemma grows_tryResolve: "tryResolve n M EP ci F it S u = Inr v \<Longrightarrow> grows u v"
  by (auto simp: tryResolve_def err_bind_Inr_iff intro: grows_fold grows_resolve_constant)

lemma grows_from_caller: "from_caller n M EP F ci site u = Inr v \<Longrightarrow> grows u v"
  by (auto simp: from_caller_def err_bind_Inr_iff grows_refl dest: grows_tryResolve split: if_splits)

lemma grows_visit_call: "visit_call n M EP F ci u = Inr v \<Longrightarrow> grows u v"
  by (auto simp: visit_call_def err_bind_Inr_iff grows_refl split: if_splits
      dest!: grows_tryResolve grows_err_fold [OF grows_from_caller, rotated] intro: grows_trans)

lemma grows_consult_payload: "consult_payload n M IM EP F ci P u = Inr v \<Longrightarrow> grows u v"
  by (auto simp: consult_payload_def err_bind_Inr_iff intro!: grows_fold grows_resolve_write)

lemma grows_visit_payload_site: "visit_payload_site n M IM EP Ps F ci u = Inr v \<Longrightarrow> grows u v"
  by (auto simp: visit_payload_site_def grows_refl split: if_splits option.splits
      dest!: grows_err_fold [OF grows_consult_payload, rotated])

lemma grows_for_calls:
  assumes "\<And>F ci u v. visit F ci u = Inr v \<Longrightarrow> grows u v" and "for_calls M visit u = Inr v"
  shows "grows u v"
  using assms(2) unfolding for_calls_def
  by (rule grows_err_fold [rotated])
    (auto simp: grows_refl split: if_splits dest!: grows_err_fold [OF assms(1), rotated])

lemma grows_resolveViaPayloads: "resolveViaPayloads n M IM EP Ps u = Inr v \<Longrightarrow> grows u v"
  by (auto simp: resolveViaPayloads_def grows_refl split: if_splits
      dest!: grows_for_calls [OF grows_visit_payload_site, rotated])

lemma for_calls_visit:
  assumes "for_calls M visit s = Inr t" and "F \<in> set (fns M)" "\<not> isDeclaration (fn_of M F)"
    and "ci \<in> set (fn_insts (fn_of M F))"
    and step: "\<And>F ci u v. visit F ci u = Inr v \<Longrightarrow> grows u v"
  shows "\<exists>u v. grows s u \<and> visit F ci u = Inr v \<and> grows v t"
proof -
  have in_fn: "grows u v" if "(if isDeclaration (fn_of M F) then Inr u else err_fold (visit F) (fn_insts (fn_of M F)) u) = Inr v" for F u v
    using that by (auto simp: grows_refl split: if_splits dest!: grows_err_fold [OF step, rotated])
  have "\<exists>u v. grows s u \<and>
      (if isDeclaration (fn_of M F) then Inr u else err_fold (visit F) (fn_insts (fn_of M F)) u) = Inr v \<and> grows v t"
    by (rule err_fold_visit [where R = grows, OF assms(1) [unfolded for_calls_def] assms(2) grows_refl])
      (erule (1) grows_trans, rule in_fn)
  with assms(3) obtain u v where 1: "grows s u" "err_fold (visit F) (fn_insts (fn_of M F)) u = Inr v" "grows v t" by auto
  have "\<exists>u' v'. grows u u' \<and> visit F ci u' = Inr v' \<and> grows v' v"
    by (rule err_fold_visit [where R = grows, OF 1(2) assms(4) grows_refl grows_trans step])
  then obtain u' v' where "grows u u'" "visit F ci u' = Inr v'" "grows v' v" by auto
  with 1 grows_trans show ?thesis by blast
qed

lemma for_calls_inv:
  assumes "for_calls M visit s = Inr t" and "P s"
    and "\<And>F ci u v. F \<in> set (fns M) \<Longrightarrow> ci \<in> set (fn_insts (fn_of M F)) \<Longrightarrow> P u \<Longrightarrow> visit F ci u = Inr v \<Longrightarrow> P v"
  shows "P t"
  using assms(1,2) unfolding for_calls_def
proof (rule err_fold_inv)
  fix F u v
  assume F: "F \<in> set (fns M)" and u: "P u"
    and run: "(if isDeclaration (fn_of M F) then Inr u else err_fold (visit F) (fn_insts (fn_of M F)) u) = Inr v"
  show "P v"
  proof (cases "isDeclaration (fn_of M F)")
    case False
    with run have "err_fold (visit F) (fn_insts (fn_of M F)) u = Inr v" by simp
    then show ?thesis using u by (rule err_fold_inv) (use assms(3) F in blast)
  qed (use run u in simp)
qed

text \<open>A visited constant that names a function ends up in the targets.\<close>

lemma resolve_constant_adds:
  "names_function M EP c T \<Longrightarrow> T \<in> set (call_targets (resolve_constant M EP ci F it c st) ci)"
  by (auto simp: names_function_def resolve_constant_def call_targets_add Let_def split: option.splits)

lemma fold_resolve_adds:
  assumes "c \<in> set Cs" and "names_function M EP c T"
  shows "T \<in> set (call_targets (fold (resolve_constant M EP ci F it) Cs st) ci)"
  using assms(1)
proof (induction Cs arbitrary: st)
  case (Cons d Cs)
  show ?case
  proof (cases "c = d")
    case True
    from resolve_constant_adds [OF assms(2), of ci F it st] True
      grows_targets [OF grows_fold [OF grows_resolve_constant]]
    show ?thesis by simp
  qed (use Cons in simp)
qed simp

lemma tryResolve_covers:
  assumes "tryResolve n M EP ci F it S u = Inr v" and "consistent (ir M) S \<rho>"
    and "\<forall>op c t. fold_cast (ir M) op c t \<noteq> None" and "traceable d n (ir M) S (called_operand (ir M) ci)"
    and "names_function M EP (\<rho> (called_operand (ir M) ci)) T"
  shows "T \<in> set (call_targets v ci)"
proof -
  from assms(1) obtain Cs where Cs: "evalConstTargets n n (ir M) S {} (called_operand (ir M) ci) [] = Inr Cs"
    and v: "v = fold (resolve_constant M EP ci F it) Cs u"
    by (auto simp: tryResolve_def err_bind_Inr_iff)
  have "\<rho> (called_operand (ir M) ci) \<in> set Cs"
    by (rule traceable_cover [OF assms(2-4) _ Cs]) simp
  from fold_resolve_adds [OF this assms(5)] v show ?thesis by simp
qed

lemma site_subst_dom:
  assumes "site_subst n M site F = Inr S" and "S p \<noteq> None"
  shows "p \<in> set (fn_args (fn_of M F))"
proof -
  from assms(1) obtain C where
    "err_fold (bind_arg n (ir M)) (zip (call_args (ir M) site) (fn_args (fn_of M F))) (Map.empty, Map.empty) = Inr (S, C)"
    by (auto simp: site_subst_def err_bind_Inr_iff)
  then have "\<forall>p. fst (S, C) p \<noteq> None \<longrightarrow> p \<in> set (fn_args (fn_of M F))"
    by (rule err_fold_inv)
      (auto simp: bind_arg_def err_bind_Inr_iff dest: set_zip_rightD split: option.splits if_splits)
  with assms(2) show ?thesis by simp
qed

lemma trace_loop_last:
  assumes "trace_loop m pass st = Inr t"
  shows "\<not> Changed t \<and> (Changed st \<longrightarrow> (\<exists>u. pass u = Inr t))"
  using assms
proof (induction m arbitrary: st)
  case (Suc m)
  show ?case
  proof (cases "Changed st")
    case True
    with Suc.prems obtain x where x: "pass st = Inr x" "trace_loop m pass x = Inr t" by (auto simp: err_bind_Inr_iff)
    show ?thesis
    proof (cases "Changed x")
      case False
      with x(2) have "x = t" by (cases m) simp_all
      with x(1) False show ?thesis by blast
    qed (use Suc.IH [OF x(2)] in simp)
  qed (use Suc.prems in simp)
qed simp

lemma trace_loop_inv:
  assumes "trace_loop m pass st = Inr t" and "P st" and "\<And>u v. P u \<Longrightarrow> pass u = Inr v \<Longrightarrow> P v"
  shows "P t"
  using assms(1,2)
proof (induction m arbitrary: st)
  case (Suc m)
  then show ?case by (auto simp: err_bind_Inr_iff split: if_splits dest: assms(3))
qed simp

lemma mark_site_same:
  "CallTargets (graph (mark_site M ci st)) = CallTargets (graph st)" "KnownCallers (mark_site M ci st) = KnownCallers st"
  "Changed (mark_site M ci st) = Changed st"
  "DiscoveredCallTargetAddresses (graph (mark_site M ci st)) = DiscoveredCallTargetAddresses (graph st)"
  by (simp_all add: mark_site_def)

lemma mark_incomplete_same:
  "CallTargets (graph (mark_incomplete M st)) = CallTargets (graph st) \<and>
   KnownCallers (mark_incomplete M st) = KnownCallers st"
proof -
  have "CallTargets (graph (fold (mark_site M) cis u)) = CallTargets (graph u) \<and>
      KnownCallers (fold (mark_site M) cis u) = KnownCallers u" for cis u
    by (induction cis arbitrary: u) (simp_all add: mark_site_same)
  note in_fn = this
  show ?thesis unfolding mark_incomplete_def
    by (rule fold_invariant [where Q = "\<lambda>_. True" and P = "\<lambda>u. CallTargets (graph u) = CallTargets (graph st) \<and>
          KnownCallers u = KnownCallers st"])
      (auto simp: in_fn)
qed

lemma mark_incomplete_targets [simp]:
  "call_targets (mark_incomplete M st) = call_targets st" "known_callers (mark_incomplete M st) = known_callers st"
  using mark_incomplete_same [of M st] by (simp_all add: call_targets_def known_callers_def fun_eq_iff)

lemma seed_changed: "Changed (seed M st) = Changed st"
proof -
  have 1: "Changed (seed_call M F ci u) = Changed u" for F ci u
    by (auto simp: seed_call_def add_caller_def set_targets_def discover_def Let_def
        split: ir_value.splits ir_inst.splits option.splits)
  have 2: "Changed (fold (seed_call M F) cis u) = Changed u" for F cis u
    by (induction cis arbitrary: u) (simp_all add: 1)
  have "Changed (fold (\<lambda>F. fold (seed_call M F) (fn_insts (fn_of M F))) Fs u) = Changed u" for Fs u
    by (induction Fs arbitrary: u) (simp_all add: 2)
  then show ?thesis by (simp add: seed_def)
qed

lemma runTrace_last_pass:
  assumes "runTrace n M IM Points = Inr st"
  obtains EP u v t where "EntryPointToDevFunc M = Inr EP" "st = mark_incomplete M t" "\<not> Changed t"
    "for_calls M (visit_call n M EP) u = Inr v" "\<not> Changed v" "\<not> Changed u" "grows v t"
proof -
  from assms obtain EP t where EP: "EntryPointToDevFunc M = Inr EP"
    and loop: "trace_loop n (trace_pass n M IM EP Points) (seed M initial_trace) = Inr t"
    and st: "st = mark_incomplete M t"
    by (auto simp: runTrace_def err_bind_Inr_iff)
  have "Changed (seed M initial_trace)" by (simp add: seed_changed initial_trace_def)
  with trace_loop_last [OF loop] obtain u where t: "\<not> Changed t" "trace_pass n M IM EP Points u = Inr t" by blast
  then obtain v where v: "for_calls M (visit_call n M EP) (u\<lparr>Changed := False\<rparr>) = Inr v"
    and rest: "(if Changed v then Inr v else resolveViaPayloads n M IM EP Points v) = Inr t"
    by (auto simp: trace_pass_def err_bind_Inr_iff)
  have "\<not> Changed v" "grows v t" using rest t(1) grows_resolveViaPayloads by (auto split: if_splits)
  with that [OF EP st t(1) v] show thesis by simp
qed

lemma calls_covered:
  assumes run: "runTrace n M IM Points = Inr st" and EP: "EntryPointToDevFunc M = Inr EP"
    and F: "F \<in> set (fns M)" "\<not> isDeclaration (fn_of M F)" "ci \<in> set (fn_insts (fn_of M F))" "is_indirect (ir M) ci"
    and S: "S = Map.empty \<or> (\<exists>site g. (site, g) \<in> set (known_callers st F) \<and> site_subst n M site F = Inr S)"
    and \<rho>: "consistent (ir M) S \<rho>" and casts: "\<forall>op c t. fold_cast (ir M) op c t \<noteq> None"
    and tr: "traceable d n (ir M) S (called_operand (ir M) ci)"
    and T: "names_function M EP (\<rho> (called_operand (ir M) ci)) T"
  shows "T \<in> set (call_targets st ci)"
proof -
  from run obtain EP' u v t where "EntryPointToDevFunc M = Inr EP'" and st: "st = mark_incomplete M t"
    and t: "\<not> Changed t" and v: "for_calls M (visit_call n M EP') u = Inr v" "\<not> Changed v" and vt: "grows v t"
    by (rule runTrace_last_pass)
  with EP have EP': "EP' = EP" by simp
  have "\<exists>a b. grows u a \<and> visit_call n M EP' F ci a = Inr b \<and> grows b v"
    by (rule for_calls_visit [OF v(1) F(1-3) grows_visit_call])
  then obtain a b where
    ua: "grows u a" and ab: "visit_call n M EP F ci a = Inr b" and bv: "grows b v" unfolding EP' by blast
  have bt: "grows b t" using bv vt by (rule grows_trans)
  from ab F(4) obtain c where c: "tryResolve n M EP ci F False Map.empty a = Inr c"
    and cb: "err_fold (from_caller n M EP F ci) (known_callers c F) c = Inr b"
    by (auto simp: visit_call_def err_bind_Inr_iff)
  have cb': "grows c b" by (rule grows_err_fold [OF grows_from_caller cb])
  have phase1: "T \<in> set (call_targets st ci)" if "S = Map.empty"
  proof -
    have "T \<in> set (call_targets c ci)"
      using c \<rho> casts tr T unfolding that by (rule tryResolve_covers)
    from grows_targets [OF grows_trans [OF cb' bt] this] st show ?thesis by simp
  qed
  show ?thesis
  proof (cases "S = Map.empty")
    case False
    with S obtain site g where site: "(site, g) \<in> set (known_callers st F)" "site_subst n M site F = Inr S" by blast
    have "KnownCallers t = KnownCallers b" "\<not> Changed b" using bt t by (auto simp: grows_def)
    moreover from this(2) cb' have "KnownCallers b = KnownCallers c" by (auto simp: grows_def)
    ultimately have "known_callers st F = known_callers c F" using st by (simp add: known_callers_def)
    with site(1) have "(site, g) \<in> set (known_callers c F)" by simp
    then have "\<exists>p q. grows c p \<and> from_caller n M EP F ci (site, g) p = Inr q \<and> grows q b"
      by (rule err_fold_visit [where R = grows, OF cb _ grows_refl grows_trans grows_from_caller])
    then obtain p q where pq: "from_caller n M EP F ci (site, g) p = Inr q" "grows q b" by blast
    from False obtain x where "S x \<noteq> None" by (auto simp: fun_eq_iff)
    with site_subst_dom [OF site(2)] have "list_ex (\<lambda>p. S p \<noteq> None) (fn_args (fn_of M F))"
      by (auto simp: list_ex_iff)
    with pq(1) site(2) have "tryResolve n M EP ci F True S p = Inr q" by (simp add: from_caller_def)
    from tryResolve_covers [OF this \<rho> casts tr T] grows_targets [OF grows_trans [OF pq(2) bt]] st
    show ?thesis by simp
  qed (rule phase1)
qed

subsection \<open>Every target has a reason\<close>

definition calls :: "ir_mod \<Rightarrow> trace_state \<Rightarrow> val \<Rightarrow> fn \<Rightarrow> bool" where
  "calls M st site F \<longleftrightarrow>
     getCalledFunction (ir M) (called_operand (ir M) site) = Some F \<or> F \<in> set (call_targets st site)"

definition caller_subst :: "ir_mod \<Rightarrow> val \<Rightarrow> fn \<Rightarrow> subst \<Rightarrow> bool" where
  "caller_subst M site F S \<longleftrightarrow>
     (\<forall>p c. S p = Some c \<longrightarrow>
       (\<exists>a. (a, p) \<in> set (zip (call_args (ir M) site) (fn_args (fn_of M F))) \<and> possible (ir M) Map.empty a c))"

text \<open>A target found by tracing the callee operand, possibly under the arguments of one caller.\<close>

definition traced_target :: "ir_mod \<Rightarrow> (64 word \<rightharpoonup> fn) \<Rightarrow> trace_state \<Rightarrow> val \<Rightarrow> fn \<Rightarrow> bool" where
  "traced_target M EP st ci T \<longleftrightarrow>
     (\<exists>F S c. F \<in> set (fns M) \<and> ci \<in> set (fn_insts (fn_of M F)) \<and>
       (S = Map.empty \<or> (\<exists>site. calls M st site F \<and> caller_subst M site F S)) \<and>
       possible (ir M) S (called_operand (ir M) ci) c \<and> names_function M EP c T)"

text \<open>A target that a payload at the call writes to some register.\<close>

definition written_target ::
  "ir_mod \<Rightarrow> ir_mod \<Rightarrow> (64 word \<rightharpoonup> fn) \<Rightarrow> inst_point list \<Rightarrow> val \<Rightarrow> fn \<Rightarrow> bool" where
  "written_target M IM EP Points ci T \<longleftrightarrow>
     (\<exists>pt P w c. pt \<in> set Points \<and> ip_addr pt = trace_addr (ir M) ci \<and> P \<in> set (ip_payloads pt) \<and>
       w \<in> set (fn_insts (fn_of IM P)) \<and>
       (\<exists>f. getCalledFunction (ir IM) (called_operand (ir IM) w) = Some f \<and>
         intrinsic_attr (fn_of IM f) = Some ''luthier::writeReg'') \<and>
       possible (ir IM) Map.empty (call_args (ir IM) w ! 1) c \<and> names_function M EP c T)"

definition justified ::
  "ir_mod \<Rightarrow> ir_mod \<Rightarrow> (64 word \<rightharpoonup> fn) \<Rightarrow> inst_point list \<Rightarrow> trace_state \<Rightarrow> val \<Rightarrow> fn \<Rightarrow> bool" where
  "justified M IM EP Points st ci T \<longleftrightarrow>
     getCalledFunction (ir M) (called_operand (ir M) ci) = Some T \<or>
     traced_target M EP st ci T \<or> written_target M IM EP Points ci T"

definition all_justified :: "ir_mod \<Rightarrow> ir_mod \<Rightarrow> (64 word \<rightharpoonup> fn) \<Rightarrow> inst_point list \<Rightarrow> trace_state \<Rightarrow> bool" where
  "all_justified M IM EP Points st \<longleftrightarrow>
     (\<forall>ci T. T \<in> set (call_targets st ci) \<longrightarrow> justified M IM EP Points st ci T) \<and>
     (\<forall>F site g. (site, g) \<in> set (known_callers st F) \<longrightarrow> calls M st site F)"

lemma calls_mono: "calls M u site F \<Longrightarrow> grows u v \<Longrightarrow> calls M v site F"
  using grows_targets by (auto simp: calls_def)

lemma all_justifiedD:
  assumes "all_justified M IM EP Ps u"
  shows "T \<in> set (call_targets u ci) \<Longrightarrow> justified M IM EP Ps u ci T"
    and "site \<in> set (known_callers u F) \<Longrightarrow> calls M u (fst site) F"
  using assms [unfolded all_justified_def, THEN conjunct1] assms [unfolded all_justified_def, THEN conjunct2]
  by (blast, metis prod.collapse)

lemma all_justifiedI:
  assumes "\<And>ci T. T \<in> set (call_targets u ci) \<Longrightarrow> justified M IM EP Ps u ci T"
    and "\<And>F site. site \<in> set (known_callers u F) \<Longrightarrow> calls M u (fst site) F"
  shows "all_justified M IM EP Ps u"
  using assms(1) assms(2) [of "(_, _)"] unfolding all_justified_def by (metis fst_conv)

lemma justified_calls:
  assumes "justified M IM EP Ps u ci T" and "\<And>site F. calls M u site F \<Longrightarrow> calls M v site F"
  shows "justified M IM EP Ps v ci T"
proof -
  have "traced_target M EP v ci T" if "traced_target M EP u ci T"
  proof -
    from that obtain F S c where *: "F \<in> set (fns M)" "ci \<in> set (fn_insts (fn_of M F))"
      "S = Map.empty \<or> (\<exists>site. calls M u site F \<and> caller_subst M site F S)"
      "possible (ir M) S (called_operand (ir M) ci) c" "names_function M EP c T"
      unfolding traced_target_def by blast
    from *(3) assms(2) have "S = Map.empty \<or> (\<exists>site. calls M v site F \<and> caller_subst M site F S)" by blast
    with * show ?thesis unfolding traced_target_def by blast
  qed
  with assms(1) show ?thesis by (auto simp: justified_def)
qed

lemma justified_mono: "justified M IM EP Ps u ci T \<Longrightarrow> grows u v \<Longrightarrow> justified M IM EP Ps v ci T"
  by (erule justified_calls) (rule calls_mono)

lemma all_justified_same:
  "all_justified M IM EP Ps u \<Longrightarrow> call_targets v = call_targets u \<Longrightarrow> known_callers v = known_callers u \<Longrightarrow>
   all_justified M IM EP Ps v"
  by (simp add: all_justified_def justified_def traced_target_def calls_def)

lemma all_justified_discover: "all_justified M IM EP Ps u \<Longrightarrow> all_justified M IM EP Ps (discover a u)"
  by (erule all_justified_same) (simp_all add: discover_def call_targets_def known_callers_def fun_eq_iff)

lemma all_justified_add_target:
  assumes "all_justified M IM EP Ps u" and "justified M IM EP Ps u ci T"
  shows "all_justified M IM EP Ps (add_target ci F T it u)"
proof (rule all_justifiedI)
  let ?v = "add_target ci F T it u"
  have g: "grows u ?v" by (rule grows_add_target)
  fix c X assume "X \<in> set (call_targets ?v c)"
  then have "X \<in> set (call_targets u c) \<or> c = ci \<and> X = T" by (auto simp: call_targets_add split: if_splits)
  with assms(2) all_justifiedD(1) [OF assms(1)] have "justified M IM EP Ps u c X" by blast
  then show "justified M IM EP Ps ?v c X" using g by (rule justified_mono)
next
  let ?v = "add_target ci F T it u"
  fix G site assume "site \<in> set (known_callers ?v G)"
  then consider "site \<in> set (known_callers u G)" | "fst site = ci" "G = T"
    by (auto simp: known_callers_add split: if_splits)
  then show "calls M ?v (fst site) G"
  proof cases
    case 1
    from all_justifiedD(2) [OF assms(1) this] grows_add_target show ?thesis by (rule calls_mono)
  next
    case 2
    then show ?thesis by (auto simp: calls_def call_targets_add)
  qed
qed

lemma all_justified_resolve_constant:
  assumes "all_justified M IM EP Ps u" and "\<And>T. names_function M EP c T \<Longrightarrow> justified M IM EP Ps u ci T"
  shows "all_justified M IM EP Ps (resolve_constant M EP ci F it c u)"
proof (cases "extractFunctionHandle c")
  case (Some T)
  with assms show ?thesis
    by (auto simp: resolve_constant_def names_function_def intro: all_justified_add_target)
next
  case None
  have d: "all_justified M IM EP Ps (discover (extractAddr c) u)" using assms(1) by (rule all_justified_discover)
  have "justified M IM EP Ps (discover (extractAddr c) u) ci T" if "extractAddr c \<noteq> 0" "EP (extractAddr c) = Some T" for T
    using justified_mono [OF assms(2) grows_discover] None that by (simp add: names_function_def)
  with None d assms(1) show ?thesis
    by (auto simp: resolve_constant_def Let_def intro: all_justified_add_target split: option.splits)
qed

lemma all_justified_resolve_write:
  assumes "all_justified M IM EP Ps u" and "\<And>T. names_function M EP c T \<Longrightarrow> justified M IM EP Ps u ci T"
  shows "all_justified M IM EP Ps (resolve_write M EP ci F P d c u)"
proof (cases "extractFunctionHandle c")
  case (Some T)
  have "all_justified M IM EP Ps (u\<lparr>emitted_errors := e\<rparr>)" for e
    using assms(1) by (rule all_justified_same) (simp_all add: call_targets_def known_callers_def fun_eq_iff)
  with Some assms show ?thesis
    by (auto simp: resolve_write_def names_function_def intro: all_justified_add_target)
next
  case None
  have d: "all_justified M IM EP Ps (discover (extractAddr c) u)" using assms(1) by (rule all_justified_discover)
  have e: "all_justified M IM EP Ps ((discover (extractAddr c) u)\<lparr>emitted_errors := e\<rparr>)" for e
    using d by (rule all_justified_same) (simp_all add: call_targets_def known_callers_def fun_eq_iff)
  have "justified M IM EP Ps (discover (extractAddr c) u) ci T" if "extractAddr c \<noteq> 0" "EP (extractAddr c) = Some T" for T
    using justified_mono [OF assms(2) grows_discover] None that by (simp add: names_function_def)
  with None d e assms(1) show ?thesis
    by (auto simp: resolve_write_def intro: all_justified_add_target split: option.splits)
qed

lemma all_justified_fold:
  assumes "all_justified M IM EP Ps u"
    and step: "\<And>c v. c \<in> set cs \<Longrightarrow> all_justified M IM EP Ps v \<Longrightarrow> grows u v \<Longrightarrow> all_justified M IM EP Ps (f c v)"
    and "\<And>c v. grows v (f c v)"
  shows "all_justified M IM EP Ps (fold f cs u)"
proof -
  have "all_justified M IM EP Ps (fold f cs u) \<and> grows u (fold f cs u)"
    by (rule fold_invariant [where Q = "\<lambda>c. c \<in> set cs"])
      (use assms grows_refl in \<open>auto intro: grows_trans\<close>)
  then show ?thesis ..
qed

lemma all_justified_tryResolve:
  assumes "all_justified M IM EP Ps u" and "tryResolve n M EP ci F it S u = Inr v"
    and "F \<in> set (fns M)" "ci \<in> set (fn_insts (fn_of M F))"
    and "S = Map.empty \<or> (\<exists>site. calls M u site F \<and> caller_subst M site F S)"
  shows "all_justified M IM EP Ps v"
proof -
  from assms(2) obtain Cs where Cs: "evalConstTargets n n (ir M) S {} (called_operand (ir M) ci) [] = Inr Cs"
    and v: "v = fold (resolve_constant M EP ci F it) Cs u"
    by (auto simp: tryResolve_def err_bind_Inr_iff)
  show ?thesis unfolding v
  proof (rule all_justified_fold [OF assms(1) _ grows_resolve_constant])
    fix c w
    assume c: "c \<in> set Cs" and w: "all_justified M IM EP Ps w" "grows u w"
    have "possible (ir M) S (called_operand (ir M) ci) c" using targets_possible [OF Cs c] by simp
    with assms(3-5) have "justified M IM EP Ps u ci T" if "names_function M EP c T" for T
      using that unfolding justified_def traced_target_def by blast
    with justified_mono w show "all_justified M IM EP Ps (resolve_constant M EP ci F it c w)"
      by (blast intro: all_justified_resolve_constant)
  qed
qed

lemma site_subst_caller:
  assumes "site_subst n M site F = Inr S"
  shows "caller_subst M site F S"
proof -
  let ?z = "zip (call_args (ir M) site) (fn_args (fn_of M F))"
  let ?P = "\<lambda>SC. (\<forall>p c. fst SC p = Some c \<longrightarrow> (\<exists>a. (a, p) \<in> set ?z \<and> possible (ir M) Map.empty a c)) \<and>
    possible.cache_ok (ir M) Map.empty (snd SC)"
  from assms obtain C where "err_fold (bind_arg n (ir M)) ?z (Map.empty, Map.empty) = Inr (S, C)"
    by (auto simp: site_subst_def err_bind_Inr_iff)
  then have "?P (S, C)"
  proof (rule err_fold_inv)
    show "?P (Map.empty, Map.empty)" by (simp add: possible.cache_ok_def)
    fix ap u v
    assume ap: "ap \<in> set ?z" and u: "?P u" and run: "bind_arg n (ir M) ap u = Inr v"
    from run obtain r C where r: "tryEvalConst n (ir M) Map.empty (fst ap) (snd u) = Inr (r, C)"
      and v: "v = (case r of None \<Rightarrow> fst u | Some c \<Rightarrow> (fst u)(snd ap \<mapsto> c), C)"
      by (auto simp: bind_arg_def err_bind_Inr_iff)
    from possible.soundD [OF possible.tryEvalConst_sound r] u
    have C: "possible.cache_ok (ir M) Map.empty C" and rc: "\<And>c. r = Some c \<Longrightarrow> possible (ir M) Map.empty (fst ap) c" by auto
    have z: "(fst ap, snd ap) \<in> set ?z" using ap by simp
    have "\<exists>a. (a, p) \<in> set ?z \<and> possible (ir M) Map.empty a c" if "fst v p = Some c" for p c
    proof (cases "r \<noteq> None \<and> p = snd ap")
      case True
      with that v have "r = Some c" by auto
      with True z rc show ?thesis by blast
    next
      case False
      with that v have "fst u p = Some c" by (cases r) auto
      with u show ?thesis by blast
    qed
    with v C show "?P v" by simp
  qed
  then show ?thesis by (simp add: caller_subst_def)
qed

lemma all_justified_visit_call:
  assumes "all_justified M IM EP Ps u" and "visit_call n M EP F ci u = Inr v"
    and F: "F \<in> set (fns M)" "ci \<in> set (fn_insts (fn_of M F))"
  shows "all_justified M IM EP Ps v"
proof (cases "is_indirect (ir M) ci")
  case True
  with assms(2) obtain w where w: "tryResolve n M EP ci F False Map.empty u = Inr w"
    and v: "err_fold (from_caller n M EP F ci) (known_callers w F) w = Inr v"
    by (auto simp: visit_call_def err_bind_Inr_iff)
  have jw: "all_justified M IM EP Ps w"
    using all_justified_tryResolve [OF assms(1) w F] by simp
  from v have "all_justified M IM EP Ps v \<and> grows w v"
  proof (rule err_fold_inv)
    show "all_justified M IM EP Ps w \<and> grows w w" using jw grows_refl by simp
    fix site x y
    assume site: "site \<in> set (known_callers w F)" and x: "all_justified M IM EP Ps x \<and> grows w x"
      and run: "from_caller n M EP F ci site x = Inr y"
    from all_justifiedD(2) [OF jw site] x have c: "calls M x (fst site) F" by (blast intro: calls_mono)
    from run obtain S where S: "site_subst n M (fst site) F = Inr S"
      and rest: "(if list_ex (\<lambda>p. S p \<noteq> None) (fn_args (fn_of M F)) then tryResolve n M EP ci F True S x else Inr x) = Inr y"
      by (auto simp: from_caller_def err_bind_Inr_iff)
    have "all_justified M IM EP Ps y"
      using rest x all_justified_tryResolve [of M IM EP Ps x n ci F True S y] F c site_subst_caller [OF S]
      by (auto split: if_splits)
    with x grows_from_caller [OF run] grows_trans show "all_justified M IM EP Ps y \<and> grows w y" by blast
  qed
  then show ?thesis ..
qed (use assms in \<open>simp add: visit_call_def\<close>)

lemma buildTraceAddrToMIMap_Some:
  assumes "buildTraceAddrToMIMap ps a = Some p"
  shows "p \<in> set ps \<and> ip_addr p = Some a"
proof -
  let ?f = "\<lambda>p m. case ip_addr p of None \<Rightarrow> m | Some a \<Rightarrow> m(a \<mapsto> p)"
  have "\<forall>a p. fold ?f ps Map.empty a = Some p \<longrightarrow> p \<in> set ps \<and> ip_addr p = Some a"
    by (rule fold_invariant [where Q = "\<lambda>p. p \<in> set ps" and
          P = "\<lambda>m. \<forall>a p. m a = Some p \<longrightarrow> p \<in> set ps \<and> ip_addr p = Some a"]) (auto split: option.splits if_splits)
  with assms show ?thesis by (simp add: buildTraceAddrToMIMap_def)
qed

definition writes_constant :: "ir_mod \<Rightarrow> fn \<Rightarrow> ir_constant \<Rightarrow> bool" where
  "writes_constant IM P c \<longleftrightarrow>
     (\<exists>w f. w \<in> set (fn_insts (fn_of IM P)) \<and>
       getCalledFunction (ir IM) (called_operand (ir IM) w) = Some f \<and>
       intrinsic_attr (fn_of IM f) = Some ''luthier::writeReg'' \<and> possible (ir IM) Map.empty (call_args (ir IM) w ! 1) c)"

lemma payload_write_from:
  assumes "payload_write n IM w = Inr X" and "w \<in> set (fn_insts (fn_of IM P))" and "W \<in> set X" and "c \<in> set (snd W)"
  shows "writes_constant IM P c"
proof -
  from assms(1,3) have "\<exists>callee as asm addr f d Vs. val_of (ir IM) w = VInst (CallInst callee as asm addr) \<and>
      getCalledFunction (ir IM) callee = Some f \<and> intrinsic_attr (fn_of IM f) = Some ''luthier::writeReg'' \<and>
      evalConstTargets n n (ir IM) Map.empty {} (as ! 1) [] = Inr Vs \<and> W = (ucast (d :: 64 word), Vs)"
    by (fastforce simp: payload_write_def err_bind_Inr_iff
        split: ir_value.splits ir_inst.splits option.splits if_splits ir_constant.splits)
  then obtain callee as asm addr f Vs and d :: "64 word" where
    w: "val_of (ir IM) w = VInst (CallInst callee as asm addr)"
    "getCalledFunction (ir IM) callee = Some f" "intrinsic_attr (fn_of IM f) = Some ''luthier::writeReg''"
    and Vs: "evalConstTargets n n (ir IM) Map.empty {} (as ! 1) [] = Inr Vs" "W = (ucast d, Vs)"
    by blast
  have "possible (ir IM) Map.empty (as ! 1) c" using targets_possible [OF Vs(1)] assms(4) Vs(2) by simp
  with w assms(2) show ?thesis unfolding writes_constant_def called_operand_def call_args_def
    by (intro exI [of _ w] exI [of _ f]) simp
qed

lemma collectPayloadWrites_from:
  assumes "collectPayloadWrites n IM P = Inr Ws" and "W \<in> set Ws" and "c \<in> set (snd W)"
  shows "writes_constant IM P c"
proof -
  from assms(1) have "\<forall>W\<in>set Ws. \<forall>c\<in>set (snd W). writes_constant IM P c"
    unfolding collectPayloadWrites_def
  proof (rule err_fold_inv)
    fix w Out v
    assume w: "w \<in> set (fn_insts (fn_of IM P))" and Out: "\<forall>W\<in>set Out. \<forall>c\<in>set (snd W). writes_constant IM P c"
      and run: "err_bind (payload_write n IM w) (\<lambda>W. Inr (Out @ W)) = Inr v"
    from run obtain X where X: "payload_write n IM w = Inr X" "v = Out @ X" by (auto simp: err_bind_Inr_iff)
    with payload_write_from [OF X(1) w] Out show "\<forall>W\<in>set v. \<forall>c\<in>set (snd W). writes_constant IM P c" by auto
  qed simp
  with assms(2,3) show ?thesis by blast
qed

lemma all_justified_visit_payload_site:
  assumes "all_justified M IM EP Ps u" and "visit_payload_site n M IM EP Ps F ci u = Inr v"
  shows "all_justified M IM EP Ps v"
proof (cases "\<exists>a MI. is_indirect (ir M) ci \<and> CallTargets (graph u) ci = None \<and> trace_addr (ir M) ci = Some a \<and>
    buildTraceAddrToMIMap Ps a = Some MI")
  case True
  then obtain a MI where MI: "trace_addr (ir M) ci = Some a" "buildTraceAddrToMIMap Ps a = Some MI"
    and "is_indirect (ir M) ci" "CallTargets (graph u) ci = None" by blast
  with assms(2) have "err_fold (consult_payload n M IM EP F ci) (ip_payloads MI) u = Inr v"
    by (simp add: visit_payload_site_def)
  then show ?thesis using assms(1)
  proof (rule err_fold_inv)
    fix P x y
    assume P: "P \<in> set (ip_payloads MI)" and x: "all_justified M IM EP Ps x"
      and run: "consult_payload n M IM EP F ci P x = Inr y"
    from run obtain Ws where Ws: "collectPayloadWrites n IM P = Inr Ws"
      and y: "y = fold (\<lambda>W. fold (resolve_write M EP ci F P (fst W)) (snd W)) Ws x"
      by (auto simp: consult_payload_def err_bind_Inr_iff)
    have reason: "justified M IM EP Ps z ci T" if "W \<in> set Ws" "c \<in> set (snd W)" "names_function M EP c T" for W c T z
    proof -
      have "writes_constant IM P c" using Ws that(1,2) by (rule collectPayloadWrites_from)
      moreover have "MI \<in> set Ps" "ip_addr MI = trace_addr (ir M) ci"
        using buildTraceAddrToMIMap_Some [OF MI(2)] MI(1) by simp_all
      ultimately show ?thesis using P that(3) unfolding justified_def written_target_def writes_constant_def by blast
    qed
    show "all_justified M IM EP Ps y" unfolding y
    proof (rule all_justified_fold [OF x _ grows_fold [OF grows_resolve_write]])
      fix W z assume W: "W \<in> set Ws" and z: "all_justified M IM EP Ps z"
      show "all_justified M IM EP Ps (fold (resolve_write M EP ci F P (fst W)) (snd W) z)"
        by (rule all_justified_fold [OF z _ grows_resolve_write])
          (use reason W in \<open>blast intro: all_justified_resolve_write\<close>)
    qed
  qed
next
  case False
  with assms show ?thesis by (auto simp: visit_payload_site_def split: if_splits option.splits)
qed

lemma all_justified_pass:
  assumes "all_justified M IM EP Ps u" and "trace_pass n M IM EP Ps u = Inr v"
  shows "all_justified M IM EP Ps v"
proof -
  from assms(2) obtain w where w: "for_calls M (visit_call n M EP) (u\<lparr>Changed := False\<rparr>) = Inr w"
    and rest: "(if Changed w then Inr w else resolveViaPayloads n M IM EP Ps w) = Inr v"
    by (auto simp: trace_pass_def err_bind_Inr_iff)
  have "all_justified M IM EP Ps (u\<lparr>Changed := False\<rparr>)"
    using assms(1) by (rule all_justified_same) (simp_all add: call_targets_def known_callers_def fun_eq_iff)
  with w have jw: "all_justified M IM EP Ps w"
    by (rule for_calls_inv) (use all_justified_visit_call in blast)
  show ?thesis
  proof (cases "Changed w \<or> Ps = []")
    case True
    with rest jw show ?thesis by (auto simp: resolveViaPayloads_def split: if_splits)
  next
    case False
    with rest have "for_calls M (visit_payload_site n M IM EP Ps) w = Inr v" by (simp add: resolveViaPayloads_def)
    then show ?thesis using jw by (rule for_calls_inv) (use all_justified_visit_payload_site in blast)
  qed
qed

lemma call_targets_add_caller: "call_targets (add_caller T ci F u) = call_targets u"
  by (simp add: add_caller_def call_targets_def fun_eq_iff)

lemma known_callers_add_caller:
  "known_callers (add_caller T ci F u) G = (if G = T then known_callers u T @ [(ci, F)] else known_callers u G)"
  by (simp add: add_caller_def known_callers_def)

lemma call_targets_set: "call_targets (set_targets ci ts u) x = (if x = ci then ts else call_targets u x)"
  by (simp add: set_targets_def call_targets_def)

lemma known_callers_set: "known_callers (set_targets ci ts u) = known_callers u"
  by (simp add: set_targets_def known_callers_def fun_eq_iff)

lemma all_justified_direct:
  assumes "all_justified M IM EP Ps u" and direct: "getCalledFunction (ir M) (called_operand (ir M) ci) = Some T"
  shows "all_justified M IM EP Ps (add_caller T ci F u)"
    and "all_justified M IM EP Ps (set_targets ci (call_targets u ci @ [T]) u)"
proof -
  let ?a = "add_caller T ci F u" and ?v = "set_targets ci (call_targets u ci @ [T]) u"
  have ga: "calls M ?a x G" if "calls M u x G" for x G using that by (simp add: calls_def call_targets_add_caller)
  have gv: "calls M ?v x G" if "calls M u x G" for x G using that by (auto simp: calls_def call_targets_set)
  have this_call: "calls M ?a ci T" using direct by (simp add: calls_def)
  show "all_justified M IM EP Ps ?a"
  proof (rule all_justifiedI)
    fix c X assume "X \<in> set (call_targets ?a c)"
    then have "X \<in> set (call_targets u c)" by (simp add: call_targets_add_caller)
    from all_justifiedD(1) [OF assms(1) this] ga show "justified M IM EP Ps ?a c X" by (rule justified_calls)
  next
    fix G site assume "site \<in> set (known_callers ?a G)"
    then have "site \<in> set (known_callers u G) \<or> G = T \<and> fst site = ci"
      by (auto simp: known_callers_add_caller split: if_splits)
    with all_justifiedD(2) [OF assms(1)] ga this_call show "calls M ?a (fst site) G" by blast
  qed
  show "all_justified M IM EP Ps ?v"
  proof (rule all_justifiedI)
    fix c X assume "X \<in> set (call_targets ?v c)"
    then have "X \<in> set (call_targets u c) \<or> c = ci \<and> X = T" by (auto simp: call_targets_set split: if_splits)
    with all_justifiedD(1) [OF assms(1)] direct have "justified M IM EP Ps u c X" by (auto simp: justified_def)
    then show "justified M IM EP Ps ?v c X" using gv by (rule justified_calls)
  next
    fix G site assume "site \<in> set (known_callers ?v G)"
    then have "site \<in> set (known_callers u G)" by (simp add: known_callers_set)
    from all_justifiedD(2) [OF assms(1) this] show "calls M ?v (fst site) G" by (rule gv)
  qed
qed

lemma all_justified_seed_call:
  assumes "all_justified M IM EP Ps u"
  shows "all_justified M IM EP Ps (seed_call M F ci u)"
proof (cases "\<exists>T callee as asm addr. val_of (ir M) ci = VInst (CallInst callee as asm addr) \<and>
    getCalledFunction (ir M) callee = Some T")
  case True
  then obtain T callee as asm addr where ci: "val_of (ir M) ci = VInst (CallInst callee as asm addr)"
    "getCalledFunction (ir M) callee = Some T" by blast
  then have "getCalledFunction (ir M) (called_operand (ir M) ci) = Some T" by (simp add: called_operand_def)
  note d = all_justified_direct [OF _ this, of IM EP Ps]
  from d(1) [OF assms] have "all_justified M IM EP Ps (add_caller T ci F u)" .
  with d(2) [OF this] show ?thesis
    by (auto simp: seed_call_def ci Let_def intro: all_justified_discover split: option.splits)
next
  case False
  with assms show ?thesis by (auto simp: seed_call_def split: ir_value.splits ir_inst.splits option.splits)
qed

lemma all_justified_seed: "all_justified M IM EP Ps (seed M initial_trace)"
proof -
  have init: "all_justified M IM EP Ps initial_trace"
    by (simp add: all_justified_def initial_trace_def call_targets_def known_callers_def)
  have in_fn: "all_justified M IM EP Ps (fold (seed_call M F) cis u)" if "all_justified M IM EP Ps u" for F cis u
    using that by (induction cis arbitrary: u) (simp_all add: all_justified_seed_call)
  have "all_justified M IM EP Ps (fold (\<lambda>F. fold (seed_call M F) (fn_insts (fn_of M F))) Fs u)"
    if "all_justified M IM EP Ps u" for Fs u
    using that by (induction Fs arbitrary: u) (simp_all add: in_fn)
  with init show ?thesis by (simp add: seed_def)
qed

lemma runTrace_justified:
  assumes "runTrace n M IM Ps = Inr st" and "EntryPointToDevFunc M = Inr EP"
  shows "all_justified M IM EP Ps st"
proof -
  from assms obtain t where loop: "trace_loop n (trace_pass n M IM EP Ps) (seed M initial_trace) = Inr t"
    and st: "st = mark_incomplete M t"
    by (auto simp: runTrace_def err_bind_Inr_iff)
  from loop all_justified_seed all_justified_pass have "all_justified M IM EP Ps t" by (rule trace_loop_inv)
  then show ?thesis unfolding st by (rule all_justified_same) simp_all
qed

subsection \<open>Incomplete call sites\<close>

definition call_sites :: "ir_mod \<Rightarrow> val set" where
  "call_sites M =
     (\<Union>F\<in>{F \<in> set (fns M). \<not> isDeclaration (fn_of M F)}. {ci \<in> set (fn_insts (fn_of M F)). is_indirect (ir M) ci})"

definition marks :: "ir_mod \<Rightarrow> val set \<Rightarrow> trace_state \<Rightarrow> trace_state \<Rightarrow> bool" where
  "marks M X u v \<longleftrightarrow>
     (let open_sites = {ci \<in> X. is_indirect (ir M) ci \<and> CallTargets (graph u) ci = None} in
      CallTargets (graph v) = CallTargets (graph u) \<and>
      IncompleteCallSites (graph v) = IncompleteCallSites (graph u) \<union> open_sites \<and>
      FullyRecovered (graph v) = (FullyRecovered (graph u) \<and> open_sites = {}))"

lemma marks_refl: "marks M {} u u"
  by (simp add: marks_def)

lemma marks_trans: "marks M X u v \<Longrightarrow> marks M Y v w \<Longrightarrow> marks M (X \<union> Y) u w"
proof -
  have eq: "{ci \<in> X \<union> Y. P ci} = {ci \<in> X. P ci} \<union> {ci \<in> Y. P ci}" for P by blast
  show "marks M X u v \<Longrightarrow> marks M Y v w \<Longrightarrow> marks M (X \<union> Y) u w"
    unfolding marks_def Let_def eq by (simp add: Un_assoc)
qed

lemma marks_mark_site: "marks M {ci} u (mark_site M ci u)"
  by (auto simp: marks_def mark_site_def)

lemma marks_sites: "marks M (set cis) u (fold (mark_site M) cis u)"
proof (induction cis arbitrary: u)
  case (Cons ci cis)
  from marks_trans [OF marks_mark_site Cons.IH] show ?case by simp
qed (simp add: marks_refl)

lemma marks_functions:
  "marks M (\<Union>F\<in>{F \<in> set Fs. \<not> isDeclaration (fn_of M F)}. set (fn_insts (fn_of M F))) u
     (fold (\<lambda>F st. if isDeclaration (fn_of M F) then st else fold (mark_site M) (fn_insts (fn_of M F)) st) Fs u)"
proof (induction Fs arbitrary: u)
  case (Cons F Fs)
  show ?case
  proof (cases "isDeclaration (fn_of M F)")
    case True
    then have "{G \<in> set (F # Fs). \<not> isDeclaration (fn_of M G)} = {G \<in> set Fs. \<not> isDeclaration (fn_of M G)}" by auto
    with Cons.IH [of u] True show ?thesis by simp
  next
    case False
    then have "(\<Union>G\<in>{G \<in> set (F # Fs). \<not> isDeclaration (fn_of M G)}. set (fn_insts (fn_of M G))) =
        set (fn_insts (fn_of M F)) \<union> (\<Union>G\<in>{G \<in> set Fs. \<not> isDeclaration (fn_of M G)}. set (fn_insts (fn_of M G)))"
      by auto
    with marks_trans [OF marks_sites Cons.IH] False show ?thesis by simp
  qed
qed (simp add: marks_refl)

lemma mark_incomplete_effect:
  "IncompleteCallSites (graph (mark_incomplete M u)) =
     IncompleteCallSites (graph u) \<union> {ci \<in> call_sites M. CallTargets (graph u) ci = None}"
  "FullyRecovered (graph (mark_incomplete M u)) \<longleftrightarrow>
     FullyRecovered (graph u) \<and> {ci \<in> call_sites M. CallTargets (graph u) ci = None} = {}"
proof -
  have sites: "{ci \<in> call_sites M. CallTargets (graph u) ci = None} =
      {ci \<in> (\<Union>F\<in>{F \<in> set (fns M). \<not> isDeclaration (fn_of M F)}. set (fn_insts (fn_of M F))).
        is_indirect (ir M) ci \<and> CallTargets (graph u) ci = None}"
    by (auto simp: call_sites_def)
  note m = marks_functions [of M "fns M" u, folded mark_incomplete_def, unfolded marks_def Let_def]
  show "IncompleteCallSites (graph (mark_incomplete M u)) =
     IncompleteCallSites (graph u) \<union> {ci \<in> call_sites M. CallTargets (graph u) ci = None}"
    using m unfolding sites by blast
  show "FullyRecovered (graph (mark_incomplete M u)) \<longleftrightarrow>
     FullyRecovered (graph u) \<and> {ci \<in> call_sites M. CallTargets (graph u) ci = None} = {}"
    using m unfolding sites by blast
qed

text \<open>The passes leave the two fields alone.\<close>

definition unmarked :: "trace_state \<Rightarrow> bool" where
  "unmarked st \<longleftrightarrow> IncompleteCallSites (graph st) = {} \<and> FullyRecovered (graph st)"

lemma unmarked_add_target: "unmarked st \<Longrightarrow> unmarked (add_target ci F T it st)"
  by (simp add: unmarked_def add_target_def add_caller_def set_targets_def)

lemma unmarked_discover: "unmarked st \<Longrightarrow> unmarked (discover a st)"
  by (simp add: unmarked_def discover_def)

lemma unmarked_error: "unmarked st \<Longrightarrow> unmarked (st\<lparr>emitted_errors := e\<rparr>)"
  by (simp add: unmarked_def)

lemma unmarked_resolve_constant: "unmarked st \<Longrightarrow> unmarked (resolve_constant M EP ci F it c st)"
  by (auto simp: resolve_constant_def Let_def unmarked_add_target unmarked_discover split: option.splits)

lemma unmarked_resolve_write: "unmarked st \<Longrightarrow> unmarked (resolve_write M EP ci F P d c st)"
  by (auto simp: resolve_write_def unmarked_add_target unmarked_discover unmarked_error split: option.splits)

lemma unmarked_fold: "(\<And>x st. unmarked st \<Longrightarrow> unmarked (f x st)) \<Longrightarrow> unmarked st \<Longrightarrow> unmarked (fold f xs st)"
  by (induction xs arbitrary: st) auto

lemma unmarked_tryResolve: "tryResolve n M EP ci F it S u = Inr v \<Longrightarrow> unmarked u \<Longrightarrow> unmarked v"
  by (auto simp: tryResolve_def err_bind_Inr_iff intro: unmarked_fold unmarked_resolve_constant)

lemma unmarked_from_caller: "from_caller n M EP F ci site u = Inr v \<Longrightarrow> unmarked u \<Longrightarrow> unmarked v"
  by (auto simp: from_caller_def err_bind_Inr_iff dest: unmarked_tryResolve split: if_splits)

lemma unmarked_visit_call:
  assumes "visit_call n M EP F ci u = Inr v" and "unmarked u"
  shows "unmarked v"
proof (cases "is_indirect (ir M) ci")
  case True
  with assms(1) obtain w where w: "tryResolve n M EP ci F False Map.empty u = Inr w"
    and v: "err_fold (from_caller n M EP F ci) (known_callers w F) w = Inr v"
    by (auto simp: visit_call_def err_bind_Inr_iff)
  from v unmarked_tryResolve [OF w assms(2)] show ?thesis
    by (rule err_fold_inv) (rule unmarked_from_caller)
qed (use assms in \<open>simp add: visit_call_def\<close>)

lemma unmarked_consult_payload: "consult_payload n M IM EP F ci P u = Inr v \<Longrightarrow> unmarked u \<Longrightarrow> unmarked v"
  by (auto simp: consult_payload_def err_bind_Inr_iff intro!: unmarked_fold unmarked_resolve_write)

lemma unmarked_visit_payload_site:
  assumes "visit_payload_site n M IM EP Ps F ci u = Inr v" and "unmarked u"
  shows "unmarked v"
proof (cases "v = u")
  case False
  with assms(1) obtain MI :: inst_point where "err_fold (consult_payload n M IM EP F ci) (ip_payloads MI) u = Inr v"
    by (auto simp: visit_payload_site_def split: if_splits option.splits)
  then show ?thesis using assms(2) by (rule err_fold_inv) (rule unmarked_consult_payload)
qed (use assms(2) in simp)

lemma unmarked_pass:
  assumes "unmarked u" and "trace_pass n M IM EP Ps u = Inr v"
  shows "unmarked v"
proof -
  from assms(2) obtain w where w: "for_calls M (visit_call n M EP) (u\<lparr>Changed := False\<rparr>) = Inr w"
    and rest: "(if Changed w then Inr w else resolveViaPayloads n M IM EP Ps w) = Inr v"
    by (auto simp: trace_pass_def err_bind_Inr_iff)
  have "unmarked (u\<lparr>Changed := False\<rparr>)" using assms(1) by (simp add: unmarked_def)
  with w have uw: "unmarked w" by (rule for_calls_inv) (rule unmarked_visit_call)
  show ?thesis
  proof (cases "Changed w \<or> Ps = []")
    case False
    with rest have "for_calls M (visit_payload_site n M IM EP Ps) w = Inr v" by (simp add: resolveViaPayloads_def)
    then show ?thesis using uw by (rule for_calls_inv) (rule unmarked_visit_payload_site)
  qed (use rest uw in \<open>auto simp: resolveViaPayloads_def split: if_splits\<close>)
qed

lemma unmarked_seed: "unmarked (seed M initial_trace)"
proof -
  have step: "unmarked (seed_call M F ci u)" if "unmarked u" for F ci u
    using that by (auto simp: seed_call_def add_caller_def set_targets_def discover_def unmarked_def Let_def
        split: ir_value.splits ir_inst.splits option.splits)
  have "unmarked initial_trace" by (simp add: unmarked_def initial_trace_def)
  then show ?thesis unfolding seed_def by (intro unmarked_fold step)
qed

lemma runTrace_incomplete:
  assumes "runTrace n M IM Ps = Inr st"
  shows "IncompleteCallSites (graph st) = {ci \<in> call_sites M. CallTargets (graph st) ci = None}"
    and "FullyRecovered (graph st) \<longleftrightarrow> IncompleteCallSites (graph st) = {}"
proof -
  from assms obtain EP t where loop: "trace_loop n (trace_pass n M IM EP Ps) (seed M initial_trace) = Inr t"
    and st: "st = mark_incomplete M t"
    by (auto simp: runTrace_def err_bind_Inr_iff)
  from loop unmarked_seed unmarked_pass have "unmarked t" by (rule trace_loop_inv)
  with mark_incomplete_effect [of M t] mark_incomplete_same [of M t]
  show "IncompleteCallSites (graph st) = {ci \<in> call_sites M. CallTargets (graph st) ci = None}"
    and "FullyRecovered (graph st) \<longleftrightarrow> IncompleteCallSites (graph st) = {}"
    by (simp_all add: st unmarked_def)
qed

subsection \<open>Termination\<close>

text \<open>
  A finite set of values that is closed under what the tracing looks at, with a rank that decreases from a
  value to the operands that are folded into it: SSA values depend on themselves only through a phi or
  through memory.
\<close>

definition store_of :: "mem_access \<Rightarrow> val option" where
  "store_of acc = (case acc of MemoryDef s \<Rightarrow> s | _ \<Rightarrow> None)"

definition load_closed :: "llvm \<Rightarrow> val set \<Rightarrow> val \<Rightarrow> bool" where
  "load_closed L U v \<longleftrightarrow>
     (\<forall>s. store_of (clobbering L v) = Some s \<longrightarrow> s \<in> U) \<and>
     (\<forall>accs a s. clobbering L v = MemoryPhi accs \<longrightarrow> a \<in> set accs \<longrightarrow>
       store_of (clobbering_at L a v) = Some s \<longrightarrow> s \<in> U)"

definition ranked :: "llvm \<Rightarrow> val set \<Rightarrow> nat \<Rightarrow> (val \<Rightarrow> nat) \<Rightarrow> bool" where
  "ranked L U R rk \<longleftrightarrow>
     finite U \<and>
     (\<forall>v\<in>U. rk v \<le> R \<and>
       (\<forall>i. val_of L v = VInst i \<longrightarrow>
         set (operands_of i) \<subseteq> U \<and> (folds i \<longrightarrow> (\<forall>w\<in>set (operands_of i). rk w < rk v)) \<and>
         (\<forall>b p. i = LoadInst b p \<longrightarrow> load_closed L U v) \<and>
         (\<forall>f as asm a. i = CallInst f as asm a \<longrightarrow> getIntrinsicID L f = SSA_COPY \<longrightarrow> as \<noteq> [])))"

definition is_load :: "llvm \<Rightarrow> val \<Rightarrow> bool" where
  "is_load L v = (case val_of L v of VInst (LoadInst _ _) \<Rightarrow> True | _ \<Rightarrow> False)"

definition open_loads :: "llvm \<Rightarrow> val set \<Rightarrow> cache \<Rightarrow> val set" where
  "open_loads L U C = {v \<in> U. is_load L v \<and> C v = None}"

definition ends :: "trace_error + ir_constant option \<times> cache \<Rightarrow> cache \<Rightarrow> bool" where
  "ends r C \<longleftrightarrow> (\<exists>q C'. r = Inr (q, C') \<and> dom C \<subseteq> dom C')"

lemma rankedD:
  assumes "ranked L U R rk" and "v \<in> U"
  shows "rk v \<le> R" and "finite U"
    and "val_of L v = VInst i \<Longrightarrow> w \<in> set (operands_of i) \<Longrightarrow> w \<in> U"
    and "val_of L v = VInst i \<Longrightarrow> folds i \<Longrightarrow> w \<in> set (operands_of i) \<Longrightarrow> rk w < rk v"
    and "val_of L v = VInst (LoadInst b p) \<Longrightarrow> load_closed L U v"
    and "val_of L v = VInst (CallInst f as asm a) \<Longrightarrow> getIntrinsicID L f = SSA_COPY \<Longrightarrow> as \<noteq> []"
  using assms unfolding ranked_def by blast+

lemma open_loads_mono:
  assumes "dom C \<subseteq> dom C'" and "finite U"
  shows "card (open_loads L U C') \<le> card (open_loads L U C)"
  using assms by (intro card_mono) (auto simp: open_loads_def)

lemma open_loads_less:
  assumes "finite U" and "v \<in> U" "is_load L v" "C v = None"
  shows "card (open_loads L U (C(v \<mapsto> r))) < card (open_loads L U C)"
  using assms by (intro psubset_card_mono) (auto simp: open_loads_def)

lemma cached_ends: "dom C \<subseteq> dom (snd rc) \<Longrightarrow> ends (Inr (cached V rc)) C"
  by (auto simp: ends_def cached_def)

lemma eval_operands_ends:
  assumes "\<And>v C1. v \<in> set vs \<Longrightarrow> dom C \<subseteq> dom C1 \<Longrightarrow> ends (ev v C1) C1"
  shows "\<exists>rs C'. eval_operands ev vs C = Inr (rs, C') \<and> dom C \<subseteq> dom C'"
  using assms
proof (induction vs arbitrary: C)
  case (Cons v vs)
  from Cons.prems [of v C] obtain q C1 where 1: "ev v C = Inr (q, C1)" "dom C \<subseteq> dom C1"
    by (auto simp: ends_def)
  show ?case
  proof (cases q)
    case None
    then show ?thesis using 1 by simp
  next
    case (Some c)
    have "\<exists>rs C'. eval_operands ev vs C1 = Inr (rs, C') \<and> dom C1 \<subseteq> dom C'"
      using Cons.prems 1(2) by (intro Cons.IH) auto
    with 1 Some show ?thesis by fastforce
  qed
qed simp

lemma stripPtrCasts_ends:
  assumes "ranked L U R rk"
  shows "p \<in> U \<Longrightarrow> rk p < n \<Longrightarrow> \<exists>q. stripPtrCasts n L p = Inr q"
proof (induction n arbitrary: p)
  case (Suc n)
  show ?case
  proof (cases "\<exists>op q. val_of L p = VInst (CastInst op q)")
    case True
    then obtain op q where q: "val_of L p = VInst (CastInst op q)" by blast
    have "q \<in> U" "rk q < rk p"
      using rankedD(3,4) [OF assms Suc.prems(1) q, of q] by (simp_all add: folds_def)
    with Suc.IH [of q] Suc.prems(2) q show ?thesis by simp
  qed (auto split: ir_value.splits ir_inst.splits)
qed simp

lemma storeMatchesLoad_ends:
  assumes R: "ranked L U R rk" and "s \<in> U" "v \<in> U" and n: "R < n"
  shows "\<exists>b. storeMatchesLoad n L s v = Inr b"
proof -
  have ptr: "\<exists>q. stripPtrCasts n L (ptr_operand L x) = Inr q" if "x \<in> U" for x
  proof -
    have "ptr_operand L x \<in> U"
      using rankedD(3) [OF R that] that by (simp add: ptr_operand_def split: ir_value.splits ir_inst.splits)
    with rankedD(1) [OF R this] n stripPtrCasts_ends [OF R] show ?thesis by simp
  qed
  from ptr [OF assms(2)] ptr [OF assms(3)] show ?thesis
    by (auto simp: storeMatchesLoad_def Let_def)
qed

lemma stored_value_in: "ranked L U R rk \<Longrightarrow> s \<in> U \<Longrightarrow> stored_value L s \<in> U"
  using rankedD(3) [of L U R rk s] by (auto simp: stored_value_def split: ir_value.splits ir_inst.splits)

lemma fold_operands_ends:
  assumes "\<And>v C1. v \<in> set (operands_of i) \<Longrightarrow> dom C \<subseteq> dom C1 \<Longrightarrow> ends (ev v C1) C1"
  shows "ends (fold_operands L ev V i C) C"
proof -
  have "\<exists>rs C'. eval_operands ev (operands_of i) C = Inr (rs, C') \<and> dom C \<subseteq> dom C'"
    by (rule eval_operands_ends) (rule assms)
  then obtain rs C' where "eval_operands ev (operands_of i) C = Inr (rs, C')" "dom C \<subseteq> dom C'" by blast
  then show ?thesis unfolding fold_operands_def by (simp add: cached_ends)
qed

lemma tryEvalConst_ends:
  assumes R: "ranked L U R rk"
  shows "V \<in> U \<Longrightarrow> card (open_loads L U C) * (R + 1) + rk V < n \<Longrightarrow> ends (tryEvalConst n L S V C) C"
proof (induction n arbitrary: V C)
  case (Suc n)
  note V = Suc.prems(1) and D = rankedD [OF R Suc.prems(1)]
  have sub: "ends (tryEvalConst n L S w C1) C1" if "w \<in> U" "rk w < rk V" "dom C \<subseteq> dom C1" for w C1
  proof (rule Suc.IH [OF that(1)])
    have "card (open_loads L U C1) * (R + 1) \<le> card (open_loads L U C) * (R + 1)"
      using open_loads_mono [OF that(3) D(2)] by (rule mult_le_mono1)
    with that(2) Suc.prems(2) show "card (open_loads L U C1) * (R + 1) + rk w < n" by linarith
  qed
  show ?case
  proof (cases "C V")
    case None
    show ?thesis
    proof (cases "\<exists>i. val_of L V = VInst i \<and> S V = None")
      case True
      then obtain i where i: "val_of L V = VInst i" "S V = None" by blast
      have gen: "ends (fold_operands L (tryEvalConst n L S) V i C) C" if "folds i"
        using sub D(3) [OF i(1)] D(4) [OF i(1) that] by (intro fold_operands_ends) blast
      show ?thesis
      proof (cases i)
        case (PHINode ws)
        then show ?thesis using None i by (simp add: cached_ends)
      next
        case (LoadInst simple p)
        show ?thesis
        proof (cases "simple \<and> (\<exists>s. clobbering L V = MemoryDef (Some s))")
          case True
          then obtain s where s: simple "clobbering L V = MemoryDef (Some s)" by blast
          have sU: "s \<in> U" using D(5) i(1) LoadInst s(2) by (auto simp: load_closed_def store_of_def)
          have less: "card (open_loads L U (C(V \<mapsto> None))) + 1 \<le> card (open_loads L U C)"
            using open_loads_less [of U V L C None] D(2) V None i LoadInst by (simp add: is_load_def)
          then have bound: "card (open_loads L U (C(V \<mapsto> None))) * (R + 1) + (R + 1) \<le> card (open_loads L U C) * (R + 1)"
            using mult_le_mono1 [OF less, of "R + 1"] by (simp add: algebra_simps)
          have sv: "stored_value L s \<in> U" using R sU by (rule stored_value_in)
          have "R < n" using bound Suc.prems(2) by linarith
          from storeMatchesLoad_ends [OF R sU V this] obtain b where b: "storeMatchesLoad n L s V = Inr b" by blast
          have "rk (stored_value L s) \<le> R" using rankedD(1) [OF R sv] .
          then have "card (open_loads L U (C(V \<mapsto> None))) * (R + 1) + rk (stored_value L s) < n"
            using bound Suc.prems(2) by linarith
          from Suc.IH [OF sv this] obtain q C' where q: "tryEvalConst n L S (stored_value L s) (C(V \<mapsto> None)) = Inr (q, C')"
            "dom (C(V \<mapsto> None)) \<subseteq> dom C'" unfolding ends_def by blast
          have "dom C \<subseteq> dom C'" using q(2) by auto
          then have "ends (eval_load n L (tryEvalConst n L S) V C) C"
            using s(2) b q(1) by (cases b) (simp_all add: eval_load_def cached_ends)
          then show ?thesis using None i LoadInst s(1) by simp
        next
          case False
          then show ?thesis using None i LoadInst
            by (auto simp: eval_load_def intro: cached_ends split: mem_access.splits option.splits)
        qed
      next
        case (CallInst f as asm a)
        have copy: "ends (err_bind (tryEvalConst n L S (hd as) C) (\<lambda>rc. Inr (cached V rc))) C"
          if "getIntrinsicID L f = SSA_COPY"
        proof -
          have "hd as \<in> set (operands_of i)" using D(6) i(1) CallInst that by simp
          with D(3) [OF i(1)] D(4) [OF i(1)] CallInst sub [of "hd as" C] have "ends (tryEvalConst n L S (hd as) C) C"
            by (simp add: folds_def)
          then obtain q C' where "tryEvalConst n L S (hd as) C = Inr (q, C')" "dom C \<subseteq> dom C'"
            unfolding ends_def by blast
          then show ?thesis by (simp add: cached_ends)
        qed
        show ?thesis using None i CallInst gen copy
          by (auto simp: folds_def intro: cached_ends)
      qed (use None i gen in \<open>simp_all add: folds_def\<close>)
    next
      case False
      then show ?thesis using None
        by (auto intro: cached_ends split: ir_value.splits option.splits)
    qed
  qed (simp add: ends_def)
qed simp

text \<open>The fuel that is enough for every evaluation with a fresh cache.\<close>

definition eval_fuel :: "val set \<Rightarrow> nat \<Rightarrow> nat" where
  "eval_fuel U R = (card U + 1) * (R + 1)"

lemma tryEvalConst_fuel:
  assumes "ranked L U R rk" and "V \<in> U" and "eval_fuel U R \<le> n"
  shows "ends (tryEvalConst n L S V C) C"
proof (rule tryEvalConst_ends [OF assms(1,2)])
  have "card (open_loads L U C) \<le> card U"
    using rankedD(2) [OF assms(1,2)] by (intro card_mono) (auto simp: open_loads_def)
  then have "card (open_loads L U C) * (R + 1) \<le> card U * (R + 1)" by (rule mult_le_mono1)
  moreover have "rk V \<le> R" using rankedD(1) [OF assms(1,2)] .
  ultimately show "card (open_loads L U C) * (R + 1) + rk V < n"
    using assms(3) by (simp add: eval_fuel_def algebra_simps)
qed

lemma err_fold_ends: "(\<And>x s. x \<in> set xs \<Longrightarrow> \<exists>t. f x s = Inr t) \<Longrightarrow> \<exists>t. err_fold f xs s = Inr t"
proof (induction xs arbitrary: s)
  case (Cons x xs)
  from Cons.prems [of x s] obtain t where "f x s = Inr t" by auto
  with Cons.IH [of t] Cons.prems show ?case by auto
qed simp

lemma evalConstTargets_ends:
  assumes R: "ranked L U R rk" and k: "eval_fuel U R \<le> k"
  shows "V \<in> U \<Longrightarrow> card (U - A) < n \<Longrightarrow> \<exists>Out'. evalConstTargets n k L S A V Out = Inr Out'"
proof (induction n arbitrary: A V Out)
  case (Suc n)
  from tryEvalConst_fuel [OF R Suc.prems(1) k, of S Map.empty] obtain r C
    where r: "tryEvalConst k L S V Map.empty = Inr (r, C)" by (auto simp: ends_def)
  have k': "R < k" using k by (simp add: eval_fuel_def)
  show ?case
  proof (cases "r = None \<and> V \<notin> A")
    case True
    note D = rankedD [OF R Suc.prems(1)]
    have "card (U - insert V A) < card (U - A)"
      using D(2) Suc.prems(1) True by (intro psubset_card_mono) auto
    then have IH: "\<exists>O2. evalConstTargets n k L S (insert V A) w O1 = Inr O2" if "w \<in> U" for w O1
      using Suc.IH [OF that] Suc.prems(2) by simp
    have stored: "\<exists>O2. add_stored k L (evalConstTargets n k L S (insert V A)) V a O1 = Inr O2"
      if load: "val_of L V = VInst (LoadInst True p)" "clobbering L V = MemoryPhi accs" "a \<in> set accs" for p accs a O1
    proof (cases "store_of (clobbering_at L a V)")
      case (Some s)
      then have s: "clobbering_at L a V = MemoryDef (Some s)" by (simp add: store_of_def split: mem_access.splits)
      have sU: "s \<in> U" using D(5) [OF load(1)] load(2,3) Some by (auto simp: load_closed_def)
      from storeMatchesLoad_ends [OF R sU Suc.prems(1) k'] IH [OF stored_value_in [OF R sU], of "[]"]
      obtain b O2 where "storeMatchesLoad k L s V = Inr b"
        "evalConstTargets n k L S (insert V A) (stored_value L s) [] = Inr O2" by blast
      then show ?thesis using s by (auto simp: add_stored_def)
    qed (auto simp: add_stored_def store_of_def split: mem_access.splits option.splits)
    show ?thesis
    proof (cases "val_of L V")
      case (VInst i)
      note ops = D(3) [OF VInst]
      show ?thesis
      proof (cases i)
        case (PHINode ws)
        have "\<exists>O2. err_fold (evalConstTargets n k L S (insert V A)) ws Out = Inr O2"
          using IH ops PHINode by (intro err_fold_ends) simp
        then show ?thesis using r True VInst PHINode by simp
      next
        case (SelectInst b t f)
        have "\<exists>O2. err_fold (evalConstTargets n k L S (insert V A)) [t, f] Out = Inr O2"
          using IH ops SelectInst by (intro err_fold_ends) auto
        then show ?thesis using r True VInst SelectInst by (simp add: Let_def)
      next
        case (CastInst op w)
        from IH [of w "[]"] ops CastInst obtain O2 where "evalConstTargets n k L S (insert V A) w [] = Inr O2" by auto
        then show ?thesis using r True VInst CastInst by simp
      next
        case (LoadInst b p)
        have "\<exists>O2. err_fold (add_stored k L (evalConstTargets n k L S (insert V A)) V) accs Out = Inr O2"
          if "b" "clobbering L V = MemoryPhi accs" for accs
          using stored VInst LoadInst that by (intro err_fold_ends) simp
        then show ?thesis using r True VInst LoadInst by (auto simp: Let_def split: mem_access.splits)
      qed (use r True VInst in auto)
    qed (use r True in auto)
  qed (use r in auto)
qed simp

text \<open>
  A step of the analysis keeps the targets, reports a change only with a new pair of \<open>Z\<close>, and knows
  callers among \<open>U\<close> only.
\<close>

definition callers_in :: "val set \<Rightarrow> trace_state \<Rightarrow> bool" where
  "callers_in U st \<longleftrightarrow> (\<forall>F. \<forall>s\<in>set (known_callers st F). fst s \<in> U)"

definition progress :: "(val \<times> fn) set \<Rightarrow> val set \<Rightarrow> trace_state \<Rightarrow> trace_state \<Rightarrow> bool" where
  "progress Z U u v \<longleftrightarrow>
     (\<forall>ci. set (call_targets u ci) \<subseteq> set (call_targets v ci)) \<and>
     (Changed v \<longrightarrow> Changed u \<or> (\<exists>(ci, T)\<in>Z. T \<in> set (call_targets v ci) \<and> T \<notin> set (call_targets u ci))) \<and>
     (callers_in U u \<longrightarrow> callers_in U v)"

lemma progress_refl: "progress Z U u u"
  by (simp add: progress_def)

lemma progress_trans: "progress Z U u v \<Longrightarrow> progress Z U v w \<Longrightarrow> progress Z U u w"
  unfolding progress_def by blast

lemma progress_fold: "(\<And>x u. x \<in> set xs \<Longrightarrow> progress Z U u (f x u)) \<Longrightarrow> progress Z U u (fold f xs u)"
proof (induction xs arbitrary: u)
  case (Cons x xs)
  have "progress Z U (f x u) (fold f xs (f x u))" using Cons.prems by (intro Cons.IH) simp
  with Cons.prems [of x u] show ?case using progress_trans by fastforce
qed (simp add: progress_refl)

lemma progress_discover: "progress Z U u (discover a u)"
  by (simp add: progress_def discover_def call_targets_def callers_in_def known_callers_def)

lemma progress_error: "progress Z U u (u\<lparr>emitted_errors := e\<rparr>)"
  by (simp add: progress_def call_targets_def callers_in_def known_callers_def)

lemma progress_add_target:
  assumes "(ci, T) \<in> Z" and "ci \<in> U"
  shows "progress Z U u (add_target ci F T it u)"
proof (cases "T \<in> set (call_targets u ci)")
  case True
  then show ?thesis by (simp add: add_target_def progress_refl)
next
  case False
  with assms have "\<exists>(x, X)\<in>Z. X \<in> set (call_targets (add_target ci F T it u) x) \<and> X \<notin> set (call_targets u x)"
    by (auto simp: call_targets_add intro!: bexI [of _ "(ci, T)"])
  moreover have "callers_in U u \<longrightarrow> callers_in U (add_target ci F T it u)"
    using assms(2) by (auto simp: callers_in_def known_callers_add)
  moreover have "set (call_targets u x) \<subseteq> set (call_targets (add_target ci F T it u) x)" for x
    by (auto simp: call_targets_add)
  ultimately show ?thesis unfolding progress_def by (intro conjI allI impI disjI2) simp_all
qed

lemma EntryPointToDevFunc_in: "EntryPointToDevFunc M = Inr EP \<Longrightarrow> EP a = Some T \<Longrightarrow> T \<in> set (fns M)"
proof -
  assume "EntryPointToDevFunc M = Inr EP"
  then have "\<forall>a T. EP a = Some T \<longrightarrow> T \<in> set (fns M)" unfolding EntryPointToDevFunc_def
    by (rule err_fold_inv) (auto simp: entry_of_def split: if_splits option.splits)
  then show "EP a = Some T \<Longrightarrow> T \<in> set (fns M)" by blast
qed

definition ends_step :: "(val \<times> fn) set \<Rightarrow> val set \<Rightarrow> (trace_state \<Rightarrow> trace_error + trace_state) \<Rightarrow> bool" where
  "ends_step Z U f \<longleftrightarrow> (\<forall>u. callers_in U u \<longrightarrow> (\<exists>v. f u = Inr v \<and> progress Z U u v))"

lemma ends_stepI: "(\<And>u. callers_in U u \<Longrightarrow> \<exists>v. f u = Inr v \<and> progress Z U u v) \<Longrightarrow> ends_step Z U f"
  by (simp add: ends_step_def)

lemma ends_stepD: "ends_step Z U f \<Longrightarrow> callers_in U u \<Longrightarrow> \<exists>v. f u = Inr v \<and> progress Z U u v"
  by (simp add: ends_step_def)

lemma progress_callers: "progress Z U u v \<Longrightarrow> callers_in U u \<Longrightarrow> callers_in U v"
  by (simp add: progress_def)

lemma ends_step_Inr: "ends_step Z U Inr"
  by (simp add: ends_step_def progress_refl)

lemma ends_step_bind: "ends_step Z U f \<Longrightarrow> ends_step Z U g \<Longrightarrow> ends_step Z U (\<lambda>u. err_bind (f u) g)"
  unfolding ends_step_def using progress_callers progress_trans by (metis err_bind.simps(2))

lemma ends_step_fold: "(\<And>x. x \<in> set xs \<Longrightarrow> ends_step Z U (f x)) \<Longrightarrow> ends_step Z U (err_fold f xs)"
proof (induction xs)
  case Nil
  have "err_fold f [] = Inr" by (rule ext) simp
  then show ?case by (simp add: ends_step_Inr)
next
  case (Cons x xs)
  have "err_fold f (x # xs) = (\<lambda>u. err_bind (f x u) (err_fold f xs))" by (rule ext) simp
  with Cons show ?case by (simp add: ends_step_bind)
qed

text \<open>What the analysis needs to end: finite ranked IR, and enough fuel for one evaluation.\<close>

definition bounded ::
  "nat \<Rightarrow> ir_mod \<Rightarrow> ir_mod \<Rightarrow> (64 word \<rightharpoonup> fn) \<Rightarrow> inst_point list \<Rightarrow> val set \<Rightarrow> val set \<Rightarrow> bool" where
  "bounded n M IM EP Ps U UI \<longleftrightarrow>
     EntryPointToDevFunc M = Inr EP \<and>
     (\<exists>R rk. ranked (ir M) U R rk \<and> eval_fuel U R \<le> n) \<and>
     (\<exists>R rk. ranked (ir IM) UI R rk \<and> eval_fuel UI R \<le> n) \<and>
     (\<forall>F\<in>set (fns M). set (fn_insts (fn_of M F)) \<subseteq> U) \<and>
     (\<forall>p\<in>set Ps. \<forall>P\<in>set (ip_payloads p). set (fn_insts (fn_of IM P)) \<subseteq> UI)"

definition pairs :: "ir_mod \<Rightarrow> val set \<Rightarrow> (val \<times> fn) set" where
  "pairs M U = U \<times> set (fns M)"

lemma ranked_targets:
  assumes "ranked L U R rk" and "eval_fuel U R \<le> n" and "v \<in> U"
  shows "\<exists>Out. evalConstTargets n n L S {} v [] = Inr Out"
proof (rule evalConstTargets_ends [OF assms])
  show "card (U - {}) < n" using assms(2) by (simp add: eval_fuel_def)
qed

lemma boundedD:
  assumes "bounded n M IM EP Ps U UI"
  shows "EntryPointToDevFunc M = Inr EP" and "finite U \<or> U = {}"
    and "v \<in> U \<Longrightarrow> \<exists>Out. evalConstTargets n n (ir M) S {} v [] = Inr Out"
    and "w \<in> UI \<Longrightarrow> \<exists>Out. evalConstTargets n n (ir IM) S {} w [] = Inr Out"
    and "v \<in> U \<Longrightarrow> ends (tryEvalConst n (ir M) S v C) C"
    and "v \<in> U \<Longrightarrow> val_of (ir M) v = VInst i \<Longrightarrow> x \<in> set (operands_of i) \<Longrightarrow> x \<in> U"
    and "w \<in> UI \<Longrightarrow> val_of (ir IM) w = VInst i \<Longrightarrow> x \<in> set (operands_of i) \<Longrightarrow> x \<in> UI"
    and "F \<in> set (fns M) \<Longrightarrow> set (fn_insts (fn_of M F)) \<subseteq> U"
    and "p \<in> set Ps \<Longrightarrow> P \<in> set (ip_payloads p) \<Longrightarrow> set (fn_insts (fn_of IM P)) \<subseteq> UI"
proof -
  from assms obtain R rk RI rkI where R: "ranked (ir M) U R rk" "eval_fuel U R \<le> n"
    and RI: "ranked (ir IM) UI RI rkI" "eval_fuel UI RI \<le> n"
    unfolding bounded_def by blast
  show "EntryPointToDevFunc M = Inr EP" using assms by (simp add: bounded_def)
  show "finite U \<or> U = {}" using R(1) by (simp add: ranked_def)
  show "v \<in> U \<Longrightarrow> \<exists>Out. evalConstTargets n n (ir M) S {} v [] = Inr Out" by (rule ranked_targets [OF R])
  show "w \<in> UI \<Longrightarrow> \<exists>Out. evalConstTargets n n (ir IM) S {} w [] = Inr Out" by (rule ranked_targets [OF RI])
  show "v \<in> U \<Longrightarrow> ends (tryEvalConst n (ir M) S v C) C" by (rule tryEvalConst_fuel [OF R(1) _ R(2)])
  show "v \<in> U \<Longrightarrow> val_of (ir M) v = VInst i \<Longrightarrow> x \<in> set (operands_of i) \<Longrightarrow> x \<in> U" by (rule rankedD(3) [OF R(1)])
  show "w \<in> UI \<Longrightarrow> val_of (ir IM) w = VInst i \<Longrightarrow> x \<in> set (operands_of i) \<Longrightarrow> x \<in> UI" by (rule rankedD(3) [OF RI(1)])
  show "F \<in> set (fns M) \<Longrightarrow> set (fn_insts (fn_of M F)) \<subseteq> U" using assms by (simp add: bounded_def)
  show "p \<in> set Ps \<Longrightarrow> P \<in> set (ip_payloads p) \<Longrightarrow> set (fn_insts (fn_of IM P)) \<subseteq> UI"
    using assms by (simp add: bounded_def)
qed

lemma resolve_progress:
  assumes B: "bounded n M IM EP Ps U UI" and ci: "ci \<in> U"
  shows "progress (pairs M U) U u (resolve_constant M EP ci F it c u)" and "progress (pairs M U) U u (resolve_write M EP ci F P d c u)"
proof -
  have t: "progress (pairs M U) U w (add_target ci F T it' w)" if "T \<in> set (fns M)" for w T it'
    using that ci by (intro progress_add_target) (simp_all add: pairs_def)
  note e = EntryPointToDevFunc_in [OF boundedD(1) [OF B]] and tr = progress_trans [OF progress_discover]
  show "progress (pairs M U) U u (resolve_constant M EP ci F it c u)"
    by (auto simp: resolve_constant_def Let_def intro: t e tr progress_refl progress_discover split: option.splits)
  show "progress (pairs M U) U u (resolve_write M EP ci F P d c u)"
    by (auto simp: resolve_write_def intro: t e tr progress_error progress_refl progress_discover split: option.splits)
qed

lemma operand_in:
  assumes B: "bounded n M IM EP Ps U UI" and ci: "ci \<in> U"
  shows "is_indirect (ir M) ci \<Longrightarrow> called_operand (ir M) ci \<in> U" and "set (call_args (ir M) ci) \<subseteq> U"
proof -
  note D = boundedD(6) [OF B ci]
  show "is_indirect (ir M) ci \<Longrightarrow> called_operand (ir M) ci \<in> U"
    using ci D by (cases "val_of (ir M) ci") (auto simp: is_indirect_def called_operand_def split: ir_inst.splits)
  show "set (call_args (ir M) ci) \<subseteq> U"
  proof (cases "val_of (ir M) ci")
    case (VInst i)
    then show ?thesis using D [OF VInst] by (cases i) (auto simp: call_args_def)
  qed (simp_all add: call_args_def)
qed

lemma tryResolve_ends:
  assumes B: "bounded n M IM EP Ps U UI" and ci: "ci \<in> U" "is_indirect (ir M) ci"
  shows "ends_step (pairs M U) U (tryResolve n M EP ci F it S)"
proof (rule ends_stepI)
  fix u
  from boundedD(3) [OF B operand_in(1) [OF B ci], of S] obtain Cs
    where "evalConstTargets n n (ir M) S {} (called_operand (ir M) ci) [] = Inr Cs" by blast
  then show "\<exists>v. tryResolve n M EP ci F it S u = Inr v \<and> progress (pairs M U) U u v"
    using resolve_progress(1) [OF B ci(1)] by (auto simp: tryResolve_def intro: progress_fold)
qed

lemma site_subst_ends:
  assumes B: "bounded n M IM EP Ps U UI" and site: "site \<in> U"
  shows "\<exists>S. site_subst n M site F = Inr S"
proof -
  have "\<exists>t. err_fold (bind_arg n (ir M)) (zip (call_args (ir M) site) (fn_args (fn_of M F))) (Map.empty, Map.empty) = Inr t"
  proof (rule err_fold_ends)
    fix ap and SC :: "subst \<times> cache" assume "ap \<in> set (zip (call_args (ir M) site) (fn_args (fn_of M F)))"
    then have "fst ap \<in> set (call_args (ir M) site)" by (metis in_set_zipE prod.collapse)
    with operand_in(2) [OF B site] have "fst ap \<in> U" by blast
    from boundedD(5) [OF B this, of Map.empty "snd SC"] obtain r C
      where "tryEvalConst n (ir M) Map.empty (fst ap) (snd SC) = Inr (r, C)" unfolding ends_def by blast
    then show "\<exists>t. bind_arg n (ir M) ap SC = Inr t" by (simp add: bind_arg_def)
  qed
  then show ?thesis by (auto simp: site_subst_def)
qed

lemma visit_call_ends:
  assumes B: "bounded n M IM EP Ps U UI" and ci: "ci \<in> U"
  shows "ends_step (pairs M U) U (visit_call n M EP F ci)"
proof (cases "is_indirect (ir M) ci")
  case True
  note resolve = tryResolve_ends [OF B ci True]
  show ?thesis
  proof (rule ends_stepI)
    fix u assume u: "callers_in U u"
    from ends_stepD [OF resolve u] obtain w where w: "tryResolve n M EP ci F False Map.empty u = Inr w" "progress (pairs M U) U u w"
      by blast
    then have cw: "callers_in U w" using u by (blast intro: progress_callers)
    have "ends_step (pairs M U) U (from_caller n M EP F ci site)" if "site \<in> set (known_callers w F)" for site
    proof -
      from cw that have "fst site \<in> U" by (auto simp: callers_in_def)
      then obtain S where "site_subst n M (fst site) F = Inr S" using site_subst_ends [OF B] by blast
      then have eq: "from_caller n M EP F ci site = (\<lambda>st. if list_ex (\<lambda>p. S p \<noteq> None) (fn_args (fn_of M F))
          then tryResolve n M EP ci F True S st else Inr st)"
        by (intro ext) (simp add: from_caller_def)
      show ?thesis
      proof (cases "list_ex (\<lambda>p. S p \<noteq> None) (fn_args (fn_of M F))")
        case True
        then have "from_caller n M EP F ci site = tryResolve n M EP ci F True S" unfolding eq by simp
        then show ?thesis using resolve by simp
      next
        case False
        then have "from_caller n M EP F ci site = Inr" unfolding eq by auto
        then show ?thesis by (simp add: ends_step_Inr)
      qed
    qed
    then have "ends_step (pairs M U) U (err_fold (from_caller n M EP F ci) (known_callers w F))"
      by (rule ends_step_fold)
    from ends_stepD [OF this cw] obtain v where
      "err_fold (from_caller n M EP F ci) (known_callers w F) w = Inr v" "progress (pairs M U) U w v" by blast
    with w True show "\<exists>v. visit_call n M EP F ci u = Inr v \<and> progress (pairs M U) U u v"
      by (auto simp: visit_call_def intro: progress_trans)
  qed
next
  case False
  then have "visit_call n M EP F ci = Inr" by (auto simp: visit_call_def)
  then show ?thesis by (simp add: ends_step_Inr)
qed

lemma collectPayloadWrites_ends:
  assumes B: "bounded n M IM EP Ps U UI" and P: "set (fn_insts (fn_of IM P)) \<subseteq> UI"
  shows "\<exists>Ws. collectPayloadWrites n IM P = Inr Ws"
  unfolding collectPayloadWrites_def
proof (rule err_fold_ends)
  fix ci Out assume "ci \<in> set (fn_insts (fn_of IM P))"
  with P have ci: "ci \<in> UI" by blast
  have "\<exists>W. payload_write n IM ci = Inr W"
  proof (cases "val_of (ir IM) ci")
    case (VInst i)
    show ?thesis
    proof (cases i)
      case (CallInst callee as asm addr)
      have "\<exists>Vs. evalConstTargets n n (ir IM) Map.empty {} (as ! 1) [] = Inr Vs" if "\<not> length as < 2"
      proof -
        have "as ! 1 \<in> set (operands_of i)" using that CallInst by simp
        with boundedD(7) [OF B ci VInst] have "as ! 1 \<in> UI" by blast
        then show ?thesis by (rule boundedD(4) [OF B])
      qed
      then show ?thesis
        by (auto simp: payload_write_def VInst CallInst split: option.splits ir_value.splits ir_constant.splits)
    qed (simp_all add: payload_write_def VInst)
  qed (simp_all add: payload_write_def)
  then show "\<exists>t. err_bind (payload_write n IM ci) (\<lambda>W. Inr (Out @ W)) = Inr t" by auto
qed

lemma visit_payload_site_ends:
  assumes B: "bounded n M IM EP Ps U UI" and ci: "ci \<in> U"
  shows "ends_step (pairs M U) U (visit_payload_site n M IM EP Ps F ci)"
proof (rule ends_stepI)
  fix u assume u: "callers_in U u"
  show "\<exists>v. visit_payload_site n M IM EP Ps F ci u = Inr v \<and> progress (pairs M U) U u v"
  proof (cases "\<exists>a MI. is_indirect (ir M) ci \<and> CallTargets (graph u) ci = None \<and> trace_addr (ir M) ci = Some a \<and>
      buildTraceAddrToMIMap Ps a = Some MI")
    case True
    then obtain a MI where MI: "is_indirect (ir M) ci" "CallTargets (graph u) ci = None" "trace_addr (ir M) ci = Some a"
      "buildTraceAddrToMIMap Ps a = Some MI" by blast
    have "ends_step (pairs M U) U (consult_payload n M IM EP F ci P)" if "P \<in> set (ip_payloads MI)" for P
    proof (rule ends_stepI)
      fix w
      from buildTraceAddrToMIMap_Some [OF MI(4)] boundedD(9) [OF B _ that] collectPayloadWrites_ends [OF B]
      obtain Ws where "collectPayloadWrites n IM P = Inr Ws" by blast
      then show "\<exists>v. consult_payload n M IM EP F ci P w = Inr v \<and> progress (pairs M U) U w v"
        using resolve_progress(2) [OF B ci] by (auto simp: consult_payload_def intro!: progress_fold)
    qed
    then have "ends_step (pairs M U) U (err_fold (consult_payload n M IM EP F ci) (ip_payloads MI))"
      by (rule ends_step_fold)
    from ends_stepD [OF this u] MI show ?thesis by (simp add: visit_payload_site_def)
  next
    case False
    then have "visit_payload_site n M IM EP Ps F ci u = Inr u" by (auto simp: visit_payload_site_def split: option.splits)
    then show ?thesis by (simp add: progress_refl)
  qed
qed

lemma for_calls_ends:
  assumes B: "bounded n M IM EP Ps U UI" and visit: "\<And>F ci. ci \<in> U \<Longrightarrow> ends_step (pairs M U) U (visit F ci)"
  shows "ends_step (pairs M U) U (for_calls M visit)"
proof -
  have "ends_step (pairs M U) U (\<lambda>st. if isDeclaration (fn_of M F) then Inr st else err_fold (visit F) (fn_insts (fn_of M F)) st)"
    if "F \<in> set (fns M)" for F
  proof (cases "isDeclaration (fn_of M F)")
    case False
    have "ends_step (pairs M U) U (err_fold (visit F) (fn_insts (fn_of M F)))"
      using boundedD(8) [OF B that] visit by (intro ends_step_fold) blast
    with False show ?thesis by simp
  qed (simp add: ends_step_Inr)
  then have "ends_step (pairs M U) U (err_fold (\<lambda>F st. if isDeclaration (fn_of M F) then Inr st
      else err_fold (visit F) (fn_insts (fn_of M F)) st) (fns M))"
    by (rule ends_step_fold)
  moreover have "for_calls M visit = err_fold (\<lambda>F st. if isDeclaration (fn_of M F) then Inr st
      else err_fold (visit F) (fn_insts (fn_of M F)) st) (fns M)"
    by (rule ext) (simp add: for_calls_def)
  ultimately show ?thesis by simp
qed

lemma trace_pass_ends:
  assumes B: "bounded n M IM EP Ps U UI" and "callers_in U u"
  shows "\<exists>v. trace_pass n M IM EP Ps u = Inr v \<and> progress (pairs M U) U (u\<lparr>Changed := False\<rparr>) v"
proof -
  let ?u = "u\<lparr>Changed := False\<rparr>"
  have u: "callers_in U ?u" using assms(2) by (simp add: callers_in_def known_callers_def)
  have "ends_step (pairs M U) U (for_calls M (visit_call n M EP))"
    by (rule for_calls_ends [OF B]) (rule visit_call_ends [OF B])
  from ends_stepD [OF this u] obtain w where
    w: "for_calls M (visit_call n M EP) ?u = Inr w" "progress (pairs M U) U ?u w" by blast
  then have cw: "callers_in U w" using u by (blast intro: progress_callers)
  have "\<exists>v. resolveViaPayloads n M IM EP Ps w = Inr v \<and> progress (pairs M U) U w v"
  proof -
    have "ends_step (pairs M U) U (for_calls M (visit_payload_site n M IM EP Ps))"
      by (rule for_calls_ends [OF B]) (rule visit_payload_site_ends [OF B])
    from ends_stepD [OF this cw] show ?thesis by (simp add: resolveViaPayloads_def progress_refl)
  qed
  with w show ?thesis by (auto simp: trace_pass_def intro: progress_trans)
qed

definition open_pairs :: "(val \<times> fn) set \<Rightarrow> trace_state \<Rightarrow> (val \<times> fn) set" where
  "open_pairs Z u = {(ci, T) \<in> Z. T \<notin> set (call_targets u ci)}"

lemma finite_pairs: "bounded n M IM EP Ps U UI \<Longrightarrow> finite (pairs M U)"
  using boundedD(2) [of n M IM EP Ps U UI] by (auto simp: pairs_def)

lemma trace_loop_ends:
  assumes B: "bounded n M IM EP Ps U UI"
  shows "callers_in U u \<Longrightarrow> card (open_pairs (pairs M U) u) + 1 < m \<Longrightarrow> \<exists>t. trace_loop m (trace_pass n M IM EP Ps) u = Inr t"
proof (induction m arbitrary: u)
  case (Suc m)
  show ?case
  proof (cases "Changed u")
    case True
    from trace_pass_ends [OF B Suc.prems(1)] obtain v where v: "trace_pass n M IM EP Ps u = Inr v"
      and p: "progress (pairs M U) U (u\<lparr>Changed := False\<rparr>) v" by blast
    have same: "call_targets (u\<lparr>Changed := False\<rparr>) = call_targets u" by (simp add: call_targets_def fun_eq_iff)
    have cv: "callers_in U v"
      using progress_callers [OF p] Suc.prems(1) by (simp add: callers_in_def known_callers_def)
    have "\<exists>t. trace_loop m (trace_pass n M IM EP Ps) v = Inr t"
    proof (cases "Changed v")
      case True
      with p obtain ci T where new: "(ci, T) \<in> pairs M U" "T \<in> set (call_targets v ci)" "T \<notin> set (call_targets u ci)"
        by (auto simp: progress_def same)
      have "open_pairs (pairs M U) v \<subset> open_pairs (pairs M U) u" using p new by (auto simp: open_pairs_def progress_def same)
      moreover have "finite (open_pairs (pairs M U) u)" using finite_pairs [OF B] by (rule rev_finite_subset) (auto simp: open_pairs_def)
      ultimately have "card (open_pairs (pairs M U) v) < card (open_pairs (pairs M U) u)" by (rule psubset_card_mono [rotated])
      with Suc.IH [OF cv] Suc.prems(2) show ?thesis by simp
    next
      case False
      with Suc.prems(2) show ?thesis by (cases m) simp_all
    qed
    with True v show ?thesis by simp
  qed simp
qed simp

lemma callers_in_seed:
  assumes B: "bounded n M IM EP Ps U UI"
  shows "callers_in U (seed M initial_trace)"
proof -
  have step: "callers_in U (seed_call M F ci u)" if "callers_in U u" "ci \<in> U" for F ci u
    using that by (auto simp: seed_call_def Let_def callers_in_def known_callers_add_caller known_callers_set
        discover_def known_callers_def add_caller_def set_targets_def split: ir_value.splits ir_inst.splits option.splits if_splits)
  have in_fn: "callers_in U (fold (seed_call M F) cis u)" if "callers_in U u" "set cis \<subseteq> U" for F cis u
    using that by (induction cis arbitrary: u) (simp_all add: step)
  have "callers_in U (fold (\<lambda>F. fold (seed_call M F) (fn_insts (fn_of M F))) Fs u)"
    if "callers_in U u" "set Fs \<subseteq> set (fns M)" for Fs u
    using that boundedD(8) [OF B] by (induction Fs arbitrary: u) (simp_all add: in_fn)
  moreover have "callers_in U initial_trace" by (simp add: callers_in_def initial_trace_def known_callers_def)
  ultimately show ?thesis by (simp add: seed_def)
qed

lemma runTrace_ends:
  assumes B: "bounded n M IM EP Ps U UI" and fuel: "card U * length (fns M) + 2 \<le> n"
  shows "\<exists>st. runTrace n M IM Ps = Inr st"
proof -
  have "card (open_pairs (pairs M U) (seed M initial_trace)) \<le> card (pairs M U)"
    using finite_pairs [OF B] by (intro card_mono) (auto simp: open_pairs_def)
  also have "\<dots> = card U * card (set (fns M))" by (simp add: pairs_def card_cartesian_product)
  also have "\<dots> \<le> card U * length (fns M)" by (intro mult_le_mono2 card_length)
  finally have "card (open_pairs (pairs M U) (seed M initial_trace)) + 1 < n" using fuel by simp
  from trace_loop_ends [OF B callers_in_seed [OF B] this] boundedD(1) [OF B] show ?thesis by (auto simp: runTrace_def)
qed

subsection \<open>Examples\<close>

text \<open>
  Function 0 is a kernel that calls function 1 with the address of function 2 as argument; function 1
  calls its argument. In the other module function 1 calls a phi of function 2 and its argument, and
  nobody calls function 1.
\<close>

definition sample_llvm :: "(val \<times> ir_value) list \<Rightarrow> llvm" where
  "sample_llvm vs =
     \<lparr>val_of = (\<lambda>v. case map_of vs v of None \<Rightarrow> VArgument | Some x \<Rightarrow> x), ty_of = (\<lambda>_. 0), const_ty = (\<lambda>_. 0),
      intrinsic = (\<lambda>_. NotIntrinsic), isMustAlias = (\<lambda>_ _. False), addr_space = (\<lambda>_. 0), store_size = (\<lambda>_. 8),
      clobbering = (\<lambda>_. LiveOnEntry), clobbering_at = (\<lambda>_ _. LiveOnEntry), fold_inst = (\<lambda>_ _. None),
      fold_cast = (\<lambda>_ c _. Some c)\<rparr>"

definition plain_fn :: ir_fn where
  "plain_fn = \<lparr>is_kernel = False, isDeclaration = False, isIntrinsic = False, entry_point = Some 256,
     fn_insts = [], fn_args = [], intrinsic_attr = None\<rparr>"

definition argument_call :: ir_mod where
  "argument_call =
     \<lparr>ir = sample_llvm [(0, VInst (CallInst 1 [2] False None)), (1, VConstant (ConstantFn 1)),
        (2, VConstant (ConstantFn 2)), (4, VInst (CallInst 3 [] False (Some 64)))],
      fns = [0, 1, 2],
      fn_of = (\<lambda>F. if F = 0 then plain_fn\<lparr>is_kernel := True, fn_insts := [0]\<rparr>
        else if F = 1 then plain_fn\<lparr>fn_insts := [4], fn_args := [3]\<rparr>
        else plain_fn\<lparr>entry_point := Some 512\<rparr>)\<rparr>"

definition phi_call :: ir_mod where
  "phi_call =
     \<lparr>ir = sample_llvm [(2, VConstant (ConstantFn 2)), (4, VInst (CallInst 5 [] False (Some 64))),
        (5, VInst (PHINode [2, 3]))],
      fns = [1, 2],
      fn_of = (\<lambda>F. if F = 1 then plain_fn\<lparr>fn_insts := [5, 4], fn_args := [3]\<rparr>
        else plain_fn\<lparr>entry_point := Some 512\<rparr>)\<rparr>"

definition unknown_call :: ir_mod where
  "unknown_call =
     \<lparr>ir = sample_llvm [(4, VInst (CallInst 3 [] False (Some 64)))],
      fns = [1, 2],
      fn_of = (\<lambda>F. if F = 1 then plain_fn\<lparr>fn_insts := [4], fn_args := [3]\<rparr>
        else plain_fn\<lparr>entry_point := Some 512\<rparr>)\<rparr>"

text \<open>A payload that writes the address of function 2 to register \<open>d\<close>, and a call through register 32.\<close>

definition writing_payload :: "64 word \<Rightarrow> ir_mod" where
  "writing_payload d =
     \<lparr>ir = sample_llvm [(0, VInst (CallInst 1 [2, 3] False None)), (1, VConstant (ConstantFn 7)),
        (2, VConstant (ConstantInt 0 d)), (3, VConstant (ConstantInt 0 512))],
      fns = [9],
      fn_of = (\<lambda>F. if F = 7 then plain_fn\<lparr>isDeclaration := True, intrinsic_attr := Some ''luthier::writeReg''\<rparr>
        else plain_fn\<lparr>fn_insts := [0]\<rparr>)\<rparr>"

definition swappc_point :: inst_point where
  "swappc_point = \<lparr>ip_addr = Some 64, ip_opcode = S_SWAPPC_B64, ip_operands = [Some 30, Some 32], ip_payloads = [9]\<rparr>"

lemmas trace_eval = runTrace_def EntryPointToDevFunc_def entry_of_def trace_pass_def for_calls_def visit_call_def
  tryResolve_def from_caller_def site_subst_def bind_arg_def resolve_constant_def add_target_def add_caller_def
  set_targets_def call_targets_def known_callers_def seed_def seed_call_def initial_trace_def mark_incomplete_def
  mark_site_def is_indirect_def called_operand_def call_args_def trace_addr_def getCalledFunction_def
  getIntrinsicID_def discover_def resolveViaPayloads_def visit_payload_site_def consult_payload_def
  collectPayloadWrites_def payload_write_def resolve_write_def buildTraceAddrToMIMap_def add_const_def
  cached_def sample_llvm_def plain_fn_def Let_def

lemma five_Suc: "(5 :: nat) = Suc (Suc (Suc (Suc (Suc 0))))"
  by simp

lemma argument_call_run:
  "\<exists>st. runTrace 5 argument_call argument_call [] = Inr st \<and> call_targets st 4 = [2] \<and> call_targets st 0 = [1] \<and>
     known_callers st 1 = [(0, 0)] \<and> FullyRecovered (graph st) \<and> may_dangle st"
  by (simp add: trace_eval five_Suc argument_call_def)

lemma phi_call_run:
  "\<exists>st. runTrace 5 phi_call phi_call [] = Inr st \<and> call_targets st 4 = [2] \<and> FullyRecovered (graph st)"
  by (simp add: trace_eval five_Suc phi_call_def)

lemma payload_run:
  "\<exists>st. runTrace 5 unknown_call (writing_payload d) [swappc_point] = Inr st \<and> call_targets st 4 = [2] \<and>
     FullyRecovered (graph st)"
  by (simp add: trace_eval five_Suc unknown_call_def writing_payload_def swappc_point_def)

subsection \<open>Properties\<close>


definition argument_state :: "val \<Rightarrow> ir_constant" where
  "argument_state v =
     (if v = 0 then OtherConstant 0 else if v = 1 then ConstantFn 1 else if v = 2 \<or> v = 3 then ConstantFn 2
      else OtherConstant v)"

lemma argument_call_insts:
  "val_of (ir argument_call) v =
     (if v = 0 then VInst (CallInst 1 [2] False None) else if v = 1 then VConstant (ConstantFn 1)
      else if v = 2 then VConstant (ConstantFn 2) else if v = 4 then VInst (CallInst 3 [] False (Some 64))
      else VArgument)"
  by (simp add: argument_call_def sample_llvm_def)

lemma argument_state_consistent: "consistent (ir argument_call) [3 \<mapsto> ConstantFn 2] argument_state"
  unfolding consistent_def argument_call_insts
  by (simp add: argument_state_def respects_inst_def argument_call_def sample_llvm_def getIntrinsicID_def folds_def
    getCalledFunction_def)


text \<open>
  C27: Every target has a reason: it is the callee of a direct call, or a function whose address or handle the
  callee operand can take on some path, under the arguments of a caller that is itself justified, or one
  that a payload attached to the call writes to a register.
\<close>

theorem targets_justified:
  assumes "runTrace n M IM Points = Inr st" and "EntryPointToDevFunc M = Inr EP"
    and "T \<in> set (call_targets st ci)"
  shows "getCalledFunction (ir M) (called_operand (ir M) ci) = Some T \<or>
    traced_target M EP st ci T \<or> written_target M IM EP Points ci T"
  using all_justifiedD(1) [OF runTrace_justified [OF assms(1,2)] assms(3)] by (simp add: justified_def)

theorem targets_justified_witness:
  "\<exists>st. runTrace 5 argument_call argument_call [] = Inr st \<and>
    traced_target argument_call [256 \<mapsto> 1, 512 \<mapsto> 2] st 4 2"
proof -
  from argument_call_run obtain st where st: "runTrace 5 argument_call argument_call [] = Inr st"
    "call_targets st 4 = [2]" by blast
  have EP: "EntryPointToDevFunc argument_call = Inr [256 \<mapsto> 1, 512 \<mapsto> 2]" by (simp add: trace_eval argument_call_def)
  from targets_justified [OF st(1) EP, of 2 4] st(2)
  have "traced_target argument_call [256 \<mapsto> 1, 512 \<mapsto> 2] st 4 2"
    by (auto simp: getCalledFunction_def called_operand_def argument_call_insts written_target_def)
  with st(1) show ?thesis by blast
qed


lemma unknown_call_run: "\<exists>st. runTrace 5 unknown_call unknown_call [] = Inr st \<and> CallTargets (graph st) 4 = None"
  by (simp add: trace_eval unknown_call_def five_Suc)


text \<open>
  C28: The trace ends on every finite module in which SSA values depend on themselves only through phis and
  memory: one pass more than the call and function pairs, and evaluation depth bounded by the loads and the
  rank of the values, suffice.
\<close>

theorem call_graph_terminates:
  assumes "bounded n M IM EP Points U UI" and "card U * length (fns M) + 2 \<le> n"
  shows "\<exists>st. runTrace n M IM Points = Inr st"
  using assms by (rule runTrace_ends)

theorem call_graph_terminates_witness: "\<exists>st. runTrace 17 argument_call argument_call [] = Inr st"
proof (rule call_graph_terminates)
  show "bounded 17 argument_call argument_call [256 \<mapsto> 1, 512 \<mapsto> 2] [] {0, 1, 2, 3, 4} {}"
    unfolding bounded_def
  proof (intro conjI exI)
    show "ranked (ir argument_call) {0, 1, 2, 3, 4} 1 (\<lambda>v. if v = 0 \<or> v = 4 then 1 else 0)"
      by (simp add: ranked_def argument_call_insts folds_def getIntrinsicID_def getCalledFunction_def
        argument_call_def sample_llvm_def)
    show "ranked (ir argument_call) {} 0 (\<lambda>_. 0)" by (simp add: ranked_def)
  qed (simp_all add: eval_fuel_def argument_call_def plain_fn_def trace_eval)
qed (simp add: argument_call_def)

definition missed_state :: "val \<Rightarrow> ir_constant" where
  "missed_state v = (if v = 2 then ConstantFn 2 else ConstantFn 1)"

text \<open>
  A call with one known and one unknown arm counts as recovered: for a phi of a function and an argument
  of a function nobody is known to call, a state of the program calls a function that is not among the
  targets, yet the graph is fully recovered.
\<close>

lemma partly_known_call_is_complete:
  "\<exists>st. runTrace 5 phi_call phi_call [] = Inr st \<and> FullyRecovered (graph st) \<and> 4 \<notin> IncompleteCallSites (graph st) \<and>
    consistent (ir phi_call) Map.empty missed_state \<and>
    missed_state (called_operand (ir phi_call) 4) = ConstantFn 1 \<and> 1 \<in> set (fns phi_call) \<and>
    1 \<notin> set (call_targets st 4)"
proof -
  from phi_call_run obtain st where st: "runTrace 5 phi_call phi_call [] = Inr st" "call_targets st 4 = [2]"
    "FullyRecovered (graph st)" by blast
  have "consistent (ir phi_call) Map.empty missed_state"
    by (simp add: consistent_def phi_call_def sample_llvm_def missed_state_def respects_inst_def folds_def
      getIntrinsicID_def getCalledFunction_def)
  with st runTrace_incomplete [OF st(1)] show ?thesis
    by (auto simp: phi_call_def sample_llvm_def missed_state_def called_operand_def)
qed

text \<open>
  A payload resolves a call through any register it writes: whatever register \<open>d\<close> the payload at a call
  through register 32 writes the address of a function to, that function becomes a target of the call.
\<close>

lemma payload_write_of_any_register_is_target:
  "getIndirectCallTargetReg swappc_point = Some 32 \<and>
    (\<exists>st. runTrace 5 unknown_call (writing_payload d) [swappc_point] = Inr st \<and> call_targets st 4 = [2] \<and>
       FullyRecovered (graph st))"
  using payload_run by (simp add: getIndirectCallTargetReg_def swappc_point_def)

end
