(* ===== verification/Register_Slices.thy ===== *)
theory Register_Slices
  imports Luthier_Prelude "HOL-Library.AList" "HOL-Library.Multiset"
begin

text \<open>
  \<open>src/lib/ToolCodeGen/TraceFunctionTranslator.cpp\<close>: the register values of a basic block during the
  translation of machine code to IR. A register is a range of 16-bit halves in a register file; the block
  keeps, for every range that was read or written, the IR values that stand for it, one per type. A read of
  another range is put together from the overlapping ones, a write removes them. IR values are modelled by
  the bits they evaluate to, in halves, the lowest first; types have a size in halves (\<open>RegGranule\<close>).
  Failing assertions are errors.
\<close>

subsection \<open>Types and values\<close>

type_synonym half = "16 word"

datatype llty = IntTy nat | FpTy nat | PtrTy nat | IntVec nat nat | FpVec nat nat

fun halves_of :: "llty \<Rightarrow> nat" where
  "halves_of (IntTy n) = n"
| "halves_of (FpTy n) = n"
| "halves_of (PtrTy n) = n"
| "halves_of (IntVec e n) = e * n"
| "halves_of (FpVec e n) = e * n"

fun isPtrTy :: "llty \<Rightarrow> bool" where
  "isPtrTy (PtrTy _) = True"
| "isPtrTy _ = False"

fun isIntOrPtrTy :: "llty \<Rightarrow> bool" where
  "isIntOrPtrTy (IntTy _) = True"
| "isIntOrPtrTy (PtrTy _) = True"
| "isIntOrPtrTy _ = False"

fun isIntOrIntVectorTy :: "llty \<Rightarrow> bool" where
  "isIntOrIntVectorTy (IntTy _) = True"
| "isIntOrIntVectorTy (IntVec _ _) = True"
| "isIntOrIntVectorTy _ = False"

text \<open>Pointers have no primitive size without a data layout.\<close>

definition getPrimitiveSize :: "llty \<Rightarrow> nat" where
  "getPrimitiveSize T = (if isPtrTy T then 0 else halves_of T)"

datatype slice_error =
  Empty_entry | Invalid_cast | Zero_width_integer | Width_not_divisible | Pivot_mismatch | Offset_zero_out_of_range

type_synonym value_map = "(llty \<times> half list) list"

definition resize :: "nat \<Rightarrow> half list \<Rightarrow> half list" where
  "resize n v = take n (v @ replicate n 0)"

definition CreateBitOrPointerCast :: "llty \<Rightarrow> half list \<Rightarrow> llty \<Rightarrow> slice_error + half list" where
  "CreateBitOrPointerCast T v T' =
     (if T = T' then Inr v
      else if isIntOrIntVectorTy T \<and> isPtrTy T' \<or> isPtrTy T \<and> isIntOrIntVectorTy T' then
        (if isIntOrPtrTy T \<and> isIntOrPtrTy T' then Inr (resize (halves_of T') v) else Inl Invalid_cast)
      else if isPtrTy T \<or> isPtrTy T' \<or> halves_of T \<noteq> halves_of T' then Inl Invalid_cast
      else Inr v)"

definition getIntNTy :: "nat \<Rightarrow> slice_error + llty" where
  "getIntNTy n = (if n = 0 then Inl Zero_width_integer else Inr (IntTy n))"

subsection \<open>The values of one register\<close>

definition cast_first :: "value_map \<Rightarrow> slice_error + (llty \<times> half list) \<times> value_map" where
  "cast_first VE =
     (case VE of
       [] \<Rightarrow> Inl Empty_entry
     | (T, v) # _ \<Rightarrow>
         err_bind (getIntNTy (getPrimitiveSize T)) (\<lambda>OutTy.
         err_bind (CreateBitOrPointerCast T v OutTy) (\<lambda>w. Inr ((OutTy, w), AList.update OutTy w VE))))"

definition getOrCreateIntOrPtrTypeForReg ::
  "value_map \<Rightarrow> slice_error + (llty \<times> half list) \<times> value_map" where
  "getOrCreateIntOrPtrTypeForReg VE =
     (case find (\<lambda>(T, v). isIntOrPtrTy T) VE of
       Some tv \<Rightarrow> Inr (tv, VE)
     | None \<Rightarrow>
         (case find (\<lambda>(T, v). isIntOrIntVectorTy T \<or> isPtrTy T) (rev VE) of
           Some tv \<Rightarrow> Inr (tv, VE)
         | None \<Rightarrow> cast_first VE))"

definition getOrCreateIntOrFloatTypeForReg ::
  "value_map \<Rightarrow> slice_error + (llty \<times> half list) \<times> value_map" where
  "getOrCreateIntOrFloatTypeForReg VE =
     (case find (\<lambda>(T, v). \<not> isPtrTy T) VE of Some tv \<Rightarrow> Inr (tv, VE) | None \<Rightarrow> cast_first VE)"

definition pivot_of :: "nat \<Rightarrow> value_map \<Rightarrow> slice_error + (llty \<times> half list) \<times> value_map" where
  "pivot_of n VE =
     (case find (\<lambda>(T, v). getPrimitiveSize T = n \<and> \<not> isPtrTy T) VE of
       Some tv \<Rightarrow> Inr (tv, VE)
     | None \<Rightarrow> getOrCreateIntOrFloatTypeForReg VE)"

definition breakdownToVecTyFromAvailableValues ::
  "value_map \<Rightarrow> nat \<Rightarrow> nat \<Rightarrow> slice_error + half list \<times> value_map" where
  "breakdownToVecTyFromAvailableValues VE TotalWidth ElemWidth =
     (if TotalWidth mod ElemWidth \<noteq> 0 then Inl Width_not_divisible
      else
        (let VecTy = IntVec ElemWidth (TotalWidth div ElemWidth) in
         case map_of VE VecTy of
           Some v \<Rightarrow> Inr (v, VE)
         | None \<Rightarrow>
             err_bind (pivot_of TotalWidth VE) (\<lambda>(Pivot, VE).
               if getPrimitiveSize (fst Pivot) \<noteq> TotalWidth then Inl Pivot_mismatch
               else
                 err_bind (CreateBitOrPointerCast (fst Pivot) (snd Pivot) VecTy) (\<lambda>Out.
                   Inr (Out, AList.update VecTy Out VE)))))"

subsection \<open>The state of a block\<close>

datatype reg_file =
  SGPR_file | TTMP_file | EXEC_file | APERTURE_file | STATUS_file | HW_file | VGPR_file | AGPR_file

type_synonym reg_key = "reg_file \<times> nat \<times> nat"
type_synonym reg_state = "(reg_key \<times> value_map) list"

definition entry_at :: "reg_state \<Rightarrow> reg_key \<Rightarrow> value_map" where
  "entry_at St K = (case map_of St K of None \<Rightarrow> [] | Some VE \<Rightarrow> VE)"

definition set_value :: "reg_key \<Rightarrow> llty \<Rightarrow> half list \<Rightarrow> reg_state \<Rightarrow> reg_state" where
  "set_value K T v St = AList.update K (AList.update T v (entry_at St K)) St"

definition ExtractElement :: "nat \<Rightarrow> nat \<Rightarrow> half list \<Rightarrow> half list" where
  "ExtractElement e i v = take e (drop (i * e) v)"

definition InsertElement :: "nat \<Rightarrow> nat \<Rightarrow> half list \<Rightarrow> half list \<Rightarrow> half list" where
  "InsertElement e i x v = take (i * e) v @ x @ drop (i * e + e) v"

subsection \<open>Writes\<close>

definition preserveRegion :: "nat \<Rightarrow> nat \<Rightarrow> half list \<Rightarrow> nat \<Rightarrow> nat \<Rightarrow> (nat \<times> nat \<times> half list) list" where
  "preserveRegion OptHalves SStart Vec RegionStart RegionEnd =
     map (\<lambda>CI. let AbsOffset = RegionStart + CI * OptHalves in
            (AbsOffset, OptHalves, ExtractElement OptHalves ((AbsOffset - SStart) div OptHalves) Vec))
       [0..<(RegionEnd - RegionStart) div OptHalves]"

text \<open>What happens to one stored entry: whether it is erased, and the pieces of it that are preserved.\<close>

definition visit_stored ::
  "reg_key \<Rightarrow> reg_key \<times> value_map \<Rightarrow> slice_error + bool \<times> (nat \<times> nat \<times> half list) list" where
  "visit_stored W Stored =
     (case (W, Stored) of ((WBase, WStart, WNum), ((SBase, SStart, SNum), Entry)) \<Rightarrow>
        (let WEnd = WStart + WNum; SEnd = SStart + SNum in
         if SBase \<noteq> WBase then Inr (False, [])
         else if SEnd \<le> WStart \<or> WEnd \<le> SStart then Inr (False, [])
         else if SStart = WStart \<and> SNum = WNum then Inr (False, [])
         else if WStart \<le> SStart \<and> SEnd \<le> WEnd then Inr (True, [])
         else if SStart \<le> WStart \<and> WEnd \<le> SEnd then
           (let LeftSize = WStart - SStart; RightSize = SEnd - WEnd;
                OptHalves = gcd (gcd LeftSize RightSize) WNum in
            err_bind (breakdownToVecTyFromAvailableValues Entry SNum OptHalves) (\<lambda>(Vec, _).
              Inr (True,
                (if LeftSize \<noteq> 0 then preserveRegion OptHalves SStart Vec SStart WStart else []) @
                (if RightSize \<noteq> 0 then preserveRegion OptHalves SStart Vec WEnd SEnd else []))))
         else Inr (True, [])))"

definition collect_stored ::
  "reg_key \<Rightarrow> reg_key \<times> value_map \<Rightarrow> reg_key list \<times> (nat \<times> nat \<times> half list) list \<Rightarrow>
    slice_error + reg_key list \<times> (nat \<times> nat \<times> half list) list" where
  "collect_stored W Stored acc =
     err_bind (visit_stored W Stored) (\<lambda>(erase, pieces).
       Inr (if erase then fst acc @ [fst Stored] else fst acc, snd acc @ pieces))"

definition invalidateOverlaps :: "reg_state \<Rightarrow> reg_key \<Rightarrow> slice_error + reg_state" where
  "invalidateOverlaps St W =
     err_bind (err_fold (collect_stored W) St ([], [])) (\<lambda>(ToErase, ToPreserve).
       Inr (fold (\<lambda>(o', n, v). set_value (fst W, o', n) (IntTy n) v) ToPreserve
              (fold AList.delete ToErase St)))"

type_synonym file_size = "reg_file \<Rightarrow> nat"

definition in_range :: "file_size \<Rightarrow> reg_key \<Rightarrow> bool" where
  "in_range RegFileSize K = (case K of (b, o', n) \<Rightarrow> o' + n \<le> RegFileSize b)"

definition setRegOperandValue ::
  "file_size \<Rightarrow> reg_state \<Rightarrow> reg_key \<Rightarrow> llty \<Rightarrow> half list \<Rightarrow> slice_error + reg_state" where
  "setRegOperandValue RegFileSize St K T v =
     (if \<not> in_range RegFileSize K then Inr St
      else err_bind (invalidateOverlaps St K) (\<lambda>St. Inr (set_value K T v St)))"

subsection \<open>Reads\<close>

text \<open>One chunk of a stored register. The callers ask for one chunk (\<open>NumChunks = 1\<close>) only.\<close>

definition extractChunkFromSource ::
  "reg_state \<Rightarrow> reg_key \<Rightarrow> nat \<Rightarrow> nat \<Rightarrow> slice_error + half list \<times> reg_state" where
  "extractChunkFromSource St K VecChunkSize Idx =
     (let VE = entry_at St K; KeyTotalWidth = snd (snd K) in
      if KeyTotalWidth mod VecChunkSize = 0 then
        (if KeyTotalWidth = VecChunkSize then
           (case map_of VE (IntTy VecChunkSize) of
             Some v \<Rightarrow> Inr (v, St)
           | None \<Rightarrow>
               err_bind (pivot_of VecChunkSize VE) (\<lambda>(Pivot, VE).
               err_bind (CreateBitOrPointerCast (fst Pivot) (snd Pivot) (IntTy VecChunkSize)) (\<lambda>Out.
                 Inr (Out, AList.update K (AList.update (IntTy VecChunkSize) Out VE) St))))
         else
           err_bind (breakdownToVecTyFromAvailableValues VE KeyTotalWidth VecChunkSize) (\<lambda>(TheVec, VE).
             Inr (ExtractElement VecChunkSize Idx TheVec, AList.update K VE St)))
      else
        err_bind
          (case map_of VE (IntTy KeyTotalWidth) of
             Some v \<Rightarrow> Inr (v, VE)
           | None \<Rightarrow>
               err_bind (getOrCreateIntOrFloatTypeForReg VE) (\<lambda>(Pivot, VE).
               err_bind (CreateBitOrPointerCast (fst Pivot) (snd Pivot) (IntTy KeyTotalWidth)) (\<lambda>Flat.
                 Inr (Flat, AList.update (IntTy KeyTotalWidth) Flat VE))))
          (\<lambda>(Flat, VE).
            Inr (resize VecChunkSize (drop (Idx * VecChunkSize) Flat), AList.update K VE St)))"

text \<open>A stored entry that overlaps the range of a read, with the overlap.\<close>

record overlap_info =
  ov_key :: reg_key
  OverlapStart :: nat
  OverlapEnd :: nat

definition SrcOffset :: "overlap_info \<Rightarrow> nat" where
  "SrcOffset ov = fst (snd (ov_key ov))"

definition overlap_with :: "reg_key \<Rightarrow> reg_key \<times> value_map \<Rightarrow> overlap_info option" where
  "overlap_with R Stored =
     (case (R, fst Stored) of ((RBase, RStart, RNum), (SBase, SStart, SNum)) \<Rightarrow>
        (let OStart = max SStart RStart; OEnd = min (SStart + SNum) (RStart + RNum) in
         if SBase = RBase \<and> OStart < OEnd then
           Some \<lparr>ov_key = fst Stored, OverlapStart = OStart, OverlapEnd = OEnd\<rparr>
         else None))"

definition overlaps_of :: "reg_state \<Rightarrow> reg_key \<Rightarrow> overlap_info list" where
  "overlaps_of St R =
     sort_key (\<lambda>ov. - int (OverlapEnd ov - OverlapStart ov)) (List.map_filter (overlap_with R) St)"

text \<open>The maximal ranges from \<open>H\<close> to \<open>End\<close> that are not covered.\<close>

function run_end :: "nat set \<Rightarrow> nat \<Rightarrow> nat \<Rightarrow> nat" where
  "run_end Covered H End = (if H < End \<and> H \<notin> Covered then run_end Covered (H + 1) End else H)"
  by pat_completeness auto
termination by (relation "measure (\<lambda>(C, H, End). End - H)") auto

declare run_end.simps [simp del]

lemma run_end_ge: "H \<le> run_end C H End"
proof (induction C H End rule: run_end.induct)
  case (1 C H End)
  then show ?case by (subst run_end.simps) force
qed

function free_runs :: "nat set \<Rightarrow> nat \<Rightarrow> nat \<Rightarrow> (nat \<times> nat) list" where
  "free_runs Covered H End =
     (if End \<le> H then []
      else if H \<in> Covered then free_runs Covered (H + 1) End
      else (H, run_end Covered (H + 1) End) # free_runs Covered (run_end Covered (H + 1) End) End)"
  by pat_completeness auto
termination
proof (relation "measure (\<lambda>(C, H, End). End - H)")
  fix C :: "nat set" and H End :: nat
  assume "\<not> End \<le> H" "H \<notin> C"
  with run_end_ge [of "H + 1" C End]
  show "((C, run_end C (H + 1) End, End), C, H, End) \<in> measure (\<lambda>(C, H, End). End - H)" by auto
qed auto

declare free_runs.simps [simp del]

text \<open>A chunk of the result: where it lies in its source, and its range in the register file.\<close>

record chunk_info =
  ck_key :: reg_key
  SrcChunkStart :: nat
  ChunkStart :: nat
  ChunkEnd :: nat

definition overlap_chunks :: "overlap_info \<Rightarrow> nat set \<Rightarrow> chunk_info list" where
  "overlap_chunks ov Covered =
     map (\<lambda>(s, e). \<lparr>ck_key = ov_key ov, SrcChunkStart = s - SrcOffset ov, ChunkStart = s, ChunkEnd = e\<rparr>)
       (free_runs Covered (OverlapStart ov) (OverlapEnd ov))"

fun cover_overlaps :: "overlap_info list \<Rightarrow> nat set \<Rightarrow> chunk_info list \<times> nat set" where
  "cover_overlaps [] Covered = ([], Covered)"
| "cover_overlaps (ov # ovs) Covered =
     (let chunks = overlap_chunks ov Covered;
          rest = cover_overlaps ovs (Covered \<union> (\<Union>c\<in>set chunks. {ChunkStart c..<ChunkEnd c})) in
      (chunks @ fst rest, snd rest))"

text \<open>
  The bits that a register range has at the start of the block: what the PHI or the frozen poison value
  that stands for it evaluates to.
\<close>

type_synonym reg_bits = "reg_file \<Rightarrow> nat \<Rightarrow> half"

definition bits_of :: "reg_bits \<Rightarrow> reg_key \<Rightarrow> half list" where
  "bits_of R K = (case K of (b, o', n) \<Rightarrow> map (R b) [o'..<o' + n])"

definition missing_chunk :: "reg_file \<Rightarrow> nat \<times> nat \<Rightarrow> chunk_info" where
  "missing_chunk b r =
     \<lparr>ck_key = (b, fst r, snd r - fst r), SrcChunkStart = 0, ChunkStart = fst r, ChunkEnd = snd r\<rparr>"

definition add_missing :: "reg_bits \<Rightarrow> chunk_info \<Rightarrow> reg_state \<Rightarrow> reg_state" where
  "add_missing Incoming c =
     set_value (ck_key c) (IntTy (ChunkEnd c - ChunkStart c)) (bits_of Incoming (ck_key c))"

definition optimal_halves :: "chunk_info list \<Rightarrow> nat" where
  "optimal_halves cs = fold (\<lambda>c a. gcd a (ChunkEnd c - ChunkStart c)) cs 0"

definition ExtractOneChunk ::
  "nat \<Rightarrow> nat \<Rightarrow> nat \<Rightarrow> reg_key \<Rightarrow> reg_state \<Rightarrow> slice_error + half list \<times> reg_state" where
  "ExtractOneChunk OptimalNumHalves SrcStart AbsChunkStart K St =
     err_bind (extractChunkFromSource St K OptimalNumHalves (SrcStart div OptimalNumHalves)) (\<lambda>(v, St).
       Inr (v, set_value (fst K, AbsChunkStart, OptimalNumHalves) (IntTy OptimalNumHalves) v St))"

definition insert_piece ::
  "nat \<Rightarrow> nat \<Rightarrow> chunk_info \<Rightarrow> nat \<Rightarrow> half list \<times> reg_state \<Rightarrow> slice_error + half list \<times> reg_state" where
  "insert_piece RStart OptimalNumHalves c i RS =
     (let CI = i * OptimalNumHalves in
      err_bind (ExtractOneChunk OptimalNumHalves (SrcChunkStart c + CI) (ChunkStart c + CI) (ck_key c) (snd RS))
        (\<lambda>(v, St).
          Inr (InsertElement OptimalNumHalves ((ChunkStart c - RStart + CI) div OptimalNumHalves) v (fst RS), St)))"

definition InsertChunk ::
  "nat \<Rightarrow> nat \<Rightarrow> chunk_info \<Rightarrow> half list \<times> reg_state \<Rightarrow> slice_error + half list \<times> reg_state" where
  "InsertChunk RStart OptimalNumHalves c =
     err_fold (insert_piece RStart OptimalNumHalves c) [0..<(ChunkEnd c - ChunkStart c) div OptimalNumHalves]"

text \<open>The chunks of a read, those without a source first, and the state with an entry for each of those.\<close>

definition read_plan :: "reg_bits \<Rightarrow> reg_state \<Rightarrow> reg_key \<Rightarrow> chunk_info list \<times> reg_state" where
  "read_plan Incoming St K =
     (case K of (b, RStart, RNum) \<Rightarrow>
        (let (covered, Covered) = cover_overlaps (overlaps_of St K) {};
             missing = map (missing_chunk b) (free_runs Covered RStart (RStart + RNum)) in
         (missing @ covered, fold (add_missing Incoming) missing St)))"

definition materializeFromOverlapping ::
  "reg_bits \<Rightarrow> reg_state \<Rightarrow> reg_key \<Rightarrow> llty \<Rightarrow> slice_error + half list \<times> reg_state" where
  "materializeFromOverlapping Incoming St K RegType =
     (if overlaps_of St K = [] then
        (let v = bits_of Incoming K in Inr (v, set_value K RegType v St))
      else
        (let RStart = fst (snd K); RNum = snd (snd K);
             (chunks, St) = read_plan Incoming St K;
             OptimalNumHalves = optimal_halves chunks;
             NumLanes = RNum div OptimalNumHalves in
         if NumLanes = 1 then
           (let c = hd chunks in
            err_bind (ExtractOneChunk OptimalNumHalves (SrcChunkStart c) (ChunkStart c) (ck_key c) St) (\<lambda>(v, St).
            err_bind (CreateBitOrPointerCast (IntTy OptimalNumHalves) v RegType) (\<lambda>w. Inr (w, St))))
         else
           err_bind (err_fold (InsertChunk RStart OptimalNumHalves) chunks (replicate RNum 0, St)) (\<lambda>(v, St).
           err_bind (CreateBitOrPointerCast (IntVec OptimalNumHalves NumLanes) v RegType) (\<lambda>w. Inr (w, St)))))"

text \<open>The offset that the bounds check sets to 0 is not used afterwards.\<close>

definition getOperandAsValue ::
  "file_size \<Rightarrow> reg_bits \<Rightarrow> reg_state \<Rightarrow> reg_key \<Rightarrow> llty \<Rightarrow> slice_error + half list \<times> reg_state" where
  "getOperandAsValue RegFileSize Incoming St K OutRegType =
     (if \<not> in_range RegFileSize K \<and> fst (snd K) = 0 then Inl Offset_zero_out_of_range
      else
        (case map_of St K of
          Some VE \<Rightarrow>
            (case map_of VE OutRegType of
              Some v \<Rightarrow> Inr (v, St)
            | None \<Rightarrow>
                err_bind (getOrCreateIntOrPtrTypeForReg VE) (\<lambda>(tv, VE).
                err_bind (CreateBitOrPointerCast (fst tv) (snd tv) OutRegType) (\<lambda>Out.
                  Inr (Out, AList.update K (AList.update OutRegType Out VE) St))))
        | None \<Rightarrow>
            err_bind (materializeFromOverlapping Incoming St K OutRegType) (\<lambda>(v, St).
              Inr (v, set_value K OutRegType v St))))"

subsection \<open>One register\<close>

text \<open>All values of an entry stand for the same bits, and one of them is not a pointer.\<close>

definition entry_ok :: "half list \<Rightarrow> value_map \<Rightarrow> bool" where
  "entry_ok v VE \<longleftrightarrow>
     v \<noteq> [] \<and> (\<forall>(T, w)\<in>set VE. halves_of T = length v \<and> w = v) \<and> (\<exists>T\<in>fst ` set VE. \<not> isPtrTy T)"

lemma entry_okD: "entry_ok v VE \<Longrightarrow> (T, w) \<in> set VE \<Longrightarrow> halves_of T = length v \<and> w = v"
  by (auto simp: entry_ok_def)

lemma entry_ok_map_of: "entry_ok v VE \<Longrightarrow> map_of VE T = Some w \<Longrightarrow> w = v"
  using entry_okD map_of_SomeD by fastforce

lemma set_update_subset: "set (AList.update k x al) \<subseteq> insert (k, x) (set al)"
  by (induction al) auto

lemma fst_set_update: "fst ` set (AList.update k x al) = insert k (fst ` set al)"
  using dom_update [of k x al] by auto

lemma entry_ok_update:
  assumes "entry_ok v VE" and "halves_of T = length v"
  shows "entry_ok v (AList.update T v VE)"
  using assms set_update_subset [of T v VE] unfolding entry_ok_def fst_set_update by fast

lemma entry_ok_single: "v \<noteq> [] \<Longrightarrow> halves_of T = length v \<Longrightarrow> \<not> isPtrTy T \<Longrightarrow> entry_ok v [(T, v)]"
  by (simp add: entry_ok_def)

lemma find_SomeD: "find P xs = Some x \<Longrightarrow> x \<in> set xs \<and> P x"
  by (auto simp: find_Some_iff)

lemma found_ok:
  assumes "entry_ok v VE" and "find (\<lambda>(T, w). P T) xs = Some tv" and "set xs \<subseteq> set VE"
  shows "P (fst tv)" "halves_of (fst tv) = length v" "tv = (fst tv, v)" "tv \<in> set VE"
proof -
  from find_SomeD [OF assms(2)] assms(3) have tv: "tv \<in> set VE" "P (fst tv)" by auto
  with entry_okD [OF assms(1), of "fst tv" "snd tv"]
  show "P (fst tv)" "halves_of (fst tv) = length v" "tv = (fst tv, v)" "tv \<in> set VE" by (simp_all add: prod_eq_iff)
qed

lemma cast_ok:
  assumes "\<not> isPtrTy T" and "\<not> isPtrTy T'" and "halves_of T = halves_of T'"
  shows "CreateBitOrPointerCast T v T' = Inr v"
  using assms by (simp add: CreateBitOrPointerCast_def)

lemma int_or_float_ok:
  assumes "entry_ok v VE"
  obtains T where "getOrCreateIntOrFloatTypeForReg VE = Inr ((T, v), VE)" "\<not> isPtrTy T" "halves_of T = length v"
proof -
  from assms obtain T w where "(T, w) \<in> set VE" "\<not> isPtrTy T" by (auto simp: entry_ok_def)
  then have "find (\<lambda>(T, w). \<not> isPtrTy T) VE \<noteq> None" by (auto simp: find_None_iff)
  then obtain tv where tv: "find (\<lambda>(T, w). \<not> isPtrTy T) VE = Some tv" by blast
  note found = found_ok [OF assms tv order_refl]
  from tv found(3) have "getOrCreateIntOrFloatTypeForReg VE = Inr ((fst tv, v), VE)"
    by (simp add: getOrCreateIntOrFloatTypeForReg_def)
  then show thesis using found(1,2) by (rule that)
qed

lemma pivot_ok:
  assumes "entry_ok v VE"
  obtains T where "pivot_of n VE = Inr ((T, v), VE)" "\<not> isPtrTy T" "halves_of T = length v"
proof (cases "find (\<lambda>(T, v). getPrimitiveSize T = n \<and> \<not> isPtrTy T) VE")
  case None
  from assms obtain T where "getOrCreateIntOrFloatTypeForReg VE = Inr ((T, v), VE)" "\<not> isPtrTy T"
    "halves_of T = length v" by (rule int_or_float_ok)
  with None that show thesis by (simp add: pivot_of_def)
next
  case (Some tv)
  note found = found_ok [OF assms Some order_refl]
  from Some found(3) have "pivot_of n VE = Inr ((fst tv, v), VE)" by (simp add: pivot_of_def)
  then show thesis using found(1,2) that [of "fst tv"] by simp
qed

lemma breakdown_ok:
  assumes "entry_ok v VE" and "e dvd length v"
  obtains VE' where "breakdownToVecTyFromAvailableValues VE (length v) e = Inr (v, VE')" "entry_ok v VE'"
proof -
  let ?V = "IntVec e (length v div e)"
  have V: "halves_of ?V = length v" using assms(2) by simp
  from assms(1) obtain T where T: "pivot_of (length v) VE = Inr ((T, v), VE)" "\<not> isPtrTy T" "halves_of T = length v"
    by (rule pivot_ok)
  show thesis
  proof (cases "map_of VE ?V")
    case None
    have "breakdownToVecTyFromAvailableValues VE (length v) e = Inr (v, AList.update ?V v VE)"
      using assms(2) T None V
      by (simp add: breakdownToVecTyFromAvailableValues_def Let_def getPrimitiveSize_def cast_ok dvd_eq_mod_eq_0)
    moreover from assms(1) V have "entry_ok v (AList.update ?V v VE)" by (rule entry_ok_update)
    ultimately show thesis by (rule that)
  next
    case (Some w)
    with entry_ok_map_of [OF assms(1)] have "w = v" by blast
    with Some assms that show thesis
      by (simp add: breakdownToVecTyFromAvailableValues_def Let_def dvd_eq_mod_eq_0)
  qed
qed

text \<open>A read through another type. A pointer may only be read through a type that is there.\<close>

definition viewable :: "value_map \<Rightarrow> llty \<Rightarrow> bool" where
  "viewable VE T \<longleftrightarrow> map_of VE T \<noteq> None \<or> (\<forall>T'\<in>fst ` set VE. \<not> isPtrTy T')"

lemma int_or_ptr_ok:
  assumes ok: "entry_ok v VE" and no_ptr: "\<forall>T\<in>fst ` set VE. \<not> isPtrTy T"
  obtains T VE' where "getOrCreateIntOrPtrTypeForReg VE = Inr ((T, v), VE')" "\<not> isPtrTy T" "halves_of T = length v"
    "entry_ok v VE'"
proof -
  note result = that
  have found: thesis
    if "find (\<lambda>(T, v). P T) xs = Some tv" "set xs \<subseteq> set VE"
      "getOrCreateIntOrPtrTypeForReg VE = Inr (tv, VE)" for P xs tv
  proof -
    note tv = found_ok [OF ok that(1,2)]
    from that(3) tv(3) have "getOrCreateIntOrPtrTypeForReg VE = Inr ((fst tv, v), VE)" by simp
    moreover from tv(4) no_ptr have "\<not> isPtrTy (fst tv)" by blast
    ultimately show thesis using tv(2) ok by (rule result [of "fst tv" VE])
  qed
  show thesis
  proof (cases "find (\<lambda>(T, v). isIntOrPtrTy T) VE")
    case (Some tv)
    then show thesis by (rule found) (simp_all add: getOrCreateIntOrPtrTypeForReg_def Some)
  next
    case no_int: None
    show thesis
    proof (cases "find (\<lambda>(T, v). isIntOrIntVectorTy T \<or> isPtrTy T) (rev VE)")
      case (Some tv)
      then show thesis by (rule found) (simp_all add: getOrCreateIntOrPtrTypeForReg_def Some no_int)
    next
      case None
      from ok obtain T w rest where VE: "VE = (T, w) # rest" by (cases VE) (auto simp: entry_ok_def)
      with entry_okD [OF ok, of T w] no_ptr have T: "halves_of T = length v" "w = v" "\<not> isPtrTy T" by auto
      have "length v \<noteq> 0" using ok by (simp add: entry_ok_def)
      with T have "cast_first VE = Inr ((IntTy (length v), v), AList.update (IntTy (length v)) v VE)"
        by (simp add: cast_first_def VE getIntNTy_def getPrimitiveSize_def cast_ok)
      then have "getOrCreateIntOrPtrTypeForReg VE =
          Inr ((IntTy (length v), v), AList.update (IntTy (length v)) v VE)"
        by (simp add: getOrCreateIntOrPtrTypeForReg_def None no_int)
      moreover from ok have "entry_ok v (AList.update (IntTy (length v)) v VE)" by (rule entry_ok_update) simp
      ultimately show thesis using result [of "IntTy (length v)"] by simp
    qed
  qed
qed

subsection \<open>The invariant\<close>

text \<open>
  The state of a block agrees with the contents \<open>R\<close> of the register files: every entry holds the bits of its
  range, and a range that no entry covers has its bits from the start of the block.
\<close>

definition covers :: "reg_key \<Rightarrow> reg_file \<Rightarrow> nat \<Rightarrow> bool" where
  "covers K b h = (case K of (c, o', n) \<Rightarrow> c = b \<and> o' \<le> h \<and> h < o' + n)"

definition entries_ok :: "reg_bits \<Rightarrow> reg_state \<Rightarrow> bool" where
  "entries_ok R St \<longleftrightarrow> distinct (map fst St) \<and> (\<forall>(K, VE)\<in>set St. entry_ok (bits_of R K) VE)"

definition agrees :: "reg_bits \<Rightarrow> reg_bits \<Rightarrow> reg_state \<Rightarrow> bool" where
  "agrees Incoming R St \<longleftrightarrow>
     entries_ok R St \<and> (\<forall>b h. (\<forall>K\<in>fst ` set St. \<not> covers K b h) \<longrightarrow> R b h = Incoming b h)"

lemma length_bits_of [simp]: "length (bits_of R K) = snd (snd K)"
  by (simp add: bits_of_def split: prod.splits)

lemma entries_okD: "entries_ok R St \<Longrightarrow> map_of St K = Some VE \<Longrightarrow> entry_ok (bits_of R K) VE"
  using map_of_SomeD by (fastforce simp: entries_ok_def)

lemma entries_ok_nonempty: "entries_ok R St \<Longrightarrow> (K, VE) \<in> set St \<Longrightarrow> 0 < snd (snd K)"
proof -
  assume "entries_ok R St" "(K, VE) \<in> set St"
  then have "bits_of R K \<noteq> []" by (auto simp: entries_ok_def entry_ok_def)
  then show "0 < snd (snd K)" unfolding length_greater_0_conv [symmetric] by simp
qed

lemma agrees_update:
  assumes "agrees Incoming R St" and "entry_ok (bits_of R K) VE"
  shows "agrees Incoming R (AList.update K VE St)"
  using assms set_update_subset [of K VE St] unfolding agrees_def entries_ok_def fst_set_update
  by (auto simp: distinct_update)

lemma entry_at_ok: "entries_ok R St \<Longrightarrow> entry_at St K \<noteq> [] \<Longrightarrow> entry_ok (bits_of R K) (entry_at St K)"
  by (auto simp: entry_at_def dest: entries_okD split: option.splits)

lemma entry_at_update: "entry_ok v (entry_at St K) \<or> entry_at St K = [] \<Longrightarrow> halves_of T = length v \<Longrightarrow>
    \<not> isPtrTy T \<Longrightarrow> v \<noteq> [] \<Longrightarrow> entry_ok v (AList.update T v (entry_at St K))"
  using entry_ok_update [of v "entry_at St K" T] entry_ok_single [of v T] by auto

lemma agrees_set_value:
  assumes "agrees Incoming R St" and "v = bits_of R K" and "halves_of T = snd (snd K)" "0 < snd (snd K)"
    and "\<not> isPtrTy T"
  shows "agrees Incoming R (set_value K T v St)"
  unfolding set_value_def
proof (rule agrees_update [OF assms(1)])
  have "entries_ok R St" using assms(1) by (simp add: agrees_def)
  then have "entry_ok v (entry_at St K) \<or> entry_at St K = []" unfolding assms(2) using entry_at_ok by blast
  then show "entry_ok (bits_of R K) (AList.update T v (entry_at St K))"
    unfolding assms(2) by (rule entry_at_update) (use assms in \<open>simp_all flip: length_0_conv\<close>)
qed

lemma entry_at_present: "entries_ok R St \<Longrightarrow> K \<in> fst ` set St \<Longrightarrow> entry_ok (bits_of R K) (entry_at St K)"
  by (auto simp: entry_at_def entries_ok_def dest!: map_of_is_SomeI)

lemma keys_set_value: "fst ` set (set_value K T v St) = insert K (fst ` set St)"
  by (simp add: set_value_def fst_set_update)

lemma ExtractElement_bits:
  assumes "(i + 1) * e \<le> n"
  shows "ExtractElement e i (bits_of R (b, o', n)) = bits_of R (b, o' + i * e, e)"
proof (rule nth_equalityI)
  show "length (ExtractElement e i (bits_of R (b, o', n))) = length (bits_of R (b, o' + i * e, e))"
    using assms by (simp add: ExtractElement_def)
next
  fix j assume "j < length (ExtractElement e i (bits_of R (b, o', n)))"
  then have "j < e" "i * e + j < n" using assms by (simp_all add: ExtractElement_def)
  then show "ExtractElement e i (bits_of R (b, o', n)) ! j = bits_of R (b, o' + i * e, e) ! j"
    using assms by (simp add: ExtractElement_def bits_of_def add.assoc)
qed

lemma resize_drop: "i * e + e \<le> length v \<Longrightarrow> resize e (drop (i * e) v) = ExtractElement e i v"
  by (simp add: resize_def ExtractElement_def)

lemma extractChunk_ok:
  assumes ag: "agrees Incoming R St" and K: "K \<in> fst ` set St" "K = (b, o', n)"
    and e: "0 < e" "(i + 1) * e \<le> n"
  obtains St' where "extractChunkFromSource St K e i = Inr (bits_of R (b, o' + i * e, e), St')"
    "agrees Incoming R St'" "fst ` set St' = fst ` set St"
proof -
  let ?VE = "entry_at St K" and ?v = "bits_of R K"
  have ents: "entries_ok R St" using ag by (simp add: agrees_def)
  then have ok: "entry_ok ?v ?VE" using K(1) by (rule entry_at_present)
  have len: "length ?v = n" by (simp add: K(2))
  have same: "agrees Incoming R (AList.update K VE St) \<and> fst ` set (AList.update K VE St) = fst ` set St"
    if "entry_ok ?v VE" for VE
    using agrees_update [OF ag that] K(1) by (auto simp: fst_set_update)
  have piece: "ExtractElement e i ?v = bits_of R (b, o' + i * e, e)"
    unfolding K(2) using e(2) by (rule ExtractElement_bits)
  have flat: "resize e (drop (i * e) ?v) = bits_of R (b, o' + i * e, e)"
    unfolding piece [symmetric] using e(2) len by (intro resize_drop) simp
  consider "n mod e = 0" "n = e" | "n mod e = 0" "n \<noteq> e" | "n mod e \<noteq> 0" by blast
  then show thesis
  proof cases
    case 1
    with e have "i = 0" by simp
    then have whole: "?v = bits_of R (b, o' + i * e, e)" by (simp add: K(2) 1)
    show thesis
    proof (cases "map_of ?VE (IntTy e)")
      case (Some w)
      with entry_ok_map_of [OF ok] have "w = ?v" by blast
      with Some 1 K(2) whole have "extractChunkFromSource St K e i = Inr (bits_of R (b, o' + i * e, e), St)"
        by (simp add: extractChunkFromSource_def Let_def)
      then show thesis using ag by (blast intro: that)
    next
      case None
      from ok obtain T where T: "pivot_of e ?VE = Inr ((T, ?v), ?VE)" "\<not> isPtrTy T" "halves_of T = length ?v"
        by (rule pivot_ok)
      then have "extractChunkFromSource St K e i = Inr (bits_of R (b, o' + i * e, e),
          AList.update K (AList.update (IntTy e) ?v ?VE) St)"
        using 1 K(2) None whole len by (simp add: extractChunkFromSource_def Let_def cast_ok)
      moreover have "entry_ok ?v (AList.update (IntTy e) ?v ?VE)" using ok by (rule entry_ok_update) (simp add: K(2) 1)
      ultimately show thesis using same by (blast intro: that)
    qed
  next
    case 2
    then have "e dvd length ?v" by (simp add: K(2) dvd_eq_mod_eq_0)
    with ok obtain VE' where "breakdownToVecTyFromAvailableValues ?VE (length ?v) e = Inr (?v, VE')" "entry_ok ?v VE'"
      by (rule breakdown_ok)
    with 2 K(2) piece len same [of VE'] that show thesis
      by (simp add: extractChunkFromSource_def Let_def)
  next
    case 3
    show thesis
    proof (cases "map_of ?VE (IntTy n)")
      case (Some w)
      with entry_ok_map_of [OF ok] have "w = ?v" by blast
      with Some 3 K(2) flat have "extractChunkFromSource St K e i =
          Inr (bits_of R (b, o' + i * e, e), AList.update K ?VE St)"
        by (simp add: extractChunkFromSource_def Let_def)
      with same [OF ok] show thesis by (blast intro: that)
    next
      case None
      from ok obtain T where T: "getOrCreateIntOrFloatTypeForReg ?VE = Inr ((T, ?v), ?VE)" "\<not> isPtrTy T"
        "halves_of T = length ?v" by (rule int_or_float_ok)
      then have "extractChunkFromSource St K e i = Inr (bits_of R (b, o' + i * e, e),
          AList.update K (AList.update (IntTy n) ?v ?VE) St)"
        using 3 K(2) None flat len by (simp add: extractChunkFromSource_def Let_def cast_ok)
      moreover have "entry_ok ?v (AList.update (IntTy n) ?v ?VE)" using ok by (rule entry_ok_update) (simp add: K(2))
      ultimately show thesis using same by (blast intro: that)
    qed
  qed
qed

subsection \<open>The chunks of a read\<close>

definition chunk_range :: "chunk_info \<Rightarrow> nat set" where
  "chunk_range c = {ChunkStart c..<ChunkEnd c}"

lemma run_end_run:
  "run_end C H End \<le> max H End \<and> (\<forall>h. H \<le> h \<longrightarrow> h < run_end C H End \<longrightarrow> h \<notin> C)"
proof (induction C H End rule: run_end.induct)
  case (1 C H End)
  show ?case
  proof (cases "H < End \<and> H \<notin> C")
    case True
    then have "run_end C H End = run_end C (H + 1) End" by (simp add: run_end.simps [of C H End])
    with 1 True show ?thesis by (auto simp: le_max_iff_disj) (metis Suc_leI le_neq_implies_less)
  next
    case False
    then have "run_end C H End = H" by (auto simp: run_end.simps [of C H End])
    then show ?thesis by simp
  qed
qed

lemma free_runs_in:
  "(s, e) \<in> set (free_runs C H End) \<Longrightarrow> H \<le> s \<and> s < e \<and> e \<le> End \<and> {s..<e} \<inter> C = {}"
proof (induction C H End rule: free_runs.induct)
  case (1 C H End)
  let ?e = "run_end C (H + 1) End"
  have e: "H < ?e" using run_end_ge [of "H + 1" C End] by simp
  show ?case
  proof (cases "End \<le> H \<or> H \<in> C")
    case True
    with 1 show ?thesis by (cases "End \<le> H") (force simp: free_runs.simps [of C H End])+
  next
    case False
    with 1 consider "s = H" "e = ?e" | "(s, e) \<in> set (free_runs C ?e End)"
      by (auto simp: free_runs.simps [of C H End])
    then show ?thesis
    proof cases
      case 1
      with e False run_end_run [of C "H + 1" End] show ?thesis
        by (auto simp: le_max_iff_disj) (metis Suc_leI le_neq_implies_less)
    next
      case 2
      with "1.IH"(2) False e show ?thesis by force
    qed
  qed
qed

lemma free_runs_cover:
  "H \<le> h \<Longrightarrow> h < End \<Longrightarrow> h \<notin> C \<Longrightarrow> \<exists>(s, e)\<in>set (free_runs C H End). s \<le> h \<and> h < e"
proof (induction C H End rule: free_runs.induct)
  case (1 C H End)
  let ?e = "run_end C (H + 1) End"
  show ?case
  proof (cases "H \<in> C")
    case True
    with 1 have "H + 1 \<le> h" by (metis Suc_eq_plus1 Suc_leI le_neq_implies_less)
    with 1 True show ?thesis by (auto simp: free_runs.simps [of C H End])
  next
    case False
    show ?thesis
    proof (cases "h < ?e")
      case True
      with 1 False show ?thesis by (auto simp: free_runs.simps [of C H End])
    next
      case False
      with 1 \<open>H \<notin> C\<close> show ?thesis by (auto simp: free_runs.simps [of C H End])
    qed
  qed
qed

lemma free_runs_disjoint:
  "(s, e) \<in> set (free_runs C H End) \<Longrightarrow> (s', e') \<in> set (free_runs C H End) \<Longrightarrow>
    h \<in> {s..<e} \<Longrightarrow> h \<in> {s'..<e'} \<Longrightarrow> {s..<e} = {s'..<e'}"
proof (induction C H End rule: free_runs.induct)
  case (1 C H End)
  let ?e = "run_end C (H + 1) End"
  show ?case
  proof (cases "End \<le> H \<or> H \<in> C")
    case True
    with 1 show ?thesis by (cases "End \<le> H") (force simp: free_runs.simps [of C H End])+
  next
    case False
    then have runs: "free_runs C H End = (H, ?e) # free_runs C ?e End" by (simp add: free_runs.simps [of C H End])
    have later: "?e \<le> t" if "(t, u) \<in> set (free_runs C ?e End)" for t u using free_runs_in [OF that] by simp
    consider "(s, e) = (H, ?e)" "(s', e') = (H, ?e)"
      | "(s, e) = (H, ?e)" "?e \<le> s'" | "?e \<le> s" "(s', e') = (H, ?e)"
      | "(s, e) \<in> set (free_runs C ?e End)" "(s', e') \<in> set (free_runs C ?e End)"
      using "1.prems"(1,2) later unfolding runs by auto
    then show ?thesis
    proof cases
      case 4
      from False have "\<not> End \<le> H" "H \<notin> C" by simp_all
      from "1.IH"(2) [OF this 4 "1.prems"(3,4)] show ?thesis .
    qed (use "1.prems"(3,4) in simp_all)
  qed
qed

definition chunk_of :: "overlap_info list \<Rightarrow> chunk_info \<Rightarrow> bool" where
  "chunk_of ovs c \<longleftrightarrow>
     (\<exists>ov\<in>set ovs. ck_key c = ov_key ov \<and> SrcChunkStart c = ChunkStart c - SrcOffset ov \<and>
        OverlapStart ov \<le> ChunkStart c \<and> ChunkEnd c \<le> OverlapEnd ov)"

definition disjoint_chunks :: "chunk_info list \<Rightarrow> bool" where
  "disjoint_chunks cs \<longleftrightarrow>
     (\<forall>c\<in>set cs. ChunkStart c < ChunkEnd c) \<and>
     (\<forall>c\<in>set cs. \<forall>c'\<in>set cs. chunk_range c \<inter> chunk_range c' \<noteq> {} \<longrightarrow> chunk_range c = chunk_range c')"

lemma overlap_chunks_props:
  assumes "c \<in> set (overlap_chunks ov C)"
  shows "ck_key c = ov_key ov" "SrcChunkStart c = ChunkStart c - SrcOffset ov" "OverlapStart ov \<le> ChunkStart c"
    "ChunkEnd c \<le> OverlapEnd ov" "ChunkStart c < ChunkEnd c" "chunk_range c \<inter> C = {}"
    "(ChunkStart c, ChunkEnd c) \<in> set (free_runs C (OverlapStart ov) (OverlapEnd ov))"
proof -
  from assms obtain s e where r: "(s, e) \<in> set (free_runs C (OverlapStart ov) (OverlapEnd ov))"
    and c: "c = \<lparr>ck_key = ov_key ov, SrcChunkStart = s - SrcOffset ov, ChunkStart = s, ChunkEnd = e\<rparr>"
    by (auto simp: overlap_chunks_def)
  from free_runs_in [OF r] r c
  show "ck_key c = ov_key ov" "SrcChunkStart c = ChunkStart c - SrcOffset ov" "OverlapStart ov \<le> ChunkStart c"
    "ChunkEnd c \<le> OverlapEnd ov" "ChunkStart c < ChunkEnd c" "chunk_range c \<inter> C = {}"
    "(ChunkStart c, ChunkEnd c) \<in> set (free_runs C (OverlapStart ov) (OverlapEnd ov))"
    by (simp_all add: chunk_range_def)
qed

lemma overlap_chunks_cover:
  assumes "h \<in> {OverlapStart ov..<OverlapEnd ov}" and "h \<notin> C"
  shows "\<exists>c\<in>set (overlap_chunks ov C). h \<in> chunk_range c"
  using free_runs_cover [of "OverlapStart ov" h "OverlapEnd ov" C] assms
  by (force simp: overlap_chunks_def chunk_range_def)

lemma cover_overlaps_props:
  assumes "cover_overlaps ovs C = (cs, C')"
  shows "(\<forall>c\<in>set cs. chunk_of ovs c \<and> chunk_range c \<inter> C = {}) \<and> disjoint_chunks cs \<and>
    C' = C \<union> (\<Union>c\<in>set cs. chunk_range c) \<and> (\<forall>ov\<in>set ovs. {OverlapStart ov..<OverlapEnd ov} \<subseteq> C')"
  using assms
proof (induction ovs arbitrary: C cs C')
  case Nil
  then show ?case by (simp add: disjoint_chunks_def)
next
  case (Cons ov ovs)
  let ?cs = "overlap_chunks ov C"
  let ?C = "C \<union> (\<Union>c\<in>set ?cs. chunk_range c)"
  obtain cs1 C1 where rest: "cover_overlaps ovs ?C = (cs1, C1)" by force
  with Cons.prems have cs: "cs = ?cs @ cs1" "C' = C1" by (simp_all add: Let_def chunk_range_def)
  note IH = Cons.IH [OF rest]
  have first: "chunk_of (ov # ovs) c" "chunk_range c \<inter> C = {}" if "c \<in> set ?cs" for c
    using overlap_chunks_props [OF that] by (auto simp: chunk_of_def)
  have "chunk_range c = chunk_range c'" if "c \<in> set ?cs" "c' \<in> set ?cs" "chunk_range c \<inter> chunk_range c' \<noteq> {}" for c c'
    using overlap_chunks_props(7) [OF that(1)] overlap_chunks_props(7) [OF that(2)] that(3) free_runs_disjoint
    unfolding chunk_range_def by blast
  then have same: "\<forall>c\<in>set ?cs. \<forall>c'\<in>set ?cs. chunk_range c \<inter> chunk_range c' \<noteq> {} \<longrightarrow> chunk_range c = chunk_range c'"
    by blast
  have apart: "chunk_range c \<inter> chunk_range c' = {}" if "c \<in> set ?cs" "c' \<in> set cs1" for c c'
    using IH that by blast
  from IH have disj1: "disjoint_chunks cs1" by blast
  have disj: "disjoint_chunks (?cs @ cs1)"
    unfolding disjoint_chunks_def
  proof (intro conjI ballI impI)
    fix c assume "c \<in> set (?cs @ cs1)"
    then show "ChunkStart c < ChunkEnd c" using overlap_chunks_props(5) disj1 by (auto simp: disjoint_chunks_def)
    fix c' assume "c' \<in> set (?cs @ cs1)" "chunk_range c \<inter> chunk_range c' \<noteq> {}"
    with \<open>c \<in> set (?cs @ cs1)\<close> consider "c \<in> set ?cs" "c' \<in> set ?cs" | "c \<in> set cs1" "c' \<in> set cs1"
      using apart by (auto simp: Int_commute)
    then show "chunk_range c = chunk_range c'"
      using same disj1 \<open>chunk_range c \<inter> chunk_range c' \<noteq> {}\<close> unfolding disjoint_chunks_def by cases blast+
  qed
  have "{OverlapStart ov..<OverlapEnd ov} \<subseteq> ?C"
    using overlap_chunks_cover [of _ ov C] by blast
  moreover from IH have C1: "C1 = ?C \<union> (\<Union>c\<in>set cs1. chunk_range c)" by blast
  ultimately have cover: "\<forall>o'\<in>set (ov # ovs). {OverlapStart o'..<OverlapEnd o'} \<subseteq> C1" using IH by auto
  have later: "chunk_of (ov # ovs) c" "chunk_range c \<inter> C = {}" if "c \<in> set cs1" for c
    using IH that by (auto simp: chunk_of_def)
  have "\<forall>c\<in>set (?cs @ cs1). chunk_of (ov # ovs) c \<and> chunk_range c \<inter> C = {}"
    unfolding set_append ball_Un using first later by blast
  moreover have "C1 = C \<union> (\<Union>c\<in>set (?cs @ cs1). chunk_range c)" unfolding C1 by auto
  ultimately show ?case unfolding cs using disj cover by blast
qed

lemma set_map_filter: "set (List.map_filter f xs) = {y. \<exists>x\<in>set xs. f x = Some y}"
  by (induction xs) (auto simp: List.map_filter_def)

lemma in_overlaps_of:
  "ov \<in> set (overlaps_of St (b, rs, rn)) \<longleftrightarrow>
     (\<exists>o' n VE. ((b, o', n), VE) \<in> set St \<and> max o' rs < min (o' + n) (rs + rn) \<and>
        ov = \<lparr>ov_key = (b, o', n), OverlapStart = max o' rs, OverlapEnd = min (o' + n) (rs + rn)\<rparr>)"
proof -
  let ?ov = "\<lambda>o' n. \<lparr>ov_key = (b, o', n), OverlapStart = max o' rs, OverlapEnd = min (o' + n) (rs + rn)\<rparr>"
  have one: "overlap_with (b, rs, rn) ((c, o', n), VE) = Some ov \<longleftrightarrow>
      c = b \<and> max o' rs < min (o' + n) (rs + rn) \<and> ov = ?ov o' n" for c o' n VE
    unfolding overlap_with_def by (simp add: Let_def) blast
  have "ov \<in> set (overlaps_of St (b, rs, rn)) \<longleftrightarrow> (\<exists>x\<in>set St. overlap_with (b, rs, rn) x = Some ov)"
    unfolding overlaps_of_def set_sort set_map_filter by simp
  also have "\<dots> \<longleftrightarrow> (\<exists>c o' n VE. ((c, o', n), VE) \<in> set St \<and> overlap_with (b, rs, rn) ((c, o', n), VE) = Some ov)"
    by (simp only: Bex_def split_paired_Ex)
  finally show ?thesis unfolding one by blast
qed

definition source_ok :: "reg_key \<Rightarrow> chunk_info \<Rightarrow> bool" where
  "source_ok K c \<longleftrightarrow>
     (\<exists>o' n. ck_key c = (fst K, o', n) \<and> ChunkStart c = o' + SrcChunkStart c \<and> ChunkEnd c \<le> o' + n \<and>
        chunk_range c \<subseteq> {fst (snd K)..<fst (snd K) + snd (snd K)})"

lemma add_missing_ok:
  assumes "agrees Incoming R St" and "\<And>c. c \<in> set cs \<Longrightarrow> ChunkStart c < ChunkEnd c \<and>
      (\<exists>b. ck_key c = (b, ChunkStart c, ChunkEnd c - ChunkStart c)) \<and> bits_of Incoming (ck_key c) = bits_of R (ck_key c)"
  shows "agrees Incoming R (fold (add_missing Incoming) cs St) \<and>
    fst ` set (fold (add_missing Incoming) cs St) = fst ` set St \<union> ck_key ` set cs"
  using assms
proof (induction cs arbitrary: St)
  case (Cons c cs)
  from Cons.prems(2) [of c] obtain b where c: "ChunkStart c < ChunkEnd c"
    "ck_key c = (b, ChunkStart c, ChunkEnd c - ChunkStart c)" "bits_of Incoming (ck_key c) = bits_of R (ck_key c)" by auto
  have "agrees Incoming R (add_missing Incoming c St)"
    unfolding add_missing_def using Cons.prems(1) c(3) by (rule agrees_set_value) (use c in simp_all)
  with Cons.IH [of "add_missing Incoming c St"] Cons.prems(2)
  show ?case by (auto simp: add_missing_def keys_set_value)
qed simp

lemma uncovered_incoming:
  assumes "agrees Incoming R St" and "h \<in> {rs..<rs + rn}"
    and "\<forall>ov\<in>set (overlaps_of St (b, rs, rn)). h \<notin> {OverlapStart ov..<OverlapEnd ov}"
  shows "R b h = Incoming b h"
proof -
  have "\<not> covers K b h" if "K \<in> fst ` set St" for K
  proof
    assume "covers K b h"
    with that obtain o' n VE where *: "((b, o', n), VE) \<in> set St" "o' \<le> h" "h < o' + n"
      by (auto simp: covers_def)
    then have "\<lparr>ov_key = (b, o', n), OverlapStart = max o' rs, OverlapEnd = min (o' + n) (rs + rn)\<rparr>
        \<in> set (overlaps_of St (b, rs, rn))"
      unfolding in_overlaps_of using assms(2) by fastforce
    with assms(3) * assms(2) show False by fastforce
  qed
  with assms(1) show ?thesis by (simp add: agrees_def)
qed

lemma read_plan_props:
  assumes ag: "agrees Incoming R St" and plan: "read_plan Incoming St (b, rs, rn) = (cs, St')"
    and rn: "0 < rn"
  shows "agrees Incoming R St'" and "ck_key ` set cs \<subseteq> fst ` set St'" and "fst ` set St \<subseteq> fst ` set St'"
    and "\<forall>c\<in>set cs. source_ok (b, rs, rn) c"
    and "disjoint_chunks cs" and "(\<Union>c\<in>set cs. chunk_range c) = {rs..<rs + rn}"
proof -
  let ?ovs = "overlaps_of St (b, rs, rn)"
  obtain cov C where cov: "cover_overlaps ?ovs {} = (cov, C)" by force
  let ?mis = "map (missing_chunk b) (free_runs C rs (rs + rn))"
  from plan cov have cs: "cs = ?mis @ cov" and St': "St' = fold (add_missing Incoming) ?mis St"
    by (simp_all add: read_plan_def Let_def)
  note props = cover_overlaps_props [OF cov, simplified]
  have mis: "\<exists>s e. c = missing_chunk b (s, e) \<and> rs \<le> s \<and> s < e \<and> e \<le> rs + rn \<and> {s..<e} \<inter> C = {} \<and>
      (s, e) \<in> set (free_runs C rs (rs + rn))"
    if "c \<in> set ?mis" for c
    using that free_runs_in by fastforce
  have mis_fields: "ck_key (missing_chunk b (s, e)) = (b, s, e - s)" "SrcChunkStart (missing_chunk b (s, e)) = 0"
    "ChunkStart (missing_chunk b (s, e)) = s" "ChunkEnd (missing_chunk b (s, e)) = e"
    "chunk_range (missing_chunk b (s, e)) = {s..<e}" for s e
    by (simp_all add: missing_chunk_def chunk_range_def)
  have inc: "bits_of Incoming (b, s, e - s) = bits_of R (b, s, e - s)"
    if "rs \<le> s" "e \<le> rs + rn" "{s..<e} \<inter> C = {}" for s e
  proof -
    have "R b h = Incoming b h" if h: "h \<in> {s..<e}" for h
    proof (rule uncovered_incoming [OF ag])
      show "h \<in> {rs..<rs + rn}" using h \<open>rs \<le> s\<close> \<open>e \<le> rs + rn\<close> by simp
      show "\<forall>ov\<in>set ?ovs. h \<notin> {OverlapStart ov..<OverlapEnd ov}" using props h \<open>{s..<e} \<inter> C = {}\<close> by blast
    qed
    then have "map (Incoming b) [s..<s + (e - s)] = map (R b) [s..<s + (e - s)]" by (intro map_cong) auto
    then show ?thesis by (simp add: bits_of_def)
  qed
  have "ChunkStart c < ChunkEnd c \<and> (\<exists>b. ck_key c = (b, ChunkStart c, ChunkEnd c - ChunkStart c)) \<and>
      bits_of Incoming (ck_key c) = bits_of R (ck_key c)" if "c \<in> set ?mis" for c
    using mis [OF that] inc by (auto simp: mis_fields)
  from add_missing_ok [OF ag this] have ag': "agrees Incoming R St'"
    and keys: "fst ` set St' = fst ` set St \<union> ck_key ` set ?mis" unfolding St' by blast+
  show "agrees Incoming R St'" by (rule ag')
  show "fst ` set St \<subseteq> fst ` set St'" using keys by blast
  have chunk: "\<exists>o' n. ck_key c = (b, o', n) \<and> (b, o', n) \<in> fst ` set St \<and> ChunkStart c = o' + SrcChunkStart c \<and>
      ChunkEnd c \<le> o' + n \<and> rs \<le> ChunkStart c \<and> ChunkEnd c \<le> rs + rn" if "c \<in> set cov" for c
  proof -
    from props that obtain ov where ov: "ov \<in> set ?ovs" "ck_key c = ov_key ov"
      "SrcChunkStart c = ChunkStart c - SrcOffset ov" "OverlapStart ov \<le> ChunkStart c" "ChunkEnd c \<le> OverlapEnd ov"
      by (auto simp: chunk_of_def)
    from ov(1) obtain o' n VE where "((b, o', n), VE) \<in> set St"
      "ov = \<lparr>ov_key = (b, o', n), OverlapStart = max o' rs, OverlapEnd = min (o' + n) (rs + rn)\<rparr>"
      unfolding in_overlaps_of by blast
    with ov(2-) show ?thesis by (force simp: SrcOffset_def)
  qed
  show "ck_key ` set cs \<subseteq> fst ` set St'" 
  proof
    fix k assume "k \<in> ck_key ` set cs"
    then obtain c where c: "c \<in> set cs" "k = ck_key c" by blast
    then consider "c \<in> set ?mis" | "c \<in> set cov" unfolding cs by auto
    then show "k \<in> fst ` set St'"
    proof cases
      case 2
      from chunk [OF this] have "ck_key c \<in> fst ` set St" by (elim exE conjE) simp
      with c(2) keys show ?thesis by blast
    qed (use keys c(2) in blast)
  qed
  show sources: "\<forall>c\<in>set cs. source_ok (b, rs, rn) c"
  proof
    fix c assume "c \<in> set cs"
    then consider "c \<in> set ?mis" | "c \<in> set cov" unfolding cs by auto
    then show "source_ok (b, rs, rn) c"
    proof cases
      case 1
      from mis [OF this] obtain s e where "c = missing_chunk b (s, e)" "rs \<le> s" "s < e" "e \<le> rs + rn" by blast
      then show ?thesis by (simp add: source_ok_def mis_fields)
    next
      case 2
      from chunk [OF this] obtain o' n where "ck_key c = (b, o', n)" "ChunkStart c = o' + SrcChunkStart c"
        "ChunkEnd c \<le> o' + n" "rs \<le> ChunkStart c" "ChunkEnd c \<le> rs + rn" by blast
      then show ?thesis by (auto simp: source_ok_def chunk_range_def)
    qed
  qed
  have apart: "chunk_range c \<inter> chunk_range c' = {}" if "c \<in> set ?mis" "c' \<in> set cov" for c c'
    using mis [OF that(1)] props that(2) by (auto simp: mis_fields)
  have same: "chunk_range c = chunk_range c'" if c: "c \<in> set ?mis" "c' \<in> set ?mis" "chunk_range c \<inter> chunk_range c' \<noteq> {}" for c c'
  proof -
    from mis [OF c(1)] obtain s e where 1: "c = missing_chunk b (s, e)" "(s, e) \<in> set (free_runs C rs (rs + rn))" by blast
    from mis [OF c(2)] obtain s' e' where 2: "c' = missing_chunk b (s', e')" "(s', e') \<in> set (free_runs C rs (rs + rn))" by blast
    from c(3) obtain h where "h \<in> {s..<e}" "h \<in> {s'..<e'}" unfolding 1(1) 2(1) mis_fields by blast
    from free_runs_disjoint [OF 1(2) 2(2) this] show ?thesis unfolding 1(1) 2(1) mis_fields .
  qed
  have pos: "ChunkStart c < ChunkEnd c" if c: "c \<in> set cs" for c
  proof (cases "c \<in> set ?mis")
    case True
    from mis [OF True] obtain s e where "c = missing_chunk b (s, e)" "s < e" by blast
    then show ?thesis by (simp add: mis_fields)
  next
    case False
    then have "c \<in> set cov" using c unfolding cs by simp
    with props show ?thesis by (simp add: disjoint_chunks_def)
  qed
  show "disjoint_chunks cs"
    unfolding disjoint_chunks_def
  proof (intro conjI ballI impI)
    fix c c' assume c: "c \<in> set cs" "c' \<in> set cs" and meet: "chunk_range c \<inter> chunk_range c' \<noteq> {}"
    then consider "c \<in> set ?mis" "c' \<in> set ?mis" | "c \<in> set cov" "c' \<in> set cov"
      using apart unfolding cs set_append by blast
    then show "chunk_range c = chunk_range c'"
    proof cases
      case 1
      then show ?thesis using meet by (rule same)
    next
      case 2
      then show ?thesis using props meet by (auto simp: disjoint_chunks_def)
    qed
  qed (rule pos)
  show "(\<Union>c\<in>set cs. chunk_range c) = {rs..<rs + rn}"
  proof (rule equalityI)
    show "(\<Union>c\<in>set cs. chunk_range c) \<subseteq> {rs..<rs + rn}"
    proof (rule UN_least)
      fix c assume "c \<in> set cs"
      with sources have "source_ok (b, rs, rn) c" by blast
      then show "chunk_range c \<subseteq> {rs..<rs + rn}" by (auto simp: source_ok_def)
    qed
    show "{rs..<rs + rn} \<subseteq> (\<Union>c\<in>set cs. chunk_range c)"
    proof
      fix h assume h: "h \<in> {rs..<rs + rn}"
      show "h \<in> (\<Union>c\<in>set cs. chunk_range c)"
      proof (cases "h \<in> C")
        case True
        with props show ?thesis unfolding cs by auto
      next
        case False
        with h free_runs_cover [of rs h "rs + rn" C] obtain s e where "(s, e) \<in> set (free_runs C rs (rs + rn))"
          "s \<le> h" "h < e" by auto
        then have "missing_chunk b (s, e) \<in> set ?mis" "h \<in> chunk_range (missing_chunk b (s, e))"
          by (auto simp: mis_fields)
        then show ?thesis unfolding cs by fastforce
      qed
    qed
  qed
qed

subsection \<open>A read returns the contents of the register\<close>

text \<open>
  The index of a chunk in its source is the quotient of its start by the chunk size; it is the right one
  only when the size divides the start.
\<close>

definition plan_aligned :: "chunk_info list \<Rightarrow> bool" where
  "plan_aligned cs = list_all (\<lambda>c. optimal_halves cs dvd SrcChunkStart c) cs"

lemma fold_gcd_dvd:
  "fold (\<lambda>c a. gcd a (f c)) cs (a :: nat) dvd a \<and> (\<forall>c\<in>set cs. fold (\<lambda>c a. gcd a (f c)) cs a dvd f c)"
proof (induction cs arbitrary: a)
  case (Cons c cs)
  let ?g = "fold (\<lambda>c a. gcd a (f c)) cs (gcd a (f c))"
  from Cons [of "gcd a (f c)"] have "?g dvd gcd a (f c)" "\<forall>c\<in>set cs. ?g dvd f c" by blast+
  moreover from this(1) have "?g dvd a" "?g dvd f c" by simp_all
  ultimately show ?case by simp
qed simp

lemma optimal_halves_dvd: "c \<in> set cs \<Longrightarrow> optimal_halves cs dvd ChunkEnd c - ChunkStart c"
  using fold_gcd_dvd [of "\<lambda>c. ChunkEnd c - ChunkStart c" cs 0] by (simp add: optimal_halves_def)

lemma optimal_halves_pos: "disjoint_chunks cs \<Longrightarrow> cs \<noteq> [] \<Longrightarrow> 0 < optimal_halves cs"
proof -
  assume "disjoint_chunks cs" "cs \<noteq> []"
  then have "0 < ChunkEnd (hd cs) - ChunkStart (hd cs)" by (simp add: disjoint_chunks_def)
  moreover have "optimal_halves cs dvd ChunkEnd (hd cs) - ChunkStart (hd cs)"
    using \<open>cs \<noteq> []\<close> by (simp add: optimal_halves_dvd)
  ultimately show "0 < optimal_halves cs" by (rule dvd_pos_nat)
qed

text \<open>The chunks lie side by side from the start of the read: each starts at a multiple of the chunk size.\<close>

lemma chunk_start_dvd:
  assumes "disjoint_chunks cs" and "(\<Union>c\<in>set cs. chunk_range c) = {rs..<rs + rn}" and "c \<in> set cs"
    and "\<And>c. c \<in> set cs \<Longrightarrow> d dvd ChunkEnd c - ChunkStart c"
  shows "d dvd ChunkStart c - rs"
  using assms(3)
proof (induction "ChunkStart c" arbitrary: c rule: less_induct)
  case less
  have pos: "ChunkStart c < ChunkEnd c" if "c \<in> set cs" for c using assms(1) that by (simp add: disjoint_chunks_def)
  have start: "ChunkStart c \<in> chunk_range c" if "c \<in> set cs" for c using pos [OF that] by (simp add: chunk_range_def)
  have inside: "rs \<le> ChunkStart c \<and> ChunkStart c < rs + rn" if "c \<in> set cs" for c
    using start [OF that] assms(2) that by fastforce
  show ?case
  proof (cases "ChunkStart c = rs")
    case False
    with inside [OF less.prems] have "ChunkStart c - 1 \<in> {rs..<rs + rn}" "rs < ChunkStart c" by auto
    with assms(2) obtain c' where c': "c' \<in> set cs" "ChunkStart c - 1 \<in> chunk_range c'" by blast
    have "ChunkStart c \<notin> chunk_range c'"
    proof
      assume "ChunkStart c \<in> chunk_range c'"
      with start [OF less.prems] have "chunk_range c \<inter> chunk_range c' \<noteq> {}" by blast
      with assms(1) less.prems c'(1) have "chunk_range c = chunk_range c'" unfolding disjoint_chunks_def by blast
      with c'(2) have "ChunkStart c - 1 \<in> chunk_range c" by simp
      then show False using \<open>rs < ChunkStart c\<close> by (auto simp: chunk_range_def)
    qed
    with c'(2) have e: "ChunkEnd c' = ChunkStart c" "ChunkStart c' < ChunkStart c"
      using \<open>rs < ChunkStart c\<close> by (auto simp: chunk_range_def)
    have "d dvd ChunkStart c' - rs" using less.hyps [OF e(2) c'(1)] .
    moreover have "d dvd ChunkEnd c' - ChunkStart c'" using assms(4) [OF c'(1)] .
    ultimately have "d dvd (ChunkStart c' - rs) + (ChunkEnd c' - ChunkStart c')" by simp
    moreover have "(ChunkStart c' - rs) + (ChunkEnd c' - ChunkStart c') = ChunkStart c - rs"
      using inside [OF c'(1)] e by simp
    ultimately show ?thesis by simp
  qed simp
qed

lemma InsertElement_nth:
  assumes "i * e + e \<le> length v" and "length x = e"
  shows "length (InsertElement e i x v) = length v"
    and "j < length v \<Longrightarrow> InsertElement e i x v ! j = (if i * e \<le> j \<and> j < i * e + e then x ! (j - i * e) else v ! j)"
  using assms by (auto simp: InsertElement_def nth_append)

lemma ExtractOneChunk_ok:
  assumes ag: "agrees Incoming R St" and K: "(b, o', n) \<in> fst ` set St"
    and e: "0 < e" "e dvd s" "s + e \<le> n"
  obtains St' where "ExtractOneChunk e s (o' + s) (b, o', n) St = Inr (bits_of R (b, o' + s, e), St')"
    "agrees Incoming R St'" "fst ` set St \<subseteq> fst ` set St'"
proof -
  have s: "s div e * e = s" using e(2) by simp
  have le: "(s div e + 1) * e \<le> n" using e(3) s by (simp add: algebra_simps)
  from ag K refl e(1) le obtain St1 where
    St1: "extractChunkFromSource St (b, o', n) e (s div e) = Inr (bits_of R (b, o' + s div e * e, e), St1)"
    "agrees Incoming R St1" "fst ` set St1 = fst ` set St" by (rule extractChunk_ok)
  let ?St = "set_value (b, o' + s, e) (IntTy e) (bits_of R (b, o' + s, e)) St1"
  have "ExtractOneChunk e s (o' + s) (b, o', n) St = Inr (bits_of R (b, o' + s, e), ?St)"
    using St1(1) by (simp add: ExtractOneChunk_def s)
  moreover have "agrees Incoming R ?St" using St1(2) refl by (rule agrees_set_value) (use e(1) in simp_all)
  moreover have "fst ` set St \<subseteq> fst ` set ?St" using St1(3) by (auto simp: keys_set_value)
  ultimately show thesis by (rule that)
qed

definition filled :: "reg_bits \<Rightarrow> reg_key \<Rightarrow> nat set \<Rightarrow> half list \<Rightarrow> bool" where
  "filled R K D v \<longleftrightarrow> length v = snd (snd K) \<and> (\<forall>h\<in>D. v ! (h - fst (snd K)) = R (fst K) h)"

lemma filled_insert:
  assumes "filled R (b, rs, rn) D v" and "D \<subseteq> {rs..<rs + rn}" and "rs \<le> p" "p + e \<le> rs + rn"
    and "e dvd p - rs" and "0 < e"
  shows "filled R (b, rs, rn) (D \<union> {p..<p + e}) (InsertElement e ((p - rs) div e) (bits_of R (b, p, e)) v)"
proof -
  have p: "(p - rs) div e * e = p - rs" using assms(5) by simp
  have len: "(p - rs) div e * e + e \<le> length v" using assms(1,3,4) by (simp add: p filled_def)
  note ins = InsertElement_nth [OF len, of "bits_of R (b, p, e)", simplified p]
  have "InsertElement e ((p - rs) div e) (bits_of R (b, p, e)) v ! (h - rs) = R b h"
    if h: "h \<in> D \<union> {p..<p + e}" for h
  proof -
    have h': "rs \<le> h" "h < rs + rn" using h assms(2-4) by auto
    then have j: "h - rs < length v" using assms(1) by (simp add: filled_def)
    show ?thesis
    proof (cases "h \<in> {p..<p + e}")
      case True
      then have "p - rs \<le> h - rs" "h - rs < p - rs + e" "h - rs - (p - rs) = h - p" using assms(3) by auto
      with ins(2) [OF _ j] True show ?thesis by (simp add: bits_of_def)
    next
      case False
      then have "\<not> (p - rs \<le> h - rs \<and> h - rs < p - rs + e)" using assms(3) h' by auto
      with ins(2) [OF _ j] False h assms(1) show ?thesis by (auto simp: filled_def)
    qed
  qed
  with ins(1) assms(1) show ?thesis by (simp add: filled_def)
qed

lemma filled_all: "filled R K {fst (snd K)..<fst (snd K) + snd (snd K)} v \<Longrightarrow> v = bits_of R K"
proof -
  assume v: "filled R K {fst (snd K)..<fst (snd K) + snd (snd K)} v"
  have "v ! i = R (fst K) (fst (snd K) + i)" if "i < snd (snd K)" for i
  proof -
    have "fst (snd K) + i \<in> {fst (snd K)..<fst (snd K) + snd (snd K)}" using that by simp
    with v have "v ! (fst (snd K) + i - fst (snd K)) = R (fst K) (fst (snd K) + i)" unfolding filled_def by blast
    then show ?thesis by simp
  qed
  with v show ?thesis by (cases K) (simp add: filled_def bits_of_def list_eq_iff_nth_eq)
qed

lemma insert_piece_ok:
  assumes ag: "agrees Incoming R St" and v: "filled R (b, rs, rn) D v" "D \<subseteq> {rs..<rs + rn}"
    and c: "source_ok (b, rs, rn) c" "ck_key c \<in> fst ` set St"
    and e: "0 < e" "e dvd SrcChunkStart c" "e dvd ChunkStart c - rs" and i: "ChunkStart c + i * e + e \<le> ChunkEnd c"
  obtains v' St' where "insert_piece rs e c i (v, St) = Inr (v', St')" "agrees Incoming R St'"
    "filled R (b, rs, rn) (D \<union> {ChunkStart c + i * e..<ChunkStart c + i * e + e}) v'" "fst ` set St \<subseteq> fst ` set St'"
proof -
  from c(1) obtain o' n where k: "ck_key c = (b, o', n)" "ChunkStart c = o' + SrcChunkStart c" "ChunkEnd c \<le> o' + n"
    "chunk_range c \<subseteq> {rs..<rs + rn}" by (auto simp: source_ok_def)
  have ne: "ChunkStart c < ChunkEnd c" using i e(1) by linarith
  then have rg: "rs \<le> ChunkStart c" "ChunkEnd c \<le> rs + rn" using k(4) by (auto simp: chunk_range_def)
  let ?p = "ChunkStart c + i * e"
  have p: "rs \<le> ?p" "?p + e \<le> rs + rn" using rg i by simp_all
  have pd: "?p - rs = ChunkStart c - rs + i * e" using rg by simp
  have sd: "e dvd SrcChunkStart c + i * e" using e(2) by simp
  have sle: "SrcChunkStart c + i * e + e \<le> n" using i k(2,3) by simp
  from c(2) k(1) have key: "(b, o', n) \<in> fst ` set St" by simp
  from ag key e(1) sd sle obtain St' where
    St': "ExtractOneChunk e (SrcChunkStart c + i * e) (o' + (SrcChunkStart c + i * e)) (b, o', n) St =
        Inr (bits_of R (b, o' + (SrcChunkStart c + i * e), e), St')"
    "agrees Incoming R St'" "fst ` set St \<subseteq> fst ` set St'" by (rule ExtractOneChunk_ok)
  have addr: "o' + (SrcChunkStart c + i * e) = ?p" by (simp add: k(2))
  let ?v = "InsertElement e ((?p - rs) div e) (bits_of R (b, ?p, e)) v"
  have "insert_piece rs e c i (v, St) = Inr (?v, St')"
    using St'(1) unfolding addr by (simp add: insert_piece_def Let_def k(1) pd)
  moreover have "e dvd ?p - rs" unfolding pd using e(3) by simp
  then have "filled R (b, rs, rn) (D \<union> {?p..<?p + e}) ?v" by (rule filled_insert [OF v p _ e(1)])
  ultimately show thesis using St'(2,3) by (blast intro: that)
qed

lemma insert_pieces_ok:
  assumes ag: "agrees Incoming R St" and v: "filled R (b, rs, rn) D v" "D \<subseteq> {rs..<rs + rn}"
    and c: "source_ok (b, rs, rn) c" "ck_key c \<in> fst ` set St"
    and e: "0 < e" "e dvd SrcChunkStart c" "e dvd ChunkStart c - rs" and m: "ChunkStart c + m * e \<le> ChunkEnd c"
  shows "\<exists>v' St'. err_fold (insert_piece rs e c) [0..<m] (v, St) = Inr (v', St') \<and> agrees Incoming R St' \<and>
    filled R (b, rs, rn) (D \<union> {ChunkStart c..<ChunkStart c + m * e}) v' \<and> fst ` set St \<subseteq> fst ` set St'"
  using m
proof (induction m)
  case 0
  then show ?case using ag v by simp
next
  case (Suc m)
  have le: "ChunkStart c + m * e + e \<le> ChunkEnd c" using Suc.prems by simp
  with Suc.IH obtain v1 St1 where 1: "err_fold (insert_piece rs e c) [0..<m] (v, St) = Inr (v1, St1)"
    "agrees Incoming R St1" "filled R (b, rs, rn) (D \<union> {ChunkStart c..<ChunkStart c + m * e}) v1"
    "fst ` set St \<subseteq> fst ` set St1" by auto
  have key: "ck_key c \<in> fst ` set St1" using c(2) 1(4) by blast
  have "{ChunkStart c..<ChunkStart c + m * e} \<subseteq> {rs..<rs + rn}"
    using c(1) le by (auto simp: source_ok_def chunk_range_def)
  with v(2) have D: "D \<union> {ChunkStart c..<ChunkStart c + m * e} \<subseteq> {rs..<rs + rn}" by blast
  obtain v2 St2 where 2: "insert_piece rs e c m (v1, St1) = Inr (v2, St2)" "agrees Incoming R St2"
    "filled R (b, rs, rn)
       (D \<union> {ChunkStart c..<ChunkStart c + m * e} \<union> {ChunkStart c + m * e..<ChunkStart c + m * e + e}) v2"
    "fst ` set St1 \<subseteq> fst ` set St2"
    by (rule insert_piece_ok [OF 1(2,3) D c(1) key e le])
  have "D \<union> {ChunkStart c..<ChunkStart c + m * e} \<union> {ChunkStart c + m * e..<ChunkStart c + m * e + e} =
      D \<union> {ChunkStart c..<ChunkStart c + Suc m * e}" by auto
  with 1 2 show ?case by (auto simp: err_fold_append)
qed

lemma InsertChunk_ok:
  assumes ag: "agrees Incoming R St" and v: "filled R (b, rs, rn) D v" "D \<subseteq> {rs..<rs + rn}"
    and c: "source_ok (b, rs, rn) c" "ck_key c \<in> fst ` set St" "ChunkStart c < ChunkEnd c"
    and e: "0 < e" "e dvd SrcChunkStart c" "e dvd ChunkStart c - rs" "e dvd ChunkEnd c - ChunkStart c"
  obtains v' St' where "InsertChunk rs e c (v, St) = Inr (v', St')" "agrees Incoming R St'"
    "filled R (b, rs, rn) (D \<union> chunk_range c) v'" "fst ` set St \<subseteq> fst ` set St'"
proof -
  let ?m = "(ChunkEnd c - ChunkStart c) div e"
  have m: "?m * e = ChunkEnd c - ChunkStart c" using e(4) by simp
  then have end_eq: "ChunkStart c + ?m * e = ChunkEnd c" using c(3) by simp
  then have le: "ChunkStart c + ?m * e \<le> ChunkEnd c" by simp
  from insert_pieces_ok [OF ag v c(1,2) e(1-3) le] obtain v' St' where
    "err_fold (insert_piece rs e c) [0..<?m] (v, St) = Inr (v', St')" "agrees Incoming R St'"
    "filled R (b, rs, rn) (D \<union> {ChunkStart c..<ChunkStart c + ?m * e}) v'" "fst ` set St \<subseteq> fst ` set St'"
    by blast
  then show thesis unfolding end_eq by (intro that) (simp_all add: InsertChunk_def chunk_range_def)
qed

lemma insert_chunks_ok:
  assumes "agrees Incoming R St" and "filled R (b, rs, rn) D v" "D \<subseteq> {rs..<rs + rn}" and "0 < e"
    and "\<And>c. c \<in> set cs \<Longrightarrow> source_ok (b, rs, rn) c \<and> ck_key c \<in> fst ` set St \<and> ChunkStart c < ChunkEnd c \<and>
      e dvd SrcChunkStart c \<and> e dvd ChunkStart c - rs \<and> e dvd ChunkEnd c - ChunkStart c"
  shows "\<exists>v' St'. err_fold (InsertChunk rs e) cs (v, St) = Inr (v', St') \<and> agrees Incoming R St' \<and>
    filled R (b, rs, rn) (D \<union> (\<Union>c\<in>set cs. chunk_range c)) v'"
  using assms
proof (induction cs arbitrary: v St D)
  case Nil
  then show ?case by simp
next
  case (Cons c cs)
  note c = Cons.prems(5) [of c, simplified]
  obtain v1 St1 where 1: "InsertChunk rs e c (v, St) = Inr (v1, St1)" "agrees Incoming R St1"
    "filled R (b, rs, rn) (D \<union> chunk_range c) v1" "fst ` set St \<subseteq> fst ` set St1"
    by (rule InsertChunk_ok [OF Cons.prems(1-3), of c e]) (use c Cons.prems(4) in simp_all)
  have D: "D \<union> chunk_range c \<subseteq> {rs..<rs + rn}" using c Cons.prems(3) by (auto simp: source_ok_def)
  have "\<exists>v' St'. err_fold (InsertChunk rs e) cs (v1, St1) = Inr (v', St') \<and> agrees Incoming R St' \<and>
      filled R (b, rs, rn) (D \<union> chunk_range c \<union> (\<Union>c\<in>set cs. chunk_range c)) v'"
  proof (rule Cons.IH [OF 1(2,3) D Cons.prems(4)])
    fix c' assume "c' \<in> set cs"
    with Cons.prems(5) [of c'] 1(4)
    show "source_ok (b, rs, rn) c' \<and> ck_key c' \<in> fst ` set St1 \<and> ChunkStart c' < ChunkEnd c' \<and>
        e dvd SrcChunkStart c' \<and> e dvd ChunkStart c' - rs \<and> e dvd ChunkEnd c' - ChunkStart c'" by auto
  qed
  with 1(1) show ?case by (simp add: Un_assoc)
qed

lemma materialize_ok:
  assumes ag: "agrees Incoming R St" and rn: "0 < rn" and T: "\<not> isPtrTy T" "halves_of T = rn"
    and al: "overlaps_of St (b, rs, rn) \<noteq> [] \<Longrightarrow> plan_aligned (fst (read_plan Incoming St (b, rs, rn)))"
  obtains St' where "materializeFromOverlapping Incoming St (b, rs, rn) T = Inr (bits_of R (b, rs, rn), St')"
    "agrees Incoming R St'"
proof (cases "overlaps_of St (b, rs, rn) = []")
  case True
  have "bits_of Incoming (b, rs, rn) = bits_of R (b, rs, rn)"
    using uncovered_incoming [OF ag, of _ rs rn b] True by (auto simp: bits_of_def)
  then have "materializeFromOverlapping Incoming St (b, rs, rn) T =
      Inr (bits_of R (b, rs, rn), set_value (b, rs, rn) T (bits_of R (b, rs, rn)) St)"
    by (simp add: materializeFromOverlapping_def True Let_def)
  moreover have "agrees Incoming R (set_value (b, rs, rn) T (bits_of R (b, rs, rn)) St)"
    using ag refl by (rule agrees_set_value) (use T rn in simp_all)
  ultimately show thesis by (rule that)
next
  case False
  obtain cs St1 where plan: "read_plan Incoming St (b, rs, rn) = (cs, St1)" by force
  note props = read_plan_props [OF ag plan rn]
  let ?e = "optimal_halves cs"
  have ne: "cs \<noteq> []" using props(6) rn by auto
  have e: "0 < ?e" using props(5) ne by (rule optimal_halves_pos)
  have len: "?e dvd ChunkEnd c - ChunkStart c" if "c \<in> set cs" for c using that by (rule optimal_halves_dvd)
  have start: "?e dvd ChunkStart c - rs" if "c \<in> set cs" for c
    using props(5,6) that len by (rule chunk_start_dvd)
  have src: "?e dvd SrcChunkStart c" if "c \<in> set cs" for c
    using al [OF False] that by (simp add: plan plan_aligned_def list_all_iff)
  have pos: "ChunkStart c < ChunkEnd c" if "c \<in> set cs" for c using props(5) that by (simp add: disjoint_chunks_def)
  have rn_e: "?e dvd rn"
  proof -
    from rn have "rs + rn - 1 \<in> (\<Union>c\<in>set cs. chunk_range c)" unfolding props(6) by auto
    then obtain c where c: "c \<in> set cs" "rs + rn - 1 \<in> chunk_range c" by blast
    have "chunk_range c \<subseteq> {rs..<rs + rn}" using props(6) c(1) by blast
    with pos [OF c(1)] c(2) rn have "ChunkEnd c = rs + rn" "rs \<le> ChunkStart c"
      by (auto simp: chunk_range_def)
    with pos [OF c(1)] have "rn = (ChunkStart c - rs) + (ChunkEnd c - ChunkStart c)" by simp
    with start [OF c(1)] len [OF c(1)] show ?thesis by (metis dvd_add)
  qed
  have unf: "materializeFromOverlapping Incoming St (b, rs, rn) T =
     (if rn div ?e = 1 then
           (let c = hd cs in
            err_bind (ExtractOneChunk ?e (SrcChunkStart c) (ChunkStart c) (ck_key c) St1) (\<lambda>(v, St).
            err_bind (CreateBitOrPointerCast (IntTy ?e) v T) (\<lambda>w. Inr (w, St))))
         else
           err_bind (err_fold (InsertChunk rs ?e) cs (replicate rn 0, St1)) (\<lambda>(v, St).
           err_bind (CreateBitOrPointerCast (IntVec ?e (rn div ?e)) v T) (\<lambda>w. Inr (w, St))))"
    using False by (simp add: materializeFromOverlapping_def plan Let_def)
  show thesis
  proof (cases "rn div ?e = 1")
    case True
    with rn_e have e_rn: "?e = rn" by (metis dvd_div_mult_self mult_1)
    let ?c = "hd cs"
    have c: "?c \<in> set cs" using ne by simp
    have "chunk_range ?c \<subseteq> {rs..<rs + rn}" using props(6) c by blast
    with pos [OF c] have rg: "rs \<le> ChunkStart ?c" "ChunkEnd ?c \<le> rs + rn" by (auto simp: chunk_range_def)
    from dvd_imp_le [OF len [OF c]] pos [OF c] rg e_rn have cs_eq: "ChunkStart ?c = rs" "ChunkEnd ?c = rs + rn" by auto
    from props(4) c obtain o' n where k: "ck_key ?c = (b, o', n)" "ChunkStart ?c = o' + SrcChunkStart ?c"
      "ChunkEnd ?c \<le> o' + n" by (auto simp: source_ok_def)
    have key: "(b, o', n) \<in> fst ` set St1" using props(2) c k(1) by (metis image_eqI subsetD)
    have le: "SrcChunkStart ?c + ?e \<le> n" using k(2,3) cs_eq e_rn by simp
    from props(1) key e src [OF c] le obtain St2 where
      "ExtractOneChunk ?e (SrcChunkStart ?c) (o' + SrcChunkStart ?c) (b, o', n) St1 =
         Inr (bits_of R (b, o' + SrcChunkStart ?c, ?e), St2)" "agrees Incoming R St2" by (rule ExtractOneChunk_ok)
    with k(1,2) cs_eq(1) e_rn True T have
      "materializeFromOverlapping Incoming St (b, rs, rn) T = Inr (bits_of R (b, rs, rn), St2)"
      unfolding unf by (simp add: Let_def cast_ok)
    then show thesis using \<open>agrees Incoming R St2\<close> by (rule that)
  next
    case False
    have start_v: "filled R (b, rs, rn) {} (replicate rn 0)" by (simp add: filled_def)
    have "\<exists>v' St'. err_fold (InsertChunk rs ?e) cs (replicate rn 0, St1) = Inr (v', St') \<and> agrees Incoming R St' \<and>
        filled R (b, rs, rn) ({} \<union> (\<Union>c\<in>set cs. chunk_range c)) v'"
      by (rule insert_chunks_ok [OF props(1) start_v _ e]) (use props(2,4) pos src start len in auto)
    then obtain v' St' where v': "err_fold (InsertChunk rs ?e) cs (replicate rn 0, St1) = Inr (v', St')"
      "agrees Incoming R St'" "filled R (b, rs, rn) {rs..<rs + rn} v'" unfolding props(6) by auto
    have "v' = bits_of R (b, rs, rn)" using v'(3) filled_all [of R "(b, rs, rn)" v'] by simp
    moreover have "halves_of (IntVec ?e (rn div ?e)) = rn" using rn_e by simp
    ultimately have "materializeFromOverlapping Incoming St (b, rs, rn) T = Inr (bits_of R (b, rs, rn), St')"
      unfolding unf using False v'(1) T by (simp add: cast_ok)
    then show thesis using v'(2) by (rule that)
  qed
qed

text \<open>When a read gives the contents of the register.\<close>

definition read_ok :: "file_size \<Rightarrow> reg_bits \<Rightarrow> reg_state \<Rightarrow> reg_key \<Rightarrow> llty \<Rightarrow> bool" where
  "read_ok RegFileSize Incoming St K T \<longleftrightarrow>
     in_range RegFileSize K \<and> 0 < snd (snd K) \<and> halves_of T = snd (snd K) \<and> \<not> isPtrTy T \<and>
     (case map_of St K of
       Some VE \<Rightarrow> viewable VE T
     | None \<Rightarrow> overlaps_of St K = [] \<or> plan_aligned (fst (read_plan Incoming St K)))"

lemma read_step:
  assumes ag: "agrees Incoming R St" and ok: "read_ok Sz Incoming St K T"
  obtains St' where "getOperandAsValue Sz Incoming St K T = Inr (bits_of R K, St')" "agrees Incoming R St'"
proof -
  from ok have range: "in_range Sz K" and n: "0 < snd (snd K)" and T: "halves_of T = snd (snd K)" "\<not> isPtrTy T"
    by (simp_all add: read_ok_def)
  show thesis
  proof (cases "map_of St K")
    case None
    obtain b rs rn where K: "K = (b, rs, rn)" by (cases K)
    have rn: "0 < rn" "halves_of T = rn" using n T K by simp_all
    have al: "plan_aligned (fst (read_plan Incoming St (b, rs, rn)))" if "overlaps_of St (b, rs, rn) \<noteq> []"
      using ok None that by (simp add: read_ok_def K)
    obtain St1 where St1: "materializeFromOverlapping Incoming St K T = Inr (bits_of R K, St1)" "agrees Incoming R St1"
      unfolding K by (rule materialize_ok [OF ag rn(1) T(2) rn(2) al])
    have "getOperandAsValue Sz Incoming St K T = Inr (bits_of R K, set_value K T (bits_of R K) St1)"
      using St1(1) range None by (simp add: getOperandAsValue_def)
    moreover have "agrees Incoming R (set_value K T (bits_of R K) St1)"
      by (rule agrees_set_value [OF St1(2) refl T(1) n T(2)])
    ultimately show thesis by (rule that)
  next
    case (Some VE)
    have ents: "entries_ok R St" using ag by (simp add: agrees_def)
    have VE: "entry_ok (bits_of R K) VE" using ents Some by (rule entries_okD)
    show thesis
    proof (cases "map_of VE T")
      case (Some v)
      with entry_ok_map_of [OF VE] have "v = bits_of R K" by blast
      with Some \<open>map_of St K = Some VE\<close> range have "getOperandAsValue Sz Incoming St K T = Inr (bits_of R K, St)"
        by (simp add: getOperandAsValue_def)
      then show thesis using ag by (rule that)
    next
      case None
      with ok Some have "\<forall>T\<in>fst ` set VE. \<not> isPtrTy T" by (simp add: read_ok_def viewable_def)
      with VE obtain T' VE' where T': "getOrCreateIntOrPtrTypeForReg VE = Inr ((T', bits_of R K), VE')"
        "\<not> isPtrTy T'" "halves_of T' = length (bits_of R K)" "entry_ok (bits_of R K) VE'" by (rule int_or_ptr_ok)
      have "getOperandAsValue Sz Incoming St K T =
          Inr (bits_of R K, AList.update K (AList.update T (bits_of R K) VE') St)"
        using None Some range T' T by (simp add: getOperandAsValue_def cast_ok)
      moreover have "agrees Incoming R (AList.update K (AList.update T (bits_of R K) VE') St)"
        using ag by (rule agrees_update) (rule entry_ok_update [OF T'(4)], simp add: T)
      ultimately show thesis by (rule that)
    qed
  qed
qed

subsection \<open>A write changes the contents of the register\<close>

definition write_bits :: "reg_bits \<Rightarrow> reg_key \<Rightarrow> half list \<Rightarrow> reg_bits" where
  "write_bits R K v = (\<lambda>b h. if covers K b h then v ! (h - fst (snd K)) else R b h)"

definition within :: "reg_key \<Rightarrow> reg_key \<Rightarrow> bool" where
  "within S W = (case (S, W) of ((b, s, n), (c, w, m)) \<Rightarrow> w \<le> s \<and> s + n \<le> w + m)"

definition overlapping :: "reg_key \<Rightarrow> reg_key \<Rightarrow> bool" where
  "overlapping S W = (case (S, W) of ((b, s, n), (c, w, m)) \<Rightarrow> b = c \<and> \<not> (s + n \<le> w \<or> w + m \<le> s))"

text \<open>
  When a write does what it should: no stored range overlaps the written one in part, and the written
  range itself has no value of another type.
\<close>

definition write_ok :: "file_size \<Rightarrow> reg_state \<Rightarrow> reg_key \<Rightarrow> llty \<Rightarrow> half list \<Rightarrow> bool" where
  "write_ok RegFileSize St K T v \<longleftrightarrow>
     in_range RegFileSize K \<and> 0 < snd (snd K) \<and> halves_of T = snd (snd K) \<and> \<not> isPtrTy T \<and>
     length v = snd (snd K) \<and>
     list_all (\<lambda>(S, VE). overlapping S K \<longrightarrow> within S K \<or> within K S) St \<and>
     (case map_of St K of None \<Rightarrow> True | Some VE \<Rightarrow> map fst VE = [T])"

lemma bits_of_write: "length v = n \<Longrightarrow> bits_of (write_bits R (b, o', n) v) (b, o', n) = v"
  by (auto simp: bits_of_def write_bits_def covers_def intro!: nth_equalityI)

lemma bits_of_write_other: "\<not> overlapping S K \<Longrightarrow> bits_of (write_bits R K v) S = bits_of R S"
  by (auto simp: bits_of_def write_bits_def covers_def overlapping_def split: prod.splits)

text \<open>The pieces of a stored range that lie outside the written one.\<close>

definition pieces_ok :: "reg_bits \<Rightarrow> reg_key \<Rightarrow> reg_key \<Rightarrow> (nat \<times> nat \<times> half list) list \<Rightarrow> bool" where
  "pieces_ok R W S ps \<longleftrightarrow>
     (\<forall>(o', n, v)\<in>set ps. 0 < n \<and> v = bits_of R (fst W, o', n) \<and> \<not> overlapping (fst W, o', n) W) \<and>
     (\<forall>h. covers S (fst W) h \<longrightarrow> \<not> covers W (fst W) h \<longrightarrow> (\<exists>(o', n, v)\<in>set ps. covers (fst W, o', n) (fst W) h))"

lemma preserveRegion_ok:
  assumes "0 < e" and "e dvd rs - s" "e dvd re - rs" and "s \<le> rs" "rs \<le> re" "re \<le> s + n"
  shows "\<forall>(o', k, v)\<in>set (preserveRegion e s (bits_of R (b, s, n)) rs re).
      k = e \<and> v = bits_of R (b, o', e) \<and> rs \<le> o' \<and> o' + e \<le> re"
    and "h \<in> {rs..<re} \<Longrightarrow>
      \<exists>(o', k, v)\<in>set (preserveRegion e s (bits_of R (b, s, n)) rs re). o' \<le> h \<and> h < o' + k"
proof -
  let ?m = "(re - rs) div e"
  have m: "?m * e = re - rs" using assms(3) by simp
  have piece: "ExtractElement e ((rs + i * e - s) div e) (bits_of R (b, s, n)) = bits_of R (b, rs + i * e, e)"
    "rs + i * e + e \<le> re" if "i < ?m" for i
  proof -
    have "(i + 1) * e \<le> ?m * e" using that by (intro mult_le_mono1) simp
    then show le: "rs + i * e + e \<le> re" using m assms(5) by (simp add: algebra_simps)
    have "e dvd rs + i * e - s" using assms(2,4) by (metis Nat.add_diff_assoc2 dvd_add dvd_triv_right)
    then have q: "(rs + i * e - s) div e * e = rs + i * e - s" by simp
    have "((rs + i * e - s) div e + 1) * e \<le> n" using q le assms(4,6) by (simp add: algebra_simps)
    from ExtractElement_bits [OF this, of R b s] q assms(4)
    show "ExtractElement e ((rs + i * e - s) div e) (bits_of R (b, s, n)) = bits_of R (b, rs + i * e, e)" by simp
  qed
  then show "\<forall>(o', k, v)\<in>set (preserveRegion e s (bits_of R (b, s, n)) rs re).
      k = e \<and> v = bits_of R (b, o', e) \<and> rs \<le> o' \<and> o' + e \<le> re"
    by (auto simp: preserveRegion_def Let_def)
  assume h: "h \<in> {rs..<re}"
  let ?i = "(h - rs) div e"
  have "h - rs < ?m * e" using h m by auto
  then have i: "?i < ?m" using assms(1) by (simp add: less_mult_imp_div_less)
  have "?i * e + (h - rs) mod e = h - rs" by (rule div_mult_mod_eq)
  moreover have "(h - rs) mod e < e" using assms(1) by simp
  moreover have "rs \<le> h" using h by simp
  ultimately have le: "rs + ?i * e \<le> h" "h < rs + ?i * e + e" by linarith+
  let ?p = "(rs + ?i * e, e, ExtractElement e ((rs + ?i * e - s) div e) (bits_of R (b, s, n)))"
  have "?p \<in> set (preserveRegion e s (bits_of R (b, s, n)) rs re)"
    unfolding preserveRegion_def Let_def using i by auto
  then show "\<exists>(o', k, v)\<in>set (preserveRegion e s (bits_of R (b, s, n)) rs re). o' \<le> h \<and> h < o' + k"
    using le by (intro bexI [of _ ?p]) simp_all
qed

lemma visit_stored_keep:
  assumes "\<not> overlapping S W \<or> S = W"
  shows "visit_stored W (S, VE) = Inr (False, [])"
proof -
  obtain b s n c w m where "S = (b, s, n)" "W = (c, w, m)" by (cases S, cases W)
  with assms show ?thesis by (simp add: visit_stored_def overlapping_def Let_def) blast
qed

lemma visit_stored_erase:
  assumes ov: "overlapping S W" "S \<noteq> W" "within S W \<or> within W S" and W: "0 < snd (snd W)"
    and VE: "entry_ok (bits_of R S) VE"
  obtains ps where "visit_stored W (S, VE) = Inr (True, ps)" "pieces_ok R W S ps"
proof -
  obtain b w m where Weq: "W = (b, w, m)" by (cases W)
  obtain s n where Seq: "S = (b, s, n)" using ov(1) by (cases S) (auto simp: overlapping_def Weq)
  have neq: "\<not> (s = w \<and> n = m)" and meet: "\<not> (s + n \<le> w \<or> w + m \<le> s)" and m: "0 < m"
    using ov(1,2) W by (auto simp: overlapping_def Seq Weq)
  show thesis
  proof (cases "within S W")
    case True
    then have in_W: "w \<le> s" "s + n \<le> w + m" by (simp_all add: within_def Seq Weq)
    then have "visit_stored W (S, VE) = Inr (True, [])"
      using neq meet by (auto simp: visit_stored_def Seq Weq Let_def)
    moreover have "pieces_ok R W S []" using in_W by (auto simp: pieces_ok_def covers_def Seq Weq)
    ultimately show thesis by (rule that)
  next
    case False
    with ov(3) have "within W S" by blast
    then have in_S: "s \<le> w" "w + m \<le> s + n" by (simp_all add: within_def Seq Weq)
    have not_in: "\<not> (w \<le> s \<and> s + n \<le> w + m)" using False by (simp add: within_def Seq Weq)
    define L where "L = w - s"
    define Rt where "Rt = s + n - (w + m)"
    define e where "e = gcd (gcd L Rt) m"
    have e: "0 < e" using m by (simp add: e_def)
    have dvd: "e dvd L" "e dvd Rt" "e dvd m" by (simp_all add: e_def gcd_nat.coboundedI1)
    have n: "n = L + m + Rt" and wm: "w + m - s = L + m" using in_S by (simp_all add: L_def Rt_def)
    have en: "e dvd length (bits_of R S)" using dvd by (simp add: Seq n)
    obtain VE' where bd: "breakdownToVecTyFromAvailableValues VE n e = Inr (bits_of R S, VE')"
      using breakdown_ok [OF VE en] by (auto simp: Seq)
    define left where "left = (if L \<noteq> 0 then preserveRegion e s (bits_of R S) s w else [])"
    define right where "right = (if Rt \<noteq> 0 then preserveRegion e s (bits_of R S) (w + m) (s + n) else [])"
    have "visit_stored W (S, VE) =
        err_bind (breakdownToVecTyFromAvailableValues VE n e) (\<lambda>(Vec, _). Inr (True,
          (if L \<noteq> 0 then preserveRegion e s Vec s w else []) @
          (if Rt \<noteq> 0 then preserveRegion e s Vec (w + m) (s + n) else [])))"
    proof -
      have "(s + n \<le> w \<or> w + m \<le> s) = False" "(s = w \<and> n = m) = False"
        "(w \<le> s \<and> s + n \<le> w + m) = False" "(s \<le> w \<and> w + m \<le> s + n) = True"
        using neq meet not_in in_S by blast+
      then show ?thesis
        unfolding visit_stored_def Seq Weq prod.case Let_def e_def L_def Rt_def
        by (simp only: if_False if_True not_True_eq_False simp_thms)
    qed
    then have visit: "visit_stored W (S, VE) = Inr (True, left @ right)"
      using bd by (simp add: left_def right_def)
    have pl: "e dvd s - s" "e dvd w - s" "s \<le> s" "s \<le> w" "w \<le> s + n" using dvd(1) in_S by (simp_all add: L_def)
    note Lf = preserveRegion_ok [where b = b and R = R, OF e pl]
    have "e dvd w + m - s" unfolding wm using dvd by simp
    moreover have "e dvd s + n - (w + m)" using dvd(2) by (simp add: Rt_def)
    ultimately have pr: "e dvd w + m - s" "e dvd s + n - (w + m)" "s \<le> w + m" "w + m \<le> s + n" "s + n \<le> s + n"
      using in_S by simp_all
    note Rf = preserveRegion_ok [where b = b and R = R, OF e pr]
    have L1: "\<forall>(o', k, v)\<in>set left. k = e \<and> v = bits_of R (b, o', e) \<and> s \<le> o' \<and> o' + e \<le> w"
      using Lf(1) by (simp add: Seq left_def)
    have R1: "\<forall>(o', k, v)\<in>set right. k = e \<and> v = bits_of R (b, o', e) \<and> w + m \<le> o' \<and> o' + e \<le> s + n"
      using Rf(1) by (simp add: Seq right_def)
    have "pieces_ok R W S (left @ right)"
      unfolding pieces_ok_def
    proof (intro conjI allI impI)
      show "\<forall>(o', n, v)\<in>set (left @ right). 0 < n \<and> v = bits_of R (fst W, o', n) \<and> \<not> overlapping (fst W, o', n) W"
      proof
        fix p assume p: "p \<in> set (left @ right)"
        obtain o' k v where peq: "p = (o', k, v)" by (cases p)
        from p consider "p \<in> set left" | "p \<in> set right" unfolding set_append by blast
        then have "k = e \<and> v = bits_of R (b, o', e) \<and> (o' + e \<le> w \<or> w + m \<le> o')"
        proof cases
          case 1
          from bspec [OF L1 this] show ?thesis by (simp add: peq)
        next
          case 2
          from bspec [OF R1 this] show ?thesis by (simp add: peq)
        qed
        then show "case p of (o', n, v) \<Rightarrow> 0 < n \<and> v = bits_of R (fst W, o', n) \<and> \<not> overlapping (fst W, o', n) W"
          using e by (auto simp: peq Weq overlapping_def)
      qed
    next
      fix h assume h: "covers S (fst W) h" "\<not> covers W (fst W) h"
      then consider "s \<le> h" "h < w" | "w + m \<le> h" "h < s + n" by (auto simp: covers_def Seq Weq)
      then have "\<exists>(o', k, v)\<in>set (left @ right). o' \<le> h \<and> h < o' + k"
      proof cases
        case 1
        with Lf(2) [of h] show ?thesis by (auto simp: Seq left_def L_def)
      next
        case 2
        with Rf(2) [of h] show ?thesis by (auto simp: Seq right_def Rt_def)
      qed
      then show "\<exists>(o', n, v)\<in>set (left @ right). covers (fst W, o', n) (fst W) h"
        by (simp add: covers_def)
    qed
    with visit show thesis by (rule that)
  qed
qed

lemma collect_stored_all:
  assumes "\<And>S VE. (S, VE) \<in> set xs \<Longrightarrow> \<exists>er ps. visit_stored W (S, VE) = Inr (er, ps) \<and> Q S er ps"
  shows "\<exists>E P. err_fold (collect_stored W) xs acc = Inr (fst acc @ E, snd acc @ P) \<and>
    (\<forall>S\<in>set E. S \<in> fst ` set xs \<and> (\<exists>ps. Q S True ps \<and> set ps \<subseteq> set P)) \<and>
    (\<forall>S\<in>fst ` set xs. S \<in> set E \<or> (\<exists>ps. Q S False ps)) \<and>
    (\<forall>p\<in>set P. \<exists>S er ps. S \<in> fst ` set xs \<and> Q S er ps \<and> p \<in> set ps)"
  using assms
proof (induction xs arbitrary: acc)
  case Nil
  show ?case by (intro exI [of _ "[]"]) simp
next
  case (Cons x xs)
  obtain S VE where x: "x = (S, VE)" by (cases x)
  with Cons.prems [of S VE] obtain er ps where v: "visit_stored W (S, VE) = Inr (er, ps)" "Q S er ps" by auto
  let ?acc = "(if er then fst acc @ [S] else fst acc, snd acc @ ps)"
  from Cons.IH [of ?acc] Cons.prems obtain E P where
    *: "err_fold (collect_stored W) xs ?acc = Inr (fst ?acc @ E, snd ?acc @ P)"
    and E: "\<forall>S\<in>set E. S \<in> fst ` set xs \<and> (\<exists>ps. Q S True ps \<and> set ps \<subseteq> set P)"
    and all: "\<forall>S\<in>fst ` set xs. S \<in> set E \<or> (\<exists>ps. Q S False ps)"
    and P: "\<forall>p\<in>set P. \<exists>S er ps. S \<in> fst ` set xs \<and> Q S er ps \<and> p \<in> set ps"
    by auto
  let ?E = "(if er then [S] else []) @ E" and ?P = "ps @ P"
  have "err_fold (collect_stored W) (x # xs) acc = Inr (fst acc @ ?E, snd acc @ ?P)"
    using v(1) * by (cases er) (simp_all add: collect_stored_def x)
  moreover have "\<forall>T\<in>set ?E. T \<in> fst ` set (x # xs) \<and> (\<exists>qs. Q T True qs \<and> set qs \<subseteq> set ?P)"
  proof
    fix T assume "T \<in> set ?E"
    then consider "T = S" "er" | "T \<in> set E" by (auto split: if_splits)
    then show "T \<in> fst ` set (x # xs) \<and> (\<exists>qs. Q T True qs \<and> set qs \<subseteq> set ?P)"
    proof cases
      case 1
      with v(2) show ?thesis by (auto simp: x)
    next
      case 2
      with E show ?thesis by (metis (no_types, lifting) image_iff le_supI2 list.set_intros(2) set_append)
    qed
  qed
  moreover have "\<forall>T\<in>fst ` set (x # xs). T \<in> set ?E \<or> (\<exists>ps. Q T False ps)"
    using all v(2) x by (cases er) auto
  moreover have "\<forall>p\<in>set ?P. \<exists>T er ps. T \<in> fst ` set (x # xs) \<and> Q T er ps \<and> p \<in> set ps"
  proof
    fix p assume "p \<in> set ?P"
    then consider "p \<in> set ps" | "p \<in> set P" unfolding set_append by blast
    then show "\<exists>T er ps. T \<in> fst ` set (x # xs) \<and> Q T er ps \<and> p \<in> set ps"
    proof cases
      case 1
      with v(2) show ?thesis by (intro exI [of _ S] exI [of _ er] exI [of _ ps]) (simp add: x)
    next
      case 2
      with P obtain T er' qs where "T \<in> fst ` set xs" "Q T er' qs" "p \<in> set qs" by blast
      then show ?thesis by (intro exI [of _ T] exI [of _ er'] exI [of _ qs]) simp
    qed
  qed
  ultimately show ?case by blast
qed

definition visited :: "reg_bits \<Rightarrow> reg_key \<Rightarrow> reg_key \<Rightarrow> bool \<Rightarrow> (nat \<times> nat \<times> half list) list \<Rightarrow> bool" where
  "visited R W S er ps =
     (if er then overlapping S W \<and> S \<noteq> W \<and> pieces_ok R W S ps else (\<not> overlapping S W \<or> S = W) \<and> ps = [])"

text \<open>The entries apart from the written one.\<close>

definition off_ok :: "reg_bits \<Rightarrow> reg_key \<Rightarrow> reg_state \<Rightarrow> bool" where
  "off_ok R K St \<longleftrightarrow> distinct (map fst St) \<and> (\<forall>(S, VE)\<in>set St. S \<noteq> K \<longrightarrow> entry_ok (bits_of R S) VE)"

lemma off_ok_update:
  assumes "off_ok R K St" and "entry_ok (bits_of R S) VE"
  shows "off_ok R K (AList.update S VE St)"
  using assms set_update_subset [of S VE St] unfolding off_ok_def by (auto simp: distinct_update)

lemma off_ok_set_value:
  assumes "off_ok R K St" and "S \<noteq> K" and "v = bits_of R S" "halves_of T = snd (snd S)" "0 < snd (snd S)" "\<not> isPtrTy T"
  shows "off_ok R K (set_value S T v St)"
  unfolding set_value_def
proof (rule off_ok_update [OF assms(1)])
  have "entry_ok v (entry_at St S) \<or> entry_at St S = []"
    using assms(1,2) unfolding assms(3) by (auto simp: entry_at_def off_ok_def dest: map_of_SomeD split: option.splits)
  then show "entry_ok (bits_of R S) (AList.update T v (entry_at St S))"
    unfolding assms(3) by (rule entry_at_update) (use assms in \<open>simp_all flip: length_0_conv\<close>)
qed

lemma entry_at_set_value: "S \<noteq> K \<Longrightarrow> entry_at (set_value S T v St) K = entry_at St K"
  by (simp add: entry_at_def set_value_def update_conv')

lemma delete_all:
  "set (fold AList.delete E St) = {x \<in> set St. fst x \<notin> set E} \<and>
   (distinct (map fst St) \<longrightarrow> distinct (map fst (fold AList.delete E St)))"
proof (induction E arbitrary: St)
  case (Cons k E)
  have "set (AList.delete k St) = {x \<in> set St. fst x \<noteq> k}" by (auto simp: AList.delete_eq)
  with Cons [of "AList.delete k St"] show ?case by (auto simp: distinct_delete)
qed simp

lemma delete_keys: "fst ` set (fold AList.delete E St) = fst ` set St - set E"
  using delete_all [of E St] by (auto simp: image_iff)

lemma entry_at_delete: "K \<notin> set E \<Longrightarrow> entry_at (fold AList.delete E St) K = entry_at St K"
proof (induction E arbitrary: St)
  case (Cons k E)
  then show ?case by (simp add: entry_at_def AList.delete_conv')
qed simp

lemma put_pieces_ok:
  assumes "off_ok R K St" and "\<And>o' n v. (o', n, v) \<in> set P \<Longrightarrow>
      0 < n \<and> v = bits_of R (fst K, o', n) \<and> (fst K, o', n) \<noteq> K"
  shows "off_ok R K (fold (\<lambda>(o', n, v). set_value (fst K, o', n) (IntTy n) v) P St) \<and>
    fst ` set (fold (\<lambda>(o', n, v). set_value (fst K, o', n) (IntTy n) v) P St) =
      fst ` set St \<union> (\<lambda>(o', n, v). (fst K, o', n)) ` set P \<and>
    entry_at (fold (\<lambda>(o', n, v). set_value (fst K, o', n) (IntTy n) v) P St) K = entry_at St K"
  using assms
proof (induction P arbitrary: St)
  case (Cons p P)
  obtain o' n v where p: "p = (o', n, v)" by (cases p)
  from Cons.prems(2) [of o' n v] have v: "0 < n" "v = bits_of R (fst K, o', n)" "(fst K, o', n) \<noteq> K" by (auto simp: p)
  let ?St = "set_value (fst K, o', n) (IntTy n) v St"
  have "off_ok R K ?St" using Cons.prems(1) v(3,2) by (rule off_ok_set_value) (use v(1) in simp_all)
  moreover have "\<And>o' n v. (o', n, v) \<in> set P \<Longrightarrow> 0 < n \<and> v = bits_of R (fst K, o', n) \<and> (fst K, o', n) \<noteq> K"
    using Cons.prems(2) by (meson list.set_intros(2))
  ultimately have "off_ok R K (fold (\<lambda>(o', n, v). set_value (fst K, o', n) (IntTy n) v) P ?St)"
    "fst ` set (fold (\<lambda>(o', n, v). set_value (fst K, o', n) (IntTy n) v) P ?St) =
      fst ` set ?St \<union> (\<lambda>(o', n, v). (fst K, o', n)) ` set P"
    "entry_at (fold (\<lambda>(o', n, v). set_value (fst K, o', n) (IntTy n) v) P ?St) K = entry_at ?St K"
    using Cons.IH [of ?St] by blast+
  then show ?case using v(3) unfolding p by (simp only: fold_simps prod.case keys_set_value) (simp add: entry_at_set_value)
qed simp

lemma write_step:
  assumes ag: "agrees Incoming R St" and ok: "write_ok Sz St K T v"
  obtains St' where "setRegOperandValue Sz St K T v = Inr St'" "agrees Incoming (write_bits R K v) St'"
proof -
  let ?R = "write_bits R K v"
  from ok have range: "in_range Sz K" and n: "0 < snd (snd K)" and T: "halves_of T = snd (snd K)" "\<not> isPtrTy T"
    and len: "length v = snd (snd K)"
    and nested: "\<And>S VE. (S, VE) \<in> set St \<Longrightarrow> overlapping S K \<Longrightarrow> within S K \<or> within K S"
    and single: "entry_at St K = [] \<or> (\<exists>w. entry_at St K = [(T, w)])"
    by (auto simp: write_ok_def list_all_iff entry_at_def map_eq_Cons_conv split: option.splits)
  have ents: "distinct (map fst St)" "\<And>S VE. (S, VE) \<in> set St \<Longrightarrow> entry_ok (bits_of R S) VE"
    using ag by (auto simp: agrees_def entries_ok_def)
  let ?Q = "visited R K"
  have visit: "\<exists>er ps. visit_stored K (S, VE) = Inr (er, ps) \<and> ?Q S er ps" if S: "(S, VE) \<in> set St" for S VE
  proof (cases "\<not> overlapping S K \<or> S = K")
    case True
    then show ?thesis using visit_stored_keep [of S K VE] by (intro exI [of _ False] exI [of _ "[]"]) (simp add: visited_def)
  next
    case False
    then have "overlapping S K" "S \<noteq> K" by simp_all
    then obtain ps where "visit_stored K (S, VE) = Inr (True, ps)" "pieces_ok R K S ps"
      using visit_stored_erase [OF _ _ nested [OF S] n ents(2) [OF S]] by blast
    with False show ?thesis by (intro exI [of _ True] exI [of _ ps]) (simp add: visited_def)
  qed
  have "\<exists>E P. err_fold (collect_stored K) St ([], []) = Inr (E, P) \<and>
      (\<forall>S\<in>set E. S \<in> fst ` set St \<and> (\<exists>ps. ?Q S True ps \<and> set ps \<subseteq> set P)) \<and>
      (\<forall>S\<in>fst ` set St. S \<in> set E \<or> (\<exists>ps. ?Q S False ps)) \<and>
      (\<forall>p\<in>set P. \<exists>S er ps. S \<in> fst ` set St \<and> ?Q S er ps \<and> p \<in> set ps)"
    using collect_stored_all [of St K ?Q "([], [])", OF visit] by simp
  then obtain E P where coll: "err_fold (collect_stored K) St ([], []) = Inr (E, P)"
    and E: "\<forall>S\<in>set E. overlapping S K \<and> S \<noteq> K \<and> (\<exists>ps. pieces_ok R K S ps \<and> set ps \<subseteq> set P)"
    and kept: "\<forall>S\<in>fst ` set St. S \<in> set E \<or> \<not> overlapping S K \<or> S = K"
    and P: "\<forall>p\<in>set P. \<exists>S ps. pieces_ok R K S ps \<and> p \<in> set ps"
    by (fastforce simp: visited_def split: if_splits)
  let ?St1 = "fold AList.delete E St"
  let ?St2 = "fold (\<lambda>(o', n, v). set_value (fst K, o', n) (IntTy n) v) P ?St1"
  have inv: "invalidateOverlaps St K = Inr ?St2" by (simp add: invalidateOverlaps_def coll)
  have K_E: "K \<notin> set E" using E by blast
  have off1: "off_ok ?R K ?St1"
    unfolding off_ok_def
  proof (intro conjI ballI)
    show "distinct (map fst ?St1)" using delete_all [of E St] ents(1) by blast
    fix x assume "x \<in> set ?St1"
    then have x: "x \<in> set St" "fst x \<notin> set E" using delete_all [of E St] by auto
    show "case x of (S, VE) \<Rightarrow> S \<noteq> K \<longrightarrow> entry_ok (bits_of ?R S) VE"
    proof (cases x)
      case (Pair S VE)
      have "entry_ok (bits_of ?R S) VE" if "S \<noteq> K"
      proof -
        from x(1) Pair have "S \<in> fst ` set St" by force
        with kept x(2) that Pair have "\<not> overlapping S K" by auto
        with ents(2) [of S VE] x(1) Pair show ?thesis by (simp add: bits_of_write_other)
      qed
      then show ?thesis by (simp add: Pair)
    qed
  qed
  have piece: "0 < m \<and> w = bits_of ?R (fst K, o', m) \<and> (fst K, o', m) \<noteq> K" if p: "(o', m, w) \<in> set P" for o' m w
  proof -
    from P p obtain S ps where "pieces_ok R K S ps" "(o', m, w) \<in> set ps" by blast
    then have *: "0 < m" "w = bits_of R (fst K, o', m)" "\<not> overlapping (fst K, o', m) K" by (auto simp: pieces_ok_def)
    have "overlapping K K" using n by (cases K) (simp add: overlapping_def)
    with * show ?thesis using bits_of_write_other [OF *(3), of R v] by auto
  qed
  from put_pieces_ok [OF off1 piece] have off2: "off_ok ?R K ?St2"
    and keys2: "fst ` set ?St2 = fst ` set ?St1 \<union> (\<lambda>(o', n, v). (fst K, o', n)) ` set P"
    and at2: "entry_at ?St2 K = entry_at St K"
    using entry_at_delete [OF K_E, of St] by auto
  let ?St3 = "set_value K T v ?St2"
  have upd: "AList.update T v (entry_at ?St2 K) = [(T, v)]" using single at2 by auto
  have v_ne: "v \<noteq> []" using len n by auto
  have entK: "entry_ok (bits_of ?R K) [(T, v)]"
    using bits_of_write [of v "snd (snd K)" R "fst K" "fst (snd K)"] len T v_ne by (simp add: entry_ok_def)
  have St3: "?St3 = AList.update K [(T, v)] ?St2" by (simp add: set_value_def upd)
  have "map_of ?St3 S = (if S = K then Some [(T, v)] else map_of ?St2 S)" for S by (simp add: St3 update_conv')
  moreover have d3: "distinct (map fst ?St3)" using off2 by (simp add: St3 off_ok_def distinct_update)
  ultimately have "entry_ok (bits_of ?R S) VE" if "(S, VE) \<in> set ?St3" for S VE
    using that entK off2 map_of_is_SomeI [OF d3 that] map_of_SomeD [of ?St2 S VE]
    by (auto simp: off_ok_def split: if_splits)
  with d3 have ents3: "entries_ok ?R ?St3" by (auto simp: entries_ok_def)
  have keys3: "fst ` set ?St3 = insert K (fst ` set ?St2)" by (simp add: keys_set_value)
  have "?R b h = Incoming b h" if no: "\<forall>S\<in>fst ` set ?St3. \<not> covers S b h" for b h
  proof -
    have nK: "\<not> covers K b h" using no keys3 by blast
    have "\<not> covers S b h" if S: "S \<in> fst ` set St" for S
    proof
      assume c: "covers S b h"
      have "S \<notin> fst ` set ?St1" using no c unfolding keys3 keys2 by blast
      with S have SE: "S \<in> set E" unfolding delete_keys by simp
      with E obtain ps where ps: "pieces_ok R K S ps" "set ps \<subseteq> set P" by blast
      have "overlapping S K" using E SE by blast
      then have b: "b = fst K" using c by (simp add: overlapping_def covers_def split: prod.splits)
      from ps(1) c nK obtain p where p: "p \<in> set ps" "case p of (o', n, v) \<Rightarrow> covers (fst K, o', n) b h"
        unfolding b pieces_ok_def by blast
      obtain o' m w where "p = (o', m, w)" by (cases p)
      with p ps(2) have cp: "(o', m, w) \<in> set P" "covers (fst K, o', m) b h" by auto
      from imageI [OF cp(1), of "\<lambda>(o', n, v). (fst K, o', n)"]
      have "(fst K, o', m) \<in> fst ` set ?St3" unfolding keys3 keys2 by simp
      with no cp(2) show False by blast
    qed
    with ag nK show ?thesis by (simp add: agrees_def write_bits_def)
  qed
  with ents3 have "agrees Incoming ?R ?St3" by (simp add: agrees_def)
  moreover have "setRegOperandValue Sz St K T v = Inr ?St3" by (simp add: setRegOperandValue_def range inv)
  ultimately show thesis by (blast intro: that)
qed

subsection \<open>The accesses of a block\<close>

datatype access = Read reg_key llty | Write reg_key llty "half list"

text \<open>
  The reads of a sequence of accesses. The maps of the code are hash tables: \<open>order n\<close> is the order in which
  the entries are iterated when \<open>n\<close> more accesses follow.
\<close>

fun run_accesses :: "file_size \<Rightarrow> reg_bits \<Rightarrow> (nat \<Rightarrow> reg_state \<Rightarrow> reg_state) \<Rightarrow> reg_state \<Rightarrow> access list \<Rightarrow>
    slice_error + half list list \<times> reg_state" where
  "run_accesses Sz Incoming order St [] = Inr ([], St)"
| "run_accesses Sz Incoming order St (Read K T # as) =
     err_bind (getOperandAsValue Sz Incoming (order (length as) St) K T) (\<lambda>(v, St).
     err_bind (run_accesses Sz Incoming order St as) (\<lambda>(vs, St). Inr (v # vs, St)))"
| "run_accesses Sz Incoming order St (Write K T v # as) =
     err_bind (setRegOperandValue Sz (order (length as) St) K T v) (\<lambda>St. run_accesses Sz Incoming order St as)"

definition reads_of :: "file_size \<Rightarrow> reg_bits \<Rightarrow> (nat \<Rightarrow> reg_state \<Rightarrow> reg_state) \<Rightarrow> access list \<Rightarrow>
    slice_error + half list list" where
  "reads_of Sz Incoming order as = err_bind (run_accesses Sz Incoming order [] as) (\<lambda>(vs, _). Inr vs)"

text \<open>The reads of the register files themselves.\<close>

fun reference_reads :: "reg_bits \<Rightarrow> access list \<Rightarrow> half list list" where
  "reference_reads R [] = []"
| "reference_reads R (Read K T # as) = bits_of R K # reference_reads R as"
| "reference_reads R (Write K T v # as) = reference_reads (write_bits R K v) as"

text \<open>Every access is one that the code handles.\<close>

fun accesses_ok :: "file_size \<Rightarrow> reg_bits \<Rightarrow> (nat \<Rightarrow> reg_state \<Rightarrow> reg_state) \<Rightarrow> reg_state \<Rightarrow> access list \<Rightarrow> bool" where
  "accesses_ok Sz Incoming order St [] = True"
| "accesses_ok Sz Incoming order St (Read K T # as) =
     (read_ok Sz Incoming (order (length as) St) K T \<and>
      (case getOperandAsValue Sz Incoming (order (length as) St) K T of
        Inl _ \<Rightarrow> True
      | Inr (_, St) \<Rightarrow> accesses_ok Sz Incoming order St as))"
| "accesses_ok Sz Incoming order St (Write K T v # as) =
     (write_ok Sz (order (length as) St) K T v \<and>
      (case setRegOperandValue Sz (order (length as) St) K T v of
        Inl _ \<Rightarrow> True
      | Inr St \<Rightarrow> accesses_ok Sz Incoming order St as))"

text \<open>The iteration order changes no entry.\<close>

definition reorders :: "(nat \<Rightarrow> reg_state \<Rightarrow> reg_state) \<Rightarrow> bool" where
  "reorders order \<longleftrightarrow>
     (\<forall>n St. mset (map (\<lambda>(K, VE). (K, mset VE)) (order n St)) = mset (map (\<lambda>(K, VE). (K, mset VE)) St))"

lemma entry_ok_mset: "mset VE = mset VE' \<Longrightarrow> entry_ok v VE = entry_ok v VE'"
  unfolding entry_ok_def by (drule mset_eq_setD) simp

lemma reorder_mem:
  assumes "reorders order" and "(K, VE) \<in> set (order n St)"
  obtains VE' where "(K, VE') \<in> set St" "mset VE' = mset VE"
proof -
  let ?f = "\<lambda>(K, VE). (K, mset VE)"
  have "mset (map ?f (order n St)) = mset (map ?f St)" using assms(1) by (simp add: reorders_def)
  then have "?f ` set (order n St) = ?f ` set St" unfolding set_map [symmetric] by (rule mset_eq_setD)
  moreover have "?f (K, VE) \<in> ?f ` set (order n St)" using assms(2) by (rule imageI)
  ultimately have "?f (K, VE) \<in> ?f ` set St" by simp
  then obtain x where "?f (K, VE) = ?f x" "x \<in> set St" by (rule imageE)
  with that show thesis by (cases x) simp
qed

lemma reorder_keys:
  assumes "reorders order"
  shows "mset (map fst (order n St)) = mset (map fst St)"
proof -
  have fst_f: "fst \<circ> (\<lambda>(K, VE). (K, mset VE)) = (fst :: reg_key \<times> value_map \<Rightarrow> reg_key)" by auto
  have "mset (map fst (map (\<lambda>(K, VE). (K, mset VE)) (order n St))) =
      mset (map fst (map (\<lambda>(K, VE). (K, mset VE)) St))"
    using assms unfolding reorders_def mset_map [of fst] by simp
  then show ?thesis by (simp only: map_map fst_f)
qed

lemma agrees_reorder:
  assumes ag: "agrees Incoming R St" and order: "reorders order"
  shows "agrees Incoming R (order n St)"
proof -
  have keys: "fst ` set (order n St) = fst ` set St" "distinct (map fst (order n St)) = distinct (map fst St)"
    unfolding set_map [symmetric] using reorder_keys [OF order, of n St]
    by (rule mset_eq_setD, rule mset_eq_imp_distinct_iff)
  have "entry_ok (bits_of R K) VE" if x: "(K, VE) \<in> set (order n St)" for K VE
  proof -
    from order x obtain VE' where "(K, VE') \<in> set St" "mset VE' = mset VE" by (rule reorder_mem)
    with ag show ?thesis by (auto simp: agrees_def entries_ok_def entry_ok_mset [of VE VE'])
  qed
  with ag keys show ?thesis by (auto simp: agrees_def entries_ok_def)
qed

lemma run_accesses_exact:
  assumes "agrees Incoming R St" and "reorders order" and "accesses_ok Sz Incoming order St as"
  shows "\<exists>St'. run_accesses Sz Incoming order St as = Inr (reference_reads R as, St')"
  using assms(1,3)
proof (induction as arbitrary: R St)
  case Nil
  show ?case by simp
next
  case (Cons a as)
  let ?St = "order (length as) St"
  have ag: "agrees Incoming R ?St" using Cons.prems(1) assms(2) by (rule agrees_reorder)
  show ?case
  proof (cases a)
    case (Read K T)
    with Cons.prems(2) have "read_ok Sz Incoming ?St K T" by simp
    with ag obtain St' where g: "getOperandAsValue Sz Incoming ?St K T = Inr (bits_of R K, St')" "agrees Incoming R St'"
      by (rule read_step)
    with Cons.prems(2) Read Cons.IH [of R St'] show ?thesis by auto
  next
    case (Write K T v)
    with Cons.prems(2) have "write_ok Sz ?St K T v" by simp
    with ag obtain St' where g: "setRegOperandValue Sz ?St K T v = Inr St'" "agrees Incoming (write_bits R K v) St'"
      by (rule write_step)
    with Cons.prems(2) Write Cons.IH [of "write_bits R K v" St'] show ?thesis by auto
  qed
qed

lemma agrees_empty: "agrees Incoming Incoming []"
  by (simp add: agrees_def entries_ok_def)

text \<open>
  C30: the registers of a block are read and written as the register files are: over any sequence of accesses
  that starts a block, every read - of a range that was written, of a part of it, of a range put together from
  several written ones and from the block entry - gives the bits that the register file holds at that point, and
  no assertion of the code fails, whatever the iteration order of its hash tables is. The accesses must avoid
  the three cases the code does not handle: a write that overlaps a stored range only in part, a write to a
  range that has a view of another type, and a read whose source offsets the chunk size does not divide.
\<close>

theorem register_reads_are_exact:
  assumes "reorders order" and "accesses_ok Sz Incoming order [] as"
  shows "reads_of Sz Incoming order as = Inr (reference_reads Incoming as)"
  using run_accesses_exact [OF agrees_empty assms] by (auto simp: reads_of_def)

definition ex_accesses :: "access list" where
  "ex_accesses =
     [Write (SGPR_file, 0, 4) (IntTy 4) [1, 2, 3, 4], Read (SGPR_file, 2, 2) (IntTy 2),
      Write (SGPR_file, 2, 2) (IntTy 2) [7, 8], Read (SGPR_file, 0, 6) (FpTy 6), Read (SGPR_file, 1, 1) (FpTy 1)]"

lemma register_reads_are_exact_witness:
  "accesses_ok (\<lambda>_. 204) (\<lambda>_ h. word_of_nat h) (\<lambda>_. rev) [] ex_accesses \<and>
   reads_of (\<lambda>_. 204) (\<lambda>_ h. word_of_nat h) (\<lambda>_. rev) ex_accesses = Inr [[3, 4], [1, 2, 7, 8, 4, 5], [2]]"
proof -
  have "reorders (\<lambda>_. rev)" by (simp add: reorders_def rev_map [symmetric])
  moreover have ok: "accesses_ok (\<lambda>_. 204) (\<lambda>_ h. word_of_nat h) (\<lambda>_. rev) [] ex_accesses" by code_simp
  ultimately have "reads_of (\<lambda>_. 204) (\<lambda>_ h. word_of_nat h) (\<lambda>_. rev) ex_accesses =
      Inr (reference_reads (\<lambda>_ h. word_of_nat h) ex_accesses)"
    by (rule register_reads_are_exact)
  moreover have "reference_reads (\<lambda>_ h. word_of_nat h) ex_accesses = [[3, 4], [1, 2, 7, 8, 4, 5], [2]]" by code_simp
  ultimately show ?thesis using ok by simp
qed

subsection \<open>Reads that give other bits\<close>


text \<open>
  a read at an offset that its size does not divide gives another register: after a write of \<open>v[0:2]\<close>, the
  read of \<open>v[1:2]\<close> gives the contents of \<open>v[0:1]\<close>. The element index in the source is the offset divided by the
  size of a chunk, and the offset is not part of the greatest common divisor that sizes the chunks.
\<close>

lemma read_at_odd_offset_gives_lower_register:
  "reads_of (\<lambda>_. 512) Incoming (\<lambda>_ St. St)
     [Write (VGPR_file, 0, 6) (IntTy 6) [v0, v1, v2, v3, v4, v5], Read (VGPR_file, 2, 4) (IntTy 4)] =
   Inr [[v0, v1, v2, v3]]"
  by code_simp

text \<open>
  a write that overlaps a stored range in part drops the part it does not write: after writes of \<open>v[0:1]\<close> and
  \<open>v[1:2]\<close>, a read of \<open>v0\<close> gives what the register held at the start of the block.
\<close>

lemma partly_overwritten_register_is_lost:
  "reads_of (\<lambda>_. 512) Incoming (\<lambda>_ St. St)
     [Write (VGPR_file, 0, 4) (IntTy 4) [v0, v1, v2, v3], Write (VGPR_file, 2, 4) (IntTy 4) [w0, w1, w2, w3],
      Read (VGPR_file, 0, 2) (IntTy 2)] =
   Inr [[Incoming VGPR_file 0, Incoming VGPR_file 1]]"
  by code_simp

text \<open>A read out of range is a read of that range, not of the base register, and a write is dropped.\<close>

lemma out_of_range_read:
  "reads_of (\<lambda>_. 204) Incoming (\<lambda>_ St. St)
     [Write (SGPR_file, 0, 2) (IntTy 2) [v0, v1], Write (SGPR_file, 204, 2) (IntTy 2) [w0, w1],
      Read (SGPR_file, 204, 2) (IntTy 2)] =
   Inr [[Incoming SGPR_file 204, Incoming SGPR_file 205]]"
  by code_simp

text \<open>A range of which only a pointer is known fails when it is read through another type.\<close>

lemma pointer_only_entry_cannot_be_split:
  "reads_of (\<lambda>_. 204) Incoming (\<lambda>_ St. St)
     [Write (SGPR_file, 0, 4) (PtrTy 4) [v0, v1, v2, v3], Read (SGPR_file, 0, 2) (IntTy 2)] = Inl Zero_width_integer"
  by code_simp
end
