(* ===== verification/Register_Files.thy ===== *)
theory Register_Files
  imports Register_Slices
begin

text \<open>
  \<open>src/lib/ToolCodeGen/TraceFunctionTranslator.cpp\<close>: the register files of a lifted function, the range of a
  file that a machine register names, what a kernel finds in its registers at entry, how the files are
  passed from one function to another, and the accesses that the instruction semantics make through an
  index or to a hardware register. LLVM's register tables (encodings, sizes, overlaps) and what the
  hardware preloads are inputs.
\<close>

subsection \<open>The layout of the register files\<close>

datatype mc_register =
  R_NoRegister | R_SGPR nat | R_VGPR nat | R_AGPR nat | R_TTMP nat | R_TBA_LO | R_M0 | R_SGPR_NULL
| R_SRC_SHARED_BASE | R_SRC_VCCZ | R_SRC_SCC | R_SCC | R_MODE | R_VCC | R_XNACK_MASK | R_FLAT_SCR | R_EXEC
| R_other nat

record trace_target =
  isGFX9Plus :: bool
  isGFX10Plus :: bool
  isGFX9_GFX10 :: bool
  isGFX11Plus :: bool
  hasMAIInsts :: bool
  isXnackSupported :: bool
  hasFlatScratchInsts :: bool
  getMCReg :: "mc_register \<Rightarrow> mc_register"
  REG_IDX :: "mc_register \<Rightarrow> nat"
  IS_HI16 :: "mc_register \<Rightarrow> bool"
  IS_AGPR :: "mc_register \<Rightarrow> bool"
  IS_VGPR :: "mc_register \<Rightarrow> bool"
  regsOverlap :: "mc_register \<Rightarrow> mc_register \<Rightarrow> bool"
  RegSizeInBits :: "mc_register \<Rightarrow> nat"

datatype layout_error = NoSGPRs | NoVGPRs

definition TTMPBaseReg :: "trace_target \<Rightarrow> mc_register" where
  "TTMPBaseReg t = (if isGFX9Plus t then R_TTMP 0 else R_TBA_LO)"

definition ExecBaseReg :: "trace_target \<Rightarrow> mc_register" where
  "ExecBaseReg t = (if \<not> isGFX10Plus t then R_M0 else R_SGPR_NULL)"

definition getRegisterFileArgOrder :: "trace_target \<Rightarrow> reg_file list" where
  "getRegisterFileArgOrder t =
     [SGPR_file, TTMP_file, EXEC_file] @ (if \<not> isGFX9Plus t then [APERTURE_file] else []) @
     [STATUS_file, VGPR_file] @ (if hasMAIInsts t then [AGPR_file] else [])"

definition computeRegFileSizes :: "trace_target \<Rightarrow> nat \<Rightarrow> nat \<Rightarrow> file_size" where
  "computeRegFileSizes t NumSGPRs NumVGPRs f =
     (case f of
       SGPR_file \<Rightarrow> 2 * NumSGPRs
     | TTMP_file \<Rightarrow> 2 * 16
     | EXEC_file \<Rightarrow> 2 * 4
     | STATUS_file \<Rightarrow> 6
     | APERTURE_file \<Rightarrow> (if isGFX9_GFX10 t then 10 else if isGFX11Plus t then 8 else 0)
     | VGPR_file \<Rightarrow> 2 * NumVGPRs
     | AGPR_file \<Rightarrow> (if hasMAIInsts t then 2 * NumVGPRs else 0)
     | HW_file \<Rightarrow> 2 ^ 7)"

record file_layout =
  RegFileSize :: file_size
  FunctionCallArgOrder :: "reg_file list"
  VccLoSgpr :: mc_register
  XnackMaskLoSgpr :: mc_register
  FlatScrLoSgpr :: mc_register

definition reserveLoPair :: "nat \<Rightarrow> mc_register \<times> nat" where
  "reserveLoPair NextSlot = (if NextSlot < 2 then (R_NoRegister, NextSlot) else (R_SGPR (NextSlot - 2), NextSlot - 2))"

definition initRegFileLayouts :: "trace_target \<Rightarrow> nat \<Rightarrow> nat \<Rightarrow> layout_error + file_layout" where
  "initRegFileLayouts t NumSGPRs NumVGPRs =
     (if NumSGPRs = 0 then Inl NoSGPRs
      else if NumVGPRs = 0 then Inl NoVGPRs
      else
        (let (vcc, slot) = reserveLoPair NumSGPRs;
             (xnack, slot) = (if \<not> isGFX10Plus t \<and> isXnackSupported t then reserveLoPair slot else (R_NoRegister, slot));
             (flat, slot) = (if \<not> isGFX10Plus t \<and> hasFlatScratchInsts t then reserveLoPair slot else (R_NoRegister, slot))
         in Inr \<lparr>RegFileSize = computeRegFileSizes t NumSGPRs NumVGPRs,
                 FunctionCallArgOrder = getRegisterFileArgOrder t,
                 VccLoSgpr = vcc, XnackMaskLoSgpr = xnack, FlatScrLoSgpr = flat\<rparr>))"

subsection \<open>The range of a register\<close>

datatype key_error = NotInAnyFile

definition getPhysReg :: "trace_target \<Rightarrow> mc_register \<Rightarrow> mc_register" where
  "getPhysReg t Reg = (if Reg = R_SCC then R_SRC_SCC else getMCReg t Reg)"

definition getPhysRegisterSize :: "trace_target \<Rightarrow> mc_register \<Rightarrow> nat" where
  "getPhysRegisterSize t Reg = (if Reg = R_MODE then 32 else if Reg = R_SCC then 32 else RegSizeInBits t Reg)"

definition aliased_idx :: "trace_target \<Rightarrow> file_layout \<Rightarrow> mc_register \<Rightarrow> nat" where
  "aliased_idx t L Reg =
     (case find (\<lambda>(AliasReg, LogicalBase). regsOverlap t Reg AliasReg)
         [(R_VCC, VccLoSgpr L), (R_XNACK_MASK, XnackMaskLoSgpr L), (R_FLAT_SCR, FlatScrLoSgpr L)] of
       Some (AliasReg, LogicalBase) \<Rightarrow> REG_IDX t LogicalBase
     | None \<Rightarrow> REG_IDX t (getPhysReg t Reg))"

definition special_file :: "trace_target \<Rightarrow> file_layout \<Rightarrow> nat \<Rightarrow> key_error + reg_file" where
  "special_file t L HwIdx =
     (let VCCZBaseIdx = REG_IDX t (getPhysReg t R_SRC_VCCZ);
          ExecBaseIdx = REG_IDX t (getPhysReg t (ExecBaseReg t));
          TTmpBaseIdx = REG_IDX t (getPhysReg t (TTMPBaseReg t));
          SharedBaseIdx = REG_IDX t (getPhysReg t R_SRC_SHARED_BASE) in
      if VCCZBaseIdx \<le> HwIdx \<and> HwIdx < VCCZBaseIdx + 6 then Inr STATUS_file
      else if ExecBaseIdx \<le> HwIdx \<and> HwIdx < ExecBaseIdx + 4 then Inr EXEC_file
      else if TTmpBaseIdx \<le> HwIdx \<and> HwIdx < TTmpBaseIdx + 16 then Inr TTMP_file
      else if isGFX9Plus t \<and> SharedBaseIdx \<le> HwIdx \<and> HwIdx < SharedBaseIdx + RegFileSize L APERTURE_file div 2
      then Inr APERTURE_file
      else Inl NotInAnyFile)"

definition base_register :: "trace_target \<Rightarrow> reg_file \<Rightarrow> mc_register" where
  "base_register t f =
     (case f of
       SGPR_file \<Rightarrow> R_SGPR 0 | TTMP_file \<Rightarrow> TTMPBaseReg t | EXEC_file \<Rightarrow> ExecBaseReg t
     | STATUS_file \<Rightarrow> R_SRC_VCCZ | APERTURE_file \<Rightarrow> R_SRC_SHARED_BASE | VGPR_file \<Rightarrow> R_VGPR 0
     | AGPR_file \<Rightarrow> R_AGPR 0 | HW_file \<Rightarrow> R_MODE)"

definition getRegFileKey :: "trace_target \<Rightarrow> file_layout \<Rightarrow> mc_register \<Rightarrow> key_error + reg_key" where
  "getRegFileKey t L Reg =
     (let MCReg = getPhysReg t Reg in
      if MCReg = R_MODE then Inr (HW_file, 0, 2)
      else
        (let IsHi16 = (if IS_HI16 t MCReg then 1 else 0);
             file = (if IS_AGPR t MCReg then AGPR_file else if IS_VGPR t MCReg then VGPR_file else SGPR_file);
             HwIdx = (if file = SGPR_file \<and> \<not> isGFX10Plus t then aliased_idx t L Reg else REG_IDX t MCReg) in
         err_bind (if file = SGPR_file \<and> RegFileSize L SGPR_file div 2 \<le> HwIdx then special_file t L HwIdx else Inr file)
           (\<lambda>file.
             Inr (file, (HwIdx - REG_IDX t (getPhysReg t (base_register t file))) * 2 + IsHi16,
                  getPhysRegisterSize t Reg div 16))))"

text \<open>The accesses of the semantics that name a register.\<close>

definition read_reg :: "trace_target \<Rightarrow> file_layout \<Rightarrow> mc_register \<Rightarrow> llty option \<Rightarrow> key_error + access" where
  "read_reg t L Reg T = err_bind (getRegFileKey t L Reg) (\<lambda>K. Inr (Read K (case T of None \<Rightarrow> IntTy (snd (snd K)) | Some T \<Rightarrow> T)))"

subsection \<open>Calls\<close>

text \<open>The 32-bit registers of a file, and the ranges in the order of the arguments.\<close>

definition slot_keys :: "file_size \<Rightarrow> reg_file \<Rightarrow> reg_key list" where
  "slot_keys Sz f = map (\<lambda>I. (f, I * 2, 2)) [0..<Sz f div 2]"

definition param_keys :: "file_layout \<Rightarrow> reg_key list" where
  "param_keys L = concat (map (slot_keys (RegFileSize L)) (FunctionCallArgOrder L))"

definition computeStandardDeviceFunctionType :: "trace_target \<Rightarrow> nat \<Rightarrow> nat \<Rightarrow> layout_error + llty list" where
  "computeStandardDeviceFunctionType t NumSGPRs NumVGPRs =
     (if NumSGPRs = 0 then Inl NoSGPRs
      else if NumVGPRs = 0 then Inl NoVGPRs
      else
        (let RegFileSize = computeRegFileSizes t NumSGPRs NumVGPRs;
             TotalNumArgs = sum_list (map (\<lambda>f. RegFileSize f div 2) (getRegisterFileArgOrder t)) in
         Inr (replicate TotalNumArgs (IntTy 2))))"

definition emitIndirectTailCall ::
  "file_layout \<Rightarrow> reg_bits \<Rightarrow> (nat \<Rightarrow> reg_state \<Rightarrow> reg_state) \<Rightarrow> reg_state \<Rightarrow> slice_error + half list list \<times> reg_state" where
  "emitIndirectTailCall L Incoming order St =
     run_accesses (RegFileSize L) Incoming order St (map (\<lambda>K. Read K (IntTy 2)) (param_keys L))"

definition seed_file :: "file_size \<Rightarrow> (nat \<Rightarrow> half list) \<Rightarrow> reg_file \<Rightarrow> nat \<times> reg_state \<Rightarrow> nat \<times> reg_state" where
  "seed_file Sz getArg f pos_St =
     (let NumLanes32 = Sz f div 2 in
      (fst pos_St + NumLanes32,
       fold (\<lambda>I. set_value (f, I * 2, 2) (IntTy 2) (getArg (fst pos_St + I))) [0..<NumLanes32] (snd pos_St)))"

definition initDeviceFunctionEntryRegs :: "file_layout \<Rightarrow> half list list \<Rightarrow> reg_state \<Rightarrow> reg_state" where
  "initDeviceFunctionEntryRegs L args St =
     snd (fold (seed_file (RegFileSize L) (\<lambda>i. args ! i)) (FunctionCallArgOrder L) (0, St))"

subsection \<open>Seeding registers\<close>

definition seed_all :: "(reg_key \<times> llty \<times> half list) list \<Rightarrow> reg_state \<Rightarrow> reg_state" where
  "seed_all seeds = fold (\<lambda>(K, T, v). set_value K T v) seeds"

lemma agrees_self: "agrees R R St = entries_ok R St"
  by (simp add: agrees_def)

lemma seed_all_ok:
  assumes "entries_ok R St"
    and "\<And>K T v. (K, T, v) \<in> set seeds \<Longrightarrow> v = bits_of R K \<and> halves_of T = snd (snd K) \<and> 0 < snd (snd K) \<and> \<not> isPtrTy T"
  shows "entries_ok R (seed_all seeds St) \<and> fst ` set (seed_all seeds St) = fst ` set St \<union> fst ` set seeds"
  using assms
proof (induction seeds arbitrary: St)
  case Nil
  then show ?case by (simp add: seed_all_def)
next
  case (Cons s seeds)
  obtain K T v where s: "s = (K, T, v)" by (cases s)
  with Cons.prems(2) [of K T v] have v: "v = bits_of R K" "halves_of T = snd (snd K)" "0 < snd (snd K)" "\<not> isPtrTy T"
    by simp_all
  have "entries_ok R (set_value K T v St)"
    using agrees_set_value [of R R St v K T] Cons.prems(1) v by (simp add: agrees_self)
  moreover have "\<And>K T v. (K, T, v) \<in> set seeds \<Longrightarrow> v = bits_of R K \<and> halves_of T = snd (snd K) \<and> 0 < snd (snd K) \<and> \<not> isPtrTy T"
    using Cons.prems(2) by (meson list.set_intros(2))
  ultimately show ?case using Cons.IH [of "set_value K T v St"] by (simp add: seed_all_def s keys_set_value)
qed

lemma seed_file_seeds:
  "seed_file Sz getArg f (p, St) =
     (p + length (slot_keys Sz f),
      seed_all (map (\<lambda>I. ((f, I * 2, 2), IntTy 2, getArg (p + I))) [0..<length (slot_keys Sz f)]) St)"
  by (simp add: seed_file_def Let_def seed_all_def fold_map comp_def slot_keys_def)

lemma slot_keysD: "K \<in> set (slot_keys Sz f) \<Longrightarrow> fst K = f \<and> snd (snd K) = 2 \<and> fst (snd K) + 2 \<le> 2 * (Sz f div 2)"
  by (auto simp: slot_keys_def)

subsection \<open>What a call passes\<close>

definition passed :: "file_layout \<Rightarrow> reg_bits \<Rightarrow> reg_bits \<Rightarrow> reg_bits" where
  "passed L R Poison b h =
     (if b \<in> set (FunctionCallArgOrder L) \<and> h < 2 * (RegFileSize L b div 2) then R b h else Poison b h)"

lemma passed_slot: "K \<in> set (param_keys L) \<Longrightarrow> bits_of (passed L R Poison) K = bits_of R K"
  by (auto simp: param_keys_def bits_of_def passed_def dest!: slot_keysD split: prod.splits)

lemma seed_files_ok:
  assumes "entries_ok R St" and "map (bits_of R) (concat (map (slot_keys Sz) fs)) = drop p args"
  shows "entries_ok R (snd (fold (seed_file Sz (\<lambda>i. args ! i)) fs (p, St))) \<and>
    fst ` set (snd (fold (seed_file Sz (\<lambda>i. args ! i)) fs (p, St))) =
      fst ` set St \<union> set (concat (map (slot_keys Sz) fs))"
  using assms
proof (induction fs arbitrary: p St)
  case Nil
  then show ?case by simp
next
  case (Cons f fs)
  let ?n = "length (slot_keys Sz f)"
  let ?seeds = "map (\<lambda>I. ((f, I * 2, 2), IntTy 2, args ! (p + I))) [0..<?n]"
  have split: "drop p args = map (bits_of R) (slot_keys Sz f) @ map (bits_of R) (concat (map (slot_keys Sz) fs))"
    using Cons.prems(2) by simp
  have arg: "args ! (p + I) = bits_of R (f, I * 2, 2)" if "I < ?n" for I
  proof -
    have "length (drop p args) = ?n + length (concat (map (slot_keys Sz) fs))" unfolding split by simp
    with that have "p + I < length args" by simp
    then have "args ! (p + I) = drop p args ! I" by simp
    also have "\<dots> = bits_of R (slot_keys Sz f ! I)" unfolding split using that by (simp add: nth_append)
    also have "slot_keys Sz f ! I = (f, I * 2, 2)" using that by (simp add: slot_keys_def)
    finally show ?thesis .
  qed
  have seeds: "v = bits_of R K \<and> halves_of T = snd (snd K) \<and> 0 < snd (snd K) \<and> \<not> isPtrTy T"
    if "(K, T, v) \<in> set ?seeds" for K T v
    using that arg by auto
  have keys: "fst ` set ?seeds = set (slot_keys Sz f)" by (simp add: slot_keys_def image_image)
  have rest: "map (bits_of R) (concat (map (slot_keys Sz) fs)) = drop (p + ?n) args"
    using arg_cong [OF split, of "drop ?n"] by (simp add: add.commute)
  have "entries_ok R (seed_all ?seeds St) \<and> fst ` set (seed_all ?seeds St) = fst ` set St \<union> fst ` set ?seeds"
    using Cons.prems(1) seeds by (rule seed_all_ok)
  then have "entries_ok R (seed_all ?seeds St)" "fst ` set (seed_all ?seeds St) = fst ` set St \<union> set (slot_keys Sz f)"
    unfolding keys by simp_all
  with Cons.IH [OF _ rest, of "seed_all ?seeds St"] show ?case by (simp add: seed_file_seeds Un_assoc)
qed

lemma slots_cover:
  assumes "b \<in> set fs" and "h < 2 * (Sz b div 2)"
  shows "\<exists>K\<in>set (concat (map (slot_keys Sz) fs)). covers K b h"
proof
  have "h div 2 < Sz b div 2" using assms(2) by linarith
  then have "(b, (h div 2) * 2, 2) \<in> set (slot_keys Sz b)" by (auto simp: slot_keys_def)
  with assms(1) show "(b, (h div 2) * 2, 2) \<in> set (concat (map (slot_keys Sz) fs))" by auto
  have "h div 2 * 2 \<le> h \<and> h < h div 2 * 2 + 2" by linarith
  then show "covers (b, (h div 2) * 2, 2) b h" by (simp add: covers_def)
qed

lemma callee_entry_agrees:
  "agrees Poison (passed L R Poison) (initDeviceFunctionEntryRegs L (map (bits_of R) (param_keys L)) [])"
proof -
  let ?R = "passed L R Poison" and ?args = "map (bits_of R) (param_keys L)"
  have "map (bits_of ?R) (concat (map (slot_keys (RegFileSize L)) (FunctionCallArgOrder L))) = drop 0 ?args"
    using passed_slot [of _ L R Poison] by (auto simp: param_keys_def)
  from seed_files_ok [OF _ this, of "[]"] have
    "entries_ok ?R (initDeviceFunctionEntryRegs L ?args [])"
    "fst ` set (initDeviceFunctionEntryRegs L ?args []) = set (param_keys L)"
    by (simp_all add: initDeviceFunctionEntryRegs_def entries_ok_def param_keys_def)
  moreover have "?R b h = Poison b h" if "\<forall>K\<in>set (param_keys L). \<not> covers K b h" for b h
    using that slots_cover [of b "FunctionCallArgOrder L" h "RegFileSize L"] unfolding passed_def param_keys_def by auto
  ultimately show ?thesis by (simp add: agrees_def)
qed

lemma reference_reads_only: "reference_reads R (map (\<lambda>K. Read K (IntTy 2)) Ks) = map (bits_of R) Ks"
  by (induction Ks) simp_all

lemma tail_call_args:
  assumes "agrees Incoming R St" and "reorders order"
    and "accesses_ok (RegFileSize L) Incoming order St (map (\<lambda>K. Read K (IntTy 2)) (param_keys L))"
  shows "\<exists>St'. emitIndirectTailCall L Incoming order St = Inr (map (bits_of R) (param_keys L), St')"
  using run_accesses_exact [OF assms] by (simp add: emitIndirectTailCall_def reference_reads_only)

lemma length_param_keys:
  assumes "initRegFileLayouts t NumSGPRs NumVGPRs = Inr L"
  shows "computeStandardDeviceFunctionType t NumSGPRs NumVGPRs = Inr (replicate (length (param_keys L)) (IntTy 2))"
  using assms
  by (auto simp: initRegFileLayouts_def computeStandardDeviceFunctionType_def param_keys_def slot_keys_def length_concat
      comp_def Let_def split: if_splits prod.splits)

text \<open>
  C32: a call passes the register files: with a register state that agrees with the caller's register files, the
  arguments of the call have the types of the standard prototype, and in the callee every sequence of accesses
  reads what the caller's registers held, for the files that are passed. The other files hold frozen poison.
\<close>

theorem call_passes_register_files:
  assumes "initRegFileLayouts t NumSGPRs NumVGPRs = Inr L" and "agrees Incoming R St" and "reorders order"
    and "accesses_ok (RegFileSize L) Incoming order St (map (\<lambda>K. Read K (IntTy 2)) (param_keys L))"
  shows "\<exists>args St'. emitIndirectTailCall L Incoming order St = Inr (args, St') \<and>
    computeStandardDeviceFunctionType t NumSGPRs NumVGPRs = Inr (map (\<lambda>_. IntTy 2) args) \<and>
    (\<forall>order' as. reorders order' \<and>
       accesses_ok (RegFileSize L) Poison order' (initDeviceFunctionEntryRegs L args []) as \<longrightarrow>
       (\<exists>St''. run_accesses (RegFileSize L) Poison order' (initDeviceFunctionEntryRegs L args []) as =
          Inr (reference_reads (passed L R Poison) as, St'')))"
proof -
  obtain St' where call: "emitIndirectTailCall L Incoming order St = Inr (map (bits_of R) (param_keys L), St')"
    using tail_call_args [OF assms(2-4)] by blast
  have types: "computeStandardDeviceFunctionType t NumSGPRs NumVGPRs =
      Inr (map (\<lambda>_. IntTy 2) (map (bits_of R) (param_keys L)))"
    unfolding length_param_keys [OF assms(1)] by (simp add: map_replicate_const)
  from call types run_accesses_exact [OF callee_entry_agrees] show ?thesis by blast
qed

definition gfx9 :: trace_target where
  "gfx9 =
     \<lparr>isGFX9Plus = True, isGFX10Plus = False, isGFX9_GFX10 = True, isGFX11Plus = False, hasMAIInsts = False,
      isXnackSupported = False, hasFlatScratchInsts = True, getMCReg = (\<lambda>r. r),
      REG_IDX = (\<lambda>r. case r of R_SGPR n \<Rightarrow> n | R_VGPR n \<Rightarrow> n | R_TTMP n \<Rightarrow> 108 + n | R_VCC \<Rightarrow> 106 | R_other n \<Rightarrow> n
        | R_M0 \<Rightarrow> 124 | R_EXEC \<Rightarrow> 126 | R_SRC_SHARED_BASE \<Rightarrow> 235 | R_SRC_VCCZ \<Rightarrow> 251 | R_SRC_SCC \<Rightarrow> 253 | _ \<Rightarrow> 0),
      IS_HI16 = (\<lambda>_. False), IS_AGPR = (\<lambda>_. False), IS_VGPR = (\<lambda>r. case r of R_VGPR _ \<Rightarrow> True | _ \<Rightarrow> False),
      regsOverlap = (\<lambda>r s. r = s \<or> s = R_VCC \<and> (r = R_other 106 \<or> r = R_other 107)),
      RegSizeInBits = (\<lambda>r. if r = R_VCC \<or> r = R_EXEC then 64 else 32)\<rparr>"

definition gfx9_layout :: file_layout where
  "gfx9_layout =
     \<lparr>RegFileSize = computeRegFileSizes gfx9 8 1, FunctionCallArgOrder = getRegisterFileArgOrder gfx9,
      VccLoSgpr = R_SGPR 6, XnackMaskLoSgpr = R_NoRegister, FlatScrLoSgpr = R_SGPR 4\<rparr>"

lemma gfx9_layout_built: "initRegFileLayouts gfx9 8 1 = Inr gfx9_layout"
  by (simp add: initRegFileLayouts_def gfx9_layout_def gfx9_def reserveLoPair_def)

definition pair_written :: reg_state where
  "pair_written = [((SGPR_file, 0, 4), [(IntTy 4, [1, 2, 3, 4])])]"

lemma call_passes_register_files_witness:
  "\<exists>args St'. emitIndirectTailCall gfx9_layout (\<lambda>_ h. word_of_nat h) (\<lambda>_. rev) pair_written = Inr (args, St') \<and>
     length args = 32 \<and>
     (\<exists>St''. run_accesses (RegFileSize gfx9_layout) (\<lambda>_ _. 0) (\<lambda>_. rev) (initDeviceFunctionEntryRegs gfx9_layout args [])
       [Read (SGPR_file, 0, 4) (IntTy 4), Read (VGPR_file, 0, 2) (FpTy 2)] = Inr ([[1, 2, 3, 4], [0, 1]], St''))"
proof -
  let ?Inc = "\<lambda>_ h. word_of_nat h" and ?as = "[Read (SGPR_file, 0, 4) (IntTy 4), Read (VGPR_file, 0, 2) (FpTy 2)]"
  let ?R = "write_bits ?Inc (SGPR_file, 0, 4) [1, 2, 3, 4]" and ?Sz = "RegFileSize gfx9_layout"
  let ?args = "map (bits_of ?R) (param_keys gfx9_layout)"
  have "write_ok ?Sz [] (SGPR_file, 0, 4) (IntTy 4) [1, 2, 3, 4]" by code_simp
  with agrees_empty obtain St where "setRegOperandValue ?Sz [] (SGPR_file, 0, 4) (IntTy 4) [1, 2, 3, 4] = Inr St"
    "agrees ?Inc ?R St" by (rule write_step)
  moreover have "setRegOperandValue ?Sz [] (SGPR_file, 0, 4) (IntTy 4) [1, 2, 3, 4] = Inr pair_written" by code_simp
  ultimately have ag: "agrees ?Inc ?R pair_written" by simp
  have order: "reorders (\<lambda>_. rev)" by (simp add: reorders_def rev_map [symmetric])
  have ok: "accesses_ok ?Sz ?Inc (\<lambda>_. rev) pair_written (map (\<lambda>K. Read K (IntTy 2)) (param_keys gfx9_layout))"
    by code_simp
  obtain args St' where call: "emitIndirectTailCall gfx9_layout ?Inc (\<lambda>_. rev) pair_written = Inr (args, St')"
    and callee: "\<And>order' as. reorders order' \<Longrightarrow>
      accesses_ok ?Sz (\<lambda>_ _. 0) order' (initDeviceFunctionEntryRegs gfx9_layout args []) as \<Longrightarrow>
      \<exists>St''. run_accesses ?Sz (\<lambda>_ _. 0) order' (initDeviceFunctionEntryRegs gfx9_layout args []) as =
        Inr (reference_reads (passed gfx9_layout ?R (\<lambda>_ _. 0)) as, St'')"
    using call_passes_register_files [OF gfx9_layout_built ag order ok, of "\<lambda>_ _. 0"] by blast
  have "emitIndirectTailCall gfx9_layout ?Inc (\<lambda>_. rev) pair_written = Inr (?args, St')"
    using tail_call_args [OF ag order ok] call by auto
  with call have args: "args = ?args" by simp
  have "accesses_ok ?Sz (\<lambda>_ _. 0) (\<lambda>_. rev) (initDeviceFunctionEntryRegs gfx9_layout ?args []) ?as" by code_simp
  moreover have "reference_reads (passed gfx9_layout ?R (\<lambda>_ _. 0)) ?as = [[1, 2, 3, 4], [0, 1]]" by code_simp
  moreover have "length ?args = 32" by code_simp
  ultimately show ?thesis using call callee [OF order, of ?as] unfolding args by auto
qed

subsection \<open>What a call does not pass\<close>

text \<open>The aperture registers are passed on targets without them only, the MODE register nowhere.\<close>

lemma unpassed_files:
  assumes "initRegFileLayouts t NumSGPRs NumVGPRs = Inr L"
    and "isGFX9_GFX10 t \<longrightarrow> isGFX9Plus t" and "isGFX11Plus t \<longrightarrow> isGFX9Plus t" and "f = APERTURE_file \<or> f = HW_file"
  shows "passed L R Poison f = Poison f"
  using assms
  by (auto simp: initRegFileLayouts_def passed_def getRegisterFileArgOrder_def computeRegFileSizes_def Let_def fun_eq_iff
      split: if_splits prod.splits)

text \<open>
  C33: the aperture registers and MODE do not reach a called function: whatever their contents in the caller,
  the callee finds frozen poison in them, although GFX9 and later targets have the apertures. The test for the
  generation that adds the apertures to the arguments is inverted, and MODE is in no list.
\<close>

theorem apertures_and_mode_are_not_passed:
  assumes "initRegFileLayouts t NumSGPRs NumVGPRs = Inr L"
    and "isGFX9_GFX10 t \<longrightarrow> isGFX9Plus t" and "isGFX11Plus t \<longrightarrow> isGFX9Plus t" and "fst K = APERTURE_file \<or> fst K = HW_file"
    and "in_range (RegFileSize L) K" "0 < snd (snd K)"
  shows "\<exists>St. run_accesses (RegFileSize L) Poison (\<lambda>_ St. St)
      (initDeviceFunctionEntryRegs L (map (bits_of R) (param_keys L)) []) [Read K (IntTy (snd (snd K)))] =
    Inr ([bits_of Poison K], St)"
proof -
  let ?St = "initDeviceFunctionEntryRegs L (map (bits_of R) (param_keys L)) []"
  have bits: "bits_of (passed L R Poison) K = bits_of Poison K"
    using unpassed_files [OF assms(1-3), of "fst K" R Poison] assms(4) by (auto simp: bits_of_def split: prod.splits)
  have keys: "S \<in> set (param_keys L)" if "S \<in> fst ` set ?St" for S
    using that seed_files_ok [of R "[]" "RegFileSize L" "FunctionCallArgOrder L" 0 "map (bits_of R) (param_keys L)"]
    by (simp add: initDeviceFunctionEntryRegs_def param_keys_def entries_ok_def)
  have no_entry: "fst S \<noteq> fst K" if "S \<in> fst ` set ?St" for S
    using keys [OF that] assms
    by (auto simp: param_keys_def initRegFileLayouts_def getRegisterFileArgOrder_def slot_keys_def computeRegFileSizes_def Let_def
        split: if_splits prod.splits)
  have "overlap_with K x = None" if "x \<in> set ?St" for x
    using no_entry [OF imageI [OF that]] by (cases x) (auto simp: overlap_with_def split: prod.splits)
  then have "set (List.map_filter (overlap_with K) ?St) = {}" unfolding set_map_filter by fastforce
  then have "overlaps_of ?St K = []" by (simp add: overlaps_of_def)
  moreover have "map_of ?St K = None" using no_entry by (force simp: map_of_eq_None_iff)
  ultimately have "accesses_ok (RegFileSize L) Poison (\<lambda>_ St. St) ?St [Read K (IntTy (snd (snd K)))]"
    using assms(5,6) by (simp add: read_ok_def split: sum.splits prod.splits)
  from run_accesses_exact [OF callee_entry_agrees _ this] bits show ?thesis by (simp add: reorders_def)
qed

lemma apertures_and_mode_are_not_passed_witness:
  "\<exists>St. run_accesses (RegFileSize gfx9_layout) (\<lambda>_ _. 7) (\<lambda>_ St. St)
     (initDeviceFunctionEntryRegs gfx9_layout (map (bits_of (\<lambda>_ _. 5)) (param_keys gfx9_layout)) [])
     [Read (APERTURE_file, 0, 2) (IntTy 2)] = Inr ([[7, 7]], St)"
  using apertures_and_mode_are_not_passed [OF gfx9_layout_built, of "(APERTURE_file, 0, 2)" "\<lambda>_ _. 7" "\<lambda>_ _. 5"]
  by (simp add: gfx9_def gfx9_layout_def computeRegFileSizes_def in_range_def bits_of_def upt_rec)

subsection \<open>Keys and hardware registers\<close>

definition hw_class :: "trace_target \<Rightarrow> mc_register \<Rightarrow> reg_file" where
  "hw_class t Reg =
     (if IS_AGPR t (getPhysReg t Reg) then AGPR_file else if IS_VGPR t (getPhysReg t Reg) then VGPR_file else SGPR_file)"

definition hw_start :: "trace_target \<Rightarrow> mc_register \<Rightarrow> nat" where
  "hw_start t Reg = 2 * REG_IDX t (getPhysReg t Reg) + (if IS_HI16 t (getPhysReg t Reg) then 1 else 0)"

text \<open>Two registers share a 16-bit half of the hardware's register space of their class.\<close>

definition hw_overlap :: "trace_target \<Rightarrow> mc_register \<Rightarrow> mc_register \<Rightarrow> bool" where
  "hw_overlap t A B \<longleftrightarrow>
     hw_class t A = hw_class t B \<and>
     \<not> (hw_start t A + getPhysRegisterSize t A div 16 \<le> hw_start t B \<or>
        hw_start t B + getPhysRegisterSize t B div 16 \<le> hw_start t A)"

abbreviation file_idx :: "trace_target \<Rightarrow> reg_file \<Rightarrow> nat" where
  "file_idx t f \<equiv> REG_IDX t (getPhysReg t (base_register t f))"

text \<open>The files of the scalar encoding space lie one behind the other.\<close>

definition encoding_ok :: "trace_target \<Rightarrow> file_layout \<Rightarrow> bool" where
  "encoding_ok t L \<longleftrightarrow>
     file_idx t SGPR_file = 0 \<and> file_idx t VGPR_file = 0 \<and> file_idx t AGPR_file = 0 \<and>
     RegFileSize L SGPR_file \<le> 2 * file_idx t TTMP_file \<and>
     2 * file_idx t TTMP_file + RegFileSize L TTMP_file \<le> 2 * file_idx t EXEC_file \<and>
     2 * file_idx t EXEC_file + RegFileSize L EXEC_file \<le> 2 * file_idx t APERTURE_file \<and>
     2 * file_idx t APERTURE_file + RegFileSize L APERTURE_file \<le> 2 * file_idx t STATUS_file"

text \<open>A register that does not stand for one of the reserved scalar registers.\<close>

definition plain_register :: "trace_target \<Rightarrow> mc_register \<Rightarrow> bool" where
  "plain_register t Reg \<longleftrightarrow>
     getPhysReg t Reg \<noteq> R_MODE \<and>
     (isGFX10Plus t \<or> \<not> regsOverlap t Reg R_VCC \<and> \<not> regsOverlap t Reg R_XNACK_MASK \<and> \<not> regsOverlap t Reg R_FLAT_SCR)"

lemma special_file_base:
  "special_file t L i = Inr f \<Longrightarrow> file_idx t f \<le> i \<and> f \<in> {STATUS_file, EXEC_file, TTMP_file, APERTURE_file}"
  by (auto simp: special_file_def Let_def base_register_def split: if_splits)

lemma plain_key:
  assumes "getRegFileKey t L Reg = Inr K" and "plain_register t Reg" and "encoding_ok t L"
  obtains f where "K = (f, hw_start t Reg - 2 * file_idx t f, getPhysRegisterSize t Reg div 16)"
    "2 * file_idx t f \<le> hw_start t Reg"
    "hw_class t Reg = (if f \<in> {VGPR_file, AGPR_file} then f else SGPR_file)" "f \<noteq> HW_file"
proof -
  let ?idx = "REG_IDX t (getPhysReg t Reg)"
  have idx: "aliased_idx t L Reg = ?idx" if "\<not> isGFX10Plus t"
    using assms(2) that by (simp add: aliased_idx_def plain_register_def)
  let ?special = "hw_class t Reg = SGPR_file \<and> RegFileSize L SGPR_file div 2 \<le> ?idx"
  have "err_bind (if ?special then special_file t L ?idx else Inr (hw_class t Reg))
      (\<lambda>f. Inr (f, (?idx - file_idx t f) * 2 + (if IS_HI16 t (getPhysReg t Reg) then 1 else 0),
        getPhysRegisterSize t Reg div 16)) = Inr K"
    using assms(1,2) idx by (auto simp: getRegFileKey_def plain_register_def hw_class_def Let_def split: if_splits)
  then obtain f where f: "(if ?special then special_file t L ?idx else Inr (hw_class t Reg)) = Inr f"
    and K: "K = (f, (?idx - file_idx t f) * 2 + (if IS_HI16 t (getPhysReg t Reg) then 1 else 0),
        getPhysRegisterSize t Reg div 16)"
    by (auto simp: err_bind_Inr_iff)
  have base: "file_idx t f \<le> ?idx \<and> hw_class t Reg = (if f \<in> {VGPR_file, AGPR_file} then f else SGPR_file) \<and> f \<noteq> HW_file"
  proof (cases ?special)
    case True
    with f have "special_file t L ?idx = Inr f" by simp
    from special_file_base [OF this] True show ?thesis by auto
  next
    case False
    with f have "f = hw_class t Reg" by (simp split: if_splits)
    then show ?thesis using assms(3) by (auto simp: hw_class_def encoding_ok_def)
  qed
  then have "K = (f, hw_start t Reg - 2 * file_idx t f, getPhysRegisterSize t Reg div 16)"
    using K by (cases "IS_HI16 t (getPhysReg t Reg)") (auto simp: hw_start_def)
  then show thesis by (rule that) (use base in \<open>simp_all add: hw_start_def\<close>)
qed

lemma files_apart:
  assumes "encoding_ok t L" and "f \<noteq> g" and "f \<notin> {VGPR_file, AGPR_file, HW_file}" "g \<notin> {VGPR_file, AGPR_file, HW_file}"
  shows "2 * file_idx t f + RegFileSize L f \<le> 2 * file_idx t g \<or> 2 * file_idx t g + RegFileSize L g \<le> 2 * file_idx t f"
  using assms unfolding encoding_ok_def by (cases f; cases g) auto



text \<open>Registers for which the keys do not follow the hardware.\<close>

lemma vcc_halves_share_a_key:
  assumes "\<not> isGFX10Plus t" and "regsOverlap t Lo R_VCC" "regsOverlap t Hi R_VCC"
    and "\<And>r. r \<in> {Lo, Hi} \<Longrightarrow> hw_class t r = SGPR_file \<and> getPhysReg t r \<noteq> R_MODE \<and> \<not> IS_HI16 t (getPhysReg t r)"
    and "getPhysRegisterSize t Lo = getPhysRegisterSize t Hi"
  shows "getRegFileKey t L Lo = getRegFileKey t L Hi"
  using assms(4) [of Lo] assms(4) [of Hi] assms(1-3,5)
  by (auto simp: getRegFileKey_def hw_class_def aliased_idx_def Let_def split: if_splits)

text \<open>Where the null register is encoded behind M0, M0 is in no file.\<close>

lemma M0_before_null_has_no_file:
  assumes "isGFX10Plus t" and "REG_IDX t (getPhysReg t R_M0) = 124" and "REG_IDX t (getPhysReg t R_SGPR_NULL) = 125"
    and "isGFX9Plus t" and "REG_IDX t (getPhysReg t (R_TTMP 0)) = 108" and "REG_IDX t (getPhysReg t R_SRC_SHARED_BASE) = 235"
    and "REG_IDX t (getPhysReg t R_SRC_VCCZ) = 251" and "RegFileSize L SGPR_file \<le> 216"
    and "hw_class t R_M0 = SGPR_file" and "getPhysReg t R_M0 \<noteq> R_MODE"
  shows "getRegFileKey t L R_M0 = Inl NotInAnyFile"
  using assms by (simp add: getRegFileKey_def hw_class_def special_file_def Let_def ExecBaseReg_def TTMPBaseReg_def split: if_splits)

subsection \<open>Accesses through an index\<close>

text \<open>
  With \<open>MODE.GPR_IDX_EN\<close> an instruction accesses the VGPR that lies \<open>M0[7:0]\<close> behind the one it names. The
  lifted code selects among all registers up to the end of the file.
\<close>

definition i32_of :: "half list \<Rightarrow> 32 word" where
  "i32_of v = (ucast (v ! 0) :: 32 word) OR push_bit 16 (ucast (v ! 1))"

definition GPR_IDX_EN :: "half list \<Rightarrow> bool" where
  "GPR_IDX_EN Mode = (drop_bit 27 (i32_of Mode) AND 1 = 1)"

definition M0_Idx :: "half list \<Rightarrow> 32 word" where
  "M0_Idx M0 = i32_of M0 AND 0xFF"

abbreviation slot_key :: "reg_key \<Rightarrow> nat \<Rightarrow> reg_key" where
  "slot_key K k \<equiv> (fst K, fst (snd K) + 2 * k, 2)"

definition NumSlots :: "file_size \<Rightarrow> reg_key \<Rightarrow> nat" where
  "NumSlots Sz K = (Sz (fst K) - fst (snd K)) div 2"

definition indexed_reads :: "file_size \<Rightarrow> reg_key \<Rightarrow> reg_key \<Rightarrow> reg_key \<Rightarrow> llty \<Rightarrow> access list" where
  "indexed_reads Sz ModeK M0K K OutType =
     [Read ModeK (IntTy 2), Read M0K (IntTy 2), Read K OutType] @
     map (\<lambda>k. Read (slot_key K k) (IntTy 2)) [1..<NumSlots Sz K]"

definition emitIndexedVGPRSrc ::
  "file_size \<Rightarrow> reg_bits \<Rightarrow> (nat \<Rightarrow> reg_state \<Rightarrow> reg_state) \<Rightarrow> reg_state \<Rightarrow> reg_key \<Rightarrow> reg_key \<Rightarrow> reg_key \<Rightarrow> llty \<Rightarrow>
    slice_error + half list \<times> reg_state" where
  "emitIndexedVGPRSrc Sz Incoming order St ModeK M0K K OutType =
     err_bind (run_accesses Sz Incoming order St (indexed_reads Sz ModeK M0K K OutType)) (\<lambda>(vs, St).
       case vs of
         Mode # M0 # Acc # Slots \<Rightarrow>
           Inr (fold (\<lambda>(k, Slot) Acc. if GPR_IDX_EN Mode \<and> M0_Idx M0 = word_of_nat k then Slot else Acc)
                 (zip [1..<NumSlots Sz K] Slots) Acc, St)
       | _ \<Rightarrow> Inr ([], St))"

fun write_slots ::
  "file_size \<Rightarrow> reg_bits \<Rightarrow> (nat \<Rightarrow> reg_state \<Rightarrow> reg_state) \<Rightarrow> reg_key \<Rightarrow> 32 word \<Rightarrow> half list \<Rightarrow> nat list \<Rightarrow> reg_state \<Rightarrow>
    slice_error + reg_state" where
  "write_slots Sz Incoming order K FinalIdx ValI32 [] St = Inr St"
| "write_slots Sz Incoming order K FinalIdx ValI32 (k # ks) St =
     err_bind (getOperandAsValue Sz Incoming (order (Suc (2 * length ks)) St) (slot_key K k) (IntTy 2)) (\<lambda>(OldVal, St).
     err_bind (setRegOperandValue Sz (order (2 * length ks) St) (slot_key K k) (IntTy 2)
                (if FinalIdx = word_of_nat k then ValI32 else OldVal))
       (write_slots Sz Incoming order K FinalIdx ValI32 ks))"

definition emitIndexedVGPRDst ::
  "file_size \<Rightarrow> reg_bits \<Rightarrow> (nat \<Rightarrow> reg_state \<Rightarrow> reg_state) \<Rightarrow> reg_state \<Rightarrow> reg_key \<Rightarrow> reg_key \<Rightarrow> reg_key \<Rightarrow> half list \<Rightarrow>
    slice_error + reg_state" where
  "emitIndexedVGPRDst Sz Incoming order St ModeK M0K K Val =
     (let n = 2 * NumSlots Sz K in
      err_bind (getOperandAsValue Sz Incoming (order (Suc n) St) ModeK (IntTy 2)) (\<lambda>(Mode, St).
      err_bind (getOperandAsValue Sz Incoming (order n St) M0K (IntTy 2)) (\<lambda>(M0, St).
        write_slots Sz Incoming order K (if GPR_IDX_EN Mode then M0_Idx M0 else 0) (resize 2 Val) [0..<NumSlots Sz K] St)))"

text \<open>The register that the hardware accesses.\<close>

definition hw_index :: "reg_bits \<Rightarrow> reg_key \<Rightarrow> reg_key \<Rightarrow> nat" where
  "hw_index R ModeK M0K = (if GPR_IDX_EN (bits_of R ModeK) then unat (M0_Idx (bits_of R M0K)) else 0)"

definition indexed_key :: "file_size \<Rightarrow> reg_bits \<Rightarrow> reg_key \<Rightarrow> reg_key \<Rightarrow> reg_key \<Rightarrow> reg_key" where
  "indexed_key Sz R ModeK M0K K =
     (if hw_index R ModeK M0K < NumSlots Sz K then slot_key K (hw_index R ModeK M0K) else K)"

definition indexed_accesses :: "file_size \<Rightarrow> reg_bits \<Rightarrow> reg_key \<Rightarrow> 32 word \<Rightarrow> half list \<Rightarrow> nat list \<Rightarrow> access list" where
  "indexed_accesses Sz R K FinalIdx v ks =
     concat (map (\<lambda>k. [Read (slot_key K k) (IntTy 2),
       Write (slot_key K k) (IntTy 2) (if FinalIdx = word_of_nat k then v else bits_of R (slot_key K k))]) ks)"

lemma word_of_nat_iff: "k < 2 ^ 32 \<Longrightarrow> w = (word_of_nat k :: 32 word) \<longleftrightarrow> unat w = k"
  by (auto simp: unat_of_nat take_bit_nat_eq_self)

lemma select_chain:
  assumes "\<forall>k\<in>set ks. k < 2 ^ 32"
  shows "fold (\<lambda>(k, Slot) Acc. if En \<and> w = (word_of_nat k :: 32 word) then Slot else Acc) (zip ks (map f ks)) Acc =
    (if En \<and> unat w \<in> set ks then f (unat w) else Acc)"
  using assms
proof (induction ks arbitrary: Acc)
  case (Cons k ks)
  then have "w = word_of_nat k \<longleftrightarrow> unat w = k" using word_of_nat_iff [of k w] by simp
  with Cons show ?case by auto
qed simp

lemma reference_reads_append_reads:
  "reference_reads R (map (\<lambda>k. Read (f k) (g k)) ks) = map (\<lambda>k. bits_of R (f k)) ks"
  by (induction ks) simp_all


lemma write_own_bits: "write_bits R K (bits_of R K) = R"
  by (auto simp: write_bits_def bits_of_def covers_def fun_eq_iff split: prod.splits)

lemma slots_apart: "k \<noteq> j \<Longrightarrow> \<not> overlapping (slot_key K k) (slot_key K j)"
  by (auto simp: overlapping_def)

lemma indexed_accesses_cong:
  "(\<And>k. k \<in> set ks \<Longrightarrow> bits_of R (slot_key K k) = bits_of R' (slot_key K k)) \<Longrightarrow>
   indexed_accesses Sz R K w v ks = indexed_accesses Sz R' K w v ks"
  by (induction ks) (simp_all add: indexed_accesses_def)

lemma write_slots_exact:
  assumes "agrees Incoming R St" and "reorders order" and "distinct ks" "\<forall>k\<in>set ks. k < 2 ^ 32"
    and "accesses_ok Sz Incoming order St (indexed_accesses Sz R K FinalIdx v ks)"
  shows "\<exists>St'. write_slots Sz Incoming order K FinalIdx v ks St = Inr St' \<and>
    agrees Incoming (if unat FinalIdx \<in> set ks then write_bits R (slot_key K (unat FinalIdx)) v else R) St'"
  using assms(1,3-)
proof (induction ks arbitrary: R St)
  case Nil
  then show ?case by simp
next
  case (Cons k ks)
  let ?K = "slot_key K k"
  let ?w = "if FinalIdx = word_of_nat k then v else bits_of R ?K"
  let ?R = "write_bits R ?K ?w"
  have len: "length (indexed_accesses Sz R K FinalIdx v ks) = 2 * length ks"
    by (induction ks) (simp_all add: indexed_accesses_def)
  have accs: "indexed_accesses Sz R K FinalIdx v (k # ks) =
      Read ?K (IntTy 2) # Write ?K (IntTy 2) ?w # indexed_accesses Sz R K FinalIdx v ks"
    by (simp add: indexed_accesses_def)
  note ok = Cons.prems(4) [unfolded accs accesses_ok.simps]
  have "read_ok Sz Incoming (order (Suc (2 * length ks)) St) ?K (IntTy 2)" using ok by (simp add: len)
  with agrees_reorder [OF Cons.prems(1) assms(2)] obtain St1 where
    r: "getOperandAsValue Sz Incoming (order (Suc (2 * length ks)) St) ?K (IntTy 2) = Inr (bits_of R ?K, St1)" "agrees Incoming R St1"
    by (rule read_step)
  have "write_ok Sz (order (2 * length ks) St1) ?K (IntTy 2) ?w" using ok r(1) by (simp add: len)
  with agrees_reorder [OF r(2) assms(2)] obtain St2 where
    w: "setRegOperandValue Sz (order (2 * length ks) St1) ?K (IntTy 2) ?w = Inr St2" "agrees Incoming ?R St2"
    by (rule write_step)
  have "indexed_accesses Sz ?R K FinalIdx v ks = indexed_accesses Sz R K FinalIdx v ks"
  proof (rule indexed_accesses_cong)
    fix j assume "j \<in> set ks"
    with Cons.prems(2) have "j \<noteq> k" by auto
    then show "bits_of ?R (slot_key K j) = bits_of R (slot_key K j)" by (intro bits_of_write_other slots_apart)
  qed
  then have ok2: "accesses_ok Sz Incoming order St2 (indexed_accesses Sz ?R K FinalIdx v ks)"
    using ok r(1) w(1) by (simp add: len)
  from Cons.IH [OF w(2) _ _ ok2] Cons.prems(2,3) obtain St3 where
    St3: "write_slots Sz Incoming order K FinalIdx v ks St2 = Inr St3"
      "agrees Incoming (if unat FinalIdx \<in> set ks then write_bits ?R (slot_key K (unat FinalIdx)) v else ?R) St3"
    by auto
  have idx: "FinalIdx = word_of_nat k \<longleftrightarrow> unat FinalIdx = k" using Cons.prems(3) word_of_nat_iff by simp
  have "(if unat FinalIdx \<in> set ks then write_bits ?R (slot_key K (unat FinalIdx)) v else ?R) =
      (if unat FinalIdx \<in> set (k # ks) then write_bits R (slot_key K (unat FinalIdx)) v else R)"
    using Cons.prems(2) idx by (auto simp: write_own_bits)
  from St3(2) [unfolded this]
  have "agrees Incoming (if unat FinalIdx \<in> set (k # ks) then write_bits R (slot_key K (unat FinalIdx)) v else R) St3" .
  moreover have "write_slots Sz Incoming order K FinalIdx v (k # ks) St = Inr St3" using r(1) w(1) St3(1) by simp
  ultimately show ?case by blast
qed


definition indexed_regs :: reg_bits where
  "indexed_regs b h =
     (if b = HW_file \<and> h = 1 then 0x0800 else if b = EXEC_file \<and> h = 0 then 2
      else if b = VGPR_file then word_of_nat h else 0)"



subsection \<open>The MODE register\<close>

record fn_attrs =
  denormal_fp_math_f32 :: "string option"
  denormal_fp_math :: "string option"
  amdgpu_dx10_clamp :: "string option"
  amdgpu_ieee :: "string option"

text \<open>\<open>SIModeRegisterDefaults\<close>, the subtarget's defaults.\<close>

record mode_defaults =
  fpDenormModeSPValue :: "32 word"
  fpDenormModeDPValue :: "32 word"
  DX10Clamp :: bool
  IEEE :: bool

definition is_space :: "char \<Rightarrow> bool" where
  "is_space c = (c \<in> {CHR '' '', CHR 0x09, CHR 0x0A, CHR 0x0B, CHR 0x0C, CHR 0x0D})"

definition trim :: "string \<Rightarrow> string" where
  "trim s = rev (dropWhile is_space (rev (dropWhile is_space s)))"

text \<open>\<open>FP_DENORM_FLUSH_IN_FLUSH_OUT\<close> is 0, \<open>FP_DENORM_FLUSH_OUT\<close> 1, \<open>FP_DENORM_FLUSH_IN\<close> 2, \<open>FP_DENORM_FLUSH_NONE\<close> 3.\<close>

definition decodeDenormAttr :: "string \<Rightarrow> 32 word" where
  "decodeDenormAttr AttrVal =
     (let OutStr = trim (takeWhile (\<lambda>c. c \<noteq> CHR '','') AttrVal);
          InStr = trim (drop 1 (dropWhile (\<lambda>c. c \<noteq> CHR '','') AttrVal));
          OutFlush = (OutStr = ''preserve-sign'');
          InFlush = (if InStr = [] then OutFlush else InStr = ''preserve-sign'') in
      if InFlush \<and> OutFlush then 0 else if OutFlush then 1 else if InFlush then 2 else 3)"

definition flag_attr :: "string option \<Rightarrow> bool \<Rightarrow> bool" where
  "flag_attr A Default = (case A of Some v \<Rightarrow> v = ''true'' | None \<Rightarrow> Default)"

definition denorm_attr :: "string option \<Rightarrow> 32 word \<Rightarrow> 32 word" where
  "denorm_attr A Default = (case A of Some v \<Rightarrow> decodeDenormAttr v | None \<Rightarrow> Default)"

definition buildInitialModeValue :: "bool \<Rightarrow> bool \<Rightarrow> fn_attrs \<Rightarrow> mode_defaults \<Rightarrow> 32 word" where
  "buildInitialModeValue GFX12Plus GFX10Plus F Defaults =
     (let Mode = push_bit 4 (denorm_attr (denormal_fp_math_f32 F) (fpDenormModeSPValue Defaults) AND 3);
          Mode = Mode OR push_bit 6 (denorm_attr (denormal_fp_math F) (fpDenormModeDPValue Defaults) AND 3);
          Mode = (if \<not> GFX12Plus \<and> flag_attr (amdgpu_dx10_clamp F) (DX10Clamp Defaults) then Mode OR push_bit 8 1 else Mode);
          Mode = (if \<not> GFX12Plus \<and> flag_attr (amdgpu_ieee F) (IEEE Defaults) then Mode OR push_bit 9 1 else Mode) in
      if \<not> GFX10Plus
      then ((Mode AND NOT (push_bit 27 1)) AND NOT (push_bit 28 1)) AND NOT (push_bit 29 7)
      else Mode)"

subsection \<open>Fields of hardware registers\<close>

record decoded_hwreg =
  hw_Id :: nat
  hw_Offset :: nat
  hw_Width :: nat

definition decodeHwregEncoding :: "64 word \<Rightarrow> decoded_hwreg" where
  "decodeHwregEncoding Enc =
     \<lparr>hw_Id = unat (Enc AND 0x3F), hw_Offset = unat (drop_bit 6 Enc AND 0x1F),
      hw_Width = unat (drop_bit 11 Enc AND 0x1F) + 1\<rparr>"

definition FieldMask :: "decoded_hwreg \<Rightarrow> 32 word" where
  "FieldMask D = (if 32 \<le> hw_Width D then NOT 0 else push_bit (hw_Width D) 1 - 1)"

definition fold_getreg :: "decoded_hwreg \<Rightarrow> 32 word \<Rightarrow> 32 word" where
  "fold_getreg D RegVal = drop_bit (hw_Offset D) RegVal AND FieldMask D"

definition fold_setreg :: "decoded_hwreg \<Rightarrow> 32 word \<Rightarrow> 32 word \<Rightarrow> 32 word" where
  "fold_setreg D RegVal Src =
     (RegVal AND NOT (push_bit (hw_Offset D) (FieldMask D))) OR push_bit (hw_Offset D) (Src AND FieldMask D)"

lemma FieldMask_mask: "FieldMask D = mask (hw_Width D)"
proof (cases "32 \<le> hw_Width D")
  case True
  then have "mask (hw_Width D) = (NOT 0 :: 32 word)" by (intro bit_word_eqI) (simp add: bit_simps)
  with True show ?thesis by (simp add: FieldMask_def)
next
  case False
  then show ?thesis by (simp add: FieldMask_def mask_eq_exp_minus_1 push_bit_eq_mult)
qed

lemma bit_getreg: "bit (fold_getreg D v) n \<longleftrightarrow> n < hw_Width D \<and> hw_Offset D + n < 32 \<and> bit v (hw_Offset D + n)"
  by (auto simp: fold_getreg_def FieldMask_mask bit_simps dest: bit_imp_le_length)

lemma bit_setreg: "n < 32 \<Longrightarrow> bit (fold_setreg D v src) n \<longleftrightarrow>
   (if hw_Offset D \<le> n \<and> n < hw_Offset D + hw_Width D then bit src (n - hw_Offset D) else bit v n)"
  by (auto simp: fold_setreg_def FieldMask_mask bit_simps)

lemma decoded_width: "1 \<le> hw_Width (decodeHwregEncoding Enc) \<and> hw_Width (decodeHwregEncoding Enc) \<le> 32"
proof -
  have "unat (drop_bit 11 Enc AND 0x1F) \<le> unat (0x1F :: 64 word)"
    by (rule word_le_nat_alt [THEN iffD1]) (rule word_and_le1)
  then show ?thesis by (simp add: decodeHwregEncoding_def)
qed

text \<open>
  C37: the folded accesses to a hardware register are field accesses: a set changes the bits of the field and no
  other, what a get returns after a set is the value that was set, cut to the width of the field, and a get of a
  field that the set does not touch returns what it did before.
\<close>

theorem hwreg_fields:
  assumes "hw_Offset D + hw_Width D \<le> 32"
  shows "fold_getreg D (fold_setreg D v src) = src AND mask (hw_Width D) \<and>
    (\<forall>E. hw_Offset E + hw_Width E \<le> hw_Offset D \<or> hw_Offset D + hw_Width D \<le> hw_Offset E \<longrightarrow>
      fold_getreg E (fold_setreg D v src) = fold_getreg E v)"
proof (intro conjI allI impI)
  show "fold_getreg D (fold_setreg D v src) = src AND mask (hw_Width D)"
    using assms by (intro bit_word_eqI) (auto simp: bit_getreg bit_setreg bit_simps)
next
  fix E :: decoded_hwreg
  assume apart: "hw_Offset E + hw_Width E \<le> hw_Offset D \<or> hw_Offset D + hw_Width D \<le> hw_Offset E"
  show "fold_getreg E (fold_setreg D v src) = fold_getreg E v"
    using apart by (intro bit_word_eqI) (auto simp: bit_getreg bit_setreg)
qed

lemma hwreg_fields_witness:
  "fold_getreg (decodeHwregEncoding 0x1901) (fold_setreg (decodeHwregEncoding 0x1901) 0x3F0 0x15) = 5 \<and>
   fold_getreg (decodeHwregEncoding 0x1A01) (fold_setreg (decodeHwregEncoding 0x1901) 0x3F0 0x15) = 3"
proof -
  let ?D = "decodeHwregEncoding 0x1901" and ?E = "decodeHwregEncoding 0x1A01"
  have D: "?D = \<lparr>hw_Id = 1, hw_Offset = 4, hw_Width = 4\<rparr>" "?E = \<lparr>hw_Id = 1, hw_Offset = 8, hw_Width = 4\<rparr>"
    by (simp_all add: decodeHwregEncoding_def)
  have "fold_getreg ?E 0x3F0 = 3" by (simp add: D fold_getreg_def FieldMask_def)
  moreover have "(0x15 AND mask 4 :: 32 word) = 5" by (simp add: mask_eq_exp_minus_1)
  ultimately show ?thesis using hwreg_fields [of ?D "0x3F0" "0x15"] by (simp add: D)
qed

text \<open>What a function finds in the fields of MODE at entry.\<close>

lemma bit_and_3: "bit (w AND 3 :: 32 word) n \<longleftrightarrow> n < 2 \<and> bit w n"
proof -
  have "(3 :: 32 word) = mask 2" by (simp add: mask_eq_exp_minus_1)
  show ?thesis unfolding \<open>3 = mask 2\<close> by (auto simp: bit_simps dest: bit_imp_le_length)
qed

lemma entry_mode_fields:
  fixes F Defaults G12 G10
  defines "m \<equiv> buildInitialModeValue G12 G10 F Defaults"
  shows "fold_getreg \<lparr>hw_Id = 1, hw_Offset = 4, hw_Width = 2\<rparr> m = denorm_attr (denormal_fp_math_f32 F) (fpDenormModeSPValue Defaults) AND 3"
    and "fold_getreg \<lparr>hw_Id = 1, hw_Offset = 6, hw_Width = 2\<rparr> m = denorm_attr (denormal_fp_math F) (fpDenormModeDPValue Defaults) AND 3"
    and "bit m 8 \<longleftrightarrow> \<not> G12 \<and> flag_attr (amdgpu_dx10_clamp F) (DX10Clamp Defaults)"
    and "bit m 9 \<longleftrightarrow> \<not> G12 \<and> flag_attr (amdgpu_ieee F) (IEEE Defaults)"
    and "\<not> bit m 27"
proof -
  have seven: "bit (7 :: 32 word) n \<longleftrightarrow> n < 3" for n
  proof -
    have "(7 :: 32 word) = mask 3" by (simp add: mask_eq_exp_minus_1)
    show ?thesis unfolding \<open>7 = mask 3\<close> by (auto simp: bit_simps)
  qed
  have one: "bit (1 :: 32 word) n \<longleftrightarrow> n = 0" for n by (simp add: bit_1_iff)
  have f: "bit (push_bit k (w AND 3)) n \<longleftrightarrow> k \<le> n \<and> n < k + 2 \<and> bit w (n - k)" if "n < 32" for k n and w :: "32 word"
    using that by (auto simp: bit_push_bit_iff bit_and_3 simp del: push_bit_and)
  have p: "bit (push_bit k 1 :: 32 word) n \<longleftrightarrow> n = k" if "n < 32" for k n
    using that by (auto simp: bit_exp_iff)
  have p7: "bit (push_bit 29 7 :: 32 word) n \<longleftrightarrow> 29 \<le> n" if "n < 32" for n
    using that unfolding bit_push_bit_iff seven by auto
  let ?a = "denorm_attr (denormal_fp_math_f32 F) (fpDenormModeSPValue Defaults)"
  let ?b = "denorm_attr (denormal_fp_math F) (fpDenormModeDPValue Defaults)"
  let ?c = "\<not> G12 \<and> flag_attr (amdgpu_dx10_clamp F) (DX10Clamp Defaults)"
  let ?d = "\<not> G12 \<and> flag_attr (amdgpu_ieee F) (IEEE Defaults)"
  have "bit m n \<longleftrightarrow> (bit (push_bit 4 (?a AND 3)) n \<or> bit (push_bit 6 (?b AND 3)) n \<or>
      ?c \<and> bit (push_bit 8 1 :: 32 word) n \<or> ?d \<and> bit (push_bit 9 1 :: 32 word) n) \<and>
      (G10 \<or> \<not> bit (push_bit 27 1 :: 32 word) n \<and> \<not> bit (push_bit 28 1 :: 32 word) n \<and> \<not> bit (push_bit 29 7 :: 32 word) n)"
    if "n < 32" for n
    using that unfolding m_def buildInitialModeValue_def Let_def
    by (cases ?c; cases ?d; cases G10) (simp_all only: bit_or_iff bit_and_iff bit_not_iff if_True if_False simp_thms, simp_all)
  note m_bits = this
  have bits: "bit m n \<longleftrightarrow> 4 \<le> n \<and> n < 6 \<and> bit ?a (n - 4) \<or> 6 \<le> n \<and> n < 8 \<and> bit ?b (n - 6) \<or> n = 8 \<and> ?c \<or> n = 9 \<and> ?d"
    if "n < 32" for n
    unfolding m_bits [OF that] f [OF that] p [OF that] p7 [OF that] by auto
  show "bit m 8 \<longleftrightarrow> \<not> G12 \<and> flag_attr (amdgpu_dx10_clamp F) (DX10Clamp Defaults)"
    "bit m 9 \<longleftrightarrow> \<not> G12 \<and> flag_attr (amdgpu_ieee F) (IEEE Defaults)" "\<not> bit m 27"
    by (simp_all add: bits)
  show "fold_getreg \<lparr>hw_Id = 1, hw_Offset = 4, hw_Width = 2\<rparr> m =
      denorm_attr (denormal_fp_math_f32 F) (fpDenormModeSPValue Defaults) AND 3"
    "fold_getreg \<lparr>hw_Id = 1, hw_Offset = 6, hw_Width = 2\<rparr> m =
      denorm_attr (denormal_fp_math F) (fpDenormModeDPValue Defaults) AND 3"
    by (intro bit_word_eqI, auto simp: bit_getreg bit_and_3 bits)+
qed

subsection \<open>Whole register files\<close>

text \<open>
  The semantics with an index that is only known at run time take a register file as a vector, from a register
  to the end of the file, in lanes of \<open>e\<close> halves.
\<close>

definition full_key :: "file_size \<Rightarrow> reg_key \<Rightarrow> reg_key" where
  "full_key Sz K = (fst K, 0, Sz (fst K))"

definition getRegisterFile ::
  "file_size \<Rightarrow> reg_bits \<Rightarrow> reg_state \<Rightarrow> reg_key \<Rightarrow> nat \<Rightarrow> slice_error + half list \<times> reg_state" where
  "getRegisterFile Sz Incoming St K e =
     (let FullNumLanes = Sz (fst K) div e; StartLane = fst (snd K) div e in
      err_bind (getOperandAsValue Sz Incoming St (full_key Sz K) (IntVec e FullNumLanes)) (\<lambda>(FullVec, St).
        if StartLane = 0 then Inr (FullVec, St)
        else Inr (concat (map (\<lambda>I. ExtractElement e (StartLane + I) FullVec) [0..<FullNumLanes - StartLane]), St)))"

definition splice :: "nat \<Rightarrow> nat \<Rightarrow> half list \<Rightarrow> half list \<Rightarrow> half list" where
  "splice e StartLane Val OldFull =
     fold (\<lambda>I NewFull. InsertElement e (StartLane + I) (ExtractElement e I Val) NewFull) [0..<length Val div e] OldFull"

definition setRegisterFile ::
  "file_size \<Rightarrow> reg_bits \<Rightarrow> (nat \<Rightarrow> reg_state \<Rightarrow> reg_state) \<Rightarrow> reg_state \<Rightarrow> reg_key \<Rightarrow> nat \<Rightarrow> half list \<Rightarrow>
    slice_error + reg_state" where
  "setRegisterFile Sz Incoming order St K e Val =
     (let FullNumLanes = Sz (fst K) div e; StartLane = fst (snd K) div e in
      err_bind
        (if StartLane = 0 \<and> length Val div e = FullNumLanes then Inr (Val, St)
         else err_bind (getOperandAsValue Sz Incoming (order 1 St) (full_key Sz K) (IntVec e FullNumLanes)) (\<lambda>(OldFull, St).
           Inr (splice e StartLane Val OldFull, St)))
        (\<lambda>(NewFull, St). setRegOperandValue Sz (order 0 St) (full_key Sz K) (IntVec e FullNumLanes) NewFull))"

lemma concat_lanes: "(s + n) * e \<le> length v \<Longrightarrow> concat (map (\<lambda>I. ExtractElement e (s + I) v) [0..<n]) = take (n * e) (drop (s * e) v)"
proof (induction n)
  case (Suc n)
  have "take (n * e + e) (drop (s * e) v) = take (n * e) (drop (s * e) v) @ take e (drop (n * e) (drop (s * e) v))"
    by (rule take_add)
  moreover have "ExtractElement e (s + n) v = take e (drop (n * e) (drop (s * e) v))"
    by (simp add: ExtractElement_def algebra_simps)
  ultimately show ?case using Suc by (simp add: add.commute)
qed simp

lemma splice_list:
  assumes "e dvd length Val" and "s * e + length Val \<le> length v"
  shows "splice e s Val v = take (s * e) v @ Val @ drop (s * e + length Val) v"
proof (cases "e = 0")
  case True
  with assms show ?thesis by (simp add: splice_def)
next
  case False
  have "fold (\<lambda>I NewFull. InsertElement e (s + I) (ExtractElement e I Val) NewFull) [0..<n] v =
      take (s * e) v @ take (n * e) Val @ drop (s * e + n * e) v" if "n * e \<le> length Val" for n
    using that
  proof (induction n)
    case (Suc n)
    have len: "length (take (s * e) v) = s * e" "length (take (n * e) Val) = n * e" using assms Suc.prems by simp_all
    have "take (n * e + e) Val = take (n * e) Val @ take e (drop (n * e) Val)" by (rule take_add)
    with Suc len show ?case by (simp add: InsertElement_def ExtractElement_def algebra_simps)
  qed simp
  from this [of "length Val div e"] assms(1) show ?thesis by (simp add: splice_def)
qed

lemma length_bits: "length (bits_of R K) = snd (snd K)"
  by (simp add: bits_of_def split: prod.splits)

text \<open>When a write of a file is one that the code handles.\<close>

definition setfile_ok ::
  "file_size \<Rightarrow> reg_bits \<Rightarrow> (nat \<Rightarrow> reg_state \<Rightarrow> reg_state) \<Rightarrow> reg_bits \<Rightarrow> reg_state \<Rightarrow> reg_key \<Rightarrow> nat \<Rightarrow> nat \<Rightarrow> bool" where
  "setfile_ok Sz Incoming order R St K e len =
     (let T = IntVec e (Sz (fst K) div e); New = bits_of R (full_key Sz K) in
      if fst (snd K) div e = 0 \<and> len div e = Sz (fst K) div e then write_ok Sz (order 0 St) (full_key Sz K) T New
      else
        read_ok Sz Incoming (order 1 St) (full_key Sz K) T \<and>
        (case getOperandAsValue Sz Incoming (order 1 St) (full_key Sz K) T of
          Inr (_, St1) \<Rightarrow> write_ok Sz (order 0 St1) (full_key Sz K) T New
        | Inl _ \<Rightarrow> True))"

lemma get_register_file:
  assumes "agrees Incoming R St" and "0 < e" "e dvd Sz f" "e dvd s" "s \<le> Sz f"
    and "read_ok Sz Incoming St (f, 0, Sz f) (IntVec e (Sz f div e))"
  shows "\<exists>St'. getRegisterFile Sz Incoming St (f, s, m) e = Inr (bits_of R (f, s, Sz f - s), St')"
proof -
  from assms(1,6) obtain St' where
    "getOperandAsValue Sz Incoming St (f, 0, Sz f) (IntVec e (Sz f div e)) = Inr (bits_of R (f, 0, Sz f), St')" by (rule read_step)
  moreover have "concat (map (\<lambda>I. ExtractElement e (s div e + I) (bits_of R (f, 0, Sz f))) [0..<Sz f div e - s div e]) =
      bits_of R (f, s, Sz f - s)"
  proof -
    have "(s div e + (Sz f div e - s div e)) * e \<le> length (bits_of R (f, 0, Sz f))"
      using assms(3,5) by (simp add: div_le_mono)
    from concat_lanes [OF this] have "concat (map (\<lambda>I. ExtractElement e (s div e + I) (bits_of R (f, 0, Sz f))) [0..<Sz f div e - s div e]) =
        take (Sz f - s) (drop s (bits_of R (f, 0, Sz f)))"
      using assms(3,4) by (simp add: diff_mult_distrib)
    then show ?thesis using assms(5) by (simp add: bits_of_def drop_map)
  qed
  moreover have "s = 0" if "s div e = 0" using that assms(2,4) by (metis dvd_div_eq_0_iff)
  ultimately show ?thesis by (auto simp: getRegisterFile_def full_key_def Let_def)
qed

lemma set_register_file:
  assumes ag: "agrees Incoming R St" and order: "reorders order"
    and e: "0 < e" "e dvd Sz f" "e dvd s" "e dvd length Val" and s: "s + length Val \<le> Sz f"
    and ok: "setfile_ok Sz Incoming order (write_bits R (f, s, length Val) Val) St (f, s, m) e (length Val)"
  shows "\<exists>St'. setRegisterFile Sz Incoming order St (f, s, m) e Val = Inr St' \<and>
    agrees Incoming (write_bits R (f, s, length Val) Val) St'"
proof -
  let ?K = "(f, 0, Sz f)" and ?T = "IntVec e (Sz f div e)" and ?R = "write_bits R (f, s, length Val) Val"
  have spliced: "splice e (s div e) Val (bits_of R ?K) = bits_of ?R ?K"
  proof -
    have "splice e (s div e) Val (bits_of R ?K) = take s (bits_of R ?K) @ Val @ drop (s + length Val) (bits_of R ?K)"
      using splice_list [OF e(4), of "s div e" "bits_of R ?K"] e(3) s by simp
    also have "\<dots> = bits_of ?R ?K"
    proof (rule nth_equalityI)
      show "length (take s (bits_of R ?K) @ Val @ drop (s + length Val) (bits_of R ?K)) = length (bits_of ?R ?K)"
        using s by simp
      fix h assume "h < length (take s (bits_of R ?K) @ Val @ drop (s + length Val) (bits_of R ?K))"
      with s have "h < Sz f" by simp
      with s show "(take s (bits_of R ?K) @ Val @ drop (s + length Val) (bits_of R ?K)) ! h = bits_of ?R ?K ! h"
        by (auto simp: nth_append bits_of_def write_bits_def covers_def)
    qed
    finally show ?thesis .
  qed
  have full: "write_bits R ?K (bits_of ?R ?K) = ?R"
    using s by (auto simp: write_bits_def bits_of_def covers_def fun_eq_iff)
  have written: "\<exists>St'. setRegOperandValue Sz (order 0 St1) ?K ?T (bits_of ?R ?K) = Inr St' \<and> agrees Incoming ?R St'"
    if "agrees Incoming R St1" "write_ok Sz (order 0 St1) ?K ?T (bits_of ?R ?K)" for St1
    using write_step [OF agrees_reorder [OF that(1) order] that(2)] unfolding full by blast
  show ?thesis
  proof (cases "s div e = 0 \<and> length Val div e = Sz f div e")
    case True
    then have "s = 0" "length Val = Sz f"
      using e by (metis dvd_div_eq_0_iff, metis dvd_div_eq_cancel)
    then have "Val = bits_of ?R ?K" by (auto simp: bits_of_def write_bits_def covers_def intro!: nth_equalityI)
    moreover have "write_ok Sz (order 0 St) ?K ?T (bits_of ?R ?K)"
      using ok True by (simp add: setfile_ok_def full_key_def Let_def)
    ultimately show ?thesis using written [OF ag] True
      by (simp add: setRegisterFile_def full_key_def Let_def)
  next
    case False
    then have "read_ok Sz Incoming (order 1 St) ?K ?T" using ok by (auto simp: setfile_ok_def full_key_def Let_def)
    with agrees_reorder [OF ag order] obtain St1 where
      St1: "getOperandAsValue Sz Incoming (order 1 St) ?K ?T = Inr (bits_of R ?K, St1)" "agrees Incoming R St1" by (rule read_step)
    then have "write_ok Sz (order 0 St1) ?K ?T (bits_of ?R ?K)"
      using ok False by (auto simp: setfile_ok_def full_key_def Let_def)
    with written [OF St1(2)] St1(1) False spliced show ?thesis
      by (auto simp: setRegisterFile_def full_key_def Let_def)
  qed
qed
end
