(* ===== verification/Exec_Scaffold.thy ===== *)
theory Exec_Scaffold
  imports Register_Files
begin

text \<open>
  \<open>src/lib/ToolCodeGen/TraceFunctionTranslator.cpp\<close>: the exec mask in the lifted function. The lifted IR is
  the program of one lane, so a block of vector instructions is put behind a test of the lane's bit in the
  exec mask: a check block branches to the body of the block or to a skip block that bypasses it. Checks that
  are always true are folded away. IR blocks are named by the machine block that they belong to; the code of
  a body and the condition of its branch are inputs.
\<close>

subsection \<open>The control flow of the lifted function\<close>

datatype ir_bb = Body nat | Check nat | Skip nat
datatype ir_cond = CondVal | ExecActive | ConstI1 bool
datatype ir_term = Br ir_bb | CondBr ir_cond ir_bb ir_bb | Ret | Unreachable

type_synonym ir_fn = "(ir_bb \<times> ir_term) list"

text \<open>A machine block, with the terminator that its raised instructions have emitted, if any.\<close>

record mach_bb =
  mb_number :: nat
  mb_vector :: bool
  mb_raised :: "ir_term option"
  mb_canFallThrough :: bool
  mb_endsInBranch :: bool
  mb_next :: "nat option"

definition body_term :: "mach_bb \<Rightarrow> ir_term" where
  "body_term b =
     (case mb_raised b of
       Some t \<Rightarrow> t
     | None \<Rightarrow>
         (if mb_canFallThrough b \<and> \<not> mb_endsInBranch b then
            (case mb_next b of Some n \<Rightarrow> Br (Body n) | None \<Rightarrow> Unreachable)
          else Unreachable))"

fun ren_bb :: "ir_bb \<Rightarrow> ir_bb \<Rightarrow> ir_bb \<Rightarrow> ir_bb" where
  "ren_bb old new b = (if b = old then new else b)"

fun ren_term :: "ir_bb \<Rightarrow> ir_bb \<Rightarrow> ir_term \<Rightarrow> ir_term" where
  "ren_term old new (Br b) = Br (ren_bb old new b)"
| "ren_term old new (CondBr c b d) = CondBr c (ren_bb old new b) (ren_bb old new d)"
| "ren_term old new Ret = Ret"
| "ren_term old new Unreachable = Unreachable"

definition replaceUses :: "ir_bb \<Rightarrow> ir_bb \<Rightarrow> ir_fn \<Rightarrow> ir_fn" where
  "replaceUses old new fn = map (\<lambda>(b, t). (b, ren_term old new t)) fn"

definition insert_before :: "ir_bb \<Rightarrow> ir_fn \<Rightarrow> ir_fn \<Rightarrow> ir_fn" where
  "insert_before b new fn = takeWhile (\<lambda>(x, _). x \<noteq> b) fn @ new @ dropWhile (\<lambda>(x, _). x \<noteq> b) fn"

text \<open>
  The diamond of a vector block: its check block takes over its predecessors; the skip block goes to the
  successor of the body if there is exactly one, and else to the body.
\<close>

definition skip_term :: "nat \<Rightarrow> ir_fn \<Rightarrow> ir_term" where
  "skip_term m fn = (case map_of fn (Body m) of Some (Br t) \<Rightarrow> Br t | _ \<Rightarrow> Br (Body m))"

definition diamond :: "nat \<Rightarrow> ir_fn \<Rightarrow> ir_fn" where
  "diamond m fn =
     (let fn = replaceUses (Body m) (Check m) fn in
      insert_before (Body m) [(Check m, CondBr ExecActive (Body m) (Skip m)), (Skip m, skip_term m fn)] fn)"

definition translate_cfg :: "mach_bb list \<Rightarrow> ir_fn" where
  "translate_cfg MF =
     fold (\<lambda>b fn. if mb_vector b then diamond (mb_number b) fn else fn) MF (map (\<lambda>b. (Body (mb_number b), body_term b)) MF)"

subsection \<open>The check of a lane\<close>

text \<open>
  \<open>llvm.amdgcn.mbcnt.lo\<close> and \<open>hi\<close>: the number of set bits of the mask that belong to lower lanes, among the first
  and the last 32 lanes, added to the second operand.
\<close>

definition mbcnt_lo :: "32 word \<Rightarrow> nat \<Rightarrow> nat \<Rightarrow> nat" where
  "mbcnt_lo Mask Base lane = Base + length (filter (\<lambda>i. i < lane \<and> bit Mask i) [0..<32])"

definition mbcnt_hi :: "32 word \<Rightarrow> nat \<Rightarrow> nat \<Rightarrow> nat" where
  "mbcnt_hi Mask Base lane = Base + length (filter (\<lambda>i. 32 + i < lane \<and> bit Mask i) [0..<32])"

definition LaneId :: "bool \<Rightarrow> nat \<Rightarrow> nat" where
  "LaneId wave64 lane =
     (let lo = mbcnt_lo (NOT 0) 0 lane in if wave64 then mbcnt_hi (NOT 0) lo lane else lo)"

definition IsActive :: "bool \<Rightarrow> 64 word \<Rightarrow> nat \<Rightarrow> bool" where
  "IsActive wave64 ExecVal lane = (drop_bit (LaneId wave64 lane) ExecVal AND 1 = 1)"

text \<open>
  The exec mask that a check block tests. Without predecessors it is taken from the registers of the body, if an
  entry has the key and the type of the mask, and else it is all ones.
\<close>

definition entry_exec :: "nat \<Rightarrow> reg_key \<Rightarrow> reg_state \<Rightarrow> half list" where
  "entry_exec ExecHalves ExecKey BodyState =
     (case map_of BodyState ExecKey of
       None \<Rightarrow> replicate ExecHalves (NOT 0)
     | Some VE \<Rightarrow> (case map_of VE (IntTy ExecHalves) of Some v \<Rightarrow> v | None \<Rightarrow> replicate ExecHalves (NOT 0)))"

fun targets_of :: "ir_term \<Rightarrow> ir_bb list" where
  "targets_of (Br b) = [b]"
| "targets_of (CondBr c b d) = [b, d]"
| "targets_of Ret = []"
| "targets_of Unreachable = []"

definition pred_empty :: "ir_bb \<Rightarrow> ir_fn \<Rightarrow> bool" where
  "pred_empty b fn = list_all (\<lambda>(_, t). b \<notin> set (targets_of t)) fn"

definition check_exec_value ::
  "nat \<Rightarrow> reg_key \<Rightarrow> ir_bb \<Rightarrow> ir_fn \<Rightarrow> reg_state \<Rightarrow> half list \<Rightarrow> half list" where
  "check_exec_value ExecHalves ExecKey CheckBB fn BodyState materialized =
     (if pred_empty CheckBB fn then entry_exec ExecHalves ExecKey BodyState else materialized)"

subsection \<open>The walk of a lane\<close>

record 's lane_prog =
  body_code :: "nat \<Rightarrow> 's \<Rightarrow> 's"
  branch_cond :: "nat \<Rightarrow> 's \<Rightarrow> bool"
  check_exec :: "nat \<Rightarrow> 's \<Rightarrow> 64 word"
  isWave64 :: bool
  lane_no :: nat

definition cond_holds :: "'s lane_prog \<Rightarrow> ir_bb \<Rightarrow> ir_cond \<Rightarrow> 's \<Rightarrow> bool" where
  "cond_holds P b c s =
     (case c of
       ConstI1 v \<Rightarrow> v
     | ExecActive \<Rightarrow> (case b of Check m \<Rightarrow> IsActive (isWave64 P) (check_exec P m s) (lane_no P) | _ \<Rightarrow> False)
     | CondVal \<Rightarrow> (case b of Body m \<Rightarrow> branch_cond P m s | _ \<Rightarrow> False))"

definition code_of :: "'s lane_prog \<Rightarrow> ir_bb \<Rightarrow> 's \<Rightarrow> 's" where
  "code_of P b s = (case b of Body m \<Rightarrow> body_code P m s | _ \<Rightarrow> s)"

definition ir_step :: "'s lane_prog \<Rightarrow> ir_fn \<Rightarrow> ir_bb \<times> 's \<Rightarrow> (ir_bb \<times> 's) option" where
  "ir_step P fn bs =
     (let s = code_of P (fst bs) (snd bs) in
      case map_of fn (fst bs) of
        Some (Br t) \<Rightarrow> Some (t, s)
      | Some (CondBr c t e) \<Rightarrow> Some (if cond_holds P (fst bs) c s then t else e, s)
      | _ \<Rightarrow> None)"

inductive ir_walk :: "'s lane_prog \<Rightarrow> ir_fn \<Rightarrow> ir_bb \<times> 's \<Rightarrow> ir_bb \<times> 's \<Rightarrow> bool" for P fn where
  walk_here: "ir_walk P fn x x"
| walk_step: "ir_step P fn x = Some y \<Longrightarrow> ir_walk P fn y z \<Longrightarrow> ir_walk P fn x z"

text \<open>The machine function as one lane runs it.\<close>

fun mir_target :: "ir_bb \<Rightarrow> nat" where
  "mir_target (Body m) = m"
| "mir_target (Check m) = m"
| "mir_target (Skip m) = m"

definition find_mbb :: "mach_bb list \<Rightarrow> nat \<Rightarrow> mach_bb option" where
  "find_mbb MF m = find (\<lambda>b. mb_number b = m) MF"

definition mir_step :: "'s lane_prog \<Rightarrow> mach_bb list \<Rightarrow> nat \<times> 's \<Rightarrow> (nat \<times> 's) option" where
  "mir_step P MF ms =
     (case find_mbb MF (fst ms) of
       None \<Rightarrow> None
     | Some b \<Rightarrow>
         (let m = fst ms; s = snd ms;
              skips = mb_vector b \<and> \<not> bit (check_exec P m s) (lane_no P) in
          case body_term b of
            Br t \<Rightarrow> Some (mir_target t, if skips then s else body_code P m s)
          | CondBr c t e \<Rightarrow>
              (let s = body_code P m s in Some (mir_target (if cond_holds P (Body m) c s then t else e), s))
          | _ \<Rightarrow> None))"

inductive mir_walk :: "'s lane_prog \<Rightarrow> mach_bb list \<Rightarrow> nat \<times> 's \<Rightarrow> nat \<times> 's \<Rightarrow> bool" for P MF where
  mir_here: "mir_walk P MF x x"
| mir_next: "mir_step P MF x = Some y \<Longrightarrow> mir_walk P MF y z \<Longrightarrow> mir_walk P MF x z"

subsection \<open>Lane identifiers\<close>

lemma filter_less_upt: "length (filter (\<lambda>i. i < l) [0..<n]) = min l n"
  by (induction n) auto

lemma LaneId_id: "lane < (if wave64 then 64 else 32) \<Longrightarrow> LaneId wave64 lane = lane"
proof -
  assume lane: "lane < (if wave64 then 64 else 32)"
  have all: "filter (\<lambda>i. Q i \<and> bit (NOT 0 :: 32 word) i) [0..<32] = filter Q [0..<32]" for Q :: "nat \<Rightarrow> bool"
    by (intro filter_cong) (auto simp: bit_not_iff)
  have "32 + i < lane \<longleftrightarrow> i < lane - 32" for i by auto
  then show ?thesis
    using lane unfolding LaneId_def mbcnt_lo_def mbcnt_hi_def Let_def all by (simp add: filter_less_upt split: if_splits)
qed

lemma IsActive_iff: "lane < (if wave64 then 64 else 32) \<Longrightarrow> IsActive wave64 e lane \<longleftrightarrow> bit e lane"
proof -
  assume "lane < (if wave64 then 64 else 32)"
  then have "IsActive wave64 e lane \<longleftrightarrow> drop_bit lane e AND 1 = 1" by (simp add: IsActive_def LaneId_id)
  also have "\<dots> \<longleftrightarrow> bit e lane"
    by (simp add: and_one_eq mod_2_eq_odd bit_iff_odd_drop_bit)
  finally show ?thesis .
qed

subsection \<open>The diamonds\<close>

fun map_targets :: "(ir_bb \<Rightarrow> ir_bb) \<Rightarrow> ir_term \<Rightarrow> ir_term" where
  "map_targets f (Br b) = Br (f b)"
| "map_targets f (CondBr c b d) = CondBr c (f b) (f d)"
| "map_targets f Ret = Ret"
| "map_targets f Unreachable = Unreachable"

lemma ren_term_map: "ren_term old new t = map_targets (ren_bb old new) t"
  by (cases t) simp_all

lemma map_targets_cong: "(\<And>b. b \<in> set (targets_of t) \<Longrightarrow> f b = g b) \<Longrightarrow> map_targets f t = map_targets g t"
  by (cases t) simp_all

lemma map_targets_comp: "map_targets f (map_targets g t) = map_targets (\<lambda>b. f (g b)) t"
  by (cases t) simp_all

text \<open>Where a branch to a machine block goes, when the blocks in \<open>S\<close> have a check.\<close>

definition ent :: "nat set \<Rightarrow> ir_bb \<Rightarrow> ir_bb" where
  "ent S b = (case b of Body m \<Rightarrow> if m \<in> S then Check m else Body m | _ \<Rightarrow> b)"

definition only_bodies :: "ir_term \<Rightarrow> bool" where
  "only_bodies t \<longleftrightarrow> (\<forall>b\<in>set (targets_of t). \<exists>m. b = Body m) \<and> (\<forall>c b d. t = CondBr c b d \<longrightarrow> c \<noteq> ExecActive)"

definition wf_mf :: "mach_bb list \<Rightarrow> bool" where
  "wf_mf MF \<longleftrightarrow> distinct (map mb_number MF) \<and>
     (\<forall>b\<in>set MF. only_bodies (body_term b) \<and> mir_target ` set (targets_of (body_term b)) \<subseteq> mb_number ` set MF)"

definition skip_of :: "nat set \<Rightarrow> mach_bb \<Rightarrow> ir_term" where
  "skip_of S b = (case body_term b of Br t \<Rightarrow> Br (ent S t) | _ \<Rightarrow> Br (Body (mb_number b)))"

definition scaffolded :: "mach_bb list \<Rightarrow> nat set \<Rightarrow> ir_fn \<Rightarrow> bool" where
  "scaffolded MF S fn \<longleftrightarrow>
     (\<forall>b\<in>set MF. map_of fn (Body (mb_number b)) = Some (map_targets (ent S) (body_term b)) \<and>
        (mb_number b \<in> S \<longrightarrow>
          map_of fn (Check (mb_number b)) = Some (CondBr ExecActive (Body (mb_number b)) (Skip (mb_number b))) \<and>
          map_of fn (Skip (mb_number b)) = Some (skip_of S b))) \<and>
     (\<forall>m. m \<notin> S \<longrightarrow> map_of fn (Check m) = None \<and> map_of fn (Skip m) = None)"

lemma map_of_replaceUses: "map_of (replaceUses old new fn) x = map_option (ren_term old new) (map_of fn x)"
  by (simp add: replaceUses_def map_of_map)

lemma map_of_insert_before:
  assumes "\<And>x. x \<in> fst ` set new \<Longrightarrow> map_of fn x = None"
  shows "map_of (insert_before b new fn) x = (case map_of new x of Some t \<Rightarrow> Some t | None \<Rightarrow> map_of fn x)"
proof -
  let ?l = "takeWhile (\<lambda>(x, _). x \<noteq> b) fn" and ?r = "dropWhile (\<lambda>(x, _). x \<noteq> b) fn"
  have "map_of fn = map_of ?r ++ map_of ?l" by (metis map_of_append takeWhile_dropWhile_id)
  moreover have "map_of (insert_before b new fn) = map_of ?r ++ map_of new ++ map_of ?l"
    by (simp add: insert_before_def map_add_assoc)
  moreover have "map_of new x = None \<or> map_of fn x = None"
    using assms [of x] by (metis map_of_eq_None_iff)
  ultimately show ?thesis by (auto simp: map_add_def split: option.splits)
qed

lemma ent_insert: "m \<notin> S \<Longrightarrow> (\<exists>k. b = Body k) \<Longrightarrow> ren_bb (Body m) (Check m) (ent S b) = ent (insert m S) b"
  by (auto simp: ent_def)

lemma scaffolded_diamond:
  assumes sc: "scaffolded MF S fn" and wf: "wf_mf MF" and m: "m \<notin> S" and b: "b \<in> set MF" "mb_number b = m"
  shows "scaffolded MF (insert m S) (diamond m fn)"
proof -
  let ?fn = "replaceUses (Body m) (Check m) fn"
  have ren: "map_targets (ren_bb (Body m) (Check m)) (map_targets (ent S) (body_term c)) =
      map_targets (ent (insert m S)) (body_term c)" if "c \<in> set MF" for c
  proof -
    have "only_bodies (body_term c)" using wf that by (simp add: wf_mf_def)
    then show ?thesis
      unfolding map_targets_comp by (intro map_targets_cong ent_insert m) (auto simp: only_bodies_def)
  qed
  have skip_ren: "ren_term (Body m) (Check m) (skip_of S c) = skip_of (insert m S) c"
    if c: "c \<in> set MF" "mb_number c \<noteq> m" for c
  proof -
    have "only_bodies (body_term c)" using wf c by (simp add: wf_mf_def)
    with c(2) m show ?thesis
      by (cases "body_term c") (auto simp: skip_of_def only_bodies_def ent_def)
  qed
  have body: "map_of ?fn (Body (mb_number c)) = Some (map_targets (ent (insert m S)) (body_term c))" if "c \<in> set MF" for c
    using sc that ren [OF that] by (simp add: scaffolded_def map_of_replaceUses ren_term_map)
  have skip: "skip_term m ?fn = skip_of (insert m S) b"
    using body [OF b(1)] b(2) by (cases "body_term b") (simp_all add: skip_term_def skip_of_def)
  let ?new = "[(Check m, CondBr ExecActive (Body m) (Skip m)), (Skip m, skip_term m ?fn)]"
  have fresh: "map_of ?fn x = None" if "x \<in> fst ` set ?new" for x
    using that sc m by (auto simp: scaffolded_def map_of_replaceUses)
  have lookup: "map_of (diamond m fn) x =
      (if x = Check m then Some (CondBr ExecActive (Body m) (Skip m))
       else if x = Skip m then Some (skip_of (insert m S) b) else map_of ?fn x)" for x
    using map_of_insert_before [where new = ?new and fn = ?fn and b = "Body m" and x = x] fresh skip
    by (auto simp: diamond_def Let_def)
  have "(\<forall>c\<in>set MF. map_of (diamond m fn) (Body (mb_number c)) = Some (map_targets (ent (insert m S)) (body_term c)) \<and>
        (mb_number c \<in> insert m S \<longrightarrow>
          map_of (diamond m fn) (Check (mb_number c)) = Some (CondBr ExecActive (Body (mb_number c)) (Skip (mb_number c))) \<and>
          map_of (diamond m fn) (Skip (mb_number c)) = Some (skip_of (insert m S) c)))"
  proof (intro ballI conjI impI)
    fix c assume c: "c \<in> set MF"
    show "map_of (diamond m fn) (Body (mb_number c)) = Some (map_targets (ent (insert m S)) (body_term c))"
      by (simp add: lookup body [OF c])
    assume inS: "mb_number c \<in> insert m S"
    show "map_of (diamond m fn) (Check (mb_number c)) = Some (CondBr ExecActive (Body (mb_number c)) (Skip (mb_number c)))"
      using inS sc c by (auto simp: lookup scaffolded_def map_of_replaceUses)
    show "map_of (diamond m fn) (Skip (mb_number c)) = Some (skip_of (insert m S) c)"
    proof (cases "mb_number c = m")
      case True
      with wf b c have "c = b" by (auto simp: wf_mf_def distinct_map inj_on_def)
      with True show ?thesis by (simp add: lookup)
    next
      case False
      with inS sc c skip_ren [OF c False] show ?thesis
        by (auto simp: lookup scaffolded_def map_of_replaceUses)
    qed
  qed
  moreover have "\<forall>k. k \<notin> insert m S \<longrightarrow> map_of (diamond m fn) (Check k) = None \<and> map_of (diamond m fn) (Skip k) = None"
    using sc by (auto simp: lookup scaffolded_def map_of_replaceUses)
  ultimately show ?thesis unfolding scaffolded_def by blast
qed

lemma scaffolded_initial:
  assumes "wf_mf MF"
  shows "scaffolded MF {} (map (\<lambda>b. (Body (mb_number b), body_term b)) MF)"
proof -
  let ?fn = "map (\<lambda>b. (Body (mb_number b), body_term b)) MF"
  have "distinct (map mb_number MF)" using assms by (simp add: wf_mf_def)
  then have "distinct (map fst ?fn)" by (simp add: comp_def distinct_map inj_on_def)
  then have "map_of ?fn (Body (mb_number b)) = Some (body_term b)" if "b \<in> set MF" for b
    using that by (intro map_of_is_SomeI) auto
  moreover have "map_targets (ent {}) t = t" for t by (cases t) (simp_all add: ent_def split: ir_bb.splits)
  moreover have "map_of ?fn (Check m) = None" "map_of ?fn (Skip m) = None" for m by (auto simp: map_of_eq_None_iff)
  ultimately show ?thesis by (simp add: scaffolded_def)
qed

definition vectors :: "mach_bb list \<Rightarrow> nat set" where
  "vectors MF = mb_number ` {b \<in> set MF. mb_vector b}"

lemma translate_scaffolded:
  assumes wf: "wf_mf MF"
  shows "scaffolded MF (vectors MF) (translate_cfg MF)"
proof -
  let ?f = "\<lambda>b fn. if mb_vector b then diamond (mb_number b) fn else fn"
  have "scaffolded MF (S \<union> vectors bs) (fold ?f bs fn)"
    if "scaffolded MF S fn" "set bs \<subseteq> set MF" "distinct (map mb_number bs)" "S \<inter> mb_number ` set bs = {}" for bs S fn
    using that
  proof (induction bs arbitrary: S fn)
    case Nil
    then show ?case by (simp add: vectors_def)
  next
    case (Cons b bs)
    show ?case
    proof (cases "mb_vector b")
      case True
      have "scaffolded MF (insert (mb_number b) S) (diamond (mb_number b) fn)"
        using scaffolded_diamond [OF Cons.prems(1) wf _ _ refl, of b] Cons.prems(2,4) by auto
      moreover have "insert (mb_number b) S \<inter> mb_number ` set bs = {}" using Cons.prems(3,4) by auto
      moreover have "vectors (b # bs) = insert (mb_number b) (vectors bs)" using True by (auto simp: vectors_def)
      ultimately show ?thesis using Cons.IH [of "insert (mb_number b) S" "diamond (mb_number b) fn"] Cons.prems(2,3) True by simp
    next
      case False
      then have "vectors (b # bs) = vectors bs" by (auto simp: vectors_def)
      with Cons.IH [of S fn] Cons.prems False show ?thesis by auto
    qed
  qed
  from this [OF scaffolded_initial [OF wf] order_refl] wf show ?thesis by (simp add: translate_cfg_def wf_mf_def)
qed

subsection \<open>A lane in the lifted function\<close>

definition mbb_entry :: "mach_bb list \<Rightarrow> nat \<Rightarrow> ir_bb" where
  "mbb_entry MF m = (if \<exists>b\<in>set MF. mb_number b = m \<and> mb_vector b then Check m else Body m)"

lemma entry_ent: "mbb_entry MF m = ent (vectors MF) (Body m)"
  by (auto simp: mbb_entry_def ent_def vectors_def)

lemma find_mbb_Some: "find_mbb MF m = Some b \<Longrightarrow> b \<in> set MF \<and> mb_number b = m"
  by (auto simp: find_mbb_def find_Some_iff)

lemma find_mbb_None: "find_mbb MF m = None \<longleftrightarrow> m \<notin> mb_number ` set MF"
  by (auto simp: find_mbb_def find_None_iff)

lemma walk_one: "ir_step P fn x = Some y \<Longrightarrow> ir_walk P fn x y"
  by (blast intro: ir_walk.intros)

lemma walk_trans: "ir_walk P fn x y \<Longrightarrow> ir_walk P fn y z \<Longrightarrow> ir_walk P fn x z"
  by (induction rule: ir_walk.induct) (auto intro: walk_step)

lemma vector_iff: "wf_mf MF \<Longrightarrow> b \<in> set MF \<Longrightarrow> mb_number b \<in> vectors MF \<longleftrightarrow> mb_vector b"
  by (auto simp: wf_mf_def vectors_def distinct_map inj_on_def)

text \<open>The way into the body, and around it.\<close>

lemma into_body:
  assumes sc: "scaffolded MF (vectors MF) fn" and wf: "wf_mf MF" and b: "b \<in> set MF" "mb_number b = m"
    and way: "\<not> mb_vector b \<or> IsActive (isWave64 P) (check_exec P m s) (lane_no P) \<or> (\<forall>t. body_term b \<noteq> Br t)"
  shows "ir_walk P fn (mbb_entry MF m, s) (Body m, s)"
proof (cases "m \<in> vectors MF")
  case False
  then show ?thesis by (simp add: entry_ent ent_def walk_here)
next
  case True
  with sc b have check: "map_of fn (Check m) = Some (CondBr ExecActive (Body m) (Skip m))"
    and skip: "map_of fn (Skip m) = Some (skip_of (vectors MF) b)"
    by (auto simp: scaffolded_def)
  have entry: "mbb_entry MF m = Check m" using True by (simp add: entry_ent ent_def)
  show ?thesis
  proof (cases "IsActive (isWave64 P) (check_exec P m s) (lane_no P)")
    case True
    then show ?thesis unfolding entry
      by (intro walk_one) (simp add: ir_step_def code_of_def check cond_holds_def)
  next
    case False
    then have s1: "ir_step P fn (Check m, s) = Some (Skip m, s)"
      by (simp add: ir_step_def code_of_def check cond_holds_def)
    show ?thesis
    proof (cases "\<exists>t. body_term b = Br t")
      case False
      then have "skip_of (vectors MF) b = Br (Body m)" using b(2) by (auto simp: skip_of_def split: ir_term.splits)
      then have "ir_step P fn (Skip m, s) = Some (Body m, s)" by (simp add: ir_step_def code_of_def skip)
      with s1 show ?thesis unfolding entry by (meson walk_here walk_step)
    next
      case True
      with way False have "\<not> mb_vector b" by blast
      with vector_iff [OF wf b(1)] \<open>m \<in> vectors MF\<close> b(2) show ?thesis by simp
    qed
  qed
qed

lemma around_body:
  assumes sc: "scaffolded MF (vectors MF) fn" and wf: "wf_mf MF" and b: "b \<in> set MF" "mb_number b = m"
    and v: "mb_vector b" "\<not> IsActive (isWave64 P) (check_exec P m s) (lane_no P)" and t: "body_term b = Br t"
  shows "ir_walk P fn (mbb_entry MF m, s) (ent (vectors MF) t, s)"
proof -
  have m: "m \<in> vectors MF" using vector_iff [OF wf b(1)] b(2) v(1) by simp
  with sc b have check: "map_of fn (Check m) = Some (CondBr ExecActive (Body m) (Skip m))"
    and skip: "map_of fn (Skip m) = Some (Br (ent (vectors MF) t))"
    using t by (auto simp: scaffolded_def skip_of_def)
  have "ir_step P fn (Check m, s) = Some (Skip m, s)"
    using v(2) by (simp add: ir_step_def code_of_def check cond_holds_def)
  moreover have "ir_step P fn (Skip m, s) = Some (ent (vectors MF) t, s)" by (simp add: ir_step_def code_of_def skip)
  moreover have "mbb_entry MF m = Check m" using m by (simp add: entry_ent ent_def)
  ultimately show ?thesis by (metis walk_here walk_step)
qed

lemma lane_step:
  assumes sc: "scaffolded MF (vectors MF) fn" and wf: "wf_mf MF" and lane: "lane_no P < (if isWave64 P then 64 else 32)"
    and step: "mir_step P MF (m, s) = Some (m', s')"
  shows "ir_walk P fn (mbb_entry MF m, s) (mbb_entry MF m', s') \<and> m' \<in> mb_number ` set MF"
proof -
  from step obtain b where f: "find_mbb MF m = Some b" by (auto simp: mir_step_def split: option.splits)
  with find_mbb_Some have b: "b \<in> set MF" "mb_number b = m" by blast+
  have only: "only_bodies (body_term b)" and targets: "mir_target ` set (targets_of (body_term b)) \<subseteq> mb_number ` set MF"
    using wf b(1) by (auto simp: wf_mf_def)
  have trm: "map_of fn (Body m) = Some (map_targets (ent (vectors MF)) (body_term b))" using sc b by (auto simp: scaffolded_def)
  have act: "IsActive (isWave64 P) (check_exec P m s) (lane_no P) \<longleftrightarrow> bit (check_exec P m s) (lane_no P)"
    using lane by (rule IsActive_iff)
  have goes: "ent (vectors MF) t = mbb_entry MF (mir_target t)" if "t \<in> set (targets_of (body_term b))" for t
    using only that by (auto simp: only_bodies_def entry_ent)
  consider t where "body_term b = Br t" | c t e where "body_term b = CondBr c t e"
    using step f by (cases "body_term b") (auto simp: mir_step_def)
  then show ?thesis
  proof cases
    case 1
    then have t: "t \<in> set (targets_of (body_term b))" by simp
    show ?thesis
    proof (cases "mb_vector b \<and> \<not> bit (check_exec P m s) (lane_no P)")
      case True
      with 1 f step have "m' = mir_target t" "s' = s" by (simp_all add: mir_step_def)
      with around_body [OF sc wf b _ _ 1, of P s] True act goes [OF t] targets t show ?thesis by auto
    next
      case False
      with 1 f step have r: "m' = mir_target t" "s' = body_code P m s" by (auto simp: mir_step_def)
      have "ir_step P fn (Body m, s) = Some (mbb_entry MF m', s')"
        using trm 1 r goes [OF t] by (simp add: ir_step_def code_of_def)
      with into_body [OF sc wf b, of P s] False act r targets t show ?thesis
        by (auto intro: walk_trans walk_one)
    qed
  next
    case 2
    then have r: "m' = mir_target (if cond_holds P (Body m) c (body_code P m s) then t else e)" "s' = body_code P m s"
      using f step by (auto simp: mir_step_def Let_def)
    have "ir_step P fn (Body m, s) = Some (mbb_entry MF m', s')"
      using trm 2 r goes [of t] goes [of e] by (simp add: ir_step_def code_of_def)
    with into_body [OF sc wf b, of P s] 2 r targets show ?thesis by (auto intro: walk_trans walk_one split: if_splits)
  qed
qed

lemma lane_walk:
  assumes sc: "scaffolded MF (vectors MF) fn" and wf: "wf_mf MF" and lane: "lane_no P < (if isWave64 P then 64 else 32)"
    and "mir_walk P MF (m, s) (m', s')" and "m \<in> mb_number ` set MF"
  shows "ir_walk P fn (mbb_entry MF m, s) (mbb_entry MF m', s') \<and> m' \<in> mb_number ` set MF"
  using assms(4,5)
proof (induction "(m, s)" "(m', s')" arbitrary: m s rule: mir_walk.induct)
  case mir_here
  then show ?case by (simp add: walk_here)
next
  case (mir_next y)
  obtain m1 s1 where y: "y = (m1, s1)" by (cases y)
  from lane_step [OF sc wf lane mir_next.hyps(1) [unfolded y]] mir_next.hyps(3) [OF y] show ?case
    by (blast intro: walk_trans)
qed

lemma lane_end:
  assumes sc: "scaffolded MF (vectors MF) fn" and wf: "wf_mf MF" and "mir_step P MF (m, s) = None" and "m \<in> mb_number ` set MF"
  shows "ir_walk P fn (mbb_entry MF m, s) (Body m, s) \<and> ir_step P fn (Body m, s) = None"
proof -
  from assms(4) find_mbb_None obtain b where f: "find_mbb MF m = Some b" by fastforce
  with find_mbb_Some have b: "b \<in> set MF" "mb_number b = m" by blast+
  have trm: "map_of fn (Body m) = Some (map_targets (ent (vectors MF)) (body_term b))" using sc b by (auto simp: scaffolded_def)
  have t: "body_term b = Ret \<or> body_term b = Unreachable" using assms(3) f by (cases "body_term b") (auto simp: mir_step_def Let_def)
  with into_body [OF sc wf b, of P s] trm show ?thesis by (auto simp: ir_step_def)
qed

text \<open>
  C38: the exec test of the lifted function: a lane that walks the lifted function visits the machine blocks in
  the order, and with the states, in which the machine function does for that lane - a vector block is run when
  the lane's bit of the exec mask is set at its start, and passed over to its successor when it is not - and
  comes to an end where the machine function does. A vector block with no or several successors is the
  exception, also in the code: its body is run by every lane.
\<close>

theorem lifted_walk_is_lane_walk:
  assumes "wf_mf MF" and "lane_no P < (if isWave64 P then 64 else 32)" and "m \<in> mb_number ` set MF"
    and "mir_walk P MF (m, s) (m', s')"
  shows "ir_walk P (translate_cfg MF) (mbb_entry MF m, s) (mbb_entry MF m', s') \<and>
    (mir_step P MF (m', s') = None \<longrightarrow>
      (\<exists>x. ir_walk P (translate_cfg MF) (mbb_entry MF m, s) x \<and> ir_step P (translate_cfg MF) x = None))"
proof -
  note sc = translate_scaffolded [OF assms(1)]
  from lane_walk [OF sc assms(1,2,4,3)] have walk:
    "ir_walk P (translate_cfg MF) (mbb_entry MF m, s) (mbb_entry MF m', s')" "m' \<in> mb_number ` set MF" by blast+
  moreover have "\<exists>x. ir_walk P (translate_cfg MF) (mbb_entry MF m, s) x \<and> ir_step P (translate_cfg MF) x = None"
    if "mir_step P MF (m', s') = None"
    using lane_end [OF sc assms(1) that walk(2)] walk(1) by (blast intro: walk_trans)
  ultimately show ?thesis by blast
qed

subsection \<open>Checks that are always true\<close>

text \<open>
  The SSA values behind an exec mask: a constant of a width, a merge of other values, or anything else. The
  recursion runs on fuel; its second result is the set of visited merges.
\<close>

datatype ssa_def = DConst nat "64 word" | DPhi "nat list" | DOther

fun isProvablyAllOnesIntImpl :: "nat \<Rightarrow> (nat \<Rightarrow> ssa_def) \<Rightarrow> nat \<Rightarrow> nat list \<Rightarrow> (bool \<times> nat list) option"
  and all_incoming :: "nat \<Rightarrow> (nat \<Rightarrow> ssa_def) \<Rightarrow> nat list \<Rightarrow> nat list \<Rightarrow> (bool \<times> nat list) option" where
  "isProvablyAllOnesIntImpl 0 D V Visited = None"
| "isProvablyAllOnesIntImpl (Suc n) D V Visited =
     (case D V of
       DConst w c \<Rightarrow> Some (c = mask w, Visited)
     | DPhi ws \<Rightarrow>
         (if ws = [] then Some (False, Visited)
          else if V \<in> set Visited then Some (True, Visited)
          else all_incoming n D ws (V # Visited))
     | DOther \<Rightarrow> Some (False, Visited))"
| "all_incoming n D [] Visited = Some (True, Visited)"
| "all_incoming n D (w # ws) Visited =
     (case isProvablyAllOnesIntImpl n D w Visited of
       None \<Rightarrow> None
     | Some (ok, Visited) \<Rightarrow> if ok then all_incoming n D ws Visited else Some (False, Visited))"

definition isProvablyAllOnesInt :: "nat \<Rightarrow> (nat \<Rightarrow> ssa_def) \<Rightarrow> nat \<Rightarrow> bool option" where
  "isProvablyAllOnesInt n D V = map_option fst (isProvablyAllOnesIntImpl n D V [])"

text \<open>The values that an SSA value of width \<open>w\<close> can have: a merge has one that an incoming value had.\<close>

inductive may_have :: "(nat \<Rightarrow> ssa_def) \<Rightarrow> nat \<Rightarrow> nat \<Rightarrow> 64 word \<Rightarrow> bool" for D w where
  const_has: "D V = DConst w c \<Longrightarrow> may_have D w V c"
| phi_has: "D V = DPhi ws \<Longrightarrow> u \<in> set ws \<Longrightarrow> may_have D w u c \<Longrightarrow> may_have D w V c"
| other_has: "D V = DOther \<Longrightarrow> may_have D w V c"

inductive_cases may_have_const: "may_have D w V c"

definition ones_or_in :: "(nat \<Rightarrow> ssa_def) \<Rightarrow> nat list \<Rightarrow> nat \<Rightarrow> bool" where
  "ones_or_in D Visited V \<longleftrightarrow> (\<exists>w. D V = DConst w (mask w)) \<or> (\<exists>ws. D V = DPhi ws) \<and> V \<in> set Visited"

definition phis_closed :: "(nat \<Rightarrow> ssa_def) \<Rightarrow> nat list \<Rightarrow> nat list \<Rightarrow> bool" where
  "phis_closed D Open Visited \<longleftrightarrow>
     (\<forall>V\<in>set Visited - set Open. \<forall>ws. D V = DPhi ws \<longrightarrow> (\<forall>u\<in>set ws. ones_or_in D Visited u))"

lemma ones_or_in_mono: "ones_or_in D A V \<Longrightarrow> set A \<subseteq> set B \<Longrightarrow> ones_or_in D B V"
  by (auto simp: ones_or_in_def)

lemma phis_closed_trans:
  "phis_closed D A B \<Longrightarrow> phis_closed D B C \<Longrightarrow> set B \<subseteq> set C \<Longrightarrow> phis_closed D A C"
  unfolding phis_closed_def by (meson Diff_iff ones_or_in_mono)

lemma all_ones_sound:
  "isProvablyAllOnesIntImpl n D V Vis = Some (True, Vis') \<Longrightarrow>
     set Vis \<subseteq> set Vis' \<and> ones_or_in D Vis' V \<and> phis_closed D Vis Vis'"
  "all_incoming n D ws Vis = Some (True, Vis') \<Longrightarrow>
     set Vis \<subseteq> set Vis' \<and> (\<forall>u\<in>set ws. ones_or_in D Vis' u) \<and> phis_closed D Vis Vis'"
proof (induction n D V Vis and n D ws Vis arbitrary: Vis' and Vis' rule: isProvablyAllOnesIntImpl_all_incoming.induct)
  case (2 n D V Vis)
  show ?case
  proof (cases "D V")
    case (DConst w c)
    with 2(2) show ?thesis by (auto simp: ones_or_in_def phis_closed_def)
  next
    case (DPhi ws)
    show ?thesis
    proof (cases "ws = [] \<or> V \<in> set Vis")
      case True
      with 2(2) DPhi show ?thesis by (auto simp: ones_or_in_def phis_closed_def split: if_splits)
    next
      case False
      with 2(2) DPhi have "all_incoming n D ws (V # Vis) = Some (True, Vis')" by simp
      with 2(1) DPhi False have ih: "set (V # Vis) \<subseteq> set Vis'" "\<forall>u\<in>set ws. ones_or_in D Vis' u" "phis_closed D (V # Vis) Vis'"
        by blast+
      have "phis_closed D Vis Vis'"
        unfolding phis_closed_def
      proof (intro ballI allI impI)
        fix x us u
        assume x: "x \<in> set Vis' - set Vis" "D x = DPhi us" "u \<in> set us"
        show "ones_or_in D Vis' u"
        proof (cases "x = V")
          case True
          with x DPhi ih(2) show ?thesis by simp
        next
          case False
          with x(1) have "x \<in> set Vis' - set (V # Vis)" by simp
          with x(2,3) ih(3) show ?thesis unfolding phis_closed_def by blast
        qed
      qed
      with ih DPhi show ?thesis by (auto simp: ones_or_in_def)
    qed
  next
    case DOther
    with 2(2) show ?thesis by simp
  qed
next
  case (4 n D u ws Vis)
  from 4(3) obtain V1 where one: "isProvablyAllOnesIntImpl n D u Vis = Some (True, V1)" and rest: "all_incoming n D ws V1 = Some (True, Vis')"
    by (auto split: option.splits if_splits)
  from 4(1) [OF one] have a: "set Vis \<subseteq> set V1" "ones_or_in D V1 u" "phis_closed D Vis V1" by blast+
  from 4(2) [OF one refl _ rest] have b: "set V1 \<subseteq> set Vis'" "\<forall>u\<in>set ws. ones_or_in D Vis' u" "phis_closed D V1 Vis'" by simp_all
  show ?case using a b ones_or_in_mono [OF a(2) b(1)] phis_closed_trans [OF a(3) b(3,1)] by auto
qed (simp_all add: phis_closed_def)

lemma closed_ones:
  assumes "may_have D w V c" and "ones_or_in D Vis V" and "phis_closed D [] Vis"
  shows "c = mask w"
  using assms
proof (induction rule: may_have.induct)
  case (const_has V c)
  then show ?case by (auto simp: ones_or_in_def)
next
  case (phi_has V ws u c)
  then have "ones_or_in D Vis u" by (auto simp: ones_or_in_def phis_closed_def)
  with phi_has show ?case by blast
next
  case (other_has V c)
  then show ?case by (simp add: ones_or_in_def)
qed

lemma provably_all_ones:
  assumes "isProvablyAllOnesInt n D V = Some True" and "may_have D w V c"
  shows "c = mask w"
proof -
  from assms(1) obtain Vis where "isProvablyAllOnesIntImpl n D V [] = Some (True, Vis)" by (auto simp: isProvablyAllOnesInt_def)
  from all_ones_sound(1) [OF this] assms(2) show ?thesis using closed_ones by blast
qed

lemma all_ones_ends:
  "finite U \<Longrightarrow> (\<forall>V ws. D V = DPhi ws \<longrightarrow> V \<in> U) \<Longrightarrow> card (U - set Vis) < n \<Longrightarrow>
     \<exists>ok Vis'. isProvablyAllOnesIntImpl n D V Vis = Some (ok, Vis') \<and> set Vis \<subseteq> set Vis'"
  "finite U \<Longrightarrow> (\<forall>V ws. D V = DPhi ws \<longrightarrow> V \<in> U) \<Longrightarrow> card (U - set Vis) < n \<Longrightarrow>
     \<exists>ok Vis'. all_incoming n D ws Vis = Some (ok, Vis') \<and> set Vis \<subseteq> set Vis'"
proof (induction n D V Vis and n D ws Vis rule: isProvablyAllOnesIntImpl_all_incoming.induct)
  case (2 n D V Vis)
  show ?case
  proof (cases "D V")
    case (DPhi ws)
    show ?thesis
    proof (cases "ws = [] \<or> V \<in> set Vis")
      case True
      with DPhi show ?thesis by auto
    next
      case False
      with 2(3) DPhi have "V \<in> U - set Vis" by auto
      then have "card (U - set (V # Vis)) < card (U - set Vis)"
        using 2(2) by (intro psubset_card_mono) auto
      then have "card (U - set (V # Vis)) < n" using 2(4) by linarith
      with 2(1) [OF DPhi _ _ 2(2,3)] False obtain ok Vis' where
        "all_incoming n D ws (V # Vis) = Some (ok, Vis')" "set (V # Vis) \<subseteq> set Vis'" by auto
      with DPhi False show ?thesis by auto
    qed
  qed auto
next
  case (4 n D u ws Vis)
  from 4(1) [OF 4(3-5)] obtain ok V1 where one: "isProvablyAllOnesIntImpl n D u Vis = Some (ok, V1)" "set Vis \<subseteq> set V1" by blast
  show ?case
  proof (cases ok)
    case True
    have "card (U - set V1) \<le> card (U - set Vis)" using 4(3) one(2) by (intro card_mono) auto
    then have "card (U - set V1) < n" using 4(5) by simp
    from 4(2) [OF one(1) refl True 4(3,4) this] one True show ?thesis by auto
  next
    case False
    with one show ?thesis by auto
  qed
qed auto

subsection \<open>Folding\<close>

text \<open>Whether the condition of a check is always true; \<open>provable\<close> is the result of \<open>isProvablyAllOnesInt\<close> on its exec mask.\<close>

definition trivially_active :: "(nat \<Rightarrow> bool) \<Rightarrow> nat \<Rightarrow> ir_cond \<Rightarrow> bool" where
  "trivially_active provable m c = (case c of ConstI1 v \<Rightarrow> v | ExecActive \<Rightarrow> provable m | CondVal \<Rightarrow> False)"

definition remove_block :: "ir_bb \<Rightarrow> ir_fn \<Rightarrow> ir_fn" where
  "remove_block b fn = filter (\<lambda>(x, _). x \<noteq> b) fn"

text \<open>
  The check becomes a plain branch to the body, a skip block without uses is erased, and a check block that is only
  a branch and not the function's entry is merged into the body. \<open>merges\<close> says that it has no merges left and
  that LLVM's \<open>TryToSimplifyUncondBranchFromEmptyBlock\<close> succeeds.
\<close>

definition fold_check :: "(nat \<Rightarrow> bool) \<Rightarrow> (nat \<Rightarrow> bool) \<Rightarrow> nat \<Rightarrow> ir_fn \<Rightarrow> ir_fn" where
  "fold_check provable merges m fn =
     (case map_of fn (Check m) of
       Some (CondBr c BodyBB SkipBB) \<Rightarrow>
         (if trivially_active provable m c then
            (let fn = map (\<lambda>(x, t). (x, if x = Check m then Br BodyBB else t)) fn;
                 fn = (if pred_empty SkipBB fn then remove_block SkipBB fn else fn) in
             if merges m \<and> fst (hd fn) \<noteq> Check m then replaceUses (Check m) BodyBB (remove_block (Check m) fn) else fn)
          else fn)
     | _ \<Rightarrow> fn)"

definition foldTriviallyActiveExecChecks :: "(nat \<Rightarrow> bool) \<Rightarrow> (nat \<Rightarrow> bool) \<Rightarrow> nat list \<Rightarrow> ir_fn \<Rightarrow> ir_fn" where
  "foldTriviallyActiveExecChecks provable merges = fold (fold_check provable merges)"

definition checks_ok :: "ir_fn \<Rightarrow> bool" where
  "checks_ok fn \<longleftrightarrow>
     (\<forall>m c b d. map_of fn (Check m) = Some (CondBr c b d) \<longrightarrow> (\<exists>k. b = Body k) \<and> (\<exists>k. d = Skip k))"

lemma map_of_remove: "map_of (remove_block b fn) x = (if x = b then None else map_of fn x)"
  unfolding remove_block_def by (induction fn) auto

lemma map_of_set_term:
  "map_of (map (\<lambda>(x, t). (x, if x = k then u else t)) fn) x = map_option (\<lambda>t. if x = k then u else t) (map_of fn x)"
  by (induction fn) auto

lemma pred_emptyD: "pred_empty b fn \<Longrightarrow> map_of fn x = Some t \<Longrightarrow> b \<notin> set (targets_of t)"
  by (auto simp: pred_empty_def list_all_iff dest!: map_of_SomeD)

lemma ir_step_target: "ir_step P fn (x, s) = Some (y, t) \<Longrightarrow> \<exists>u. map_of fn x = Some u \<and> y \<in> set (targets_of u)"
  by (auto simp: ir_step_def Let_def split: option.splits ir_term.splits)

lemma ir_step_ren:
  assumes "ir_step P fn (x, s) = Some (y, t)" and "map_of fn' x = map_option (map_targets h) (map_of fn x)"
  shows "ir_step P fn' (x, s) = Some (h y, t)"
  using assms by (auto simp: ir_step_def Let_def split: option.splits ir_term.splits)

lemma fold_check_cases:
  assumes ok: "checks_ok fn" and prov: "\<And>s. provable m \<Longrightarrow> IsActive (isWave64 P) (check_exec P m s) (lane_no P)"
  shows "\<exists>h gone. (\<forall>k. h (Body k) = Body k \<and> Body k \<notin> gone) \<and>
    (\<forall>x s y t. ir_step P fn (x, s) = Some (y, t) \<longrightarrow> x \<notin> gone \<longrightarrow>
       y \<notin> gone \<and> (ir_step P (fold_check provable merges m fn) (h x, s) = Some (h y, t) \<or> h y = h x \<and> t = s))"
proof -
  show ?thesis
  proof (cases "\<exists>c b d. map_of fn (Check m) = Some (CondBr c b d) \<and> trivially_active provable m c")
    case False
    then have "fold_check provable merges m fn = fn"
      by (auto simp: fold_check_def split: option.splits ir_term.splits)
    then show ?thesis by (intro exI [of _ "\<lambda>x. x"] exI [of _ "{}"]) auto
  next
    case True
    then obtain c b d where check: "map_of fn (Check m) = Some (CondBr c b d)" and act: "trivially_active provable m c" by blast
    with ok obtain k j where b: "b = Body k" and d: "d = Skip j" unfolding checks_ok_def by blast
    obtain fn1 where fn1: "fn1 = map (\<lambda>(x, t). (x, if x = Check m then Br b else t)) fn" by simp
    obtain fn2 where fn2: "fn2 = (if pred_empty d fn1 then remove_block d fn1 else fn1)" by simp
    obtain merged where merged: "merged \<longleftrightarrow> merges m \<and> fst (hd fn2) \<noteq> Check m" by simp
    obtain fn3 where fn3: "fn3 = (if merged then replaceUses (Check m) b (remove_block (Check m) fn2) else fn2)" by simp
    obtain gone where gone: "gone = (if pred_empty d fn1 then {d} else {})" by simp
    obtain h where h: "h = (if merged then ren_bb (Check m) b else (\<lambda>x. x))" by simp
    have fold: "fold_check provable merges m fn = fn3"
      unfolding fold_check_def fn3 merged fn2 fn1 using check act by (simp add: Let_def)
    have always: "cond_holds P (Check m) c s" for s
      using act prov by (auto simp: trivially_active_def cond_holds_def split: ir_cond.splits)
    have term1: "map_of fn1 x = map_option (\<lambda>t. if x = Check m then Br b else t) (map_of fn x)" for x
      unfolding fn1 by (rule map_of_set_term)
    have same: "map_of fn2 x = map_of fn1 x" if "x \<notin> gone" for x
      using that by (simp add: fn2 gone map_of_remove split: if_splits)
    have lookup: "map_of fn3 x = map_option (map_targets h) (map_of fn x)" if "x \<notin> gone" "x \<noteq> Check m" for x
    proof -
      have "map_targets (\<lambda>x. x) t = t" for t by (cases t) simp_all
      then show ?thesis
        using same [OF that(1)] that(2) term1 [of x]
        by (cases "map_of fn x") (simp_all add: fn3 h map_of_replaceUses map_of_remove ren_term_map)
    qed
    have step: "y \<notin> gone \<and> (ir_step P fn3 (h x, s) = Some (h y, t) \<or> h y = h x \<and> t = s)"
      if st: "ir_step P fn (x, s) = Some (y, t)" and x: "x \<notin> gone" for x s y t
    proof (cases "x = Check m")
      case True
      with st check always have y: "y = b" "t = s" by (simp_all add: ir_step_def code_of_def)
      have "y \<notin> gone" using y b d by (simp add: gone)
      moreover have "ir_step P fn3 (h x, s) = Some (h y, t) \<or> h y = h x \<and> t = s"
      proof (cases merged)
        case True
        then show ?thesis using y \<open>x = Check m\<close> by (simp add: h)
      next
        case False
        then have "map_of fn3 (Check m) = Some (Br b)" using same [OF x] \<open>x = Check m\<close> check term1 by (simp add: fn3)
        with False y \<open>x = Check m\<close> show ?thesis by (simp add: ir_step_def code_of_def h)
      qed
      ultimately show ?thesis by blast
    next
      case False
      from ir_step_target [OF st] obtain u where u: "map_of fn x = Some u" "y \<in> set (targets_of u)" by blast
      have "y \<notin> gone"
      proof
        assume "y \<in> gone"
        then have "pred_empty d fn1" "y = d" by (simp_all add: gone split: if_splits)
        moreover have "map_of fn1 x = Some u" using u(1) False by (simp add: term1)
        ultimately show False using u(2) pred_emptyD by blast
      qed
      moreover have "h x = x" using False by (simp add: h)
      ultimately show ?thesis using ir_step_ren [OF st lookup [OF x False]] by simp
    qed
    show ?thesis
      unfolding fold using step b d by (intro exI [of _ h] exI [of _ gone]) (simp add: h gone)
  qed
qed

lemma fold_check_walk:
  assumes "checks_ok fn" and "\<And>s. provable m \<Longrightarrow> IsActive (isWave64 P) (check_exec P m s) (lane_no P)"
    and "ir_walk P fn (Body i, s) (Body j, t)"
  shows "ir_walk P (fold_check provable merges m fn) (Body i, s) (Body j, t)"
proof -
  let ?fn = "fold_check provable merges m fn"
  obtain h gone where h: "\<forall>k. h (Body k) = Body k \<and> Body k \<notin> gone"
    and step: "\<forall>x s y t. ir_step P fn (x, s) = Some (y, t) \<longrightarrow> x \<notin> gone \<longrightarrow>
       y \<notin> gone \<and> (ir_step P ?fn (h x, s) = Some (h y, t) \<or> h y = h x \<and> t = s)"
    using fold_check_cases [where m = m and merges = merges, OF assms(1,2)] by blast
  have "ir_walk P ?fn (h (fst x), snd x) (h (fst z), snd z)" if "ir_walk P fn x z" "fst x \<notin> gone" for x z
    using that
  proof (induction rule: ir_walk.induct)
    case (walk_here x)
    show ?case by (rule ir_walk.walk_here)
  next
    case (walk_step x y z)
    from step [rule_format, of "fst x" "snd x" "fst y" "snd y"] walk_step.hyps(1) walk_step.prems
    have y: "fst y \<notin> gone" and one: "ir_step P ?fn (h (fst x), snd x) = Some (h (fst y), snd y) \<or> h (fst y) = h (fst x) \<and> snd y = snd x"
      by simp_all
    from one walk_step.IH [OF y] show ?case by (metis ir_walk.walk_step)
  qed
  from this [OF assms(3)] h show ?thesis by simp
qed

lemma checks_ok_remove: "checks_ok fn \<Longrightarrow> checks_ok (remove_block b fn)"
  by (simp add: checks_ok_def map_of_remove)

lemma checks_ok_set_br: "checks_ok fn \<Longrightarrow> checks_ok (map (\<lambda>(x, t). (x, if x = k then Br b else t)) fn)"
  by (auto simp: checks_ok_def map_of_set_term)

lemma checks_ok_replace:
  assumes "checks_ok fn"
  shows "checks_ok (replaceUses (Check m) b fn)"
  unfolding checks_ok_def
proof (intro allI impI)
  fix k c b' d'
  assume "map_of (replaceUses (Check m) b fn) (Check k) = Some (CondBr c b' d')"
  then obtain u where "map_of fn (Check k) = Some u" "ren_term (Check m) b u = CondBr c b' d'"
    by (auto simp: map_of_replaceUses)
  moreover from this(2) obtain b0 d0 where u: "u = CondBr c b0 d0" "b' = ren_bb (Check m) b b0" "d' = ren_bb (Check m) b d0"
    by (cases u) auto
  ultimately have "(\<exists>k. b0 = Body k) \<and> (\<exists>k. d0 = Skip k)" using assms by (simp add: checks_ok_def)
  with u show "(\<exists>k. b' = Body k) \<and> (\<exists>k. d' = Skip k)" by auto
qed

lemma fold_check_ok: "checks_ok fn \<Longrightarrow> checks_ok (fold_check provable merges m fn)"
  by (auto simp: fold_check_def Let_def checks_ok_remove checks_ok_set_br checks_ok_replace split: option.splits ir_term.splits)

lemma folds_walk:
  assumes "checks_ok fn" and "\<And>m s. provable m \<Longrightarrow> IsActive (isWave64 P) (check_exec P m s) (lane_no P)"
    and "ir_walk P fn (Body i, s) (Body j, t)"
  shows "ir_walk P (foldTriviallyActiveExecChecks provable merges ms fn) (Body i, s) (Body j, t)"
  using assms(1,3)
proof (induction ms arbitrary: fn)
  case Nil
  then show ?case by (simp add: foldTriviallyActiveExecChecks_def)
next
  case (Cons m ms)
  have "ir_walk P (fold_check provable merges m fn) (Body i, s) (Body j, t)"
    using Cons.prems(1) assms(2) Cons.prems(2) by (rule fold_check_walk)
  with Cons.IH [OF fold_check_ok [OF Cons.prems(1)]] show ?case by (simp add: foldTriviallyActiveExecChecks_def)
qed

lemma scaffolded_checks_ok:
  assumes "scaffolded MF (vectors MF) fn"
  shows "checks_ok fn"
  unfolding checks_ok_def
proof (intro allI impI)
  fix m c b d
  assume t: "map_of fn (Check m) = Some (CondBr c b d)"
  have "m \<in> vectors MF"
  proof (rule ccontr)
    assume "m \<notin> vectors MF"
    with assms t show False by (simp add: scaffolded_def)
  qed
  then obtain v where "v \<in> set MF" "mb_number v = m" by (auto simp: vectors_def)
  with assms t \<open>m \<in> vectors MF\<close> show "(\<exists>k. b = Body k) \<and> (\<exists>k. d = Skip k)" by (auto simp: scaffolded_def)
qed

text \<open>
  C39: folding changes no walk: when the exec masks at the checks are values that the SSA definitions allow, a
  lane gets from a body to a body in the folded function in the states in which it does without the folding,
  whichever checks are folded, in whatever order, and whether or not their blocks can be merged.
\<close>

theorem folding_keeps_walks:
  assumes "wf_mf MF" and "w = (if isWave64 P then 64 else 32)" and "lane_no P < w"
    and "\<And>m s. may_have D w (ExecVal m) (check_exec P m s)"
    and "ir_walk P (translate_cfg MF) (Body i, s) (Body j, t)"
  shows "ir_walk P (foldTriviallyActiveExecChecks (\<lambda>m. isProvablyAllOnesInt n D (ExecVal m) = Some True) merges ms
    (translate_cfg MF)) (Body i, s) (Body j, t)"
proof (rule folds_walk [OF scaffolded_checks_ok [OF translate_scaffolded [OF assms(1)]] _ assms(5)])
  fix m s
  assume "isProvablyAllOnesInt n D (ExecVal m) = Some True"
  then have "check_exec P m s = mask w" using assms(4) by (rule provably_all_ones)
  moreover have "bit (mask w :: 64 word) (lane_no P)" using assms(2,3) by (auto simp: bit_mask_iff split: if_splits)
  ultimately show "IsActive (isWave64 P) (check_exec P m s) (lane_no P)" using assms(2,3) IsActive_iff by metis
qed

text \<open>The test of the masks ends: the fuel has to exceed the number of the merges.\<close>

lemma isProvablyAllOnesInt_ends:
  assumes "finite U" and "\<forall>V ws. D V = DPhi ws \<longrightarrow> V \<in> U" and "card U < n"
  shows "isProvablyAllOnesInt n D V \<noteq> None"
  using all_ones_ends(1) [of U D "[]" n V] assms by (auto simp: isProvablyAllOnesInt_def)

subsection \<open>A small function\<close>

definition small_mf :: "mach_bb list" where
  "small_mf =
     [\<lparr>mb_number = 0, mb_vector = False, mb_raised = None, mb_canFallThrough = True, mb_endsInBranch = False, mb_next = Some 1\<rparr>,
      \<lparr>mb_number = 1, mb_vector = True, mb_raised = None, mb_canFallThrough = True, mb_endsInBranch = False, mb_next = Some 2\<rparr>,
      \<lparr>mb_number = 2, mb_vector = False, mb_raised = Some Ret, mb_canFallThrough = False, mb_endsInBranch = False, mb_next = None\<rparr>]"

definition small_lane :: "64 word \<Rightarrow> nat lane_prog" where
  "small_lane e = \<lparr>body_code = (\<lambda>m s. s + m + 1), branch_cond = (\<lambda>_ _. False), check_exec = (\<lambda>_ _. e), isWave64 = True, lane_no = 3\<rparr>"

lemma small_mf_wf: "wf_mf small_mf"
  by (simp add: wf_mf_def small_mf_def body_term_def only_bodies_def)

lemma small_steps:
  "mir_step (small_lane 7) small_mf (0, 0) = Some (1, 1)" "mir_step (small_lane 7) small_mf (1, 1) = Some (2, 1)"
  "mir_step (small_lane 7) small_mf (2, 1) = None"
  by code_simp+

lemma lifted_walk_is_lane_walk_witness:
  "ir_walk (small_lane 7) (translate_cfg small_mf) (Body 0, 0) (Body 2, 1) \<and>
   ir_step (small_lane 7) (translate_cfg small_mf) (Check 1, 1) = Some (Skip 1, 1)"
proof -
  have "mir_walk (small_lane 7) small_mf (0, 0) (2, 1)"
    using small_steps by (meson mir_here mir_next)
  from lifted_walk_is_lane_walk [OF small_mf_wf _ _ this]
  have "ir_walk (small_lane 7) (translate_cfg small_mf) (mbb_entry small_mf 0, 0) (mbb_entry small_mf 2, 1)"
    by (simp add: small_lane_def small_mf_def)
  moreover have "mbb_entry small_mf 0 = Body 0" "mbb_entry small_mf 2 = Body 2" by (simp_all add: mbb_entry_def small_mf_def)
  moreover have "ir_step (small_lane 7) (translate_cfg small_mf) (Check 1, 1) = Some (Skip 1, 1)" by code_simp
  ultimately show ?thesis by simp
qed

definition small_ssa :: "nat \<Rightarrow> ssa_def" where
  "small_ssa V = (if V = 5 then DPhi [6, 5] else if V = 6 then DConst 64 (NOT 0) else DOther)"

lemma folding_keeps_walks_witness:
  "isProvablyAllOnesInt 2 small_ssa 5 = Some True \<and>
   ir_walk (small_lane (NOT 0)) (foldTriviallyActiveExecChecks (\<lambda>m. isProvablyAllOnesInt 2 small_ssa 5 = Some True) (\<lambda>_. True) [1]
     (translate_cfg small_mf)) (Body 0, 0) (Body 2, 3)"
proof -
  let ?P = "small_lane (NOT 0)"
  have "may_have small_ssa 64 6 (NOT 0)" by (rule const_has) (simp add: small_ssa_def)
  moreover have "small_ssa 5 = DPhi [6, 5]" "6 \<in> set [6, 5 :: nat]" by (simp_all add: small_ssa_def)
  ultimately have "may_have small_ssa 64 5 (NOT 0)" by (meson phi_has)
  then have has: "may_have small_ssa 64 5 (check_exec ?P m s)" for m s by (simp add: small_lane_def)
  have "ir_step ?P (translate_cfg small_mf) (Body 0, 0) = Some (Check 1, 1)"
    "ir_step ?P (translate_cfg small_mf) (Check 1, 1) = Some (Body 1, 1)"
    "ir_step ?P (translate_cfg small_mf) (Body 1, 1) = Some (Body 2, 3)" by code_simp+
  then have "ir_walk ?P (translate_cfg small_mf) (Body 0, 0) (Body 2, 3)" by (meson walk_here walk_step)
  from folding_keeps_walks [where D = small_ssa and ExecVal = "\<lambda>_. 5" and w = 64 and n = 2 and ms = "[1]" and merges = "\<lambda>_. True",
      OF small_mf_wf _ _ _ this] has
  have "ir_walk ?P (foldTriviallyActiveExecChecks (\<lambda>m. isProvablyAllOnesInt 2 small_ssa 5 = Some True) (\<lambda>_. True) [1]
     (translate_cfg small_mf)) (Body 0, 0) (Body 2, 3)" by (simp add: small_lane_def)
  moreover have "isProvablyAllOnesInt 2 small_ssa 5 = Some True" by code_simp
  ultimately show ?thesis by simp
qed

subsection \<open>The exec mask of a called function\<close>

definition i64_of :: "half list \<Rightarrow> 64 word" where
  "i64_of v = fold (\<lambda>h a. push_bit 16 a OR ucast h) (rev v) 0"

lemma keys_seed_all: "fst ` set (seed_all seeds St) = fst ` set St \<union> fst ` set seeds"
proof (induction seeds arbitrary: St)
  case (Cons x seeds)
  obtain K T v where "x = (K, T, v)" by (cases x)
  with Cons [of "set_value K T v St"] show ?case by (simp add: seed_all_def keys_set_value)
qed (simp add: seed_all_def)

lemma keys_seed_files:
  "fst ` set (snd (fold (seed_file Sz getArg) fs (p, St))) = fst ` set St \<union> set (concat (map (slot_keys Sz) fs))"
proof (induction fs arbitrary: p St)
  case (Cons f fs)
  have "(\<lambda>I. (f, I * 2, 2)) ` {0..<length (slot_keys Sz f)} = set (slot_keys Sz f)" by (simp add: slot_keys_def)
  with Cons show ?case by (simp add: seed_file_seeds keys_seed_all image_image Un_assoc)
qed simp


definition entry_mf :: "mach_bb list" where
  "entry_mf =
     [\<lparr>mb_number = 0, mb_vector = True, mb_raised = None, mb_canFallThrough = True, mb_endsInBranch = False, mb_next = Some 1\<rparr>,
      \<lparr>mb_number = 1, mb_vector = False, mb_raised = Some Ret, mb_canFallThrough = False, mb_endsInBranch = False, mb_next = None\<rparr>]"

end
