(* ===== verification/Kernel_Metadata.thy ===== *)
theory Kernel_Metadata
  imports Luthier_Prelude
begin

text \<open>
  \<open>src/lib/ToolCodeGen/Metadata.cpp\<close>: the parser of the code object metadata (HSA metadata in
  MessagePack). The document is LLVM's (\<open>llvm::msgpack::Document\<close>): a tree of nodes with a kind each;
  its accessors assert the kind of the node, \<open>isScalar\<close> only rules out maps and arrays. A failed
  assertion is the error \<open>AssertFailed\<close>. The lemmas relate the parser to a declarative schema, to a
  writer of the same format, and its two ways of finding a kernel to each other.
\<close>

subsection \<open>Documents and metadata\<close>

datatype doc_node =
    NilNode
  | BoolNode bool
  | IntNode int
  | UIntNode "64 word"
  | StringNode string
  | ArrayNode "doc_node list"
  | MapNode "(doc_node \<times> doc_node) list"

type_synonym md_map = "(doc_node \<times> doc_node) list"

definition find_key :: "md_map \<Rightarrow> string \<Rightarrow> doc_node option" where
  "find_key m k = map_of m (StringNode k)"

definition isScalar :: "doc_node \<Rightarrow> bool" where
  "isScalar n = (case n of ArrayNode _ \<Rightarrow> False | MapNode _ \<Rightarrow> False | _ \<Rightarrow> True)"

datatype md_error =
    AssertFailed
  | VersionNotArray | VersionSize nat | MajorNotScalar | MinorNotScalar | VersionMissing
  | NotString string | KeyMissing string | NotInEnumMap string
  | Dim3NotArray | Dim3Size | XNotScalar | YNotScalar | ZNotScalar
  | NotScalar string | ArgsNotArray | ArgNotMap
  | DocNotMap | PrintfNotArray | PrintfNotString | KernelsNotArray | KernelNotMap
  | SymbolMissing | SymbolNotString

fun getUInt :: "doc_node \<Rightarrow> md_error + 64 word" where
  "getUInt (UIntNode u) = Inr u"
| "getUInt _ = Inl AssertFailed"

fun getBool :: "doc_node \<Rightarrow> md_error + bool" where
  "getBool (BoolNode b) = Inr b"
| "getBool _ = Inl AssertFailed"

record version =
  Major :: "64 word"
  Minor :: "64 word"

record dim3 =
  dimX :: "32 word"
  dimY :: "32 word"
  dimZ :: "32 word"

datatype AccessQualifier = AQ_Default | AQ_ReadOnly | AQ_WriteOnly | AQ_ReadWrite | AQ_Unknown

datatype ValueKind =
    ByValue | GlobalBuffer | DynamicSharedPointer | Sampler | Image | Pipe | Queue
  | HiddenGlobalOffsetX | HiddenGlobalOffsetY | HiddenGlobalOffsetZ | HiddenNone
  | HiddenPrintfBuffer | HiddenHostcallBuffer | HiddenDefaultQueue | HiddenCompletionAction
  | HiddenMultiGridSyncArg | HiddenBlockCountX | HiddenBlockCountY | HiddenBlockCountZ
  | HiddenGroupSizeX | HiddenGroupSizeY | HiddenGroupSizeZ | HiddenRemainderX | HiddenRemainderY
  | HiddenRemainderZ | HiddenGridDims | HiddenHeapV1 | HiddenDynamicLDSSize | HiddenPrivateBase
  | HiddenSharedBase | HiddenQueuePtr | VK_Unknown

datatype KernelKindEnum = Normal | Init | Fini

text \<open>The numbers of \<open>llvm::AMDGPUAS\<close> by their names.\<close>

datatype AMDGPUAS =
    PRIVATE_ADDRESS | GLOBAL_ADDRESS | CONSTANT_ADDRESS | LOCAL_ADDRESS | FLAT_ADDRESS | REGION_ADDRESS

definition AccessQualifierEnumMap :: "(string \<times> AccessQualifier) list" where
  "AccessQualifierEnumMap =
     [(''read_only'', AQ_ReadOnly), (''write_only'', AQ_WriteOnly), (''read_write'', AQ_ReadWrite)]"

definition AMDGPUAddressSpaceEnumMap :: "(string \<times> AMDGPUAS) list" where
  "AMDGPUAddressSpaceEnumMap =
     [(''private'', PRIVATE_ADDRESS), (''global'', GLOBAL_ADDRESS), (''constant'', CONSTANT_ADDRESS),
      (''local'', LOCAL_ADDRESS), (''generic'', FLAT_ADDRESS), (''region'', REGION_ADDRESS)]"

definition ValueKindEnumMap :: "(string \<times> ValueKind) list" where
  "ValueKindEnumMap =
     [(''by_value'', ByValue), (''global_buffer'', GlobalBuffer),
      (''dynamic_shared_pointer'', DynamicSharedPointer), (''sampler'', Sampler),
      (''image'', Image), (''pipe'', Pipe), (''queue'', Queue),
      (''hidden_global_offset_x'', HiddenGlobalOffsetX),
      (''hidden_global_offset_y'', HiddenGlobalOffsetY),
      (''hidden_global_offset_z'', HiddenGlobalOffsetZ), (''hidden_none'', HiddenNone),
      (''hidden_printf_buffer'', HiddenPrintfBuffer),
      (''hidden_hostcall_buffer'', HiddenHostcallBuffer),
      (''hidden_default_queue'', HiddenDefaultQueue),
      (''hidden_completion_action'', HiddenCompletionAction),
      (''hidden_multigrid_sync_arg'', HiddenMultiGridSyncArg),
      (''hidden_block_count_x'', HiddenBlockCountX),
      (''hidden_block_count_y'', HiddenBlockCountY),
      (''hidden_block_count_z'', HiddenBlockCountZ), (''hidden_group_size_x'', HiddenGroupSizeX),
      (''hidden_group_size_y'', HiddenGroupSizeY), (''hidden_group_size_z'', HiddenGroupSizeZ),
      (''hidden_remainder_x'', HiddenRemainderX), (''hidden_remainder_y'', HiddenRemainderY),
      (''hidden_remainder_z'', HiddenRemainderZ), (''hidden_grid_dims'', HiddenGridDims),
      (''hidden_heap_v1'', HiddenHeapV1), (''hidden_dynamic_lds_size'', HiddenDynamicLDSSize),
      (''hidden_private_base'', HiddenPrivateBase), (''hidden_shared_base'', HiddenSharedBase),
      (''hidden_queue_ptr'', HiddenQueuePtr)]"

definition KernelKindEnumMap :: "(string \<times> KernelKindEnum) list" where
  "KernelKindEnumMap = [(''normal'', Normal), (''init'', Init), (''fini'', Fini)]"

record arg_md =
  arg_Name :: "string option"
  arg_TypeName :: "string option"
  arg_Size :: "32 word"
  arg_Offset :: "32 word"
  arg_ValKind :: ValueKind
  arg_PointeeAlign :: "32 word option"
  arg_AddressSpace :: "AMDGPUAS option"
  arg_AccQual :: "AccessQualifier option"
  arg_ActualAccQual :: "AccessQualifier option"
  arg_IsConst :: bool
  arg_IsRestrict :: bool
  arg_IsVolatile :: bool
  arg_IsPipe :: bool

definition default_arg :: arg_md where
  "default_arg =
     \<lparr>arg_Name = None, arg_TypeName = None, arg_Size = 0, arg_Offset = 0, arg_ValKind = VK_Unknown,
      arg_PointeeAlign = Some 0, arg_AddressSpace = None, arg_AccQual = None, arg_ActualAccQual = None,
      arg_IsConst = False, arg_IsRestrict = False, arg_IsVolatile = False, arg_IsPipe = False\<rparr>"

record kernel_md =
  Name :: string
  Symbol :: string
  Language :: "string option"
  LanguageVersion :: "version option"
  Args :: "arg_md list option"
  ReqdWorkGroupSize :: "dim3 option"
  WorkGroupSizeHint :: "dim3 option"
  VecTypeHint :: "string option"
  DeviceEnqueueSymbol :: "string option"
  KernArgSegmentSize :: "32 word"
  GroupSegmentFixedSize :: "32 word"
  PrivateSegmentFixedSize :: "32 word"
  KernArgSegmentAlign :: "32 word"
  WaveFrontSize :: "32 word"
  SGPRCount :: "32 word"
  VGPRCount :: "32 word"
  AGPRCount :: "32 word option"
  MaxFlatWorkgroupSize :: "32 word"
  SGPRSpillCount :: "32 word option"
  VGPRSpillCount :: "32 word option"
  KernelKind :: "KernelKindEnum option"
  UsesDynamicStack :: bool
  WorkgroupProcessorMode :: bool
  UniformWorkgroupSize :: bool

definition default_kernel :: kernel_md where
  "default_kernel =
     \<lparr>Name = [], Symbol = [], Language = None, LanguageVersion = None, Args = None,
      ReqdWorkGroupSize = None, WorkGroupSizeHint = None, VecTypeHint = None, DeviceEnqueueSymbol = None,
      KernArgSegmentSize = 0, GroupSegmentFixedSize = 0, PrivateSegmentFixedSize = 0,
      KernArgSegmentAlign = 0, WaveFrontSize = 0, SGPRCount = 0, VGPRCount = 0, AGPRCount = None,
      MaxFlatWorkgroupSize = 0, SGPRSpillCount = Some 0, VGPRSpillCount = Some 0,
      KernelKind = Some Normal, UsesDynamicStack = False, WorkgroupProcessorMode = True,
      UniformWorkgroupSize = False\<rparr>"

record note_md =
  note_Version :: version
  Printf :: "string list option"

subsection \<open>Parsers of one entry\<close>

text \<open>
  An optional entry that is absent leaves the field as it was. A C++ reference parameter is the old
  value and the returned new one.
\<close>

definition parse_version :: "doc_node \<Rightarrow> md_error + version" where
  "parse_version n =
     (case n of
       ArrayNode ns \<Rightarrow>
         err_bind (err_check (length ns = 2) (VersionSize (length ns))) (\<lambda>_.
         err_bind (err_check (isScalar (ns ! 0)) MajorNotScalar) (\<lambda>_.
         err_bind (err_check (isScalar (ns ! 1)) MinorNotScalar) (\<lambda>_.
         err_bind (getUInt (ns ! 0)) (\<lambda>a.
         err_bind (getUInt (ns ! 1)) (\<lambda>b. Inr \<lparr>Major = a, Minor = b\<rparr>)))))
     | _ \<Rightarrow> Inl VersionNotArray)"

definition parseVersionMDOptional ::
  "md_map \<Rightarrow> string \<Rightarrow> version option \<Rightarrow> md_error + version option" where
  "parseVersionMDOptional m key old =
     (case find_key m key of
       None \<Rightarrow> Inr old
     | Some n \<Rightarrow> err_bind (parse_version n) (\<lambda>v. Inr (Some v)))"

definition parseVersionMDRequired :: "md_map \<Rightarrow> string \<Rightarrow> md_error + version" where
  "parseVersionMDRequired m key =
     err_bind (parseVersionMDOptional m key None) (\<lambda>v.
       case v of None \<Rightarrow> Inl VersionMissing | Some w \<Rightarrow> Inr w)"

definition parseStringMDOptional ::
  "md_map \<Rightarrow> string \<Rightarrow> string option \<Rightarrow> md_error + string option" where
  "parseStringMDOptional m key old =
     (case find_key m key of
       None \<Rightarrow> Inr old
     | Some (StringNode s) \<Rightarrow> Inr (Some s)
     | Some _ \<Rightarrow> Inl (NotString key))"

definition parseStringMDRequired :: "md_map \<Rightarrow> string \<Rightarrow> md_error + string" where
  "parseStringMDRequired m key =
     (case find_key m key of
       None \<Rightarrow> Inl (KeyMissing key)
     | Some (StringNode s) \<Rightarrow> Inr s
     | Some _ \<Rightarrow> Inl (NotString key))"

definition parseEnumMDOptional ::
  "md_map \<Rightarrow> string \<Rightarrow> (string \<times> 'e) list \<Rightarrow> 'e option \<Rightarrow> md_error + 'e option" where
  "parseEnumMDOptional m key EnumMap old =
     err_bind (parseStringMDOptional m key None) (\<lambda>EnumString.
       case EnumString of
         None \<Rightarrow> Inr old
       | Some s \<Rightarrow> (case map_of EnumMap s of None \<Rightarrow> Inl (NotInEnumMap key) | Some e \<Rightarrow> Inr (Some e)))"

definition parseEnumMDRequired :: "md_map \<Rightarrow> string \<Rightarrow> (string \<times> 'e) list \<Rightarrow> md_error + 'e" where
  "parseEnumMDRequired m key EnumMap =
     err_bind (parseStringMDRequired m key) (\<lambda>s.
       case map_of EnumMap s of None \<Rightarrow> Inl (NotInEnumMap key) | Some e \<Rightarrow> Inr e)"

definition parse_dim3 :: "doc_node \<Rightarrow> md_error + dim3" where
  "parse_dim3 n =
     (case n of
       ArrayNode ns \<Rightarrow>
         err_bind (err_check (length ns = 3) Dim3Size) (\<lambda>_.
         err_bind (err_check (isScalar (ns ! 0)) XNotScalar) (\<lambda>_.
         err_bind (err_check (isScalar (ns ! 1)) YNotScalar) (\<lambda>_.
         err_bind (err_check (isScalar (ns ! 2)) ZNotScalar) (\<lambda>_.
         err_bind (getUInt (ns ! 0)) (\<lambda>x.
         err_bind (getUInt (ns ! 1)) (\<lambda>y.
         err_bind (getUInt (ns ! 2)) (\<lambda>z. Inr \<lparr>dimX = ucast x, dimY = ucast y, dimZ = ucast z\<rparr>)))))))
     | _ \<Rightarrow> Inl Dim3NotArray)"

definition parseDim3MDOptional :: "md_map \<Rightarrow> string \<Rightarrow> dim3 option \<Rightarrow> md_error + dim3 option" where
  "parseDim3MDOptional m key old =
     (case find_key m key of
       None \<Rightarrow> Inr old
     | Some n \<Rightarrow> err_bind (parse_dim3 n) (\<lambda>d. Inr (Some d)))"

definition parseDim3MDRequired :: "md_map \<Rightarrow> string \<Rightarrow> md_error + dim3" where
  "parseDim3MDRequired m key =
     err_bind (parseDim3MDOptional m key None) (\<lambda>v.
       case v of None \<Rightarrow> Inl (KeyMissing key) | Some d \<Rightarrow> Inr d)"

definition parseUIntMDOptional ::
  "md_map \<Rightarrow> string \<Rightarrow> 32 word option \<Rightarrow> md_error + 32 word option" where
  "parseUIntMDOptional m key old =
     (case find_key m key of
       None \<Rightarrow> Inr old
     | Some n \<Rightarrow>
         err_bind (err_check (isScalar n) (NotScalar key)) (\<lambda>_.
         err_bind (getUInt n) (\<lambda>u. Inr (Some (ucast u)))))"

definition parseUIntMDRequired :: "md_map \<Rightarrow> string \<Rightarrow> md_error + 32 word" where
  "parseUIntMDRequired m key =
     (case find_key m key of
       None \<Rightarrow> Inl (KeyMissing key)
     | Some n \<Rightarrow>
         err_bind (err_check (isScalar n) (NotScalar key)) (\<lambda>_.
         err_bind (getUInt n) (\<lambda>u. Inr (ucast u))))"

definition parseBoolMDOptional :: "md_map \<Rightarrow> string \<Rightarrow> bool \<Rightarrow> md_error + bool" where
  "parseBoolMDOptional m key old =
     (case find_key m key of
       None \<Rightarrow> Inr old
     | Some n \<Rightarrow> err_bind (err_check (isScalar n) (NotScalar key)) (\<lambda>_. getBool n))"

definition parseBoolMDRequired :: "md_map \<Rightarrow> string \<Rightarrow> md_error + bool" where
  "parseBoolMDRequired m key =
     (case find_key m key of
       None \<Rightarrow> Inl (KeyMissing key)
     | Some n \<Rightarrow> err_bind (err_check (isScalar n) (NotScalar key)) (\<lambda>_. getBool n))"

subsection \<open>Kernels\<close>

definition parseArgMD :: "md_map \<Rightarrow> arg_md \<Rightarrow> md_error + arg_md" where
  "parseArgMD m a =
     err_bind (parseStringMDOptional m ''.name'' (arg_Name a)) (\<lambda>v. let a = a\<lparr>arg_Name := v\<rparr> in
     err_bind (parseStringMDOptional m ''.type_name'' (arg_TypeName a)) (\<lambda>v. let a = a\<lparr>arg_TypeName := v\<rparr> in
     err_bind (parseUIntMDRequired m ''.size'') (\<lambda>v. let a = a\<lparr>arg_Size := v\<rparr> in
     err_bind (parseUIntMDRequired m ''.offset'') (\<lambda>v. let a = a\<lparr>arg_Offset := v\<rparr> in
     err_bind (parseEnumMDRequired m ''.value_kind'' ValueKindEnumMap) (\<lambda>v. let a = a\<lparr>arg_ValKind := v\<rparr> in
     err_bind (parseUIntMDOptional m ''.pointee_align'' (arg_PointeeAlign a)) (\<lambda>v. let a = a\<lparr>arg_PointeeAlign := v\<rparr> in
     err_bind (parseEnumMDOptional m ''.address_space'' AMDGPUAddressSpaceEnumMap (arg_AddressSpace a)) (\<lambda>v. let a = a\<lparr>arg_AddressSpace := v\<rparr> in
     err_bind (parseEnumMDOptional m ''.access'' AccessQualifierEnumMap (arg_AccQual a)) (\<lambda>v. let a = a\<lparr>arg_AccQual := v\<rparr> in
     err_bind (parseEnumMDOptional m ''.actual_access'' AccessQualifierEnumMap (arg_ActualAccQual a)) (\<lambda>v. let a = a\<lparr>arg_ActualAccQual := v\<rparr> in
     err_bind (parseBoolMDOptional m ''.is_const'' (arg_IsConst a)) (\<lambda>v. let a = a\<lparr>arg_IsConst := v\<rparr> in
     err_bind (parseBoolMDOptional m ''.is_restrict'' (arg_IsRestrict a)) (\<lambda>v. let a = a\<lparr>arg_IsRestrict := v\<rparr> in
     err_bind (parseBoolMDOptional m ''.is_volatile'' (arg_IsVolatile a)) (\<lambda>v. let a = a\<lparr>arg_IsVolatile := v\<rparr> in
     err_bind (parseBoolMDOptional m ''.is_pipe'' (arg_IsPipe a)) (\<lambda>v. Inr (a\<lparr>arg_IsPipe := v\<rparr>))))))))))))))"

fun parse_arg_nodes :: "doc_node list \<Rightarrow> arg_md list \<Rightarrow> md_error + arg_md list" where
  "parse_arg_nodes [] as = Inr as"
| "parse_arg_nodes (MapNode m # ns) as =
     err_bind (parseArgMD m default_arg) (\<lambda>a. parse_arg_nodes ns (as @ [a]))"
| "parse_arg_nodes (_ # ns) as = Inl ArgNotMap"

definition parse_args :: "md_map \<Rightarrow> arg_md list option \<Rightarrow> md_error + arg_md list option" where
  "parse_args m old =
     (case find_key m ''.args'' of
       None \<Rightarrow> Inr old
     | Some (ArrayNode ns) \<Rightarrow> err_bind (parse_arg_nodes ns []) (\<lambda>as. Inr (Some as))
     | Some _ \<Rightarrow> Inl ArgsNotArray)"

definition parseKernelMD :: "md_map \<Rightarrow> kernel_md \<Rightarrow> md_error + kernel_md" where
  "parseKernelMD m k =
     err_bind (parseStringMDRequired m ''.name'') (\<lambda>v. let k = k\<lparr>Name := v\<rparr> in
     err_bind (parseStringMDRequired m ''.symbol'') (\<lambda>v. let k = k\<lparr>Symbol := v\<rparr> in
     err_bind (parseStringMDOptional m ''.language'' (Language k)) (\<lambda>v. let k = k\<lparr>Language := v\<rparr> in
     err_bind (parseVersionMDOptional m ''.language_version'' (LanguageVersion k)) (\<lambda>v. let k = k\<lparr>LanguageVersion := v\<rparr> in
     err_bind (parse_args m (Args k)) (\<lambda>v. let k = k\<lparr>Args := v\<rparr> in
     err_bind (parseDim3MDOptional m ''.reqd_workgroup_size'' (ReqdWorkGroupSize k)) (\<lambda>v. let k = k\<lparr>ReqdWorkGroupSize := v\<rparr> in
     err_bind (parseDim3MDOptional m ''.workgroup_size_hint'' (WorkGroupSizeHint k)) (\<lambda>v. let k = k\<lparr>WorkGroupSizeHint := v\<rparr> in
     err_bind (parseStringMDOptional m ''.vec_type_hint'' (VecTypeHint k)) (\<lambda>v. let k = k\<lparr>VecTypeHint := v\<rparr> in
     err_bind (parseStringMDOptional m ''.device_enqueue_symbol'' (DeviceEnqueueSymbol k)) (\<lambda>v. let k = k\<lparr>DeviceEnqueueSymbol := v\<rparr> in
     err_bind (parseUIntMDRequired m ''.kernarg_segment_size'') (\<lambda>v. let k = k\<lparr>KernArgSegmentSize := v\<rparr> in
     err_bind (parseUIntMDRequired m ''.group_segment_fixed_size'') (\<lambda>v. let k = k\<lparr>GroupSegmentFixedSize := v\<rparr> in
     err_bind (parseUIntMDRequired m ''.private_segment_fixed_size'') (\<lambda>v. let k = k\<lparr>PrivateSegmentFixedSize := v\<rparr> in
     err_bind (parseUIntMDRequired m ''.kernarg_segment_align'') (\<lambda>v. let k = k\<lparr>KernArgSegmentAlign := v\<rparr> in
     err_bind (parseUIntMDRequired m ''.wavefront_size'') (\<lambda>v. let k = k\<lparr>WaveFrontSize := v\<rparr> in
     err_bind (parseUIntMDRequired m ''.sgpr_count'') (\<lambda>v. let k = k\<lparr>SGPRCount := v\<rparr> in
     err_bind (parseUIntMDRequired m ''.vgpr_count'') (\<lambda>v. let k = k\<lparr>VGPRCount := v\<rparr> in
     err_bind (parseUIntMDOptional m ''.agpr_count'' (AGPRCount k)) (\<lambda>v. let k = k\<lparr>AGPRCount := v\<rparr> in
     err_bind (parseUIntMDRequired m ''.max_flat_workgroup_size'') (\<lambda>v. let k = k\<lparr>MaxFlatWorkgroupSize := v\<rparr> in
     err_bind (parseUIntMDOptional m ''.sgpr_spill_count'' (SGPRSpillCount k)) (\<lambda>v. let k = k\<lparr>SGPRSpillCount := v\<rparr> in
     err_bind (parseUIntMDOptional m ''.vgpr_spill_count'' (VGPRSpillCount k)) (\<lambda>v. let k = k\<lparr>VGPRSpillCount := v\<rparr> in
     err_bind (parseEnumMDOptional m ''.kind'' KernelKindEnumMap (KernelKind k)) (\<lambda>v. let k = k\<lparr>KernelKind := v\<rparr> in
     err_bind (parseBoolMDOptional m ''.uses_dynamic_stack'' (UsesDynamicStack k)) (\<lambda>v. let k = k\<lparr>UsesDynamicStack := v\<rparr> in
     err_bind (parseUIntMDOptional m ''.workgroup_processor_mode'' (Some 0)) (\<lambda>v.
       let k = k\<lparr>WorkgroupProcessorMode := (the v = 1)\<rparr> in
     err_bind (parseUIntMDOptional m ''.uniform_work_group_size'' (Some 0)) (\<lambda>v.
       Inr (k\<lparr>UniformWorkgroupSize := (the v = 1)\<rparr>)))))))))))))))))))))))))"

subsection \<open>The parser\<close>

fun parse_printf :: "doc_node list \<Rightarrow> string list \<Rightarrow> md_error + string list" where
  "parse_printf [] ps = Inr ps"
| "parse_printf (StringNode s # ns) ps = parse_printf ns (ps @ [s])"
| "parse_printf (_ # ns) ps = Inl PrintfNotString"

definition parseNoteMetaData :: "doc_node \<Rightarrow> md_error + note_md" where
  "parseNoteMetaData root =
     (case root of
       MapNode m \<Rightarrow>
         err_bind (parseVersionMDRequired m ''amdhsa.version'') (\<lambda>v.
           case find_key m ''amdhsa.printf'' of
             None \<Rightarrow> Inr \<lparr>note_Version = v, Printf = None\<rparr>
           | Some (ArrayNode ns) \<Rightarrow>
               err_bind (parse_printf ns []) (\<lambda>ps. Inr \<lparr>note_Version = v, Printf = Some ps\<rparr>)
           | Some _ \<Rightarrow> Inl PrintfNotArray)
     | _ \<Rightarrow> Inl DocNotMap)"

definition kernel_symbol :: "md_map \<Rightarrow> md_error + string" where
  "kernel_symbol m =
     (case find_key m ''.symbol'' of
       None \<Rightarrow> Inl SymbolMissing
     | Some (StringNode s) \<Rightarrow> Inr s
     | Some _ \<Rightarrow> Inl SymbolNotString)"

fun parse_all_nodes ::
  "doc_node list \<Rightarrow> (string \<rightharpoonup> kernel_md) \<Rightarrow> md_error + (string \<rightharpoonup> kernel_md)" where
  "parse_all_nodes [] Out = Inr Out"
| "parse_all_nodes (MapNode m # ns) Out =
     err_bind (kernel_symbol m) (\<lambda>s.
     err_bind (parseKernelMD m (case Out s of None \<Rightarrow> default_kernel | Some k \<Rightarrow> k)) (\<lambda>k.
       parse_all_nodes ns (Out(s \<mapsto> k))))"
| "parse_all_nodes (_ # ns) Out = Inl KernelNotMap"

definition kernel_nodes :: "doc_node \<Rightarrow> md_error + doc_node list" where
  "kernel_nodes root =
     (case root of
       MapNode m \<Rightarrow>
         (case find_key m ''amdhsa.kernels'' of
           None \<Rightarrow> Inr []
         | Some (ArrayNode ns) \<Rightarrow> Inr ns
         | Some _ \<Rightarrow> Inl KernelsNotArray)
     | _ \<Rightarrow> Inl DocNotMap)"

definition parseAllKernelsMetadata :: "doc_node \<Rightarrow> md_error + (string \<rightharpoonup> kernel_md)" where
  "parseAllKernelsMetadata root = err_bind (kernel_nodes root) (\<lambda>ns. parse_all_nodes ns Map.empty)"

fun parse_one_node :: "string \<Rightarrow> doc_node list \<Rightarrow> md_error + kernel_md" where
  "parse_one_node name [] = Inr default_kernel"
| "parse_one_node name (MapNode m # ns) =
     err_bind (kernel_symbol m) (\<lambda>s.
       if name = s then parseKernelMD m default_kernel else parse_one_node name ns)"
| "parse_one_node name (_ # ns) = Inl KernelNotMap"

definition parseKernelMetadata :: "doc_node \<Rightarrow> string \<Rightarrow> md_error + kernel_md" where
  "parseKernelMetadata root KernelName = err_bind (kernel_nodes root) (parse_one_node KernelName)"

subsection \<open>A schema of the metadata\<close>

text \<open>
  The format as a table: for each key whether it is required and which nodes it takes; and what each
  field reads as. The parser accepts exactly the maps that conform to the table, and a field does not
  depend on the entries before it.
\<close>

type_synonym schema = "(string \<times> bool \<times> (doc_node \<Rightarrow> bool)) list"

definition entry :: "md_map \<Rightarrow> string \<Rightarrow> bool \<Rightarrow> (doc_node \<Rightarrow> bool) \<Rightarrow> bool" where
  "entry m key req P = (case find_key m key of None \<Rightarrow> \<not> req | Some n \<Rightarrow> P n)"

definition conforms :: "schema \<Rightarrow> md_map \<Rightarrow> bool" where
  "conforms sch m = list_all (\<lambda>(key, req, P). entry m key req P) sch"

definition is_string :: "doc_node \<Rightarrow> bool" where
  "is_string n = (case n of StringNode _ \<Rightarrow> True | _ \<Rightarrow> False)"

definition is_uint :: "doc_node \<Rightarrow> bool" where
  "is_uint n = (case n of UIntNode _ \<Rightarrow> True | _ \<Rightarrow> False)"

definition is_bool :: "doc_node \<Rightarrow> bool" where
  "is_bool n = (case n of BoolNode _ \<Rightarrow> True | _ \<Rightarrow> False)"

definition is_uints :: "nat \<Rightarrow> doc_node \<Rightarrow> bool" where
  "is_uints k n = (case n of ArrayNode ns \<Rightarrow> length ns = k \<and> list_all is_uint ns | _ \<Rightarrow> False)"

definition is_enum :: "(string \<times> 'e) list \<Rightarrow> doc_node \<Rightarrow> bool" where
  "is_enum em n = (case n of StringNode s \<Rightarrow> map_of em s \<noteq> None | _ \<Rightarrow> False)"

definition arg_schema :: schema where
  "arg_schema =
     [(''.name'', False, is_string),
      (''.type_name'', False, is_string),
      (''.size'', True, is_uint),
      (''.offset'', True, is_uint),
      (''.value_kind'', True, is_enum ValueKindEnumMap),
      (''.pointee_align'', False, is_uint),
      (''.address_space'', False, is_enum AMDGPUAddressSpaceEnumMap),
      (''.access'', False, is_enum AccessQualifierEnumMap),
      (''.actual_access'', False, is_enum AccessQualifierEnumMap),
      (''.is_const'', False, is_bool),
      (''.is_restrict'', False, is_bool),
      (''.is_volatile'', False, is_bool),
      (''.is_pipe'', False, is_bool)]"

definition is_args :: "doc_node \<Rightarrow> bool" where
  "is_args n =
     (case n of
       ArrayNode ns \<Rightarrow> list_all (\<lambda>a. case a of MapNode m \<Rightarrow> conforms arg_schema m | _ \<Rightarrow> False) ns
     | _ \<Rightarrow> False)"

definition kernel_schema :: schema where
  "kernel_schema =
     [(''.name'', True, is_string),
      (''.symbol'', True, is_string),
      (''.language'', False, is_string),
      (''.language_version'', False, is_uints 2),
      (''.args'', False, is_args),
      (''.reqd_workgroup_size'', False, is_uints 3),
      (''.workgroup_size_hint'', False, is_uints 3),
      (''.vec_type_hint'', False, is_string),
      (''.device_enqueue_symbol'', False, is_string),
      (''.kernarg_segment_size'', True, is_uint),
      (''.group_segment_fixed_size'', True, is_uint),
      (''.private_segment_fixed_size'', True, is_uint),
      (''.kernarg_segment_align'', True, is_uint),
      (''.wavefront_size'', True, is_uint),
      (''.sgpr_count'', True, is_uint),
      (''.vgpr_count'', True, is_uint),
      (''.agpr_count'', False, is_uint),
      (''.max_flat_workgroup_size'', True, is_uint),
      (''.sgpr_spill_count'', False, is_uint),
      (''.vgpr_spill_count'', False, is_uint),
      (''.kind'', False, is_enum KernelKindEnumMap),
      (''.uses_dynamic_stack'', False, is_bool),
      (''.workgroup_processor_mode'', False, is_uint),
      (''.uniform_work_group_size'', False, is_uint)]"

definition rd :: "md_map \<Rightarrow> string \<Rightarrow> (doc_node \<Rightarrow> 'a) \<Rightarrow> 'a \<Rightarrow> 'a" where
  "rd m key f old = (case find_key m key of None \<Rightarrow> old | Some n \<Rightarrow> f n)"

definition string_of :: "doc_node \<Rightarrow> string" where
  "string_of n = (case n of StringNode s \<Rightarrow> s | _ \<Rightarrow> [])"

definition uint_of :: "doc_node \<Rightarrow> 64 word" where
  "uint_of n = (case n of UIntNode u \<Rightarrow> u | _ \<Rightarrow> 0)"

definition bool_of :: "doc_node \<Rightarrow> bool" where
  "bool_of n = (case n of BoolNode b \<Rightarrow> b | _ \<Rightarrow> False)"

definition uints_of :: "doc_node \<Rightarrow> 64 word list" where
  "uints_of n = (case n of ArrayNode ns \<Rightarrow> map uint_of ns | _ \<Rightarrow> [])"

definition version_of :: "doc_node \<Rightarrow> version" where
  "version_of n = \<lparr>Major = uints_of n ! 0, Minor = uints_of n ! 1\<rparr>"

definition dim3_of :: "doc_node \<Rightarrow> dim3" where
  "dim3_of n =
     \<lparr>dimX = ucast (uints_of n ! 0), dimY = ucast (uints_of n ! 1), dimZ = ucast (uints_of n ! 2)\<rparr>"

definition enum_of :: "(string \<times> 'e) list \<Rightarrow> doc_node \<Rightarrow> 'e option" where
  "enum_of em n = map_of em (string_of n)"

definition word_of :: "doc_node \<Rightarrow> 32 word" where
  "word_of n = ucast (uint_of n)"

definition read_arg :: "md_map \<Rightarrow> arg_md \<Rightarrow> arg_md" where
  "read_arg m a =
     \<lparr>arg_Name = rd m ''.name'' (Some \<circ> string_of) (arg_Name a),
      arg_TypeName = rd m ''.type_name'' (Some \<circ> string_of) (arg_TypeName a),
      arg_Size = rd m ''.size'' word_of 0,
      arg_Offset = rd m ''.offset'' word_of 0,
      arg_ValKind = the (rd m ''.value_kind'' (enum_of ValueKindEnumMap) None),
      arg_PointeeAlign = rd m ''.pointee_align'' (Some \<circ> word_of) (arg_PointeeAlign a),
      arg_AddressSpace = rd m ''.address_space'' (enum_of AMDGPUAddressSpaceEnumMap) (arg_AddressSpace a),
      arg_AccQual = rd m ''.access'' (enum_of AccessQualifierEnumMap) (arg_AccQual a),
      arg_ActualAccQual = rd m ''.actual_access'' (enum_of AccessQualifierEnumMap) (arg_ActualAccQual a),
      arg_IsConst = rd m ''.is_const'' bool_of (arg_IsConst a),
      arg_IsRestrict = rd m ''.is_restrict'' bool_of (arg_IsRestrict a),
      arg_IsVolatile = rd m ''.is_volatile'' bool_of (arg_IsVolatile a),
      arg_IsPipe = rd m ''.is_pipe'' bool_of (arg_IsPipe a)\<rparr>"

definition args_of :: "doc_node \<Rightarrow> arg_md list" where
  "args_of n =
     (case n of
       ArrayNode ns \<Rightarrow> map (\<lambda>a. case a of MapNode m \<Rightarrow> read_arg m default_arg | _ \<Rightarrow> default_arg) ns
     | _ \<Rightarrow> [])"

definition read_kernel :: "md_map \<Rightarrow> kernel_md \<Rightarrow> kernel_md" where
  "read_kernel m k =
     \<lparr>Name = rd m ''.name'' string_of [],
      Symbol = rd m ''.symbol'' string_of [],
      Language = rd m ''.language'' (Some \<circ> string_of) (Language k),
      LanguageVersion = rd m ''.language_version'' (Some \<circ> version_of) (LanguageVersion k),
      Args = rd m ''.args'' (Some \<circ> args_of) (Args k),
      ReqdWorkGroupSize = rd m ''.reqd_workgroup_size'' (Some \<circ> dim3_of) (ReqdWorkGroupSize k),
      WorkGroupSizeHint = rd m ''.workgroup_size_hint'' (Some \<circ> dim3_of) (WorkGroupSizeHint k),
      VecTypeHint = rd m ''.vec_type_hint'' (Some \<circ> string_of) (VecTypeHint k),
      DeviceEnqueueSymbol = rd m ''.device_enqueue_symbol'' (Some \<circ> string_of) (DeviceEnqueueSymbol k),
      KernArgSegmentSize = rd m ''.kernarg_segment_size'' word_of 0,
      GroupSegmentFixedSize = rd m ''.group_segment_fixed_size'' word_of 0,
      PrivateSegmentFixedSize = rd m ''.private_segment_fixed_size'' word_of 0,
      KernArgSegmentAlign = rd m ''.kernarg_segment_align'' word_of 0,
      WaveFrontSize = rd m ''.wavefront_size'' word_of 0,
      SGPRCount = rd m ''.sgpr_count'' word_of 0,
      VGPRCount = rd m ''.vgpr_count'' word_of 0,
      AGPRCount = rd m ''.agpr_count'' (Some \<circ> word_of) (AGPRCount k),
      MaxFlatWorkgroupSize = rd m ''.max_flat_workgroup_size'' word_of 0,
      SGPRSpillCount = rd m ''.sgpr_spill_count'' (Some \<circ> word_of) (SGPRSpillCount k),
      VGPRSpillCount = rd m ''.vgpr_spill_count'' (Some \<circ> word_of) (VGPRSpillCount k),
      KernelKind = rd m ''.kind'' (enum_of KernelKindEnumMap) (KernelKind k),
      UsesDynamicStack = rd m ''.uses_dynamic_stack'' bool_of (UsesDynamicStack k),
      WorkgroupProcessorMode = (rd m ''.workgroup_processor_mode'' word_of 0 = 1),
      UniformWorkgroupSize = (rd m ''.uniform_work_group_size'' word_of 0 = 1)\<rparr>"

lemmas node_defs = isScalar_def is_string_def is_uint_def is_bool_def is_enum_def
  string_of_def uint_of_def bool_of_def word_of_def enum_of_def

lemma getUInt_Inr: "getUInt n = Inr u \<longleftrightarrow> is_uint n \<and> u = uint_of n"
  by (cases n) (auto simp: node_defs)

lemma getBool_Inr: "getBool n = Inr b \<longleftrightarrow> is_bool n \<and> b = bool_of n"
  by (cases n) (auto simp: node_defs)

lemma is_uint_isScalar: "is_uint n \<Longrightarrow> isScalar n"
  by (cases n) (auto simp: node_defs)

lemma parse_version_Inr: "parse_version n = Inr v \<longleftrightarrow> is_uints 2 n \<and> v = version_of n"
proof (cases n)
  case (ArrayNode ns)
  show ?thesis
  proof (cases "length ns = 2")
    case True
    then obtain a b where "ns = [a, b]"
      by (metis One_nat_def length_0_conv length_Suc_conv numeral_2_eq_2)
    then show ?thesis
      by (auto simp: ArrayNode parse_version_def err_bind_Inr_iff getUInt_Inr is_uints_def version_of_def
          uints_of_def is_uint_isScalar)
  qed (simp add: ArrayNode parse_version_def err_bind_Inr_iff is_uints_def)
qed (simp_all add: parse_version_def is_uints_def)

lemma parse_dim3_Inr: "parse_dim3 n = Inr d \<longleftrightarrow> is_uints 3 n \<and> d = dim3_of n"
proof (cases n)
  case (ArrayNode ns)
  show ?thesis
  proof (cases "length ns = 3")
    case True
    then obtain a b c where "ns = [a, b, c]"
      by (metis One_nat_def length_0_conv length_Suc_conv numeral_3_eq_3)
    then show ?thesis
      by (auto simp: ArrayNode parse_dim3_def err_bind_Inr_iff getUInt_Inr is_uints_def dim3_of_def
          uints_of_def is_uint_isScalar)
  qed (simp add: ArrayNode parse_dim3_def err_bind_Inr_iff is_uints_def)
qed (simp_all add: parse_dim3_def is_uints_def)

named_theorems entry_Inr \<open>when the parser of an entry succeeds, and with what\<close>

lemma parseVersionMDOptional_Inr [entry_Inr]:
  "parseVersionMDOptional m key old = Inr v \<longleftrightarrow>
     entry m key False (is_uints 2) \<and> v = rd m key (Some \<circ> version_of) old"
  by (auto simp: parseVersionMDOptional_def entry_def rd_def err_bind_Inr_iff parse_version_Inr
      split: option.splits)

lemma parseDim3MDOptional_Inr [entry_Inr]:
  "parseDim3MDOptional m key old = Inr v \<longleftrightarrow>
     entry m key False (is_uints 3) \<and> v = rd m key (Some \<circ> dim3_of) old"
  by (auto simp: parseDim3MDOptional_def entry_def rd_def err_bind_Inr_iff parse_dim3_Inr
      split: option.splits)

lemma parseStringMDOptional_Inr [entry_Inr]:
  "parseStringMDOptional m key old = Inr v \<longleftrightarrow>
     entry m key False is_string \<and> v = rd m key (Some \<circ> string_of) old"
  by (auto simp: parseStringMDOptional_def entry_def rd_def node_defs split: option.splits doc_node.splits)

lemma parseStringMDRequired_Inr [entry_Inr]:
  "parseStringMDRequired m key = Inr v \<longleftrightarrow> entry m key True is_string \<and> v = rd m key string_of []"
  by (auto simp: parseStringMDRequired_def entry_def rd_def node_defs split: option.splits doc_node.splits)

lemma parseEnumMDOptional_Inr [entry_Inr]:
  "parseEnumMDOptional m key em old = Inr v \<longleftrightarrow>
     entry m key False (is_enum em) \<and> v = rd m key (enum_of em) old"
proof (cases "find_key m key")
  case None
  then show ?thesis
    by (auto simp: parseEnumMDOptional_def parseStringMDOptional_def entry_def rd_def)
next
  case (Some n)
  then show ?thesis
    by (cases n)
      (auto simp: parseEnumMDOptional_def parseStringMDOptional_def entry_def rd_def node_defs split: option.splits)
qed

lemma parseEnumMDRequired_Inr [entry_Inr]:
  "parseEnumMDRequired m key em = Inr v \<longleftrightarrow>
     entry m key True (is_enum em) \<and> v = the (rd m key (enum_of em) None)"
proof (cases "find_key m key")
  case None
  then show ?thesis
    by (auto simp: parseEnumMDRequired_def parseStringMDRequired_def entry_def rd_def)
next
  case (Some n)
  then show ?thesis
    by (cases n)
      (auto simp: parseEnumMDRequired_def parseStringMDRequired_def entry_def rd_def node_defs split: option.splits)
qed

lemma parseUIntMDOptional_Inr [entry_Inr]:
  "parseUIntMDOptional m key old = Inr v \<longleftrightarrow>
     entry m key False is_uint \<and> v = rd m key (Some \<circ> word_of) old"
  by (auto simp: parseUIntMDOptional_def entry_def rd_def node_defs err_bind_Inr_iff getUInt_Inr
      split: option.splits doc_node.splits)

lemma parseUIntMDRequired_Inr [entry_Inr]:
  "parseUIntMDRequired m key = Inr v \<longleftrightarrow> entry m key True is_uint \<and> v = rd m key word_of 0"
  by (auto simp: parseUIntMDRequired_def entry_def rd_def node_defs err_bind_Inr_iff getUInt_Inr
      split: option.splits doc_node.splits)

lemma parseBoolMDOptional_Inr [entry_Inr]:
  "parseBoolMDOptional m key old = Inr v \<longleftrightarrow> entry m key False is_bool \<and> v = rd m key bool_of old"
  by (auto simp: parseBoolMDOptional_def entry_def rd_def node_defs err_bind_Inr_iff getBool_Inr
      split: option.splits doc_node.splits)

lemma parseArgMD_Inr: "parseArgMD m a = Inr a' \<longleftrightarrow> conforms arg_schema m \<and> a' = read_arg m a"
  by (simp add: parseArgMD_def err_bind_Inr_iff entry_Inr Let_def conforms_def arg_schema_def read_arg_def
      conj_ac cong: conj_cong) auto

lemma parse_arg_nodes_Inr:
  "parse_arg_nodes ns as = Inr bs \<longleftrightarrow> is_args (ArrayNode ns) \<and> bs = as @ args_of (ArrayNode ns)"
  by (induction ns as rule: parse_arg_nodes.induct)
    (auto simp: is_args_def args_of_def err_bind_Inr_iff parseArgMD_Inr)

lemma parse_args_Inr [entry_Inr]:
  "parse_args m old = Inr v \<longleftrightarrow> entry m ''.args'' False is_args \<and> v = rd m ''.args'' (Some \<circ> args_of) old"
  by (auto simp: parse_args_def entry_def rd_def err_bind_Inr_iff parse_arg_nodes_Inr is_args_def
      split: option.splits doc_node.splits)

lemma rd_the: "the (rd m key (Some \<circ> f) (Some x)) = rd m key f x"
  by (simp add: rd_def split: option.splits)

lemma err_bind_entry:
  "(\<And>v. p = Inr v \<longleftrightarrow> C \<and> v = x) \<Longrightarrow> err_bind p f = Inr y \<longleftrightarrow> C \<and> f x = Inr y"
  by (auto simp: err_bind_Inr_iff)

lemmas bind_entry = entry_Inr [THEN err_bind_entry]

lemma parseKernelMD_Inr: "parseKernelMD m k = Inr k' \<longleftrightarrow> conforms kernel_schema m \<and> k' = read_kernel m k"
  unfolding parseKernelMD_def bind_entry Let_def conforms_def kernel_schema_def read_kernel_def
  by (cases k) (simp add: bind_entry rd_the eq_commute [of k'])

subsection \<open>A writer of the format\<close>

text \<open>
  The map that a compiler emits for a metadata record: required entries always, optional ones when they
  have a value, flags when they are set. Fields that are never absent after parsing, and enum values
  without a name, cannot be written.
\<close>

definition version_node :: "version \<Rightarrow> doc_node" where
  "version_node v = ArrayNode [UIntNode (Major v), UIntNode (Minor v)]"

definition dim3_node :: "dim3 \<Rightarrow> doc_node" where
  "dim3_node d = ArrayNode [UIntNode (ucast (dimX d)), UIntNode (ucast (dimY d)), UIntNode (ucast (dimZ d))]"

definition word_node :: "32 word \<Rightarrow> doc_node" where
  "word_node w = UIntNode (ucast w)"

definition bool_node :: "bool \<Rightarrow> doc_node option" where
  "bool_node b = (if b then Some (BoolNode True) else None)"

definition flag_node :: "bool \<Rightarrow> doc_node option" where
  "flag_node b = (if b then Some (UIntNode 1) else None)"

definition enum_node :: "(string \<times> 'e) list \<Rightarrow> 'e \<Rightarrow> doc_node" where
  "enum_node em e = StringNode (fst (the (find (\<lambda>p. snd p = e) em)))"

definition doc_map :: "(string \<times> doc_node option) list \<Rightarrow> md_map" where
  "doc_map fs = concat (map (\<lambda>(key, n). case n of None \<Rightarrow> [] | Some d \<Rightarrow> [(StringNode key, d)]) fs)"

definition arg_fields :: "arg_md \<Rightarrow> (string \<times> doc_node option) list" where
  "arg_fields a =
     [(''.name'', map_option StringNode (arg_Name a)),
      (''.type_name'', map_option StringNode (arg_TypeName a)),
      (''.size'', Some (word_node (arg_Size a))),
      (''.offset'', Some (word_node (arg_Offset a))),
      (''.value_kind'', Some (enum_node ValueKindEnumMap (arg_ValKind a))),
      (''.pointee_align'', map_option word_node (arg_PointeeAlign a)),
      (''.address_space'', map_option (enum_node AMDGPUAddressSpaceEnumMap) (arg_AddressSpace a)),
      (''.access'', map_option (enum_node AccessQualifierEnumMap) (arg_AccQual a)),
      (''.actual_access'', map_option (enum_node AccessQualifierEnumMap) (arg_ActualAccQual a)),
      (''.is_const'', bool_node (arg_IsConst a)),
      (''.is_restrict'', bool_node (arg_IsRestrict a)),
      (''.is_volatile'', bool_node (arg_IsVolatile a)),
      (''.is_pipe'', bool_node (arg_IsPipe a))]"

definition args_node :: "arg_md list \<Rightarrow> doc_node" where
  "args_node as = ArrayNode (map (MapNode \<circ> doc_map \<circ> arg_fields) as)"

definition kernel_fields :: "kernel_md \<Rightarrow> (string \<times> doc_node option) list" where
  "kernel_fields k =
     [(''.name'', Some (StringNode (Name k))),
      (''.symbol'', Some (StringNode (Symbol k))),
      (''.language'', map_option StringNode (Language k)),
      (''.language_version'', map_option version_node (LanguageVersion k)),
      (''.args'', map_option args_node (Args k)),
      (''.reqd_workgroup_size'', map_option dim3_node (ReqdWorkGroupSize k)),
      (''.workgroup_size_hint'', map_option dim3_node (WorkGroupSizeHint k)),
      (''.vec_type_hint'', map_option StringNode (VecTypeHint k)),
      (''.device_enqueue_symbol'', map_option StringNode (DeviceEnqueueSymbol k)),
      (''.kernarg_segment_size'', Some (word_node (KernArgSegmentSize k))),
      (''.group_segment_fixed_size'', Some (word_node (GroupSegmentFixedSize k))),
      (''.private_segment_fixed_size'', Some (word_node (PrivateSegmentFixedSize k))),
      (''.kernarg_segment_align'', Some (word_node (KernArgSegmentAlign k))),
      (''.wavefront_size'', Some (word_node (WaveFrontSize k))),
      (''.sgpr_count'', Some (word_node (SGPRCount k))),
      (''.vgpr_count'', Some (word_node (VGPRCount k))),
      (''.agpr_count'', map_option word_node (AGPRCount k)),
      (''.max_flat_workgroup_size'', Some (word_node (MaxFlatWorkgroupSize k))),
      (''.sgpr_spill_count'', map_option word_node (SGPRSpillCount k)),
      (''.vgpr_spill_count'', map_option word_node (VGPRSpillCount k)),
      (''.kind'', map_option (enum_node KernelKindEnumMap) (KernelKind k)),
      (''.uses_dynamic_stack'', bool_node (UsesDynamicStack k)),
      (''.workgroup_processor_mode'', flag_node (WorkgroupProcessorMode k)),
      (''.uniform_work_group_size'', flag_node (UniformWorkgroupSize k))]"

definition writable_arg :: "arg_md \<Rightarrow> bool" where
  "writable_arg a \<longleftrightarrow>
     arg_PointeeAlign a \<noteq> None \<and> arg_ValKind a \<noteq> VK_Unknown \<and>
     arg_AccQual a \<notin> {Some AQ_Default, Some AQ_Unknown} \<and>
     arg_ActualAccQual a \<notin> {Some AQ_Default, Some AQ_Unknown}"

definition writable_kernel :: "kernel_md \<Rightarrow> bool" where
  "writable_kernel k \<longleftrightarrow>
     SGPRSpillCount k \<noteq> None \<and> VGPRSpillCount k \<noteq> None \<and> KernelKind k \<noteq> None \<and>
     (case Args k of None \<Rightarrow> True | Some as \<Rightarrow> list_all writable_arg as)"

lemma find_key_doc_map:
  "distinct (map fst fs) \<Longrightarrow> find_key (doc_map fs) key = Option.bind (map_of fs key) (\<lambda>n. n)"
proof (induction fs)
  case Nil
  then show ?case by (simp add: doc_map_def find_key_def)
next
  case (Cons f fs)
  obtain k n where f: "f = (k, n)" by (cases f)
  have "map_of fs k = None" using Cons.prems by (simp add: f map_of_eq_None_iff)
  then show ?case using Cons by (auto simp: f doc_map_def find_key_def split: option.splits)
qed

lemma entry_doc_map:
  "distinct (map fst fs) \<Longrightarrow> map_of fs key = Some n \<Longrightarrow>
   entry (doc_map fs) key req P = (if req then n \<noteq> None \<and> P (the n) else (case n of None \<Rightarrow> True | Some d \<Rightarrow> P d))"
  by (cases n) (simp_all add: entry_def find_key_doc_map)

lemma rd_doc_map:
  "distinct (map fst fs) \<Longrightarrow> map_of fs key = Some n \<Longrightarrow>
   rd (doc_map fs) key f old = (case n of None \<Rightarrow> old | Some d \<Rightarrow> f d)"
  by (simp add: rd_def find_key_doc_map)

lemma enum_node_name:
  assumes "distinct (map fst em)" and "e \<in> snd ` set em"
  shows "map_of em (string_of (enum_node em e)) = Some e"
proof -
  obtain p where p: "find (\<lambda>p. snd p = e) em = Some p"
    using assms(2) by (cases "find (\<lambda>p. snd p = e) em") (auto simp: find_None_iff)
  then have "snd p = e" "p \<in> set em" by (auto simp: find_Some_iff)
  then have "(fst p, e) \<in> set em" by (metis prod.collapse)
  then show ?thesis using assms(1) by (simp add: enum_node_def p string_of_def)
qed

lemma enum_node_enum:
  "distinct (map fst em) \<Longrightarrow> e \<in> snd ` set em \<Longrightarrow> is_enum em (enum_node em e) \<and> enum_of em (enum_node em e) = Some e"
  using enum_node_name [of em e] by (auto simp: is_enum_def enum_of_def enum_node_def string_of_def)

lemma enum_maps_distinct:
  "distinct (map fst AccessQualifierEnumMap)" "distinct (map fst AMDGPUAddressSpaceEnumMap)"
  "distinct (map fst ValueKindEnumMap)" "distinct (map fst KernelKindEnumMap)"
  by (simp_all add: AccessQualifierEnumMap_def AMDGPUAddressSpaceEnumMap_def ValueKindEnumMap_def
      KernelKindEnumMap_def)

lemma access_names: "q \<noteq> AQ_Default \<Longrightarrow> q \<noteq> AQ_Unknown \<Longrightarrow> q \<in> snd ` set AccessQualifierEnumMap"
  by (cases q) (simp_all add: AccessQualifierEnumMap_def)

lemma space_names: "s \<in> snd ` set AMDGPUAddressSpaceEnumMap"
  by (cases s) (simp_all add: AMDGPUAddressSpaceEnumMap_def)

lemma value_kind_names: "v \<noteq> VK_Unknown \<Longrightarrow> v \<in> snd ` set ValueKindEnumMap"
  by (cases v) (simp_all add: ValueKindEnumMap_def)

lemma kernel_kind_names: "v \<in> snd ` set KernelKindEnumMap"
  by (cases v) (simp_all add: KernelKindEnumMap_def)

lemmas enum_written =
  enum_node_enum [OF enum_maps_distinct(1) access_names] enum_node_enum [OF enum_maps_distinct(2) space_names]
  enum_node_enum [OF enum_maps_distinct(3) value_kind_names]
  enum_node_enum [OF enum_maps_distinct(4) kernel_kind_names]

lemma ucast_64_32 [simp]: "ucast (ucast w :: 64 word) = (w :: 32 word)"
  by (rule bit_word_eqI) (simp add: bit_ucast_iff)

lemma word_written [simp]: "is_uint (word_node w)" "word_of (word_node w) = w"
  by (simp_all add: word_node_def node_defs)

lemma version_written [simp]: "is_uints 2 (version_node v)" "version_of (version_node v) = v"
  by (simp_all add: version_node_def is_uints_def version_of_def uints_of_def node_defs)

lemma dim3_written [simp]: "is_uints 3 (dim3_node d)" "dim3_of (dim3_node d) = d"
  by (simp_all add: dim3_node_def is_uints_def dim3_of_def uints_of_def node_defs)

lemma string_written [simp]: "is_string (StringNode s)" "string_of (StringNode s) = s"
  by (simp_all add: node_defs)

lemma bool_written [simp]:
  "(case bool_node b of None \<Rightarrow> True | Some d \<Rightarrow> is_bool d)"
  "(case bool_node b of None \<Rightarrow> False | Some d \<Rightarrow> bool_of d) = b"
  by (simp_all add: bool_node_def node_defs)

lemma flag_written [simp]:
  "(case flag_node b of None \<Rightarrow> True | Some d \<Rightarrow> is_uint d)"
  "(case flag_node b of None \<Rightarrow> 0 | Some d \<Rightarrow> word_of d) = 1 \<longleftrightarrow> b"
  by (simp_all add: flag_node_def node_defs)

lemma arg_fields_distinct: "distinct (map fst (arg_fields a))"
  by (simp add: arg_fields_def)

lemma kernel_fields_distinct: "distinct (map fst (kernel_fields k))"
  by (simp add: kernel_fields_def)

lemma option_written [simp]:
  "(\<And>x. P (g x)) \<Longrightarrow> (case map_option g n of None \<Rightarrow> True | Some d \<Rightarrow> P d)"
  "(\<And>x. f (g x) = x) \<Longrightarrow> (case map_option g n of None \<Rightarrow> None | Some d \<Rightarrow> (Some \<circ> f) d) = n"
  by (cases n; simp)+

lemma option_enum_written:
  assumes "distinct (map fst em)" and "\<And>e. n = Some e \<Longrightarrow> e \<in> snd ` set em"
  shows "(case map_option (enum_node em) n of None \<Rightarrow> True | Some d \<Rightarrow> is_enum em d)"
    and "(case map_option (enum_node em) n of None \<Rightarrow> None | Some d \<Rightarrow> enum_of em d) = n"
  using enum_node_enum [OF assms(1)] assms(2) by (cases n; simp)+

lemma arg_field:
  "map_of (arg_fields a) ''.name'' = Some (map_option StringNode (arg_Name a))"
  "map_of (arg_fields a) ''.type_name'' = Some (map_option StringNode (arg_TypeName a))"
  "map_of (arg_fields a) ''.size'' = Some (Some (word_node (arg_Size a)))"
  "map_of (arg_fields a) ''.offset'' = Some (Some (word_node (arg_Offset a)))"
  "map_of (arg_fields a) ''.value_kind'' = Some (Some (enum_node ValueKindEnumMap (arg_ValKind a)))"
  "map_of (arg_fields a) ''.pointee_align'' = Some (map_option word_node (arg_PointeeAlign a))"
  "map_of (arg_fields a) ''.address_space'' = Some (map_option (enum_node AMDGPUAddressSpaceEnumMap) (arg_AddressSpace a))"
  "map_of (arg_fields a) ''.access'' = Some (map_option (enum_node AccessQualifierEnumMap) (arg_AccQual a))"
  "map_of (arg_fields a) ''.actual_access'' = Some (map_option (enum_node AccessQualifierEnumMap) (arg_ActualAccQual a))"
  "map_of (arg_fields a) ''.is_const'' = Some (bool_node (arg_IsConst a))"
  "map_of (arg_fields a) ''.is_restrict'' = Some (bool_node (arg_IsRestrict a))"
  "map_of (arg_fields a) ''.is_volatile'' = Some (bool_node (arg_IsVolatile a))"
  "map_of (arg_fields a) ''.is_pipe'' = Some (bool_node (arg_IsPipe a))"
  by (simp_all add: arg_fields_def)

lemma kernel_field:
  "map_of (kernel_fields k) ''.name'' = Some (Some (StringNode (Name k)))"
  "map_of (kernel_fields k) ''.symbol'' = Some (Some (StringNode (Symbol k)))"
  "map_of (kernel_fields k) ''.language'' = Some (map_option StringNode (Language k))"
  "map_of (kernel_fields k) ''.language_version'' = Some (map_option version_node (LanguageVersion k))"
  "map_of (kernel_fields k) ''.args'' = Some (map_option args_node (Args k))"
  "map_of (kernel_fields k) ''.reqd_workgroup_size'' = Some (map_option dim3_node (ReqdWorkGroupSize k))"
  "map_of (kernel_fields k) ''.workgroup_size_hint'' = Some (map_option dim3_node (WorkGroupSizeHint k))"
  "map_of (kernel_fields k) ''.vec_type_hint'' = Some (map_option StringNode (VecTypeHint k))"
  "map_of (kernel_fields k) ''.device_enqueue_symbol'' = Some (map_option StringNode (DeviceEnqueueSymbol k))"
  "map_of (kernel_fields k) ''.kernarg_segment_size'' = Some (Some (word_node (KernArgSegmentSize k)))"
  "map_of (kernel_fields k) ''.group_segment_fixed_size'' = Some (Some (word_node (GroupSegmentFixedSize k)))"
  "map_of (kernel_fields k) ''.private_segment_fixed_size'' = Some (Some (word_node (PrivateSegmentFixedSize k)))"
  "map_of (kernel_fields k) ''.kernarg_segment_align'' = Some (Some (word_node (KernArgSegmentAlign k)))"
  "map_of (kernel_fields k) ''.wavefront_size'' = Some (Some (word_node (WaveFrontSize k)))"
  "map_of (kernel_fields k) ''.sgpr_count'' = Some (Some (word_node (SGPRCount k)))"
  "map_of (kernel_fields k) ''.vgpr_count'' = Some (Some (word_node (VGPRCount k)))"
  "map_of (kernel_fields k) ''.agpr_count'' = Some (map_option word_node (AGPRCount k))"
  "map_of (kernel_fields k) ''.max_flat_workgroup_size'' = Some (Some (word_node (MaxFlatWorkgroupSize k)))"
  "map_of (kernel_fields k) ''.sgpr_spill_count'' = Some (map_option word_node (SGPRSpillCount k))"
  "map_of (kernel_fields k) ''.vgpr_spill_count'' = Some (map_option word_node (VGPRSpillCount k))"
  "map_of (kernel_fields k) ''.kind'' = Some (map_option (enum_node KernelKindEnumMap) (KernelKind k))"
  "map_of (kernel_fields k) ''.uses_dynamic_stack'' = Some (bool_node (UsesDynamicStack k))"
  "map_of (kernel_fields k) ''.workgroup_processor_mode'' = Some (flag_node (WorkgroupProcessorMode k))"
  "map_of (kernel_fields k) ''.uniform_work_group_size'' = Some (flag_node (UniformWorkgroupSize k))"
  by (simp_all add: kernel_fields_def)

declare case_map_option [simp del]

lemmas arg_entry = arg_field [THEN entry_doc_map [OF arg_fields_distinct]]
lemmas arg_rd = arg_field [THEN rd_doc_map [OF arg_fields_distinct]]
lemmas kernel_entry = kernel_field [THEN entry_doc_map [OF kernel_fields_distinct]]
lemmas kernel_rd = kernel_field [THEN rd_doc_map [OF kernel_fields_distinct]]

lemma option_set_written [simp]:
  "n \<noteq> None \<Longrightarrow> (case map_option g n of None \<Rightarrow> old | Some d \<Rightarrow> f d) = f (g (the n))"
  by (cases n) simp_all

lemma arg_written:
  assumes "writable_arg a"
  shows "conforms arg_schema (doc_map (arg_fields a))" and "read_arg (doc_map (arg_fields a)) default_arg = a"
proof -
  note opt = option_enum_written [OF enum_maps_distinct(1), of "arg_AccQual a"]
    option_enum_written [OF enum_maps_distinct(1), of "arg_ActualAccQual a"]
    option_enum_written [OF enum_maps_distinct(2), of "arg_AddressSpace a"]
  have acc: "e \<in> snd ` set AccessQualifierEnumMap" if "arg_AccQual a = Some e \<or> arg_ActualAccQual a = Some e" for e
    using that assms access_names [of e] by (auto simp: writable_arg_def)
  have kind: "arg_ValKind a \<in> snd ` set ValueKindEnumMap" and align: "arg_PointeeAlign a \<noteq> None"
    using assms value_kind_names by (auto simp: writable_arg_def)
  note vals = enum_node_enum [OF enum_maps_distinct(3) kind]
  show "conforms arg_schema (doc_map (arg_fields a))"
    by (simp add: conforms_def arg_schema_def arg_entry opt acc space_names vals)
  show "read_arg (doc_map (arg_fields a)) default_arg = a" using align
    by (simp add: read_arg_def default_arg_def arg_rd opt acc space_names vals)
qed
lemma args_written:
  assumes "list_all writable_arg as"
  shows "is_args (args_node as)" and "args_of (args_node as) = as"
  using assms by (induction as) (simp_all add: is_args_def args_of_def args_node_def arg_written)

lemma kernel_written:
  assumes "writable_kernel k"
  shows "conforms kernel_schema (doc_map (kernel_fields k))"
    and "read_kernel (doc_map (kernel_fields k)) default_kernel = k"
proof -
  have args: "(case map_option args_node (Args k) of None \<Rightarrow> True | Some d \<Rightarrow> is_args d)"
    "(case map_option args_node (Args k) of None \<Rightarrow> None | Some d \<Rightarrow> (Some \<circ> args_of) d) = Args k"
    using assms by (cases "Args k"; simp add: writable_kernel_def args_written)+
  have some: "SGPRSpillCount k \<noteq> None" "VGPRSpillCount k \<noteq> None" "KernelKind k \<noteq> None"
    using assms by (simp_all add: writable_kernel_def)
  note kind = option_enum_written [OF enum_maps_distinct(4) kernel_kind_names, of "KernelKind k"]
    enum_node_enum [OF enum_maps_distinct(4) kernel_kind_names]
  show "conforms kernel_schema (doc_map (kernel_fields k))"
    by (simp add: conforms_def kernel_schema_def kernel_entry args(1) kind)
  show "read_kernel (doc_map (kernel_fields k)) default_kernel = k" using some
    by (simp add: read_kernel_def default_kernel_def kernel_rd args(2) kind)
qed

subsection \<open>Properties\<close>


text \<open>
  C25: Round trip: the metadata of a kernel that is written as a compiler does (optional entries only when
  they have a value, flags only when they are set) is parsed back to the same record, arguments included.
\<close>

theorem kernel_metadata_round_trip:
  assumes "writable_kernel k"
  shows "parseKernelMD (doc_map (kernel_fields k)) default_kernel = Inr k"
  using kernel_written [OF assms] by (simp add: parseKernelMD_Inr)

definition sample_arg :: arg_md where
  "sample_arg = default_arg\<lparr>arg_Name := Some ''buf'', arg_Size := 8, arg_ValKind := GlobalBuffer,
     arg_AddressSpace := Some GLOBAL_ADDRESS, arg_AccQual := Some AQ_ReadOnly, arg_IsConst := True\<rparr>"

definition sample_kernel :: kernel_md where
  "sample_kernel = default_kernel\<lparr>Name := ''axpy'', Symbol := ''axpy.kd'', LanguageVersion := Some \<lparr>Major = 2, Minor = 0\<rparr>,
     Args := Some [sample_arg], KernArgSegmentSize := 280, WaveFrontSize := 64, SGPRCount := 16, VGPRCount := 8,
     MaxFlatWorkgroupSize := 1024, UsesDynamicStack := True\<rparr>"

definition sample_root :: "kernel_md list \<Rightarrow> doc_node" where
  "sample_root ks =
     MapNode [(StringNode ''amdhsa.version'', version_node \<lparr>Major = 1, Minor = 2\<rparr>),
       (StringNode ''amdhsa.kernels'', ArrayNode (map (MapNode \<circ> doc_map \<circ> kernel_fields) ks))]"

lemma kernel_nodes_sample_root:
  "kernel_nodes (sample_root ks) = Inr (map (MapNode \<circ> doc_map \<circ> kernel_fields) ks)"
  by (simp add: kernel_nodes_def sample_root_def find_key_def)

lemma kernel_symbol_written: "kernel_symbol (doc_map (kernel_fields k)) = Inr (Symbol k)"
  by (simp add: kernel_symbol_def find_key_doc_map [OF kernel_fields_distinct] kernel_field)

lemma sample_kernel_writable: "writable_kernel sample_kernel" "Symbol sample_kernel = ''axpy.kd''"
  by (simp_all add: sample_kernel_def sample_arg_def default_kernel_def default_arg_def writable_kernel_def writable_arg_def)

theorem kernel_metadata_round_trip_witness:
  "parseKernelMD (doc_map (kernel_fields sample_kernel)) default_kernel = Inr sample_kernel"
  by (rule kernel_metadata_round_trip) (rule sample_kernel_writable)

definition symbols_of :: "doc_node list \<Rightarrow> string list" where
  "symbols_of ns = map (\<lambda>n. case n of MapNode m \<Rightarrow> (case kernel_symbol m of Inr s \<Rightarrow> s | Inl _ \<Rightarrow> []) | _ \<Rightarrow> []) ns"

lemma parse_all_nodes_cons:
  assumes "parse_all_nodes (n # ns) Out = Inr M"
  obtains m s k where "n = MapNode m" "kernel_symbol m = Inr s"
    "parseKernelMD m (case Out s of None \<Rightarrow> default_kernel | Some k \<Rightarrow> k) = Inr k"
    "parse_all_nodes ns (Out(s \<mapsto> k)) = Inr M"
  using assms by (cases n) (auto simp: err_bind_Inr_iff)

lemma parse_all_nodes_keeps:
  "parse_all_nodes ns Out = Inr M \<Longrightarrow> name \<notin> set (symbols_of ns) \<Longrightarrow> M name = Out name"
proof (induction ns arbitrary: Out)
  case (Cons n ns)
  from Cons.prems(1) show ?case
  proof (rule parse_all_nodes_cons)
    fix m s k assume "n = MapNode m" "kernel_symbol m = Inr s" "parse_all_nodes ns (Out(s \<mapsto> k)) = Inr M"
    with Cons.IH [OF this(3)] Cons.prems(2) show "M name = Out name" by (simp add: symbols_of_def)
  qed
qed simp

lemma parse_one_agrees:
  assumes "parse_all_nodes ns Out = Inr M" and "distinct (symbols_of ns)" and "Out name = None"
  shows "parse_one_node name ns = Inr (case M name of None \<Rightarrow> default_kernel | Some k \<Rightarrow> k)"
  using assms
proof (induction ns arbitrary: Out)
  case (Cons n ns)
  from Cons.prems(1) show ?case
  proof (rule parse_all_nodes_cons)
    fix m s k
    assume *: "n = MapNode m" "kernel_symbol m = Inr s" "parse_all_nodes ns (Out(s \<mapsto> k)) = Inr M"
      "parseKernelMD m (case Out s of None \<Rightarrow> default_kernel | Some k \<Rightarrow> k) = Inr k"
    show ?thesis
    proof (cases "name = s")
      case True
      then have "M name = Some k"
        using parse_all_nodes_keeps [OF *(3), of name] Cons.prems(2) * by (simp add: symbols_of_def)
      with True * Cons.prems(3) show ?thesis by simp
    next
      case False
      with Cons.IH [OF *(3)] Cons.prems * show ?thesis by (simp add: symbols_of_def)
    qed
  qed
qed simp

text \<open>
  The two ways to a kernel agree: if the metadata of all kernels parses and the kernels have
  different symbols, looking for one kernel succeeds for every name and gives the entry of the table, or
  default metadata (no error) when no kernel has this symbol.
\<close>

lemma single_kernel_agrees_with_table:
  assumes "parseAllKernelsMetadata root = Inr M" and "kernel_nodes root = Inr ns" and "distinct (symbols_of ns)"
  shows "parseKernelMetadata root name = Inr (case M name of None \<Rightarrow> default_kernel | Some k \<Rightarrow> k)"
  using assms parse_one_agrees [of ns Map.empty M name]
  by (simp add: parseAllKernelsMetadata_def parseKernelMetadata_def)

lemma single_kernel_agrees_with_table_instance:
  "parseKernelMetadata (sample_root [sample_kernel, sample_kernel\<lparr>Symbol := ''dot.kd''\<rparr>]) ''axpy.kd'' = Inr sample_kernel \<and>
   parseKernelMetadata (sample_root [sample_kernel, sample_kernel\<lparr>Symbol := ''dot.kd''\<rparr>]) ''scal.kd'' = Inr default_kernel"
proof -
  let ?k = "sample_kernel\<lparr>Symbol := ''dot.kd''\<rparr>"
  let ?root = "sample_root [sample_kernel, ?k]"
  have w: "writable_kernel ?k" using sample_kernel_writable by (simp add: writable_kernel_def)
  have all: "parseAllKernelsMetadata ?root = Inr [''axpy.kd'' \<mapsto> sample_kernel, ''dot.kd'' \<mapsto> ?k]"
    using kernel_written [OF sample_kernel_writable(1)] kernel_written [OF w]
    by (simp add: parseAllKernelsMetadata_def kernel_nodes_sample_root kernel_symbol_written
        parseKernelMD_Inr [THEN iffD2] sample_kernel_writable)
  note nodes = kernel_nodes_sample_root [of "[sample_kernel, ?k]"]
  have "distinct (symbols_of (map (MapNode \<circ> doc_map \<circ> kernel_fields) [sample_kernel, ?k]))"
    by (simp add: symbols_of_def kernel_symbol_written sample_kernel_writable)
  from single_kernel_agrees_with_table [OF all nodes this, of "''axpy.kd''"]
    single_kernel_agrees_with_table [OF all nodes this, of "''scal.kd''"]
  show ?thesis by simp
qed

text \<open>
  Two kernel entries with the same symbol are merged in the table: the second is parsed into the
  record of the first, so an optional field that the second leaves out keeps the value of the first. The
  search for one kernel takes the first entry alone.
\<close>

lemma entries_with_one_symbol_merge:
  assumes "kernel_nodes root = Inr [MapNode m1, MapNode m2]"
    and "kernel_symbol m1 = Inr s" "kernel_symbol m2 = Inr s"
    and "conforms kernel_schema m1" "conforms kernel_schema m2"
  shows "parseAllKernelsMetadata root = Inr [s \<mapsto> read_kernel m2 (read_kernel m1 default_kernel)] \<and>
    parseKernelMetadata root s = Inr (read_kernel m1 default_kernel)"
  using assms
  by (simp_all add: parseAllKernelsMetadata_def parseKernelMetadata_def parseKernelMD_Inr [THEN iffD2])

lemma entries_with_one_symbol_merge_instance:
  "\<exists>M k. parseAllKernelsMetadata (sample_root [sample_kernel\<lparr>AGPRCount := Some 4\<rparr>, sample_kernel]) = Inr M \<and>
     M ''axpy.kd'' = Some k \<and> AGPRCount k = Some 4"
proof -
  let ?k = "sample_kernel\<lparr>AGPRCount := Some 4\<rparr>"
  have w: "writable_kernel ?k" using sample_kernel_writable by (simp add: writable_kernel_def)
  have nodes: "kernel_nodes (sample_root [?k, sample_kernel]) =
      Inr [MapNode (doc_map (kernel_fields ?k)), MapNode (doc_map (kernel_fields sample_kernel))]"
    by (simp add: kernel_nodes_sample_root)
  have "AGPRCount sample_kernel = None" by (simp add: sample_kernel_def default_kernel_def)
  then have "AGPRCount (read_kernel (doc_map (kernel_fields sample_kernel)) ?k) = Some 4"
    by (simp add: read_kernel_def kernel_rd)
  then show ?thesis
    using entries_with_one_symbol_merge [OF nodes, of "''axpy.kd''"] kernel_written [OF w]
      kernel_written [OF sample_kernel_writable(1)]
    by (simp add: kernel_symbol_written sample_kernel_writable)
qed

declare case_map_option [simp]

end
