(* ===== verification/Gpu_Machine.thy ===== *)
theory Gpu_Machine
  imports Luthier_Prelude
begin

text \<open>
  The machine that the emitted instructions run on: one wavefront with its vector registers (VGPRs
  and AGPRs, one 32-bit value per lane), scalar registers, exec mask, SCC bit and scratch memory.
  The instructions are the ones that \<open>MIRConvenience.cpp\<close> and
  \<open>StateValueArrayStorage.cpp\<close> build; their effect is the one that the repository's own
  semantics under \<open>include/luthier/InstSemantics\<close> give. A vector instruction acts on the
  active lanes only. Scratch memory is addressed by the flat scratch base of the wavefront, the lane
  and a 32-bit address that names a dword; accesses complete in order, so \<open>S_WAITCNT\<close>
  changes nothing. The second half is the lane view: code made of vector instructions acts on each
  active lane by itself, and code run under the exec mask and again under its complement acts on
  every lane.
\<close>

subsection \<open>Registers and subtarget\<close>

datatype mcreg = NoRegister | VGPR nat | AGPR nat | SGPR nat | FLAT_SCR_LO | FLAT_SCR_HI

text \<open>What the code asks of \<open>llvm::GCNSubtarget\<close>.\<close>

record gcn_subtarget =
  isWave32 :: bool
  hasMAIInsts :: bool
  hasGFX90AInsts :: bool
  hasArchitectedFlatScratch :: bool
  enableFlatScratch :: bool

definition wave_size :: "gcn_subtarget \<Rightarrow> nat" where
  "wave_size st = (if isWave32 st then 32 else 64)"

lemma wave_size_bounds: "32 \<le> wave_size st" "wave_size st \<le> 64" "0 < wave_size st"
  by (simp_all add: wave_size_def)

subsection \<open>Instructions\<close>

text \<open>A register operand with its kill flag (\<open>getKillRegState\<close>).\<close>

datatype mop = MOp (op_reg: mcreg) (op_kill: bool)

datatype minst =
    S_XOR_B32 mcreg mop mop
  | S_MOV_B32 mcreg mop
  | S_NOT_B32_EXEC_LO bool
  | S_NOT_B64_EXEC bool
  | S_CMP_EQ_I32 int int
  | S_CBRANCH_SCC1 nat
  | S_BRANCH nat
  | S_WAITCNT nat
  | V_MOV_B32_e32 mcreg mop
  | V_XOR_B32_e32 mcreg mop mop
  | V_ACCVGPR_READ_B32_e64 mcreg mop
  | V_ACCVGPR_WRITE_B32_e64 mcreg mop
  | V_ACCVGPR_MOV_B32 mcreg mop
  | V_WRITELANE_B32 mcreg mop nat mop
  | V_READLANE_B32 mcreg mop nat
  | SCRATCH_LOAD_DWORD_SADDR mcreg mop int int
  | SCRATCH_STORE_DWORD_SADDR mop mop int int

subsection \<open>State and execution\<close>

type_synonym fs_base = "32 word \<times> 32 word"

record gpu =
  vregs :: "mcreg \<Rightarrow> nat \<Rightarrow> 32 word"
  sregs :: "mcreg \<Rightarrow> 32 word"
  exec_mask :: "64 word"
  scc :: bool
  scratch :: "fs_base \<Rightarrow> nat \<Rightarrow> 32 word \<Rightarrow> 32 word"

definition active :: "gcn_subtarget \<Rightarrow> gpu \<Rightarrow> nat \<Rightarrow> bool" where
  "active st g l \<longleftrightarrow> l < wave_size st \<and> bit (exec_mask g) l"

text \<open>
  The base of scratch memory: FLAT_SCR when the target computes it in registers, a constant of the
  wavefront when it is architected.
\<close>

definition fs_base_of :: "gcn_subtarget \<Rightarrow> gpu \<Rightarrow> fs_base" where
  "fs_base_of st g =
     (if hasArchitectedFlatScratch st then (0, 0) else (sregs g FLAT_SCR_HI, sregs g FLAT_SCR_LO))"

definition lane_move :: "gcn_subtarget \<Rightarrow> mcreg \<Rightarrow> (nat \<Rightarrow> 32 word) \<Rightarrow> gpu \<Rightarrow> gpu" where
  "lane_move st d f g =
     g\<lparr>vregs := (vregs g)(d := \<lambda>l. if active st g l then f l else vregs g d l)\<rparr>"

definition saddr :: "gpu \<Rightarrow> mop \<Rightarrow> int \<Rightarrow> 32 word" where
  "saddr g a off = sregs g (op_reg a) + word_of_int off"

fun exec_inst :: "gcn_subtarget \<Rightarrow> minst \<Rightarrow> gpu \<Rightarrow> gpu" where
  "exec_inst st (S_XOR_B32 d a b) g =
     (let r = sregs g (op_reg a) XOR sregs g (op_reg b)
      in g\<lparr>sregs := (sregs g)(d := r), scc := r \<noteq> 0\<rparr>)"
| "exec_inst st (S_MOV_B32 d a) g = g\<lparr>sregs := (sregs g)(d := sregs g (op_reg a))\<rparr>"
| "exec_inst st (S_NOT_B32_EXEC_LO k) g =
     (let r = exec_mask g XOR mask 32
      in g\<lparr>exec_mask := r, scc := take_bit 32 r \<noteq> 0\<rparr>)"
| "exec_inst st (S_NOT_B64_EXEC k) g =
     (let r = NOT (exec_mask g) in g\<lparr>exec_mask := r, scc := r \<noteq> 0\<rparr>)"
| "exec_inst st (S_CMP_EQ_I32 a b) g = g\<lparr>scc := a = b\<rparr>"
| "exec_inst st (S_CBRANCH_SCC1 t) g = g"
| "exec_inst st (S_BRANCH t) g = g"
| "exec_inst st (S_WAITCNT e) g = g"
| "exec_inst st (V_MOV_B32_e32 d a) g = lane_move st d (vregs g (op_reg a)) g"
| "exec_inst st (V_XOR_B32_e32 d a b) g =
     lane_move st d (\<lambda>l. vregs g (op_reg a) l XOR vregs g (op_reg b) l) g"
| "exec_inst st (V_ACCVGPR_READ_B32_e64 d a) g = lane_move st d (vregs g (op_reg a)) g"
| "exec_inst st (V_ACCVGPR_WRITE_B32_e64 d a) g = lane_move st d (vregs g (op_reg a)) g"
| "exec_inst st (V_ACCVGPR_MOV_B32 d a) g = lane_move st d (vregs g (op_reg a)) g"
| "exec_inst st (V_WRITELANE_B32 d a n old) g =
     g\<lparr>vregs := (vregs g)(d := (vregs g (op_reg old))(n mod wave_size st := sregs g (op_reg a)))\<rparr>"
| "exec_inst st (V_READLANE_B32 d a n) g =
     g\<lparr>sregs := (sregs g)(d := vregs g (op_reg a) (n mod wave_size st))\<rparr>"
| "exec_inst st (SCRATCH_LOAD_DWORD_SADDR d a off cpol) g =
     lane_move st d (\<lambda>l. scratch g (fs_base_of st g) l (saddr g a off)) g"
| "exec_inst st (SCRATCH_STORE_DWORD_SADDR v a off cpol) g =
     g\<lparr>scratch := (scratch g)(fs_base_of st g := \<lambda>l.
        if active st g l
        then (scratch g (fs_base_of st g) l)(saddr g a off := vregs g (op_reg v) l)
        else scratch g (fs_base_of st g) l)\<rparr>"

fun exec_insts :: "gcn_subtarget \<Rightarrow> minst list \<Rightarrow> gpu \<Rightarrow> gpu" where
  "exec_insts st [] g = g"
| "exec_insts st (i # is) g = exec_insts st is (exec_inst st i g)"

lemma exec_insts_append: "exec_insts st (c @ c') g = exec_insts st c' (exec_insts st c g)"
  by (induction c arbitrary: g) auto

text \<open>No instruction but a branch reads SCC.\<close>

lemma scc_update_reads:
  "saddr (g\<lparr>scc := t\<rparr>) = saddr g" "fs_base_of st (g\<lparr>scc := t\<rparr>) = fs_base_of st g"
  "active st (g\<lparr>scc := t\<rparr>) = active st g"
  by (simp_all add: saddr_def [abs_def] fs_base_of_def active_def [abs_def])

lemma exec_inst_scc: "(exec_inst st i (g\<lparr>scc := t\<rparr>))\<lparr>scc := s\<rparr> = (exec_inst st i g)\<lparr>scc := s\<rparr>"
  by (cases i)
    (simp_all add: Let_def lane_move_def scc_update_reads cong: if_cong)

lemma exec_insts_scc: "(exec_insts st c (g\<lparr>scc := t\<rparr>))\<lparr>scc := s\<rparr> = (exec_insts st c g)\<lparr>scc := s\<rparr>"
proof (induction c arbitrary: g t)
  case Nil
  then show ?case by simp
next
  case (Cons i c)
  have "(exec_insts st c (exec_inst st i (g\<lparr>scc := t\<rparr>)))\<lparr>scc := s\<rparr> =
        (exec_insts st c ((exec_inst st i (g\<lparr>scc := t\<rparr>))\<lparr>scc := s\<rparr>))\<lparr>scc := s\<rparr>"
    by (rule Cons.IH [symmetric])
  also have "\<dots> = (exec_insts st c (exec_inst st i g))\<lparr>scc := s\<rparr>"
    by (simp add: exec_inst_scc Cons.IH)
  finally show ?case by simp
qed

text \<open>Code whose effect on SCC is undone around it.\<close>

definition safe :: "gcn_subtarget \<Rightarrow> minst list \<Rightarrow> gpu \<Rightarrow> gpu" where
  "safe st c g = (exec_insts st c g)\<lparr>scc := scc g\<rparr>"

lemma safe_Nil [simp]: "safe st [] g = g"
  by (simp add: safe_def)

lemma scc_safe [simp]: "scc (safe st c g) = scc g"
  by (simp add: safe_def)

lemma safe_append: "safe st (c @ c') g = safe st c' (safe st c g)"
  by (simp add: safe_def exec_insts_append exec_insts_scc)

subsection \<open>The lane view\<close>

type_synonym lane = "(mcreg \<Rightarrow> 32 word) \<times> (32 word \<Rightarrow> 32 word)"

fun lane_inst :: "(mcreg \<Rightarrow> 32 word) \<Rightarrow> minst \<Rightarrow> lane \<Rightarrow> lane" where
  "lane_inst s (V_MOV_B32_e32 d a) (v, m) = (v(d := v (op_reg a)), m)"
| "lane_inst s (V_XOR_B32_e32 d a b) (v, m) = (v(d := v (op_reg a) XOR v (op_reg b)), m)"
| "lane_inst s (V_ACCVGPR_READ_B32_e64 d a) (v, m) = (v(d := v (op_reg a)), m)"
| "lane_inst s (V_ACCVGPR_WRITE_B32_e64 d a) (v, m) = (v(d := v (op_reg a)), m)"
| "lane_inst s (V_ACCVGPR_MOV_B32 d a) (v, m) = (v(d := v (op_reg a)), m)"
| "lane_inst s (SCRATCH_LOAD_DWORD_SADDR d a off cpol) (v, m) =
     (v(d := m (s (op_reg a) + word_of_int off)), m)"
| "lane_inst s (SCRATCH_STORE_DWORD_SADDR d a off cpol) (v, m) =
     (v, m(s (op_reg a) + word_of_int off := v (op_reg d)))"
| "lane_inst s _ vm = vm"

fun lane_insts :: "(mcreg \<Rightarrow> 32 word) \<Rightarrow> minst list \<Rightarrow> lane \<Rightarrow> lane" where
  "lane_insts s [] vm = vm"
| "lane_insts s (i # c) vm = lane_insts s c (lane_inst s i vm)"

fun is_vec :: "minst \<Rightarrow> bool" where
  "is_vec (V_MOV_B32_e32 d a) = True"
| "is_vec (V_XOR_B32_e32 d a b) = True"
| "is_vec (V_ACCVGPR_READ_B32_e64 d a) = True"
| "is_vec (V_ACCVGPR_WRITE_B32_e64 d a) = True"
| "is_vec (V_ACCVGPR_MOV_B32 d a) = True"
| "is_vec (SCRATCH_LOAD_DWORD_SADDR d a off cpol) = True"
| "is_vec (SCRATCH_STORE_DWORD_SADDR d a off cpol) = True"
| "is_vec (S_WAITCNT e) = True"
| "is_vec _ = False"

definition lane_of :: "gcn_subtarget \<Rightarrow> gpu \<Rightarrow> nat \<Rightarrow> lane" where
  "lane_of st g l = (\<lambda>r. vregs g r l, scratch g (fs_base_of st g) l)"

definition on_lanes :: "gcn_subtarget \<Rightarrow> (nat \<Rightarrow> bool) \<Rightarrow> (lane \<Rightarrow> lane) \<Rightarrow> gpu \<Rightarrow> gpu" where
  "on_lanes st P f g =
     g\<lparr>vregs := \<lambda>r l. if P l then fst (f (lane_of st g l)) r else vregs g r l,
       scratch := \<lambda>b l. if b = fs_base_of st g \<and> P l then snd (f (lane_of st g l))
                        else scratch g b l\<rparr>"

lemma on_lanes_sel [simp]:
  "sregs (on_lanes st P f g) = sregs g"
  "exec_mask (on_lanes st P f g) = exec_mask g"
  "scc (on_lanes st P f g) = scc g"
  "fs_base_of st (on_lanes st P f g) = fs_base_of st g"
  "active st (on_lanes st P f g) = active st g"
  by (simp_all add: on_lanes_def fs_base_of_def active_def [abs_def])

lemma vregs_on_lanes: "vregs (on_lanes st P f g) r l =
    (if P l then fst (f (lane_of st g l)) r else vregs g r l)"
  by (simp add: on_lanes_def)

lemma scratch_on_lanes: "scratch (on_lanes st P f g) b l =
    (if b = fs_base_of st g \<and> P l then snd (f (lane_of st g l)) else scratch g b l)"
  by (simp add: on_lanes_def)

lemma lane_of_on_lanes: "lane_of st (on_lanes st P f g) l =
    (if P l then f (lane_of st g l) else lane_of st g l)"
  by (cases "P l") (simp_all add: lane_of_def [of st "on_lanes st P f g"] vregs_on_lanes
      scratch_on_lanes, simp add: lane_of_def)

lemma gpu_eqI:
  fixes g h :: gpu
  assumes "vregs g = vregs h" "sregs g = sregs h" "exec_mask g = exec_mask h" "scc g = scc h"
    "scratch g = scratch h"
  shows "g = h"
  using assms by simp

lemma on_lanes_comp:
  "on_lanes st P f' (on_lanes st P f g) = on_lanes st P (\<lambda>x. f' (f x)) g"
  by (rule gpu_eqI) (auto simp: vregs_on_lanes scratch_on_lanes lane_of_on_lanes fun_eq_iff)

lemma on_lanes_id: "on_lanes st P (\<lambda>x. x) g = g"
  by (rule gpu_eqI) (auto simp: vregs_on_lanes scratch_on_lanes lane_of_def fun_eq_iff)

lemma on_lanes_union:
  assumes "\<And>l. \<not> (P l \<and> Q l)"
  shows "on_lanes st Q f (on_lanes st P f g) = on_lanes st (\<lambda>l. P l \<or> Q l) f g"
  using assms
  by (intro gpu_eqI) (auto simp: vregs_on_lanes scratch_on_lanes lane_of_on_lanes fun_eq_iff)

lemma exec_vec_inst:
  "is_vec i \<Longrightarrow> exec_inst st i g = on_lanes st (active st g) (lane_inst (sregs g) i) g"
  by (cases i; intro gpu_eqI)
    (auto simp: lane_move_def vregs_on_lanes scratch_on_lanes lane_of_def saddr_def fun_eq_iff)

lemma exec_vec:
  "list_all is_vec c \<Longrightarrow>
   exec_insts st c g = on_lanes st (active st g) (lane_insts (sregs g) c) g"
proof (induction c arbitrary: g)
  case Nil
  have "lane_insts (sregs g) [] = (\<lambda>x. x)" by auto
  then show ?case by (simp add: on_lanes_id)
next
  case (Cons i c)
  then show ?case by (simp add: exec_vec_inst on_lanes_comp)
qed

subsection \<open>Example subtargets and states\<close>

text \<open>
  Three kinds of subtarget (MAI instructions with FLAT_SCR registers, MAI instructions with
  architected flat scratch, wave32 without flat scratch instructions) and a state for the witnesses.
\<close>

definition mai_absolute_fs :: gcn_subtarget where
  "mai_absolute_fs = \<lparr>isWave32 = False, hasMAIInsts = True, hasGFX90AInsts = False,
     hasArchitectedFlatScratch = False, enableFlatScratch = True\<rparr>"

definition mai_architected_fs :: gcn_subtarget where
  "mai_architected_fs = \<lparr>isWave32 = False, hasMAIInsts = True, hasGFX90AInsts = True,
     hasArchitectedFlatScratch = True, enableFlatScratch = True\<rparr>"

definition wave32_no_flat_scratch :: gcn_subtarget where
  "wave32_no_flat_scratch = \<lparr>isWave32 = True, hasMAIInsts = False, hasGFX90AInsts = False,
     hasArchitectedFlatScratch = False, enableFlatScratch = False\<rparr>"

lemmas example_targets = mai_absolute_fs_def mai_architected_fs_def wave32_no_flat_scratch_def

definition start_gpu :: gpu where
  "start_gpu = \<lparr>vregs = \<lambda>r l. word_of_nat l, sregs = \<lambda>r. 16, exec_mask = 5, scc = True,
     scratch = \<lambda>b l x. x\<rparr>"

end
