(* ===== verification/MIR_Convenience.thy ===== *)
theory MIR_Convenience
  imports Gpu_Machine
begin

text \<open>
  \<open>src/lib/ToolCodeGen/MIRConvenience.cpp\<close>: the emitters of single moves, swaps and scratch
  accesses, each as the list of instructions it inserts (the SCC-safe sequences of the same file are in
  \<open>SCC_Safe_CFG\<close>). The lemmas give the effect of each emitter and relate code run under both halves
  of the exec mask to one function on every lane.
\<close>

subsection \<open>The emitters\<close>

definition getKillRegState :: "mcreg \<Rightarrow> bool \<Rightarrow> mop" where
  "getKillRegState r k = MOp r k"

definition addReg :: "mcreg \<Rightarrow> mop" where
  "addReg r = MOp r False"

definition emitSGPRSwap :: "mcreg \<Rightarrow> mcreg \<Rightarrow> minst list" where
  "emitSGPRSwap src dst =
     (if src = dst then []
      else [S_XOR_B32 src (addReg src) (addReg dst),
            S_XOR_B32 dst (addReg src) (MOp dst True),
            S_XOR_B32 src (addReg src) (addReg dst)])"

definition emitVGPRSwap :: "mcreg \<Rightarrow> mcreg \<Rightarrow> minst list" where
  "emitVGPRSwap src dst =
     (if src = dst then []
      else [V_XOR_B32_e32 src (addReg src) (addReg dst),
            V_XOR_B32_e32 dst (addReg src) (MOp dst True),
            V_XOR_B32_e32 src (addReg src) (addReg dst)])"

definition emitExecMaskFlip :: "gcn_subtarget \<Rightarrow> minst list" where
  "emitExecMaskFlip st = [if isWave32 st then S_NOT_B32_EXEC_LO True else S_NOT_B64_EXEC True]"

definition emitMoveFromVGPRToVGPR :: "mcreg \<Rightarrow> mcreg \<Rightarrow> bool \<Rightarrow> minst list" where
  "emitMoveFromVGPRToVGPR src dst k = [V_MOV_B32_e32 dst (getKillRegState src k)]"

definition emitMoveFromSGPRToSGPR :: "mcreg \<Rightarrow> mcreg \<Rightarrow> bool \<Rightarrow> minst list" where
  "emitMoveFromSGPRToSGPR src dst k = [S_MOV_B32 dst (getKillRegState src k)]"

definition emitMoveFromAGPRToVGPR :: "mcreg \<Rightarrow> mcreg \<Rightarrow> bool \<Rightarrow> minst list" where
  "emitMoveFromAGPRToVGPR src dst k = [V_ACCVGPR_READ_B32_e64 dst (getKillRegState src k)]"

definition emitMoveFromVGPRToAGPR :: "mcreg \<Rightarrow> mcreg \<Rightarrow> bool \<Rightarrow> minst list" where
  "emitMoveFromVGPRToAGPR src dst k = [V_ACCVGPR_WRITE_B32_e64 dst (getKillRegState src k)]"

definition emitMoveFromSGPRToVGPRLane :: "mcreg \<Rightarrow> mcreg \<Rightarrow> nat \<Rightarrow> bool \<Rightarrow> minst list" where
  "emitMoveFromSGPRToVGPRLane src dst lane k =
     [V_WRITELANE_B32 dst (getKillRegState src k) lane (addReg dst)]"

definition emitMoveFromVGPRLaneToSGPR :: "mcreg \<Rightarrow> mcreg \<Rightarrow> nat \<Rightarrow> bool \<Rightarrow> minst list" where
  "emitMoveFromVGPRLaneToSGPR src dst lane k =
     [V_READLANE_B32 dst (getKillRegState src k) lane]"

definition emitLoadFromEmergencyVGPRScratchSpillLocation :: "mcreg \<Rightarrow> mcreg \<Rightarrow> minst list" where
  "emitLoadFromEmergencyVGPRScratchSpillLocation sp dst =
     [SCRATCH_LOAD_DWORD_SADDR dst (addReg sp) (-8) 0]"

definition emitStoreToEmergencyVGPRScratchSpillLocation ::
    "mcreg \<Rightarrow> mcreg \<Rightarrow> bool \<Rightarrow> minst list" where
  "emitStoreToEmergencyVGPRScratchSpillLocation sp src k =
     [SCRATCH_STORE_DWORD_SADDR (getKillRegState src k) (addReg sp) (-8) 0]"

definition emitLoadFromEmergencySVSScratchSpillLocation :: "mcreg \<Rightarrow> mcreg \<Rightarrow> minst list" where
  "emitLoadFromEmergencySVSScratchSpillLocation sp dst =
     [SCRATCH_LOAD_DWORD_SADDR dst (addReg sp) (-4) 0]"

definition emitStoreToEmergencySVSScratchSpillLocation ::
    "mcreg \<Rightarrow> mcreg \<Rightarrow> bool \<Rightarrow> minst list" where
  "emitStoreToEmergencySVSScratchSpillLocation sp src k =
     [SCRATCH_STORE_DWORD_SADDR (getKillRegState src k) (addReg sp) (-4) 0]"

text \<open>Every caller uses the default encoding 0.\<close>

definition emitWaitCnt :: "nat \<Rightarrow> minst list" where
  "emitWaitCnt enc = [S_WAITCNT enc]"

lemmas vector_emitters [emit_defs] =
  emitMoveFromVGPRToVGPR_def emitMoveFromAGPRToVGPR_def emitMoveFromVGPRToAGPR_def
  emitLoadFromEmergencyVGPRScratchSpillLocation_def
  emitStoreToEmergencyVGPRScratchSpillLocation_def
  emitLoadFromEmergencySVSScratchSpillLocation_def
  emitStoreToEmergencySVSScratchSpillLocation_def
  emitWaitCnt_def getKillRegState_def addReg_def

subsection \<open>Effect of the scalar emitters\<close>

definition sgpr_swapped :: "mcreg \<Rightarrow> mcreg \<Rightarrow> gpu \<Rightarrow> gpu" where
  "sgpr_swapped a b g = g\<lparr>sregs := (sregs g)(a := sregs g b, b := sregs g a)\<rparr>"

lemma sgpr_swapped_sel [simp]:
  "vregs (sgpr_swapped a b g) = vregs g" "exec_mask (sgpr_swapped a b g) = exec_mask g"
  "scc (sgpr_swapped a b g) = scc g" "scratch (sgpr_swapped a b g) = scratch g"
  "sregs (sgpr_swapped a b g) = (sregs g)(a := sregs g b, b := sregs g a)"
  by (simp_all add: sgpr_swapped_def)

lemma safe_emitSGPRSwap: "safe st (emitSGPRSwap a b) g = sgpr_swapped a b g"
  by (rule gpu_eqI)
    (auto simp: safe_def emitSGPRSwap_def addReg_def Let_def word32_xor_swap fun_eq_iff)

lemma safe_emitSGPRSwap_append:
  "safe st (emitSGPRSwap a b @ c) g = safe st c (sgpr_swapped a b g)"
  by (simp add: safe_append safe_emitSGPRSwap)

definition flip_exec :: "gcn_subtarget \<Rightarrow> 64 word \<Rightarrow> 64 word" where
  "flip_exec st e = (if isWave32 st then e XOR mask 32 else NOT e)"

lemma flip_exec_flip_exec [simp]: "flip_exec st (flip_exec st e) = e"
  by (simp add: flip_exec_def word32_xor_swap)

lemma bit_flip_exec: "l < wave_size st \<Longrightarrow> bit (flip_exec st e) l \<longleftrightarrow> \<not> bit e l"
  by (auto simp: flip_exec_def wave_size_def bit_xor_iff bit_mask_iff bit_not_iff split: if_splits)

lemma safe_emitExecMaskFlip:
  "safe st (emitExecMaskFlip st) g = g\<lparr>exec_mask := flip_exec st (exec_mask g)\<rparr>"
  by (simp add: safe_def emitExecMaskFlip_def flip_exec_def Let_def)

lemma active_flip:
  "active st (g\<lparr>exec_mask := flip_exec st (exec_mask g)\<rparr>) = (\<lambda>l. l < wave_size st \<and> \<not> active st g l)"
  by (auto simp: active_def bit_flip_exec fun_eq_iff)

lemma safe_vec:
  "list_all is_vec c \<Longrightarrow> safe st c g = on_lanes st (active st g) (lane_insts (sregs g) c) g"
  by (rule gpu_eqI) (simp_all add: safe_def exec_vec)

lemma on_lanes_exec_update:
  "on_lanes st P f (g\<lparr>exec_mask := e\<rparr>) = (on_lanes st P f g)\<lparr>exec_mask := e\<rparr>"
  by (rule gpu_eqI)
    (simp_all add: on_lanes_def lane_of_def fs_base_of_def cong: if_cong)

definition all_lanes :: "gcn_subtarget \<Rightarrow> (lane \<Rightarrow> lane) \<Rightarrow> gpu \<Rightarrow> gpu" where
  "all_lanes st f g = on_lanes st (\<lambda>l. l < wave_size st) f g"

text \<open>
  Vector code that runs under the exec mask and again under its complement acts on every lane of
  the wavefront, and the exec mask is the old one afterwards.
\<close>

lemma safe_both_halves:
  assumes "list_all is_vec c" "list_all is_vec c'"
    and eq: "lane_insts (sregs g) c' = lane_insts (sregs g) c"
  shows "safe st (c @ emitExecMaskFlip st @ c' @ emitExecMaskFlip st) g =
    all_lanes st (lane_insts (sregs g) c) g"
proof -
  let ?f = "lane_insts (sregs g) c"
  let ?A = "active st g" and ?N = "\<lambda>l. l < wave_size st \<and> \<not> active st g l"
  define g1 where "g1 = on_lanes st ?A ?f g"
  have "safe st (c @ emitExecMaskFlip st @ c' @ emitExecMaskFlip st) g =
      safe st (c' @ emitExecMaskFlip st) (g1\<lparr>exec_mask := flip_exec st (exec_mask g)\<rparr>)"
    by (simp add: safe_append safe_vec assms(1) safe_emitExecMaskFlip g1_def)
  also have "\<dots> = (on_lanes st ?N ?f g1)"
  proof -
    have act: "active st (g1\<lparr>exec_mask := flip_exec st (exec_mask g)\<rparr>) = ?N"
      using active_flip [of st g] by (simp add: active_def [abs_def] g1_def)
    show ?thesis
      by (simp add: safe_append safe_vec assms(2) act safe_emitExecMaskFlip eq on_lanes_exec_update)
        (simp add: g1_def eq)
  qed
  also have "\<dots> = all_lanes st ?f g"
    unfolding g1_def all_lanes_def
    by (subst on_lanes_union) (auto simp: active_def intro!: arg_cong [where f = "\<lambda>P. on_lanes st P ?f g"])
  finally show ?thesis .
qed

lemma safe_both_halves_append:
  assumes "list_all is_vec c" "list_all is_vec c'"
    and "lane_insts (sregs g) c' = lane_insts (sregs g) c"
  shows "safe st (c @ emitExecMaskFlip st @ c' @ emitExecMaskFlip st @ rest) g =
    safe st rest (all_lanes st (lane_insts (sregs g) c) g)"
  using safe_both_halves [OF assms, of st]
  by (metis append.assoc safe_append)

lemma all_lanes_sel [simp]:
  "sregs (all_lanes st f g) = sregs g" "exec_mask (all_lanes st f g) = exec_mask g"
  "scc (all_lanes st f g) = scc g" "fs_base_of st (all_lanes st f g) = fs_base_of st g"
  by (simp_all add: all_lanes_def)

lemma vregs_all_lanes: "vregs (all_lanes st f g) r l =
    (if l < wave_size st then fst (f (lane_of st g l)) r else vregs g r l)"
  by (simp add: all_lanes_def vregs_on_lanes)

lemma scratch_all_lanes: "scratch (all_lanes st f g) b l =
    (if b = fs_base_of st g \<and> l < wave_size st then snd (f (lane_of st g l)) else scratch g b l)"
  by (simp add: all_lanes_def scratch_on_lanes)

subsection \<open>Every lane, with a given scratch base\<close>

definition base_lanes ::
    "gcn_subtarget \<Rightarrow> fs_base \<Rightarrow> ((mcreg \<Rightarrow> 32 word) \<Rightarrow> (32 word \<Rightarrow> 32 word) \<Rightarrow> lane) \<Rightarrow> gpu \<Rightarrow> gpu" where
  "base_lanes st b f g =
     g\<lparr>vregs := \<lambda>r l. if l < wave_size st then fst (f (\<lambda>r. vregs g r l) (scratch g b l)) r
                      else vregs g r l,
       scratch := \<lambda>b' l. if b' = b \<and> l < wave_size st
                         then snd (f (\<lambda>r. vregs g r l) (scratch g b l)) else scratch g b' l\<rparr>"

lemma base_lanes_sel [simp]:
  "sregs (base_lanes st b f g) = sregs g" "exec_mask (base_lanes st b f g) = exec_mask g"
  "scc (base_lanes st b f g) = scc g" "fs_base_of st (base_lanes st b f g) = fs_base_of st g"
  by (simp_all add: base_lanes_def fs_base_of_def)

lemma vregs_base_lanes: "vregs (base_lanes st b f g) r l =
    (if l < wave_size st then fst (f (\<lambda>r. vregs g r l) (scratch g b l)) r else vregs g r l)"
  by (simp add: base_lanes_def)

lemma scratch_base_lanes: "scratch (base_lanes st b f g) b' l =
    (if b' = b \<and> l < wave_size st then snd (f (\<lambda>r. vregs g r l) (scratch g b l))
     else scratch g b' l)"
  by (simp add: base_lanes_def)

lemma all_lanes_base: "all_lanes st (\<lambda>vm. f (fst vm) (snd vm)) g = base_lanes st (fs_base_of st g) f g"
  by (rule gpu_eqI)
    (auto simp: vregs_all_lanes scratch_all_lanes vregs_base_lanes scratch_base_lanes lane_of_def
      fun_eq_iff)

definition lanes_compute ::
    "(mcreg \<Rightarrow> 32 word) \<Rightarrow> minst list \<Rightarrow>
     ((mcreg \<Rightarrow> 32 word) \<Rightarrow> (32 word \<Rightarrow> 32 word) \<Rightarrow> lane) \<Rightarrow> bool" where
  "lanes_compute s c f \<longleftrightarrow> list_all is_vec c \<and> (\<forall>v m. lane_insts s c (v, m) = f v m)"

lemma lanes_compute_eq:
  "lanes_compute s c f \<Longrightarrow> lane_insts s c = (\<lambda>vm. f (fst vm) (snd vm))"
  by (auto simp: lanes_compute_def fun_eq_iff)

lemma safe_halves:
  assumes "lanes_compute (sregs g) c f" "lanes_compute (sregs g) c' f"
  shows "safe st (c @ emitExecMaskFlip st @ c' @ emitExecMaskFlip st) g =
    base_lanes st (fs_base_of st g) f g"
  using safe_both_halves [of c c' g st] assms
  by (simp add: lanes_compute_eq all_lanes_base) (simp add: lanes_compute_def)

text \<open>The flat scratch registers exchanged with a pair of SGPRs around the code.\<close>

fun is_sgpr :: "mcreg \<Rightarrow> bool" where
  "is_sgpr (SGPR n) = True"
| "is_sgpr _ = False"

fun is_vgpr :: "mcreg \<Rightarrow> bool" where
  "is_vgpr (VGPR n) = True"
| "is_vgpr _ = False"

fun is_agpr :: "mcreg \<Rightarrow> bool" where
  "is_agpr (AGPR n) = True"
| "is_agpr _ = False"

lemma is_sgprE: "is_sgpr r \<Longrightarrow> (\<And>n. r = SGPR n \<Longrightarrow> P) \<Longrightarrow> P"
  by (cases r) auto

lemma is_vgprE: "is_vgpr r \<Longrightarrow> (\<And>n. r = VGPR n \<Longrightarrow> P) \<Longrightarrow> P"
  by (cases r) auto

lemma is_agprE: "is_agpr r \<Longrightarrow> (\<And>n. r = AGPR n \<Longrightarrow> P) \<Longrightarrow> P"
  by (cases r) auto

definition fs_swapped :: "mcreg \<Rightarrow> mcreg \<Rightarrow> (mcreg \<Rightarrow> 32 word) \<Rightarrow> mcreg \<Rightarrow> 32 word" where
  "fs_swapped hi lo s =
     s(FLAT_SCR_HI := s hi, hi := s FLAT_SCR_HI, FLAT_SCR_LO := s lo, lo := s FLAT_SCR_LO)"

lemma fs_swapped_other [simp]:
  "is_sgpr r \<Longrightarrow> r \<noteq> hi \<Longrightarrow> r \<noteq> lo \<Longrightarrow> fs_swapped hi lo s r = s r"
  by (auto simp: fs_swapped_def elim: is_sgprE)

lemma fs_window:
  assumes "is_sgpr hi" "is_sgpr lo" "hi \<noteq> lo" "\<not> hasArchitectedFlatScratch st"
    and swp_in: "\<And>g. inn g = g\<lparr>sregs := fs_swapped hi lo (sregs g)\<rparr>"
    and swp_out: "\<And>g. out g = g\<lparr>sregs := fs_swapped hi lo (sregs g)\<rparr>"
  shows "out (base_lanes st (fs_base_of st (inn g)) f (inn g)) =
    base_lanes st (sregs g hi, sregs g lo) f g"
proof -
  have base: "fs_base_of st (inn g) = (sregs g hi, sregs g lo)"
    using assms(1-4) by (auto simp: swp_in fs_base_of_def fs_swapped_def elim!: is_sgprE)
  have twice: "fs_swapped hi lo (fs_swapped hi lo s) = s" for s
    using assms(1-3) by (auto simp: fs_swapped_def fun_eq_iff elim!: is_sgprE)
  show ?thesis
    unfolding base swp_out
    by (rule gpu_eqI)
      (auto simp: swp_in vregs_base_lanes scratch_base_lanes twice fun_eq_iff)
qed

lemma sgpr_swapped_window:
  assumes "is_sgpr hi" "is_sgpr lo" "hi \<noteq> lo"
  shows "sgpr_swapped FLAT_SCR_HI hi (sgpr_swapped FLAT_SCR_LO lo g) =
      g\<lparr>sregs := fs_swapped hi lo (sregs g)\<rparr>"
    and "sgpr_swapped FLAT_SCR_LO lo (sgpr_swapped FLAT_SCR_HI hi g) =
      g\<lparr>sregs := fs_swapped hi lo (sregs g)\<rparr>"
    and "sgpr_swapped hi FLAT_SCR_HI (sgpr_swapped lo FLAT_SCR_LO g) =
      g\<lparr>sregs := fs_swapped hi lo (sregs g)\<rparr>"
    and "sgpr_swapped lo FLAT_SCR_LO (sgpr_swapped hi FLAT_SCR_HI g) =
      g\<lparr>sregs := fs_swapped hi lo (sregs g)\<rparr>"
  using assms by (auto simp: sgpr_swapped_def fs_swapped_def fun_eq_iff elim!: is_sgprE)

lemma safe_fs_window:
  assumes r: "is_sgpr hi" "is_sgpr lo" "hi \<noteq> lo" "\<not> hasArchitectedFlatScratch st"
    and c: "lanes_compute (fs_swapped hi lo (sregs g)) c f"
      "lanes_compute (fs_swapped hi lo (sregs g)) c' f"
  shows "safe st (emitSGPRSwap FLAT_SCR_LO lo @ emitSGPRSwap FLAT_SCR_HI hi @
        c @ emitExecMaskFlip st @ c' @ emitExecMaskFlip st @
        emitSGPRSwap lo FLAT_SCR_LO @ emitSGPRSwap hi FLAT_SCR_HI) g =
      base_lanes st (sregs g hi, sregs g lo) f g"
    and "safe st (emitSGPRSwap FLAT_SCR_HI hi @ emitSGPRSwap FLAT_SCR_LO lo @
        c @ emitExecMaskFlip st @ c' @ emitExecMaskFlip st @
        emitSGPRSwap hi FLAT_SCR_HI @ emitSGPRSwap lo FLAT_SCR_LO) g =
      base_lanes st (sregs g hi, sregs g lo) f g"
proof -
  let ?h = "g\<lparr>sregs := fs_swapped hi lo (sregs g)\<rparr>"
  have mid: "safe st (c @ emitExecMaskFlip st @ c' @ emitExecMaskFlip st @ rest) ?h =
      safe st rest (base_lanes st (fs_base_of st ?h) f ?h)" for rest
  proof -
    have "safe st (c @ emitExecMaskFlip st @ c' @ emitExecMaskFlip st) ?h =
        base_lanes st (fs_base_of st ?h) f ?h"
      by (rule safe_halves) (use c in simp_all)
    moreover have "c @ emitExecMaskFlip st @ c' @ emitExecMaskFlip st @ rest =
        (c @ emitExecMaskFlip st @ c' @ emitExecMaskFlip st) @ rest" by simp
    ultimately show ?thesis by (metis safe_append)
  qed
  show "safe st (emitSGPRSwap FLAT_SCR_LO lo @ emitSGPRSwap FLAT_SCR_HI hi @
        c @ emitExecMaskFlip st @ c' @ emitExecMaskFlip st @
        emitSGPRSwap lo FLAT_SCR_LO @ emitSGPRSwap hi FLAT_SCR_HI) g =
      base_lanes st (sregs g hi, sregs g lo) f g"
    unfolding safe_emitSGPRSwap_append sgpr_swapped_window [OF r(1-3)] mid
    unfolding safe_emitSGPRSwap_append safe_emitSGPRSwap sgpr_swapped_window [OF r(1-3)]
    by (rule fs_window [OF r, of "\<lambda>g. g\<lparr>sregs := fs_swapped hi lo (sregs g)\<rparr>"
          "\<lambda>g. g\<lparr>sregs := fs_swapped hi lo (sregs g)\<rparr>"]) simp_all
  show "safe st (emitSGPRSwap FLAT_SCR_HI hi @ emitSGPRSwap FLAT_SCR_LO lo @
        c @ emitExecMaskFlip st @ c' @ emitExecMaskFlip st @
        emitSGPRSwap hi FLAT_SCR_HI @ emitSGPRSwap lo FLAT_SCR_LO) g =
      base_lanes st (sregs g hi, sregs g lo) f g"
    unfolding safe_emitSGPRSwap_append sgpr_swapped_window [OF r(1-3)] mid
    unfolding safe_emitSGPRSwap_append safe_emitSGPRSwap sgpr_swapped_window [OF r(1-3)]
    by (rule fs_window [OF r, of "\<lambda>g. g\<lparr>sregs := fs_swapped hi lo (sregs g)\<rparr>"
          "\<lambda>g. g\<lparr>sregs := fs_swapped hi lo (sregs g)\<rparr>"]) simp_all
qed

end
