(* ===== verification/SCC_Safe_CFG.thy ===== *)
theory SCC_Safe_CFG
  imports MIR_Convenience
begin

text \<open>
  \<open>createSCCSafeSequenceOfMIs\<close> (\<open>src/lib/ToolCodeGen/MIRConvenience.cpp\<close>)
  as surgery on a machine function: blocks in layout order, each with its instructions and its
  successor list. An instruction is an emitted one or one of the application, whose effect is an
  argument. A run executes a block to its first taken branch, else falls through to the next block of
  the layout, or it leaves the function. An insertion point is a block and an index in it.
\<close>

subsection \<open>Machine functions\<close>

text \<open>
  An application instruction has a number and, when it is a direct branch, its target. Its effect is
  given by \<open>app_sem\<close>: the new state, and whether control leaves the straight line, to the target
  or out of the function.
\<close>

datatype block_inst = Emitted minst | App nat "nat option"

type_synonym app_sem = "nat \<Rightarrow> gpu \<Rightarrow> gpu \<times> bool"

record mblock =
  mb_id :: nat
  mb_insts :: "block_inst list"
  mb_succs :: "nat list"

record mfun =
  mf_blocks :: "mblock list"
  mf_next :: nat

definition mf_ids :: "mfun \<Rightarrow> nat list" where
  "mf_ids mf = map mb_id (mf_blocks mf)"

definition mf_wf :: "mfun \<Rightarrow> bool" where
  "mf_wf mf \<longleftrightarrow> distinct (mf_ids mf) \<and> (\<forall>b\<in>set (mf_ids mf). b < mf_next mf)"

fun is_branch :: "minst \<Rightarrow> bool" where
  "is_branch (S_CBRANCH_SCC1 t) = True"
| "is_branch (S_BRANCH t) = True"
| "is_branch _ = False"

datatype block_exit = FallThrough | Jump nat | Leave

text \<open>Runs a block: the state and how control leaves it.\<close>

fun run_insts :: "gcn_subtarget \<Rightarrow> app_sem \<Rightarrow> block_inst list \<Rightarrow> gpu \<Rightarrow> gpu \<times> block_exit" where
  "run_insts st A [] g = (g, FallThrough)"
| "run_insts st A (Emitted i # is) g =
     (case i of
        S_CBRANCH_SCC1 t \<Rightarrow> if scc g then (g, Jump t) else run_insts st A is g
      | S_BRANCH t \<Rightarrow> (g, Jump t)
      | _ \<Rightarrow> run_insts st A is (exec_inst st i g))"
| "run_insts st A (App n t # is) g =
     (case A n g of (g', leaves) \<Rightarrow>
        if leaves then (g', case t of None \<Rightarrow> Leave | Some b \<Rightarrow> Jump b) else run_insts st A is g')"

fun next_block :: "nat \<Rightarrow> mblock list \<Rightarrow> nat option" where
  "next_block b [] = None"
| "next_block b (B # Bs) =
     (if mb_id B = b then (case Bs of [] \<Rightarrow> None | C # _ \<Rightarrow> Some (mb_id C)) else next_block b Bs)"

fun find_block :: "nat \<Rightarrow> mblock list \<Rightarrow> mblock option" where
  "find_block b [] = None"
| "find_block b (B # Bs) = (if mb_id B = b then Some B else find_block b Bs)"

text \<open>The state after a block; the block number is \<open>None\<close> outside the function.\<close>

definition leave_block :: "mfun \<Rightarrow> nat \<Rightarrow> gpu \<times> block_exit \<Rightarrow> (nat option \<times> gpu) option" where
  "leave_block mf b r =
     (case snd r of
        Jump t \<Rightarrow> Some (Some t, fst r)
      | Leave \<Rightarrow> Some (None, fst r)
      | FallThrough \<Rightarrow>
          (case next_block b (mf_blocks mf) of None \<Rightarrow> None | Some n \<Rightarrow> Some (Some n, fst r)))"

definition mf_step ::
    "gcn_subtarget \<Rightarrow> app_sem \<Rightarrow> mfun \<Rightarrow> nat option \<times> gpu \<Rightarrow> (nat option \<times> gpu) option" where
  "mf_step st A mf s =
     (case fst s of
        None \<Rightarrow> None
      | Some b \<Rightarrow>
          (case find_block b (mf_blocks mf) of
             None \<Rightarrow> None
           | Some B \<Rightarrow> leave_block mf b (run_insts st A (mb_insts B) (snd s))))"

text \<open>Some number of blocks, all of a given set.\<close>

fun mf_walk ::
    "gcn_subtarget \<Rightarrow> app_sem \<Rightarrow> mfun \<Rightarrow> nat set \<Rightarrow> nat \<Rightarrow> nat option \<times> gpu \<Rightarrow> (nat option \<times> gpu) option"
where
  "mf_walk st A mf S 0 s = Some s"
| "mf_walk st A mf S (Suc n) s =
     (case fst s of
        None \<Rightarrow> None
      | Some b \<Rightarrow>
          if b \<in> S then (case mf_step st A mf s of None \<Rightarrow> None | Some s' \<Rightarrow> mf_walk st A mf S n s')
          else None)"

subsection \<open>Insertion\<close>

fun replace_block :: "nat \<Rightarrow> (mblock \<Rightarrow> mblock list) \<Rightarrow> mblock list \<Rightarrow> mblock list" where
  "replace_block b f [] = []"
| "replace_block b f (B # Bs) = (if mb_id B = b then f B @ Bs else B # replace_block b f Bs)"

definition insert_mi :: "nat \<times> nat \<Rightarrow> minst \<Rightarrow> mfun \<Rightarrow> mfun" where
  "insert_mi ip i mf = mf\<lparr>mf_blocks := replace_block (fst ip)
     (\<lambda>B. [B\<lparr>mb_insts := take (snd ip) (mb_insts B) @ Emitted i # drop (snd ip) (mb_insts B)\<rparr>])
     (mf_blocks mf)\<rparr>"

text \<open>
  The exit block is \<open>n\<close>, the block for SCC = 0 is \<open>n + 1\<close> and the one for SCC = 1
  is \<open>n + 2\<close>, in the order in which the code creates them; the layout is entry, SCC0, SCC1,
  exit. The exit block takes over the successors of the split block.
\<close>

definition createSCCSafeSequenceOfMIs :: "nat \<times> nat \<Rightarrow> minst list \<Rightarrow> mfun \<Rightarrow> mfun \<times> (nat \<times> nat)" where
  "createSCCSafeSequenceOfMIs ip body mf =
     (let n = mf_next mf; exit = n; scc0 = n + 1; scc1 = n + 2;
          split = (\<lambda>B.
            [B\<lparr>mb_insts := take (snd ip) (mb_insts B) @ [Emitted (S_CBRANCH_SCC1 scc1)],
               mb_succs := [scc0, scc1]\<rparr>,
             \<lparr>mb_id = scc0, mb_insts = map Emitted (body @ [S_CMP_EQ_I32 0 1, S_BRANCH exit]),
               mb_succs = [exit]\<rparr>,
             \<lparr>mb_id = scc1, mb_insts = map Emitted (body @ [S_CMP_EQ_I32 0 0]), mb_succs = [exit]\<rparr>,
             \<lparr>mb_id = exit, mb_insts = drop (snd ip) (mb_insts B), mb_succs = mb_succs B\<rparr>])
      in (mf\<lparr>mf_blocks := replace_block (fst ip) split (mf_blocks mf), mf_next := n + 3\<rparr>,
          (exit, 0)))"

datatype mir_item = MI minst | SCCSafe "minst list"

fun insert_item :: "nat \<times> nat \<Rightarrow> mir_item \<Rightarrow> mfun \<Rightarrow> mfun \<times> (nat \<times> nat)" where
  "insert_item ip (MI i) mf = (insert_mi ip i mf, (fst ip, Suc (snd ip)))"
| "insert_item ip (SCCSafe c) mf = createSCCSafeSequenceOfMIs ip c mf"

fun insert_items :: "nat \<times> nat \<Rightarrow> mir_item list \<Rightarrow> mfun \<Rightarrow> mfun \<times> (nat \<times> nat)" where
  "insert_items ip [] mf = (mf, ip)"
| "insert_items ip (x # xs) mf = (case insert_item ip x mf of (mf', ip') \<Rightarrow> insert_items ip' xs mf')"

text \<open>The meaning of an emission.\<close>

fun exec_item :: "gcn_subtarget \<Rightarrow> mir_item \<Rightarrow> gpu \<Rightarrow> gpu" where
  "exec_item st (MI i) g = exec_inst st i g"
| "exec_item st (SCCSafe c) g = safe st c g"

fun exec_items :: "gcn_subtarget \<Rightarrow> mir_item list \<Rightarrow> gpu \<Rightarrow> gpu" where
  "exec_items st [] g = g"
| "exec_items st (x # xs) g = exec_items st xs (exec_item st x g)"

lemma exec_items_append: "exec_items st (xs @ ys) g = exec_items st ys (exec_items st xs g)"
  by (induction xs arbitrary: g) auto

lemma exec_items_MI: "exec_items st (map MI c) g = exec_insts st c g"
  by (induction c arbitrary: g) auto

fun item_ok :: "mir_item \<Rightarrow> bool" where
  "item_ok (MI i) = (\<not> is_branch i)"
| "item_ok (SCCSafe c) = list_all (\<lambda>i. \<not> is_branch i) c"

subsection \<open>Layout lemmas\<close>

lemma run_insts_append:
  "run_insts st A (xs @ ys) g =
     (case run_insts st A xs g of (h, FallThrough) \<Rightarrow> run_insts st A ys h | r \<Rightarrow> r)"
proof (induction xs arbitrary: g)
  case Nil
  then show ?case by simp
next
  case (Cons x xs)
  show ?case
  proof (cases x)
    case (Emitted i)
    then show ?thesis using Cons.IH by (cases i) (simp_all)
  next
    case (App n t)
    then show ?thesis using Cons.IH by (auto split: prod.splits option.splits)
  qed
qed

lemma run_emitted:
  "list_all (\<lambda>i. \<not> is_branch i) c \<Longrightarrow>
   run_insts st A (map Emitted c @ xs) g = run_insts st A xs (exec_insts st c g)"
proof (induction c arbitrary: g)
  case Nil
  then show ?case by simp
next
  case (Cons i c)
  then show ?case by (cases i) auto
qed

lemma split_at_block:
  assumes "b \<in> set (map mb_id Bs)"
  obtains xs B ys where "Bs = xs @ B # ys" "mb_id B = b" "b \<notin> set (map mb_id xs)"
  using assms
proof (induction Bs arbitrary: thesis)
  case Nil
  then show ?case by simp
next
  case (Cons C Bs)
  show ?case
  proof (cases "mb_id C = b")
    case True
    then show ?thesis using Cons.prems(1) [of "[]" C Bs] by simp
  next
    case False
    with Cons.prems have "b \<in> set (map mb_id Bs)" by auto
    then obtain xs B ys where "Bs = xs @ B # ys" "mb_id B = b" "b \<notin> set (map mb_id xs)"
      using Cons.IH by blast
    then show ?thesis using Cons.prems(1) [of "C # xs" B ys] False by simp
  qed
qed

lemma replace_block_split:
  "b \<notin> set (map mb_id xs) \<Longrightarrow> mb_id B = b \<Longrightarrow> replace_block b f (xs @ B # ys) = xs @ f B @ ys"
  by (induction xs) auto

lemma find_block_append:
  "find_block b (xs @ ys) = (if b \<in> set (map mb_id xs) then find_block b xs else find_block b ys)"
  by (induction xs) auto

lemma next_block_cong: "map mb_id As = map mb_id Bs \<Longrightarrow> next_block x As = next_block x Bs"
proof (induction As arbitrary: Bs)
  case Nil
  then show ?case by simp
next
  case (Cons A As)
  then obtain B Bs' where "Bs = B # Bs'" "mb_id A = mb_id B" "map mb_id As = map mb_id Bs'"
    by (cases Bs) auto
  then show ?case using Cons.IH [of Bs'] by (cases As; cases Bs') auto
qed

lemma next_block_skip:
  "b \<notin> set (map mb_id xs) \<Longrightarrow> next_block b (xs @ ys) = next_block b ys"
  by (induction xs) auto

lemma next_block_last:
  "next_block b (xs @ ys) =
   (if b \<in> set (map mb_id xs)
    then (case next_block b xs of Some n \<Rightarrow> Some n
          | None \<Rightarrow> (case ys of [] \<Rightarrow> None | C # _ \<Rightarrow> Some (mb_id C)))
    else next_block b ys)"
  if "distinct (map mb_id (xs @ ys))"
  using that
proof (induction xs)
  case Nil
  then show ?case by simp
next
  case (Cons B xs)
  have none: "next_block (mb_id B) zs = None" if "mb_id B \<notin> set (map mb_id zs)" for zs
    using that by (induction zs) auto
  show ?case using Cons none [of xs] by (cases xs) auto
qed

subsection \<open>The inserted control flow\<close>

definition agrees_on :: "nat set \<Rightarrow> mfun \<Rightarrow> mfun \<Rightarrow> bool" where
  "agrees_on S mf mf' \<longleftrightarrow> (\<forall>x\<in>S.
     find_block x (mf_blocks mf') = find_block x (mf_blocks mf) \<and>
     next_block x (mf_blocks mf') = next_block x (mf_blocks mf))"

lemma agrees_on_step:
  "agrees_on S mf mf' \<Longrightarrow> x \<in> S \<Longrightarrow> mf_step st A mf' (Some x, g) = mf_step st A mf (Some x, g)"
  by (simp add: agrees_on_def mf_step_def leave_block_def split: option.split)

lemma agrees_on_subset: "agrees_on S mf mf' \<Longrightarrow> T \<subseteq> S \<Longrightarrow> agrees_on T mf mf'"
  by (auto simp: agrees_on_def)

lemma agrees_on_trans: "agrees_on S mf mf' \<Longrightarrow> agrees_on S mf' mf'' \<Longrightarrow> agrees_on S mf mf''"
  by (simp add: agrees_on_def)

lemma mf_walk_agrees:
  "agrees_on S mf mf' \<Longrightarrow> mf_walk st A mf' S n s = mf_walk st A mf S n s"
proof (induction n arbitrary: s)
  case 0
  then show ?case by simp
next
  case (Suc n)
  show ?case
  proof (cases s)
    case (Pair x g)
    with Suc show ?thesis by (auto simp: agrees_on_step split: option.split)
  qed
qed

lemma mf_walk_mono:
  "mf_walk st A mf S n s = Some s' \<Longrightarrow> S \<subseteq> T \<Longrightarrow> mf_walk st A mf T n s = Some s'"
  by (induction n arbitrary: s) (auto split: option.splits if_splits)

lemma mf_walk_add:
  "mf_walk st A mf S m s = Some s' \<Longrightarrow> mf_walk st A mf S (m + n) s = mf_walk st A mf S n s'"
  by (induction m arbitrary: s) (auto split: option.splits if_splits)

text \<open>The block itself and the blocks that an insertion created.\<close>

definition new_blocks :: "mfun \<Rightarrow> mfun \<Rightarrow> nat \<Rightarrow> nat set" where
  "new_blocks mf mf1 b = insert b (set (mf_ids mf1) - set (mf_ids mf))"

text \<open>
  What inserting one emission at an insertion point guarantees: the other blocks are untouched, the
  instructions before the point stay where they are, and when control reaches the point it goes through
  new blocks to the point after the emission.
\<close>

definition inserted ::
    "gcn_subtarget \<Rightarrow> app_sem \<Rightarrow> mfun \<Rightarrow> nat \<Rightarrow> nat \<Rightarrow> mblock \<Rightarrow> (gpu \<Rightarrow> gpu) \<Rightarrow> mfun \<Rightarrow> nat \<Rightarrow> nat \<Rightarrow> bool" where
  "inserted st A mf b k B f mf1 b1 k1 \<longleftrightarrow>
     mf_wf mf1 \<and> set (mf_ids mf) \<subseteq> set (mf_ids mf1) \<and> (b1 = b \<and> k \<le> k1 \<or> b1 \<notin> set (mf_ids mf)) \<and>
     b1 \<in> set (mf_ids mf1) \<and> agrees_on (set (mf_ids mf) - {b}) mf mf1 \<and>
     map_option (\<lambda>E. take k (mb_insts E)) (find_block b (mf_blocks mf1)) = Some (take k (mb_insts B)) \<and>
     (\<exists>B1. find_block b1 (mf_blocks mf1) = Some B1 \<and> k1 \<le> length (mb_insts B1) \<and>
        drop k1 (mb_insts B1) = drop k (mb_insts B) \<and> mb_succs B1 = mb_succs B \<and>
        next_block b1 (mf_blocks mf1) = next_block b (mf_blocks mf) \<and>
        (\<forall>g h. run_insts st A (take k (mb_insts B)) g = (h, FallThrough) \<longrightarrow>
           (\<exists>n g1. mf_walk st A mf1 (new_blocks mf mf1 b - {b1}) n (Some b, g) = Some (Some b1, g1) \<and>
              run_insts st A (take k1 (mb_insts B1)) g1 = (f h, FallThrough))))"

lemma find_block_decomp:
  assumes "mf_wf mf" "find_block b (mf_blocks mf) = Some B"
  obtains xs ys where "mf_blocks mf = xs @ B # ys" "mb_id B = b"
    "b \<notin> set (map mb_id xs)" "b \<notin> set (map mb_id ys)"
    "distinct (map mb_id (xs @ ys))" "\<forall>x\<in>set (map mb_id (xs @ ys)). x < mf_next mf"
    "b < mf_next mf"
proof -
  have "\<exists>xs ys. Bs = xs @ B # ys \<and> mb_id B = b" if "find_block b Bs = Some B" for Bs
    using that
  proof (induction Bs)
    case Nil
    then show ?case by simp
  next
    case (Cons C Bs)
    show ?case
    proof (cases "mb_id C = b")
      case True
      with Cons.prems show ?thesis by (intro exI [of _ "[]"] exI [of _ Bs]) auto
    next
      case False
      with Cons obtain xs ys where "Bs = xs @ B # ys \<and> mb_id B = b" by auto
      then show ?thesis by (intro exI [of _ "C # xs"] exI [of _ ys]) simp
    qed
  qed
  from this [OF assms(2)] obtain xs ys where "mf_blocks mf = xs @ B # ys" "mb_id B = b" by blast
  then show thesis using that assms(1) by (auto simp: mf_wf_def mf_ids_def)
qed

lemma inserted_MI:
  assumes wf: "mf_wf mf" and B: "find_block b (mf_blocks mf) = Some B"
    and k: "k \<le> length (mb_insts B)" and i: "\<not> is_branch i"
  shows "inserted st A mf b k B (exec_inst st i) (insert_mi (b, k) i mf) b (Suc k)"
proof -
  obtain xs ys where d: "mf_blocks mf = xs @ B # ys" "mb_id B = b"
    "b \<notin> set (map mb_id xs)" "b \<notin> set (map mb_id ys)"
    "distinct (map mb_id (xs @ ys))" "\<forall>x\<in>set (map mb_id (xs @ ys)). x < mf_next mf"
    "b < mf_next mf"
    using find_block_decomp [OF wf B] .
  define C where "C = B\<lparr>mb_insts := take k (mb_insts B) @ Emitted i # drop k (mb_insts B)\<rparr>"
  have C: "mb_id C = b" "mb_succs C = mb_succs B"
    "mb_insts C = take k (mb_insts B) @ Emitted i # drop k (mb_insts B)"
    by (simp_all add: C_def d(2))
  have bl: "mf_blocks (insert_mi (b, k) i mf) = xs @ C # ys"
    using d by (simp add: insert_mi_def replace_block_split C_def)
  have nx: "mf_next (insert_mi (b, k) i mf) = mf_next mf" by (simp add: insert_mi_def)
  have ids: "mf_ids (insert_mi (b, k) i mf) = mf_ids mf"
    using d(1,2) C(1) by (simp add: mf_ids_def bl)
  have mem: "b \<in> set (mf_ids mf)" by (simp add: mf_ids_def d(1,2))
  have nb: "next_block x (xs @ C # ys) = next_block x (xs @ B # ys)" for x
    by (rule next_block_cong) (simp add: C(1) d(2))
  have ag: "agrees_on (set (mf_ids mf) - {b}) mf (insert_mi (b, k) i mf)"
    using d C by (auto simp: agrees_on_def bl find_block_append nb)
  have tk: "take (Suc k) (mb_insts C) = take k (mb_insts B) @ [Emitted i]"
    "take k (mb_insts C) = take k (mb_insts B)"
    using k by (simp_all add: C(3) min_def)
  have dk: "drop (Suc k) (mb_insts C) = drop k (mb_insts B)"
    using k by (simp add: C(3) min_def)
  have find: "find_block b (xs @ C # ys) = Some C"
    using d(3) by (simp add: find_block_append C(1))
  have one: "run_insts st A [Emitted i] h = (exec_inst st i h, FallThrough)" for h
    using i by (cases i) simp_all
  show ?thesis
    unfolding inserted_def bl
  proof (intro conjI exI [of _ C] allI impI)
    fix g h assume h: "run_insts st A (take k (mb_insts B)) g = (h, FallThrough)"
    show "\<exists>n g1. mf_walk st A (insert_mi (b, k) i mf) (new_blocks mf (insert_mi (b, k) i mf) b - {b}) n (Some b, g) =
          Some (Some b, g1) \<and>
        run_insts st A (take (Suc k) (mb_insts C)) g1 = (exec_inst st i h, FallThrough)"
      by (intro exI [of _ 0] exI [of _ g]) (simp add: tk run_insts_append h one del: run_insts.simps(2))
  qed (use wf d k i mem in \<open>simp_all add: ids nx find nb tk dk ag C mf_wf_def\<close>)
qed

lemma inserted_SCCSafe:
  assumes wf: "mf_wf mf" and B: "find_block b (mf_blocks mf) = Some B"
    and k: "k \<le> length (mb_insts B)" and c: "list_all (\<lambda>i. \<not> is_branch i) c"
    and res: "createSCCSafeSequenceOfMIs (b, k) c mf = (mf1, (b1, k1))"
  shows "inserted st A mf b k B (safe st c) mf1 b1 k1"
proof -
  obtain xs ys where d: "mf_blocks mf = xs @ B # ys" "mb_id B = b"
    "b \<notin> set (map mb_id xs)" "b \<notin> set (map mb_id ys)"
    "distinct (map mb_id (xs @ ys))" "\<forall>x\<in>set (map mb_id (xs @ ys)). x < mf_next mf"
    "b < mf_next mf"
    using find_block_decomp [OF wf B] .
  let ?n = "mf_next mf"
  define E where "E = B\<lparr>mb_insts := take k (mb_insts B) @ [Emitted (S_CBRANCH_SCC1 (?n + 2))],
      mb_succs := [?n + 1, ?n + 2]\<rparr>"
  define S0 where "S0 = \<lparr>mb_id = ?n + 1, mb_insts = map Emitted (c @ [S_CMP_EQ_I32 0 1, S_BRANCH ?n]),
      mb_succs = [?n]\<rparr>"
  define S1 where "S1 = \<lparr>mb_id = ?n + 2, mb_insts = map Emitted (c @ [S_CMP_EQ_I32 0 0]), mb_succs = [?n]\<rparr>"
  define X where "X = \<lparr>mb_id = ?n, mb_insts = drop k (mb_insts B), mb_succs = mb_succs B\<rparr>"
  have idE: "mb_id E = b" by (simp add: E_def d(2))
  have bl: "mf_blocks mf1 = xs @ E # S0 # S1 # X # ys" and nx: "mf_next mf1 = ?n + 3"
    and ip: "b1 = ?n" "k1 = 0"
    using res d by (auto simp: createSCCSafeSequenceOfMIs_def Let_def replace_block_split
        E_def S0_def S1_def X_def)
  have fresh: "?n \<notin> set (map mb_id (xs @ ys))" "?n + 1 \<notin> set (map mb_id (xs @ ys))"
    "?n + 2 \<notin> set (map mb_id (xs @ ys))"
    using d(6) by fastforce+
  have new: "?n + 1 \<notin> set (mf_ids mf)" "?n + 2 \<notin> set (mf_ids mf)" "b \<noteq> ?n"
    using fresh d(7) by (auto simp: mf_ids_def d(1,2))
  have lt: "mb_id x < ?n + 3" if "x \<in> set xs \<union> set ys" for x
  proof -
    have "mb_id x < ?n" using d(6) that by auto
    then show ?thesis by simp
  qed
  have wf1: "mf_wf mf1"
    using d fresh lt by (auto simp: mf_wf_def mf_ids_def bl nx idE S0_def S1_def X_def)
  have find: "find_block b (mf_blocks mf1) = Some E" "find_block (?n + 1) (mf_blocks mf1) = Some S0"
    "find_block (?n + 2) (mf_blocks mf1) = Some S1" "find_block ?n (mf_blocks mf1) = Some X"
    using d(3,7) fresh by (auto simp: bl find_block_append idE S0_def S1_def X_def)
  have nxt: "next_block b (mf_blocks mf1) = Some (?n + 1)"
    "next_block (?n + 2) (mf_blocks mf1) = Some ?n"
    using d(3,7) fresh by (auto simp: bl next_block_skip idE S0_def S1_def X_def)
  have nX: "next_block ?n (mf_blocks mf1) = next_block b (mf_blocks mf)"
    using d(2,3,7) fresh
    by (auto simp: bl d(1) next_block_skip idE S0_def S1_def X_def split: list.splits)
  have ag: "agrees_on (set (mf_ids mf) - {b}) mf mf1"
    unfolding agrees_on_def
  proof
    fix x assume x: "x \<in> set (mf_ids mf) - {b}"
    then have xn: "x \<noteq> ?n" "x \<noteq> ?n + 1" "x \<noteq> ?n + 2" "x \<noteq> Suc ?n" "x \<noteq> Suc (Suc ?n)"
      using wf by (auto simp: mf_wf_def)
    have dis: "distinct (map mb_id (mf_blocks mf))" "distinct (map mb_id (mf_blocks mf1))"
      using wf wf1 by (auto simp: mf_wf_def mf_ids_def)
    have "next_block x (mf_blocks mf1) = next_block x (mf_blocks mf)"
      using dis unfolding bl d(1)
      by (subst (1 2) next_block_last)
        (use x xn idE d(2) in \<open>auto simp: S0_def S1_def X_def split: option.splits list.splits\<close>)
    then show "find_block x (mf_blocks mf1) = find_block x (mf_blocks mf) \<and>
        next_block x (mf_blocks mf1) = next_block x (mf_blocks mf)"
      using x xn d idE by (simp add: bl find_block_append S0_def S1_def X_def)
  qed
  have mem: "b \<in> set (mf_ids mf1)" "?n + 1 \<in> set (mf_ids mf1)" "?n + 2 \<in> set (mf_ids mf1)"
    "?n \<in> set (mf_ids mf1)"
    by (auto simp: mf_ids_def bl idE S0_def S1_def X_def)
  have run: "mf_walk st A mf1 (new_blocks mf mf1 b - {b1}) 2 (Some b, g) = Some (Some b1, safe st c h)"
    if h: "run_insts st A (take k (mb_insts B)) g = (h, FallThrough)" for g h
  proof -
    have "mf_step st A mf1 (Some b, g) = Some (Some (if scc h then ?n + 2 else ?n + 1), h)"
      unfolding mf_step_def fst_conv snd_conv find option.case
      by (simp add: E_def run_insts_append h leave_block_def nxt)
    moreover have "mf_step st A mf1 (Some (?n + 2), h) = Some (Some ?n, safe st c h)" if "scc h"
      unfolding mf_step_def fst_conv snd_conv find option.case
      using that by (simp add: S1_def run_emitted [OF c] leave_block_def nxt [simplified] safe_def)
    moreover have "mf_step st A mf1 (Some (?n + 1), h) = Some (Some ?n, safe st c h)" if "\<not> scc h"
      unfolding mf_step_def fst_conv snd_conv find option.case
      using that by (simp add: S0_def run_emitted [OF c] leave_block_def safe_def)
    ultimately show ?thesis
      using mem new by (cases "scc h") (simp_all add: numeral_2_eq_2 ip new_blocks_def)
  qed
  show ?thesis
    unfolding inserted_def
  proof (intro conjI exI [of _ X])
    show "set (mf_ids mf) \<subseteq> set (mf_ids mf1)"
      by (auto simp: mf_ids_def bl d(1,2) idE)
    show "b1 = b \<and> k \<le> k1 \<or> b1 \<notin> set (mf_ids mf)"
      using wf by (auto simp: ip mf_wf_def)
    show "\<forall>g h. run_insts st A (take k (mb_insts B)) g = (h, FallThrough) \<longrightarrow>
        (\<exists>n g1. mf_walk st A mf1 (new_blocks mf mf1 b - {b1}) n (Some b, g) = Some (Some b1, g1) \<and>
           run_insts st A (take k1 (mb_insts X)) g1 = (safe st c h, FallThrough))"
      using run by (force simp: ip)
    show "map_option (\<lambda>E. take k (mb_insts E)) (find_block b (mf_blocks mf1)) = Some (take k (mb_insts B))"
      using k by (simp add: find) (simp add: E_def)
  qed (simp_all add: wf1 ag find ip nX mem, simp_all add: X_def)
qed

lemma inserted_item:
  assumes "mf_wf mf" "find_block b (mf_blocks mf) = Some B" "k \<le> length (mb_insts B)"
    "item_ok it" "insert_item (b, k) it mf = (mf1, (b1, k1))"
  shows "inserted st A mf b k B (exec_item st it) mf1 b1 k1"
proof (cases it)
  case (MI i)
  have "exec_item st (MI i) = exec_inst st i" by auto
  then show ?thesis using assms inserted_MI [of mf b B k i st A] by (auto simp: MI)
next
  case (SCCSafe c)
  have "exec_item st (SCCSafe c) = safe st c" by auto
  then show ?thesis using assms inserted_SCCSafe [of mf b B k c mf1 b1 k1 st A] by (auto simp: SCCSafe)
qed

lemma inserted_items:
  assumes "mf_wf mf" "find_block b (mf_blocks mf) = Some B" "b \<in> set (mf_ids mf)" "k \<le> length (mb_insts B)"
    "list_all item_ok its" "insert_items (b, k) its mf = (mf1, (b1, k1))"
  shows "inserted st A mf b k B (exec_items st its) mf1 b1 k1"
  using assms
proof (induction its arbitrary: mf b k B)
  case Nil
  show ?case
    unfolding inserted_def
  proof (intro conjI exI [of _ B] allI impI)
    fix g h assume "run_insts st A (take k (mb_insts B)) g = (h, FallThrough)"
    then show "\<exists>n g1. mf_walk st A mf1 (new_blocks mf mf1 b - {b1}) n (Some b, g) = Some (Some b1, g1) \<and>
        run_insts st A (take k1 (mb_insts B)) g1 = (exec_items st [] h, FallThrough)"
      using Nil by (intro exI [of _ 0] exI [of _ g]) simp
  qed (use Nil in \<open>simp_all add: agrees_on_def\<close>)
next
  case (Cons it its)
  obtain mf2 b2 k2 where it: "insert_item (b, k) it mf = (mf2, (b2, k2))"
    by (metis prod.exhaust)
  with Cons.prems have its: "insert_items (b2, k2) its mf2 = (mf1, (b1, k1))" by simp
  have 1: "inserted st A mf b k B (exec_item st it) mf2 b2 k2"
    using Cons.prems it by (intro inserted_item) auto
  then obtain B2 where B2: "find_block b2 (mf_blocks mf2) = Some B2" "k2 \<le> length (mb_insts B2)"
      "drop k2 (mb_insts B2) = drop k (mb_insts B)" "mb_succs B2 = mb_succs B"
      "next_block b2 (mf_blocks mf2) = next_block b (mf_blocks mf)"
      "\<And>g h. run_insts st A (take k (mb_insts B)) g = (h, FallThrough) \<Longrightarrow>
        \<exists>n g1. mf_walk st A mf2 (new_blocks mf mf2 b - {b2}) n (Some b, g) = Some (Some b2, g1) \<and>
           run_insts st A (take k2 (mb_insts B2)) g1 = (exec_item st it h, FallThrough)"
    and m: "mf_wf mf2" "set (mf_ids mf) \<subseteq> set (mf_ids mf2)" "b2 = b \<and> k \<le> k2 \<or> b2 \<notin> set (mf_ids mf)"
      "b2 \<in> set (mf_ids mf2)" "agrees_on (set (mf_ids mf) - {b}) mf mf2"
      "map_option (\<lambda>E. take k (mb_insts E)) (find_block b (mf_blocks mf2)) = Some (take k (mb_insts B))"
    unfolding inserted_def by blast
  have 2: "inserted st A mf2 b2 k2 B2 (exec_items st its) mf1 b1 k1"
    using Cons.prems its B2 m by (intro Cons.IH) auto
  then obtain B1 where B1: "find_block b1 (mf_blocks mf1) = Some B1" "k1 \<le> length (mb_insts B1)"
      "drop k1 (mb_insts B1) = drop k2 (mb_insts B2)" "mb_succs B1 = mb_succs B2"
      "next_block b1 (mf_blocks mf1) = next_block b2 (mf_blocks mf2)"
      "\<And>g h. run_insts st A (take k2 (mb_insts B2)) g = (h, FallThrough) \<Longrightarrow>
        \<exists>n g1. mf_walk st A mf1 (new_blocks mf2 mf1 b2 - {b1}) n (Some b2, g) = Some (Some b1, g1) \<and>
           run_insts st A (take k1 (mb_insts B1)) g1 = (exec_items st its h, FallThrough)"
    and m1: "mf_wf mf1" "set (mf_ids mf2) \<subseteq> set (mf_ids mf1)" "b1 = b2 \<and> k2 \<le> k1 \<or> b1 \<notin> set (mf_ids mf2)"
      "b1 \<in> set (mf_ids mf1)" "agrees_on (set (mf_ids mf2) - {b2}) mf2 mf1"
      "map_option (\<lambda>E. take k2 (mb_insts E)) (find_block b2 (mf_blocks mf1)) = Some (take k2 (mb_insts B2))"
    unfolding inserted_def by blast
  note bm = Cons.prems(3)
  have walk: "\<exists>n g1. mf_walk st A mf1 (new_blocks mf mf1 b - {b1}) n (Some b, g) = Some (Some b1, g1) \<and>
      run_insts st A (take k1 (mb_insts B1)) g1 = (exec_items st (it # its) h, FallThrough)"
    if h: "run_insts st A (take k (mb_insts B)) g = (h, FallThrough)" for g h
  proof -
    let ?S = "new_blocks mf mf1 b - {b1}"
    obtain n2 g2 where n2: "mf_walk st A mf2 (new_blocks mf mf2 b - {b2}) n2 (Some b, g) = Some (Some b2, g2)"
      and e2: "run_insts st A (take k2 (mb_insts B2)) g2 = (exec_item st it h, FallThrough)"
      using B2(6) [OF h] by blast
    obtain n1 g1 where n1: "mf_walk st A mf1 (new_blocks mf2 mf1 b2 - {b1}) n1 (Some b2, g2) = Some (Some b1, g1)"
      and e1: "run_insts st A (take k1 (mb_insts B1)) g1 = (exec_items st its (exec_item st it h), FallThrough)"
      using B1(6) [OF e2] by blast
    have sub: "new_blocks mf mf2 b - {b2} \<subseteq> set (mf_ids mf2) - {b2}" "new_blocks mf mf2 b - {b2} \<subseteq> ?S"
      "new_blocks mf2 mf1 b2 - {b1} \<subseteq> ?S"
      using m m1 bm by (auto simp: new_blocks_def)
    have "mf_walk st A mf1 (new_blocks mf mf2 b - {b2}) n2 (Some b, g) = Some (Some b2, g2)"
      using n2 mf_walk_agrees [OF agrees_on_subset [OF m1(5) sub(1)]] by simp
    from mf_walk_mono [OF this sub(2)] mf_walk_mono [OF n1 sub(3)]
    have "mf_walk st A mf1 ?S (n2 + n1) (Some b, g) = Some (Some b1, g1)" by (simp add: mf_walk_add)
    with e1 show ?thesis by (intro exI [of _ "n2 + n1"] exI [of _ g1]) simp
  qed
  have prefix: "map_option (\<lambda>E. take k (mb_insts E)) (find_block b (mf_blocks mf1)) = Some (take k (mb_insts B))"
  proof (cases "b2 = b")
    case True
    from m1(6) True obtain E where E: "find_block b (mf_blocks mf1) = Some E" "take k2 (mb_insts E) = take k2 (mb_insts B2)"
      by auto
    have "k \<le> k2" using m(3) True bm by blast
    then have "take k (mb_insts E) = take k (mb_insts B2)"
      using arg_cong [OF E(2), of "take k"] by (simp add: min_def)
    with E(1) m(6) B2(1) True show ?thesis by simp
  next
    case False
    then have "b \<in> set (mf_ids mf2) - {b2}" using bm m(2) by blast
    with m1(5) have "find_block b (mf_blocks mf1) = find_block b (mf_blocks mf2)" by (simp add: agrees_on_def)
    with m(6) show ?thesis by simp
  qed
  show ?case
    unfolding inserted_def
  proof (intro conjI exI [of _ B1])
    have "set (mf_ids mf) - {b} \<subseteq> set (mf_ids mf2) - {b2}" using m by blast
    then show "agrees_on (set (mf_ids mf) - {b}) mf mf1"
      using agrees_on_trans [OF m(5)] agrees_on_subset [OF m1(5)] by blast
    show "b1 = b \<and> k \<le> k1 \<or> b1 \<notin> set (mf_ids mf)"
      using m m1 by auto
    show "\<forall>g h. run_insts st A (take k (mb_insts B)) g = (h, FallThrough) \<longrightarrow>
        (\<exists>n g1. mf_walk st A mf1 (new_blocks mf mf1 b - {b1}) n (Some b, g) = Some (Some b1, g1) \<and>
           run_insts st A (take k1 (mb_insts B1)) g1 = (exec_items st (it # its) h, FallThrough))"
      using walk by blast
  qed (use B1 B2 m m1 prefix in auto)
qed

text \<open>
  The reference: the block at the insertion point runs its instructions up to the point, the
  emission as one step, and the rest of its instructions; it leaves by its own branch or falls
  through to the block that followed it in the layout.
\<close>

definition step_with ::
    "gcn_subtarget \<Rightarrow> app_sem \<Rightarrow> mfun \<Rightarrow> mblock \<Rightarrow> nat \<Rightarrow> mir_item list \<Rightarrow> gpu \<Rightarrow> (nat option \<times> gpu) option" where
  "step_with st A mf B k its g =
     leave_block mf (mb_id B)
       (case run_insts st A (take k (mb_insts B)) g of
          (h, FallThrough) \<Rightarrow> run_insts st A (drop k (mb_insts B)) (exec_items st its h)
        | r \<Rightarrow> r)"

lemma inserted_step:
  assumes "inserted st A mf b k B f mf1 b1 k1" and "b \<in> set (mf_ids mf)" and "mb_id B = b"
  shows "\<exists>n. mf_walk st A mf1 (new_blocks mf mf1 b) (Suc n) (Some b, g) =
    leave_block mf (mb_id B)
       (case run_insts st A (take k (mb_insts B)) g of
          (h, FallThrough) \<Rightarrow> run_insts st A (drop k (mb_insts B)) (f h)
        | r \<Rightarrow> r)"
proof -
  from assms(1) obtain B1 where B1: "find_block b1 (mf_blocks mf1) = Some B1"
      "drop k1 (mb_insts B1) = drop k (mb_insts B)"
      "next_block b1 (mf_blocks mf1) = next_block b (mf_blocks mf)"
      "\<And>g h. run_insts st A (take k (mb_insts B)) g = (h, FallThrough) \<Longrightarrow>
        \<exists>n g1. mf_walk st A mf1 (new_blocks mf mf1 b - {b1}) n (Some b, g) = Some (Some b1, g1) \<and>
           run_insts st A (take k1 (mb_insts B1)) g1 = (f h, FallThrough)"
    and m: "b1 = b \<and> k \<le> k1 \<or> b1 \<notin> set (mf_ids mf)" "b1 \<in> set (mf_ids mf1)"
      "map_option (\<lambda>E. take k (mb_insts E)) (find_block b (mf_blocks mf1)) = Some (take k (mb_insts B))"
    unfolding inserted_def by blast
  have new: "b \<in> new_blocks mf mf1 b" "b1 \<in> new_blocks mf mf1 b" using m by (auto simp: new_blocks_def)
  obtain h e where he: "run_insts st A (take k (mb_insts B)) g = (h, e)" by (cases "run_insts st A (take k (mb_insts B)) g")
  show ?thesis
  proof (cases "e = FallThrough")
    case True
    with he B1(4) obtain n g1 where n: "mf_walk st A mf1 (new_blocks mf mf1 b - {b1}) n (Some b, g) = Some (Some b1, g1)"
      and g1: "run_insts st A (take k1 (mb_insts B1)) g1 = (f h, FallThrough)"
      by blast
    have "run_insts st A (mb_insts B1) g1 = run_insts st A (drop k (mb_insts B)) (f h)"
      using run_insts_append [of st A "take k1 (mb_insts B1)" "drop k1 (mb_insts B1)" g1, unfolded append_take_drop_id] g1 B1(2) by simp
    then have "mf_walk st A mf1 (new_blocks mf mf1 b) 1 (Some b1, g1) =
        leave_block mf b (run_insts st A (drop k (mb_insts B)) (f h))"
      using B1(1,3) new by (auto simp: mf_step_def leave_block_def split: option.split block_exit.split)
    moreover have "mf_walk st A mf1 (new_blocks mf mf1 b) n (Some b, g) = Some (Some b1, g1)"
      using n by (rule mf_walk_mono) blast
    ultimately have "mf_walk st A mf1 (new_blocks mf mf1 b) (n + 1) (Some b, g) =
        leave_block mf b (run_insts st A (drop k (mb_insts B)) (f h))"
      by (simp only: mf_walk_add)
    with he True show ?thesis by (intro exI [of _ n]) (simp add: assms(3))
  next
    case False
    from m(3) obtain E where E: "find_block b (mf_blocks mf1) = Some E" "take k (mb_insts E) = take k (mb_insts B)"
      by auto
    have "run_insts st A (mb_insts E) g = (h, e)"
      using run_insts_append [of st A "take k (mb_insts E)" "drop k (mb_insts E)" g, unfolded append_take_drop_id] he E(2) False
      by (simp split: block_exit.splits)
    then have "mf_walk st A mf1 (new_blocks mf mf1 b) (Suc 0) (Some b, g) = leave_block mf b (h, e)"
      using E(1) new False by (auto simp: mf_step_def leave_block_def split: option.split block_exit.split)
    with he False show ?thesis by (intro exI [of _ 0]) (simp add: assms(3) split: block_exit.split)
  qed
qed

text \<open>
  C3: inserting an emission (moves and SCC-safe sequences, the latter as a split of the block with
  the body on both arms of a branch on SCC) at any point of a block of a well-formed machine function
  leaves a well-formed function in which control enters the block and leaves it, after finitely many
  blocks that are its own or new, exactly as if the emission were executed in place with SCC kept across
  every sequence, whatever the application instructions do; every other block is as before.
\<close>

theorem insert_items_step_with:
  assumes "mf_wf mf" "find_block b (mf_blocks mf) = Some B" "k \<le> length (mb_insts B)"
    "list_all item_ok its" "insert_items (b, k) its mf = (mf1, ip)"
  shows "mf_wf mf1 \<and> (\<exists>n. mf_walk st A mf1 (new_blocks mf mf1 b) (Suc n) (Some b, g) = step_with st A mf B k its g) \<and>
    (\<forall>x. x \<in> set (mf_ids mf) \<and> x \<noteq> b \<longrightarrow> mf_step st A mf1 (Some x, g) = mf_step st A mf (Some x, g))"
proof -
  obtain b1 k1 where ip: "ip = (b1, k1)" by (cases ip)
  have id: "mb_id B = b" and mem: "b \<in> set (mf_ids mf)"
    by (rule find_block_decomp [OF assms(1,2)]; simp add: mf_ids_def)+
  have ins: "inserted st A mf b k B (exec_items st its) mf1 b1 k1"
    using assms mem unfolding ip by (intro inserted_items)
  then have "mf_wf mf1" "agrees_on (set (mf_ids mf) - {b}) mf mf1" unfolding inserted_def by blast+
  with inserted_step [OF ins mem id, of g] show ?thesis
    by (auto simp: step_with_def agrees_on_step)
qed

text \<open>An application block that compares, and loops or leaves.\<close>

definition example_block :: mblock where
  "example_block = \<lparr>mb_id = 0, mb_insts = [App 0 None, App 1 (Some 0), App 2 None], mb_succs = [0]\<rparr>"

definition example_mf :: mfun where
  "example_mf = \<lparr>mf_blocks = [example_block], mf_next = 1\<rparr>"

definition example_app :: app_sem where
  "example_app n g =
     (if n = 0 then (g\<lparr>scc := sregs g (SGPR 1) = 0\<rparr>, False) else if n = 1 then (g, scc g) else (g, True))"

definition example_items :: "mir_item list" where
  "example_items = [MI (S_WAITCNT 0), SCCSafe (emitSGPRSwap (SGPR 3) (SGPR 4)), MI (S_WAITCNT 0)]"

lemmas example_defs = example_block_def example_mf_def example_items_def

lemma insert_items_step_with_witness:
  "mf_wf (fst (insert_items (0, 1) example_items example_mf)) \<and>
   (\<exists>n. mf_walk mai_absolute_fs example_app (fst (insert_items (0, 1) example_items example_mf))
        (new_blocks example_mf (fst (insert_items (0, 1) example_items example_mf)) 0) (Suc n) (Some 0, start_gpu) =
      step_with mai_absolute_fs example_app example_mf example_block 1 example_items start_gpu)"
  using insert_items_step_with [of example_mf 0 example_block 1 example_items
        "fst (insert_items (0, 1) example_items example_mf)" "snd (insert_items (0, 1) example_items example_mf)"
        mai_absolute_fs example_app start_gpu]
  by (simp add: example_defs mf_wf_def mf_ids_def emitSGPRSwap_def)

end
