(* ===== verification/SVA_Specs.thy ===== *)
theory SVA_Specs
  imports Gpu_Machine
begin

text \<open>
  \<open>src/lib/ToolCodeGen/StateValueArraySpecs.cpp\<close> and its header: which lane of the state
  value array (SVA) holds which scalar value. Lanes 0 to 2 are fixed; the analysis collects the
  scalar arguments that the instrumentation module reads and gives each a run of lanes. A lane
  number is a \<open>uint8_t\<close>, written as a natural number with the wrap-around of each sum.
\<close>

subsection \<open>Scalar value arguments\<close>

datatype ScalarValueArgument =
    WAVEFRONT_PRIVATE_SEGMENT_BUFFER
  | KERNEL_ARG_PTR
  | DISPATCH_ID
  | FLAT_SCRATCH
  | DISPATCH_PTR
  | QUEUE_PTR
  | WORK_ITEM_PRIVATE_SEGMENT_SIZE
  | IMPLICIT_ARG_BUFFER
  | WORKGROUP_ID_X
  | WORKGROUP_ID_Y
  | WORKGROUP_ID_Z
  | WORKITEM_ID_X
  | WORKITEM_ID_Y
  | WORKITEM_ID_Z

text \<open>The enumerators in the order of their values, 0 to \<open>SCALAR_VALUE_ARGUMENT_LAST\<close>.\<close>

definition all_scalar_arguments :: "ScalarValueArgument list" where
  "all_scalar_arguments =
     [WAVEFRONT_PRIVATE_SEGMENT_BUFFER, KERNEL_ARG_PTR, DISPATCH_ID, FLAT_SCRATCH, DISPATCH_PTR,
      QUEUE_PTR, WORK_ITEM_PRIVATE_SEGMENT_SIZE, IMPLICIT_ARG_BUFFER, WORKGROUP_ID_X,
      WORKGROUP_ID_Y, WORKGROUP_ID_Z, WORKITEM_ID_X, WORKITEM_ID_Y, WORKITEM_ID_Z]"

fun sva_value :: "ScalarValueArgument \<Rightarrow> nat" where
  "sva_value WAVEFRONT_PRIVATE_SEGMENT_BUFFER = 0"
| "sva_value KERNEL_ARG_PTR = 1"
| "sva_value DISPATCH_ID = 2"
| "sva_value FLAT_SCRATCH = 3"
| "sva_value DISPATCH_PTR = 4"
| "sva_value QUEUE_PTR = 5"
| "sva_value WORK_ITEM_PRIVATE_SEGMENT_SIZE = 6"
| "sva_value IMPLICIT_ARG_BUFFER = 7"
| "sva_value WORKGROUP_ID_X = 8"
| "sva_value WORKGROUP_ID_Y = 9"
| "sva_value WORKGROUP_ID_Z = 10"
| "sva_value WORKITEM_ID_X = 11"
| "sva_value WORKITEM_ID_Y = 12"
| "sva_value WORKITEM_ID_Z = 13"

lemma sva_value_inj: "sva_value a = sva_value b \<longleftrightarrow> a = b"
  by (cases a; cases b) simp_all

instantiation ScalarValueArgument :: linorder
begin

definition less_eq_ScalarValueArgument :: "ScalarValueArgument \<Rightarrow> ScalarValueArgument \<Rightarrow> bool" where
  "less_eq_ScalarValueArgument a b \<longleftrightarrow> sva_value a \<le> sva_value b"

definition less_ScalarValueArgument :: "ScalarValueArgument \<Rightarrow> ScalarValueArgument \<Rightarrow> bool" where
  "less_ScalarValueArgument a b \<longleftrightarrow> sva_value a < sva_value b"

instance
  by standard
    (auto simp: less_eq_ScalarValueArgument_def less_ScalarValueArgument_def sva_value_inj)

end

lemma all_scalar_arguments_nth: "all_scalar_arguments ! sva_value a = a"
  by (cases a) (simp_all add: all_scalar_arguments_def)

lemma all_scalar_arguments_props:
  "set all_scalar_arguments = UNIV" "distinct all_scalar_arguments" "length all_scalar_arguments = 14"
proof -
  have "a \<in> set all_scalar_arguments" for a
    by (cases a) (simp_all add: all_scalar_arguments_def)
  then show "set all_scalar_arguments = UNIV" by auto
qed (simp_all add: all_scalar_arguments_def)

text \<open>\<open>ScalarValueArgumentInfo<SA>::NumLanes\<close>.\<close>

fun getArgumentLaneSize :: "ScalarValueArgument \<Rightarrow> nat" where
  "getArgumentLaneSize WAVEFRONT_PRIVATE_SEGMENT_BUFFER = 4"
| "getArgumentLaneSize KERNEL_ARG_PTR = 2"
| "getArgumentLaneSize DISPATCH_ID = 2"
| "getArgumentLaneSize FLAT_SCRATCH = 2"
| "getArgumentLaneSize DISPATCH_PTR = 2"
| "getArgumentLaneSize QUEUE_PTR = 2"
| "getArgumentLaneSize WORK_ITEM_PRIVATE_SEGMENT_SIZE = 1"
| "getArgumentLaneSize IMPLICIT_ARG_BUFFER = 2"
| "getArgumentLaneSize WORKGROUP_ID_X = 1"
| "getArgumentLaneSize WORKGROUP_ID_Y = 1"
| "getArgumentLaneSize WORKGROUP_ID_Z = 1"
| "getArgumentLaneSize WORKITEM_ID_X = 1"
| "getArgumentLaneSize WORKITEM_ID_Y = 1"
| "getArgumentLaneSize WORKITEM_ID_Z = 1"

lemma getArgumentLaneSize_bounds: "0 < getArgumentLaneSize a" "getArgumentLaneSize a \<le> 4"
  by (cases a; simp)+

subsection \<open>The specification\<close>

definition StackPointerRegSpillLane :: nat where "StackPointerRegSpillLane = 0"
definition FramePointerRegSpillLane :: nat where "FramePointerRegSpillLane = 1"
definition StackPointerStoreLane :: nat where "StackPointerStoreLane = 2"

lemmas fixed_lanes =
  StackPointerRegSpillLane_def FramePointerRegSpillLane_def StackPointerStoreLane_def

record StateValueArraySpecs =
  BufferRsrcSpillLane :: "nat option"
  ScratchSpillLane :: "nat option"
  ScalarArguments :: "(ScalarValueArgument \<times> nat) list"

definition findArgumentLane :: "StateValueArraySpecs \<Rightarrow> ScalarValueArgument \<Rightarrow> nat option" where
  "findArgumentLane specs sa = map_of (ScalarArguments specs) sa"

text \<open>
  \<open>findLowestFreeLanes\<close>: the bit vector is the list of occupied lanes; a lane that is not
  below \<open>WaveSize\<close> is not marked.
\<close>

definition markRange :: "nat \<Rightarrow> nat \<Rightarrow> nat \<Rightarrow> nat set \<Rightarrow> nat set" where
  "markRange WaveSize base count occ = occ \<union> {l \<in> set [base..<base + count]. l < WaveSize}"

definition occupied :: "StateValueArraySpecs \<Rightarrow> nat \<Rightarrow> nat set" where
  "occupied specs WaveSize =
     fold (\<lambda>(sa, base). markRange WaveSize base (getArgumentLaneSize sa)) (ScalarArguments specs)
       ((case ScratchSpillLane specs of None \<Rightarrow> id | Some l \<Rightarrow> markRange WaveSize l 2)
         ((case BufferRsrcSpillLane specs of None \<Rightarrow> id | Some l \<Rightarrow> markRange WaveSize l 4)
           (markRange WaveSize StackPointerStoreLane 1
             (markRange WaveSize FramePointerRegSpillLane 1
               (markRange WaveSize StackPointerRegSpillLane 1 {})))))"

fun take_free :: "nat set \<Rightarrow> nat \<Rightarrow> nat list \<Rightarrow> nat list \<Rightarrow> nat list" where
  "take_free occ n [] out = out"
| "take_free occ n (l # ls) out =
     (if length out < n then take_free occ n ls (if l \<in> occ then out else out @ [l]) else out)"

definition findLowestFreeLanes :: "StateValueArraySpecs \<Rightarrow> nat \<Rightarrow> nat \<Rightarrow> nat list" where
  "findLowestFreeLanes specs NumLanes WaveSize =
     take_free (occupied specs WaveSize) NumLanes [0..<WaveSize] []"

subsection \<open>The analysis\<close>

text \<open>
  What the analysis reads of the instrumentation module: its functions as lists of blocks, a block
  as the list of its instructions. A call has the assembly string of its callee, or the value of the
  Luthier intrinsic attribute of its callee, if any.
\<close>

datatype called = InlineAsm string | DirectCall "string option" | IndirectCall
datatype call_arg = ConstantInt nat | OtherArg
datatype ir_inst = CallInst called "call_arg list" | OtherInst

type_synonym ir_module = "ir_inst list list list"

definition readSVA_name :: string where "readSVA_name = ''luthier::readSVA''"

fun IsReadSVACall :: "called \<Rightarrow> bool" where
  "IsReadSVACall (InlineAsm s) = (s = readSVA_name)"
| "IsReadSVACall (DirectCall (Some a)) = (a = readSVA_name)"
| "IsReadSVACall _ = False"

definition ExtractSAFromCall :: "call_arg list \<Rightarrow> ScalarValueArgument option" where
  "ExtractSAFromCall args =
     (case args of
        [ConstantInt v] \<Rightarrow> if 13 < v then None else Some (all_scalar_arguments ! v)
      | _ \<Rightarrow> None)"

fun used_of_inst :: "ir_inst \<Rightarrow> ScalarValueArgument set \<Rightarrow> ScalarValueArgument set" where
  "used_of_inst OtherInst u = u"
| "used_of_inst (CallInst c args) u =
     (if \<not> IsReadSVACall c then u
      else case ExtractSAFromCall args of None \<Rightarrow> u | Some sa \<Rightarrow> insert sa u)"

definition SAsUsed :: "ir_module \<Rightarrow> bool \<Rightarrow> ScalarValueArgument set" where
  "SAsUsed m IsInitialEntryPointKernel =
     (let u = fold (fold (fold used_of_inst)) m {}
      in if IsInitialEntryPointKernel then u else fold insert all_scalar_arguments u)"

text \<open>The state of the layout: the next free lane and the specification so far.\<close>

type_synonym layout = "nat \<times> StateValueArraySpecs"

fun insert_argument :: "ScalarValueArgument \<Rightarrow> layout \<Rightarrow> layout" where
  "insert_argument sa (nxt, sp) =
     ((nxt + getArgumentLaneSize sa) mod 256,
      sp\<lparr>ScalarArguments := mv_insert sa nxt (ScalarArguments sp)\<rparr>)"

fun set_buffer_spill :: "layout \<Rightarrow> layout" where
  "set_buffer_spill (nxt, sp) = ((nxt + 4) mod 256, sp\<lparr>BufferRsrcSpillLane := Some nxt\<rparr>)"

fun set_scratch_spill :: "layout \<Rightarrow> layout" where
  "set_scratch_spill (nxt, sp) = ((nxt + 2) mod 256, sp\<lparr>ScratchSpillLane := Some nxt\<rparr>)"

definition AssignIfUsed ::
    "gcn_subtarget \<Rightarrow> ScalarValueArgument set \<Rightarrow> ScalarValueArgument \<Rightarrow> layout \<Rightarrow> layout" where
  "AssignIfUsed st used sa L =
     (if sa \<notin> used then L
      else if (sa = WAVEFRONT_PRIVATE_SEGMENT_BUFFER \<or> sa = FLAT_SCRATCH) \<and>
              hasArchitectedFlatScratch st then L
      else insert_argument sa L)"

definition layout_fixed :: "gcn_subtarget \<Rightarrow> layout" where
  "layout_fixed st =
     (let L0 = ((StackPointerStoreLane + 1) mod 256,
                \<lparr>BufferRsrcSpillLane = None, ScratchSpillLane = None, ScalarArguments = []\<rparr>);
          L1 = if \<not> enableFlatScratch st \<and> \<not> hasArchitectedFlatScratch st
               then set_buffer_spill (insert_argument WAVEFRONT_PRIVATE_SEGMENT_BUFFER L0) else L0
      in if \<not> hasArchitectedFlatScratch st
         then set_scratch_spill (insert_argument FLAT_SCRATCH L1) else L1)"

definition sva_layout :: "gcn_subtarget \<Rightarrow> ScalarValueArgument set \<Rightarrow> layout" where
  "sva_layout st used = fold (AssignIfUsed st used) all_scalar_arguments (layout_fixed st)"

definition run_specs_analysis :: "gcn_subtarget \<Rightarrow> ir_module \<Rightarrow> bool \<Rightarrow> StateValueArraySpecs" where
  "run_specs_analysis st m entry_is_kernel =
     snd (sva_layout st (SAsUsed m entry_is_kernel))"

subsection \<open>The lanes of a specification\<close>

text \<open>Every lane that the specification hands out, once for each use.\<close>

definition lane_range :: "nat \<Rightarrow> nat \<Rightarrow> nat list" where
  "lane_range base count = [base..<base + count]"

definition sva_lanes :: "StateValueArraySpecs \<Rightarrow> nat list" where
  "sva_lanes sp =
     [StackPointerRegSpillLane, FramePointerRegSpillLane, StackPointerStoreLane] @
     (case BufferRsrcSpillLane sp of None \<Rightarrow> [] | Some l \<Rightarrow> lane_range l 4) @
     (case ScratchSpillLane sp of None \<Rightarrow> [] | Some l \<Rightarrow> lane_range l 2) @
     concat (map (\<lambda>(sa, b). lane_range b (getArgumentLaneSize sa)) (ScalarArguments sp))"

definition layout_inv :: "layout \<Rightarrow> bool" where
  "layout_inv L \<longleftrightarrow> distinct (sva_lanes (snd L)) \<and> (\<forall>l\<in>set (sva_lanes (snd L)). l < fst L) \<and>
     distinct (map fst (ScalarArguments (snd L)))"

lemma set_lane_range [simp]: "l \<in> set (lane_range b n) \<longleftrightarrow> b \<le> l \<and> l < b + n"
  by (simp add: lane_range_def)

lemma distinct_lane_range [simp]: "distinct (lane_range b n)"
  by (simp add: lane_range_def)

lemma lane_range_above: "\<forall>l\<in>set ls. l < b \<Longrightarrow> set ls \<inter> set (lane_range b n) = {}"
  by fastforce

lemma sva_lanes_insert:
  assumes "map_of (ScalarArguments sp) sa = None"
  shows "sva_lanes (sp\<lparr>ScalarArguments := mv_insert sa b (ScalarArguments sp)\<rparr>) =
    sva_lanes sp @ lane_range b (getArgumentLaneSize sa)"
  using assms by (simp add: sva_lanes_def mv_insert_def)

lemma layout_inv_insert:
  assumes "layout_inv (nxt, sp)" "nxt + getArgumentLaneSize sa < 256"
  shows "layout_inv (insert_argument sa (nxt, sp))"
proof (cases "map_of (ScalarArguments sp) sa")
  case None
  have "set (sva_lanes sp) \<inter> set (lane_range nxt (getArgumentLaneSize sa)) = {}"
    using assms(1) by (intro lane_range_above) (simp add: layout_inv_def)
  then show ?thesis
    using assms None
    by (auto simp: layout_inv_def sva_lanes_insert distinct_mv_insert)
next
  case (Some l)
  then have "sp\<lparr>ScalarArguments := mv_insert sa nxt (ScalarArguments sp)\<rparr> = sp"
    by (simp add: mv_insert_def)
  then show ?thesis using assms by (auto simp: layout_inv_def)
qed

lemma sva_lanes_spills:
  "BufferRsrcSpillLane sp = None \<Longrightarrow>
     set (sva_lanes (sp\<lparr>BufferRsrcSpillLane := Some b\<rparr>)) = set (sva_lanes sp) \<union> set (lane_range b 4)"
  "BufferRsrcSpillLane sp = None \<Longrightarrow>
     distinct (sva_lanes (sp\<lparr>BufferRsrcSpillLane := Some b\<rparr>)) \<longleftrightarrow>
     distinct (sva_lanes sp) \<and> set (sva_lanes sp) \<inter> set (lane_range b 4) = {}"
  "ScratchSpillLane sp = None \<Longrightarrow>
     set (sva_lanes (sp\<lparr>ScratchSpillLane := Some b\<rparr>)) = set (sva_lanes sp) \<union> set (lane_range b 2)"
  "ScratchSpillLane sp = None \<Longrightarrow>
     distinct (sva_lanes (sp\<lparr>ScratchSpillLane := Some b\<rparr>)) \<longleftrightarrow>
     distinct (sva_lanes sp) \<and> set (sva_lanes sp) \<inter> set (lane_range b 2) = {}"
proof -
  let ?F = "[StackPointerRegSpillLane, FramePointerRegSpillLane, StackPointerStoreLane]"
  let ?B = "case BufferRsrcSpillLane sp of None \<Rightarrow> [] | Some l \<Rightarrow> lane_range l 4"
  let ?S = "case ScratchSpillLane sp of None \<Rightarrow> [] | Some l \<Rightarrow> lane_range l 2"
  let ?A = "concat (map (\<lambda>(sa, b). lane_range b (getArgumentLaneSize sa)) (ScalarArguments sp))"
  have old: "sva_lanes sp = ?F @ ?B @ ?S @ ?A" by (simp add: sva_lanes_def)
  have 1: "sva_lanes (sp\<lparr>BufferRsrcSpillLane := Some b\<rparr>) = ?F @ lane_range b 4 @ ?S @ ?A"
    by (simp add: sva_lanes_def)
  have 2: "sva_lanes (sp\<lparr>ScratchSpillLane := Some b\<rparr>) = ?F @ ?B @ lane_range b 2 @ ?A"
    by (simp add: sva_lanes_def)
  have mid: "set (xs @ r @ ys) = set (xs @ ys) \<union> set r"
    "distinct (xs @ r @ ys) \<longleftrightarrow> distinct (xs @ ys) \<and> distinct r \<and> set (xs @ ys) \<inter> set r = {}"
    for xs r ys :: "nat list"
    by auto
  show "BufferRsrcSpillLane sp = None \<Longrightarrow>
     set (sva_lanes (sp\<lparr>BufferRsrcSpillLane := Some b\<rparr>)) = set (sva_lanes sp) \<union> set (lane_range b 4)"
    unfolding old 1 mid(1) by simp
  show "BufferRsrcSpillLane sp = None \<Longrightarrow>
     distinct (sva_lanes (sp\<lparr>BufferRsrcSpillLane := Some b\<rparr>)) \<longleftrightarrow>
     distinct (sva_lanes sp) \<and> set (sva_lanes sp) \<inter> set (lane_range b 4) = {}"
    unfolding old 1 mid(2) [of ?F] by (simp only: option.case append_Nil distinct_lane_range) simp
  show "ScratchSpillLane sp = None \<Longrightarrow>
     set (sva_lanes (sp\<lparr>ScratchSpillLane := Some b\<rparr>)) = set (sva_lanes sp) \<union> set (lane_range b 2)"
    unfolding old 2 using mid(1) [of "?F @ ?B" "lane_range b 2" ?A] by simp
  show "ScratchSpillLane sp = None \<Longrightarrow>
     distinct (sva_lanes (sp\<lparr>ScratchSpillLane := Some b\<rparr>)) \<longleftrightarrow>
     distinct (sva_lanes sp) \<and> set (sva_lanes sp) \<inter> set (lane_range b 2) = {}"
    unfolding old 2 using mid(2) [of "?F @ ?B" "lane_range b 2" ?A]
    by (simp only: option.case append_Nil append_assoc distinct_lane_range) simp
qed

lemma layout_inv_buffer:
  assumes "layout_inv (nxt, sp)" "nxt + 4 < 256" "BufferRsrcSpillLane sp = None"
  shows "layout_inv (set_buffer_spill (nxt, sp))"
proof -
  have "set (sva_lanes sp) \<inter> set (lane_range nxt 4) = {}"
    using assms(1) by (intro lane_range_above) (simp add: layout_inv_def)
  then show ?thesis
    using assms by (auto simp: layout_inv_def sva_lanes_spills)
qed

lemma layout_inv_scratch:
  assumes "layout_inv (nxt, sp)" "nxt + 2 < 256" "ScratchSpillLane sp = None"
  shows "layout_inv (set_scratch_spill (nxt, sp))"
proof -
  have "set (sva_lanes sp) \<inter> set (lane_range nxt 2) = {}"
    using assms(1) by (intro lane_range_above) (simp add: layout_inv_def)
  then show ?thesis
    using assms by (auto simp: layout_inv_def sva_lanes_spills)
qed

text \<open>The fixed part, written out for the three kinds of subtarget.\<close>

lemma layout_fixed_cases:
  "layout_fixed st =
     (if hasArchitectedFlatScratch st
      then (3, \<lparr>BufferRsrcSpillLane = None, ScratchSpillLane = None, ScalarArguments = []\<rparr>)
      else if enableFlatScratch st
      then (7, \<lparr>BufferRsrcSpillLane = None, ScratchSpillLane = Some 5,
               ScalarArguments = [(FLAT_SCRATCH, 3)]\<rparr>)
      else (15, \<lparr>BufferRsrcSpillLane = Some 7, ScratchSpillLane = Some 13,
                ScalarArguments = [(WAVEFRONT_PRIVATE_SEGMENT_BUFFER, 3), (FLAT_SCRATCH, 11)]\<rparr>))"
  by (simp add: layout_fixed_def Let_def fixed_lanes mv_insert_def)

lemma layout_inv_fixed: "layout_inv (layout_fixed st)"
  by (simp add: layout_fixed_cases layout_inv_def sva_lanes_def fixed_lanes lane_range_def
      del: set_lane_range distinct_lane_range) auto

text \<open>The lanes that assigning a list of arguments may take.\<close>

definition assigned_size ::
    "gcn_subtarget \<Rightarrow> ScalarValueArgument set \<Rightarrow> ScalarValueArgument \<Rightarrow> nat" where
  "assigned_size st used sa =
     (if sa \<notin> used \<or> (sa = WAVEFRONT_PRIVATE_SEGMENT_BUFFER \<or> sa = FLAT_SCRATCH) \<and>
                       hasArchitectedFlatScratch st
      then 0 else getArgumentLaneSize sa)"

lemma AssignIfUsed_inv:
  assumes "layout_inv L" "fst L + assigned_size st used sa < 256"
  shows "layout_inv (AssignIfUsed st used sa L) \<and>
    fst (AssignIfUsed st used sa L) = fst L + assigned_size st used sa"
proof (cases "assigned_size st used sa = 0")
  case True
  then have "AssignIfUsed st used sa L = L"
    using getArgumentLaneSize_bounds(1) [of sa]
    by (auto simp: AssignIfUsed_def assigned_size_def split: if_splits)
  with True assms show ?thesis by simp
next
  case False
  obtain nxt sp where L: "L = (nxt, sp)" by (cases L)
  from False have "AssignIfUsed st used sa L = insert_argument sa L"
    and "assigned_size st used sa = getArgumentLaneSize sa"
    by (auto simp: AssignIfUsed_def assigned_size_def split: if_splits)
  with assms layout_inv_insert [of nxt sp sa] show ?thesis by (simp add: L)
qed

lemma fold_Assign_inv:
  assumes "layout_inv L" "fst L + sum_list (map (assigned_size st used) sas) < 256"
  shows "layout_inv (fold (AssignIfUsed st used) sas L) \<and>
    fst (fold (AssignIfUsed st used) sas L) = fst L + sum_list (map (assigned_size st used) sas)"
  using assms
proof (induction sas arbitrary: L)
  case Nil
  then show ?case by simp
next
  case (Cons sa sas)
  then have "layout_inv (AssignIfUsed st used sa L) \<and>
      fst (AssignIfUsed st used sa L) = fst L + assigned_size st used sa"
    by (intro AssignIfUsed_inv) auto
  then show ?case using Cons.IH [of "AssignIfUsed st used sa L"] Cons.prems by simp
qed

lemma assigned_size_le: "assigned_size st used sa \<le> getArgumentLaneSize sa"
  by (simp add: assigned_size_def)

lemma assigned_sum_le: "sum_list (map (assigned_size st used) all_scalar_arguments) \<le> 23"
proof -
  have "sum_list (map (assigned_size st used) all_scalar_arguments) \<le>
      sum_list (map getArgumentLaneSize all_scalar_arguments)"
    by (intro sum_list_mono assigned_size_le)
  then show ?thesis by (simp add: all_scalar_arguments_def)
qed

lemma layout_fixed_next: "fst (layout_fixed st) \<le> 15"
  by (simp add: layout_fixed_cases)

lemma sva_layout_inv:
  "layout_inv (sva_layout st used)"
  "fst (sva_layout st used) =
     fst (layout_fixed st) + sum_list (map (assigned_size st used) all_scalar_arguments)"
  using fold_Assign_inv [OF layout_inv_fixed, of st st used all_scalar_arguments]
    assigned_sum_le [of st used] layout_fixed_next [of st]
  by (simp_all add: sva_layout_def)

lemma sva_layout_next_le: "fst (sva_layout st used) \<le> 38"
  using sva_layout_inv(2) [of st used] assigned_sum_le [of st used] layout_fixed_next [of st]
  by simp

subsection \<open>Which arguments have a lane\<close>

lemma fold_Assign_keys:
  "fst ` set (ScalarArguments (snd (fold (AssignIfUsed st used) sas L))) =
   fst ` set (ScalarArguments (snd L)) \<union>
     {sa \<in> set sas. sa \<in> used \<and>
        \<not> ((sa = WAVEFRONT_PRIVATE_SEGMENT_BUFFER \<or> sa = FLAT_SCRATCH) \<and> hasArchitectedFlatScratch st)}"
proof (induction sas arbitrary: L)
  case Nil
  then show ?case by simp
next
  case (Cons sa sas)
  obtain nxt sp where L: "L = (nxt, sp)" by (cases L)
  have keys: "fst ` set (mv_insert sa nxt m) = insert sa (fst ` set m)" for m
    by (auto simp: mv_insert_def map_of_eq_None_iff)
  show ?case
    by (simp only: fold_Cons o_apply Cons.IH)
      (auto simp: AssignIfUsed_def L keys)
qed

lemma findArgumentLane_Some_iff:
  "(\<exists>l. findArgumentLane sp sa = Some l) \<longleftrightarrow> sa \<in> fst ` set (ScalarArguments sp)"
  by (metis findArgumentLane_def map_of_eq_None_iff not_None_eq)

lemma sva_layout_argument:
  "(\<exists>l. findArgumentLane (snd (sva_layout st used)) sa = Some l) \<longleftrightarrow>
   (if sa = FLAT_SCRATCH then \<not> hasArchitectedFlatScratch st
    else if sa = WAVEFRONT_PRIVATE_SEGMENT_BUFFER
    then \<not> hasArchitectedFlatScratch st \<and> (\<not> enableFlatScratch st \<or> sa \<in> used)
    else sa \<in> used)"
  unfolding findArgumentLane_Some_iff sva_layout_def fold_Assign_keys
  by (auto simp: layout_fixed_cases all_scalar_arguments_props)

lemma argument_has_lane_iff_none:
  "findArgumentLane (run_specs_analysis st m k) FLAT_SCRATCH = None \<longleftrightarrow> hasArchitectedFlatScratch st"
proof -
  have "(\<exists>l. findArgumentLane (run_specs_analysis st m k) FLAT_SCRATCH = Some l) \<longleftrightarrow>
      \<not> hasArchitectedFlatScratch st"
    unfolding run_specs_analysis_def sva_layout_argument by simp
  then show ?thesis
    by (cases "findArgumentLane (run_specs_analysis st m k) FLAT_SCRATCH") simp_all
qed

lemma SAsUsed_not_kernel: "SAsUsed m False = UNIV"
proof -
  have "fold insert xs u = set xs \<union> u" for xs :: "ScalarValueArgument list" and u
    by (induction xs arbitrary: u) auto
  then show ?thesis by (simp add: SAsUsed_def all_scalar_arguments_props)
qed

subsection \<open>Free lanes\<close>

lemma occupied_lanes: "occupied specs W = {l \<in> set (sva_lanes specs). l < W}"
proof -
  have args: "fold (\<lambda>(sa, base). markRange W base (getArgumentLaneSize sa)) xs occ =
      occ \<union> {l \<in> set (concat (map (\<lambda>(sa, b). lane_range b (getArgumentLaneSize sa)) xs)). l < W}"
    for xs occ
    by (induction xs arbitrary: occ) (auto simp: markRange_def)
  show ?thesis
    unfolding occupied_def args
    by (auto simp: sva_lanes_def markRange_def fixed_lanes split: option.splits)
qed

lemma take_free_eq:
  "length out \<le> n \<Longrightarrow> take_free occ n ls out = take n (out @ filter (\<lambda>l. l \<notin> occ) ls)"
  by (induction ls arbitrary: out) (auto simp: take_Cons')

lemma findLowestFreeLanes_eq:
  "findLowestFreeLanes specs n W = take n (filter (\<lambda>l. l \<notin> set (sva_lanes specs)) [0..<W])"
proof -
  have "filter (\<lambda>l. l \<notin> occupied specs W) [0..<W] = filter (\<lambda>l. l \<notin> set (sva_lanes specs)) [0..<W]"
    by (rule filter_cong) (auto simp: occupied_lanes)
  then show ?thesis by (simp add: findLowestFreeLanes_def take_free_eq)
qed

subsection \<open>Properties\<close>

text \<open>
  C6: the layout analysis never gives one lane twice: the fixed lanes, the spill regions and the
  lanes of all scalar arguments are distinct, and all lie below the next free lane, which is at most
  38 and so never wraps around in its \<open>uint8_t\<close>.
\<close>

theorem sva_layout_lanes_distinct:
  "distinct (sva_lanes (snd (sva_layout st used))) \<and>
   list_all (\<lambda>l. l < fst (sva_layout st used)) (sva_lanes (snd (sva_layout st used))) \<and>
   fst (sva_layout st used) \<le> 38"
  using sva_layout_inv(1) [of st used] sva_layout_next_le [of st used]
  by (simp add: layout_inv_def list_all_iff)

text \<open>
  an argument has a lane exactly when the module reads it (every argument when the entry point is
  not a kernel), except that the flat scratch base always has one and the private segment buffer has
  one when there are no flat scratch instructions, and neither has one on a target with architected
  flat scratch.
\<close>

lemma argument_has_lane_iff:
  "(\<exists>l. findArgumentLane (run_specs_analysis st m entry_is_kernel) sa = Some l) \<longleftrightarrow>
   (if sa = FLAT_SCRATCH then \<not> hasArchitectedFlatScratch st
    else if sa = WAVEFRONT_PRIVATE_SEGMENT_BUFFER
    then \<not> hasArchitectedFlatScratch st \<and>
      (if enableFlatScratch st then sa \<in> SAsUsed m entry_is_kernel else True)
    else sa \<in> SAsUsed m entry_is_kernel)"
  unfolding run_specs_analysis_def sva_layout_argument by simp

text \<open>
  with flat scratch instructions or architected flat scratch, every lane of the array exists on
  every wavefront size, whatever the module reads.
\<close>

lemma sva_layout_fits_wave:
  assumes "enableFlatScratch st \<or> hasArchitectedFlatScratch st"
  shows "list_all (\<lambda>l. l < wave_size st) (sva_lanes (snd (sva_layout st used)))"
proof -
  have "fst (layout_fixed st) \<le> 7"
    using assms by (auto simp: layout_fixed_cases)
  then have "fst (sva_layout st used) \<le> wave_size st"
    using sva_layout_inv(2) [of st used] assigned_sum_le [of st used] wave_size_bounds(1) [of st]
    by simp
  then show ?thesis
    using sva_layout_inv(1) [of st used] by (auto simp: layout_inv_def list_all_iff)
qed

lemma sva_layout_fits_wave_instance:
  "list_all (\<lambda>l. l < wave_size mai_absolute_fs) (sva_lanes (snd (sva_layout mai_absolute_fs UNIV)))"
  by (rule sva_layout_fits_wave) (simp add: example_targets)

text \<open>
  without flat scratch instructions and without architected flat scratch, when the entry point is
  not a kernel, the array needs 38 lanes: on a wave32 target the last argument is given lane 37, which
  the wavefront does not have.
\<close>

lemma non_kernel_layout_overflows_wave32:
  assumes "\<not> enableFlatScratch st" "\<not> hasArchitectedFlatScratch st" "isWave32 st"
  shows "findArgumentLane (run_specs_analysis st m False) WORKITEM_ID_Z = Some 37 \<and>
    wave_size st = 32"
  using assms
  by (simp add: run_specs_analysis_def SAsUsed_not_kernel sva_layout_def layout_fixed_cases
      all_scalar_arguments_def AssignIfUsed_def findArgumentLane_def mv_insert_def wave_size_def)

lemma non_kernel_layout_overflows_wave32_witness:
  "findArgumentLane (run_specs_analysis wave32_no_flat_scratch [] False) WORKITEM_ID_Z = Some 37 \<and>
   wave_size wave32_no_flat_scratch = 32"
  by (rule non_kernel_layout_overflows_wave32) (simp_all add: example_targets)


text \<open>A layout with no lanes besides the fixed ones, for examples.\<close>

definition no_lanes :: StateValueArraySpecs where
  "no_lanes = \<lparr>BufferRsrcSpillLane = None, ScratchSpillLane = None, ScalarArguments = []\<rparr>"

end
