(* ===== verification/SVA_Storage.thy ===== *)
theory SVA_Storage
  imports SCC_Safe_CFG SVA_Specs
begin

text \<open>
  The five storage schemes of the state value array
  (\<open>include/luthier/ToolCodeGen/StateValueArrayStorage.h\<close>,
  \<open>src/lib/ToolCodeGen/StateValueArrayStorage.cpp\<close>): their registers, their support on a
  subtarget, their construction, and the code that loads the array into a VGPR and stores it back.
  \<open>sva_of\<close> reads the array out of the machine under a scheme and \<open>saved_of\<close> the
  place where a load keeps the application value of the VGPR. The lemmas give the effect of both
  emissions on every lane and what they leave alone; the locale states the protocol that a payload
  between them relies on.
\<close>

subsection \<open>Schemes\<close>

datatype StorageKind =
    SVS_SINGLE_VGPR
  | SVS_TWO_AGPRs
  | SVS_SINGLE_AGPR_WITH_THREE_SGPRS_pre_gfx908
  | SVS_SPILLED_WITH_THREE_SGPRS_absolute_fs
  | SVS_SPILLED_WITH_ONE_SGPR_architected_fs

fun getNumVGPRsUsed :: "StorageKind \<Rightarrow> nat" where
  "getNumVGPRsUsed SVS_SINGLE_VGPR = 1"
| "getNumVGPRsUsed SVS_TWO_AGPRs = 0"
| "getNumVGPRsUsed SVS_SINGLE_AGPR_WITH_THREE_SGPRS_pre_gfx908 = 0"
| "getNumVGPRsUsed SVS_SPILLED_WITH_THREE_SGPRS_absolute_fs = 0"
| "getNumVGPRsUsed SVS_SPILLED_WITH_ONE_SGPR_architected_fs = 0"

fun getNumAGPRsUsed :: "StorageKind \<Rightarrow> nat" where
  "getNumAGPRsUsed SVS_SINGLE_VGPR = 0"
| "getNumAGPRsUsed SVS_TWO_AGPRs = 2"
| "getNumAGPRsUsed SVS_SINGLE_AGPR_WITH_THREE_SGPRS_pre_gfx908 = 1"
| "getNumAGPRsUsed SVS_SPILLED_WITH_THREE_SGPRS_absolute_fs = 0"
| "getNumAGPRsUsed SVS_SPILLED_WITH_ONE_SGPR_architected_fs = 0"

fun getNumSGPRsUsed :: "StorageKind \<Rightarrow> nat" where
  "getNumSGPRsUsed SVS_SINGLE_VGPR = 0"
| "getNumSGPRsUsed SVS_TWO_AGPRs = 0"
| "getNumSGPRsUsed SVS_SINGLE_AGPR_WITH_THREE_SGPRS_pre_gfx908 = 3"
| "getNumSGPRsUsed SVS_SPILLED_WITH_THREE_SGPRS_absolute_fs = 3"
| "getNumSGPRsUsed SVS_SPILLED_WITH_ONE_SGPR_architected_fs = 1"

fun isSupportedOnSubTarget :: "StorageKind \<Rightarrow> gcn_subtarget \<Rightarrow> bool" where
  "isSupportedOnSubTarget SVS_SINGLE_VGPR st = True"
| "isSupportedOnSubTarget SVS_TWO_AGPRs st = hasMAIInsts st"
| "isSupportedOnSubTarget SVS_SINGLE_AGPR_WITH_THREE_SGPRS_pre_gfx908 st =
     (hasMAIInsts st \<and> \<not> hasGFX90AInsts st)"
| "isSupportedOnSubTarget SVS_SPILLED_WITH_THREE_SGPRS_absolute_fs st =
     (\<not> hasArchitectedFlatScratch st)"
| "isSupportedOnSubTarget SVS_SPILLED_WITH_ONE_SGPR_architected_fs st =
     hasArchitectedFlatScratch st"

text \<open>The loop over the kinds in preference order.\<close>

definition storage_kinds :: "StorageKind list" where
  "storage_kinds =
     [SVS_SINGLE_VGPR, SVS_TWO_AGPRs, SVS_SINGLE_AGPR_WITH_THREE_SGPRS_pre_gfx908,
      SVS_SPILLED_WITH_THREE_SGPRS_absolute_fs, SVS_SPILLED_WITH_ONE_SGPR_architected_fs]"

definition getSupportedSVAStorageList :: "gcn_subtarget \<Rightarrow> StorageKind list \<Rightarrow> StorageKind list" where
  "getSupportedSVAStorageList st SupportedStorageKinds =
     fold (\<lambda>sk out. if isSupportedOnSubTarget sk st then out @ [sk] else out)
       storage_kinds SupportedStorageKinds"

text \<open>A storage; the order of the arguments is the one of the C++ constructors.\<close>

datatype SVAStorage =
    VGPRStateValueArrayStorage mcreg
  | TwoAGPRValueStorage mcreg mcreg
  | AGPRWithThreeSGPRSValueStorage mcreg mcreg mcreg mcreg
  | SpilledWithThreeSGPRsValueStorage mcreg mcreg mcreg
  | SpilledWithOneSGPRsValueStorage mcreg

fun getScheme :: "SVAStorage \<Rightarrow> StorageKind" where
  "getScheme (VGPRStateValueArrayStorage v) = SVS_SINGLE_VGPR"
| "getScheme (TwoAGPRValueStorage a t) = SVS_TWO_AGPRs"
| "getScheme (AGPRWithThreeSGPRSValueStorage a hi lo sp) =
     SVS_SINGLE_AGPR_WITH_THREE_SGPRS_pre_gfx908"
| "getScheme (SpilledWithThreeSGPRsValueStorage hi lo sp) =
     SVS_SPILLED_WITH_THREE_SGPRS_absolute_fs"
| "getScheme (SpilledWithOneSGPRsValueStorage sp) = SVS_SPILLED_WITH_ONE_SGPR_architected_fs"

fun getStateValueStorageReg :: "SVAStorage \<Rightarrow> mcreg" where
  "getStateValueStorageReg (VGPRStateValueArrayStorage v) = v"
| "getStateValueStorageReg (TwoAGPRValueStorage a t) = a"
| "getStateValueStorageReg (AGPRWithThreeSGPRSValueStorage a hi lo sp) = a"
| "getStateValueStorageReg (SpilledWithThreeSGPRsValueStorage hi lo sp) = NoRegister"
| "getStateValueStorageReg (SpilledWithOneSGPRsValueStorage sp) = NoRegister"

fun requiresLoadAndStoreBeforeUse :: "SVAStorage \<Rightarrow> bool" where
  "requiresLoadAndStoreBeforeUse (VGPRStateValueArrayStorage v) = False"
| "requiresLoadAndStoreBeforeUse _ = True"

fun getAllStorageRegisters :: "SVAStorage \<Rightarrow> mcreg list \<Rightarrow> mcreg list" where
  "getAllStorageRegisters (VGPRStateValueArrayStorage v) regs = regs @ [v]"
| "getAllStorageRegisters (TwoAGPRValueStorage a t) regs = regs @ [a, t]"
| "getAllStorageRegisters (AGPRWithThreeSGPRSValueStorage a hi lo sp) regs = regs @ [a, hi, lo, sp]"
| "getAllStorageRegisters (SpilledWithThreeSGPRsValueStorage hi lo sp) regs = regs @ [hi, lo, sp]"
| "getAllStorageRegisters (SpilledWithOneSGPRsValueStorage sp) regs = regs @ [sp]"

text \<open>\<open>operator==\<close>, which dispatches on the class of the left-hand side.\<close>

fun storage_eq :: "SVAStorage \<Rightarrow> SVAStorage \<Rightarrow> bool" where
  "storage_eq (VGPRStateValueArrayStorage v) (VGPRStateValueArrayStorage v') = (v = v')"
| "storage_eq (TwoAGPRValueStorage a t) (TwoAGPRValueStorage a' t') = (a = a' \<and> t = t')"
| "storage_eq (AGPRWithThreeSGPRSValueStorage a hi lo sp)
     (AGPRWithThreeSGPRSValueStorage a' hi' lo' sp') = (a = a' \<and> sp = sp' \<and> hi = hi' \<and> lo = lo')"
| "storage_eq (SpilledWithThreeSGPRsValueStorage hi lo sp)
     (SpilledWithThreeSGPRsValueStorage hi' lo' sp') = (sp = sp' \<and> hi = hi' \<and> lo = lo')"
| "storage_eq (SpilledWithOneSGPRsValueStorage sp) (SpilledWithOneSGPRsValueStorage sp') = (sp = sp')"
| "storage_eq _ _ = False"

subsection \<open>Construction\<close>

datatype sva_error =
    InsufficientVGPRs
  | InsufficientAGPRs
  | InsufficientSGPRs
  | NoFlatScratchLane
  | FlatScratchLaneSize

fun createSVAStorage ::
    "mcreg list \<Rightarrow> mcreg list \<Rightarrow> mcreg list \<Rightarrow> StorageKind \<Rightarrow> sva_error + SVAStorage" where
  "createSVAStorage VGPRs AGPRs SGPRs SVS_SINGLE_VGPR =
     err_bind (err_check (1 \<le> length VGPRs) InsufficientVGPRs) (\<lambda>_.
       Inr (VGPRStateValueArrayStorage (VGPRs ! 0)))"
| "createSVAStorage VGPRs AGPRs SGPRs SVS_TWO_AGPRs =
     err_bind (err_check (2 \<le> length AGPRs) InsufficientAGPRs) (\<lambda>_.
       Inr (TwoAGPRValueStorage (AGPRs ! 0) (AGPRs ! 1)))"
| "createSVAStorage VGPRs AGPRs SGPRs SVS_SINGLE_AGPR_WITH_THREE_SGPRS_pre_gfx908 =
     err_bind (err_check (1 \<le> length AGPRs) InsufficientAGPRs) (\<lambda>_.
       err_bind (err_check (3 \<le> length SGPRs) InsufficientSGPRs) (\<lambda>_.
         Inr (AGPRWithThreeSGPRSValueStorage (AGPRs ! 0) (SGPRs ! 0) (SGPRs ! 1) (SGPRs ! 2))))"
| "createSVAStorage VGPRs AGPRs SGPRs SVS_SPILLED_WITH_THREE_SGPRS_absolute_fs =
     err_bind (err_check (3 \<le> length SGPRs) InsufficientSGPRs) (\<lambda>_.
       Inr (SpilledWithThreeSGPRsValueStorage (SGPRs ! 0) (SGPRs ! 1) (SGPRs ! 2)))"
| "createSVAStorage VGPRs AGPRs SGPRs SVS_SPILLED_WITH_ONE_SGPR_architected_fs =
     err_bind (err_check (1 \<le> length SGPRs) InsufficientSGPRs) (\<lambda>_.
       Inr (SpilledWithOneSGPRsValueStorage (SGPRs ! 0)))"

subsection \<open>Load and store\<close>

text \<open>The parentheses mark the code for the active and for the inactive lanes.\<close>

definition TwoAGPR_emitCodeToLoadSVA :: "gcn_subtarget \<Rightarrow> mcreg \<Rightarrow> mcreg \<Rightarrow> mcreg \<Rightarrow> mir_item list" where
  "TwoAGPR_emitCodeToLoadSVA st StorageAGPR TempAGPR DestVGPR =
     [SCCSafe (
        (emitMoveFromVGPRToAGPR DestVGPR TempAGPR True @
         emitMoveFromAGPRToVGPR StorageAGPR DestVGPR False) @
        emitExecMaskFlip st @
        (emitMoveFromVGPRToAGPR DestVGPR TempAGPR True @
         emitMoveFromAGPRToVGPR StorageAGPR DestVGPR True) @
        emitExecMaskFlip st)]"

definition AGPR3_emitCodeToLoadSVA :: "gcn_subtarget \<Rightarrow> mcreg \<Rightarrow> mcreg \<Rightarrow> mcreg \<Rightarrow> mcreg \<Rightarrow> mcreg \<Rightarrow> mir_item list" where
  "AGPR3_emitCodeToLoadSVA st StorageAGPR FSHi FSLo SP DestVGPR =
     [SCCSafe (
        emitSGPRSwap FLAT_SCR_LO FSLo @
        emitSGPRSwap FLAT_SCR_HI FSHi @
        (emitStoreToEmergencyVGPRScratchSpillLocation SP DestVGPR False @
         emitMoveFromAGPRToVGPR StorageAGPR DestVGPR False) @
        emitExecMaskFlip st @
        (emitStoreToEmergencyVGPRScratchSpillLocation SP DestVGPR True @
         emitMoveFromAGPRToVGPR StorageAGPR DestVGPR True) @
        emitExecMaskFlip st @
        emitSGPRSwap FSLo FLAT_SCR_LO @
        emitSGPRSwap FSHi FLAT_SCR_HI)] @
     map MI (emitWaitCnt 0)"

definition Spilled3_emitCodeToLoadSVA :: "gcn_subtarget \<Rightarrow> mcreg \<Rightarrow> mcreg \<Rightarrow> mcreg \<Rightarrow> mcreg \<Rightarrow> mir_item list" where
  "Spilled3_emitCodeToLoadSVA st FSHi FSLo SP DestVGPR =
     [SCCSafe (
        emitSGPRSwap FLAT_SCR_LO FSLo @
        emitSGPRSwap FLAT_SCR_HI FSHi @
        (emitStoreToEmergencyVGPRScratchSpillLocation SP DestVGPR False @
         emitLoadFromEmergencySVSScratchSpillLocation SP DestVGPR) @
        emitExecMaskFlip st @
        (emitStoreToEmergencyVGPRScratchSpillLocation SP DestVGPR True @
         emitLoadFromEmergencySVSScratchSpillLocation SP DestVGPR) @
        emitExecMaskFlip st @
        emitSGPRSwap FSLo FLAT_SCR_LO @
        emitSGPRSwap FSHi FLAT_SCR_HI)] @
     map MI (emitWaitCnt 0)"

definition Spilled1_emitCodeToLoadSVA :: "gcn_subtarget \<Rightarrow> mcreg \<Rightarrow> mcreg \<Rightarrow> mir_item list" where
  "Spilled1_emitCodeToLoadSVA st SP DestVGPR =
     [SCCSafe (
        (emitStoreToEmergencyVGPRScratchSpillLocation SP DestVGPR False @
         emitLoadFromEmergencySVSScratchSpillLocation SP DestVGPR) @
        emitExecMaskFlip st @
        (emitStoreToEmergencyVGPRScratchSpillLocation SP DestVGPR True @
         emitLoadFromEmergencySVSScratchSpillLocation SP DestVGPR) @
        emitExecMaskFlip st)] @
     map MI (emitWaitCnt 0)"

fun emitCodeToLoadSVA :: "gcn_subtarget \<Rightarrow> SVAStorage \<Rightarrow> mcreg \<Rightarrow> mir_item list" where
  "emitCodeToLoadSVA st (VGPRStateValueArrayStorage v) DestVGPR = []"
| "emitCodeToLoadSVA st (TwoAGPRValueStorage StorageAGPR TempAGPR) DestVGPR =
     TwoAGPR_emitCodeToLoadSVA st StorageAGPR TempAGPR DestVGPR"
| "emitCodeToLoadSVA st (AGPRWithThreeSGPRSValueStorage StorageAGPR FSHi FSLo SP) DestVGPR =
     AGPR3_emitCodeToLoadSVA st StorageAGPR FSHi FSLo SP DestVGPR"
| "emitCodeToLoadSVA st (SpilledWithThreeSGPRsValueStorage FSHi FSLo SP) DestVGPR =
     Spilled3_emitCodeToLoadSVA st FSHi FSLo SP DestVGPR"
| "emitCodeToLoadSVA st (SpilledWithOneSGPRsValueStorage SP) DestVGPR =
     Spilled1_emitCodeToLoadSVA st SP DestVGPR"

definition TwoAGPR_emitCodeToStoreSVA :: "gcn_subtarget \<Rightarrow> mcreg \<Rightarrow> mcreg \<Rightarrow> mcreg \<Rightarrow> mir_item list" where
  "TwoAGPR_emitCodeToStoreSVA st StorageAGPR TempAGPR SrcVGPR =
     [SCCSafe (
        (emitMoveFromVGPRToAGPR SrcVGPR StorageAGPR True @
         emitMoveFromAGPRToVGPR TempAGPR SrcVGPR False) @
        emitExecMaskFlip st @
        (emitMoveFromVGPRToAGPR SrcVGPR StorageAGPR True @
         emitMoveFromAGPRToVGPR TempAGPR SrcVGPR True) @
        emitExecMaskFlip st)]"

definition AGPR3_emitCodeToStoreSVA :: "gcn_subtarget \<Rightarrow> mcreg \<Rightarrow> mcreg \<Rightarrow> mcreg \<Rightarrow> mcreg \<Rightarrow> mcreg \<Rightarrow> mir_item list" where
  "AGPR3_emitCodeToStoreSVA st StorageAGPR FSHi FSLo SP SrcVGPR =
     [SCCSafe (
        emitSGPRSwap FLAT_SCR_LO FSLo @
        emitSGPRSwap FLAT_SCR_HI FSHi @
        (emitMoveFromVGPRToAGPR SrcVGPR StorageAGPR False @
         emitLoadFromEmergencyVGPRScratchSpillLocation SP SrcVGPR) @
        emitExecMaskFlip st @
        (emitMoveFromVGPRToAGPR SrcVGPR StorageAGPR True @
         emitLoadFromEmergencyVGPRScratchSpillLocation SP SrcVGPR) @
        emitExecMaskFlip st @
        emitSGPRSwap FSLo FLAT_SCR_LO @
        emitSGPRSwap FSHi FLAT_SCR_HI)] @
     map MI (emitWaitCnt 0)"

definition Spilled3_emitCodeToStoreSVA :: "gcn_subtarget \<Rightarrow> mcreg \<Rightarrow> mcreg \<Rightarrow> mcreg \<Rightarrow> mcreg \<Rightarrow> mir_item list" where
  "Spilled3_emitCodeToStoreSVA st FSHi FSLo SP SrcVGPR =
     [SCCSafe (
        emitSGPRSwap FLAT_SCR_LO FSLo @
        emitSGPRSwap FLAT_SCR_HI FSHi @
        (emitStoreToEmergencySVSScratchSpillLocation SP SrcVGPR False @
         emitLoadFromEmergencyVGPRScratchSpillLocation SP SrcVGPR) @
        emitExecMaskFlip st @
        (emitStoreToEmergencySVSScratchSpillLocation SP SrcVGPR True @
         emitLoadFromEmergencyVGPRScratchSpillLocation SP SrcVGPR) @
        emitExecMaskFlip st @
        emitSGPRSwap FSLo FLAT_SCR_LO @
        emitSGPRSwap FSHi FLAT_SCR_HI)] @
     map MI (emitWaitCnt 0)"

definition Spilled1_emitCodeToStoreSVA :: "gcn_subtarget \<Rightarrow> mcreg \<Rightarrow> mcreg \<Rightarrow> mir_item list" where
  "Spilled1_emitCodeToStoreSVA st SP SrcVGPR =
     [SCCSafe (
        (emitStoreToEmergencySVSScratchSpillLocation SP SrcVGPR False @
         emitLoadFromEmergencyVGPRScratchSpillLocation SP SrcVGPR) @
        emitExecMaskFlip st @
        (emitStoreToEmergencySVSScratchSpillLocation SP SrcVGPR False @
         emitLoadFromEmergencyVGPRScratchSpillLocation SP SrcVGPR) @
        emitExecMaskFlip st)] @
     map MI (emitWaitCnt 0)"

fun emitCodeToStoreSVA :: "gcn_subtarget \<Rightarrow> SVAStorage \<Rightarrow> mcreg \<Rightarrow> mir_item list" where
  "emitCodeToStoreSVA st (VGPRStateValueArrayStorage v) SrcVGPR = []"
| "emitCodeToStoreSVA st (TwoAGPRValueStorage StorageAGPR TempAGPR) SrcVGPR =
     TwoAGPR_emitCodeToStoreSVA st StorageAGPR TempAGPR SrcVGPR"
| "emitCodeToStoreSVA st (AGPRWithThreeSGPRSValueStorage StorageAGPR FSHi FSLo SP) SrcVGPR =
     AGPR3_emitCodeToStoreSVA st StorageAGPR FSHi FSLo SP SrcVGPR"
| "emitCodeToStoreSVA st (SpilledWithThreeSGPRsValueStorage FSHi FSLo SP) SrcVGPR =
     Spilled3_emitCodeToStoreSVA st FSHi FSLo SP SrcVGPR"
| "emitCodeToStoreSVA st (SpilledWithOneSGPRsValueStorage SP) SrcVGPR =
     Spilled1_emitCodeToStoreSVA st SP SrcVGPR"

subsection \<open>Reading the array under a scheme\<close>

definition vgpr_slot :: "32 word \<Rightarrow> 32 word" where
  "vgpr_slot sp = sp + word_of_int (-8)"

definition svs_slot :: "32 word \<Rightarrow> 32 word" where
  "svs_slot sp = sp + word_of_int (-4)"

lemma slots_differ [simp]: "vgpr_slot sp \<noteq> svs_slot sp" "svs_slot sp \<noteq> vgpr_slot sp"
  by (simp_all add: vgpr_slot_def svs_slot_def)

text \<open>The scratch base that a scheme's spill slots live under.\<close>

fun slot_base :: "gcn_subtarget \<Rightarrow> SVAStorage \<Rightarrow> gpu \<Rightarrow> fs_base" where
  "slot_base st (AGPRWithThreeSGPRSValueStorage a hi lo sp) g = (sregs g hi, sregs g lo)"
| "slot_base st (SpilledWithThreeSGPRsValueStorage hi lo sp) g = (sregs g hi, sregs g lo)"
| "slot_base st _ g = fs_base_of st g"

fun sva_of :: "gcn_subtarget \<Rightarrow> SVAStorage \<Rightarrow> gpu \<Rightarrow> nat \<Rightarrow> 32 word" where
  "sva_of st (VGPRStateValueArrayStorage v) g l = vregs g v l"
| "sva_of st (TwoAGPRValueStorage a t) g l = vregs g a l"
| "sva_of st (AGPRWithThreeSGPRSValueStorage a hi lo sp) g l = vregs g a l"
| "sva_of st (SpilledWithThreeSGPRsValueStorage hi lo sp) g l =
     scratch g (sregs g hi, sregs g lo) l (svs_slot (sregs g sp))"
| "sva_of st (SpilledWithOneSGPRsValueStorage sp) g l =
     scratch g (fs_base_of st g) l (svs_slot (sregs g sp))"

fun saved_of :: "gcn_subtarget \<Rightarrow> SVAStorage \<Rightarrow> gpu \<Rightarrow> nat \<Rightarrow> 32 word" where
  "saved_of st (VGPRStateValueArrayStorage v) g l = vregs g v l"
| "saved_of st (TwoAGPRValueStorage a t) g l = vregs g t l"
| "saved_of st (AGPRWithThreeSGPRSValueStorage a hi lo sp) g l =
     scratch g (sregs g hi, sregs g lo) l (vgpr_slot (sregs g sp))"
| "saved_of st (SpilledWithThreeSGPRsValueStorage hi lo sp) g l =
     scratch g (sregs g hi, sregs g lo) l (vgpr_slot (sregs g sp))"
| "saved_of st (SpilledWithOneSGPRsValueStorage sp) g l =
     scratch g (fs_base_of st g) l (vgpr_slot (sregs g sp))"

text \<open>The registers of a storage are of the classes the scheme asks for and do not coincide.\<close>

fun storage_wf :: "SVAStorage \<Rightarrow> bool" where
  "storage_wf (VGPRStateValueArrayStorage v) = is_vgpr v"
| "storage_wf (TwoAGPRValueStorage a t) = (is_agpr a \<and> is_agpr t \<and> a \<noteq> t)"
| "storage_wf (AGPRWithThreeSGPRSValueStorage a hi lo sp) =
     (is_agpr a \<and> is_sgpr hi \<and> is_sgpr lo \<and> is_sgpr sp \<and> hi \<noteq> lo \<and> sp \<noteq> hi \<and> sp \<noteq> lo)"
| "storage_wf (SpilledWithThreeSGPRsValueStorage hi lo sp) =
     (is_sgpr hi \<and> is_sgpr lo \<and> is_sgpr sp \<and> hi \<noteq> lo \<and> sp \<noteq> hi \<and> sp \<noteq> lo)"
| "storage_wf (SpilledWithOneSGPRsValueStorage sp) = is_sgpr sp"

text \<open>
  The assertions of the emitters: the schemes with shadow registers run on targets without
  architected flat scratch only, the scheme with one SGPR on targets with it.
\<close>

fun storage_target :: "gcn_subtarget \<Rightarrow> SVAStorage \<Rightarrow> bool" where
  "storage_target st (AGPRWithThreeSGPRSValueStorage a hi lo sp) =
     (\<not> hasArchitectedFlatScratch st)"
| "storage_target st (SpilledWithThreeSGPRsValueStorage hi lo sp) =
     (\<not> hasArchitectedFlatScratch st)"
| "storage_target st (SpilledWithOneSGPRsValueStorage sp) = hasArchitectedFlatScratch st"
| "storage_target st _ = True"

subsection \<open>Effect of load and store\<close>

fun load_lane ::
    "gpu \<Rightarrow> SVAStorage \<Rightarrow> mcreg \<Rightarrow> (mcreg \<Rightarrow> 32 word) \<Rightarrow> (32 word \<Rightarrow> 32 word) \<Rightarrow> lane" where
  "load_lane g (VGPRStateValueArrayStorage w) d v m = (v, m)"
| "load_lane g (TwoAGPRValueStorage a t) d v m = (v(t := v d, d := v a), m)"
| "load_lane g (AGPRWithThreeSGPRSValueStorage a hi lo sp) d v m =
     (v(d := v a), m(vgpr_slot (sregs g sp) := v d))"
| "load_lane g (SpilledWithThreeSGPRsValueStorage hi lo sp) d v m =
     (v(d := m (svs_slot (sregs g sp))), m(vgpr_slot (sregs g sp) := v d))"
| "load_lane g (SpilledWithOneSGPRsValueStorage sp) d v m =
     (v(d := m (svs_slot (sregs g sp))), m(vgpr_slot (sregs g sp) := v d))"

fun store_lane ::
    "gpu \<Rightarrow> SVAStorage \<Rightarrow> mcreg \<Rightarrow> (mcreg \<Rightarrow> 32 word) \<Rightarrow> (32 word \<Rightarrow> 32 word) \<Rightarrow> lane" where
  "store_lane g (VGPRStateValueArrayStorage w) d v m = (v, m)"
| "store_lane g (TwoAGPRValueStorage a t) d v m = (v(a := v d, d := v t), m)"
| "store_lane g (AGPRWithThreeSGPRSValueStorage a hi lo sp) d v m =
     (v(a := v d, d := m (vgpr_slot (sregs g sp))), m)"
| "store_lane g (SpilledWithThreeSGPRsValueStorage hi lo sp) d v m =
     (v(d := m (vgpr_slot (sregs g sp))), m(svs_slot (sregs g sp) := v d))"
| "store_lane g (SpilledWithOneSGPRsValueStorage sp) d v m =
     (v(d := m (vgpr_slot (sregs g sp))), m(svs_slot (sregs g sp) := v d))"

lemma base_lanes_id: "base_lanes st b Pair g = g"
  by (rule gpu_eqI) (auto simp: vregs_base_lanes scratch_base_lanes fun_eq_iff)

lemmas lane_calc = lanes_compute_def vgpr_slot_def svs_slot_def vector_emitters fun_upd_twist

lemmas load_defs = TwoAGPR_emitCodeToLoadSVA_def AGPR3_emitCodeToLoadSVA_def Spilled3_emitCodeToLoadSVA_def Spilled1_emitCodeToLoadSVA_def

lemmas store_defs = TwoAGPR_emitCodeToStoreSVA_def AGPR3_emitCodeToStoreSVA_def Spilled3_emitCodeToStoreSVA_def Spilled1_emitCodeToStoreSVA_def

lemma exec_items_safe_wait:
  "exec_items st (SCCSafe c # map MI (emitWaitCnt n)) g = safe st c g"
  "exec_items st ([SCCSafe c] @ map MI (emitWaitCnt n)) g = safe st c g"
  "exec_items st [SCCSafe c] g = safe st c g"
  by (simp_all add: emitWaitCnt_def)

lemma exec_load:
  assumes "storage_wf s" "storage_target st s" "is_vgpr d"
  shows "exec_items st (emitCodeToLoadSVA st s d) g =
    base_lanes st (slot_base st s g) (load_lane g s d) g"
proof (cases s)
  case (VGPRStateValueArrayStorage v)
  have "load_lane g (VGPRStateValueArrayStorage v) d = Pair" by (simp add: fun_eq_iff)
  then show ?thesis by (simp add: VGPRStateValueArrayStorage base_lanes_id)
next
  case (TwoAGPRValueStorage a t)
  with assms show ?thesis
    unfolding TwoAGPRValueStorage emitCodeToLoadSVA.simps load_defs exec_items_safe_wait slot_base.simps
    by (intro safe_halves) (auto simp: lane_calc elim!: is_agprE is_vgprE)
next
  case (AGPRWithThreeSGPRSValueStorage a hi lo sp)
  with assms show ?thesis
    unfolding AGPRWithThreeSGPRSValueStorage emitCodeToLoadSVA.simps load_defs exec_items_safe_wait
      slot_base.simps
    by (intro safe_fs_window) (auto simp: lane_calc elim!: is_agprE is_vgprE)
next
  case (SpilledWithThreeSGPRsValueStorage hi lo sp)
  with assms show ?thesis
    unfolding SpilledWithThreeSGPRsValueStorage emitCodeToLoadSVA.simps load_defs exec_items_safe_wait
      slot_base.simps
    by (intro safe_fs_window) (auto simp: lane_calc elim!: is_vgprE)
next
  case (SpilledWithOneSGPRsValueStorage sp)
  with assms show ?thesis
    unfolding SpilledWithOneSGPRsValueStorage emitCodeToLoadSVA.simps load_defs exec_items_safe_wait
      slot_base.simps
    by (intro safe_halves) (auto simp: lane_calc elim!: is_vgprE)
qed

lemma exec_store:
  assumes "storage_wf s" "storage_target st s" "is_vgpr d"
  shows "exec_items st (emitCodeToStoreSVA st s d) g =
    base_lanes st (slot_base st s g) (store_lane g s d) g"
proof (cases s)
  case (VGPRStateValueArrayStorage v)
  have "store_lane g (VGPRStateValueArrayStorage v) d = Pair" by (simp add: fun_eq_iff)
  then show ?thesis by (simp add: VGPRStateValueArrayStorage base_lanes_id)
next
  case (TwoAGPRValueStorage a t)
  with assms show ?thesis
    unfolding TwoAGPRValueStorage emitCodeToStoreSVA.simps store_defs exec_items_safe_wait slot_base.simps
    by (intro safe_halves) (auto simp: lane_calc elim!: is_agprE is_vgprE)
next
  case (AGPRWithThreeSGPRSValueStorage a hi lo sp)
  with assms show ?thesis
    unfolding AGPRWithThreeSGPRSValueStorage emitCodeToStoreSVA.simps store_defs exec_items_safe_wait
      slot_base.simps
    by (intro safe_fs_window) (auto simp: lane_calc elim!: is_agprE is_vgprE)
next
  case (SpilledWithThreeSGPRsValueStorage hi lo sp)
  with assms show ?thesis
    unfolding SpilledWithThreeSGPRsValueStorage emitCodeToStoreSVA.simps store_defs exec_items_safe_wait
      slot_base.simps
    by (intro safe_fs_window) (auto simp: lane_calc elim!: is_vgprE)
next
  case (SpilledWithOneSGPRsValueStorage sp)
  with assms show ?thesis
    unfolding SpilledWithOneSGPRsValueStorage emitCodeToStoreSVA.simps store_defs exec_items_safe_wait
      slot_base.simps
    by (intro safe_halves) (auto simp: lane_calc elim!: is_vgprE)
qed

declare emitCodeToLoadSVA.simps [simp del] emitCodeToStoreSVA.simps [simp del]

subsection \<open>What load and store leave alone\<close>

fun in_slots :: "gcn_subtarget \<Rightarrow> SVAStorage \<Rightarrow> gpu \<Rightarrow> fs_base \<Rightarrow> 32 word \<Rightarrow> bool" where
  "in_slots st (VGPRStateValueArrayStorage v) g b x = False"
| "in_slots st (TwoAGPRValueStorage a t) g b x = False"
| "in_slots st (AGPRWithThreeSGPRSValueStorage a hi lo sp) g b x =
     (b = (sregs g hi, sregs g lo) \<and> (x = vgpr_slot (sregs g sp) \<or> x = svs_slot (sregs g sp)))"
| "in_slots st (SpilledWithThreeSGPRsValueStorage hi lo sp) g b x =
     (b = (sregs g hi, sregs g lo) \<and> (x = vgpr_slot (sregs g sp) \<or> x = svs_slot (sregs g sp)))"
| "in_slots st (SpilledWithOneSGPRsValueStorage sp) g b x =
     (b = fs_base_of st g \<and> (x = vgpr_slot (sregs g sp) \<or> x = svs_slot (sregs g sp)))"

text \<open>
  Scalar registers, exec mask and SCC are the same; vector registers other than \<open>d\<close> and those
  of the storage, lanes beyond the wavefront and scratch memory outside the spill slots too.
\<close>

definition app_frame :: "gcn_subtarget \<Rightarrow> SVAStorage \<Rightarrow> mcreg \<Rightarrow> gpu \<Rightarrow> gpu \<Rightarrow> bool" where
  "app_frame st s d g g' \<longleftrightarrow>
     sregs g' = sregs g \<and> exec_mask g' = exec_mask g \<and> scc g' = scc g \<and>
     (\<forall>r l. l < wave_size st \<and> (r = d \<or> r \<in> set (getAllStorageRegisters s [])) \<or>
        vregs g' r l = vregs g r l) \<and>
     (\<forall>b l x. l < wave_size st \<and> in_slots st s g b x \<or> scratch g' b l x = scratch g b l x)"

lemma fs_base_of_cong: "sregs g' = sregs g \<Longrightarrow> fs_base_of st g' = fs_base_of st g"
  by (simp add: fs_base_of_def)

lemma slots_cong:
  "sregs g' = sregs g \<Longrightarrow> in_slots st s g' = in_slots st s g"
  "sregs g' = sregs g \<Longrightarrow> slot_base st s g' = slot_base st s g"
  by (cases s; simp add: fun_eq_iff fs_base_of_def)+

lemma app_frame_refl: "app_frame st s d g g"
  by (simp add: app_frame_def)

lemma app_frame_trans:
  assumes "app_frame st s d g h" "app_frame st s d h k"
  shows "app_frame st s d g k"
proof -
  have "sregs h = sregs g" using assms(1) by (simp add: app_frame_def)
  from slots_cong(1) [OF this] have eq: "in_slots st s h = in_slots st s g" .
  show ?thesis
    unfolding app_frame_def
  proof (intro conjI allI)
    show "l < wave_size st \<and> (r = d \<or> r \<in> set (getAllStorageRegisters s [])) \<or>
        vregs k r l = vregs g r l" for r l
      using assms unfolding app_frame_def by metis
    show "l < wave_size st \<and> in_slots st s g b x \<or> scratch k b l x = scratch g b l x" for b l x
      using assms unfolding app_frame_def eq by metis
  qed (use assms in \<open>simp_all add: app_frame_def\<close>)
qed

lemma lanes_frame:
  assumes "\<And>v m r. r \<noteq> d \<Longrightarrow> r \<notin> set (getAllStorageRegisters s []) \<Longrightarrow> fst (f v m) r = v r"
    and "\<And>v m x. \<not> in_slots st s g b x \<Longrightarrow> snd (f v m) x = m x"
  shows "app_frame st s d g (base_lanes st b f g)"
  unfolding app_frame_def
proof (intro conjI allI)
  show "l < wave_size st \<and> (r = d \<or> r \<in> set (getAllStorageRegisters s [])) \<or>
      vregs (base_lanes st b f g) r l = vregs g r l" for r l
    using assms(1) [of r "\<lambda>r. vregs g r l" "scratch g b l"] by (simp add: vregs_base_lanes) blast
  show "l < wave_size st \<and> in_slots st s g b' x \<or> scratch (base_lanes st b f g) b' l x = scratch g b' l x"
    for b' l x
    using assms(2) [of x "\<lambda>r. vregs g r l" "scratch g b l"] by (simp add: scratch_base_lanes) blast
qed simp_all

lemma app_frame_load:
  "app_frame st s d g (base_lanes st (slot_base st s g) (load_lane g s d) g)"
  by (rule lanes_frame) (cases s; simp)+

lemma app_frame_store:
  "app_frame st s d g (base_lanes st (slot_base st s g) (store_lane g s d) g)"
  by (rule lanes_frame) (cases s; simp)+

subsection \<open>The load/payload/store protocol\<close>

text \<open>
  What a client of a storage relies on: a load puts the array into the cell and the value of the
  cell aside; a store puts the cell into the array and the value aside back into the cell.
\<close>

locale sva_protocol =
  fixes ok :: "'c \<Rightarrow> bool"
    and width :: "'c \<Rightarrow> nat"
    and ld :: "'c \<Rightarrow> 's \<Rightarrow> 's"
    and stv :: "'c \<Rightarrow> 's \<Rightarrow> 's"
    and cell :: "'c \<Rightarrow> 's \<Rightarrow> nat \<Rightarrow> 'w"
    and arr :: "'c \<Rightarrow> 's \<Rightarrow> nat \<Rightarrow> 'w"
    and saved :: "'c \<Rightarrow> 's \<Rightarrow> nat \<Rightarrow> 'w"
    and frame :: "'c \<Rightarrow> 's \<Rightarrow> 's \<Rightarrow> bool"
  assumes cell_ld: "ok c \<Longrightarrow> l < width c \<Longrightarrow> cell c (ld c g) l = arr c g l"
    and saved_ld: "ok c \<Longrightarrow> l < width c \<Longrightarrow> saved c (ld c g) l = cell c g l"
    and arr_stv: "ok c \<Longrightarrow> l < width c \<Longrightarrow> arr c (stv c g) l = cell c g l"
    and cell_stv: "ok c \<Longrightarrow> l < width c \<Longrightarrow> cell c (stv c g) l = saved c g l"
    and frame_ld: "ok c \<Longrightarrow> frame c g (ld c g)"
    and frame_stv: "ok c \<Longrightarrow> frame c g (stv c g)"
    and frame_trans: "ok c \<Longrightarrow> frame c g h \<Longrightarrow> frame c h k \<Longrightarrow> frame c g k"
begin

lemma round_trip:
  assumes c: "ok c" and p: "frame c (ld c g) h"
    and keep: "\<And>l. l < width c \<Longrightarrow> saved c h l = saved c (ld c g) l"
  shows "(\<forall>l<width c. cell c (stv c h) l = cell c g l \<and> arr c (stv c h) l = cell c h l) \<and>
    frame c g (stv c h)"
proof (intro conjI allI impI)
  fix l assume l: "l < width c"
  show "cell c (stv c h) l = cell c g l"
    by (simp add: cell_stv [OF c l] keep [OF l] saved_ld [OF c l])
  show "arr c (stv c h) l = cell c h l"
    by (rule arr_stv [OF c l])
next
  show "frame c g (stv c h)"
    by (rule frame_trans [OF c frame_ld [OF c] frame_trans [OF c p frame_stv [OF c]]])
qed

lemma reload:
  assumes "ok c" "l < width c"
  shows "cell c (ld c (stv c g)) l = cell c g l"
  using assms by (simp add: cell_ld arr_stv)

end

definition sva_config_ok :: "gcn_subtarget \<times> SVAStorage \<times> mcreg \<Rightarrow> bool" where
  "sva_config_ok c = (case c of (st, s, d) \<Rightarrow>
     storage_wf s \<and> storage_target st s \<and> is_vgpr d \<and> requiresLoadAndStoreBeforeUse s)"

interpretation ls: sva_protocol sva_config_ok "\<lambda>(st, s, d). wave_size st"
  "\<lambda>(st, s, d). exec_items st (emitCodeToLoadSVA st s d)"
  "\<lambda>(st, s, d). exec_items st (emitCodeToStoreSVA st s d)"
  "\<lambda>(st, s, d) g. vregs g d" "\<lambda>(st, s, d). sva_of st s" "\<lambda>(st, s, d). saved_of st s"
  "\<lambda>(st, s, d). app_frame st s d"
proof (unfold_locales, goal_cases)
  case (1 c l g)
  then show ?case
    by (cases c, cases "fst (snd c)")
      (auto simp: sva_config_ok_def exec_load vregs_base_lanes elim!: is_agprE is_vgprE)
next
  case (2 c l g)
  then show ?case
    by (cases c, cases "fst (snd c)")
      (auto simp: sva_config_ok_def exec_load vregs_base_lanes scratch_base_lanes
        elim!: is_agprE is_vgprE)
next
  case (3 c l g)
  then show ?case
    by (cases c, cases "fst (snd c)")
      (auto simp: sva_config_ok_def exec_store vregs_base_lanes scratch_base_lanes
        elim!: is_agprE is_vgprE)
next
  case (4 c l g)
  then show ?case
    by (cases c, cases "fst (snd c)")
      (auto simp: sva_config_ok_def exec_store vregs_base_lanes scratch_base_lanes
        elim!: is_agprE is_vgprE)
next
  case (5 c g)
  then show ?case by (auto simp: sva_config_ok_def exec_load app_frame_load)
next
  case (6 c g)
  then show ?case by (auto simp: sva_config_ok_def exec_store app_frame_store)
next
  case (7 c g h k)
  then show ?case by (cases c) (auto intro: app_frame_trans)
qed

lemma app_frame_sregs: "app_frame st s d g h \<Longrightarrow> sregs h = sregs g"
  by (simp add: app_frame_def)

subsection \<open>Construction and support\<close>

lemma createSVAStorage_Inr_iff:
  "(\<exists>s. createSVAStorage VGPRs AGPRs SGPRs k = Inr s) \<longleftrightarrow>
   getNumVGPRsUsed k \<le> length VGPRs \<and> getNumAGPRsUsed k \<le> length AGPRs \<and>
   getNumSGPRsUsed k \<le> length SGPRs"
  by (cases k) (auto simp: err_bind_Inr_iff)

lemma createSVAStorage_result:
  assumes "createSVAStorage VGPRs AGPRs SGPRs k = Inr s"
  shows "getScheme s = k"
    and "getAllStorageRegisters s [] =
      take (getNumVGPRsUsed k) VGPRs @ take (getNumAGPRsUsed k) AGPRs @ take (getNumSGPRsUsed k) SGPRs"
  using assms
  by (cases k; auto simp: err_bind_Inr_iff numeral_2_eq_2 numeral_3_eq_3 Suc_le_length_iff)+

lemma createSVAStorage_wf:
  assumes "createSVAStorage VGPRs AGPRs SGPRs k = Inr s"
    and "list_all is_vgpr VGPRs" "list_all is_agpr AGPRs" "list_all is_sgpr SGPRs"
    and "distinct AGPRs" "distinct SGPRs"
  shows "storage_wf s"
  using assms
  by (cases k) (auto simp: err_bind_Inr_iff numeral_2_eq_2 numeral_3_eq_3 Suc_le_length_iff)

lemma getSupportedSVAStorageList_eq:
  "getSupportedSVAStorageList st out = out @ filter (\<lambda>k. isSupportedOnSubTarget k st) storage_kinds"
proof -
  have "fold (\<lambda>sk out. if isSupportedOnSubTarget sk st then out @ [sk] else out) ks out =
      out @ filter (\<lambda>k. isSupportedOnSubTarget k st) ks" for ks
    by (induction ks arbitrary: out) auto
  then show ?thesis by (simp add: getSupportedSVAStorageList_def)
qed

lemma storage_eq_iff: "storage_eq s t \<longleftrightarrow> s = t"
  by (cases s; cases t) auto

subsection \<open>Properties\<close>

text \<open>
  on every lane, active or not, the code that loads the array puts it into the destination VGPR
  and the application's value of that VGPR into the scheme's spill place; scalar registers (FLAT_SCR
  included), exec mask, SCC, all other vector registers and all memory outside the spill slots keep
  their values.
\<close>

lemma load_delivers_array:
  assumes "storage_wf s" "storage_target st s" "is_vgpr d" "requiresLoadAndStoreBeforeUse s"
    and "l < wave_size st" and g': "g' = exec_items st (emitCodeToLoadSVA st s d) g"
  shows "vregs g' d l = sva_of st s g l \<and> saved_of st s g' l = vregs g d l \<and> app_frame st s d g g'"
  using ls.cell_ld [of "(st, s, d)" l g] ls.saved_ld [of "(st, s, d)" l g]
    ls.frame_ld [of "(st, s, d)" g] assms
  by (simp add: sva_config_ok_def)

lemma load_delivers_array_instance:
  "vregs (exec_items mai_absolute_fs (emitCodeToLoadSVA mai_absolute_fs
        (SpilledWithThreeSGPRsValueStorage (SGPR 0) (SGPR 1) (SGPR 2)) (VGPR 7)) start_gpu) (VGPR 7) 3 =
     sva_of mai_absolute_fs (SpilledWithThreeSGPRsValueStorage (SGPR 0) (SGPR 1) (SGPR 2)) start_gpu 3"
  using load_delivers_array [of "SpilledWithThreeSGPRsValueStorage (SGPR 0) (SGPR 1) (SGPR 2)"
      mai_absolute_fs "VGPR 7" 3 _ start_gpu, OF _ _ _ _ _ refl]
  by (simp add: example_targets wave_size_def)

text \<open>
  C1: load, payload, store is transparent: when the payload keeps the application state and the spill
  place, the VGPR has its application value again afterwards on every lane, the storage holds what
  the payload left in the VGPR, and the rest of the application state is that before the load.
\<close>

theorem load_payload_store_round_trip:
  assumes "storage_wf s" "storage_target st s" "is_vgpr d" "requiresLoadAndStoreBeforeUse s"
    and "app_frame st s d (exec_items st (emitCodeToLoadSVA st s d) g) h"
    and "\<And>l. l < wave_size st \<Longrightarrow>
      saved_of st s h l = saved_of st s (exec_items st (emitCodeToLoadSVA st s d) g) l"
    and g': "g' = exec_items st (emitCodeToStoreSVA st s d) h"
  shows "(\<forall>l<wave_size st. vregs g' d l = vregs g d l \<and> sva_of st s g' l = vregs h d l) \<and>
    app_frame st s d g g'"
  using ls.round_trip [of "(st, s, d)" g h] assms by (simp add: sva_config_ok_def)

lemma load_payload_store_round_trip_witness:
  "let st = mai_architected_fs; s = SpilledWithOneSGPRsValueStorage (SGPR 9); d = VGPR 0;
       g' = exec_items st (emitCodeToStoreSVA st s d) (exec_items st (emitCodeToLoadSVA st s d) start_gpu)
   in vregs g' d 40 = vregs start_gpu d 40"
proof -
  have "40 < wave_size mai_architected_fs" by (simp add: example_targets wave_size_def)
  then show ?thesis
    using load_payload_store_round_trip [of "SpilledWithOneSGPRsValueStorage (SGPR 9)"
        mai_architected_fs "VGPR 0" start_gpu
        "exec_items mai_architected_fs (emitCodeToLoadSVA mai_architected_fs
           (SpilledWithOneSGPRsValueStorage (SGPR 9)) (VGPR 0)) start_gpu", OF _ _ _ _ _ _ refl]
    by (simp add: Let_def app_frame_refl example_targets)
qed

text \<open>
  The storage that \<open>createSVAStorage\<close> returns is of the kind asked for, uses the first
  registers of each list and no others, and is well-formed when the lists are duplicate-free and of
  the right classes.
\<close>

lemma createSVAStorage_registers:
  assumes "createSVAStorage VGPRs AGPRs SGPRs k = Inr s"
    and "list_all is_vgpr VGPRs" "list_all is_agpr AGPRs" "list_all is_sgpr SGPRs"
    and "distinct AGPRs" "distinct SGPRs"
  shows "getScheme s = k \<and> storage_wf s \<and>
    getAllStorageRegisters s [] =
      take (getNumVGPRsUsed k) VGPRs @ take (getNumAGPRsUsed k) AGPRs @ take (getNumSGPRsUsed k) SGPRs"
  using createSVAStorage_result [OF assms(1)] createSVAStorage_wf [OF assms] by simp

text \<open>
  the supported kinds of a subtarget, most preferred first: always the single VGPR, the AGPR kinds
  that the MAI instructions allow, and exactly one spilled kind.
\<close>

lemma supported_kinds_in_preference_order:
  "getSupportedSVAStorageList st [] =
     [SVS_SINGLE_VGPR] @ (if hasMAIInsts st then [SVS_TWO_AGPRs] else []) @
     (if hasMAIInsts st \<and> \<not> hasGFX90AInsts st
      then [SVS_SINGLE_AGPR_WITH_THREE_SGPRS_pre_gfx908] else []) @
     [if hasArchitectedFlatScratch st then SVS_SPILLED_WITH_ONE_SGPR_architected_fs
      else SVS_SPILLED_WITH_THREE_SGPRS_absolute_fs]"
  by (simp add: getSupportedSVAStorageList_eq storage_kinds_def)

end
