(* ===== verification/SVA_Locations.thy ===== *)
theory SVA_Locations
  imports SVA_Storage
begin

text \<open>
  \<open>src/lib/ToolCodeGen/SVStorageAndLoadLocations.cpp\<close>: where the state value array is kept at
  every instruction of the target module and which VGPR an instrumentation point loads it into. The
  register scavenger asks LLVM whether a register is allocatable and whether it is used in a function;
  these answers, the register classes, the slot indexes and the effect of an instruction on a live set
  are inputs of the model. A storage is an object with an identity, because
  \<open>hasFixedStorageAcrossAllFunctions\<close> compares addresses; an error carries the locations computed
  so far, because \<open>run\<close> returns them after reporting it.
\<close>

subsection \<open>Inputs\<close>

record tmi =
  mi_id :: nat
  mi_slot :: nat

text \<open>
  A block of the target module with its slot range, whether it is a vector block, and the active and
  inactive live-ins of the successors of its predicated block.
\<close>

record tmbb =
  mbb_id :: nat
  mbb_mis :: "tmi list"
  mbb_start :: nat
  mbb_end :: nat
  mbb_vector :: bool
  succ_active :: "mcreg set list"
  succ_inactive :: "mcreg set list"

record tmf =
  mf_mbbs :: "tmbb list"
  isAllocatable :: "mcreg \<Rightarrow> bool"
  isPhysRegUsed :: "mcreg \<Rightarrow> bool"
  num_vgpr_attr :: "nat option"
  num_sgpr_attr :: "nat option"

record loc_env =
  ExceedNumRegs :: bool
  VGPR_32RegClass :: "mcreg list"
  AGPR_32RegClass :: "mcreg list"
  SGPR_32RegClass :: "mcreg list"
  subregs :: "mcreg \<Rightarrow> mcreg set"
  stepBackward :: "nat \<Rightarrow> mcreg set \<Rightarrow> mcreg set"
  hook_mis :: "nat list"
  env_target :: gcn_subtarget

subsection \<open>Register caps\<close>

fun hwIndexAndKind :: "mcreg \<Rightarrow> (nat \<times> bool) option" where
  "hwIndexAndKind (VGPR n) = (if n \<le> 255 then Some (n, False) else None)"
| "hwIndexAndKind (AGPR n) = (if n \<le> 255 then Some (n, False) else None)"
| "hwIndexAndKind (SGPR n) = (if n \<le> 105 then Some (n, True) else None)"
| "hwIndexAndKind _ = None"

definition isWithinDeclaredCap :: "loc_env \<Rightarrow> tmf \<Rightarrow> mcreg \<Rightarrow> bool" where
  "isWithinDeclaredCap E mf r =
     (if ExceedNumRegs E then True
      else case hwIndexAndKind r of
        None \<Rightarrow> True
      | Some (idx, sgpr) \<Rightarrow>
          (case (if sgpr then num_sgpr_attr mf else num_vgpr_attr mf) of
             None \<Rightarrow> True
           | Some cap \<Rightarrow> idx < cap))"

definition isWithinDeclaredCap_all :: "loc_env \<Rightarrow> tmf list \<Rightarrow> mcreg \<Rightarrow> bool" where
  "isWithinDeclaredCap_all E mfs r =
     (if ExceedNumRegs E then True else list_all (\<lambda>mf. isWithinDeclaredCap E mf r) mfs)"

subsection \<open>Liveness before each instruction\<close>

text \<open>Backward walk; the result has the live set before every instruction, in program order.\<close>

fun live_walk ::
    "loc_env \<Rightarrow> bool \<Rightarrow> tmi list \<Rightarrow> mcreg set \<times> mcreg set \<Rightarrow> (nat \<times> mcreg set) list" where
  "live_walk E vec [] ai = []"
| "live_walk E vec (mi # rest) (act, inact) =
     (let act' = stepBackward E (mi_id mi) act;
          inact' = if vec then inact else stepBackward E (mi_id mi) inact
      in (mi_id mi, act' \<union> inact') # live_walk E vec rest (act', inact'))"

definition addRegs :: "loc_env \<Rightarrow> mcreg set \<Rightarrow> mcreg set \<Rightarrow> mcreg set" where
  "addRegs E rs live = live \<union> \<Union> (subregs E ` rs)"

definition computePerMILiveBefore :: "loc_env \<Rightarrow> tmbb \<Rightarrow> (nat \<times> mcreg set) list" where
  "computePerMILiveBefore E b =
     (let out = fold (addRegs E) (succ_inactive b) (fold (addRegs E) (succ_active b) {})
      in live_walk E (mbb_vector b) (rev (mbb_mis b)) (out, out))"

definition live_at :: "loc_env \<Rightarrow> tmbb \<Rightarrow> nat \<Rightarrow> mcreg set" where
  "live_at E b i = (case map_of (computePerMILiveBefore E b) i of None \<Rightarrow> {} | Some s \<Rightarrow> s)"

subsection \<open>The scavenger\<close>

text \<open>
  The loop that collects registers: it stops when the count reaches \<open>NumRegs\<close> after a find, so a
  request for none collects them all.
\<close>

fun scavenge_loop :: "(mcreg \<Rightarrow> bool) \<Rightarrow> nat \<Rightarrow> mcreg list \<Rightarrow> nat \<Rightarrow> mcreg list \<Rightarrow> mcreg list" where
  "scavenge_loop free NumRegs [] found out = out"
| "scavenge_loop free NumRegs (r # rs) found out =
     (if free r
      then if Suc found = NumRegs then out @ [r]
           else scavenge_loop free NumRegs rs (Suc found) (out @ [r])
      else scavenge_loop free NumRegs rs found out)"

definition free_in :: "loc_env \<Rightarrow> tmf \<Rightarrow> mcreg \<Rightarrow> bool" where
  "free_in E mf r \<longleftrightarrow> isAllocatable mf r \<and> \<not> isPhysRegUsed mf r \<and> isWithinDeclaredCap E mf r"

definition free_in_all :: "loc_env \<Rightarrow> tmf list \<Rightarrow> mcreg \<Rightarrow> bool" where
  "free_in_all E mfs r \<longleftrightarrow>
     isWithinDeclaredCap_all E mfs r \<and>
     list_all (\<lambda>mf. isAllocatable mf r \<and> \<not> isPhysRegUsed mf r) mfs"

definition first_or_none :: "(mcreg \<Rightarrow> bool) \<Rightarrow> mcreg list \<Rightarrow> mcreg" where
  "first_or_none free rc = (case filter free rc of [] \<Rightarrow> NoRegister | r # _ \<Rightarrow> r)"

definition scavengeFreeRegisters :: "loc_env \<Rightarrow> tmf \<Rightarrow> mcreg list \<Rightarrow> nat \<Rightarrow> mcreg list" where
  "scavengeFreeRegisters E mf rc n = scavenge_loop (free_in E mf) n (rev rc) 0 []"

definition scavengeFreeRegister :: "loc_env \<Rightarrow> tmf \<Rightarrow> mcreg list \<Rightarrow> mcreg" where
  "scavengeFreeRegister E mf rc = first_or_none (free_in E mf) (rev rc)"

definition scavengeFreeRegisters_all :: "loc_env \<Rightarrow> tmf list \<Rightarrow> mcreg list \<Rightarrow> nat \<Rightarrow> mcreg list" where
  "scavengeFreeRegisters_all E mfs rc n = scavenge_loop (free_in_all E mfs) n rc 0 []"

definition scavengeFreeRegister_all :: "loc_env \<Rightarrow> tmf list \<Rightarrow> mcreg list \<Rightarrow> mcreg" where
  "scavengeFreeRegister_all E mfs rc = first_or_none (free_in_all E mfs) rc"

subsection \<open>Load location of a payload\<close>

definition selectVGPRLoadLocationForInjectedPayload ::
    "loc_env \<Rightarrow> tmf \<Rightarrow> SVAStorage \<Rightarrow> bool \<Rightarrow> mcreg \<times> bool" where
  "selectVGPRLoadLocationForInjectedPayload E mf svs ScavengeDeadAVGPRs =
     (if \<not> requiresLoadAndStoreBeforeUse svs then (getStateValueStorageReg svs, False)
      else if \<not> ScavengeDeadAVGPRs then (VGPR 0, True)
      else let v = scavengeFreeRegister E mf (VGPR_32RegClass E);
               a = if v = NoRegister then scavengeFreeRegister E mf (AGPR_32RegClass E) else v
           in if a \<noteq> NoRegister then (a, False)
              else let u = first_or_none (isPhysRegUsed mf) (VGPR_32RegClass E)
                   in (if u = NoRegister then VGPR 0 else u, True))"

subsection \<open>Choice of a storage\<close>

text \<open>
  The loop over the supported schemes. \<open>None\<close> is the null pointer, also when
  \<open>createSVAStorage\<close> fails.
\<close>

fun pick_scheme :: "StorageKind list \<Rightarrow> mcreg list \<Rightarrow> mcreg list \<Rightarrow> SVAStorage option" where
  "pick_scheme [] AGPRs SGPRs = None"
| "pick_scheme (k # ks) AGPRs SGPRs =
     (if k = SVS_SINGLE_VGPR then pick_scheme ks AGPRs SGPRs
      else if getNumSGPRsUsed k \<le> length SGPRs \<and> getNumAGPRsUsed k \<le> length AGPRs
      then (case createSVAStorage [] AGPRs SGPRs k of Inl e \<Rightarrow> None | Inr s \<Rightarrow> Some s)
      else pick_scheme ks AGPRs SGPRs)"

definition findFixedStateValueArrayStorage ::
    "loc_env \<Rightarrow> tmf list \<Rightarrow> StorageKind list \<Rightarrow> nat \<Rightarrow> nat \<Rightarrow> SVAStorage option" where
  "findFixedStateValueArrayStorage E mfs kinds MaxAGPRs MaxSGPRs =
     (let v = scavengeFreeRegister_all E mfs (VGPR_32RegClass E)
      in if v = NoRegister
         then pick_scheme kinds
                (scavengeFreeRegisters_all E mfs (AGPR_32RegClass E) MaxAGPRs)
                (scavengeFreeRegisters_all E mfs (SGPR_32RegClass E) MaxSGPRs)
         else Some (VGPRStateValueArrayStorage v))"

definition findStateValueArrayStorageAtMI ::
    "loc_env \<Rightarrow> tmf \<Rightarrow> StorageKind list \<Rightarrow> nat \<Rightarrow> nat \<Rightarrow> SVAStorage option" where
  "findStateValueArrayStorageAtMI E mf kinds MaxAGPRs MaxSGPRs =
     (let v = scavengeFreeRegister E mf (VGPR_32RegClass E)
      in if v = NoRegister
         then pick_scheme kinds
                (scavengeFreeRegisters E mf (AGPR_32RegClass E) MaxAGPRs)
                (scavengeFreeRegisters E mf (SGPR_32RegClass E) MaxSGPRs)
         else Some (VGPRStateValueArrayStorage v))"

subsection \<open>The locations\<close>

text \<open>A shared storage object and a segment \<open>[start, end)\<close> of a block that it serves.\<close>

type_synonym svs_ptr = "nat \<times> SVAStorage"
type_synonym segment = "nat \<times> nat \<times> svs_ptr"

record load_plan =
  LoadVGPR :: mcreg
  ClobbersAppVGPR :: bool
  StorageLocation :: SVAStorage

text \<open>
  The interval map as the list of its (block, segment) entries in the order of their creation, the
  plan map as an insert-keeps-first list, and the number of storage objects made so far.
\<close>

record sv_locations =
  intervals :: "(nat \<times> segment) list"
  load_plans :: "(nat \<times> load_plan) list"
  made :: nat

datatype loc_error =
    NoCompatibleStorage
  | NoEntryStorage
  | EntryNotInVGPR
  | RelocationFailed
  | BackwardsSegment

definition getStorageIntervals :: "sv_locations \<Rightarrow> nat \<Rightarrow> segment list" where
  "getStorageIntervals L b = map snd (filter (\<lambda>e. fst e = b) (intervals L))"

fun all_same_object :: "nat option \<Rightarrow> segment list \<Rightarrow> nat option option" where
  "all_same_object ref [] = Some ref"
| "all_same_object ref ((s, e, (i, svs)) # segs) =
     (case ref of
        None \<Rightarrow> all_same_object (Some i) segs
      | Some j \<Rightarrow> if i \<noteq> j then None else all_same_object ref segs)"

definition hasFixedStorageAcrossAllFunctions :: "sv_locations \<Rightarrow> bool" where
  "hasFixedStorageAcrossAllFunctions L =
     (case all_same_object None (map snd (intervals L)) of
        None \<Rightarrow> False
      | Some ref \<Rightarrow> ref \<noteq> None)"

definition getLoadPlan :: "sv_locations \<Rightarrow> nat \<Rightarrow> load_plan option" where
  "getLoadPlan L i = map_of (load_plans L) i"

text \<open>The constructor of a segment stops on a backwards range.\<close>

definition add_segment ::
    "nat \<Rightarrow> nat \<Rightarrow> nat \<Rightarrow> svs_ptr \<Rightarrow> sv_locations \<Rightarrow> (loc_error \<times> sv_locations) + sv_locations" where
  "add_segment b s e svs L =
     (if s > e then Inl (BackwardsSegment, L)
      else Inr (L\<lparr>intervals := intervals L @ [(b, s, e, svs)]\<rparr>))"

definition add_plan ::
    "loc_env \<Rightarrow> tmf \<Rightarrow> SVAStorage \<Rightarrow> bool \<Rightarrow> nat \<Rightarrow> sv_locations \<Rightarrow> sv_locations" where
  "add_plan E mf svs scav i L =
     (case selectVGPRLoadLocationForInjectedPayload E mf svs scav of
        (v, c) \<Rightarrow> L\<lparr>load_plans := mv_insert i
          \<lparr>LoadVGPR = v, ClobbersAppVGPR = c, StorageLocation = svs\<rparr> (load_plans L)\<rparr>)"

subsection \<open>The fixed case\<close>

text \<open>The function of an instrumentation point, for the scavenger of its load location.\<close>

definition mf_of :: "tmf list \<Rightarrow> nat \<Rightarrow> tmf option" where
  "mf_of mfs i = List.find (\<lambda>mf. list_ex (\<lambda>b. i \<in> mi_id ` set (mbb_mis b)) (mf_mbbs mf)) mfs"

definition calculate_fixed ::
    "loc_env \<Rightarrow> tmf list \<Rightarrow> SVAStorage \<Rightarrow> sv_locations \<Rightarrow> (loc_error \<times> sv_locations) + sv_locations" where
  "calculate_fixed E mfs svs L =
     (let p = (made L, svs) in
      err_bind
        (err_fold (\<lambda>b. add_segment (mbb_id b) (mbb_start b) (mbb_end b) p)
           (concat (map mf_mbbs mfs)) (L\<lparr>made := Suc (made L)\<rparr>))
        (\<lambda>L'. Inr (fold (\<lambda>i L.
             case mf_of mfs i of None \<Rightarrow> L | Some mf \<Rightarrow> add_plan E mf svs True i L)
           (hook_mis E) L')))"

subsection \<open>The shuffling case\<close>

record walk_state =
  cur_svs :: svs_ptr
  pending_hooks :: "nat list"
  interval_begin :: nat
  locs :: sv_locations

definition flush_segment ::
    "loc_env \<Rightarrow> tmf \<Rightarrow> tmbb \<Rightarrow> nat \<Rightarrow> walk_state \<Rightarrow> (loc_error \<times> sv_locations) + walk_state" where
  "flush_segment E mf b NextIndex w =
     err_bind (add_segment (mbb_id b) (interval_begin w) NextIndex (cur_svs w) (locs w)) (\<lambda>L.
       Inr (w\<lparr>locs := fold (add_plan E mf (snd (cur_svs w)) False) (pending_hooks w) L,
              pending_hooks := [], interval_begin := NextIndex\<rparr>))"

definition relocate ::
    "loc_env \<Rightarrow> tmf \<Rightarrow> StorageKind list \<Rightarrow> nat \<Rightarrow> nat \<Rightarrow> walk_state \<Rightarrow>
     (loc_error \<times> sv_locations) + walk_state" where
  "relocate E mf kinds ma ms w =
     (case findStateValueArrayStorageAtMI E mf kinds ma ms of
        None \<Rightarrow> Inl (RelocationFailed, locs w)
      | Some s \<Rightarrow> Inr (w\<lparr>cur_svs := (made (locs w), s),
          locs := (locs w)\<lparr>made := Suc (made (locs w))\<rparr>\<rparr>))"

definition visit_mi ::
    "loc_env \<Rightarrow> tmf \<Rightarrow> StorageKind list \<Rightarrow> nat \<Rightarrow> nat \<Rightarrow> tmbb \<Rightarrow> bool \<Rightarrow> tmi \<Rightarrow> walk_state \<Rightarrow>
     (loc_error \<times> sv_locations) + walk_state" where
  "visit_mi E mf kinds ma ms b is_back mi w0 =
     (let hook = mi_id mi \<in> set (hook_mis E);
          w = if hook then w0\<lparr>pending_hooks := List.insert (mi_id mi) (pending_hooks w0)\<rparr> else w0;
          svs = snd (cur_svs w);
          TryRelocating = (getStateValueStorageReg svs = NoRegister \<and> hook);
          MustRelocate = list_ex (\<lambda>r. r \<in> live_at E b (mi_id mi)) (getAllStorageRegisters svs [])
      in err_bind
           (if is_back \<or> TryRelocating \<or> MustRelocate
            then flush_segment E mf b (if is_back then mbb_end b else mi_slot mi) w else Inr w)
           (\<lambda>w. if TryRelocating \<or> MustRelocate then relocate E mf kinds ma ms w else Inr w))"

fun visit_mis ::
    "loc_env \<Rightarrow> tmf \<Rightarrow> StorageKind list \<Rightarrow> nat \<Rightarrow> nat \<Rightarrow> tmbb \<Rightarrow> tmi list \<Rightarrow> walk_state \<Rightarrow>
     (loc_error \<times> sv_locations) + walk_state" where
  "visit_mis E mf kinds ma ms b [] w = Inr w"
| "visit_mis E mf kinds ma ms b (mi # mis) w =
     err_bind (visit_mi E mf kinds ma ms b (mis = []) mi w) (visit_mis E mf kinds ma ms b mis)"

definition visit_mbb ::
    "loc_env \<Rightarrow> tmf \<Rightarrow> StorageKind list \<Rightarrow> nat \<Rightarrow> nat \<Rightarrow> tmbb \<Rightarrow> walk_state \<Rightarrow>
     (loc_error \<times> sv_locations) + walk_state" where
  "visit_mbb E mf kinds ma ms b w =
     visit_mis E mf kinds ma ms b (mbb_mis b) (w\<lparr>interval_begin := mbb_start b\<rparr>)"

fun visit_mbbs ::
    "loc_env \<Rightarrow> tmf \<Rightarrow> StorageKind list \<Rightarrow> nat \<Rightarrow> nat \<Rightarrow> tmbb list \<Rightarrow> walk_state \<Rightarrow>
     (loc_error \<times> sv_locations) + walk_state" where
  "visit_mbbs E mf kinds ma ms [] w = Inr w"
| "visit_mbbs E mf kinds ma ms (b # bs) w =
     err_bind (visit_mbb E mf kinds ma ms b w) (visit_mbbs E mf kinds ma ms bs)"

definition calculate_mf ::
    "loc_env \<Rightarrow> StorageKind list \<Rightarrow> nat \<Rightarrow> nat \<Rightarrow> tmf \<Rightarrow> sv_locations \<Rightarrow>
     (loc_error \<times> sv_locations) + sv_locations" where
  "calculate_mf E kinds ma ms mf L =
     (case findStateValueArrayStorageAtMI E mf kinds ma ms of
        None \<Rightarrow> Inl (NoEntryStorage, L)
      | Some s \<Rightarrow>
          if getScheme s \<noteq> SVS_SINGLE_VGPR then Inl (EntryNotInVGPR, L)
          else err_bind
            (visit_mbbs E mf kinds ma ms (mf_mbbs mf)
               \<lparr>cur_svs = (made L, s), pending_hooks = [], interval_begin = 0,
                locs = L\<lparr>made := Suc (made L)\<rparr>\<rparr>)
            (\<lambda>w. Inr (locs w)))"

subsection \<open>The analysis\<close>

definition max_used :: "(StorageKind \<Rightarrow> nat) \<Rightarrow> StorageKind list \<Rightarrow> nat" where
  "max_used used kinds = fold (\<lambda>k m. if used k > m then used k else m) kinds 0"

definition calculate :: "loc_env \<Rightarrow> tmf list \<Rightarrow> sv_locations \<Rightarrow> (loc_error \<times> sv_locations) + sv_locations" where
  "calculate E mfs L =
     (if mfs = [] then Inr L
      else let kinds = getSupportedSVAStorageList (env_target E) [] in
        if kinds = [] then Inl (NoCompatibleStorage, L)
        else let ma = max_used getNumAGPRsUsed kinds; ms = max_used getNumSGPRsUsed kinds in
          case findFixedStateValueArrayStorage E mfs kinds ma ms of
            Some svs \<Rightarrow> calculate_fixed E mfs svs L
          | None \<Rightarrow> err_fold (calculate_mf E kinds ma ms) mfs L)"

definition no_locations :: sv_locations where
  "no_locations = \<lparr>intervals = [], load_plans = [], made = 0\<rparr>"

text \<open>\<open>SVStorageAndLoadLocationsAnalysis::run\<close>: the error is emitted, the locations returned.\<close>

definition run_locations_analysis :: "loc_env \<Rightarrow> tmf list \<Rightarrow> sv_locations \<times> loc_error option" where
  "run_locations_analysis E mfs =
     (case calculate E mfs no_locations of Inl (e, L) \<Rightarrow> (L, Some e) | Inr L \<Rightarrow> (L, None))"

subsection \<open>The scavenger finds free registers\<close>

lemma scavenge_loop_sound:
  "set (scavenge_loop free n rs k out) \<subseteq> set out \<union> {r \<in> set rs. free r}"
  by (induction rs arbitrary: k out) (auto split: if_splits, fastforce+)

lemma scavenge_loop_prefix:
  "k < n \<Longrightarrow> scavenge_loop free n rs k out = out @ take (n - k) (filter free rs)"
proof (induction rs arbitrary: k out)
  case Nil
  then show ?case by simp
next
  case (Cons r rs)
  show ?case
  proof (cases "Suc k < n")
    case True
    then have "n - k = Suc (n - Suc k)" by simp
    with True Cons show ?thesis by simp
  next
    case False
    with Cons.prems have "n = Suc k" by simp
    with Cons show ?thesis by simp
  qed
qed

lemma scavenge_loop_none:
  "n = 0 \<Longrightarrow> scavenge_loop free n rs k out = out @ filter free rs"
  by (induction rs arbitrary: k out) auto

lemma scavenge_loop_eq:
  "scavenge_loop free n rs 0 [] = (if n = 0 then filter free rs else take n (filter free rs))"
  by (simp add: scavenge_loop_prefix scavenge_loop_none)

lemma first_or_none_free:
  "first_or_none free rc \<noteq> NoRegister \<Longrightarrow> free (first_or_none free rc) \<and> first_or_none free rc \<in> set rc"
  by (auto simp: first_or_none_def split: list.splits dest: filter_eq_ConsD)

lemma pick_scheme_kind:
  "pick_scheme ks AGPRs SGPRs = Some s \<Longrightarrow>
   getScheme s \<in> set ks \<and> getScheme s \<noteq> SVS_SINGLE_VGPR \<and>
   createSVAStorage [] AGPRs SGPRs (getScheme s) = Inr s"
  by (induction ks) (auto split: if_splits sum.splits simp: createSVAStorage_result(1))

lemma pick_scheme_regs:
  assumes "pick_scheme ks AGPRs SGPRs = Some s"
  shows "set (getAllStorageRegisters s []) \<subseteq> set AGPRs \<union> set SGPRs"
  using createSVAStorage_result(2) pick_scheme_kind [OF assms]
  by (auto dest!: in_set_takeD)

lemma pick_scheme_None:
  "pick_scheme ks AGPRs SGPRs = None \<Longrightarrow> k \<in> set ks \<Longrightarrow> k \<noteq> SVS_SINGLE_VGPR \<Longrightarrow>
   \<not> (getNumSGPRsUsed k \<le> length SGPRs \<and> getNumAGPRsUsed k \<le> length AGPRs)"
proof (induction ks)
  case Nil
  then show ?case by simp
next
  case (Cons k' ks)
  show ?case
  proof (cases "k' \<noteq> SVS_SINGLE_VGPR \<and> getNumSGPRsUsed k' \<le> length SGPRs \<and>
      getNumAGPRsUsed k' \<le> length AGPRs")
    case True
    then have "getNumVGPRsUsed k' \<le> 0" by (cases k') simp_all
    with True have "\<exists>s. createSVAStorage [] AGPRs SGPRs k' = Inr s"
      by (simp add: createSVAStorage_Inr_iff)
    with True Cons.prems show ?thesis by auto
  next
    case False
    with Cons show ?thesis by (auto split: if_splits)
  qed
qed

lemma supported_has_single_VGPR: "SVS_SINGLE_VGPR \<in> set (getSupportedSVAStorageList st [])"
  by (simp add: getSupportedSVAStorageList_eq storage_kinds_def)

lemma findFixed_free:
  assumes "findFixedStateValueArrayStorage E mfs kinds ma ms = Some s"
  shows "set (getAllStorageRegisters s []) \<subseteq> {r. free_in_all E mfs r}"
    and "getScheme s \<in> insert SVS_SINGLE_VGPR (set kinds)"
proof -
  let ?v = "scavengeFreeRegister_all E mfs (VGPR_32RegClass E)"
  show "set (getAllStorageRegisters s []) \<subseteq> {r. free_in_all E mfs r}"
  proof (cases "?v = NoRegister")
    case True
    with assms show ?thesis
      using scavenge_loop_sound [of "free_in_all E mfs"] pick_scheme_regs
      by (fastforce simp: findFixedStateValueArrayStorage_def scavengeFreeRegisters_all_def)
  next
    case False
    with assms show ?thesis
      using first_or_none_free [of "free_in_all E mfs" "VGPR_32RegClass E"]
      by (auto simp: findFixedStateValueArrayStorage_def scavengeFreeRegister_all_def Let_def)
  qed
  show "getScheme s \<in> insert SVS_SINGLE_VGPR (set kinds)"
    using assms pick_scheme_kind
    by (auto simp: findFixedStateValueArrayStorage_def Let_def split: if_splits)
qed

lemma findAtMI_free:
  assumes "findStateValueArrayStorageAtMI E mf kinds ma ms = Some s"
  shows "set (getAllStorageRegisters s []) \<subseteq> {r. free_in E mf r}"
proof (cases "scavengeFreeRegister E mf (VGPR_32RegClass E) = NoRegister")
  case True
  with assms show ?thesis
    using scavenge_loop_sound [of "free_in E mf"] pick_scheme_regs
    by (fastforce simp: findStateValueArrayStorageAtMI_def scavengeFreeRegisters_def)
next
  case False
  with assms show ?thesis
    using first_or_none_free [of "free_in E mf" "rev (VGPR_32RegClass E)"]
    by (auto simp: findStateValueArrayStorageAtMI_def scavengeFreeRegister_def Let_def)
qed

subsection \<open>The fixed case\<close>

lemma err_fold_segments:
  assumes "err_fold (\<lambda>b. add_segment (mbb_id b) (mbb_start b) (mbb_end b) p) bs L = Inr L'"
  shows "L' = L\<lparr>intervals := intervals L @ map (\<lambda>b. (mbb_id b, mbb_start b, mbb_end b, p)) bs\<rparr> \<and>
    list_all (\<lambda>b. mbb_start b \<le> mbb_end b) bs"
  using assms
proof (induction bs arbitrary: L)
  case Nil
  then show ?case by simp
next
  case (Cons b bs)
  from Cons.prems obtain L1 where L1: "add_segment (mbb_id b) (mbb_start b) (mbb_end b) p L = Inr L1"
    and rest: "err_fold (\<lambda>b. add_segment (mbb_id b) (mbb_start b) (mbb_end b) p) bs L1 = Inr L'"
    by (auto simp: err_bind_Inr_iff)
  from L1 Cons.IH [OF rest] show ?case by (auto simp: add_segment_def split: if_splits)
qed

lemma err_fold_segments_ok:
  "list_all (\<lambda>b. mbb_start b \<le> mbb_end b) bs \<Longrightarrow>
   \<exists>L'. err_fold (\<lambda>b. add_segment (mbb_id b) (mbb_start b) (mbb_end b) p) bs L = Inr L'"
  by (induction bs arbitrary: L) (auto simp: add_segment_def)

lemma intervals_add_plan [simp]:
  "intervals (add_plan E mf s c i L) = intervals L" "made (add_plan E mf s c i L) = made L"
  by (simp_all add: add_plan_def split: prod.split)

lemma intervals_fold_add_plan [simp]:
  "intervals (fold (add_plan E mf s c) is L) = intervals L"
  "made (fold (add_plan E mf s c) is L) = made L"
  by (induction "is" arbitrary: L) simp_all

lemma intervals_fold_fixed [simp]:
  "intervals (fold (\<lambda>i L. case mf_of mfs i of None \<Rightarrow> L | Some mf \<Rightarrow> add_plan E mf s c i L) is L) =
   intervals L"
  by (induction "is" arbitrary: L) (auto split: option.splits)

definition plan_dom :: "sv_locations \<Rightarrow> nat set" where
  "plan_dom L = dom (getLoadPlan L)"

lemma getLoadPlan_add_plan:
  "getLoadPlan (add_plan E mf s c i L) j =
   (if j = i \<and> getLoadPlan L i = None
    then Some \<lparr>LoadVGPR = fst (selectVGPRLoadLocationForInjectedPayload E mf s c),
      ClobbersAppVGPR = snd (selectVGPRLoadLocationForInjectedPayload E mf s c),
      StorageLocation = s\<rparr>
    else getLoadPlan L j)"
  by (cases "selectVGPRLoadLocationForInjectedPayload E mf s c")
    (simp add: add_plan_def getLoadPlan_def mv_insert_def map_of_snoc split: option.splits
      del: map_of_append)

lemma plan_dom_add_plan [simp]: "plan_dom (add_plan E mf s c i L) = insert i (plan_dom L)"
  by (auto simp: plan_dom_def getLoadPlan_add_plan split: if_splits)

lemma plan_dom_fold_add_plan [simp]:
  "plan_dom (fold (add_plan E mf s c) is L) = set is \<union> plan_dom L"
  by (induction "is" arbitrary: L) auto

lemma plan_dom_fixed:
  "plan_dom (fold (\<lambda>i L. case mf_of mfs i of None \<Rightarrow> L | Some mf \<Rightarrow> add_plan E mf s c i L) is L) =
   {i \<in> set is. mf_of mfs i \<noteq> None} \<union> plan_dom L"
  by (induction "is" arbitrary: L) (auto split: option.splits)

lemma all_same_const:
  "list_all (\<lambda>(s, e, p). p = q) segs \<Longrightarrow>
   all_same_object (Some (fst q)) segs = Some (Some (fst q))"
  by (induction segs) (auto split: prod.splits)

lemma hasFixed_const:
  assumes "list_all (\<lambda>(b, s, e, p). p = q) (intervals L)"
  shows "hasFixedStorageAcrossAllFunctions L \<longleftrightarrow> intervals L \<noteq> []"
proof (cases "intervals L")
  case Nil
  then show ?thesis by (simp add: hasFixedStorageAcrossAllFunctions_def)
next
  case (Cons x xs)
  obtain b s e where x: "x = (b, s, e, q)" and "list_all (\<lambda>(b, s, e, p). p = q) xs"
    using assms Cons by (cases x) auto
  then have "list_all (\<lambda>(s, e, p). p = q) (map snd xs)"
    by (auto simp: list_all_iff)
  from all_same_const [OF this] show ?thesis
    by (cases q) (simp add: hasFixedStorageAcrossAllFunctions_def Cons x)
qed

lemma calculate_fixed_result:
  assumes "list_all (\<lambda>b. mbb_start b \<le> mbb_end b) (concat (map mf_mbbs mfs))"
  shows "\<exists>L. calculate_fixed E mfs svs no_locations = Inr L \<and>
    intervals L = map (\<lambda>b. (mbb_id b, mbb_start b, mbb_end b, (0, svs))) (concat (map mf_mbbs mfs)) \<and>
    plan_dom L = {i \<in> set (hook_mis E). mf_of mfs i \<noteq> None}"
proof -
  obtain L' where L': "err_fold (\<lambda>b. add_segment (mbb_id b) (mbb_start b) (mbb_end b) (0, svs))
      (concat (map mf_mbbs mfs)) (no_locations\<lparr>made := 1\<rparr>) = Inr L'"
    using err_fold_segments_ok [OF assms] by blast
  have "plan_dom L' = {}"
    using err_fold_segments [OF L']
    by (auto simp: plan_dom_def getLoadPlan_def no_locations_def)
  moreover have "intervals L' =
      map (\<lambda>b. (mbb_id b, mbb_start b, mbb_end b, (0, svs))) (concat (map mf_mbbs mfs))"
    using err_fold_segments [OF L'] by (simp add: no_locations_def)
  ultimately show ?thesis
    using L' by (auto simp: calculate_fixed_def Let_def no_locations_def plan_dom_fixed)
qed

subsection \<open>The shuffling case\<close>

text \<open>The plans after every point of \<open>H\<close> has inserted the plan \<open>p\<close>.\<close>

definition extend_plans :: "load_plan \<Rightarrow> nat set \<Rightarrow> (nat \<Rightarrow> load_plan option) \<Rightarrow> nat \<Rightarrow> load_plan option" where
  "extend_plans p H m = (\<lambda>i. if i \<in> H \<and> m i = None then Some p else m i)"

lemma extend_plans_empty [simp]: "extend_plans p {} m = m"
  by (simp add: extend_plans_def)

lemma extend_plans_Un [simp]: "extend_plans p H (extend_plans p G m) = extend_plans p (G \<union> H) m"
  by (auto simp: extend_plans_def)

definition plan_for :: "loc_env \<Rightarrow> tmf \<Rightarrow> SVAStorage \<Rightarrow> bool \<Rightarrow> load_plan" where
  "plan_for E mf s c =
     \<lparr>LoadVGPR = fst (selectVGPRLoadLocationForInjectedPayload E mf s c),
      ClobbersAppVGPR = snd (selectVGPRLoadLocationForInjectedPayload E mf s c),
      StorageLocation = s\<rparr>"

lemma getLoadPlan_add_plan_eq:
  "getLoadPlan (add_plan E mf s c i L) = extend_plans (plan_for E mf s c) {i} (getLoadPlan L)"
  by (rule ext) (auto simp: getLoadPlan_add_plan extend_plans_def plan_for_def)

lemma getLoadPlan_fold_add_plan:
  "getLoadPlan (fold (add_plan E mf s c) is L) =
   extend_plans (plan_for E mf s c) (set is) (getLoadPlan L)"
  by (induction "is" arbitrary: L) (simp_all add: getLoadPlan_add_plan_eq)

lemma getLoadPlan_upd [simp]:
  "getLoadPlan (L\<lparr>intervals := x\<rparr>) = getLoadPlan L" "getLoadPlan (L\<lparr>made := n\<rparr>) = getLoadPlan L"
  by (rule ext, simp add: getLoadPlan_def)+

text \<open>Segments that meet end to start from \<open>s\<close> to \<open>e\<close>.\<close>

fun segment_chain :: "nat \<Rightarrow> segment list \<Rightarrow> nat \<Rightarrow> bool" where
  "segment_chain s [] e \<longleftrightarrow> s = e"
| "segment_chain s ((a, b, p) # segs) e \<longleftrightarrow> a = s \<and> a \<le> b \<and> segment_chain b segs e"

lemma segment_chain_append:
  "segment_chain s (xs @ ys) e \<longleftrightarrow> (\<exists>m. segment_chain s xs m \<and> segment_chain m ys e)"
  by (induction xs arbitrary: s) auto

text \<open>
  A walk step: the new segments of the block form a chain, all of them refer to storage \<open>s\<close>, and
  the instrumentation points in \<open>H\<close> have the plan of \<open>s\<close>.
\<close>

definition walk_to ::
    "loc_env \<Rightarrow> tmf \<Rightarrow> SVAStorage \<Rightarrow> tmbb \<Rightarrow> nat \<Rightarrow> nat set \<Rightarrow> walk_state \<Rightarrow> walk_state \<Rightarrow> bool" where
  "walk_to E mf s b e H w w' \<longleftrightarrow> snd (cur_svs w') = s \<and> interval_begin w' = e \<and>
     (\<exists>segs. intervals (locs w') = intervals (locs w) @ map (Pair (mbb_id b)) segs \<and>
        segment_chain (interval_begin w) segs e \<and> (\<forall>(x, y, p) \<in> set segs. snd p = s)) \<and>
     getLoadPlan (locs w') = extend_plans (plan_for E mf s False) H (getLoadPlan (locs w))"

lemma walk_to_trans:
  assumes "walk_to E mf s b e G w w'" and "walk_to E mf s b e' H w' w''"
  shows "walk_to E mf s b e' (G \<union> H) w w''"
proof -
  obtain xs where xs: "intervals (locs w') = intervals (locs w) @ map (Pair (mbb_id b)) xs"
      "segment_chain (interval_begin w) xs e" "\<forall>(x, y, p) \<in> set xs. snd p = s"
    using assms(1) by (auto simp: walk_to_def)
  obtain ys where ys: "intervals (locs w'') = intervals (locs w') @ map (Pair (mbb_id b)) ys"
      "segment_chain e ys e'" "\<forall>(x, y, p) \<in> set ys. snd p = s"
    using assms by (auto simp: walk_to_def)
  have "intervals (locs w'') = intervals (locs w) @ map (Pair (mbb_id b)) (xs @ ys) \<and>
      segment_chain (interval_begin w) (xs @ ys) e' \<and> (\<forall>(x, y, p) \<in> set (xs @ ys). snd p = s)"
    using xs ys by (auto simp: segment_chain_append)
  moreover have "getLoadPlan (locs w'') =
      extend_plans (plan_for E mf s False) (G \<union> H) (getLoadPlan (locs w))"
    using assms by (simp add: walk_to_def)
  moreover have "snd (cur_svs w'') = s" "interval_begin w'' = e'"
    using assms(2) by (simp_all add: walk_to_def)
  ultimately show ?thesis by (simp only: walk_to_def) blast
qed

lemma walk_to_flush:
  assumes "interval_begin w \<le> e" and "snd (cur_svs w) = s"
  shows "\<exists>w'. flush_segment E mf b e w = Inr w' \<and>
    walk_to E mf s b e (set (pending_hooks w)) w w' \<and> pending_hooks w' = []"
  using assms
  by (auto simp: flush_segment_def add_segment_def walk_to_def getLoadPlan_fold_add_plan
      intro: exI [of _ "[(interval_begin w, e, cur_svs w)]"])

lemma walk_to_relocate:
  assumes "findStateValueArrayStorageAtMI E mf kinds ma ms = Some s"
    and "snd (cur_svs w) = s" and "interval_begin w = e"
  shows "\<exists>w'. relocate E mf kinds ma ms w = Inr w' \<and> walk_to E mf s b e {} w w' \<and>
    pending_hooks w' = pending_hooks w"
  using assms by (simp add: relocate_def walk_to_def)

lemma walk_to_refl:
  "snd (cur_svs w) = s \<Longrightarrow> interval_begin w = e \<Longrightarrow> walk_to E mf s b e {} w w"
  by (simp add: walk_to_def)

lemma visit_mi_walk:
  assumes find: "findStateValueArrayStorageAtMI E mf kinds ma ms = Some s"
    and svs: "snd (cur_svs w) = s"
    and le: "interval_begin w \<le> mi_slot mi" "mi_slot mi \<le> mbb_end b"
  shows "\<exists>w' e G. visit_mi E mf kinds ma ms b fin mi w = Inr w' \<and> walk_to E mf s b e G w w' \<and>
    (if fin then e = mbb_end b \<and> pending_hooks w' = [] else e \<le> mi_slot mi) \<and>
    G \<union> set (pending_hooks w') = set (pending_hooks w) \<union> ({mi_id mi} \<inter> set (hook_mis E))"
proof -
  let ?hook = "mi_id mi \<in> set (hook_mis E)"
  define w1 where "w1 = (if ?hook
      then w\<lparr>pending_hooks := List.insert (mi_id mi) (pending_hooks w)\<rparr> else w)"
  let ?reloc = "getStateValueStorageReg (snd (cur_svs w1)) = NoRegister \<and> ?hook"
  let ?must = "list_ex (\<lambda>r. r \<in> live_at E b (mi_id mi)) (getAllStorageRegisters (snd (cur_svs w1)) [])"
  let ?e = "if fin then mbb_end b else mi_slot mi"
  have w1: "snd (cur_svs w1) = s" "interval_begin w1 = interval_begin w" "locs w1 = locs w"
      "set (pending_hooks w1) = set (pending_hooks w) \<union> ({mi_id mi} \<inter> set (hook_mis E))"
    using svs by (auto simp: w1_def)
  have via: "walk_to E mf s b e G w1 w' = walk_to E mf s b e G w w'" for e G w'
    using w1 by (simp add: walk_to_def)
  have def: "visit_mi E mf kinds ma ms b fin mi w =
      err_bind (if fin \<or> ?reloc \<or> ?must then flush_segment E mf b ?e w1 else Inr w1)
        (\<lambda>w. if ?reloc \<or> ?must then relocate E mf kinds ma ms w else Inr w)"
    by (simp add: visit_mi_def Let_def w1_def)
  show ?thesis
  proof (cases "fin \<or> ?reloc \<or> ?must")
    case True
    have "interval_begin w1 \<le> ?e" using le w1 by simp
    from walk_to_flush [OF this w1(1), of E mf b] obtain w2 where
      w2: "flush_segment E mf b ?e w1 = Inr w2" "walk_to E mf s b ?e (set (pending_hooks w1)) w w2"
        "pending_hooks w2 = []"
      unfolding via by blast
    have w2': "snd (cur_svs w2) = s" "interval_begin w2 = ?e" using w2(2) by (simp_all add: walk_to_def)
    obtain w3 where w3: "(if ?reloc \<or> ?must then relocate E mf kinds ma ms w2 else Inr w2) = Inr w3"
        "walk_to E mf s b ?e {} w2 w3" "pending_hooks w3 = []"
    proof (cases "?reloc \<or> ?must")
      case True
      from walk_to_relocate [OF find w2', of b] obtain w3 where
        "relocate E mf kinds ma ms w2 = Inr w3" "walk_to E mf s b ?e {} w2 w3"
        "pending_hooks w3 = pending_hooks w2"
        by blast
      with True w2(3) show thesis by (intro that [of w3]) simp_all
    next
      case False
      with walk_to_refl [OF w2'] w2(3) show thesis by (intro that [of w2]) auto
    qed
    have "visit_mi E mf kinds ma ms b fin mi w = Inr w3"
      unfolding def using True w2(1) w3(1) by simp
    moreover have "walk_to E mf s b ?e (set (pending_hooks w1)) w w3"
      using walk_to_trans [OF w2(2) w3(2)] by simp
    moreover have "if fin then ?e = mbb_end b \<and> pending_hooks w3 = [] else ?e \<le> mi_slot mi"
      using w3(3) by simp
    moreover have "set (pending_hooks w1) \<union> set (pending_hooks w3) =
        set (pending_hooks w) \<union> ({mi_id mi} \<inter> set (hook_mis E))"
      using w3(3) w1(4) by simp
    ultimately show ?thesis by blast
  next
    case False
    then have "visit_mi E mf kinds ma ms b fin mi w = Inr w1" unfolding def by auto
    moreover have "walk_to E mf s b (interval_begin w) {} w w1"
      using walk_to_refl [of w1 s "interval_begin w" E mf b] w1 by (simp add: via)
    moreover have "if fin then interval_begin w = mbb_end b \<and> pending_hooks w1 = []
        else interval_begin w \<le> mi_slot mi"
      using False le by simp
    moreover have "{} \<union> set (pending_hooks w1) =
        set (pending_hooks w) \<union> ({mi_id mi} \<inter> set (hook_mis E))"
      using w1(4) by simp
    ultimately show ?thesis by blast
  qed
qed

text \<open>A block whose slot indexes increase from its start to its end.\<close>

definition ordered_slots :: "nat \<Rightarrow> tmi list \<Rightarrow> nat \<Rightarrow> bool" where
  "ordered_slots s mis e \<longleftrightarrow> sorted (s # map mi_slot mis @ [e])"

definition mi_ids :: "tmi list \<Rightarrow> nat set" where
  "mi_ids mis = mi_id ` set mis"

lemma visit_mis_walk:
  assumes find: "findStateValueArrayStorageAtMI E mf kinds ma ms = Some s"
    and "mis \<noteq> []" and "snd (cur_svs w) = s"
    and "ordered_slots (interval_begin w) mis (mbb_end b)"
  shows "\<exists>w'. visit_mis E mf kinds ma ms b mis w = Inr w' \<and> pending_hooks w' = [] \<and>
    walk_to E mf s b (mbb_end b) (set (pending_hooks w) \<union> (mi_ids mis \<inter> set (hook_mis E))) w w'"
  using assms(2-)
proof (induction mis arbitrary: w)
  case Nil
  then show ?case by simp
next
  case (Cons mi mis)
  have le: "interval_begin w \<le> mi_slot mi" "mi_slot mi \<le> mbb_end b"
    using Cons.prems by (simp_all add: ordered_slots_def)
  from visit_mi_walk [OF find Cons.prems(2) le, of "mis = []"] obtain w1 e G where
    w1: "visit_mi E mf kinds ma ms b (mis = []) mi w = Inr w1" "walk_to E mf s b e G w w1"
      "if mis = [] then e = mbb_end b \<and> pending_hooks w1 = [] else e \<le> mi_slot mi"
      "G \<union> set (pending_hooks w1) = set (pending_hooks w) \<union> ({mi_id mi} \<inter> set (hook_mis E))"
    by blast
  show ?case
  proof (cases "mis = []")
    case True
    with w1 show ?thesis by (simp add: mi_ids_def)
  next
    case False
    have "interval_begin w1 = e" "snd (cur_svs w1) = s" using w1(2) by (simp_all add: walk_to_def)
    moreover have "ordered_slots e mis (mbb_end b)"
      using Cons.prems(3) w1(3) False by (auto simp: ordered_slots_def)
    ultimately obtain w2 where
      w2: "visit_mis E mf kinds ma ms b mis w1 = Inr w2" "pending_hooks w2 = []"
        "walk_to E mf s b (mbb_end b) (set (pending_hooks w1) \<union> (mi_ids mis \<inter> set (hook_mis E))) w1 w2"
      using Cons.IH [OF False] by blast
    have "G \<union> (set (pending_hooks w1) \<union> (mi_ids mis \<inter> set (hook_mis E))) =
        set (pending_hooks w) \<union> (mi_ids (mi # mis) \<inter> set (hook_mis E))"
      using w1(4) by (auto simp: mi_ids_def)
    with walk_to_trans [OF w1(2) w2(3)] w1(1) w2(1,2) show ?thesis by auto
  qed
qed

definition wf_mbb :: "tmbb \<Rightarrow> bool" where
  "wf_mbb b \<longleftrightarrow> mbb_mis b \<noteq> [] \<and> ordered_slots (mbb_start b) (mbb_mis b) (mbb_end b)"

definition mf_mi_ids :: "tmf \<Rightarrow> nat set" where
  "mf_mi_ids mf = (\<Union>b\<in>set (mf_mbbs mf). mi_ids (mbb_mis b))"

text \<open>The new segments of a function, one chain for each block in order.\<close>

definition mf_segments :: "SVAStorage \<Rightarrow> tmbb list \<Rightarrow> (nat \<times> segment) list \<Rightarrow> bool" where
  "mf_segments s bs new \<longleftrightarrow> (\<exists>chains. new = concat (map2 (\<lambda>b. map (Pair (mbb_id b))) bs chains) \<and>
     list_all2 (\<lambda>b segs. segment_chain (mbb_start b) segs (mbb_end b) \<and>
       (\<forall>(x, y, p) \<in> set segs. snd p = s)) bs chains)"

lemma mf_segments_Nil: "mf_segments s [] []"
  by (auto simp: mf_segments_def)

lemma mf_segments_Cons:
  assumes "segment_chain (mbb_start b) segs (mbb_end b)" and "\<forall>(x, y, p) \<in> set segs. snd p = s"
    and "mf_segments s bs new"
  shows "mf_segments s (b # bs) (map (Pair (mbb_id b)) segs @ new)"
proof -
  obtain chains where "new = concat (map2 (\<lambda>b. map (Pair (mbb_id b))) bs chains)"
    "list_all2 (\<lambda>b segs. segment_chain (mbb_start b) segs (mbb_end b) \<and>
       (\<forall>(x, y, p) \<in> set segs. snd p = s)) bs chains"
    using assms(3) by (auto simp: mf_segments_def)
  then show ?thesis
    using assms(1,2) unfolding mf_segments_def by (intro exI [of _ "segs # chains"]) simp
qed

lemma visit_mbb_walk:
  assumes "findStateValueArrayStorageAtMI E mf kinds ma ms = Some s" and "wf_mbb b"
    and "snd (cur_svs w) = s" and "pending_hooks w = []"
  shows "\<exists>w' segs. visit_mbb E mf kinds ma ms b w = Inr w' \<and> pending_hooks w' = [] \<and>
    snd (cur_svs w') = s \<and>
    intervals (locs w') = intervals (locs w) @ map (Pair (mbb_id b)) segs \<and>
    segment_chain (mbb_start b) segs (mbb_end b) \<and> (\<forall>(x, y, p) \<in> set segs. snd p = s) \<and>
    getLoadPlan (locs w') = extend_plans (plan_for E mf s False)
      (mi_ids (mbb_mis b) \<inter> set (hook_mis E)) (getLoadPlan (locs w))"
proof -
  let ?w = "w\<lparr>interval_begin := mbb_start b\<rparr>"
  have "mbb_mis b \<noteq> []" "snd (cur_svs ?w) = s"
    "ordered_slots (interval_begin ?w) (mbb_mis b) (mbb_end b)"
    using assms by (simp_all add: wf_mbb_def)
  from visit_mis_walk [OF assms(1) this] obtain w' where
    "visit_mis E mf kinds ma ms b (mbb_mis b) ?w = Inr w'" "pending_hooks w' = []"
    "walk_to E mf s b (mbb_end b) (mi_ids (mbb_mis b) \<inter> set (hook_mis E)) ?w w'"
    using assms(4) by auto
  then show ?thesis
    by (intro exI [of _ w']) (auto simp: visit_mbb_def walk_to_def)
qed

lemma visit_mbbs_walk:
  assumes find: "findStateValueArrayStorageAtMI E mf kinds ma ms = Some s"
    and "list_all wf_mbb bs" and "snd (cur_svs w) = s" and "pending_hooks w = []"
  shows "\<exists>w' new. visit_mbbs E mf kinds ma ms bs w = Inr w' \<and>
    intervals (locs w') = intervals (locs w) @ new \<and> mf_segments s bs new \<and>
    getLoadPlan (locs w') = extend_plans (plan_for E mf s False)
      ((\<Union>b\<in>set bs. mi_ids (mbb_mis b)) \<inter> set (hook_mis E)) (getLoadPlan (locs w))"
  using assms(2-)
proof (induction bs arbitrary: w)
  case Nil
  then show ?case by (auto simp: mf_segments_Nil)
next
  case (Cons b bs)
  from Cons.prems have wf: "wf_mbb b" "list_all wf_mbb bs" by simp_all
  from visit_mbb_walk [OF find wf(1) Cons.prems(2,3)] obtain w1 segs where
    w1: "visit_mbb E mf kinds ma ms b w = Inr w1" "pending_hooks w1 = []" "snd (cur_svs w1) = s"
      "intervals (locs w1) = intervals (locs w) @ map (Pair (mbb_id b)) segs"
      "segment_chain (mbb_start b) segs (mbb_end b)" "\<forall>(x, y, p) \<in> set segs. snd p = s"
      "getLoadPlan (locs w1) = extend_plans (plan_for E mf s False)
        (mi_ids (mbb_mis b) \<inter> set (hook_mis E)) (getLoadPlan (locs w))"
    by blast
  from Cons.IH [OF wf(2) w1(3,2)] obtain w2 new where
    w2: "visit_mbbs E mf kinds ma ms bs w1 = Inr w2"
      "intervals (locs w2) = intervals (locs w1) @ new" "mf_segments s bs new"
      "getLoadPlan (locs w2) = extend_plans (plan_for E mf s False)
        ((\<Union>b\<in>set bs. mi_ids (mbb_mis b)) \<inter> set (hook_mis E)) (getLoadPlan (locs w1))"
    by blast
  have "getLoadPlan (locs w2) = extend_plans (plan_for E mf s False)
      ((\<Union>b\<in>set (b # bs). mi_ids (mbb_mis b)) \<inter> set (hook_mis E)) (getLoadPlan (locs w))"
    using w1(7) w2(4) by (simp add: Int_Un_distrib2)
  moreover have "mf_segments s (b # bs) (map (Pair (mbb_id b)) segs @ new)"
    by (rule mf_segments_Cons [OF w1(5,6) w2(3)])
  ultimately show ?case
    using w1(1,4) w2(1,2) by (intro exI [of _ w2]) (simp add: exI [of _ "map (Pair (mbb_id b)) segs @ new"])
qed

text \<open>The storage that a function gets, when the walk can start with it.\<close>

definition entry_vgpr :: "loc_env \<Rightarrow> tmf \<Rightarrow> mcreg" where
  "entry_vgpr E mf = scavengeFreeRegister E mf (VGPR_32RegClass E)"

lemma findAtMI_vgpr:
  "entry_vgpr E mf \<noteq> NoRegister \<Longrightarrow> findStateValueArrayStorageAtMI E mf kinds ma ms =
     Some (VGPRStateValueArrayStorage (entry_vgpr E mf))"
  by (simp add: findStateValueArrayStorageAtMI_def entry_vgpr_def)

lemma plan_for_VGPR:
  "plan_for E mf (VGPRStateValueArrayStorage v) c =
   \<lparr>LoadVGPR = v, ClobbersAppVGPR = False, StorageLocation = VGPRStateValueArrayStorage v\<rparr>"
  by (simp add: plan_for_def selectVGPRLoadLocationForInjectedPayload_def)

lemma calculate_mf_walk:
  assumes "list_all wf_mbb (mf_mbbs mf)" and "entry_vgpr E mf \<noteq> NoRegister"
  shows "\<exists>L' new. calculate_mf E kinds ma ms mf L = Inr L' \<and>
    intervals L' = intervals L @ new \<and>
    mf_segments (VGPRStateValueArrayStorage (entry_vgpr E mf)) (mf_mbbs mf) new \<and>
    getLoadPlan L' = extend_plans \<lparr>LoadVGPR = entry_vgpr E mf, ClobbersAppVGPR = False,
      StorageLocation = VGPRStateValueArrayStorage (entry_vgpr E mf)\<rparr>
      (mf_mi_ids mf \<inter> set (hook_mis E)) (getLoadPlan L)"
proof -
  let ?s = "VGPRStateValueArrayStorage (entry_vgpr E mf)"
  let ?w = "\<lparr>cur_svs = (made L, ?s), pending_hooks = [], interval_begin = 0,
      locs = L\<lparr>made := Suc (made L)\<rparr>\<rparr>"
  from visit_mbbs_walk [OF findAtMI_vgpr [OF assms(2)] assms(1), of ?w kinds ma ms] obtain w' new where
    "visit_mbbs E mf kinds ma ms (mf_mbbs mf) ?w = Inr w'"
    "intervals (locs w') = intervals L @ new" "mf_segments ?s (mf_mbbs mf) new"
    "getLoadPlan (locs w') = extend_plans (plan_for E mf ?s False)
        (mf_mi_ids mf \<inter> set (hook_mis E)) (getLoadPlan L)"
    by (auto simp: mf_mi_ids_def)
  then show ?thesis
    by (auto simp: calculate_mf_def findAtMI_vgpr [OF assms(2)] plan_for_VGPR)
qed

lemma pick_scheme_not_vgpr: "pick_scheme ks AGPRs SGPRs = Some s \<Longrightarrow> getScheme s \<noteq> SVS_SINGLE_VGPR"
  using pick_scheme_kind by blast

lemma calculate_mf_error:
  assumes "entry_vgpr E mf = NoRegister"
  shows "\<exists>e. calculate_mf E kinds ma ms mf L = Inl (e, L) \<and> e \<in> {NoEntryStorage, EntryNotInVGPR}"
  using assms pick_scheme_not_vgpr
  by (auto simp: calculate_mf_def findStateValueArrayStorageAtMI_def entry_vgpr_def Let_def
      split: option.split)

subsection \<open>The whole analysis\<close>

definition fixed_choice :: "loc_env \<Rightarrow> tmf list \<Rightarrow> SVAStorage option" where
  "fixed_choice E mfs = (let kinds = getSupportedSVAStorageList (env_target E) [] in
     findFixedStateValueArrayStorage E mfs kinds (max_used getNumAGPRsUsed kinds)
       (max_used getNumSGPRsUsed kinds))"

lemma calculate_split:
  assumes "mfs \<noteq> []"
  shows "calculate E mfs L = (case fixed_choice E mfs of
      Some svs \<Rightarrow> calculate_fixed E mfs svs L
    | None \<Rightarrow> (let kinds = getSupportedSVAStorageList (env_target E) [] in
        err_fold (calculate_mf E kinds (max_used getNumAGPRsUsed kinds)
          (max_used getNumSGPRsUsed kinds)) mfs L))"
proof -
  have "getSupportedSVAStorageList (env_target E) [] \<noteq> []"
    using supported_has_single_VGPR [of "env_target E"] by auto
  with assms show ?thesis by (simp add: calculate_def fixed_choice_def Let_def split: option.split)
qed

abbreviation all_mbbs :: "tmf list \<Rightarrow> tmbb list" where
  "all_mbbs mfs \<equiv> concat (map mf_mbbs mfs)"

text \<open>Blocks and instructions are objects: no identity occurs twice.\<close>

definition distinct_objects :: "tmf list \<Rightarrow> bool" where
  "distinct_objects mfs \<longleftrightarrow> distinct (map mbb_id (all_mbbs mfs)) \<and>
     sorted_wrt (\<lambda>m m'. mf_mi_ids m \<inter> mf_mi_ids m' = {}) mfs"

lemma filter_pair: "map snd (filter (\<lambda>e. fst e = i) (map (Pair j) segs)) = (if i = j then segs else [])"
  by (induction segs) auto

lemma mf_segments_ids: "mf_segments s bs new \<Longrightarrow> fst ` set new \<subseteq> mbb_id ` set bs"
proof (unfold mf_segments_def, elim exE conjE)
  fix chains
  assume "new = concat (map2 (\<lambda>b. map (Pair (mbb_id b))) bs chains)"
    and "list_all2 (\<lambda>b segs. segment_chain (mbb_start b) segs (mbb_end b) \<and>
       (\<forall>(x, y, p) \<in> set segs. snd p = s)) bs chains"
  then show "fst ` set new \<subseteq> mbb_id ` set bs"
    by (auto dest: set_zip_leftD)
qed

lemma filter_ids_none: "i \<notin> fst ` set new \<Longrightarrow> filter (\<lambda>e. fst e = i) new = []"
  by (auto simp: filter_empty_conv)

lemma mf_segments_lookup:
  assumes "mf_segments s bs new" and "distinct (map mbb_id bs)" and "b \<in> set bs"
  shows "\<exists>segs. map snd (filter (\<lambda>e. fst e = mbb_id b) new) = segs \<and>
    segment_chain (mbb_start b) segs (mbb_end b) \<and> (\<forall>(x, y, p) \<in> set segs. snd p = s)"
  using assms
proof (induction bs arbitrary: new)
  case Nil
  then show ?case by simp
next
  case (Cons c bs)
  then obtain chains where "new = concat (map2 (\<lambda>b. map (Pair (mbb_id b))) (c # bs) chains)"
    "list_all2 (\<lambda>b segs. segment_chain (mbb_start b) segs (mbb_end b) \<and>
       (\<forall>(x, y, p) \<in> set segs. snd p = s)) (c # bs) chains"
    by (auto simp: mf_segments_def)
  then obtain segs rest where new: "new = map (Pair (mbb_id c)) segs @ rest"
    and segs: "segment_chain (mbb_start c) segs (mbb_end c)" "\<forall>(x, y, p) \<in> set segs. snd p = s"
    and rest: "mf_segments s bs rest"
    by (cases chains) (auto simp: mf_segments_def)
  show ?case
  proof (cases "b = c")
    case True
    have "mbb_id c \<notin> fst ` set rest"
      using mf_segments_ids [OF rest] Cons.prems(2) by auto
    with True segs show ?thesis by (simp add: new filter_ids_none comp_def)
  next
    case False
    with Cons.prems(3) have b: "b \<in> set bs" by simp
    then have "mbb_id b \<in> mbb_id ` set bs" by (rule imageI)
    with Cons.prems(2) have "mbb_id b \<noteq> mbb_id c" by auto
    with b Cons.IH [OF rest] Cons.prems(2) show ?thesis by (simp add: new filter_pair)
  qed
qed

text \<open>What the analysis promises for a function in the shuffling case.\<close>

definition mf_served :: "loc_env \<Rightarrow> tmf \<Rightarrow> sv_locations \<Rightarrow> bool" where
  "mf_served E mf L \<longleftrightarrow>
     (\<forall>b\<in>set (mf_mbbs mf).
        segment_chain (mbb_start b) (getStorageIntervals L (mbb_id b)) (mbb_end b) \<and>
        (\<forall>(x, y, p) \<in> set (getStorageIntervals L (mbb_id b)).
           snd p = VGPRStateValueArrayStorage (entry_vgpr E mf))) \<and>
     (\<forall>i\<in>mf_mi_ids mf \<inter> set (hook_mis E). getLoadPlan L i =
        Some \<lparr>LoadVGPR = entry_vgpr E mf, ClobbersAppVGPR = False,
          StorageLocation = VGPRStateValueArrayStorage (entry_vgpr E mf)\<rparr>)"

lemma err_fold_served:
  assumes "list_all (\<lambda>mf. list_all wf_mbb (mf_mbbs mf) \<and> entry_vgpr E mf \<noteq> NoRegister) mfs"
    and "distinct_objects mfs"
    and "fst ` set (intervals L) \<inter> mbb_id ` set (all_mbbs mfs) = {}"
    and "\<forall>mf\<in>set mfs. dom (getLoadPlan L) \<inter> mf_mi_ids mf = {}"
  shows "\<exists>L' new. err_fold (calculate_mf E kinds ma ms) mfs L = Inr L' \<and>
    list_all (\<lambda>mf. mf_served E mf L') mfs \<and> intervals L' = intervals L @ new \<and>
    fst ` set new \<subseteq> mbb_id ` set (all_mbbs mfs) \<and>
    (\<forall>i. i \<notin> (\<Union>mf\<in>set mfs. mf_mi_ids mf) \<longrightarrow> getLoadPlan L' i = getLoadPlan L i)"
  using assms
proof (induction mfs arbitrary: L)
  case Nil
  then show ?case by simp
next
  case (Cons mf mfs)
  let ?v = "entry_vgpr E mf"
  let ?p = "\<lparr>LoadVGPR = ?v, ClobbersAppVGPR = False, StorageLocation = VGPRStateValueArrayStorage ?v\<rparr>"
  have "list_all wf_mbb (mf_mbbs mf)" "?v \<noteq> NoRegister" using Cons.prems(1) by simp_all
  from calculate_mf_walk [OF this, of kinds ma ms L] obtain L1 new where
    L1: "calculate_mf E kinds ma ms mf L = Inr L1" "intervals L1 = intervals L @ new"
      "mf_segments (VGPRStateValueArrayStorage ?v) (mf_mbbs mf) new"
      "getLoadPlan L1 = extend_plans ?p (mf_mi_ids mf \<inter> set (hook_mis E)) (getLoadPlan L)"
    by blast
  note ids = mf_segments_ids [OF L1(3)]
  have dist: "distinct_objects mfs" "distinct (map mbb_id (mf_mbbs mf))"
      "mbb_id ` set (mf_mbbs mf) \<inter> mbb_id ` set (all_mbbs mfs) = {}"
      "\<forall>mf'\<in>set mfs. mf_mi_ids mf \<inter> mf_mi_ids mf' = {}"
    using Cons.prems(2) by (auto simp: distinct_objects_def)
  have pre1: "fst ` set (intervals L1) \<inter> mbb_id ` set (all_mbbs mfs) = {}"
  proof -
    have "fst ` set (intervals L1) \<subseteq> fst ` set (intervals L) \<union> mbb_id ` set (mf_mbbs mf)"
      using ids by (auto simp: L1(2))
    then show ?thesis using Cons.prems(3) dist(3) by (simp only: list.map concat.simps set_append) blast
  qed
  have pre2: "\<forall>mf'\<in>set mfs. dom (getLoadPlan L1) \<inter> mf_mi_ids mf' = {}"
  proof
    fix mf'
    assume m: "mf' \<in> set mfs"
    have "dom (getLoadPlan L1) \<subseteq> dom (getLoadPlan L) \<union> mf_mi_ids mf"
      by (auto simp: L1(4) extend_plans_def split: if_splits)
    moreover have "dom (getLoadPlan L) \<inter> mf_mi_ids mf' = {}" using Cons.prems(4) m by simp
    moreover have "mf_mi_ids mf \<inter> mf_mi_ids mf' = {}" using dist(4) m by simp
    ultimately show "dom (getLoadPlan L1) \<inter> mf_mi_ids mf' = {}" by blast
  qed
  have "list_all (\<lambda>mf. list_all wf_mbb (mf_mbbs mf) \<and> entry_vgpr E mf \<noteq> NoRegister) mfs"
    using Cons.prems(1) by simp
  from Cons.IH [OF this dist(1) pre1 pre2] obtain L2 new' where
    L2: "err_fold (calculate_mf E kinds ma ms) mfs L1 = Inr L2" "list_all (\<lambda>mf. mf_served E mf L2) mfs"
      "intervals L2 = intervals L1 @ new'" "fst ` set new' \<subseteq> mbb_id ` set (all_mbbs mfs)"
      "\<forall>i. i \<notin> (\<Union>mf\<in>set mfs. mf_mi_ids mf) \<longrightarrow> getLoadPlan L2 i = getLoadPlan L1 i"
    by blast
  have look: "getStorageIntervals L2 (mbb_id b) = map snd (filter (\<lambda>e. fst e = mbb_id b) new)"
    if "b \<in> set (mf_mbbs mf)" for b
  proof -
    have "mbb_id b \<in> mbb_id ` set (mf_mbbs mf)" using that by (rule imageI)
    moreover from this have "mbb_id b \<in> mbb_id ` set (all_mbbs (mf # mfs))"
      by (simp only: list.map concat.simps set_append image_Un) blast
    ultimately have "mbb_id b \<notin> fst ` set (intervals L)" "mbb_id b \<notin> fst ` set new'"
      using Cons.prems(3) L2(4) dist(3) by blast+
    then show ?thesis by (simp add: getStorageIntervals_def L2(3) L1(2) filter_ids_none)
  qed
  have "getLoadPlan L2 i = Some ?p" if "i \<in> mf_mi_ids mf \<inter> set (hook_mis E)" for i
  proof -
    have "i \<notin> (\<Union>mf\<in>set mfs. mf_mi_ids mf)" using that dist(4) by auto
    moreover have "getLoadPlan L i = None" using that Cons.prems(4) by auto
    ultimately show ?thesis using that L2(5) by (simp add: L1(4) extend_plans_def)
  qed
  then have "mf_served E mf L2"
    unfolding mf_served_def using mf_segments_lookup [OF L1(3) dist(2)] by (simp add: look)
  moreover have "\<forall>i. i \<notin> (\<Union>mf\<in>set (mf # mfs). mf_mi_ids mf) \<longrightarrow> getLoadPlan L2 i = getLoadPlan L i"
    using L2(5) by (simp add: L1(4) extend_plans_def)
  moreover have "fst ` set (new @ new') \<subseteq> mbb_id ` set (all_mbbs (mf # mfs))"
  proof -
    have "fst ` set (new @ new') \<subseteq> mbb_id ` set (mf_mbbs mf) \<union> mbb_id ` set (all_mbbs mfs)"
      using ids L2(4) by auto
    then show ?thesis by (simp only: list.map concat.simps set_append image_Un)
  qed
  ultimately show ?case
    using L1(1,2) L2(1-3) by (intro exI [of _ L2] exI [of _ "new @ new'"]) simp
qed

lemma err_fold_no_entry:
  assumes "list_all (\<lambda>mf. list_all wf_mbb (mf_mbbs mf)) mfs"
    and "\<not> list_all (\<lambda>mf. entry_vgpr E mf \<noteq> NoRegister) mfs"
  shows "\<exists>e L'. err_fold (calculate_mf E kinds ma ms) mfs L = Inl (e, L') \<and>
    e \<in> {NoEntryStorage, EntryNotInVGPR}"
  using assms
proof (induction mfs arbitrary: L)
  case Nil
  then show ?case by simp
next
  case (Cons mf mfs)
  show ?case
  proof (cases "entry_vgpr E mf = NoRegister")
    case True
    then show ?thesis using calculate_mf_error [OF True, of kinds ma ms L] by auto
  next
    case False
    then obtain L1 where "calculate_mf E kinds ma ms mf L = Inr L1"
      using calculate_mf_walk [OF _ False] Cons.prems(1) by fastforce
    with Cons False show ?thesis by simp
  qed
qed

subsection \<open>Two functions that share no free VGPR\<close>

definition block_a :: tmbb where
  "block_a = \<lparr>mbb_id = 0, mbb_mis = [\<lparr>mi_id = 0, mi_slot = 10\<rparr>, \<lparr>mi_id = 1, mi_slot = 20\<rparr>], mbb_start = 0,
     mbb_end = 30, mbb_vector = True, succ_active = [], succ_inactive = []\<rparr>"

definition block_b :: tmbb where
  "block_b = \<lparr>mbb_id = 1, mbb_mis = [\<lparr>mi_id = 2, mi_slot = 10\<rparr>], mbb_start = 0,
     mbb_end = 20, mbb_vector = True, succ_active = [{VGPR 0}], succ_inactive = []\<rparr>"

definition mf_using :: "mcreg list \<Rightarrow> tmbb list \<Rightarrow> tmf" where
  "mf_using used bs = \<lparr>mf_mbbs = bs, isAllocatable = \<lambda>r. True, isPhysRegUsed = \<lambda>r. r \<in> set used,
     num_vgpr_attr = None, num_sgpr_attr = None\<rparr>"

definition mf_low :: tmf where "mf_low = mf_using [VGPR 0, VGPR 1] [block_a]"
definition mf_high :: tmf where "mf_high = mf_using [VGPR 2, VGPR 3] [block_b]"
definition mf_full :: tmf where "mf_full = mf_using [VGPR 0, VGPR 1, VGPR 2, VGPR 3] [block_b]"

text \<open>An environment with two free AGPRs and one without any.\<close>

definition env_with :: "mcreg list \<Rightarrow> loc_env" where
  "env_with agprs = \<lparr>ExceedNumRegs = True, VGPR_32RegClass = [VGPR 0, VGPR 1, VGPR 2, VGPR 3],
     AGPR_32RegClass = agprs, SGPR_32RegClass = [], subregs = \<lambda>r. {r},
     stepBackward = \<lambda>i live. live, hook_mis = [1, 2], env_target = mai_absolute_fs\<rparr>"

definition tight_env :: loc_env where "tight_env = env_with [AGPR 0, AGPR 1]"
definition no_agpr_env :: loc_env where "no_agpr_env = env_with []"

lemmas example_mfs = block_a_def block_b_def mf_using_def mf_low_def mf_high_def mf_full_def
  env_with_def tight_env_def no_agpr_env_def fixed_choice_def findFixedStateValueArrayStorage_def
  scavengeFreeRegister_all_def scavengeFreeRegisters_all_def first_or_none_def free_in_all_def
  isWithinDeclaredCap_all_def max_used_def getSupportedSVAStorageList_eq storage_kinds_def
  example_targets Let_def

lemmas shuffle_eval = distinct_objects_def mf_mi_ids_def mi_ids_def wf_mbb_def ordered_slots_def
  entry_vgpr_def scavengeFreeRegister_def free_in_def isWithinDeclaredCap_def

subsection \<open>The chosen storage\<close>

text \<open>
  The register classes hold registers of their kind, each once. All targets with architected flat
  scratch (gfx940 and later) have the instructions of gfx90a.
\<close>

definition reg_classes_ok :: "loc_env \<Rightarrow> bool" where
  "reg_classes_ok E \<longleftrightarrow>
     list_all is_vgpr (VGPR_32RegClass E) \<and> list_all is_agpr (AGPR_32RegClass E) \<and>
     list_all is_sgpr (SGPR_32RegClass E) \<and>
     distinct (AGPR_32RegClass E) \<and> distinct (SGPR_32RegClass E) \<and>
     (hasArchitectedFlatScratch (env_target E) \<longrightarrow> hasGFX90AInsts (env_target E))"

lemma scavenge_loop_ok:
  "list_all P rs \<Longrightarrow> list_all P (scavenge_loop free n rs 0 [])"
  "distinct rs \<Longrightarrow> distinct (scavenge_loop free n rs 0 [])"
  by (auto simp: scavenge_loop_eq list_all_iff dest: in_set_takeD)

lemma supported_target:
  "getScheme s = k \<Longrightarrow> isSupportedOnSubTarget k st \<Longrightarrow>
   (hasArchitectedFlatScratch st \<longrightarrow> hasGFX90AInsts st) \<Longrightarrow> storage_target st s"
  by (cases s) auto

lemma fixed_choice_wf:
  assumes "fixed_choice E mfs = Some s" and "reg_classes_ok E"
  shows "storage_wf s \<and> storage_target (env_target E) s"
proof (cases "scavengeFreeRegister_all E mfs (VGPR_32RegClass E) = NoRegister")
  case True
  let ?kinds = "getSupportedSVAStorageList (env_target E) []"
  let ?AGPRs = "scavengeFreeRegisters_all E mfs (AGPR_32RegClass E) (max_used getNumAGPRsUsed ?kinds)"
  let ?SGPRs = "scavengeFreeRegisters_all E mfs (SGPR_32RegClass E) (max_used getNumSGPRsUsed ?kinds)"
  from assms(1) True have "pick_scheme ?kinds ?AGPRs ?SGPRs = Some s"
    by (simp add: fixed_choice_def findFixedStateValueArrayStorage_def Let_def)
  then have kind: "getScheme s \<in> set ?kinds" "createSVAStorage [] ?AGPRs ?SGPRs (getScheme s) = Inr s"
    using pick_scheme_kind by blast+
  have "storage_wf s"
    using createSVAStorage_wf [OF kind(2)] assms(2) scavenge_loop_ok
    by (simp add: reg_classes_ok_def scavengeFreeRegisters_all_def)
  moreover have "isSupportedOnSubTarget (getScheme s) (env_target E)"
    using kind(1) by (simp add: getSupportedSVAStorageList_eq)
  ultimately show ?thesis
    using supported_target assms(2) by (simp add: reg_classes_ok_def)
next
  case False
  then have "scavengeFreeRegister_all E mfs (VGPR_32RegClass E) \<in> set (VGPR_32RegClass E)"
    using first_or_none_free unfolding scavengeFreeRegister_all_def by blast
  with assms False show ?thesis
    by (auto simp: fixed_choice_def findFixedStateValueArrayStorage_def reg_classes_ok_def list_all_iff)
qed

lemma fixed_choice_agpr:
  assumes "fixed_choice E mfs = Some s"
    and "getScheme s \<in> {SVS_TWO_AGPRs, SVS_SINGLE_AGPR_WITH_THREE_SGPRS_pre_gfx908}"
  shows "\<exists>a. a \<in> set (getAllStorageRegisters s []) \<and> a \<in> set (AGPR_32RegClass E)"
proof -
  let ?kinds = "getSupportedSVAStorageList (env_target E) []"
  let ?AGPRs = "scavengeFreeRegisters_all E mfs (AGPR_32RegClass E) (max_used getNumAGPRsUsed ?kinds)"
  let ?SGPRs = "scavengeFreeRegisters_all E mfs (SGPR_32RegClass E) (max_used getNumSGPRsUsed ?kinds)"
  have "scavengeFreeRegister_all E mfs (VGPR_32RegClass E) = NoRegister"
    using assms by (auto simp: fixed_choice_def findFixedStateValueArrayStorage_def Let_def split: if_splits)
  with assms(1) have "pick_scheme ?kinds ?AGPRs ?SGPRs = Some s"
    by (simp add: fixed_choice_def findFixedStateValueArrayStorage_def Let_def)
  then have create: "createSVAStorage [] ?AGPRs ?SGPRs (getScheme s) = Inr s"
    using pick_scheme_kind by blast
  have "?AGPRs \<noteq> []" using create assms(2) by (auto simp: err_bind_Inr_iff)
  moreover have "hd ?AGPRs \<in> set (getAllStorageRegisters s [])" if "?AGPRs \<noteq> []"
    using createSVAStorage_result(2) [OF create] assms(2) that by (cases ?AGPRs) auto
  moreover have "set ?AGPRs \<subseteq> set (AGPR_32RegClass E)"
    using scavenge_loop_sound [of "free_in_all E mfs"] by (fastforce simp: scavengeFreeRegisters_all_def)
  ultimately show ?thesis by (meson hd_in_set subsetD)
qed

lemma calculate_fixed_storage:
  assumes "calculate_fixed E mfs s no_locations = Inr L" and "getLoadPlan L i = Some p"
  shows "StorageLocation p = s"
proof -
  have add: "\<forall>i p. getLoadPlan (fold (\<lambda>i L. case mf_of mfs i of None \<Rightarrow> L | Some mf \<Rightarrow> add_plan E mf s c i L) is L)
      i = Some p \<longrightarrow> StorageLocation p = s"
    if "\<forall>i p. getLoadPlan L i = Some p \<longrightarrow> StorageLocation p = s" for "is" c L
    using that
  proof (induction "is" arbitrary: L)
    case Nil
    then show ?case by simp
  next
    case (Cons j js)
    have "\<forall>i p. getLoadPlan (case mf_of mfs j of None \<Rightarrow> L | Some mf \<Rightarrow> add_plan E mf s c j L) i = Some p \<longrightarrow>
        StorageLocation p = s"
      using Cons.prems
      by (auto simp: getLoadPlan_add_plan_eq extend_plans_def plan_for_def split: option.splits)
    from Cons.IH [OF this] show ?case by simp
  qed
  obtain L' where L': "err_fold (\<lambda>b. add_segment (mbb_id b) (mbb_start b) (mbb_end b) (0, s))
      (concat (map mf_mbbs mfs)) (no_locations\<lparr>made := 1\<rparr>) = Inr L'"
    and L: "L = fold (\<lambda>i L. case mf_of mfs i of None \<Rightarrow> L | Some mf \<Rightarrow> add_plan E mf s True i L) (hook_mis E) L'"
    using assms(1) by (auto simp: calculate_fixed_def no_locations_def err_bind_Inr_iff)
  have "\<forall>i p. getLoadPlan L' i = Some p \<longrightarrow> StorageLocation p = s"
    using err_fold_segments [OF L'] by (simp add: getLoadPlan_def no_locations_def)
  from add [OF this, of True "hook_mis E"] assms(2) show ?thesis unfolding L by blast
qed

lemma first_or_none_NoRegister:
  "NoRegister \<notin> set rc \<Longrightarrow> first_or_none free rc = NoRegister \<longleftrightarrow> (\<forall>r\<in>set rc. \<not> free r)"
  by (auto simp: first_or_none_def filter_empty_conv split: list.splits dest: filter_eq_ConsD)

text \<open>The load register of a payload when the storage is fixed.\<close>

lemma load_location:
  assumes "requiresLoadAndStoreBeforeUse svs"
    and "NoRegister \<notin> set (VGPR_32RegClass E) \<union> set (AGPR_32RegClass E)"
  shows "let (v, c) = selectVGPRLoadLocationForInjectedPayload E mf svs True
    in if c then \<forall>r\<in>set (VGPR_32RegClass E) \<union> set (AGPR_32RegClass E). \<not> free_in E mf r
       else free_in E mf v \<and> v \<in> set (VGPR_32RegClass E) \<union> set (AGPR_32RegClass E)"
proof -
  let ?v = "first_or_none (free_in E mf) (rev (VGPR_32RegClass E))"
  let ?a = "first_or_none (free_in E mf) (rev (AGPR_32RegClass E))"
  have def: "selectVGPRLoadLocationForInjectedPayload E mf svs True =
      (let a = if ?v = NoRegister then ?a else ?v in
       if a \<noteq> NoRegister then (a, False)
       else let u = first_or_none (isPhysRegUsed mf) (VGPR_32RegClass E)
            in (if u = NoRegister then VGPR 0 else u, True))"
    using assms(1) by (simp add: selectVGPRLoadLocationForInjectedPayload_def scavengeFreeRegister_def Let_def)
  have none: "?v = NoRegister \<longleftrightarrow> (\<forall>r\<in>set (VGPR_32RegClass E). \<not> free_in E mf r)"
    "?a = NoRegister \<longleftrightarrow> (\<forall>r\<in>set (AGPR_32RegClass E). \<not> free_in E mf r)"
    using assms(2) by (simp_all add: first_or_none_NoRegister)
  have some: "?v \<noteq> NoRegister \<Longrightarrow> free_in E mf ?v \<and> ?v \<in> set (VGPR_32RegClass E)"
    "?a \<noteq> NoRegister \<Longrightarrow> free_in E mf ?a \<and> ?a \<in> set (AGPR_32RegClass E)"
    using first_or_none_free by fastforce+
  consider "?v \<noteq> NoRegister" | "?v = NoRegister" "?a \<noteq> NoRegister" | "?v = NoRegister" "?a = NoRegister"
    by blast
  then show ?thesis
  proof cases
    case 1
    with some(1) show ?thesis by (simp add: def)
  next
    case 2
    with some(2) show ?thesis by (simp add: def)
  next
    case 3
    with none show ?thesis by (simp add: def Let_def ball_Un)
  qed
qed

subsection \<open>Properties\<close>

lemma no_locations_fresh:
  "fst ` set (intervals no_locations) \<inter> X = {}"
  "\<forall>mf\<in>S. dom (getLoadPlan no_locations) \<inter> mf_mi_ids mf = {}"
  by (auto simp: no_locations_def getLoadPlan_def)

lemma shuffling_served:
  assumes "fixed_choice E mfs = None" and "mfs \<noteq> []"
    and "list_all (\<lambda>mf. list_all wf_mbb (mf_mbbs mf) \<and> entry_vgpr E mf \<noteq> NoRegister) mfs"
    and "distinct_objects mfs"
  shows "\<exists>L. calculate E mfs no_locations = Inr L \<and> list_all (\<lambda>mf. mf_served E mf L) mfs"
  using err_fold_served [OF assms(3,4) no_locations_fresh]
  by (simp add: calculate_split [OF assms(2)] assms(1) Let_def) blast

lemma shuffling_fails:
  assumes "fixed_choice E mfs = None" and "mfs \<noteq> []"
    and "list_all (\<lambda>mf. list_all wf_mbb (mf_mbbs mf)) mfs"
    and "\<not> list_all (\<lambda>mf. entry_vgpr E mf \<noteq> NoRegister) mfs"
  shows "\<exists>e L. calculate E mfs no_locations = Inl (e, L) \<and> e \<in> {NoEntryStorage, EntryNotInVGPR}"
  using err_fold_no_entry [OF assms(3,4)]
  by (simp add: calculate_split [OF assms(2)] assms(1) Let_def)

text \<open>All blocks of a function have their segments in one storage.\<close>

lemma calculate_one_storage:
  assumes "calculate E mfs no_locations = Inr L" and "mfs \<noteq> []" and "distinct_objects mfs"
    and "list_all (\<lambda>mf. list_all wf_mbb (mf_mbbs mf)) mfs" and "mf \<in> set mfs"
  shows "\<exists>svs. \<forall>b\<in>set (mf_mbbs mf). \<forall>(s, e, p)\<in>set (getStorageIntervals L (mbb_id b)). snd p = svs"
proof (cases "fixed_choice E mfs")
  case (Some svs)
  with assms(1,2) have "calculate_fixed E mfs svs no_locations = Inr L" by (simp add: calculate_split)
  then obtain L' where L': "err_fold (\<lambda>b. add_segment (mbb_id b) (mbb_start b) (mbb_end b) (0, svs))
      (concat (map mf_mbbs mfs)) (no_locations\<lparr>made := 1\<rparr>) = Inr L'" and "intervals L = intervals L'"
    by (auto simp: calculate_fixed_def no_locations_def err_bind_Inr_iff)
  with err_fold_segments [OF L'] have "\<forall>(b, s, e, p)\<in>set (intervals L). p = (0, svs)"
    by (auto simp: no_locations_def)
  then show ?thesis by (intro exI [of _ svs]) (auto simp: getStorageIntervals_def)
next
  case None
  have "entry_vgpr E mf \<noteq> NoRegister" if "mf \<in> set mfs" for mf
    using shuffling_fails [OF None assms(2,4)] assms(1) that by (auto simp: list_all_iff)
  with assms(4) have "list_all (\<lambda>mf. list_all wf_mbb (mf_mbbs mf) \<and> entry_vgpr E mf \<noteq> NoRegister) mfs"
    by (simp add: list_all_iff)
  from shuffling_served [OF None assms(2) this assms(3)] assms(1,5) show ?thesis
    by (intro exI [of _ "VGPRStateValueArrayStorage (entry_vgpr E mf)"]) (auto simp: mf_served_def list_all_iff)
qed

lemma fixed_choice_free:
  assumes "fixed_choice E mfs = Some svs" and "r \<in> set (getAllStorageRegisters svs [])"
    and "mf \<in> set mfs"
  shows "isAllocatable mf r \<and> \<not> isPhysRegUsed mf r \<and> isWithinDeclaredCap E mf r"
proof -
  have "free_in_all E mfs r"
    using findFixed_free(1) [OF assms(1) [unfolded fixed_choice_def Let_def]] assms(2) by blast
  then have "isWithinDeclaredCap_all E mfs r"
    and all: "list_all (\<lambda>mf. isAllocatable mf r \<and> \<not> isPhysRegUsed mf r) mfs"
    by (simp_all add: free_in_all_def)
  then have "isWithinDeclaredCap E mf r"
    using assms(3) by (cases "ExceedNumRegs E")
      (auto simp: isWithinDeclaredCap_all_def list_all_iff, simp add: isWithinDeclaredCap_def)
  with all assms(3) show ?thesis by (simp add: list_all_iff)
qed

lemma getStorageIntervals_map:
  assumes "distinct (map mbb_id bs)" and "b \<in> set bs"
    and "intervals L = map (\<lambda>b. (mbb_id b, mbb_start b, mbb_end b, p)) bs"
  shows "getStorageIntervals L (mbb_id b) = [(mbb_start b, mbb_end b, p)]"
  using assms(1,2) unfolding getStorageIntervals_def assms(3)
proof (induction bs)
  case Nil
  then show ?case by simp
next
  case (Cons c bs)
  show ?case
  proof (cases "b = c")
    case True
    with Cons.prems(1) have "mbb_id b \<notin> fst ` set (map (\<lambda>b. (mbb_id b, mbb_start b, mbb_end b, p)) bs)"
      by (simp add: image_image)
    then have "filter (\<lambda>e. fst e = mbb_id b)
        (map (\<lambda>b. (mbb_id b, mbb_start b, mbb_end b, p)) bs) = []"
      by (rule filter_ids_none)
    with True show ?thesis by simp
  next
    case False
    with Cons.prems(2) have b: "b \<in> set bs" by simp
    then have "mbb_id b \<in> mbb_id ` set bs" by (rule imageI)
    with Cons.prems(1) have "mbb_id b \<noteq> mbb_id c" by auto
    with b Cons show ?thesis by simp
  qed
qed

text \<open>
  C7: When the analysis finds a place for the array that no function of the module uses, it succeeds
  and every block has exactly one segment, from its start to its end, with one shared storage object;
  the module then counts as having a fixed storage. All registers of the storage are allocatable,
  unused and within the declared register budget in every function of the module, and every
  instrumentation point of the module has a load plan.
\<close>

theorem fixed_storage_serves_every_block:
  assumes "fixed_choice E mfs = Some svs"
    and "all_mbbs mfs \<noteq> []" and "distinct (map mbb_id (all_mbbs mfs))"
    and "list_all (\<lambda>b. mbb_start b \<le> mbb_end b) (all_mbbs mfs)"
  shows "\<exists>L. calculate E mfs no_locations = Inr L \<and> hasFixedStorageAcrossAllFunctions L \<and>
    (\<forall>b\<in>set (all_mbbs mfs). getStorageIntervals L (mbb_id b) = [(mbb_start b, mbb_end b, (0, svs))]) \<and>
    (\<forall>r\<in>set (getAllStorageRegisters svs []). \<forall>mf\<in>set mfs.
       isAllocatable mf r \<and> \<not> isPhysRegUsed mf r \<and> isWithinDeclaredCap E mf r) \<and>
    (\<forall>i\<in>set (hook_mis E). getLoadPlan L i = None \<longleftrightarrow> mf_of mfs i = None)"
proof -
  have "mfs \<noteq> []" using assms(2) by auto
  with assms(1) have calc: "calculate E mfs no_locations = calculate_fixed E mfs svs no_locations"
    by (simp add: calculate_split)
  from calculate_fixed_result [OF assms(4), of E svs] obtain L where
    L: "calculate_fixed E mfs svs no_locations = Inr L"
      "intervals L = map (\<lambda>b. (mbb_id b, mbb_start b, mbb_end b, (0, svs))) (all_mbbs mfs)"
      "plan_dom L = {i \<in> set (hook_mis E). mf_of mfs i \<noteq> None}"
    by blast
  have "list_all (\<lambda>(b, s, e, p). p = (0, svs)) (intervals L)"
    by (simp add: L(2) list_all_iff)
  then have "hasFixedStorageAcrossAllFunctions L"
    using hasFixed_const [of "(0, svs)" L] assms(2) L(2) by simp
  moreover have "\<forall>r\<in>set (getAllStorageRegisters svs []). \<forall>mf\<in>set mfs.
      isAllocatable mf r \<and> \<not> isPhysRegUsed mf r \<and> isWithinDeclaredCap E mf r"
    using fixed_choice_free [OF assms(1)] by blast
  moreover have "\<forall>i\<in>set (hook_mis E). getLoadPlan L i = None \<longleftrightarrow> mf_of mfs i = None"
  proof
    fix i
    assume "i \<in> set (hook_mis E)"
    then have "i \<in> plan_dom L \<longleftrightarrow> mf_of mfs i \<noteq> None" by (simp add: L(3))
    then show "getLoadPlan L i = None \<longleftrightarrow> mf_of mfs i = None" by (auto simp: plan_dom_def)
  qed
  moreover have "\<forall>b\<in>set (all_mbbs mfs).
      getStorageIntervals L (mbb_id b) = [(mbb_start b, mbb_end b, (0, svs))]"
    using getStorageIntervals_map [OF assms(3) _ L(2)] by blast
  ultimately show ?thesis
    using L(1) unfolding calc by blast
qed

theorem fixed_storage_serves_every_block_witness:
  "fixed_choice tight_env [mf_low, mf_high] = Some (TwoAGPRValueStorage (AGPR 0) (AGPR 1)) \<and>
   (\<exists>L. calculate tight_env [mf_low, mf_high] no_locations = Inr L \<and>
      getStorageIntervals L 0 = [(0, 30, (0, TwoAGPRValueStorage (AGPR 0) (AGPR 1)))])"
proof -
  have f: "fixed_choice tight_env [mf_low, mf_high] = Some (TwoAGPRValueStorage (AGPR 0) (AGPR 1))"
    by (simp add: example_mfs)
  have "all_mbbs [mf_low, mf_high] \<noteq> []" "distinct (map mbb_id (all_mbbs [mf_low, mf_high]))"
    "list_all (\<lambda>b. mbb_start b \<le> mbb_end b) (all_mbbs [mf_low, mf_high])"
    by (simp_all add: example_mfs)
  from fixed_storage_serves_every_block [OF f this] f show ?thesis
    by (auto simp: example_mfs)
qed

text \<open>
  C8: When there is no fixed place, but every function has a free VGPR, the analysis succeeds. In
  every block the segments run without a gap from the block's start to its end, and all of them keep
  the array in the same VGPR of the function: a relocation never moves it, although the code asks for
  a new place at every instruction where the storage registers are live. Every instrumentation point
  loads from that VGPR and clobbers nothing.
\<close>

theorem shuffling_never_moves_the_array:
  assumes "fixed_choice E mfs = None" and "mfs \<noteq> []" and "distinct_objects mfs"
    and "list_all (\<lambda>mf. list_all wf_mbb (mf_mbbs mf) \<and> entry_vgpr E mf \<noteq> NoRegister) mfs"
  shows "\<exists>L. calculate E mfs no_locations = Inr L \<and> list_all (\<lambda>mf. mf_served E mf L) mfs"
  using shuffling_served [OF assms(1,2,4,3)] by blast

theorem shuffling_never_moves_the_array_witness:
  "\<exists>L. calculate no_agpr_env [mf_low, mf_high] no_locations = Inr L \<and> mf_served no_agpr_env mf_low L"
proof -
  have "fixed_choice no_agpr_env [mf_low, mf_high] = None" "distinct_objects [mf_low, mf_high]"
    "list_all (\<lambda>mf. list_all wf_mbb (mf_mbbs mf) \<and> entry_vgpr no_agpr_env mf \<noteq> NoRegister)
       [mf_low, mf_high]"
    by (simp_all add: example_mfs shuffle_eval)
  from shuffling_never_moves_the_array [OF this(1) _ this(2,3)] show ?thesis by auto
qed

text \<open>
  Without a fixed place the analysis succeeds exactly when every function has a free VGPR of its
  own. Otherwise it reports that a function has no entry storage or that its entry storage is not a
  VGPR; the report that a relocation failed cannot occur.
\<close>

lemma shuffling_outcome:
  assumes "fixed_choice E mfs = None" and "mfs \<noteq> []" and "distinct_objects mfs"
    and "list_all (\<lambda>mf. list_all wf_mbb (mf_mbbs mf)) mfs"
  shows "if list_all (\<lambda>mf. entry_vgpr E mf \<noteq> NoRegister) mfs
     then \<exists>L. run_locations_analysis E mfs = (L, None)
     else \<exists>L e. run_locations_analysis E mfs = (L, Some e) \<and> e \<in> {NoEntryStorage, EntryNotInVGPR}"
proof (cases "list_all (\<lambda>mf. entry_vgpr E mf \<noteq> NoRegister) mfs")
  case True
  have "list_all (\<lambda>mf. list_all wf_mbb (mf_mbbs mf) \<and> entry_vgpr E mf \<noteq> NoRegister) mfs"
    using assms(4) True by (auto simp: list_all_iff)
  from shuffling_served [OF assms(1,2) this assms(3)] True show ?thesis
    by (auto simp: run_locations_analysis_def)
next
  case False
  from shuffling_fails [OF assms(1,2,4) False] False show ?thesis
    by (auto simp: run_locations_analysis_def)
qed

lemma shuffling_outcome_instance:
  "\<exists>L e. run_locations_analysis no_agpr_env [mf_low, mf_full] = (L, Some e)"
proof -
  have "fixed_choice no_agpr_env [mf_low, mf_full] = None" "distinct_objects [mf_low, mf_full]"
    "list_all (\<lambda>mf. list_all wf_mbb (mf_mbbs mf)) [mf_low, mf_full]"
    "\<not> list_all (\<lambda>mf. entry_vgpr no_agpr_env mf \<noteq> NoRegister) [mf_low, mf_full]"
    by (simp_all add: example_mfs shuffle_eval)
  from shuffling_outcome [OF this(1) _ this(2,3)] this(4) show ?thesis by fastforce
qed

text \<open>
  With a fixed storage that must be loaded before use, the load register of an instrumentation
  point is free in its function when the plan says that nothing is clobbered, and when the plan says
  that an application register is clobbered, the function has no free VGPR or AGPR.
\<close>

lemma load_location_clobbers_only_without_free_register:
  assumes "requiresLoadAndStoreBeforeUse svs"
    and "NoRegister \<notin> set (VGPR_32RegClass E) \<union> set (AGPR_32RegClass E)"
  shows "let (v, c) = selectVGPRLoadLocationForInjectedPayload E mf svs True
    in if c then \<forall>r\<in>set (VGPR_32RegClass E) \<union> set (AGPR_32RegClass E). \<not> free_in E mf r
       else free_in E mf v \<and> v \<in> set (VGPR_32RegClass E) \<union> set (AGPR_32RegClass E)"
  using assms by (rule load_location)

lemma load_location_clobbers_only_without_free_register_instance:
  "selectVGPRLoadLocationForInjectedPayload tight_env mf_low (TwoAGPRValueStorage (AGPR 0) (AGPR 1)) True =
     (VGPR 3, False) \<and> free_in tight_env mf_low (VGPR 3)"
proof -
  have s: "requiresLoadAndStoreBeforeUse (TwoAGPRValueStorage (AGPR 0) (AGPR 1))"
    "NoRegister \<notin> set (VGPR_32RegClass tight_env) \<union> set (AGPR_32RegClass tight_env)"
    by (simp_all add: example_mfs)
  have "selectVGPRLoadLocationForInjectedPayload tight_env mf_low
      (TwoAGPRValueStorage (AGPR 0) (AGPR 1)) True = (VGPR 3, False)"
    by (simp add: selectVGPRLoadLocationForInjectedPayload_def example_mfs shuffle_eval)
  with load_location_clobbers_only_without_free_register [OF s, of mf_low] show ?thesis by simp
qed

text \<open>
  With a fixed storage in AGPRs, an instrumentation point in a function without a free VGPR is given
  an AGPR to load the array into, and nothing is spilled: the AGPRs of the storage itself count as free
  there. When they are the only free ones, the load register is one of the storage's own registers.
\<close>

lemma agpr_storage_loads_into_agpr:
  assumes "fixed_choice E mfs = Some s" and "mf \<in> set mfs" and "reg_classes_ok E"
    and "getScheme s \<in> {SVS_TWO_AGPRs, SVS_SINGLE_AGPR_WITH_THREE_SGPRS_pre_gfx908}"
    and "\<forall>r\<in>set (VGPR_32RegClass E). \<not> free_in E mf r"
  shows "let (v, c) = selectVGPRLoadLocationForInjectedPayload E mf s True
    in \<not> c \<and> is_agpr v \<and> free_in E mf v \<and>
       ((\<forall>r\<in>set (AGPR_32RegClass E). free_in E mf r \<longrightarrow> r \<in> set (getAllStorageRegisters s [])) \<longrightarrow>
         v \<in> set (getAllStorageRegisters s []))"
proof -
  obtain a where a: "a \<in> set (getAllStorageRegisters s [])" "a \<in> set (AGPR_32RegClass E)"
    using fixed_choice_agpr [OF assms(1,4)] by blast
  then have "free_in E mf a"
    using fixed_choice_free [OF assms(1) _ assms(2)] by (simp add: free_in_def)
  moreover have "NoRegister \<notin> set (VGPR_32RegClass E) \<union> set (AGPR_32RegClass E)"
    using assms(3) by (auto simp: reg_classes_ok_def list_all_iff)
  moreover have "requiresLoadAndStoreBeforeUse s" using assms(4) by (cases s) auto
  ultimately show ?thesis
    using load_location [of s E mf] assms(3,5) a(2)
    by (auto simp: reg_classes_ok_def list_all_iff split: if_splits prod.splits)
qed

lemma agpr_storage_loads_into_agpr_instance:
  "case selectVGPRLoadLocationForInjectedPayload tight_env mf_full (TwoAGPRValueStorage (AGPR 0) (AGPR 1)) True of
     (v, c) \<Rightarrow> \<not> c \<and> v \<in> {AGPR 0, AGPR 1}"
proof -
  have "fixed_choice tight_env [mf_low, mf_full] = Some (TwoAGPRValueStorage (AGPR 0) (AGPR 1))"
    "reg_classes_ok tight_env" "\<forall>r\<in>set (VGPR_32RegClass tight_env). \<not> free_in tight_env mf_full r"
    by (simp_all add: example_mfs shuffle_eval reg_classes_ok_def)
  from agpr_storage_loads_into_agpr [OF this(1) _ this(2) _ this(3)] show ?thesis
    by (auto simp: example_mfs split: prod.splits)
qed

end
