(* ===== verification/Branch_Relaxation.thy ===== *)
theory Branch_Relaxation
  imports SVA_Locations SVA_Specs
begin

text \<open>
  \<open>src/lib/ToolCodeGen/TargetModuleBranchRelaxation.cpp\<close>: the offsets of the machine blocks by
  which the relaxer decides that a branch reaches its target, and the code of a long branch, with the
  spill of an SGPR pair into lanes of the state value array when no pair is free. The block layout is
  a list; instruction sizes, the range of a branch encoding and the maximal code size are LLVM's
  answers. Offsets and sizes are 32 bits wide as in \<open>BasicBlockInfo\<close>.
\<close>

subsection \<open>Layout\<close>

record lbb =
  lbb_number :: nat
  lbb_sizes :: "nat list"
  lbb_log_align :: nat
  lbb_section :: nat

record bb_info =
  Offset :: "32 word"
  Size :: "32 word"

record relaxer =
  fun_log_align :: nat
  isBranchOffsetInRange :: "int \<Rightarrow> bool"
  getMaxCodeSize :: int

definition alignTo :: "nat \<Rightarrow> nat \<Rightarrow> nat" where
  "alignTo n k = (n + 2 ^ k - 1) div 2 ^ k * 2 ^ k"

definition postOffset :: "relaxer \<Rightarrow> bb_info \<Rightarrow> lbb \<Rightarrow> 32 word" where
  "postOffset R i b =
     (let po = Offset i + Size i
      in if lbb_log_align b \<le> fun_log_align R then of_nat (alignTo (unat po) (lbb_log_align b))
         else of_nat (alignTo (unat po) (lbb_log_align b) + 2 ^ lbb_log_align b - 2 ^ fun_log_align R))"

definition computeBlockSize :: "lbb \<Rightarrow> nat" where
  "computeBlockSize b = sum_list (lbb_sizes b)"

definition getInstrOffset :: "(nat \<Rightarrow> bb_info) \<Rightarrow> lbb \<Rightarrow> nat \<Rightarrow> 32 word" where
  "getInstrOffset info b n = fold (\<lambda>s off. off + of_nat s) (take n (lbb_sizes b)) (Offset (info (lbb_number b)))"

text \<open>The blocks after the one with number \<open>PrevNum\<close>.\<close>

fun adjust_after :: "relaxer \<Rightarrow> nat \<Rightarrow> lbb list \<Rightarrow> (nat \<Rightarrow> bb_info) \<Rightarrow> nat \<Rightarrow> bb_info" where
  "adjust_after R PrevNum [] info = info"
| "adjust_after R PrevNum (b # bs) info =
     adjust_after R (lbb_number b) bs
       (info(lbb_number b := (info (lbb_number b))\<lparr>Offset := postOffset R (info PrevNum) b\<rparr>))"

definition adjustBlockOffsets :: "relaxer \<Rightarrow> lbb list \<Rightarrow> (nat \<Rightarrow> bb_info) \<Rightarrow> nat \<Rightarrow> bb_info" where
  "adjustBlockOffsets R bs info =
     (case bs of [] \<Rightarrow> info | start # rest \<Rightarrow> adjust_after R (lbb_number start) rest info)"

definition record_size :: "lbb \<Rightarrow> (nat \<Rightarrow> bb_info) \<Rightarrow> nat \<Rightarrow> bb_info" where
  "record_size b info = info(lbb_number b := (info (lbb_number b))\<lparr>Size := of_nat (computeBlockSize b)\<rparr>)"

definition scanFunction :: "relaxer \<Rightarrow> lbb list \<Rightarrow> nat \<Rightarrow> bb_info" where
  "scanFunction R bs =
     adjustBlockOffsets R bs
       (fold record_size bs
         (\<lambda>_. \<lparr>Offset = 0, Size = 0\<rparr>))"

definition isBlockInRange :: "relaxer \<Rightarrow> (nat \<Rightarrow> bb_info) \<Rightarrow> lbb \<Rightarrow> nat \<Rightarrow> lbb \<Rightarrow> bool" where
  "isBlockInRange R info src n dest =
     (let BrOffset = int (unat (getInstrOffset info src n));
          DestOffset = int (unat (Offset (info (lbb_number dest))))
      in isBranchOffsetInRange R
           (if lbb_section src \<noteq> lbb_section dest then getMaxCodeSize R else DestOffset - BrOffset))"

subsection \<open>Where the blocks are placed\<close>

text \<open>
  The assembler aligns each block from the end of the previous one. The function starts at an address
  with its own alignment, which the relaxer does not know.
\<close>

fun place :: "nat \<Rightarrow> lbb list \<Rightarrow> nat list" where
  "place e [] = []"
| "place e (b # bs) = (let a = alignTo e (lbb_log_align b) in a # place (a + computeBlockSize b) bs)"

text \<open>The estimate of the relaxer, without wrap-around.\<close>

definition next_offset :: "relaxer \<Rightarrow> nat \<Rightarrow> lbb \<Rightarrow> nat" where
  "next_offset R e b =
     (if lbb_log_align b \<le> fun_log_align R then alignTo e (lbb_log_align b)
      else alignTo e (lbb_log_align b) + 2 ^ lbb_log_align b - 2 ^ fun_log_align R)"

fun estimate :: "relaxer \<Rightarrow> nat \<Rightarrow> lbb list \<Rightarrow> nat list" where
  "estimate R e [] = []"
| "estimate R e (b # bs) = (let a = next_offset R e b in a # estimate R (a + computeBlockSize b) bs)"

lemma length_place [simp]: "length (place e bs) = length bs"
  by (induction bs arbitrary: e) (simp_all add: Let_def)

lemma length_estimate [simp]: "length (estimate R e bs) = length bs"
  by (induction bs arbitrary: e) (simp_all add: Let_def)

lemma alignTo_bounds: "n \<le> alignTo n k" "alignTo n k < n + 2 ^ k" "2 ^ k dvd alignTo n k"
proof -
  let ?m = "n + 2 ^ k - 1"
  have "?m div 2 ^ k * 2 ^ k + ?m mod 2 ^ k = ?m" by (rule div_mult_mod_eq)
  moreover have "?m mod 2 ^ k < 2 ^ k" by simp
  moreover have "(1::nat) \<le> 2 ^ k" by simp
  ultimately show "n \<le> alignTo n k" "alignTo n k < n + 2 ^ k" unfolding alignTo_def by linarith+
qed (simp add: alignTo_def)

lemma alignTo_int:
  "0 \<le> int (alignTo n k) - int n" "int (alignTo n k) - int n < int (2 ^ k)"
  "int (2 ^ k) dvd int n + (int (alignTo n k) - int n)"
proof -
  have "int (alignTo n k) < int (n + 2 ^ k)"
    unfolding of_nat_less_iff by (rule alignTo_bounds)
  then show "int (alignTo n k) - int n < int (2 ^ k)" by simp
qed (simp_all add: alignTo_bounds(1), simp add: alignTo_def)

text \<open>
  One step: the estimate exceeds the place by a multiple of the function's alignment, and never by
  less than before.
\<close>

lemma surplus_step:
  assumes "int (2 ^ fun_log_align R) dvd int c + int base - int x" and base: "2 ^ fun_log_align R dvd base"
  shows "int (2 ^ fun_log_align R) dvd
      int (next_offset R c b) + int base - int (alignTo x (lbb_log_align b)) \<and>
    int c + int base - int x \<le> int (next_offset R c b) + int base - int (alignTo x (lbb_log_align b))"
proof -
  let ?k = "lbb_log_align b" and ?p = "fun_log_align R"
  define A where "A = int (2 ^ ?k)"
  define P where "P = int (2 ^ ?p)"
  define r where "r = int (alignTo x ?k) - int x"
  define s where "s = int (alignTo c ?k) - int c"
  have r: "0 \<le> r" "r < A" "A dvd int x + r"
    using alignTo_int [where n = x and k = ?k] by (simp_all add: r_def A_def)
  have s: "0 \<le> s" "s < A" "A dvd int c + s"
    using alignTo_int [where n = c and k = ?k] by (simp_all add: s_def A_def)
  have D: "P dvd int c + int base - int x" using assms(1) by (simp add: P_def)
  have B: "P dvd int base" using base by (simp add: P_def flip: int_dvd_int_iff)
  have cx: "P dvd int c - int x" using dvd_diff [OF D B] by simp
  show ?thesis
  proof (cases "?k \<le> ?p")
    case True
    then have AP: "A dvd P" unfolding A_def P_def by (simp add: le_imp_power_dvd)
    have "A dvd (int c + s) - (int x + r) - (int c - int x)"
      using dvd_diff [OF dvd_diff [OF s(3) r(3)] dvd_trans [OF AP cx]] .
    then have "A dvd s - r" by simp
    moreover have "\<bar>s - r\<bar> < A" using r s by linarith
    ultimately have "s = r" using zdvd_imp_le [of A "\<bar>s - r\<bar>"] by (cases "s = r") auto
    with True have eq: "int (next_offset R c b) + int base - int (alignTo x ?k) = int c + int base - int x"
      by (simp add: next_offset_def r_def s_def)
    show ?thesis unfolding eq using D by (simp add: P_def)
  next
    case False
    then have PA: "P dvd A" unfolding A_def P_def by (simp add: le_imp_power_dvd)
    have PleA: "P \<le> A" using False by (simp add: A_def P_def)
    have P0: "0 < P" by (simp add: P_def)
    have nxt: "int (next_offset R c b) = int c + s + A - P"
    proof -
      have "(2::nat) ^ ?p \<le> 2 ^ ?k" using False by simp
      then have "2 ^ ?p \<le> alignTo c ?k + 2 ^ ?k" by (rule trans_le_add2)
      then have "int (alignTo c ?k + 2 ^ ?k - 2 ^ ?p) = int (alignTo c ?k + 2 ^ ?k) - int (2 ^ ?p)"
        by (rule of_nat_diff)
      with False show ?thesis by (simp add: next_offset_def s_def A_def P_def)
    qed
    have "P dvd (int c + s) - (int x + r) - (int c - int x)"
      using dvd_diff [OF dvd_diff [OF dvd_trans [OF PA s(3)] dvd_trans [OF PA r(3)]] cx] .
    then have sr: "P dvd r - s" by (simp add: dvd_diff_commute)
    have "r - s \<le> A - P"
    proof (rule ccontr)
      assume "\<not> r - s \<le> A - P"
      then have "0 < A - (r - s)" "A - (r - s) < P" using r s by linarith+
      moreover have "P dvd A - (r - s)" using PA sr by (rule dvd_diff)
      ultimately show False using zdvd_imp_le by fastforce
    qed
    moreover have "P dvd int c + s + A - P + int base - int (alignTo x ?k)"
    proof -
      have "P dvd (int c + s) + (A - P) + int base - (int x + r)"
        by (intro dvd_diff [OF dvd_add [OF dvd_add]] dvd_diff [OF PA] B dvd_trans [OF PA s(3)]
            dvd_trans [OF PA r(3)] dvd_refl)
      then show ?thesis by (simp add: r_def algebra_simps)
    qed
    ultimately show ?thesis unfolding nxt by (simp add: r_def P_def)
  qed
qed

text \<open>The surplus of each block over its place.\<close>

definition surplus :: "nat \<Rightarrow> nat list \<Rightarrow> nat list \<Rightarrow> int list" where
  "surplus base os as = map2 (\<lambda>off a. int off + int base - int a) os as"

lemma surplus_sorted:
  assumes "2 ^ fun_log_align R dvd base"
    and "int (2 ^ fun_log_align R) dvd int c + int base - int x"
  shows "sorted (surplus base (estimate R c bs) (place x bs)) \<and>
    (\<forall>d\<in>set (surplus base (estimate R c bs) (place x bs)). int c + int base - int x \<le> d)"
  using assms(2)
proof (induction bs arbitrary: c x)
  case Nil
  then show ?case by (simp add: surplus_def)
next
  case (Cons b bs)
  let ?c = "next_offset R c b + computeBlockSize b" and ?x = "alignTo x (lbb_log_align b) + computeBlockSize b"
  let ?d = "int (next_offset R c b) + int base - int (alignTo x (lbb_log_align b))"
  from surplus_step [OF Cons.prems assms(1), of b]
  have step: "int (2 ^ fun_log_align R) dvd ?d" "int c + int base - int x \<le> ?d" by blast+
  have same: "int ?c + int base - int ?x = ?d" by simp
  from Cons.IH [of ?c ?x, unfolded same, OF step(1)] step(2)
  show ?case by (fastforce simp: surplus_def Let_def)
qed

subsection \<open>The block table\<close>

text \<open>
  Enough room for every block with two alignments: under this bound no 32-bit offset wraps around.
\<close>

definition code_bound :: "lbb list \<Rightarrow> nat" where
  "code_bound bs = (\<Sum>b\<leftarrow>bs. computeBlockSize b + 2 * 2 ^ lbb_log_align b)"

lemma next_offset_le: "next_offset R e b \<le> e + 2 * 2 ^ lbb_log_align b"
proof -
  let ?k = "lbb_log_align b"
  have "alignTo e ?k + 2 ^ ?k - 2 ^ fun_log_align R \<le> alignTo e ?k + 2 ^ ?k" by (rule diff_le_self)
  moreover have "alignTo e ?k < e + 2 ^ ?k" by (rule alignTo_bounds)
  ultimately have "alignTo e ?k + 2 ^ ?k - 2 ^ fun_log_align R \<le> e + 2 * 2 ^ ?k" "alignTo e ?k \<le> e + 2 * 2 ^ ?k"
    by linarith+
  then show ?thesis by (simp add: next_offset_def)
qed

lemma estimate_le:
  "i < length bs \<Longrightarrow> estimate R e bs ! i + computeBlockSize (bs ! i) \<le> e + code_bound bs"
proof (induction bs arbitrary: e i)
  case Nil
  then show ?case by simp
next
  case (Cons b bs)
  show ?case
  proof (cases i)
    case 0
    with next_offset_le [of R e b] show ?thesis by (simp add: Let_def code_bound_def)
  next
    case (Suc j)
    with Cons.IH [of j "next_offset R e b + computeBlockSize b"] Cons.prems next_offset_le [of R e b]
    show ?thesis by (simp add: Let_def code_bound_def)
  qed
qed

lemma postOffset_estimate:
  assumes "unat (Offset i) = e" and "unat (Size i) = z" and "e + z < 2 ^ 32"
  shows "postOffset R i b = of_nat (next_offset R (e + z) b)"
proof -
  have "unat (Offset i + Size i) = e + z" using assms by (simp add: unat_word_ariths)
  then show ?thesis by (simp add: postOffset_def next_offset_def)
qed

lemma unat_of_nat32: "n < 2 ^ 32 \<Longrightarrow> unat (of_nat n :: 32 word) = n"
  by (simp add: unsigned_of_nat take_bit_nat_eq_self)

lemma adjust_after_other:
  "n \<notin> lbb_number ` set bs \<Longrightarrow> adjust_after R m bs info n = info n"
  by (induction bs arbitrary: m info) auto

lemma adjust_after_size: "Size (adjust_after R m bs info n) = Size (info n)"
  by (induction bs arbitrary: m info) auto

lemma adjust_after_estimate:
  assumes "distinct (m # map lbb_number bs)" and "unat (Offset (info m)) + unat (Size (info m)) = e"
    and "\<forall>b\<in>set bs. Size (info (lbb_number b)) = of_nat (computeBlockSize b)"
    and "e + code_bound bs < 2 ^ 32" and "i < length bs"
  shows "unat (Offset (adjust_after R m bs info (lbb_number (bs ! i)))) = estimate R e bs ! i"
  using assms
proof (induction bs arbitrary: m info e i)
  case Nil
  then show ?case by simp
next
  case (Cons b bs)
  let ?n = "lbb_number b" and ?o = "next_offset R e b"
  let ?info = "info(?n := (info ?n)\<lparr>Offset := postOffset R (info m) b\<rparr>)"
  have le: "?o + computeBlockSize b + code_bound bs < 2 ^ 32"
    using next_offset_le [of R e b] Cons.prems(4) by (simp add: code_bound_def)
  have "postOffset R (info m) b = of_nat ?o"
    using postOffset_estimate [OF refl refl, of "info m" R b] Cons.prems(2,4) by simp
  then have o: "unat (Offset (?info ?n)) = ?o" using le by (simp add: unat_of_nat32)
  have z: "unat (Size (?info ?n)) = computeBlockSize b"
    using Cons.prems(3) le by (simp add: unat_of_nat32)
  show ?case
  proof (cases i)
    case 0
    have "adjust_after R ?n bs ?info ?n = ?info ?n"
      using Cons.prems(1) by (intro adjust_after_other) auto
    with 0 o show ?thesis by (simp add: Let_def)
  next
    case (Suc j)
    have "unat (Offset (adjust_after R ?n bs ?info (lbb_number (bs ! j)))) =
        estimate R (?o + computeBlockSize b) bs ! j"
      using Cons.prems(1,3,5) Suc o z le by (intro Cons.IH) auto
    with Suc show ?thesis by (simp add: Let_def)
  qed
qed

lemma fold_sizes_other:
  "n \<notin> lbb_number ` set bs \<Longrightarrow> fold record_size bs info n = info n"
  by (induction bs arbitrary: info) (auto simp: record_size_def)

lemma fold_sizes:
  "distinct (map lbb_number bs) \<Longrightarrow> b \<in> set bs \<Longrightarrow>
   Size (fold record_size bs info
     (lbb_number b)) = of_nat (computeBlockSize b)"
proof (induction bs arbitrary: info)
  case Nil
  then show ?case by simp
next
  case (Cons c bs)
  show ?case
  proof (cases "b = c")
    case True
    then have "fold record_size bs (record_size c info) (lbb_number b) = record_size c info (lbb_number b)"
      using Cons.prems by (intro fold_sizes_other) auto
    moreover have "Size (record_size c info (lbb_number b)) = of_nat (computeBlockSize b)"
      by (simp add: record_size_def True)
    ultimately show ?thesis by simp
  next
    case False
    with Cons show ?thesis by auto
  qed
qed

lemma fold_sizes_offset: "Offset (fold record_size bs info n) = Offset (info n)"
proof (induction bs arbitrary: info)
  case Nil
  then show ?case by simp
next
  case (Cons b bs)
  then show ?case by (simp add: record_size_def)
qed

text \<open>The first block is at offset 0; the others are estimated from its end.\<close>

definition estimated :: "relaxer \<Rightarrow> lbb list \<Rightarrow> nat list" where
  "estimated R bs = (case bs of [] \<Rightarrow> [] | b # rest \<Rightarrow> 0 # estimate R (computeBlockSize b) rest)"

lemma scanFunction_estimated:
  assumes "distinct (map lbb_number bs)" and "code_bound bs < 2 ^ 32" and "i < length bs"
  shows "unat (Offset (scanFunction R bs (lbb_number (bs ! i)))) = estimated R bs ! i"
proof (cases bs)
  case Nil
  with assms(3) show ?thesis by simp
next
  case (Cons b rest)
  define info where "info = fold record_size
    bs (\<lambda>_. \<lparr>Offset = 0, Size = 0\<rparr>)"
  have sizes: "Size (info (lbb_number c)) = of_nat (computeBlockSize c)" if "c \<in> set bs" for c
    unfolding info_def by (rule fold_sizes [OF assms(1) that])
  have off: "Offset (info n) = 0" for n by (simp add: info_def fold_sizes_offset)
  have scan: "scanFunction R bs = adjust_after R (lbb_number b) rest info"
    unfolding scanFunction_def adjustBlockOffsets_def info_def Cons by simp
  have bound: "computeBlockSize b + code_bound rest < 2 ^ 32" using assms(2) by (simp add: Cons code_bound_def)
  show ?thesis
  proof (cases i)
    case 0
    have "adjust_after R (lbb_number b) rest info (lbb_number b) = info (lbb_number b)"
      using assms(1) by (intro adjust_after_other) (auto simp: Cons)
    with 0 off show ?thesis by (simp add: scan) (simp add: Cons estimated_def)
  next
    case (Suc j)
    have "unat (Offset (adjust_after R (lbb_number b) rest info (lbb_number (rest ! j)))) =
        estimate R (computeBlockSize b) rest ! j"
    proof (rule adjust_after_estimate)
      show "distinct (lbb_number b # map lbb_number rest)" using assms(1) by (simp add: Cons)
      show "unat (Offset (info (lbb_number b))) + unat (Size (info (lbb_number b))) = computeBlockSize b"
        using sizes [of b] off bound by (simp add: Cons unat_of_nat32)
      show "\<forall>c\<in>set rest. Size (info (lbb_number c)) = of_nat (computeBlockSize c)"
        using sizes by (simp add: Cons)
    qed (use bound assms(3) Suc in \<open>simp_all add: Cons\<close>)
    with Suc show ?thesis by (simp add: scan) (simp add: Cons estimated_def)
  qed
qed

lemma place_ge: "\<forall>a\<in>set (place e bs). e \<le> a"
proof (induction bs arbitrary: e)
  case Nil
  then show ?case by simp
next
  case (Cons b bs)
  have "e \<le> alignTo e (lbb_log_align b)" by (rule alignTo_bounds)
  with Cons.IH [of "alignTo e (lbb_log_align b) + computeBlockSize b"] show ?case
    by (fastforce simp: Let_def)
qed

lemma place_mono:
  "i < j \<Longrightarrow> j < length bs \<Longrightarrow> place e bs ! i + computeBlockSize (bs ! i) \<le> place e bs ! j"
proof (induction bs arbitrary: e i j)
  case Nil
  then show ?case by simp
next
  case (Cons b bs)
  then obtain k where j: "j = Suc k" by (cases j) auto
  show ?case
  proof (cases i)
    case 0
    have "place (alignTo e (lbb_log_align b) + computeBlockSize b) bs ! k \<in>
        set (place (alignTo e (lbb_log_align b) + computeBlockSize b) bs)"
      using Cons.prems(2) j by (intro nth_mem) simp
    with place_ge [of "alignTo e (lbb_log_align b) + computeBlockSize b" bs] 0 j show ?thesis
      by (simp add: Let_def)
  next
    case (Suc l)
    with Cons.IH [of l k] Cons.prems j show ?thesis by (simp add: Let_def)
  qed
qed

lemma estimated_surplus:
  assumes "bs \<noteq> []" and base: "2 ^ fun_log_align R dvd base" and "lbb_log_align (hd bs) \<le> fun_log_align R"
    and "i \<le> j" and "j < length bs"
  shows "int (estimated R bs ! i) - int (place base bs ! i) \<le> int (estimated R bs ! j) - int (place base bs ! j)"
proof -
  obtain b rest where bs: "bs = b # rest" using assms(1) by (cases bs) auto
  have "2 ^ lbb_log_align b dvd base"
    using assms(3) base by (auto simp: bs intro: dvd_trans le_imp_power_dvd)
  then have first: "alignTo base (lbb_log_align b) = base"
  proof -
    assume A: "2 ^ lbb_log_align b dvd base"
    have "2 ^ lbb_log_align b dvd alignTo base (lbb_log_align b)" by (simp add: alignTo_def)
    from this A have "2 ^ lbb_log_align b dvd alignTo base (lbb_log_align b) - base" by (rule dvd_diff_nat)
    moreover have "alignTo base (lbb_log_align b) - base < 2 ^ lbb_log_align b"
      using alignTo_bounds(1,2) [of base "lbb_log_align b"] by linarith
    ultimately have "alignTo base (lbb_log_align b) - base = 0" using dvd_imp_le by fastforce
    with alignTo_bounds(1) [of base "lbb_log_align b"] show ?thesis by simp
  qed
  let ?S = "surplus base (estimate R (computeBlockSize b) rest) (place (base + computeBlockSize b) rest)"
  have lists: "estimated R bs = 0 # estimate R (computeBlockSize b) rest"
    "place base bs = base # place (base + computeBlockSize b) rest"
    by (simp_all add: bs estimated_def first Let_def)
  have "sorted ?S \<and> (\<forall>d\<in>set ?S. int (computeBlockSize b) + int base - int (base + computeBlockSize b) \<le> d)"
    by (rule surplus_sorted [OF base]) simp
  then have "sorted (surplus base (estimated R bs) (place base bs))"
    unfolding lists by (simp add: surplus_def)
  moreover have "length (estimated R bs) = length bs" by (simp add: bs estimated_def)
  moreover from this have "surplus base (estimated R bs) (place base bs) ! k =
      int (estimated R bs ! k) + int base - int (place base bs ! k)" if "k < length bs" for k
    using that by (simp add: surplus_def)
  ultimately show ?thesis
    using assms(4,5) sorted_nth_mono [of "surplus base (estimated R bs) (place base bs)" i j]
    by (simp add: surplus_def)
qed

lemma getInstrOffset_sum:
  assumes "unat (Offset (info (lbb_number b))) + computeBlockSize b < 2 ^ 32"
  shows "unat (getInstrOffset info b n) = unat (Offset (info (lbb_number b))) + sum_list (take n (lbb_sizes b))"
proof -
  have "unat (fold (\<lambda>s off. off + of_nat s) ss (w :: 32 word)) = unat w + sum_list ss"
    if "unat w + sum_list ss < 2 ^ 32" for ss w
    using that
  proof (induction ss arbitrary: w)
    case Nil
    then show ?case by simp
  next
    case (Cons s ss)
    then have "unat (w + of_nat s) = unat w + s"
      by (simp add: unat_word_ariths unat_of_nat32)
    with Cons show ?case by simp
  qed
  moreover have "sum_list (take n (lbb_sizes b)) \<le> computeBlockSize b"
    unfolding computeBlockSize_def
    using sum_list_append [of "take n (lbb_sizes b)" "drop n (lbb_sizes b)"] by simp
  ultimately show ?thesis using assms by (simp add: getInstrOffset_def)
qed

subsection \<open>The long branch\<close>

text \<open>
  The instructions of the jump with their meaning in \<open>SOP1Sem.td\<close> and \<open>SOP2Sem.td\<close>: \<open>S_GETPC_B64\<close>
  gives the address of the next instruction, which carries the label the offset is taken from.
\<close>

datatype jump_inst =
    S_GETPC_B64 mcreg mcreg
  | S_WAITCNT_DEPCTR
  | S_ADD_U32 mcreg "32 word"
  | S_ADDC_U32 mcreg "32 word"
  | S_SETPC_B64 mcreg mcreg

definition add_with_carry :: "mcreg \<Rightarrow> 32 word \<Rightarrow> bool \<Rightarrow> gpu \<Rightarrow> gpu" where
  "add_with_carry r imm c g =
     (let tmp = ucast (sregs g r) + ucast imm + (if c then 1 else 0) :: 64 word
      in g\<lparr>sregs := (sregs g)(r := ucast tmp), scc := 0x100000000 \<le> tmp\<rparr>)"

fun exec_jump :: "64 word \<Rightarrow> jump_inst \<Rightarrow> gpu \<times> 64 word \<Rightarrow> gpu \<times> 64 word" where
  "exec_jump PostGetPC (S_GETPC_B64 lo hi) (g, pc) =
     (g\<lparr>sregs := (sregs g)(lo := ucast PostGetPC, hi := ucast (drop_bit 32 PostGetPC))\<rparr>, pc)"
| "exec_jump PostGetPC S_WAITCNT_DEPCTR st = st"
| "exec_jump PostGetPC (S_ADD_U32 r imm) (g, pc) = (add_with_carry r imm False g, pc)"
| "exec_jump PostGetPC (S_ADDC_U32 r imm) (g, pc) = (add_with_carry r imm (scc g) g, pc)"
| "exec_jump PostGetPC (S_SETPC_B64 lo hi) (g, pc) =
     (g, push_bit 32 (ucast (sregs g hi)) OR ucast (sregs g lo))"

definition long_jump :: "bool \<Rightarrow> mcreg \<times> mcreg \<Rightarrow> 64 word \<Rightarrow> jump_inst list" where
  "long_jump FlushSGPRWrites pair off =
     (let hazard = (if FlushSGPRWrites then [S_WAITCNT_DEPCTR] else [])
      in [S_GETPC_B64 (fst pair) (snd pair)] @ hazard @
         [S_ADD_U32 (fst pair) (ucast (off AND 0xFFFFFFFF)),
          S_ADDC_U32 (snd pair) (ucast (signed_drop_bit 32 off))] @ hazard @
         [S_SETPC_B64 (fst pair) (snd pair)])"

text \<open>
  \<open>SourceSegs\<close> are the segments of the block that the branch leaves, the only predecessor of the
  block of the jump.
\<close>

definition emitSVALaneSpillForLongBranch ::
    "gcn_subtarget \<Rightarrow> StateValueArraySpecs \<Rightarrow> segment list \<Rightarrow> mcreg \<times> mcreg \<Rightarrow>
     (mir_item list \<times> mir_item list) option" where
  "emitSVALaneSpillForLongBranch st specs SourceSegs pair =
     (case rev SourceSegs of
        [] \<Rightarrow> None
      | (b, e, (i, SVS)) # _ \<Rightarrow>
          (let FreeLanes = findLowestFreeLanes specs 2 (wave_size st);
               SReg = getStateValueStorageReg SVS;
               Courier = (if is_vgpr SReg then SReg else VGPR 0)
           in if length FreeLanes < 2 then None
              else Some
                (emitCodeToLoadSVA st SVS Courier @
                   [MI (V_WRITELANE_B32 Courier (addReg (fst pair)) (FreeLanes ! 0) (addReg Courier)),
                    MI (V_WRITELANE_B32 Courier (addReg (snd pair)) (FreeLanes ! 1) (addReg Courier))],
                 [MI (V_READLANE_B32 (fst pair) (addReg Courier) (FreeLanes ! 0)),
                  MI (V_READLANE_B32 (snd pair) (addReg Courier) (FreeLanes ! 1))] @
                   emitCodeToStoreSVA st SVS Courier)))"

text \<open>
  The code in the block of the jump before it, the jump, and the code at the reload site. The offset
  leads to the destination, or to the reload site when a pair was spilled. \<open>None\<close> is the fatal error.
\<close>

definition emitLongBranch ::
    "gcn_subtarget \<Rightarrow> bool \<Rightarrow> StateValueArraySpecs \<Rightarrow> segment list \<Rightarrow> (mcreg \<times> mcreg) option \<Rightarrow>
     (mcreg \<times> mcreg) option \<Rightarrow> 64 word \<Rightarrow> 64 word \<Rightarrow> 64 word \<Rightarrow>
     (mir_item list \<times> jump_inst list \<times> mir_item list) option" where
  "emitLongBranch st flush specs SourceSegs LongBranchReservedReg scavenged PostGetPC DestLabel ReloadLabel =
     (case (case LongBranchReservedReg of Some r \<Rightarrow> Some r | None \<Rightarrow> scavenged) of
        Some pair \<Rightarrow> Some ([], long_jump flush pair (DestLabel - PostGetPC), [])
      | None \<Rightarrow>
          (case emitSVALaneSpillForLongBranch st specs SourceSegs (SGPR 0, SGPR 1) of
             None \<Rightarrow> None
           | Some (spill, reload) \<Rightarrow>
               Some (spill, long_jump flush (SGPR 0, SGPR 1) (ReloadLabel - PostGetPC), reload)))"

text \<open>The trampoline and the reload site in sequence, with the address the jump goes to.\<close>

definition run_long_branch ::
    "gcn_subtarget \<Rightarrow> 64 word \<Rightarrow> mir_item list \<times> jump_inst list \<times> mir_item list \<Rightarrow> gpu \<Rightarrow> gpu \<times> 64 word" where
  "run_long_branch st PostGetPC code g =
     (case code of (spill, jump, reload) \<Rightarrow>
        (case fold (exec_jump PostGetPC) jump (exec_items st spill g, 0) of
           (g', pc) \<Rightarrow> (exec_items st reload g', pc)))"

subsection \<open>Effect of the jump\<close>

lemma mod_square:
  fixes a b q :: nat
  assumes "b < q"
  shows "(a * q + b) mod (q * q) = a mod q * q + b"
proof -
  have "(a * q + b) div q = a" "(a * q + b) mod q = b" using assms by simp_all
  then show ?thesis by (simp add: mod_mult2_eq mult.commute)
qed

lemma carry_nat:
  fixes l L h H :: nat
  assumes "l < 2 ^ 32" "L < 2 ^ 32"
  shows "(h + H + (if 2 ^ 32 \<le> l + L then 1 else 0)) mod 2 ^ 32 * 2 ^ 32 + (l + L) mod 2 ^ 32 =
    (h * 2 ^ 32 + l + (H * 2 ^ 32 + L)) mod 2 ^ 64"
proof -
  define q :: nat where "q = 2 ^ 32"
  define c where "c = (if q \<le> l + L then 1 else 0 :: nat)"
  have lt: "l < q" "L < q" using assms by (simp_all add: q_def)
  have c: "l + L = c * q + (l + L) mod q"
  proof (cases "q \<le> l + L")
    case True
    have "(l + L) mod q = (l + L - q) mod q" using True by (rule le_mod_geq)
    also have "\<dots> = l + L - q" using lt by simp
    finally show ?thesis using True by (simp add: c_def)
  next
    case False
    then show ?thesis by (simp add: c_def)
  qed
  have "h * q + l + (H * q + L) = (h + H + c) * q + (l + L) mod q"
    using c by (simp add: algebra_simps)
  moreover have "((h + H + c) * q + (l + L) mod q) mod (q * q) = (h + H + c) mod q * q + (l + L) mod q"
    using lt by (intro mod_square mod_less_divisor) simp
  moreover have "(2 :: nat) ^ 64 = q * q" unfolding q_def by (simp only: power_add [symmetric]) simp
  ultimately show ?thesis unfolding q_def [symmetric] c_def [symmetric] by simp
qed

lemma halves64:
  fixes w :: "64 word"
  shows "unat w = unat (ucast (drop_bit 32 w) :: 32 word) * 2 ^ 32 + unat (ucast w :: 32 word)"
proof -
  have lt: "unat w < 2 ^ 64" using unsigned_less [of w] by simp
  have "unat (drop_bit 32 w) = unat w div 2 ^ 32" unfolding unat_drop_bit_eq by (rule drop_bit_eq_div)
  moreover have "unat w div 2 ^ 32 < 2 ^ 32" using lt by (simp add: less_mult_imp_div_less)
  ultimately have "unat (ucast (drop_bit 32 w) :: 32 word) = unat w div 2 ^ 32"
    by (simp add: unsigned_ucast_eq take_bit_nat_eq_self)
  moreover have "unat (ucast w :: 32 word) = unat w mod 2 ^ 32"
    by (simp add: unsigned_ucast_eq take_bit_eq_mod)
  ultimately show ?thesis by (simp only: div_mult_mod_eq)
qed

lemma join64:
  fixes hi lo :: "32 word"
  shows "unat (push_bit 32 (ucast hi) OR ucast lo :: 64 word) = unat hi * 2 ^ 32 + unat lo"
proof -
  let ?w = "push_bit 32 (ucast hi) OR ucast lo :: 64 word"
  have "ucast (drop_bit 32 ?w) = hi" "ucast ?w = lo"
    by (rule bit_word_eqI; auto simp: bit_simps dest: bit_imp_le_length)+
  then show ?thesis using halves64 [of ?w] by simp
qed

lemma ucast_signed_drop: "(ucast (signed_drop_bit 32 (w :: 64 word)) :: 32 word) = ucast (drop_bit 32 w)"
  by (rule bit_word_eqI) (auto simp: bit_simps)

lemma far_add:
  fixes p off :: "64 word"
  defines "l \<equiv> ucast p :: 32 word" and "h \<equiv> ucast (drop_bit 32 p) :: 32 word"
    and "L \<equiv> ucast off :: 32 word" and "H \<equiv> ucast (drop_bit 32 off) :: 32 word"
  shows "push_bit 32 (ucast (h + H + (if 2 ^ 32 \<le> unat l + unat L then 1 else 0))) OR ucast (l + L) = p + off"
proof -
  have "unat (push_bit 32 (ucast (h + H + (if 2 ^ 32 \<le> unat l + unat L then 1 else 0))) OR ucast (l + L) :: 64 word) =
      (unat h + unat H + (if 2 ^ 32 \<le> unat l + unat L then 1 else 0)) mod 2 ^ 32 * 2 ^ 32 + (unat l + unat L) mod 2 ^ 32"
    unfolding join64 by (simp add: unat_word_ariths mod_Suc_eq)
  also have "\<dots> = (unat h * 2 ^ 32 + unat l + (unat H * 2 ^ 32 + unat L)) mod 2 ^ 64"
    by (rule carry_nat) (use unsigned_less [of l] unsigned_less [of L] in simp_all)
  also have "\<dots> = (unat p + unat off) mod 2 ^ 64"
    using halves64 [of p] halves64 [of off] by (simp add: l_def h_def L_def H_def)
  also have "\<dots> = unat (p + off)" by (simp add: unat_word_ariths)
  finally show ?thesis by (simp only: word_unat_eq_iff)
qed
lemma ucast_add_down: "(ucast (a + b :: 64 word) :: 32 word) = ucast a + ucast b"
proof -
  have "unat (ucast (a + b) :: 32 word) = (unat a + unat b) mod 2 ^ 64 mod 2 ^ 32"
    by (simp add: unsigned_ucast_eq take_bit_eq_mod unat_word_ariths)
  also have "\<dots> = (unat a + unat b) mod 2 ^ 32" by (rule mod_mod_cancel) simp
  also have "\<dots> = unat (ucast a + ucast b :: 32 word)"
    by (simp add: unsigned_ucast_eq take_bit_eq_mod unat_word_ariths mod_add_eq)
  finally show ?thesis by (simp only: word_unat_eq_iff)
qed

lemma unat_ucast_up: "unat (ucast (x :: 32 word) :: 64 word) = unat x"
proof -
  have "unat x < 2 ^ 32" using unsigned_less [of x] by simp
  then show ?thesis by (simp add: unsigned_ucast_eq take_bit_nat_eq_self)
qed

lemma ucast_down_up: "ucast (ucast (x :: 32 word) :: 64 word) = x"
  by (rule bit_word_eqI) (auto simp: bit_simps)

lemma exec_long_jump:
  assumes "lo \<noteq> hi"
  shows "\<exists>x y c. fold (exec_jump p) (long_jump flush (lo, hi) off) (g, pc) =
    (g\<lparr>sregs := (sregs g)(lo := x, hi := y), scc := c\<rparr>, p + off)"
proof -
  have "(0xFFFFFFFF :: 64 word) = mask 32" by (simp add: mask_eq_exp_minus_1)
  moreover have "ucast (off AND mask 32) = (ucast off :: 32 word)"
    by (rule bit_word_eqI) (auto simp: bit_simps)
  ultimately have mask: "ucast (off AND 0xFFFFFFFF) = (ucast off :: 32 word)"
    by simp
  have carry: "(0x100000000 \<le> (ucast l + ucast L :: 64 word)) = (2 ^ 32 \<le> unat l + unat L)" for l L :: "32 word"
  proof -
    have "unat (ucast l + ucast L :: 64 word) = unat l + unat L"
    proof -
      have "unat l < 2 ^ 32" "unat L < 2 ^ 32" using unsigned_less [of l] unsigned_less [of L] by simp_all
      then show ?thesis by (simp add: unat_word_ariths unat_ucast_up)
    qed
    then show ?thesis by (simp add: word_le_nat_alt)
  qed
  have sum: "ucast (ucast l + ucast L + (if c then 1 else 0) :: 64 word) = l + L + (if c then 1 else 0 :: 32 word)" for l L :: "32 word" and c
    by (cases c) (simp_all add: ucast_add_down ucast_down_up)
  let ?run = "fold (exec_jump p) (long_jump flush (lo, hi) off) (g, pc)"
  let ?c = "if 2 ^ 32 \<le> unat (ucast p :: 32 word) + unat (ucast off :: 32 word) then 1 else 0 :: 32 word"
  have "?run = (g\<lparr>sregs := (sregs g)(lo := ucast p + ucast off,
      hi := ucast (drop_bit 32 p) + ucast (drop_bit 32 off) + ?c), scc := scc (fst ?run)\<rparr>, p + off)"
    using assms far_add [of p off]
    by (cases "2 ^ 32 \<le> unat (ucast p :: 32 word) + unat (ucast off :: 32 word)")
      (simp_all add: long_jump_def add_with_carry_def Let_def mask carry sum ucast_signed_drop fun_upd_twist
        ucast_add_down ucast_down_up)
  then show ?thesis by blast
qed

subsection \<open>The spill through the array\<close>

definition courier_of :: "SVAStorage \<Rightarrow> mcreg" where
  "courier_of s = (if is_vgpr (getStateValueStorageReg s) then getStateValueStorageReg s else VGPR 0)"

lemma courier_of_load: "requiresLoadAndStoreBeforeUse s \<Longrightarrow> storage_wf s \<Longrightarrow> courier_of s = VGPR 0"
  by (cases s) (auto simp: courier_of_def elim!: is_agprE)

lemma exec_store_scc:
  assumes "storage_wf s" "storage_target st s" "is_vgpr d"
  shows "exec_items st (emitCodeToStoreSVA st s d) (h\<lparr>scc := k\<rparr>) =
    (exec_items st (emitCodeToStoreSVA st s d) h)\<lparr>scc := k\<rparr>"
proof -
  have "slot_base st s (h\<lparr>scc := k\<rparr>) = slot_base st s h"
    by (cases s) (simp_all add: fs_base_of_def)
  moreover have "store_lane (h\<lparr>scc := k\<rparr>) s d = store_lane h s d"
    by (cases s) (simp_all add: fun_eq_iff)
  ultimately show ?thesis by (simp add: exec_store [OF assms] base_lanes_def cong: if_cong)
qed

text \<open>Two lanes of the loaded array are overwritten before it is stored back, and SCC changes.\<close>

lemma courier_trip:
  assumes wf: "storage_wf s" "storage_target st s" and l: "l0 < wave_size st" "l1 < wave_size st"
    and g1: "g1 = exec_items st (emitCodeToLoadSVA st s (courier_of s)) g"
    and g': "g' = exec_items st (emitCodeToStoreSVA st s (courier_of s))
      (g1\<lparr>vregs := (vregs g1)(courier_of s := (vregs g1 (courier_of s))(l0 := x, l1 := y)), scc := k\<rparr>)"
  shows "sregs g1 = sregs g \<and> sregs g' = sregs g \<and> exec_mask g' = exec_mask g \<and>
    (\<forall>l<wave_size st. l \<noteq> l0 \<and> l \<noteq> l1 \<longrightarrow> sva_of st s g' l = sva_of st s g l) \<and>
    (\<forall>r l. r \<in> set (getAllStorageRegisters s []) \<or> vregs g' r l = vregs g r l) \<and>
    (\<forall>b l x. in_slots st s g b x \<or> scratch g' b l x = scratch g b l x)"
proof (cases "requiresLoadAndStoreBeforeUse s")
  case False
  then obtain v where s: "s = VGPRStateValueArrayStorage v" by (cases s) auto
  with wf show ?thesis
    by (auto simp: g1 g' courier_of_def emitCodeToLoadSVA.simps emitCodeToStoreSVA.simps)
next
  case True
  let ?c = "courier_of s"
  have c: "?c = VGPR 0" using True wf(1) by (rule courier_of_load)
  have ok: "sva_config_ok (st, s, ?c)" using True wf by (simp add: sva_config_ok_def c)
  define h where "h = g1\<lparr>vregs := (vregs g1)(?c := (vregs g1 ?c)(l0 := x, l1 := y))\<rparr>"
  have frame: "app_frame st s ?c g1 h"
    using l by (auto simp: app_frame_def h_def)
  have saved: "saved_of st s h l = saved_of st s g1 l" if "l < wave_size st" for l
    using wf(1) True unfolding h_def c by (cases s) (auto simp: fs_base_of_def elim!: is_agprE)
  have ld: "app_frame st s ?c g g1" using ls.frame_ld [OF ok, of g] by (simp add: g1)
  have arr: "vregs g1 ?c l = sva_of st s g l" if "l < wave_size st" for l
    using ls.cell_ld [OF ok, of l g] that by (simp add: g1)
  define g2 where "g2 = exec_items st (emitCodeToStoreSVA st s ?c) h"
  have trip: "\<forall>l<wave_size st. vregs g2 ?c l = vregs g ?c l \<and> sva_of st s g2 l = vregs h ?c l"
    "app_frame st s ?c g g2"
    using ls.round_trip [OF ok, of g h] frame saved by (simp_all add: g1 g2_def)
  have g'2: "g' = g2\<lparr>scc := k\<rparr>"
    using exec_store_scc [OF wf, of ?c k h] by (simp add: g' g2_def h_def c)
  have sva: "sva_of st s g' l = sva_of st s g2 l" for l
    by (cases s) (simp_all add: g'2 fs_base_of_def)
  have "vregs g' r l = vregs g r l" if "r \<notin> set (getAllStorageRegisters s [])" for r l
  proof (cases "r = ?c \<and> l < wave_size st")
    case True
    with trip(1) show ?thesis by (simp add: g'2)
  next
    case False
    with trip(2) that show ?thesis by (auto simp: app_frame_def g'2)
  qed
  moreover have "in_slots st s g b x \<or> scratch g' b l x = scratch g b l x" for b l x
  proof -
    have "l < wave_size st \<and> in_slots st s g b x \<or> scratch g2 b l x = scratch g b l x"
      using trip(2) unfolding app_frame_def by blast
    moreover have "scratch g' = scratch g2" by (simp add: g'2)
    ultimately show ?thesis by metis
  qed
  moreover have "sva_of st s g' l = sva_of st s g l" if "l < wave_size st" "l \<noteq> l0" "l \<noteq> l1" for l
    using trip(1) that arr [OF that(1)] by (simp add: sva h_def)
  moreover have "sregs g1 = sregs g" "sregs g' = sregs g" "exec_mask g' = exec_mask g"
    using ld trip(2) by (simp_all add: app_frame_def g'2)
  ultimately show ?thesis by blast
qed

lemma free_lanes:
  assumes "2 \<le> length (findLowestFreeLanes specs 2 W)"
  shows "\<exists>l0 l1. findLowestFreeLanes specs 2 W = [l0, l1] \<and> l0 \<noteq> l1 \<and> l0 < W \<and> l1 < W \<and>
    l0 \<notin> set (sva_lanes specs) \<and> l1 \<notin> set (sva_lanes specs)"
proof -
  let ?f = "filter (\<lambda>l. l \<notin> set (sva_lanes specs)) [0..<W]"
  have two: "findLowestFreeLanes specs 2 W = take 2 ?f" by (rule findLowestFreeLanes_eq)
  with assms obtain l0 l1 rest where f: "?f = l0 # l1 # rest"
    by (cases ?f; cases "tl ?f") auto
  have "distinct ?f" by simp
  then have "l0 \<noteq> l1" unfolding f by simp
  moreover have "{l0, l1} \<subseteq> set ?f" unfolding f by simp
  moreover have "findLowestFreeLanes specs 2 W = [l0, l1]" unfolding two f by simp
  ultimately show ?thesis by auto
qed

lemma spilled_branch:
  assumes emit: "emitLongBranch st flush specs segs None None post dest reload = Some code"
    and segs: "rev segs = (b, e, (i, s)) # rest" and wf: "storage_wf s" "storage_target st s"
  shows "case run_long_branch st post code g of (g', pc) \<Rightarrow>
    pc = reload \<and> sregs g' = sregs g \<and> exec_mask g' = exec_mask g \<and>
    (\<forall>l<wave_size st. l \<in> set (sva_lanes specs) \<longrightarrow> sva_of st s g' l = sva_of st s g l) \<and>
    (\<forall>r l. r \<in> set (getAllStorageRegisters s []) \<or> vregs g' r l = vregs g r l) \<and>
    (\<forall>b l x. in_slots st s g b x \<or> scratch g' b l x = scratch g b l x)"
proof -
  from emit segs have "2 \<le> length (findLowestFreeLanes specs 2 (wave_size st))"
    by (auto simp: emitLongBranch_def emitSVALaneSpillForLongBranch_def Let_def split: if_splits)
  then obtain l0 l1 where lanes: "findLowestFreeLanes specs 2 (wave_size st) = [l0, l1]"
    "l0 \<noteq> l1" "l0 < wave_size st" "l1 < wave_size st"
    "l0 \<notin> set (sva_lanes specs)" "l1 \<notin> set (sva_lanes specs)"
    using free_lanes by blast
  let ?c = "courier_of s"
  define g1 where "g1 = exec_items st (emitCodeToLoadSVA st s ?c) g"
  define u where "u = (vregs g1)(?c := (vregs g1 ?c)(l0 := sregs g1 (SGPR 0), l1 := sregs g1 (SGPR 1)))"
  obtain x y k where jump: "fold (exec_jump post) (long_jump flush (SGPR 0, SGPR 1) (reload - post)) (g1\<lparr>vregs := u\<rparr>, 0) =
      (g1\<lparr>vregs := u, sregs := (sregs g1)(SGPR 0 := x, SGPR 1 := y), scc := k\<rparr>, reload)"
    using exec_long_jump [of "SGPR 0" "SGPR 1" post flush "reload - post" "g1\<lparr>vregs := u\<rparr>" 0] by auto
  define g' where "g' = exec_items st (emitCodeToStoreSVA st s ?c) (g1\<lparr>vregs := u, scc := k\<rparr>)"
  have mods: "l0 mod wave_size st = l0" "l1 mod wave_size st = l1" using lanes by simp_all
  have same: "(sregs g1)(SGPR 0 := u ?c l0, SGPR 1 := u ?c l1) = sregs g1"
    using lanes(2) by (auto simp: u_def fun_eq_iff)
  have restore: "g1\<lparr>vregs := u, scc := k, sregs := (sregs g1)(SGPR 0 := u ?c l0, SGPR 1 := u ?c l1)\<rparr> =
      g1\<lparr>vregs := u, scc := k\<rparr>"
    unfolding same by (rule gpu_eqI) simp_all
  have "run_long_branch st post code g = (g', reload)"
  proof -
    have "code = (emitCodeToLoadSVA st s ?c @ [MI (V_WRITELANE_B32 ?c (addReg (SGPR 0)) l0 (addReg ?c)),
          MI (V_WRITELANE_B32 ?c (addReg (SGPR 1)) l1 (addReg ?c))],
        long_jump flush (SGPR 0, SGPR 1) (reload - post),
        [MI (V_READLANE_B32 (SGPR 0) (addReg ?c) l0), MI (V_READLANE_B32 (SGPR 1) (addReg ?c) l1)] @
          emitCodeToStoreSVA st s ?c)"
      using emit lanes(1) unfolding emitLongBranch_def emitSVALaneSpillForLongBranch_def segs
      by (auto simp: courier_of_def Let_def simp del: One_nat_def split: if_splits)
    then show ?thesis
      by (simp add: run_long_branch_def exec_items_append addReg_def mods jump g'_def restore
          flip: g1_def u_def del: One_nat_def)
  qed
  moreover have "sregs g1 = sregs g \<and> sregs g' = sregs g \<and> exec_mask g' = exec_mask g \<and>
    (\<forall>l<wave_size st. l \<noteq> l0 \<and> l \<noteq> l1 \<longrightarrow> sva_of st s g' l = sva_of st s g l) \<and>
    (\<forall>r l. r \<in> set (getAllStorageRegisters s []) \<or> vregs g' r l = vregs g r l) \<and>
    (\<forall>b l x. in_slots st s g b x \<or> scratch g' b l x = scratch g b l x)"
    by (rule courier_trip [OF wf lanes(3,4) g1_def g'_def [unfolded u_def]])
  ultimately show ?thesis using lanes(5,6) by auto
qed

subsection \<open>Properties\<close>

text \<open>
  C17: The range check is sound: when the relaxer finds a branch in range by its estimated offsets, the
  branch is in range in the placed code, wherever the function starts at its alignment. Padding for
  blocks that are aligned more strictly than the function is overestimated, never underestimated, and
  the estimated distance between two blocks is at least the real one.
\<close>

theorem range_check_sound:
  assumes "distinct (map lbb_number bs)" and "code_bound bs < 2 ^ 32"
    and base: "2 ^ fun_log_align R dvd base" "lbb_log_align (hd bs) \<le> fun_log_align R"
    and ij: "i < length bs" "j < length bs" and "lbb_section (bs ! i) = lbb_section (bs ! j)"
    and convex: "\<And>x y. isBranchOffsetInRange R x \<Longrightarrow> 0 \<le> y \<and> y \<le> x \<or> x \<le> y \<and> y \<le> 0 \<Longrightarrow>
      isBranchOffsetInRange R y"
    and check: "isBlockInRange R (scanFunction R bs) (bs ! i) n (bs ! j)"
  shows "isBranchOffsetInRange R
    (int (place base bs ! j) - int (place base bs ! i + sum_list (take n (lbb_sizes (bs ! i)))))"
proof -
  let ?E = "\<lambda>k. estimated R bs ! k" and ?A = "\<lambda>k. place base bs ! k"
  let ?q = "sum_list (take n (lbb_sizes (bs ! i)))"
  have bs: "bs \<noteq> []" using ij by auto
  have q: "?q \<le> computeBlockSize (bs ! i)"
    unfolding computeBlockSize_def
    using sum_list_append [of "take n (lbb_sizes (bs ! i))" "drop n (lbb_sizes (bs ! i))"] by simp
  have off: "unat (Offset (scanFunction R bs (lbb_number (bs ! k)))) = ?E k" if "k < length bs" for k
    using scanFunction_estimated [OF assms(1,2) that] .
  have "?E i + computeBlockSize (bs ! i) \<le> code_bound bs"
  proof (cases bs)
    case (Cons b rest)
    show ?thesis
    proof (cases i)
      case (Suc k)
      with estimate_le [of k rest R "computeBlockSize b"] ij(1) show ?thesis
        by (simp add: Cons estimated_def code_bound_def)
    qed (simp add: Cons estimated_def code_bound_def)
  qed (use bs in simp)
  with assms(2) off [OF ij(1)]
  have "unat (getInstrOffset (scanFunction R bs) (bs ! i) n) = ?E i + ?q"
    by (simp add: getInstrOffset_sum)
  with check off [OF ij(2)] assms(7)
  have inr: "isBranchOffsetInRange R (int (?E j) - int (?E i + ?q))"
    by (simp add: isBlockInRange_def)
  show ?thesis
  proof (cases "i < j")
    case True
    have "?A i + computeBlockSize (bs ! i) \<le> ?A j" by (rule place_mono [OF True ij(2)])
    moreover have "int (?E i) - int (?A i) \<le> int (?E j) - int (?A j)"
      using estimated_surplus [OF bs base, of i j] True ij(2) by simp
    ultimately show ?thesis using q by (intro convex [OF inr] disjI1) linarith
  next
    case False
    have "?A j \<le> ?A i"
    proof (cases "i = j")
      case False
      with \<open>\<not> i < j\<close> place_mono [of j i bs base] ij(1) show ?thesis by simp
    qed simp
    moreover have "int (?E j) - int (?A j) \<le> int (?E i) - int (?A i)"
      using estimated_surplus [OF bs base, of j i] False ij(1) by simp
    ultimately show ?thesis by (intro convex [OF inr] disjI2) linarith
  qed
qed

definition example_layout :: "lbb list" where
  "example_layout = [\<lparr>lbb_number = 0, lbb_sizes = [4, 4], lbb_log_align = 2, lbb_section = 0\<rparr>,
     \<lparr>lbb_number = 1, lbb_sizes = [8], lbb_log_align = 6, lbb_section = 0\<rparr>]"

definition example_relaxer :: relaxer where
  "example_relaxer = \<lparr>fun_log_align = 4, isBranchOffsetInRange = \<lambda>x. -512 \<le> x \<and> x \<le> 508, getMaxCodeSize = 4096\<rparr>"

theorem range_check_sound_witness:
  "isBranchOffsetInRange example_relaxer
     (int (place 16 example_layout ! 1) - int (place 16 example_layout ! 0 + 4))"
proof -
  have check: "isBlockInRange example_relaxer (scanFunction example_relaxer example_layout)
      (example_layout ! 0) 1 (example_layout ! 1)"
    by code_simp
  have "distinct (map lbb_number example_layout)" "code_bound example_layout < 2 ^ 32"
    "2 ^ fun_log_align example_relaxer dvd (16 :: nat)"
    "lbb_log_align (hd example_layout) \<le> fun_log_align example_relaxer"
    "0 < length example_layout" "1 < length example_layout"
    "lbb_section (example_layout ! 0) = lbb_section (example_layout ! 1)"
    by (simp_all add: example_layout_def example_relaxer_def code_bound_def computeBlockSize_def)
  note layout = this
  have convex: "isBranchOffsetInRange example_relaxer y"
    if "isBranchOffsetInRange example_relaxer x" "0 \<le> y \<and> y \<le> x \<or> x \<le> y \<and> y \<le> 0" for x y
    using that by (auto simp: example_relaxer_def)
  have "isBranchOffsetInRange example_relaxer (int (place 16 example_layout ! 1) -
       int (place 16 example_layout ! 0 + sum_list (take 1 (lbb_sizes (example_layout ! 0)))))"
    by (rule range_check_sound [OF layout convex check])
  moreover have "sum_list (take 1 (lbb_sizes (example_layout ! 0))) = 4" by code_simp
  ultimately show ?thesis by simp
qed



text \<open>The addition that forms the target leaves its carry in SCC.\<close>

lemma long_branch_changes_scc:
  "scc (fst (fold (exec_jump 4096) (long_jump False (SGPR 4, SGPR 5) 64) (start_gpu, 0))) \<noteq> scc start_gpu"
  by (simp add: long_jump_def add_with_carry_def start_gpu_def Let_def)

end
