(* ===== verification/Kernel_Preamble.thy ===== *)
theory Kernel_Preamble
  imports Branch_Relaxation
begin

text \<open>
  The prologue of the initial entry kernel
  (\<open>src/lib/ToolCodeGen/TargetModulePatcherPass.cpp\<close>): before the first instruction of the kernel
  the state value array is built in a VGPR from the registers that the hardware preloads, the scratch
  base and the stack pointer of the instrumentation are computed, the pointer to the kernel arguments
  is exchanged, and the preloaded registers are moved back to where the application reads them. LLVM's
  register information for a function (\<open>SIMachineFunctionInfo\<close>) is a record; its \<open>add...\<close> functions, which
  choose the registers of newly enabled values, are inputs. A register tuple is its first register with
  its number of channels. Unlike the switches, the prologue runs in one piece at the head of the kernel.
\<close>

subsection \<open>Preloaded values\<close>

datatype PreloadedValue =
    PV_PRIVATE_SEGMENT_BUFFER
  | PV_DISPATCH_PTR
  | PV_QUEUE_PTR
  | PV_KERNARG_SEGMENT_PTR
  | PV_DISPATCH_ID
  | PV_FLAT_SCRATCH_INIT
  | PV_WORKGROUP_ID_X
  | PV_WORKGROUP_ID_Y
  | PV_WORKGROUP_ID_Z
  | PV_PRIVATE_SEGMENT_WAVE_BYTE_OFFSET
  | PV_IMPLICIT_BUFFER_PTR
  | PV_PRIVATE_SEGMENT_SIZE
  | PV_WORKITEM_ID_X
  | PV_WORKITEM_ID_Y
  | PV_WORKITEM_ID_Z
  | PV_other nat

record arg_desc =
  getRegister :: mcreg
  channels :: nat
  getMask :: "32 word"

fun getSubReg :: "mcreg \<Rightarrow> nat \<Rightarrow> mcreg" where
  "getSubReg (SGPR n) i = SGPR (n + i)"
| "getSubReg (VGPR n) i = VGPR (n + i)"
| "getSubReg (AGPR n) i = AGPR (n + i)"
| "getSubReg r i = NoRegister"

text \<open>\<open>MCRegister()\<close> for a value that is not preloaded.\<close>

definition preloaded_sub :: "arg_desc option \<Rightarrow> nat \<Rightarrow> mcreg" where
  "preloaded_sub d i = (case d of None \<Rightarrow> NoRegister | Some d \<Rightarrow> getSubReg (getRegister d) i)"

definition preloaded_reg :: "arg_desc option \<Rightarrow> mcreg" where
  "preloaded_reg d = (case d of None \<Rightarrow> NoRegister | Some d \<Rightarrow> getRegister d)"

text \<open>
  The fields of \<open>SIMachineFunctionInfo\<close>, of its \<open>GCNUserSGPRUsageInfo\<close> and of the kernel's IR function
  that the prologue reads or changes.
\<close>

record sim_mfi =
  ArgInfo :: "PreloadedValue \<Rightarrow> arg_desc option"
  UserField :: "PreloadedValue \<Rightarrow> bool"
  NumUsedUserSGPRs :: nat
  NumKernargPreloadSGPRs :: nat
  NumUserSGPRs :: nat
  NumSystemSGPRs :: nat
  FnAttrs :: "string list"
  Arg0Attrs :: "string list"

record preamble_env =
  addPreloaded :: "PreloadedValue \<Rightarrow> sim_mfi \<Rightarrow> sim_mfi"
  getNumUserSGPRForField :: "PreloadedValue \<Rightarrow> nat"
  preloaded_values :: "PreloadedValue list"
  maxNumUserSGPRs :: nat
  convertSMRDOffsetUnits :: "nat \<Rightarrow> nat"
  smrd_bytes :: "nat \<Rightarrow> nat"
  hasPackedTID :: bool
  InstrumentationStackSize :: "32 word"

definition getPreloadedReg :: "sim_mfi \<Rightarrow> PreloadedValue \<Rightarrow> (mcreg \<times> nat) option" where
  "getPreloadedReg m pv = map_option (\<lambda>d. (getRegister d, channels d)) (ArgInfo m pv)"

text \<open>\<open>forceQueuePtr\<close> and its siblings.\<close>

definition force_field :: "preamble_env \<Rightarrow> PreloadedValue \<Rightarrow> sim_mfi \<Rightarrow> sim_mfi" where
  "force_field E pv m =
     (if UserField m pv then m
      else m\<lparr>UserField := (UserField m)(pv := True),
             NumUsedUserSGPRs := NumUsedUserSGPRs m + getNumUserSGPRForField E pv\<rparr>)"

text \<open>The call of an \<open>add...\<close> function with \<open>NumSystemSGPRs\<close> set to zero around it.\<close>

definition AddUserSGPR :: "preamble_env \<Rightarrow> PreloadedValue \<Rightarrow> sim_mfi \<Rightarrow> sim_mfi" where
  "AddUserSGPR E pv m =
     (addPreloaded E pv (m\<lparr>NumSystemSGPRs := 0\<rparr>))\<lparr>NumSystemSGPRs := NumSystemSGPRs m\<rparr>"

definition disableKernargPreload :: "nat \<Rightarrow> sim_mfi \<Rightarrow> sim_mfi" where
  "disableKernargPreload OrigPreloadLength m =
     m\<lparr>NumKernargPreloadSGPRs := 0, NumUserSGPRs := NumUserSGPRs m - OrigPreloadLength\<rparr>"

definition removeFnAttr :: "string \<Rightarrow> sim_mfi \<Rightarrow> sim_mfi" where
  "removeFnAttr a m = m\<lparr>FnAttrs := filter (\<lambda>b. b \<noteq> a) (FnAttrs m)\<rparr>"

subsection \<open>Instructions\<close>

text \<open>
  The instructions of the prologue with their meaning in \<open>SOP2Sem.td\<close>, \<open>VOPSem.td\<close> and \<open>SMEMSem.td\<close>.
  Global memory is an input, as dwords at byte addresses: the prologue does not write it.
\<close>

datatype ssrc = SReg mcreg | SImm "32 word"

datatype kinst =
    Plain minst
  | S_MOV_B32_imm mcreg "32 word"
  | S_ADD_U32 mcreg ssrc ssrc
  | S_ADDC_U32 mcreg ssrc ssrc
  | S_SUB_U32 mcreg ssrc ssrc
  | S_BFE_U32 mcreg ssrc ssrc
  | V_READFIRSTLANE_B32 mcreg mcreg
  | S_LOAD_DWORD_IMM mcreg "mcreg \<times> mcreg" nat
  | S_LOAD_DWORDX2_IMM "mcreg \<times> mcreg" "mcreg \<times> mcreg" nat

fun ssrc_val :: "gpu \<Rightarrow> ssrc \<Rightarrow> 32 word" where
  "ssrc_val g (SReg r) = sregs g r"
| "ssrc_val g (SImm v) = v"

definition sgpr_pair :: "gpu \<Rightarrow> mcreg \<times> mcreg \<Rightarrow> 64 word" where
  "sgpr_pair g p = push_bit 32 (ucast (sregs g (snd p))) OR ucast (sregs g (fst p))"

definition bfe_u32 :: "32 word \<Rightarrow> 32 word \<Rightarrow> 32 word" where
  "bfe_u32 x s = drop_bit (unat (s AND 31)) x AND (push_bit (unat (drop_bit 16 s AND 127)) 1 - 1)"

definition readfirstlane :: "gcn_subtarget \<Rightarrow> gpu \<Rightarrow> mcreg \<Rightarrow> 32 word" where
  "readfirstlane st g r =
     vregs g r (case filter (active st g) [0..<wave_size st] of [] \<Rightarrow> 0 | l # ls \<Rightarrow> l)"

definition add_carry :: "32 word \<Rightarrow> 32 word \<Rightarrow> bool \<Rightarrow> 64 word" where
  "add_carry a b c = ucast a + ucast b + (if c then 1 else 0)"

fun exec_k :: "gcn_subtarget \<Rightarrow> preamble_env \<Rightarrow> (64 word \<Rightarrow> 32 word) \<Rightarrow> kinst \<Rightarrow> gpu \<Rightarrow> gpu" where
  "exec_k st E gm (Plain i) g = exec_inst st i g"
| "exec_k st E gm (S_MOV_B32_imm d v) g = g\<lparr>sregs := (sregs g)(d := v)\<rparr>"
| "exec_k st E gm (S_ADD_U32 d a b) g =
     (let tmp = add_carry (ssrc_val g a) (ssrc_val g b) False
      in g\<lparr>sregs := (sregs g)(d := ucast tmp), scc := 0x100000000 \<le> tmp\<rparr>)"
| "exec_k st E gm (S_ADDC_U32 d a b) g =
     (let tmp = add_carry (ssrc_val g a) (ssrc_val g b) (scc g)
      in g\<lparr>sregs := (sregs g)(d := ucast tmp), scc := 0x100000000 \<le> tmp\<rparr>)"
| "exec_k st E gm (S_SUB_U32 d a b) g =
     g\<lparr>sregs := (sregs g)(d := ssrc_val g a - ssrc_val g b), scc := ssrc_val g a < ssrc_val g b\<rparr>"
| "exec_k st E gm (S_BFE_U32 d a b) g =
     (let r = bfe_u32 (ssrc_val g a) (ssrc_val g b)
      in g\<lparr>sregs := (sregs g)(d := r), scc := r \<noteq> 0\<rparr>)"
| "exec_k st E gm (V_READFIRSTLANE_B32 d a) g = g\<lparr>sregs := (sregs g)(d := readfirstlane st g a)\<rparr>"
| "exec_k st E gm (S_LOAD_DWORD_IMM d base off) g =
     g\<lparr>sregs := (sregs g)(d := gm (sgpr_pair g base + of_nat (smrd_bytes E off)))\<rparr>"
| "exec_k st E gm (S_LOAD_DWORDX2_IMM d base off) g =
     (let a = sgpr_pair g base + of_nat (smrd_bytes E off)
      in g\<lparr>sregs := (sregs g)(fst d := gm a, snd d := gm (a + 4))\<rparr>)"

definition exec_ks ::
    "gcn_subtarget \<Rightarrow> preamble_env \<Rightarrow> (64 word \<Rightarrow> 32 word) \<Rightarrow> kinst list \<Rightarrow> gpu \<Rightarrow> gpu" where
  "exec_ks st E gm c g = fold (exec_k st E gm) c g"

lemma exec_ks_simps [simp]:
  "exec_ks st E gm [] g = g"
  "exec_ks st E gm (i # c) g = exec_ks st E gm c (exec_k st E gm i g)"
  "exec_ks st E gm (c @ d) g = exec_ks st E gm d (exec_ks st E gm c g)"
  by (simp_all add: exec_ks_def)

subsection \<open>Scratch setup\<close>

datatype preamble_error =
    NoPrivateSegmentLane
  | NoFlatScratch
  | NoPrivateSegmentSize
  | NoKernargSegmentPtr
  | NoImplicitArgLane
  | SlotCountMismatch
  | NoBlocks
  | EmptyEntryBlock
  | NoSegmentAtEntry
  | NoLaneFor ScalarValueArgument
  | SourceNotEnabled ScalarValueArgument
  | WorkitemSlots

definition writelane :: "mcreg \<Rightarrow> mcreg \<Rightarrow> nat \<Rightarrow> kinst" where
  "writelane SVS r lane = Plain (V_WRITELANE_B32 SVS (addReg r) lane (addReg SVS))"

definition readlane :: "mcreg \<Rightarrow> mcreg \<Rightarrow> nat \<Rightarrow> kinst" where
  "readlane r SVS lane = Plain (V_READLANE_B32 r (addReg SVS) lane)"

definition EmitScratchPSBInit :: "mcreg \<Rightarrow> mcreg \<Rightarrow> mcreg \<Rightarrow> mcreg \<Rightarrow> nat \<Rightarrow> kinst list" where
  "EmitScratchPSBInit SVS PSWO Lo Hi Lane =
     [writelane SVS Lo StackPointerRegSpillLane,
      writelane SVS Hi FramePointerRegSpillLane,
      S_ADD_U32 Lo (SReg Lo) (SReg PSWO),
      S_ADDC_U32 Hi (SReg Hi) (SImm 0),
      writelane SVS Lo Lane,
      writelane SVS Hi (Lane + 1),
      readlane Lo SVS StackPointerRegSpillLane,
      readlane Hi SVS FramePointerRegSpillLane]"

text \<open>The part for targets that compute the flat scratch base in registers.\<close>

definition setup_scratch_base ::
    "gcn_subtarget \<Rightarrow> preamble_env \<Rightarrow> StateValueArraySpecs \<Rightarrow> mcreg \<Rightarrow> sim_mfi \<Rightarrow>
     preamble_error + sim_mfi \<times> kinst list" where
  "setup_scratch_base st E Specs SVS m =
     (let m1 = (if ArgInfo m PV_PRIVATE_SEGMENT_WAVE_BYTE_OFFSET = None
                then addPreloaded E PV_PRIVATE_SEGMENT_WAVE_BYTE_OFFSET m else m);
          PSWO = preloaded_reg (ArgInfo m1 PV_PRIVATE_SEGMENT_WAVE_BYTE_OFFSET);
          m2 = (if enableFlatScratch st \<or> ArgInfo m1 PV_PRIVATE_SEGMENT_BUFFER \<noteq> None then m1
                else addPreloaded E PV_PRIVATE_SEGMENT_BUFFER m1);
          PSB = preloaded_sub (ArgInfo m2 PV_PRIVATE_SEGMENT_BUFFER);
          FSInit = preloaded_sub (ArgInfo m2 PV_FLAT_SCRATCH_INIT)
      in err_bind
           (if enableFlatScratch st then Inr []
            else case findArgumentLane Specs WAVEFRONT_PRIVATE_SEGMENT_BUFFER of
                   None \<Rightarrow> Inl NoPrivateSegmentLane
                 | Some PSBLane \<Rightarrow>
                     Inr (EmitScratchPSBInit SVS PSWO (PSB 0) (PSB 1) PSBLane @
                          [writelane SVS (PSB 2) (PSBLane + 2), writelane SVS (PSB 3) (PSBLane + 3)]))
           (\<lambda>code.
              case findArgumentLane Specs FLAT_SCRATCH of
                None \<Rightarrow> Inl NoFlatScratch
              | Some FSLane \<Rightarrow>
                  Inr (m2, code @ EmitScratchPSBInit SVS PSWO (FSInit 0) (FSInit 1) FSLane)))"

definition SVSSlotsReservation :: "32 word" where "SVSSlotsReservation = 8"

record stack_use =
  AppUsesDynamicStack :: bool
  AppPrivateSegmentFixedSize :: "32 word"
  PayloadUsesDynamicStack :: bool
  MaxFixedStackSize :: "32 word"

definition PayloadReservation :: "preamble_env \<Rightarrow> stack_use \<Rightarrow> 32 word" where
  "PayloadReservation E u =
     (if PayloadUsesDynamicStack u then InstrumentationStackSize E else MaxFixedStackSize u) +
     SVSSlotsReservation"

definition setup_stack_pointer ::
    "preamble_env \<Rightarrow> mcreg \<Rightarrow> stack_use \<Rightarrow> sim_mfi \<Rightarrow> preamble_error + sim_mfi \<times> kinst list" where
  "setup_stack_pointer E SVS u m =
     (let m' = (if \<not> AppUsesDynamicStack u \<or> ArgInfo m PV_PRIVATE_SEGMENT_SIZE \<noteq> None then m
                else AddUserSGPR E PV_PRIVATE_SEGMENT_SIZE (force_field E PV_PRIVATE_SEGMENT_SIZE m))
      in err_bind
           (if \<not> AppUsesDynamicStack u
            then Inr (S_MOV_B32_imm (SGPR 0) (AppPrivateSegmentFixedSize u + SVSSlotsReservation))
            else case ArgInfo m' PV_PRIVATE_SEGMENT_SIZE of
                   None \<Rightarrow> Inl NoPrivateSegmentSize
                 | Some PSS \<Rightarrow>
                     Inr (S_SUB_U32 (SGPR 0) (SReg (getRegister PSS)) (SImm (PayloadReservation E u))))
           (\<lambda>materialize.
              Inr (m', [writelane SVS (SGPR 0) FramePointerRegSpillLane,
                        materialize,
                        writelane SVS (SGPR 0) StackPointerStoreLane,
                        readlane (SGPR 0) SVS FramePointerRegSpillLane])))"

definition emitCodeToSetupScratch ::
    "gcn_subtarget \<Rightarrow> preamble_env \<Rightarrow> StateValueArraySpecs \<Rightarrow> mcreg \<Rightarrow> stack_use \<Rightarrow> sim_mfi \<Rightarrow>
     preamble_error + sim_mfi \<times> kinst list" where
  "emitCodeToSetupScratch st E Specs SVS u m =
     err_bind (if hasArchitectedFlatScratch st then Inr (m, []) else setup_scratch_base st E Specs SVS m)
       (\<lambda>(m', c). err_bind (setup_stack_pointer E SVS u m') (\<lambda>(m'', c'). Inr (m'', c @ c')))"

subsection \<open>Kernel arguments\<close>

text \<open>The source is a register of \<open>32 * channels\<close> bits.\<close>

definition emitCodeToStoreSGPRKernelArg ::
    "arg_desc \<Rightarrow> mcreg \<Rightarrow> nat \<Rightarrow> nat \<Rightarrow> preamble_error + kinst list" where
  "emitCodeToStoreSGPRKernelArg Src SVS SpillSlotStart NumSlots =
     (if channels Src = 1
      then err_bind (err_check (NumSlots = 1) SlotCountMismatch) (\<lambda>_.
             Inr [writelane SVS (getRegister Src) SpillSlotStart])
      else err_bind (err_check (NumSlots = channels Src) SlotCountMismatch) (\<lambda>_.
             Inr (map (\<lambda>i. writelane SVS (getSubReg (getRegister Src) i) (SpillSlotStart + i)) [0..<NumSlots])))"

definition enableKernargSegmentPtr :: "preamble_env \<Rightarrow> sim_mfi \<Rightarrow> sim_mfi" where
  "enableKernargSegmentPtr E m =
     (if ArgInfo m PV_KERNARG_SEGMENT_PTR \<noteq> None then m
      else AddUserSGPR E PV_KERNARG_SEGMENT_PTR (force_field E PV_KERNARG_SEGMENT_PTR m))"

definition emitKernargBufferExpansion ::
    "preamble_env \<Rightarrow> StateValueArraySpecs \<Rightarrow> mcreg \<Rightarrow> bool \<Rightarrow> sim_mfi \<Rightarrow>
     preamble_error + sim_mfi \<times> kinst list" where
  "emitKernargBufferExpansion E Specs SVS HasAppKernarg m =
     (let m' = enableKernargSegmentPtr E m
      in case ArgInfo m' PV_KERNARG_SEGMENT_PTR of
           None \<Rightarrow> Inl NoKernargSegmentPtr
         | Some KernargPtr \<Rightarrow>
             (case findArgumentLane Specs IMPLICIT_ARG_BUFFER of
                None \<Rightarrow> Inl NoImplicitArgLane
              | Some ImplLane \<Rightarrow>
                  (let KernSub0 = getSubReg (getRegister KernargPtr) 0;
                       KernSub1 = getSubReg (getRegister KernargPtr) 1
                   in if \<not> HasAppKernarg
                      then Inr (m', [writelane SVS KernSub0 (ImplLane + 0), writelane SVS KernSub1 (ImplLane + 1)])
                      else Inr (m',
                        [writelane SVS KernSub0 StackPointerRegSpillLane,
                         writelane SVS KernSub1 FramePointerRegSpillLane,
                         S_ADD_U32 KernSub0 (SReg KernSub0) (SImm 8),
                         S_ADDC_U32 KernSub1 (SReg KernSub1) (SImm 0),
                         writelane SVS KernSub0 (ImplLane + 0),
                         writelane SVS KernSub1 (ImplLane + 1),
                         readlane KernSub0 SVS StackPointerRegSpillLane,
                         readlane KernSub1 SVS FramePointerRegSpillLane,
                         S_LOAD_DWORDX2_IMM (KernSub0, KernSub1) (KernSub0, KernSub1) (convertSMRDOffsetUnits E 0),
                         Plain (S_WAITCNT 0)]))))"

fun preloadedValueForSVA :: "ScalarValueArgument \<Rightarrow> PreloadedValue option" where
  "preloadedValueForSVA WAVEFRONT_PRIVATE_SEGMENT_BUFFER = Some PV_PRIVATE_SEGMENT_BUFFER"
| "preloadedValueForSVA KERNEL_ARG_PTR = Some PV_KERNARG_SEGMENT_PTR"
| "preloadedValueForSVA DISPATCH_ID = Some PV_DISPATCH_ID"
| "preloadedValueForSVA FLAT_SCRATCH = Some PV_FLAT_SCRATCH_INIT"
| "preloadedValueForSVA DISPATCH_PTR = Some PV_DISPATCH_PTR"
| "preloadedValueForSVA QUEUE_PTR = Some PV_QUEUE_PTR"
| "preloadedValueForSVA WORK_ITEM_PRIVATE_SEGMENT_SIZE = Some PV_PRIVATE_SEGMENT_SIZE"
| "preloadedValueForSVA WORKGROUP_ID_X = Some PV_WORKGROUP_ID_X"
| "preloadedValueForSVA WORKGROUP_ID_Y = Some PV_WORKGROUP_ID_Y"
| "preloadedValueForSVA WORKGROUP_ID_Z = Some PV_WORKGROUP_ID_Z"
| "preloadedValueForSVA WORKITEM_ID_X = Some PV_WORKITEM_ID_X"
| "preloadedValueForSVA WORKITEM_ID_Y = Some PV_WORKITEM_ID_Y"
| "preloadedValueForSVA WORKITEM_ID_Z = Some PV_WORKITEM_ID_Z"
| "preloadedValueForSVA IMPLICIT_ARG_BUFFER = None"

definition setWorkItemID :: "preamble_env \<Rightarrow> PreloadedValue \<Rightarrow> nat \<Rightarrow> nat \<Rightarrow> sim_mfi \<Rightarrow> sim_mfi" where
  "setWorkItemID E pv v shift m =
     m\<lparr>ArgInfo := (ArgInfo m)(pv := Some
        (if hasPackedTID E then \<lparr>getRegister = VGPR 0, channels = 1, getMask = push_bit shift 0x3ff\<rparr>
         else \<lparr>getRegister = VGPR v, channels = 1, getMask = -1\<rparr>))\<rparr>"

text \<open>The switch that enables a value the application's kernel does not preload.\<close>

fun force_preloaded :: "preamble_env \<Rightarrow> PreloadedValue \<Rightarrow> sim_mfi \<Rightarrow> sim_mfi" where
  "force_preloaded E PV_PRIVATE_SEGMENT_BUFFER m =
     AddUserSGPR E PV_PRIVATE_SEGMENT_BUFFER (force_field E PV_PRIVATE_SEGMENT_BUFFER m)"
| "force_preloaded E PV_FLAT_SCRATCH_INIT m =
     AddUserSGPR E PV_FLAT_SCRATCH_INIT (force_field E PV_FLAT_SCRATCH_INIT m)"
| "force_preloaded E PV_KERNARG_SEGMENT_PTR m =
     AddUserSGPR E PV_KERNARG_SEGMENT_PTR (force_field E PV_KERNARG_SEGMENT_PTR m)"
| "force_preloaded E PV_QUEUE_PTR m =
     AddUserSGPR E PV_QUEUE_PTR (force_field E PV_QUEUE_PTR m)"
| "force_preloaded E PV_PRIVATE_SEGMENT_SIZE m =
     AddUserSGPR E PV_PRIVATE_SEGMENT_SIZE (force_field E PV_PRIVATE_SEGMENT_SIZE m)"
| "force_preloaded E PV_DISPATCH_ID m =
     AddUserSGPR E PV_DISPATCH_ID (removeFnAttr ''amdgpu-no-dispatch-id'' m)"
| "force_preloaded E PV_DISPATCH_PTR m =
     AddUserSGPR E PV_DISPATCH_PTR (removeFnAttr ''amdgpu-no-dispatch-ptr'' m)"
| "force_preloaded E PV_IMPLICIT_BUFFER_PTR m =
     AddUserSGPR E PV_IMPLICIT_BUFFER_PTR (removeFnAttr ''amdgpu-no-implicit-buffer-ptr'' m)"
| "force_preloaded E PV_WORKGROUP_ID_X m =
     addPreloaded E PV_WORKGROUP_ID_X
       (removeFnAttr ''amdgpu-no-cluster-id-x'' (removeFnAttr ''amdgpu-no-workgroup-id-x'' m))"
| "force_preloaded E PV_WORKGROUP_ID_Y m =
     addPreloaded E PV_WORKGROUP_ID_Y
       (removeFnAttr ''amdgpu-no-cluster-id-y'' (removeFnAttr ''amdgpu-no-workgroup-id-y'' m))"
| "force_preloaded E PV_WORKGROUP_ID_Z m =
     addPreloaded E PV_WORKGROUP_ID_Z
       (removeFnAttr ''amdgpu-no-cluster-id-z'' (removeFnAttr ''amdgpu-no-workgroup-id-z'' m))"
| "force_preloaded E PV_WORKITEM_ID_X m =
     setWorkItemID E PV_WORKITEM_ID_X 0 0 (removeFnAttr ''amdgpu-no-workitem-id-x'' m)"
| "force_preloaded E PV_WORKITEM_ID_Y m =
     setWorkItemID E PV_WORKITEM_ID_Y 1 10 (removeFnAttr ''amdgpu-no-workitem-id-y'' m)"
| "force_preloaded E PV_WORKITEM_ID_Z m =
     setWorkItemID E PV_WORKITEM_ID_Z 2 20 (removeFnAttr ''amdgpu-no-workitem-id-z'' m)"
| "force_preloaded E pv m = m"

text \<open>\<open>countr_zero\<close> and \<open>popcount\<close> of the mask of a packed work-item ID.\<close>

definition countr_zero :: "32 word \<Rightarrow> nat" where
  "countr_zero w = length (takeWhile (\<lambda>i. \<not> bit w i) [0..<32])"

definition popcount :: "32 word \<Rightarrow> nat" where
  "popcount w = length (filter (bit w) [0..<32])"

definition emit_workitem_id :: "mcreg \<Rightarrow> arg_desc \<Rightarrow> nat \<Rightarrow> kinst list" where
  "emit_workitem_id SVS Src Lane =
     [writelane SVS (SGPR 0) StackPointerRegSpillLane,
      V_READFIRSTLANE_B32 (SGPR 0) (getRegister Src)] @
     (if getMask Src = -1 then []
      else [S_BFE_U32 (SGPR 0) (SReg (SGPR 0))
              (SImm (push_bit 16 (of_nat (popcount (getMask Src))) OR of_nat (countr_zero (getMask Src))))]) @
     [writelane SVS (SGPR 0) Lane,
      readlane (SGPR 0) SVS StackPointerRegSpillLane]"

definition emit_argument ::
    "preamble_env \<Rightarrow> StateValueArraySpecs \<Rightarrow> mcreg \<Rightarrow> ScalarValueArgument \<Rightarrow> sim_mfi \<Rightarrow>
     preamble_error + sim_mfi \<times> kinst list" where
  "emit_argument E Specs SVS SA m =
     (case findArgumentLane Specs SA of
        None \<Rightarrow> Inl (NoLaneFor SA)
      | Some Lane \<Rightarrow>
          (case preloadedValueForSVA SA of
             None \<Rightarrow> Inr (m, [])
           | Some PV \<Rightarrow>
               (let m' = (if ArgInfo m PV = None then force_preloaded E PV m else m)
                in case ArgInfo m' PV of
                     None \<Rightarrow> Inl (SourceNotEnabled SA)
                   | Some Src \<Rightarrow>
                       if is_vgpr (getRegister Src)
                       then err_bind (err_check (getArgumentLaneSize SA = 1) WorkitemSlots) (\<lambda>_.
                              Inr (m', emit_workitem_id SVS Src Lane))
                       else err_bind (emitCodeToStoreSGPRKernelArg Src SVS Lane (getArgumentLaneSize SA)) (\<lambda>c.
                              Inr (m', c)))))"

fun emit_arguments ::
    "preamble_env \<Rightarrow> StateValueArraySpecs \<Rightarrow> mcreg \<Rightarrow> ScalarValueArgument list \<Rightarrow> sim_mfi \<Rightarrow>
     preamble_error + sim_mfi \<times> kinst list" where
  "emit_arguments E Specs SVS [] m = Inr (m, [])"
| "emit_arguments E Specs SVS (SA # SAs) m =
     err_bind (emit_argument E Specs SVS SA m) (\<lambda>(m', c).
       err_bind (emit_arguments E Specs SVS SAs m') (\<lambda>(m'', c'). Inr (m'', c @ c')))"

subsection \<open>Preloaded registers of the application\<close>

definition PreloadedArgSnapshot :: "preamble_env \<Rightarrow> sim_mfi \<Rightarrow> (PreloadedValue \<times> mcreg \<times> nat) list" where
  "PreloadedArgSnapshot E m =
     List.map_filter (\<lambda>pv. map_option (\<lambda>r. (pv, r)) (getPreloadedReg m pv)) (preloaded_values E)"

definition restore_moves :: "mcreg \<times> nat \<Rightarrow> mcreg \<times> nat \<Rightarrow> kinst list" where
  "restore_moves OldReg NewReg =
     map (\<lambda>i. let d = (if snd OldReg = 1 then fst OldReg else getSubReg (fst OldReg) i);
                  s = (if snd OldReg = 1 then fst NewReg else getSubReg (fst NewReg) i)
              in Plain (if is_vgpr (fst OldReg) then V_MOV_B32_e32 d (addReg s) else S_MOV_B32 d (addReg s)))
       [0..<snd OldReg]"

definition restore_preloaded :: "(PreloadedValue \<times> mcreg \<times> nat) list \<Rightarrow> sim_mfi \<Rightarrow> kinst list" where
  "restore_preloaded Snapshot m =
     concat (map (\<lambda>(Class, OldReg).
       case getPreloadedReg m Class of
         None \<Rightarrow> []
       | Some NewReg \<Rightarrow> if NewReg = OldReg then [] else restore_moves OldReg NewReg) Snapshot)"

definition restore_kernarg_preload ::
    "preamble_env \<Rightarrow> nat \<Rightarrow> nat \<Rightarrow> nat option \<Rightarrow> sim_mfi \<Rightarrow> sim_mfi \<times> kinst list" where
  "restore_kernarg_preload E OrigUsed OrigLength OffsetAttr m =
     (if OrigLength = 0 then (m, [])
      else if maxNumUserSGPRs E < NumUsedUserSGPRs m + OrigLength
      then let m' = enableKernargSegmentPtr E m;
               Base = ArgInfo m' PV_KERNARG_SEGMENT_PTR;
               Offset = (case OffsetAttr of None \<Rightarrow> 0 | Some n \<Rightarrow> n)
           in (disableKernargPreload OrigLength m',
               map (\<lambda>i. S_LOAD_DWORD_IMM (SGPR (OrigUsed + i)) (preloaded_sub Base 0, preloaded_sub Base 1)
                          (convertSMRDOffsetUnits E ((Offset + i) * 4))) [0..<OrigLength] @
               [Plain (S_WAITCNT 0)])
      else if NumUsedUserSGPRs m \<noteq> OrigUsed
      then (m, map (\<lambda>i. Plain (S_MOV_B32 (SGPR (OrigUsed + i)) (addReg (SGPR (NumUsedUserSGPRs m + i)))))
                 [0..<OrigLength])
      else (m, []))"

subsection \<open>The prologue\<close>

datatype value_kind =
    HiddenHostcallBuffer
  | HiddenHeapV1
  | HiddenMultiGridSyncArg
  | HiddenDefaultQueue
  | HiddenCompletionAction
  | HiddenQueuePtr
  | HiddenPrintfBuffer
  | OtherValueKind nat

fun clear_implicit_attr :: "preamble_env \<Rightarrow> value_kind \<Rightarrow> sim_mfi \<Rightarrow> sim_mfi" where
  "clear_implicit_attr E HiddenHostcallBuffer m = removeFnAttr ''amdgpu-no-hostcall-ptr'' m"
| "clear_implicit_attr E HiddenHeapV1 m = removeFnAttr ''amdgpu-no-heap-ptr'' m"
| "clear_implicit_attr E HiddenMultiGridSyncArg m = removeFnAttr ''amdgpu-no-multigrid-sync-arg'' m"
| "clear_implicit_attr E HiddenDefaultQueue m = removeFnAttr ''amdgpu-no-default-queue'' m"
| "clear_implicit_attr E HiddenCompletionAction m = removeFnAttr ''amdgpu-no-completion-action'' m"
| "clear_implicit_attr E HiddenQueuePtr m =
     AddUserSGPR E PV_QUEUE_PTR (force_field E PV_QUEUE_PTR (removeFnAttr ''amdgpu-no-queue-ptr'' m))"
| "clear_implicit_attr E k m = m"

text \<open>
  The sets that are folded over the payloads are lists here, in the order in which they are iterated.
\<close>

record SVAScratchSetupInfo =
  RequiresScratchAndStackSetup :: bool
  AnyPayloadUsesDynamicStack :: bool
  PayloadMaxFixedStackSize :: "32 word"
  RequestedKernelArguments :: "ScalarValueArgument list"
  ImplicitArgsExplicitlyRequested :: "value_kind list"

definition usesSVA :: "SVAScratchSetupInfo \<Rightarrow> bool" where
  "usesSVA info \<longleftrightarrow> RequiresScratchAndStackSetup info \<or> RequestedKernelArguments info \<noteq> []"

text \<open>
  The payloads of the instrumentation module with the facts of their machine functions and side effects
  that are folded; \<open>PlanVGPR\<close> is the load register of the plan of their point, if it has a plan.
\<close>

record payload_frame =
  hasStackObjects :: bool
  hasCalls :: bool
  hasVarSizedObjects :: bool
  getStackSize :: "32 word"

record payload =
  isInjectedPayload :: bool
  AttachedTo :: "nat option"
  PlanVGPR :: "mcreg option"
  Frame :: "payload_frame option"
  svas :: "ScalarValueArgument list"
  implicit_args :: "value_kind list"

definition set_add :: "'a list \<Rightarrow> 'a list \<Rightarrow> 'a list" where
  "set_add xs out = fold (\<lambda>x out. if x \<in> set out then out else out @ [x]) xs out"

definition fold_payload :: "nat \<Rightarrow> payload \<Rightarrow> SVAScratchSetupInfo \<Rightarrow> SVAScratchSetupInfo" where
  "fold_payload KernelMF P Info =
     (if \<not> isInjectedPayload P \<or> AttachedTo P \<noteq> Some KernelMF then Info
      else
        let I1 = (if PlanVGPR P = Some NoRegister then Info\<lparr>RequiresScratchAndStackSetup := True\<rparr> else Info);
            I2 = (case Frame P of
                    None \<Rightarrow> I1
                  | Some F \<Rightarrow>
                      I1\<lparr>RequiresScratchAndStackSetup :=
                           RequiresScratchAndStackSetup I1 \<or> hasStackObjects F \<or> hasCalls F,
                         AnyPayloadUsesDynamicStack := AnyPayloadUsesDynamicStack I1 \<or> hasVarSizedObjects F,
                         PayloadMaxFixedStackSize := max (PayloadMaxFixedStackSize I1) (getStackSize F)\<rparr>)
        in I2\<lparr>RequestedKernelArguments := set_add (svas P) (RequestedKernelArguments I2),
              ImplicitArgsExplicitlyRequested := set_add (implicit_args P) (ImplicitArgsExplicitlyRequested I2)\<rparr>)"

definition forced_implicit_args :: "value_kind list" where
  "forced_implicit_args =
     [HiddenHostcallBuffer, HiddenHeapV1, HiddenMultiGridSyncArg, HiddenDefaultQueue,
      HiddenCompletionAction, HiddenQueuePtr, HiddenPrintfBuffer]"

definition computeInitialEntryKernelSVAInfo :: "nat \<Rightarrow> payload list \<Rightarrow> bool \<Rightarrow> SVAScratchSetupInfo" where
  "computeInitialEntryKernelSVAInfo KernelMF payloads FullyDiscovered =
     fold (fold_payload KernelMF) payloads
       \<lparr>RequiresScratchAndStackSetup = False, AnyPayloadUsesDynamicStack = False,
        PayloadMaxFixedStackSize = 0,
        RequestedKernelArguments = (if FullyDiscovered then [] else [IMPLICIT_ARG_BUFFER]),
        ImplicitArgsExplicitlyRequested = (if FullyDiscovered then [] else forced_implicit_args)\<rparr>"

record kernel =
  NumBlocks :: nat
  NumEntryInsts :: nat
  EntrySegments :: "segment list"
  KernelVarSizedObjects :: bool
  KernelStackSize :: "32 word"
  arg_count :: nat
  preload_offset_attr :: "nat option"

definition expand_kernarg ::
    "preamble_env \<Rightarrow> StateValueArraySpecs \<Rightarrow> kernel \<Rightarrow> SVAScratchSetupInfo \<Rightarrow> mcreg \<Rightarrow> sim_mfi \<Rightarrow>
     preamble_error + sim_mfi \<times> kinst list" where
  "expand_kernarg E Specs K info SVS m =
     (let HasAppKernarg = 1 \<le> arg_count K;
          m1 = fold (clear_implicit_attr E) (ImplicitArgsExplicitlyRequested info) m;
          m2 = (if HasAppKernarg
                then m1\<lparr>Arg0Attrs := filter (\<lambda>a. a \<noteq> ''byref'' \<and> a \<noteq> ''align'') (Arg0Attrs m1)\<rparr> else m1)
      in emitKernargBufferExpansion E Specs SVS HasAppKernarg m2)"

definition setup_vgpr :: "SVAStorage \<Rightarrow> mcreg" where
  "setup_vgpr EntrySVS =
     (if is_vgpr (getStateValueStorageReg EntrySVS) then getStateValueStorageReg EntrySVS else VGPR 3)"

definition stack_use_of :: "kernel \<Rightarrow> SVAScratchSetupInfo \<Rightarrow> stack_use" where
  "stack_use_of K info =
     \<lparr>AppUsesDynamicStack = KernelVarSizedObjects K,
      AppPrivateSegmentFixedSize = KernelStackSize K,
      PayloadUsesDynamicStack = AnyPayloadUsesDynamicStack info,
      MaxFixedStackSize = PayloadMaxFixedStackSize info\<rparr>"

text \<open>
  The prologue in two parts: the code before the first instruction of the kernel, and the emission that
  moves the array into its storage. The stack use of the payloads is passed on with that of the kernel.
\<close>

definition emit_prologue ::
    "gcn_subtarget \<Rightarrow> preamble_env \<Rightarrow> StateValueArraySpecs \<Rightarrow> kernel \<Rightarrow> SVAScratchSetupInfo \<Rightarrow>
     SVAStorage \<Rightarrow> sim_mfi \<Rightarrow> preamble_error + sim_mfi \<times> kinst list \<times> mir_item list" where
  "emit_prologue st E Specs K info EntrySVS m =
     (let SVS = setup_vgpr EntrySVS
      in err_bind
           (if RequiresScratchAndStackSetup info
            then emitCodeToSetupScratch st E Specs SVS (stack_use_of K info) m else Inr (m, []))
           (\<lambda>(m1, c1).
         err_bind
           (if IMPLICIT_ARG_BUFFER \<in> set (RequestedKernelArguments info)
            then expand_kernarg E Specs K info SVS m1 else Inr (m1, []))
           (\<lambda>(m2, c2).
         err_bind (emit_arguments E Specs SVS (RequestedKernelArguments info) m2)
           (\<lambda>(m3, c3).
         let c4 = restore_preloaded (PreloadedArgSnapshot E m) m3
         in case restore_kernarg_preload E (NumUsedUserSGPRs m) (NumKernargPreloadSGPRs m)
                   (preload_offset_attr K) m3 of
              (m5, c5) \<Rightarrow>
                Inr (m5, c1 @ c2 @ c3 @ c4 @ c5,
                     if is_vgpr (getStateValueStorageReg EntrySVS) then []
                     else emitCodeToStoreSVA st EntrySVS SVS)))))"

definition emitInitialEntryKernelSetup ::
    "gcn_subtarget \<Rightarrow> preamble_env \<Rightarrow> StateValueArraySpecs \<Rightarrow> kernel \<Rightarrow> SVAScratchSetupInfo \<Rightarrow> sim_mfi \<Rightarrow>
     preamble_error + sim_mfi \<times> kinst list \<times> mir_item list" where
  "emitInitialEntryKernelSetup st E Specs K info m =
     (if \<not> usesSVA info then Inr (m, [], [])
      else if NumBlocks K = 0 then Inl NoBlocks
      else if NumEntryInsts K = 0 then Inl EmptyEntryBlock
      else
        case EntrySegments K of
          [] \<Rightarrow> Inl NoSegmentAtEntry
        | (b, e, (i, EntrySVS)) # segs \<Rightarrow> emit_prologue st E Specs K info EntrySVS m)"

end
