(* ===== verification/Kernel_Code.thy ===== *)
theory Kernel_Code
  imports Kernel_Preamble
begin

text \<open>
  The effect of each piece of the kernel prologue (\<open>Kernel_Preamble\<close>): what it leaves alone (\<open>keeps\<close>)
  and which lanes of the setup VGPR get which value; which registers the emission leaves where they are
  (\<open>stays\<close>); and the loop over the requested arguments, whose lanes do not overlap.
\<close>

subsection \<open>Effect of the code\<close>

text \<open>
  What a piece of the prologue leaves alone: everything but some lanes of the setup VGPR, some scalar
  registers and SCC.
\<close>

definition keeps :: "mcreg \<Rightarrow> nat set \<Rightarrow> mcreg set \<Rightarrow> gpu \<Rightarrow> gpu \<Rightarrow> bool" where
  "keeps SVS L R g h \<longleftrightarrow>
     exec_mask h = exec_mask g \<and> scratch h = scratch g \<and> (\<forall>r. r \<notin> R \<longrightarrow> sregs h r = sregs g r) \<and>
     (\<forall>r. r \<noteq> SVS \<longrightarrow> vregs h r = vregs g r) \<and> (\<forall>l. l \<notin> L \<longrightarrow> vregs h SVS l = vregs g SVS l)"

lemma keeps_refl [simp]: "keeps SVS L R g g"
  by (simp add: keeps_def)

lemma keeps_trans:
  "keeps SVS L R g h \<Longrightarrow> keeps SVS L' R' h k \<Longrightarrow> keeps SVS (L \<union> L') (R \<union> R') g k"
  by (simp add: keeps_def)

lemma keeps_mono: "keeps SVS L R g h \<Longrightarrow> L \<subseteq> L' \<Longrightarrow> R \<subseteq> R' \<Longrightarrow> keeps SVS L' R' g h"
  by (auto simp: keeps_def)

definition lane_pair :: "gpu \<Rightarrow> mcreg \<Rightarrow> nat \<Rightarrow> 64 word" where
  "lane_pair g v l = push_bit 32 (ucast (vregs g v (Suc l))) OR ucast (vregs g v l)"

lemma add_carry_parts:
  "ucast (add_carry a b c) = a + b + (if c then 1 else 0 :: 32 word)"
  "(0x100000000 \<le> add_carry a b False) = (2 ^ 32 \<le> unat a + unat b)"
proof -
  show "ucast (add_carry a b c) = a + b + (if c then 1 else 0 :: 32 word)"
    by (cases c) (simp_all add: add_carry_def ucast_add_down ucast_down_up)
  have "unat (ucast a + ucast b :: 64 word) = unat a + unat b"
  proof -
    have "unat a < 2 ^ 32" "unat b < 2 ^ 32" using unsigned_less [of a] unsigned_less [of b] by simp_all
    then show ?thesis by (simp add: unat_word_ariths unat_ucast_up)
  qed
  then show "(0x100000000 \<le> add_carry a b False) = (2 ^ 32 \<le> unat a + unat b)"
    by (simp add: add_carry_def word_le_nat_alt)
qed

lemma pair_parts:
  "ucast (push_bit 32 (ucast (hi :: 32 word)) OR ucast (lo :: 32 word) :: 64 word) = lo"
  "ucast (drop_bit 32 (push_bit 32 (ucast (hi :: 32 word)) OR ucast (lo :: 32 word) :: 64 word)) = hi"
  by (rule bit_word_eqI; auto simp: bit_simps dest: bit_imp_le_length)+

text \<open>The addition of a 32-bit value to a register pair with a carry is the addition on 64 bits.\<close>

lemma pair_add:
  fixes lo hi b :: "32 word"
  shows "push_bit 32 (ucast (ucast (add_carry hi 0 (0x100000000 \<le> add_carry lo b False)) :: 32 word)) OR
      ucast (ucast (add_carry lo b False) :: 32 word) =
    ((push_bit 32 (ucast hi) OR ucast lo) + ucast b :: 64 word)"
proof -
  let ?p = "push_bit 32 (ucast hi) OR ucast lo :: 64 word"
  have z: "ucast (drop_bit 32 (ucast b :: 64 word)) = (0 :: 32 word)"
    by (rule bit_word_eqI) (auto simp: bit_simps dest: bit_imp_le_length)
  have "push_bit 32 (ucast (hi + 0 + (if 2 ^ 32 \<le> unat lo + unat b then 1 else 0))) OR ucast (lo + b) = ?p + ucast b"
    using far_add [of ?p "ucast b"] unfolding pair_parts z ucast_down_up .
  then show ?thesis unfolding add_carry_parts by simp
qed

lemmas step_simps = writelane_def readlane_def addReg_def Let_def fixed_lanes

lemma scratch_init_effect:
  assumes "Lo \<noteq> Hi" and "1 < Lane" and "Suc Lane < wave_size st"
    and h: "h = exec_ks st E gm (EmitScratchPSBInit SVS PSWO Lo Hi Lane) g"
  shows "keeps SVS {0, 1, Lane, Suc Lane} {} g h"
    and "lane_pair h SVS Lane = sgpr_pair g (Lo, Hi) + ucast (sregs g PSWO)"
proof -
  have m: "0 mod wave_size st = 0" "wave_size st \<noteq> Suc 0" "Lane mod wave_size st = Lane"
    "Suc Lane mod wave_size st = Suc Lane"
    using assms(2,3) by simp_all
  show "keeps SVS {0, 1, Lane, Suc Lane} {} g h"
    using assms(1,2) by (auto simp: h keeps_def EmitScratchPSBInit_def step_simps m)
  show "lane_pair h SVS Lane = sgpr_pair g (Lo, Hi) + ucast (sregs g PSWO)"
    using assms(1,2) pair_add [of "sregs g Hi" "sregs g Lo" "sregs g PSWO"]
    by (simp add: h lane_pair_def sgpr_pair_def EmitScratchPSBInit_def step_simps m)
qed

text \<open>The value that the stack pointer lane gets.\<close>

definition stack_start :: "preamble_env \<Rightarrow> stack_use \<Rightarrow> sim_mfi \<Rightarrow> gpu \<Rightarrow> 32 word" where
  "stack_start E u m g =
     (if AppUsesDynamicStack u
      then sregs g (preloaded_reg (ArgInfo m PV_PRIVATE_SEGMENT_SIZE)) - PayloadReservation E u
      else AppPrivateSegmentFixedSize u + SVSSlotsReservation)"

lemma stack_pointer_effect:
  assumes "setup_stack_pointer E SVS u m = Inr (m', c)" and "2 < wave_size st"
    and h: "h = exec_ks st E gm c g"
  shows "keeps SVS {1, 2} {} g h" and "vregs h SVS StackPointerStoreLane = stack_start E u m' g"
proof -
  have m: "0 mod wave_size st = 0" "wave_size st \<noteq> Suc 0" "2 mod wave_size st = 2"
    using assms(2) by simp_all
  from assms(1) show "keeps SVS {1, 2} {} g h"
    by (auto simp: h keeps_def setup_stack_pointer_def err_bind_Inr_iff step_simps m
        split: if_splits option.splits)
  from assms(1) show "vregs h SVS StackPointerStoreLane = stack_start E u m' g"
    by (auto simp: h setup_stack_pointer_def err_bind_Inr_iff step_simps m stack_start_def
        preloaded_reg_def split: if_splits option.splits)
qed

lemma expansion_effect:
  assumes "emitKernargBufferExpansion E Specs SVS app m = Inr (m', c)"
    and "ArgInfo m' PV_KERNARG_SEGMENT_PTR = Some d" and "is_sgpr (getRegister d)"
    and "findArgumentLane Specs IMPLICIT_ARG_BUFFER = Some Lane" and "1 < Lane" and "Suc Lane < wave_size st"
    and "smrd_bytes E (convertSMRDOffsetUnits E 0) = 0"
    and h: "h = exec_ks st E gm c g"
  defines "K0 \<equiv> getSubReg (getRegister d) 0" and "K1 \<equiv> getSubReg (getRegister d) 1"
  shows "keeps SVS {0, 1, Lane, Suc Lane} (if app then {K0, K1} else {}) g h"
    and "lane_pair h SVS Lane = sgpr_pair g (K0, K1) + (if app then 8 else 0)"
    and "app \<Longrightarrow> sregs h K0 = gm (sgpr_pair g (K0, K1)) \<and> sregs h K1 = gm (sgpr_pair g (K0, K1) + 4)"
proof -
  have m: "0 mod wave_size st = 0" "wave_size st \<noteq> Suc 0" "Lane mod wave_size st = Lane"
    "Suc Lane mod wave_size st = Suc Lane"
    using assms(5,6) by simp_all
  have K: "K0 \<noteq> K1" using assms(3) by (auto simp: K0_def K1_def elim: is_sgprE)
  let ?base = "[writelane SVS K0 0, writelane SVS K1 1, S_ADD_U32 K0 (SReg K0) (SImm 8),
      S_ADDC_U32 K1 (SReg K1) (SImm 0), writelane SVS K0 Lane, writelane SVS K1 (Suc Lane),
      readlane K0 SVS 0, readlane K1 SVS 1,
      S_LOAD_DWORDX2_IMM (K0, K1) (K0, K1) (convertSMRDOffsetUnits E 0), Plain (S_WAITCNT 0)]"
  have c: "c = (if app then ?base else [writelane SVS K0 Lane, writelane SVS K1 (Suc Lane)])"
    using assms(1,2,4)
    by (auto simp: emitKernargBufferExpansion_def Let_def K0_def K1_def fixed_lanes split: option.splits if_splits)
  show "keeps SVS {0, 1, Lane, Suc Lane} (if app then {K0, K1} else {}) g h"
    using K assms(5) by (cases app) (auto simp: h c keeps_def step_simps m)
  have "ucast (8 :: 32 word) = (8 :: 64 word)" by simp
  then show "lane_pair h SVS Lane = sgpr_pair g (K0, K1) + (if app then 8 else 0)"
    using K assms(5) pair_add [of "sregs g K1" "sregs g K0" 8]
    by (cases app) (simp_all add: h c lane_pair_def sgpr_pair_def step_simps m)
  show "sregs h K0 = gm (sgpr_pair g (K0, K1)) \<and> sregs h K1 = gm (sgpr_pair g (K0, K1) + 4)" if app
    using that K assms(5,7) by (simp add: h c step_simps m sgpr_pair_def)
qed

text \<open>The field of a register that a mask selects, in place of the two operands of the extraction.\<close>

definition masked_field :: "32 word \<Rightarrow> 32 word \<Rightarrow> 32 word" where
  "masked_field m x = drop_bit (countr_zero m) x AND mask (popcount m)"

lemma masked_field_all: "masked_field (-1) x = x"
proof -
  have "countr_zero (-1) = 0" "popcount (-1) = 32"
    by (simp_all add: countr_zero_def popcount_def upt_rec)
  moreover have "x AND mask 32 = x"
    by (rule bit_word_eqI) (auto simp: bit_simps dest: bit_imp_le_length)
  ultimately show ?thesis by (simp add: masked_field_def)
qed

lemma bfe_operand:
  assumes "p \<le> 32" "z < 32"
  shows "bfe_u32 x (push_bit 16 (of_nat p) OR of_nat z) = drop_bit z x AND mask p"
proof -
  let ?s = "push_bit 16 (of_nat p) OR of_nat z :: 32 word"
  have z: "unat (of_nat z :: 32 word) = z" and p: "unat (of_nat p :: 32 word) = p"
    using assms by (simp_all add: unat_of_nat32)
  have tz: "take_bit 5 (of_nat z :: 32 word) = of_nat z"
    using assms(2) by (simp add: take_bit_of_nat take_bit_nat_eq_self)
  have dz: "drop_bit 16 (of_nat z :: 32 word) = 0"
  proof (rule bit_word_eqI)
    fix n
    have "bit (of_nat z :: 32 word) (16 + n) = bit (take_bit 5 (of_nat z :: 32 word)) (16 + n)"
      by (simp only: tz)
    then show "bit (drop_bit 16 (of_nat z :: 32 word)) n = bit 0 n"
      by (simp add: bit_drop_bit_eq bit_take_bit_iff)
  qed
  have tp: "take_bit 7 (of_nat p :: 32 word) = of_nat p"
    using assms(1) by (simp add: take_bit_of_nat take_bit_nat_eq_self)
  have "?s AND 31 = take_bit 5 ?s" by (simp add: take_bit_eq_mask mask_eq_exp_minus_1)
  also have "\<dots> = of_nat z" by (simp add: take_bit_or tz take_bit_push_bit)
  finally have 1: "unat (?s AND 31) = z" by (simp add: z)
  have dp: "drop_bit 16 (push_bit 16 (of_nat p :: 32 word)) = of_nat p"
  proof -
    have "bit (of_nat p :: 32 word) n \<Longrightarrow> n < 16" for n
    proof -
      assume "bit (of_nat p :: 32 word) n"
      then have "bit (take_bit 7 (of_nat p :: 32 word)) n" by (simp add: tp)
      then show "n < 16" by (simp add: bit_take_bit_iff)
    qed
    then show ?thesis by (intro bit_word_eqI) (auto simp: bit_simps)
  qed
  have "drop_bit 16 ?s AND 127 = take_bit 7 (drop_bit 16 ?s)"
    by (simp add: take_bit_eq_mask mask_eq_exp_minus_1)
  also have "\<dots> = of_nat p" by (simp add: drop_bit_or dp dz tp)
  finally have 2: "unat (drop_bit 16 ?s AND 127) = p" by (simp add: p)
  show ?thesis unfolding bfe_u32_def 1 2 by (simp add: mask_eq_exp_minus_1 push_bit_eq_mult)
qed

lemma bfe_masked:
  "bfe_u32 x (push_bit 16 (of_nat (popcount m)) OR of_nat (countr_zero m)) = masked_field m x"
proof (cases "m = 0")
  case True
  have "takeWhile (\<lambda>i. \<not> bit m i) [0..<32] = [0..<32]"
    unfolding takeWhile_eq_all_conv by (simp add: True)
  then have "length (takeWhile (\<lambda>i. \<not> bit m i) [0..<32]) = length [0..<32]" by (rule arg_cong)
  then have "countr_zero m = 32" unfolding countr_zero_def by simp
  moreover have "popcount m = 0" by (simp add: True popcount_def)
  ultimately show ?thesis by (simp add: bfe_u32_def masked_field_def)
next
  case False
  then obtain n where n: "bit m n" "n < 32"
    using bit_imp_le_length [of m] by (auto simp: bit_eq_iff)
  have "length (takeWhile (\<lambda>i. \<not> bit m i) [0..<32]) < length [0..<32]"
  proof (rule ccontr)
    assume "\<not> ?thesis"
    then have "takeWhile (\<lambda>i. \<not> bit m i) [0..<32] = [0..<32]"
      using length_takeWhile_le [of "\<lambda>i. \<not> bit m i" "[0..<32]"] takeWhile_eq_take [of "\<lambda>i. \<not> bit m i" "[0..<32]"]
      by simp
    then have "\<forall>i\<in>set [0..<32]. \<not> bit m i" unfolding takeWhile_eq_all_conv .
    with n show False by simp
  qed
  then have "countr_zero m < 32" by (simp add: countr_zero_def)
  moreover have "popcount m \<le> 32"
    using length_filter_le [of "bit m" "[0..<32]"] by (simp add: popcount_def)
  ultimately show ?thesis by (simp add: bfe_operand masked_field_def)
qed

text \<open>The dwords of a preloaded value.\<close>

definition arg_dword :: "gcn_subtarget \<Rightarrow> gpu \<Rightarrow> arg_desc \<Rightarrow> nat \<Rightarrow> 32 word" where
  "arg_dword st g d i =
     (if is_vgpr (getRegister d) then masked_field (getMask d) (readfirstlane st g (getRegister d))
      else sregs g (getSubReg (getRegister d) i))"

lemma readfirstlane_cong:
  "exec_mask h = exec_mask g \<Longrightarrow> vregs h r = vregs g r \<Longrightarrow> readfirstlane st h r = readfirstlane st g r"
  by (simp add: readfirstlane_def active_def [abs_def])

lemma workitem_effect:
  assumes "1 < Lane" and "Lane < wave_size st" and "is_vgpr (getRegister d)" and "getRegister d \<noteq> SVS"
    and h: "h = exec_ks st E gm (emit_workitem_id SVS d Lane) g"
  shows "keeps SVS {0, Lane} {} g h" and "vregs h SVS Lane = arg_dword st g d i"
proof -
  have m: "0 mod wave_size st = 0" "wave_size st \<noteq> Suc 0" "Lane mod wave_size st = Lane"
    using assms(1,2) by simp_all
  have r: "readfirstlane st (g\<lparr>vregs := (vregs g)(SVS := f)\<rparr>) (getRegister d) = readfirstlane st g (getRegister d)" for f
    using assms(4) by (intro readfirstlane_cong) simp_all
  show "keeps SVS {0, Lane} {} g h"
    using assms(1) by (auto simp: h keeps_def emit_workitem_id_def step_simps m)
  show "vregs h SVS Lane = arg_dword st g d i"
    using assms(1,3)
    by (auto simp: h emit_workitem_id_def step_simps m r arg_dword_def bfe_masked masked_field_all)
qed

lemma writelanes_effect:
  assumes "Lane + n \<le> wave_size st"
    and h: "h = exec_ks st E gm (map (\<lambda>i. writelane SVS (f i) (Lane + i)) [0..<n]) g"
  shows "keeps SVS {Lane..<Lane + n} {} g h" and "i < n \<Longrightarrow> vregs h SVS (Lane + i) = sregs g (f i)"
proof -
  have "keeps SVS {Lane..<Lane + n} {} g h \<and> (\<forall>i<n. vregs h SVS (Lane + i) = sregs g (f i))"
    using assms
  proof (induction n arbitrary: h)
    case 0
    then show ?case by simp
  next
    case (Suc n)
    let ?k = "exec_ks st E gm (map (\<lambda>i. writelane SVS (f i) (Lane + i)) [0..<n]) g"
    have IH: "keeps SVS {Lane..<Lane + n} {} g ?k" "\<forall>i<n. vregs ?k SVS (Lane + i) = sregs g (f i)"
      using Suc.IH [OF _ refl] Suc.prems(1) by simp_all
    have "h = ?k\<lparr>vregs := (vregs ?k)(SVS := (vregs ?k SVS)(Lane + n := sregs ?k (f n)))\<rparr>"
      using Suc.prems by (simp add: step_simps)
    with IH show ?case by (auto simp: keeps_def less_Suc_eq)
  qed
  then show "keeps SVS {Lane..<Lane + n} {} g h" "i < n \<Longrightarrow> vregs h SVS (Lane + i) = sregs g (f i)"
    by simp_all
qed

lemma kernel_arg_effect:
  assumes "emitCodeToStoreSGPRKernelArg d SVS Lane n = Inr c" and "Lane + n \<le> wave_size st"
    and "is_sgpr (getRegister d)" and h: "h = exec_ks st E gm c g"
  shows "keeps SVS {Lane..<Lane + n} {} g h" and "i < n \<Longrightarrow> vregs h SVS (Lane + i) = arg_dword st g d i"
proof -
  obtain k where k: "getRegister d = SGPR k" using assms(3) by (rule is_sgprE)
  have "c = map (\<lambda>i. writelane SVS (getSubReg (getRegister d) i) (Lane + i)) [0..<n]"
    using assms(1) by (auto simp: emitCodeToStoreSGPRKernelArg_def err_bind_Inr_iff k split: if_splits)
  then have h': "h = exec_ks st E gm (map (\<lambda>i. writelane SVS (getSubReg (getRegister d) i) (Lane + i)) [0..<n]) g"
    using h by simp
  from writelanes_effect [OF assms(2) h'] show "keeps SVS {Lane..<Lane + n} {} g h" "i < n \<Longrightarrow> vregs h SVS (Lane + i) = arg_dword st g d i"
    by (simp_all add: arg_dword_def k)
qed

subsection \<open>Lanes of the arguments\<close>

definition arg_lanes :: "StateValueArraySpecs \<Rightarrow> ScalarValueArgument \<Rightarrow> nat set" where
  "arg_lanes Specs SA =
     (case findArgumentLane Specs SA of None \<Rightarrow> {} | Some b \<Rightarrow> {b..<b + getArgumentLaneSize SA})"

definition lanes_ok :: "gcn_subtarget \<Rightarrow> StateValueArraySpecs \<Rightarrow> bool" where
  "lanes_ok st Specs \<longleftrightarrow> distinct (sva_lanes Specs) \<and> (\<forall>l\<in>set (sva_lanes Specs). l < wave_size st)"

lemma distinct_concat_map:
  "distinct (concat (map f xs)) \<Longrightarrow> p \<in> set xs \<Longrightarrow> q \<in> set xs \<Longrightarrow> p \<noteq> q \<Longrightarrow> set (f p) \<inter> set (f q) = {}"
  by (induction xs) (force+)

lemma arg_lanes_props:
  assumes "lanes_ok st Specs"
  shows "a \<noteq> b \<Longrightarrow> arg_lanes Specs a \<inter> arg_lanes Specs b = {}"
    and "l \<in> arg_lanes Specs a \<Longrightarrow> 2 < l \<and> l < wave_size st \<and> l \<in> set (sva_lanes Specs)"
proof -
  let ?f = "\<lambda>(sa, b). lane_range b (getArgumentLaneSize sa)"
  have D: "distinct (concat (map ?f (ScalarArguments Specs)))"
    using assms by (simp add: lanes_ok_def sva_lanes_def)
  have mem: "(a, b) \<in> set (ScalarArguments Specs)" if "findArgumentLane Specs a = Some b" for a b
    using that by (simp add: findArgumentLane_def map_of_SomeD)
  show "arg_lanes Specs a \<inter> arg_lanes Specs b = {}" if ab: "a \<noteq> b"
  proof (cases "findArgumentLane Specs a"; cases "findArgumentLane Specs b")
    fix x y
    assume x: "findArgumentLane Specs a = Some x" and y: "findArgumentLane Specs b = Some y"
    have "{x..<x + getArgumentLaneSize a} \<inter> {y..<y + getArgumentLaneSize b} = {}"
      using distinct_concat_map [OF D mem [OF x] mem [OF y]] ab by (simp add: lane_range_def)
    then show ?thesis by (simp add: arg_lanes_def x y)
  qed (simp_all add: arg_lanes_def)
  show "2 < l \<and> l < wave_size st \<and> l \<in> set (sva_lanes Specs)" if "l \<in> arg_lanes Specs a"
  proof -
    from that obtain b where b: "findArgumentLane Specs a = Some b" "b \<le> l" "l < b + getArgumentLaneSize a"
      by (auto simp: arg_lanes_def split: option.splits)
    then have "l \<in> set (concat (map ?f (ScalarArguments Specs)))"
      using mem [OF b(1)] by auto
    moreover from this have "l \<noteq> 0" "l \<noteq> 1" "l \<noteq> 2"
      using assms by (auto simp: lanes_ok_def sva_lanes_def fixed_lanes)
    ultimately show ?thesis using assms by (auto simp: lanes_ok_def sva_lanes_def)
  qed
qed

lemma arg_lane_run:
  assumes "lanes_ok st Specs" and "findArgumentLane Specs a = Some b"
  shows "arg_lanes Specs a = {b..<b + getArgumentLaneSize a}" and "2 < b"
    and "b + getArgumentLaneSize a \<le> wave_size st"
proof -
  show R: "arg_lanes Specs a = {b..<b + getArgumentLaneSize a}" using assms(2) by (simp add: arg_lanes_def)
  have 0: "0 < getArgumentLaneSize a" by (rule getArgumentLaneSize_bounds)
  then have "b \<in> arg_lanes Specs a" "b + getArgumentLaneSize a - 1 \<in> arg_lanes Specs a" by (auto simp: R)
  from this [THEN arg_lanes_props(2) [OF assms(1)]] 0
  show "2 < b" "b + getArgumentLaneSize a \<le> wave_size st" by arith+
qed

lemma lane_pair_cong:
  "keeps SVS L R g h \<Longrightarrow> l \<notin> L \<Longrightarrow> Suc l \<notin> L \<Longrightarrow> lane_pair h SVS l = lane_pair g SVS l"
  by (simp add: keeps_def lane_pair_def)

lemma keeps_sregs: "keeps SVS L {} g h \<Longrightarrow> sregs h = sregs g"
  by (simp add: keeps_def fun_eq_iff)

lemma keeps_pair: "keeps SVS L {} g h \<Longrightarrow> sgpr_pair h p = sgpr_pair g p"
  by (simp add: keeps_sregs sgpr_pair_def)

subsection \<open>Scratch base\<close>

definition sub_pair :: "arg_desc option \<Rightarrow> mcreg \<times> mcreg" where
  "sub_pair d = (preloaded_sub d 0, preloaded_sub d 1)"

definition sgpr_arg :: "sim_mfi \<Rightarrow> PreloadedValue \<Rightarrow> bool" where
  "sgpr_arg m pv \<longleftrightarrow> (\<exists>d. ArgInfo m pv = Some d \<and> is_sgpr (getRegister d))"

lemma sgpr_arg_subs: "sgpr_arg m pv \<Longrightarrow> i \<noteq> j \<Longrightarrow> preloaded_sub (ArgInfo m pv) i \<noteq> preloaded_sub (ArgInfo m pv) j"
  by (auto simp: sgpr_arg_def preloaded_sub_def elim!: is_sgprE)

text \<open>The scratch base of the wave: the preloaded base plus the offset of the wave.\<close>

definition wave_base :: "gpu \<Rightarrow> sim_mfi \<Rightarrow> PreloadedValue \<Rightarrow> 64 word" where
  "wave_base g m pv =
     sgpr_pair g (sub_pair (ArgInfo m pv)) +
     ucast (sregs g (preloaded_reg (ArgInfo m PV_PRIVATE_SEGMENT_WAVE_BYTE_OFFSET)))"

lemma scratch_base_effect:
  assumes emit: "setup_scratch_base st E Specs SVS m = Inr (m', c)" and ok: "lanes_ok st Specs"
    and add: "\<And>pv pv' m. pv \<noteq> pv' \<Longrightarrow> ArgInfo (addPreloaded E pv' m) pv = ArgInfo m pv"
    and fs: "sgpr_arg m' PV_FLAT_SCRATCH_INIT"
    and psb: "\<not> enableFlatScratch st \<Longrightarrow> sgpr_arg m' PV_PRIVATE_SEGMENT_BUFFER"
    and h: "h = exec_ks st E gm c g"
  shows "keeps SVS ({0, 1} \<union> arg_lanes Specs FLAT_SCRATCH \<union> arg_lanes Specs WAVEFRONT_PRIVATE_SEGMENT_BUFFER) {} g h"
    and "\<exists>l. findArgumentLane Specs FLAT_SCRATCH = Some l \<and> lane_pair h SVS l = wave_base g m' PV_FLAT_SCRATCH_INIT"
proof -
  obtain fl where fl: "findArgumentLane Specs FLAT_SCRATCH = Some fl"
    using emit by (auto simp: setup_scratch_base_def Let_def err_bind_Inr_iff split: option.splits)
  note FL = arg_lane_run [OF ok fl, simplified]
  let ?FS = "preloaded_sub (ArgInfo m' PV_FLAT_SCRATCH_INIT)"
  let ?PSB = "preloaded_sub (ArgInfo m' PV_PRIVATE_SEGMENT_BUFFER)"
  let ?W = "preloaded_reg (ArgInfo m' PV_PRIVATE_SEGMENT_WAVE_BYTE_OFFSET)"
  have FSne: "?FS 0 \<noteq> ?FS 1" using fs by (rule sgpr_arg_subs) simp
  show "keeps SVS ({0, 1} \<union> arg_lanes Specs FLAT_SCRATCH \<union> arg_lanes Specs WAVEFRONT_PRIVATE_SEGMENT_BUFFER) {} g h"
    and "\<exists>l. findArgumentLane Specs FLAT_SCRATCH = Some l \<and> lane_pair h SVS l = wave_base g m' PV_FLAT_SCRATCH_INIT"
  proof -
    let ?init = "EmitScratchPSBInit SVS ?W (?FS 0) (?FS 1) fl"
    obtain c0 where c: "c = c0 @ ?init" and
      c0: "c0 = (if enableFlatScratch st then []
         else case findArgumentLane Specs WAVEFRONT_PRIVATE_SEGMENT_BUFFER of None \<Rightarrow> []
           | Some l \<Rightarrow> EmitScratchPSBInit SVS ?W (?PSB 0) (?PSB 1) l @
               [writelane SVS (?PSB 2) (l + 2), writelane SVS (?PSB 3) (l + 3)])"
      using emit fl add by (auto simp: setup_scratch_base_def Let_def err_bind_Inr_iff split: option.splits if_splits)
    define k where "k = exec_ks st E gm c0 g"
    have K: "keeps SVS ({0, 1} \<union> arg_lanes Specs WAVEFRONT_PRIVATE_SEGMENT_BUFFER) {} g k"
    proof (cases "enableFlatScratch st")
      case False
      show ?thesis
      proof (cases "findArgumentLane Specs WAVEFRONT_PRIVATE_SEGMENT_BUFFER")
        case (Some l)
        note PL = arg_lane_run [OF ok Some, simplified]
        have ne: "?PSB 0 \<noteq> ?PSB 1" using psb [OF False] by (rule sgpr_arg_subs) simp
        let ?k = "exec_ks st E gm (EmitScratchPSBInit SVS ?W (?PSB 0) (?PSB 1) l) g"
        have "keeps SVS {0, 1, l, Suc l} {} g ?k"
          using PL by (intro scratch_init_effect(1) [OF ne _ _ refl]) simp_all
        moreover have "keeps SVS {l + 2, l + 3} {} ?k k"
          using PL by (simp add: k_def c0 False Some step_simps keeps_def)
        ultimately have "keeps SVS ({0, 1, l, Suc l} \<union> {l + 2, l + 3}) ({} \<union> {}) g k" by (rule keeps_trans)
        then show ?thesis by (rule keeps_mono) (auto simp: PL(1))
      qed (simp add: k_def c0 False)
    qed (simp add: k_def c0)
    have h2: "h = exec_ks st E gm ?init k" by (simp add: h c k_def)
    note I = scratch_init_effect [OF FSne _ _ h2]
    have "keeps SVS {0, 1, fl, Suc fl} {} k h" using FL by (intro I(1)) simp_all
    from keeps_trans [OF K this]
    show "keeps SVS ({0, 1} \<union> arg_lanes Specs FLAT_SCRATCH \<union> arg_lanes Specs WAVEFRONT_PRIVATE_SEGMENT_BUFFER) {} g h"
      by (rule keeps_mono) (auto simp: FL(1))
    have "lane_pair h SVS fl = sgpr_pair k (?FS 0, ?FS 1) + ucast (sregs k ?W)"
      using FL by (intro I(2)) simp_all
    then show "\<exists>l. findArgumentLane Specs FLAT_SCRATCH = Some l \<and>
        lane_pair h SVS l = wave_base g m' PV_FLAT_SCRATCH_INIT"
      by (simp add: fl wave_base_def sub_pair_def keeps_sregs [OF K] keeps_pair [OF K])
  qed
qed


subsection \<open>Registers of preloaded values\<close>

text \<open>
  What the code relies on in LLVM: enabling a value sets the register of that value and of no other.
  Then the register of a value that is preloaded stays what it is.
\<close>

definition enables_one :: "preamble_env \<Rightarrow> bool" where
  "enables_one E \<longleftrightarrow> (\<forall>pv pv' m. pv \<noteq> pv' \<longrightarrow> ArgInfo (addPreloaded E pv' m) pv = ArgInfo m pv) \<and>
     (\<forall>pv m. ArgInfo (addPreloaded E pv m) pv \<noteq> None)"

definition stays :: "sim_mfi \<Rightarrow> sim_mfi \<Rightarrow> bool" where
  "stays m m' \<longleftrightarrow> (\<forall>pv d. ArgInfo m pv = Some d \<longrightarrow> ArgInfo m' pv = Some d)"

lemma stays_refl [simp]: "stays m m"
  by (simp add: stays_def)

lemma stays_trans: "stays m m' \<Longrightarrow> stays m' m'' \<Longrightarrow> stays m m''"
  by (simp add: stays_def)

lemma staysD: "stays m m' \<Longrightarrow> ArgInfo m pv = Some d \<Longrightarrow> ArgInfo m' pv = Some d"
  by (simp add: stays_def)

lemma ArgInfo_updates [simp]:
  "ArgInfo (force_field E pv m) = ArgInfo m" "ArgInfo (removeFnAttr a m) = ArgInfo m"
  "ArgInfo (disableKernargPreload n m) = ArgInfo m"
  by (simp_all add: force_field_def removeFnAttr_def disableKernargPreload_def)

lemma ArgInfo_add:
  assumes "enables_one E" "pv \<noteq> pv'"
  shows "ArgInfo (addPreloaded E pv' m) pv = ArgInfo m pv" "ArgInfo (AddUserSGPR E pv' m) pv = ArgInfo m pv"
  using assms by (simp_all add: enables_one_def AddUserSGPR_def)

lemma stays_add:
  assumes "enables_one E" "ArgInfo m pv = None"
  shows "stays m (addPreloaded E pv m)" "stays m (AddUserSGPR E pv m)"
  using assms(2) by (auto simp: stays_def ArgInfo_add [OF assms(1)]
      intro: ArgInfo_add [OF assms(1), THEN trans] dest: not_None_eq [THEN iffD2])

lemma stays_cong: "ArgInfo m = ArgInfo k \<Longrightarrow> stays m m' \<longleftrightarrow> stays k m'"
  by (simp add: stays_def)

lemma stays_force_preloaded:
  assumes E: "enables_one E" and None: "ArgInfo m pv = None"
  shows "stays m (force_preloaded E pv m)"
proof -
  have "stays m (AddUserSGPR E pv k)" "stays m (addPreloaded E pv k)" if "ArgInfo k = ArgInfo m" for k
    using stays_add [OF E, of k pv] None that by (simp_all add: stays_def)
  then show ?thesis
    using None by (cases pv) (auto simp: setWorkItemID_def stays_def)
qed

lemma stays_clear_attrs:
  assumes E: "enables_one E"
  shows "distinct ks \<Longrightarrow> (HiddenQueuePtr \<in> set ks \<Longrightarrow> ArgInfo m PV_QUEUE_PTR = None) \<Longrightarrow>
    stays m (fold (clear_implicit_attr E) ks m)"
proof (induction ks arbitrary: m)
  case (Cons k ks)
  let ?m = "clear_implicit_attr E k m"
  have "stays m ?m"
  proof (cases "k = HiddenQueuePtr")
    case True
    then have "ArgInfo m PV_QUEUE_PTR = None" using Cons.prems(2) by simp
    then show ?thesis
      using stays_add(2) [OF E, of "force_field E PV_QUEUE_PTR (removeFnAttr ''amdgpu-no-queue-ptr'' m)" PV_QUEUE_PTR]
      by (simp add: True stays_def)
  qed (cases k; simp add: stays_def)
  moreover have "ArgInfo ?m PV_QUEUE_PTR = None" if "HiddenQueuePtr \<in> set ks"
    using Cons.prems that by (cases k) auto
  then have "stays ?m (fold (clear_implicit_attr E) ks ?m)"
    using Cons.prems(1) by (intro Cons.IH) auto
  ultimately show ?case by (auto intro: stays_trans)
qed simp

lemma stays_emit_argument:
  assumes "enables_one E" and "emit_argument E Specs SVS SA m = Inr (m', c)"
  shows "stays m m'"
  using assms(2) stays_force_preloaded [OF assms(1)]
  by (auto simp: emit_argument_def Let_def err_bind_Inr_iff split: option.splits if_splits)

lemma stays_enableKernarg:
  assumes "enables_one E"
  shows "stays m (enableKernargSegmentPtr E m)"
  using stays_add(2) [OF assms, of "force_field E PV_KERNARG_SEGMENT_PTR m" PV_KERNARG_SEGMENT_PTR]
  by (auto simp: enableKernargSegmentPtr_def stays_def)

lemma stays_setup_scratch:
  assumes E: "enables_one E" and "emitCodeToSetupScratch st E Specs SVS u m = Inr (m', c)"
  shows "stays m m'"
proof -
  have base: "stays m m'" if "setup_scratch_base st E Specs SVS m = Inr (m', c)" for m' c
  proof -
    let ?m1 = "if ArgInfo m PV_PRIVATE_SEGMENT_WAVE_BYTE_OFFSET = None
        then addPreloaded E PV_PRIVATE_SEGMENT_WAVE_BYTE_OFFSET m else m"
    have "stays m ?m1" using stays_add(1) [OF E] by auto
    moreover have "stays ?m1 m'"
      using that stays_add(1) [OF E, of ?m1 PV_PRIVATE_SEGMENT_BUFFER]
      by (auto simp: setup_scratch_base_def Let_def err_bind_Inr_iff split: option.splits if_splits)
    ultimately show ?thesis by (rule stays_trans)
  qed
  have "stays k k'" if "setup_stack_pointer E SVS u k = Inr (k', c)" for k k' c
    using that stays_add(2) [OF E, of "force_field E PV_PRIVATE_SEGMENT_SIZE k" PV_PRIVATE_SEGMENT_SIZE]
    by (auto simp: setup_stack_pointer_def Let_def err_bind_Inr_iff stays_def split: if_splits)
  with assms(2) base show ?thesis
    by (auto simp: emitCodeToSetupScratch_def err_bind_Inr_iff split: if_splits intro: stays_trans)
qed

text \<open>If no register moves, there is nothing to restore.\<close>

lemma restore_nothing:
  assumes "stays m m'"
  shows "restore_preloaded (PreloadedArgSnapshot E m) m' = []"
proof -
  have "getPreloadedReg m' pv = Some r" if "(pv, r) \<in> set (PreloadedArgSnapshot E m)" for pv r
    using that assms
    by (auto simp: PreloadedArgSnapshot_def List.map_filter_def getPreloadedReg_def dest: staysD)
  then show ?thesis by (fastforce simp: restore_preloaded_def)
qed


subsection \<open>The arguments\<close>

definition regs_ok :: "mcreg \<Rightarrow> sim_mfi \<Rightarrow> bool" where
  "regs_ok SVS m \<longleftrightarrow> (\<forall>pv d. ArgInfo m pv = Some d \<longrightarrow>
     is_sgpr (getRegister d) \<or> is_vgpr (getRegister d) \<and> getRegister d \<noteq> SVS)"

lemma arg_dword_cong:
  assumes "keeps SVS L {} g h" and "is_sgpr (getRegister d) \<or> getRegister d \<noteq> SVS"
  shows "arg_dword st h d i = arg_dword st g d i"
proof (cases "is_vgpr (getRegister d)")
  case True
  then have "getRegister d \<noteq> SVS" using assms(2) by (cases "getRegister d") auto
  then have "readfirstlane st h (getRegister d) = readfirstlane st g (getRegister d)"
    using assms(1) by (intro readfirstlane_cong) (simp_all add: keeps_def)
  then show ?thesis by (simp add: arg_dword_def True)
qed (simp add: arg_dword_def keeps_sregs [OF assms(1)])

text \<open>The lanes that the loop writes for an argument.\<close>

definition written :: "StateValueArraySpecs \<Rightarrow> ScalarValueArgument \<Rightarrow> nat set" where
  "written Specs SA = (if preloadedValueForSVA SA = None then {} else arg_lanes Specs SA)"

lemma argument_effect:
  assumes emit: "emit_argument E Specs SVS SA m = Inr (m', c)" and ok: "lanes_ok st Specs"
    and regs: "regs_ok SVS m'" and h: "h = exec_ks st E gm c g"
  shows "keeps SVS (insert 0 (written Specs SA)) {} g h"
    and "preloadedValueForSVA SA = Some pv \<Longrightarrow> \<exists>b d. findArgumentLane Specs SA = Some b \<and>
      ArgInfo m' pv = Some d \<and> (\<forall>i<getArgumentLaneSize SA. vregs h SVS (b + i) = arg_dword st g d i)"
proof -
  from emit obtain b where b: "findArgumentLane Specs SA = Some b"
    by (auto simp: emit_argument_def split: option.splits)
  note B = arg_lane_run [OF ok b]
  have "keeps SVS (insert 0 (written Specs SA)) {} g h \<and> (\<forall>pv. preloadedValueForSVA SA = Some pv \<longrightarrow>
      (\<exists>d. ArgInfo m' pv = Some d \<and> (\<forall>i<getArgumentLaneSize SA. vregs h SVS (b + i) = arg_dword st g d i)))"
  proof (cases "preloadedValueForSVA SA")
    case None
    then show ?thesis using emit b by (simp add: emit_argument_def h)
  next
    case (Some pv)
    with emit b obtain d where d: "ArgInfo m' pv = Some d" and
      c: "if is_vgpr (getRegister d) then getArgumentLaneSize SA = 1 \<and> c = emit_workitem_id SVS d b
          else emitCodeToStoreSGPRKernelArg d SVS b (getArgumentLaneSize SA) = Inr c"
      by (auto simp: emit_argument_def Let_def err_bind_Inr_iff split: option.splits if_splits)
    have r: "is_sgpr (getRegister d) \<or> is_vgpr (getRegister d) \<and> getRegister d \<noteq> SVS"
      using regs d by (auto simp: regs_ok_def)
    show ?thesis
    proof (cases "is_vgpr (getRegister d)")
      case True
      with c r have s: "getArgumentLaneSize SA = 1" "c = emit_workitem_id SVS d b" "getRegister d \<noteq> SVS"
        by (auto elim: is_sgprE)
      with h have h': "h = exec_ks st E gm (emit_workitem_id SVS d b) g" by simp
      from workitem_effect [OF _ _ True s(3) h'] B s(1) Some d show ?thesis
        by (auto simp: written_def elim!: keeps_mono)
    next
      case False
      with c r have s: "emitCodeToStoreSGPRKernelArg d SVS b (getArgumentLaneSize SA) = Inr c" "is_sgpr (getRegister d)"
        by auto
      from kernel_arg_effect [OF s(1) B(3) s(2) h] B(1) Some d show ?thesis
        by (auto simp: written_def elim!: keeps_mono)
    qed
  qed
  then show "keeps SVS (insert 0 (written Specs SA)) {} g h"
    and "preloadedValueForSVA SA = Some pv \<Longrightarrow> \<exists>b d. findArgumentLane Specs SA = Some b \<and>
      ArgInfo m' pv = Some d \<and> (\<forall>i<getArgumentLaneSize SA. vregs h SVS (b + i) = arg_dword st g d i)"
    using b by auto
qed

lemma stays_emit_arguments:
  "enables_one E \<Longrightarrow> emit_arguments E Specs SVS SAs m = Inr (m', c) \<Longrightarrow> stays m m'"
  by (induction SAs arbitrary: m m' c)
    (auto simp: err_bind_Inr_iff dest!: stays_emit_argument intro: stays_trans)

lemma regs_ok_stays: "stays m m' \<Longrightarrow> regs_ok SVS m' \<Longrightarrow> regs_ok SVS m"
  by (auto simp: regs_ok_def stays_def)

lemma arguments_effect:
  assumes "emit_arguments E Specs SVS SAs m = Inr (m', c)" and "h = exec_ks st E gm c g"
    and E: "enables_one E" and ok: "lanes_ok st Specs" and "regs_ok SVS m'" and "distinct SAs"
  shows "keeps SVS (insert 0 (\<Union>SA\<in>set SAs. written Specs SA)) {} g h \<and>
    (\<forall>SA\<in>set SAs. \<forall>pv. preloadedValueForSVA SA = Some pv \<longrightarrow> (\<exists>b d. findArgumentLane Specs SA = Some b \<and>
      ArgInfo m' pv = Some d \<and> (\<forall>i<getArgumentLaneSize SA. vregs h SVS (b + i) = arg_dword st g d i)))"
  using assms(1,2,5,6)
proof (induction SAs arbitrary: m c g)
  case Nil
  then show ?case by simp
next
  case (Cons SA SAs)
  from Cons.prems(1) obtain m1 c1 c2 where 1: "emit_argument E Specs SVS SA m = Inr (m1, c1)"
    and 2: "emit_arguments E Specs SVS SAs m1 = Inr (m', c2)" and c: "c = c1 @ c2"
    by (auto simp: err_bind_Inr_iff)
  let ?k = "exec_ks st E gm c1 g"
  have st: "stays m1 m'" using E 2 by (rule stays_emit_arguments)
  then have regs1: "regs_ok SVS m1" using Cons.prems(3) by (rule regs_ok_stays)
  have k: "?k = exec_ks st E gm c1 g" by (rule refl)
  note A = argument_effect [OF 1 ok regs1 k]
  have h: "h = exec_ks st E gm c2 ?k" using Cons.prems(2) by (simp add: c)
  have IH: "keeps SVS (insert 0 (\<Union>SA\<in>set SAs. written Specs SA)) {} ?k h"
    "\<And>SB pv. SB \<in> set SAs \<Longrightarrow> preloadedValueForSVA SB = Some pv \<Longrightarrow> \<exists>b d. findArgumentLane Specs SB = Some b \<and>
      ArgInfo m' pv = Some d \<and> (\<forall>i<getArgumentLaneSize SB. vregs h SVS (b + i) = arg_dword st ?k d i)"
    using Cons.IH [OF 2 h Cons.prems(3)] Cons.prems(4) by simp_all
  have K: "keeps SVS (insert 0 (\<Union>SA\<in>set (SA # SAs). written Specs SA)) {} g h"
    using keeps_trans [OF A(1) IH(1)] by (rule keeps_mono) auto
  moreover have "\<exists>b d. findArgumentLane Specs SB = Some b \<and> ArgInfo m' pv = Some d \<and>
      (\<forall>i<getArgumentLaneSize SB. vregs h SVS (b + i) = arg_dword st g d i)"
    if SB: "SB \<in> set (SA # SAs)" and pv: "preloadedValueForSVA SB = Some pv" for SB pv
  proof (cases "SB = SA")
    case True
    from A(2) [of pv] pv True obtain b d where bd: "findArgumentLane Specs SA = Some b" "ArgInfo m1 pv = Some d"
      "\<forall>i<getArgumentLaneSize SA. vregs ?k SVS (b + i) = arg_dword st g d i" by auto
    note B = arg_lane_run [OF ok bd(1)]
    have "vregs h SVS (b + i) = vregs ?k SVS (b + i)" if "i < getArgumentLaneSize SA" for i
    proof -
      have "b + i \<in> arg_lanes Specs SA" using that by (simp add: B(1))
      then have "b + i \<notin> written Specs SB" if "SB \<in> set SAs" for SB
        using Cons.prems(4) that arg_lanes_props(1) [OF ok, of SA SB] by (auto simp: written_def)
      then have "b + i \<notin> insert 0 (\<Union>SA\<in>set SAs. written Specs SA)" using B(2) by auto
      with IH(1) show ?thesis by (simp add: keeps_def)
    qed
    with bd True staysD [OF st bd(2)] show ?thesis by simp
  next
    case False
    with SB have "SB \<in> set SAs" by simp
    with IH(2) pv obtain b d where bd: "findArgumentLane Specs SB = Some b" "ArgInfo m' pv = Some d"
      "\<forall>i<getArgumentLaneSize SB. vregs h SVS (b + i) = arg_dword st ?k d i" by blast
    have "arg_dword st ?k d i = arg_dword st g d i" for i
      using Cons.prems(3) bd(2) by (intro arg_dword_cong [OF A(1)]) (auto simp: regs_ok_def)
    with bd show ?thesis by simp
  qed
  ultimately show ?case by blast
qed

end
