(* ===== verification/Kernel_Prologue.thy ===== *)
theory Kernel_Prologue
  imports Kernel_Code
begin

text \<open>
  The kernel prologue as a whole: the effect of its three parts one after the other, the types under
  which its emission never fails, and its properties, with one kernel as the example of the witnesses.
\<close>

subsection \<open>Effect of the prologue\<close>

lemma setup_scratch_effect:
  assumes emit: "emitCodeToSetupScratch st E Specs SVS u m = Inr (m', c)"
    and E: "enables_one E" and ok: "lanes_ok st Specs"
    and fs: "\<not> hasArchitectedFlatScratch st \<Longrightarrow> sgpr_arg m PV_FLAT_SCRATCH_INIT"
    and regs: "regs_ok SVS m'" "\<not> hasArchitectedFlatScratch st \<Longrightarrow> \<not> enableFlatScratch st \<Longrightarrow>
      sgpr_arg m' PV_PRIVATE_SEGMENT_BUFFER"
    and h: "h = exec_ks st E gm c g"
  shows "keeps SVS ({0, 1, 2} \<union> arg_lanes Specs FLAT_SCRATCH \<union> arg_lanes Specs WAVEFRONT_PRIVATE_SEGMENT_BUFFER) {} g h"
    and "vregs h SVS StackPointerStoreLane = stack_start E u m' g"
    and "\<not> hasArchitectedFlatScratch st \<Longrightarrow> \<exists>l. findArgumentLane Specs FLAT_SCRATCH = Some l \<and>
      lane_pair h SVS l = wave_base g m' PV_FLAT_SCRATCH_INIT"
proof -
  let ?arch = "hasArchitectedFlatScratch st"
  from emit obtain k c1 c2 where
    base: "if ?arch then k = m \<and> c1 = [] else setup_scratch_base st E Specs SVS m = Inr (k, c1)" and
    sp: "setup_stack_pointer E SVS u k = Inr (m', c2)" and c: "c = c1 @ c2"
    by (auto simp: emitCodeToSetupScratch_def err_bind_Inr_iff split: if_splits)
  have W: "2 < wave_size st" using wave_size_bounds(1) [of st] by simp
  have same: "ArgInfo m' pv = ArgInfo k pv" if "pv \<noteq> PV_PRIVATE_SEGMENT_SIZE" for pv
    using sp that ArgInfo_add(2) [OF E] by (auto simp: setup_stack_pointer_def Let_def err_bind_Inr_iff split: if_splits)
  have fsk: "sgpr_arg k PV_FLAT_SCRATCH_INIT" if "\<not> ?arch"
    using fs [OF that] base that ArgInfo_add(1) [OF E]
    by (auto simp: sgpr_arg_def setup_scratch_base_def Let_def err_bind_Inr_iff split: option.splits if_splits)
  let ?g = "exec_ks st E gm c1 g"
  let ?L = "{0, 1} \<union> arg_lanes Specs FLAT_SCRATCH \<union> arg_lanes Specs WAVEFRONT_PRIVATE_SEGMENT_BUFFER"
  have B: "keeps SVS ?L {} g ?g"
    "\<not> ?arch \<Longrightarrow> \<exists>l. findArgumentLane Specs FLAT_SCRATCH = Some l \<and> lane_pair ?g SVS l = wave_base g k PV_FLAT_SCRATCH_INIT"
  proof -
    have "keeps SVS ?L {} g ?g \<and> (\<exists>l. findArgumentLane Specs FLAT_SCRATCH = Some l \<and>
        lane_pair ?g SVS l = wave_base g k PV_FLAT_SCRATCH_INIT)" if na: "\<not> ?arch"
    proof -
      have s: "setup_scratch_base st E Specs SVS m = Inr (k, c1)" using base na by simp
      have p: "sgpr_arg k PV_PRIVATE_SEGMENT_BUFFER" if "\<not> enableFlatScratch st"
        using regs(2) [OF na that] by (simp add: sgpr_arg_def same)
      from scratch_base_effect [OF s ok ArgInfo_add(1) [OF E] fsk [OF na] p, of ?g gm g] show ?thesis by simp
    qed
    then show "keeps SVS ?L {} g ?g"
      "\<not> ?arch \<Longrightarrow> \<exists>l. findArgumentLane Specs FLAT_SCRATCH = Some l \<and> lane_pair ?g SVS l = wave_base g k PV_FLAT_SCRATCH_INIT"
      using base by (cases ?arch; simp)+
  qed
  have h': "h = exec_ks st E gm c2 ?g" by (simp add: h c)
  note S = stack_pointer_effect [OF sp W h']
  show "keeps SVS ({0, 1, 2} \<union> arg_lanes Specs FLAT_SCRATCH \<union> arg_lanes Specs WAVEFRONT_PRIVATE_SEGMENT_BUFFER) {} g h"
    using keeps_trans [OF B(1) S(1)] by (rule keeps_mono) auto
  show "vregs h SVS StackPointerStoreLane = stack_start E u m' g"
    using S(2) by (simp add: stack_start_def keeps_sregs [OF B(1)])
  show "\<exists>l. findArgumentLane Specs FLAT_SCRATCH = Some l \<and> lane_pair h SVS l = wave_base g m' PV_FLAT_SCRATCH_INIT"
    if na: "\<not> ?arch"
  proof -
    from B(2) [OF na] obtain l where l: "findArgumentLane Specs FLAT_SCRATCH = Some l"
      "lane_pair ?g SVS l = wave_base g k PV_FLAT_SCRATCH_INIT" by blast
    have "lane_pair h SVS l = lane_pair ?g SVS l"
      using arg_lane_run(2) [OF ok l(1)] by (intro lane_pair_cong [OF S(1)]) auto
    with l show ?thesis by (simp add: wave_base_def same)
  qed
qed

text \<open>
  What the properties of the prologue assume: the lanes are distinct and below the wave size, preloaded
  values are in scalar registers or in vector registers other than the setup VGPR, no kernel arguments
  are preloaded, and the values that the code reads but does not enable are preloaded.
\<close>

definition prologue_ok ::
    "gcn_subtarget \<Rightarrow> preamble_env \<Rightarrow> StateValueArraySpecs \<Rightarrow> SVAScratchSetupInfo \<Rightarrow> mcreg \<Rightarrow>
     sim_mfi \<Rightarrow> sim_mfi \<Rightarrow> bool" where
  "prologue_ok st E Specs info SVS m m' \<longleftrightarrow>
     enables_one E \<and> smrd_bytes E (convertSMRDOffsetUnits E 0) = 0 \<and> lanes_ok st Specs \<and>
     distinct (RequestedKernelArguments info) \<and> distinct (ImplicitArgsExplicitlyRequested info) \<and>
     (HiddenQueuePtr \<in> set (ImplicitArgsExplicitlyRequested info) \<longrightarrow> ArgInfo m PV_QUEUE_PTR = None) \<and>
     NumKernargPreloadSGPRs m = 0 \<and> regs_ok SVS m' \<and>
     (IMPLICIT_ARG_BUFFER \<in> set (RequestedKernelArguments info) \<longrightarrow> sgpr_arg m' PV_KERNARG_SEGMENT_PTR) \<and>
     (RequiresScratchAndStackSetup info \<and> \<not> hasArchitectedFlatScratch st \<longrightarrow>
        sgpr_arg m PV_FLAT_SCRATCH_INIT \<and>
        (\<not> enableFlatScratch st \<longrightarrow> sgpr_arg m' PV_PRIVATE_SEGMENT_BUFFER))"

definition kernarg_pair :: "sim_mfi \<Rightarrow> mcreg \<times> mcreg" where
  "kernarg_pair m = sub_pair (ArgInfo m PV_KERNARG_SEGMENT_PTR)"

definition expands_kernarg :: "kernel \<Rightarrow> SVAScratchSetupInfo \<Rightarrow> bool" where
  "expands_kernarg K info \<longleftrightarrow> IMPLICIT_ARG_BUFFER \<in> set (RequestedKernelArguments info) \<and> 1 \<le> arg_count K"

definition kernarg_regs :: "kernel \<Rightarrow> SVAScratchSetupInfo \<Rightarrow> sim_mfi \<Rightarrow> mcreg set" where
  "kernarg_regs K info m = (if expands_kernarg K info then {fst (kernarg_pair m), snd (kernarg_pair m)} else {})"


lemma ArgInfo_other:
  assumes E: "enables_one E"
  shows "emitCodeToSetupScratch st E Specs SVS u m = Inr (m', c) \<Longrightarrow> ArgInfo m' PV_QUEUE_PTR = ArgInfo m PV_QUEUE_PTR"
proof -
  assume emit: "emitCodeToSetupScratch st E Specs SVS u m = Inr (m', c)"
  have "ArgInfo k PV_QUEUE_PTR = ArgInfo m PV_QUEUE_PTR" if "setup_scratch_base st E Specs SVS m = Inr (k, d)" for k d
    using that ArgInfo_add [OF E]
    by (auto simp: setup_scratch_base_def Let_def err_bind_Inr_iff split: option.splits if_splits)
  moreover have "ArgInfo k' PV_QUEUE_PTR = ArgInfo k PV_QUEUE_PTR"
    if "setup_stack_pointer E SVS u k = Inr (k', d)" for k k' d
    using that ArgInfo_add [OF E] by (auto simp: setup_stack_pointer_def Let_def err_bind_Inr_iff split: if_splits)
  ultimately show ?thesis
    using emit by (fastforce simp: emitCodeToSetupScratch_def err_bind_Inr_iff split: if_splits)
qed

lemma expand_kernarg_step:
  assumes "expand_kernarg E Specs K info SVS m = Inr (m', c)"
  obtains k where "ArgInfo k = ArgInfo (fold (clear_implicit_attr E) (ImplicitArgsExplicitlyRequested info) m)"
    and "emitKernargBufferExpansion E Specs SVS (1 \<le> arg_count K) k = Inr (m', c)" and "m' = enableKernargSegmentPtr E k"
proof -
  let ?m = "fold (clear_implicit_attr E) (ImplicitArgsExplicitlyRequested info) m"
  define k where "k = (if 1 \<le> arg_count K
    then ?m\<lparr>Arg0Attrs := filter (\<lambda>a. a \<noteq> ''byref'' \<and> a \<noteq> ''align'') (Arg0Attrs ?m)\<rparr> else ?m)"
  have k: "ArgInfo k = ArgInfo ?m" "emitKernargBufferExpansion E Specs SVS (1 \<le> arg_count K) k = Inr (m', c)"
    using assms unfolding expand_kernarg_def Let_def k_def by (cases "1 \<le> arg_count K"; simp)+
  moreover have "m' = enableKernargSegmentPtr E k"
    using k(2) by (auto simp: emitKernargBufferExpansion_def Let_def split: option.splits if_splits)
  ultimately show thesis by (rule that)
qed

lemma stays_expand_kernarg:
  assumes E: "enables_one E" and "expand_kernarg E Specs K info SVS m = Inr (m', c)"
    and "distinct (ImplicitArgsExplicitlyRequested info)"
    and "HiddenQueuePtr \<in> set (ImplicitArgsExplicitlyRequested info) \<Longrightarrow> ArgInfo m PV_QUEUE_PTR = None"
  shows "stays m m'"
proof -
  let ?m = "fold (clear_implicit_attr E) (ImplicitArgsExplicitlyRequested info) m"
  from assms(2) obtain k where k: "ArgInfo k = ArgInfo ?m" "m' = enableKernargSegmentPtr E k"
    by (rule expand_kernarg_step)
  then have "stays ?m m'" using stays_enableKernarg [OF E, of k] by (simp add: stays_def)
  with stays_clear_attrs [OF E assms(3,4)] show ?thesis by (rule stays_trans)
qed

lemma err_bind3:
  "err_bind A (\<lambda>(m1, c1). err_bind (B m1) (\<lambda>(m2, c2). err_bind (C m2) (\<lambda>(m3, c3).
     case F m3 of (m5, c5) \<Rightarrow> Inr (m5, G c1 c2 c3 m3 c5, e)))) = Inr y \<longleftrightarrow>
   (\<exists>m1 c1 m2 c2 m3 c3. A = Inr (m1, c1) \<and> B m1 = Inr (m2, c2) \<and> C m2 = Inr (m3, c3) \<and>
     y = (case F m3 of (m5, c5) \<Rightarrow> (m5, G c1 c2 c3 m3 c5, e)))"
  by (auto simp: err_bind_Inr_iff case_prod_unfold)

lemma emit_prologue_Inr_iff:
  "emit_prologue st E Specs K info s m = Inr (m', code, store) \<longleftrightarrow> (\<exists>m1 c1 m2 c2 m3 c3.
     (if RequiresScratchAndStackSetup info
      then emitCodeToSetupScratch st E Specs (setup_vgpr s) (stack_use_of K info) m else Inr (m, [])) = Inr (m1, c1) \<and>
     (if IMPLICIT_ARG_BUFFER \<in> set (RequestedKernelArguments info)
      then expand_kernarg E Specs K info (setup_vgpr s) m1 else Inr (m1, [])) = Inr (m2, c2) \<and>
     emit_arguments E Specs (setup_vgpr s) (RequestedKernelArguments info) m2 = Inr (m3, c3) \<and>
     (m', code, store) =
       (case restore_kernarg_preload E (NumUsedUserSGPRs m) (NumKernargPreloadSGPRs m) (preload_offset_attr K) m3 of
          (m5, c5) \<Rightarrow> (m5, c1 @ c2 @ c3 @ restore_preloaded (PreloadedArgSnapshot E m) m3 @ c5,
             if is_vgpr (getStateValueStorageReg s) then [] else emitCodeToStoreSVA st s (setup_vgpr s))))"
  unfolding emit_prologue_def Let_def err_bind3 by (simp add: case_prod_unfold del: if_split)

lemma prologue_parts:
  assumes emit: "emitInitialEntryKernelSetup st E Specs K info m = Inr (m', code, store)"
    and segs: "EntrySegments K = (b, e, (i, s)) # rest" and used: "usesSVA info"
    and ok: "prologue_ok st E Specs info (setup_vgpr s) m m'"
  obtains m1 c1 m2 c2 c3 where
    "if RequiresScratchAndStackSetup info
     then emitCodeToSetupScratch st E Specs (setup_vgpr s) (stack_use_of K info) m = Inr (m1, c1) else m1 = m \<and> c1 = []"
    "if IMPLICIT_ARG_BUFFER \<in> set (RequestedKernelArguments info)
     then expand_kernarg E Specs K info (setup_vgpr s) m1 = Inr (m2, c2) else m2 = m1 \<and> c2 = []"
    "emit_arguments E Specs (setup_vgpr s) (RequestedKernelArguments info) m2 = Inr (m', c3)"
    "code = c1 @ c2 @ c3" "stays m m1" "stays m1 m2" "stays m2 m'"
    "store = (if is_vgpr (getStateValueStorageReg s) then [] else emitCodeToStoreSVA st s (setup_vgpr s))"
proof -
  have E: "enables_one E" using ok by (simp add: prologue_ok_def)
  have N: "NumKernargPreloadSGPRs m = 0" using ok by (simp add: prologue_ok_def)
  have body: "emit_prologue st E Specs K info s m = Inr (m', code, store)"
    using emit segs used by (auto simp: emitInitialEntryKernelSetup_def split: if_splits)
  obtain m1 c1 m2 c2 c3 where
    r1: "(if RequiresScratchAndStackSetup info
      then emitCodeToSetupScratch st E Specs (setup_vgpr s) (stack_use_of K info) m else Inr (m, [])) = Inr (m1, c1)" and
    r2: "(if IMPLICIT_ARG_BUFFER \<in> set (RequestedKernelArguments info)
      then expand_kernarg E Specs K info (setup_vgpr s) m1 else Inr (m1, [])) = Inr (m2, c2)" and
    3: "emit_arguments E Specs (setup_vgpr s) (RequestedKernelArguments info) m2 = Inr (m', c3)" and
    code: "code = c1 @ c2 @ c3 @ restore_preloaded (PreloadedArgSnapshot E m) m'" and
    store: "store = (if is_vgpr (getStateValueStorageReg s) then [] else emitCodeToStoreSVA st s (setup_vgpr s))"
    using body unfolding emit_prologue_Inr_iff N by (auto simp: restore_kernarg_preload_def simp del: if_split)
  have 1: "if RequiresScratchAndStackSetup info
     then emitCodeToSetupScratch st E Specs (setup_vgpr s) (stack_use_of K info) m = Inr (m1, c1) else m1 = m \<and> c1 = []"
    using r1 by (auto split: if_splits)
  have 2: "if IMPLICIT_ARG_BUFFER \<in> set (RequestedKernelArguments info)
     then expand_kernarg E Specs K info (setup_vgpr s) m1 = Inr (m2, c2) else m2 = m1 \<and> c2 = []"
    using r2 by (auto split: if_splits)
  have s1: "stays m m1" using 1 stays_setup_scratch [OF E] by (auto split: if_splits)
  have "ArgInfo m1 PV_QUEUE_PTR = None" if "HiddenQueuePtr \<in> set (ImplicitArgsExplicitlyRequested info)"
    using ok that 1 ArgInfo_other [OF E] by (auto simp: prologue_ok_def split: if_splits)
  then have s2: "stays m1 m2"
    using 2 ok stays_expand_kernarg [OF E, of Specs K info "setup_vgpr s" m1 m2 c2]
    by (auto simp: prologue_ok_def split: if_splits)
  have s3: "stays m2 m'" using E 3 by (rule stays_emit_arguments)
  have "stays m m'" using s1 s2 s3 by (blast intro: stays_trans)
  then have "code = c1 @ c2 @ c3" using code by (simp add: restore_nothing)
  from that [OF 1 2 3 this s1 s2 s3 store] show thesis .
qed


lemma expand_effect:
  assumes emit: "expand_kernarg E Specs K info SVS m = Inr (m', c)" and E: "enables_one E"
    and ok: "lanes_ok st Specs" and K: "sgpr_arg m' PV_KERNARG_SEGMENT_PTR"
    and off: "smrd_bytes E (convertSMRDOffsetUnits E 0) = 0" and h: "h = exec_ks st E gm c g"
  defines "P \<equiv> kernarg_pair m'"
  shows "keeps SVS ({0, 1} \<union> arg_lanes Specs IMPLICIT_ARG_BUFFER) (if 1 \<le> arg_count K then {fst P, snd P} else {}) g h"
    and "\<exists>l. findArgumentLane Specs IMPLICIT_ARG_BUFFER = Some l \<and>
      lane_pair h SVS l = sgpr_pair g P + (if 1 \<le> arg_count K then 8 else 0)"
    and "1 \<le> arg_count K \<Longrightarrow> sregs h (fst P) = gm (sgpr_pair g P) \<and> sregs h (snd P) = gm (sgpr_pair g P + 4)"
proof -
  obtain k where k: "emitKernargBufferExpansion E Specs SVS (1 \<le> arg_count K) k = Inr (m', c)"
    using emit by (rule expand_kernarg_step)
  obtain d where d: "ArgInfo m' PV_KERNARG_SEGMENT_PTR = Some d" "is_sgpr (getRegister d)"
    using K by (auto simp: sgpr_arg_def)
  obtain l where l: "findArgumentLane Specs IMPLICIT_ARG_BUFFER = Some l"
    using k by (auto simp: emitKernargBufferExpansion_def Let_def split: option.splits)
  note L = arg_lane_run [OF ok l, simplified]
  have P: "P = (getSubReg (getRegister d) 0, getSubReg (getRegister d) 1)"
    by (simp add: P_def kernarg_pair_def sub_pair_def preloaded_sub_def d)
  have "1 < l" "Suc l < wave_size st" using L by simp_all
  note X = expansion_effect [OF k d l this off h]
  show "keeps SVS ({0, 1} \<union> arg_lanes Specs IMPLICIT_ARG_BUFFER) (if 1 \<le> arg_count K then {fst P, snd P} else {}) g h"
    using X(1) by (rule keeps_mono) (auto simp: L(1) P)
  show "\<exists>l. findArgumentLane Specs IMPLICIT_ARG_BUFFER = Some l \<and>
      lane_pair h SVS l = sgpr_pair g P + (if 1 \<le> arg_count K then 8 else 0)"
    using l X(2) by (simp add: P)
  show "1 \<le> arg_count K \<Longrightarrow> sregs h (fst P) = gm (sgpr_pair g P) \<and> sregs h (snd P) = gm (sgpr_pair g P + 4)"
    using X(3) by (simp add: P)
qed

lemma setup_scratch_psb:
  assumes "emitCodeToSetupScratch st E Specs SVS u m = Inr (m', c)" and E: "enables_one E"
    and "\<not> hasArchitectedFlatScratch st" "\<not> enableFlatScratch st"
  shows "\<exists>d. ArgInfo m' PV_PRIVATE_SEGMENT_BUFFER = Some d"
proof -
  have "ArgInfo k PV_PRIVATE_SEGMENT_BUFFER \<noteq> None" if "setup_scratch_base st E Specs SVS m = Inr (k, d)" for k d
    using that E assms(4)
    by (auto simp: setup_scratch_base_def Let_def err_bind_Inr_iff enables_one_def split: option.splits if_splits)
  moreover have "ArgInfo k' PV_PRIVATE_SEGMENT_BUFFER = ArgInfo k PV_PRIVATE_SEGMENT_BUFFER"
    if "setup_stack_pointer E SVS u k = Inr (k', d)" for k k' d
    using that ArgInfo_add [OF E] by (auto simp: setup_stack_pointer_def Let_def err_bind_Inr_iff split: if_splits)
  ultimately show ?thesis
    using assms(1,3) by (fastforce simp: emitCodeToSetupScratch_def err_bind_Inr_iff split: if_splits)
qed

lemma stack_start_stays:
  assumes "stays m' m''" and "emitCodeToSetupScratch st E Specs SVS u m = Inr (m', c)"
  shows "stack_start E u m'' g = stack_start E u m' g"
  using assms
  by (auto simp: stack_start_def emitCodeToSetupScratch_def setup_stack_pointer_def Let_def err_bind_Inr_iff
      split: if_splits option.splits dest!: staysD [OF assms(1)])

lemma wave_base_stays:
  assumes st: "stays m' m''" and emit: "emitCodeToSetupScratch st E Specs SVS u m = Inr (m', c)"
    and na: "\<not> hasArchitectedFlatScratch st" and E: "enables_one E" and fs: "sgpr_arg m PV_FLAT_SCRATCH_INIT"
  shows "wave_base g m' PV_FLAT_SCRATCH_INIT = wave_base g m'' PV_FLAT_SCRATCH_INIT"
proof -
  obtain d where d: "ArgInfo m' PV_FLAT_SCRATCH_INIT = Some d"
    using fs staysD [OF stays_setup_scratch [OF E emit]] by (auto simp: sgpr_arg_def)
  have "ArgInfo k PV_PRIVATE_SEGMENT_WAVE_BYTE_OFFSET \<noteq> None"
    if "setup_scratch_base st E Specs SVS m = Inr (k, c)" for k c
    using that E ArgInfo_add(1) [OF E]
    by (auto simp: setup_scratch_base_def Let_def err_bind_Inr_iff enables_one_def split: option.splits if_splits)
  moreover have "ArgInfo k' PV_PRIVATE_SEGMENT_WAVE_BYTE_OFFSET = ArgInfo k PV_PRIVATE_SEGMENT_WAVE_BYTE_OFFSET"
    if "setup_stack_pointer E SVS u k = Inr (k', d)" for k k' d
    using that ArgInfo_add [OF E] by (auto simp: setup_stack_pointer_def Let_def err_bind_Inr_iff split: if_splits)
  ultimately have "ArgInfo m' PV_PRIVATE_SEGMENT_WAVE_BYTE_OFFSET \<noteq> None"
    using emit na by (fastforce simp: emitCodeToSetupScratch_def err_bind_Inr_iff split: if_splits)
  then obtain w where w: "ArgInfo m' PV_PRIVATE_SEGMENT_WAVE_BYTE_OFFSET = Some w" by blast
  show ?thesis using staysD [OF st d] staysD [OF st w] by (simp add: wave_base_def d w)
qed

lemma pair_outside:
  assumes ok: "lanes_ok st Specs" and "findArgumentLane Specs a = Some l" and "getArgumentLaneSize a = 2"
    and "L \<subseteq> {0, 1, 2} \<union> (\<Union>b\<in>B. arg_lanes Specs b)" and "a \<notin> B"
  shows "l \<notin> L" "Suc l \<notin> L"
proof -
  note A = arg_lane_run [OF ok assms(2), unfolded assms(3)]
  have "x \<notin> L" if "x \<in> arg_lanes Specs a" for x
  proof
    assume "x \<in> L"
    with assms(4) arg_lanes_props(2) [OF ok that] obtain b where b: "b \<in> B" "x \<in> arg_lanes Specs b" by auto
    then have "a \<noteq> b" using assms(5) by auto
    from arg_lanes_props(1) [OF ok this] that b(2) show False by auto
  qed
  then show "l \<notin> L" "Suc l \<notin> L" by (simp_all add: A(1))
qed

lemma prologue_setup_part:
  assumes 1: "if RequiresScratchAndStackSetup info
     then emitCodeToSetupScratch st E Specs SVS (stack_use_of K info) m = Inr (m1, c1) else m1 = m \<and> c1 = []"
    and s12: "stays m1 m'" and ok: "prologue_ok st E Specs info SVS m m'" and g1_def: "g1 = exec_ks st E gm c1 g"
  shows "keeps SVS ({0, 1, 2} \<union> arg_lanes Specs FLAT_SCRATCH \<union> arg_lanes Specs WAVEFRONT_PRIVATE_SEGMENT_BUFFER) {} g g1"
    and "RequiresScratchAndStackSetup info \<Longrightarrow> vregs g1 SVS StackPointerStoreLane = stack_start E (stack_use_of K info) m' g"
    and "RequiresScratchAndStackSetup info \<Longrightarrow> \<not> hasArchitectedFlatScratch st \<Longrightarrow>
      \<exists>l. findArgumentLane Specs FLAT_SCRATCH = Some l \<and> lane_pair g1 SVS l = wave_base g m' PV_FLAT_SCRATCH_INIT"
proof -
  let ?SL = "{0, 1, 2} \<union> arg_lanes Specs FLAT_SCRATCH \<union> arg_lanes Specs WAVEFRONT_PRIVATE_SEGMENT_BUFFER"
  have E: "enables_one E" and L: "lanes_ok st Specs" and R: "regs_ok SVS m'"
    using ok by (simp_all add: prologue_ok_def)
  have "keeps SVS ?SL {} g g1 \<and> vregs g1 SVS StackPointerStoreLane = stack_start E (stack_use_of K info) m' g \<and>
      (\<not> hasArchitectedFlatScratch st \<longrightarrow> (\<exists>l. findArgumentLane Specs FLAT_SCRATCH = Some l \<and>
        lane_pair g1 SVS l = wave_base g m' PV_FLAT_SCRATCH_INIT))" if req: "RequiresScratchAndStackSetup info"
  proof -
    have emit1: "emitCodeToSetupScratch st E Specs SVS (stack_use_of K info) m = Inr (m1, c1)" using 1 req by simp
    have psb: "sgpr_arg m1 PV_PRIVATE_SEGMENT_BUFFER" if nf: "\<not> hasArchitectedFlatScratch st" "\<not> enableFlatScratch st"
    proof -
      obtain d where "ArgInfo m1 PV_PRIVATE_SEGMENT_BUFFER = Some d" using setup_scratch_psb [OF emit1 E nf] by blast
      moreover from this have "ArgInfo m' PV_PRIVATE_SEGMENT_BUFFER = Some d" by (rule staysD [OF s12])
      ultimately show ?thesis using ok req nf by (simp add: prologue_ok_def sgpr_arg_def)
    qed
    have fs: "sgpr_arg m PV_FLAT_SCRATCH_INIT" if "\<not> hasArchitectedFlatScratch st"
      using ok req that by (simp add: prologue_ok_def)
    from setup_scratch_effect [OF emit1 E L fs regs_ok_stays [OF s12 R] psb g1_def] wave_base_stays [OF s12 emit1 _ E fs, of g]
    show ?thesis by (simp add: stack_start_stays [OF s12 emit1])
  qed
  then show "keeps SVS ?SL {} g g1"
    "RequiresScratchAndStackSetup info \<Longrightarrow> vregs g1 SVS StackPointerStoreLane = stack_start E (stack_use_of K info) m' g"
    "RequiresScratchAndStackSetup info \<Longrightarrow> \<not> hasArchitectedFlatScratch st \<Longrightarrow> \<exists>l. findArgumentLane Specs FLAT_SCRATCH = Some l \<and>
      lane_pair g1 SVS l = wave_base g m' PV_FLAT_SCRATCH_INIT"
    using 1 by (cases "RequiresScratchAndStackSetup info"; simp add: g1_def)+
qed

lemma prologue_expand_part:
  fixes info :: SVAScratchSetupInfo
  defines "Req \<equiv> set (RequestedKernelArguments info)"
  assumes 2: "if IMPLICIT_ARG_BUFFER \<in> Req then expand_kernarg E Specs K info SVS m1 = Inr (m2, c2) else m2 = m1 \<and> c2 = []"
    and s3: "stays m2 m'" and ok: "prologue_ok st E Specs info SVS m m'" and g2_def: "g2 = exec_ks st E gm c2 g1"
  shows "keeps SVS ({0, 1} \<union> (if IMPLICIT_ARG_BUFFER \<in> Req then arg_lanes Specs IMPLICIT_ARG_BUFFER else {}))
      (kernarg_regs K info m') g1 g2"
    and "IMPLICIT_ARG_BUFFER \<in> Req \<Longrightarrow> \<exists>l. findArgumentLane Specs IMPLICIT_ARG_BUFFER = Some l \<and>
      lane_pair g2 SVS l = sgpr_pair g1 (kernarg_pair m') + (if 1 \<le> arg_count K then 8 else 0)"
    and "expands_kernarg K info \<Longrightarrow> sregs g2 (fst (kernarg_pair m')) = gm (sgpr_pair g1 (kernarg_pair m')) \<and>
      sregs g2 (snd (kernarg_pair m')) = gm (sgpr_pair g1 (kernarg_pair m') + 4)"
proof -
  let ?P = "kernarg_pair m'"
  let ?IL = "{0, 1} \<union> (if IMPLICIT_ARG_BUFFER \<in> Req then arg_lanes Specs IMPLICIT_ARG_BUFFER else {})"
  have E: "enables_one E" and L: "lanes_ok st Specs" and off: "smrd_bytes E (convertSMRDOffsetUnits E 0) = 0"
    using ok by (simp_all add: prologue_ok_def)
  have "keeps SVS ?IL (kernarg_regs K info m') g1 g2 \<and> (\<exists>l. findArgumentLane Specs IMPLICIT_ARG_BUFFER = Some l \<and>
      lane_pair g2 SVS l = sgpr_pair g1 ?P + (if 1 \<le> arg_count K then 8 else 0)) \<and>
      (1 \<le> arg_count K \<longrightarrow> sregs g2 (fst ?P) = gm (sgpr_pair g1 ?P) \<and> sregs g2 (snd ?P) = gm (sgpr_pair g1 ?P + 4))"
    if I: "IMPLICIT_ARG_BUFFER \<in> Req"
  proof -
    have emit2: "expand_kernarg E Specs K info SVS m1 = Inr (m2, c2)" using 2 I by simp
    obtain d where d: "ArgInfo m2 PV_KERNARG_SEGMENT_PTR = Some d"
      using emit2 unfolding expand_kernarg_def
      by (auto simp: emitKernargBufferExpansion_def Let_def split: option.splits if_splits)
    then have d': "ArgInfo m' PV_KERNARG_SEGMENT_PTR = Some d" by (rule staysD [OF s3])
    have k2: "sgpr_arg m2 PV_KERNARG_SEGMENT_PTR"
      using ok I d d' by (simp add: prologue_ok_def sgpr_arg_def Req_def)
    have same: "kernarg_pair m2 = ?P" by (simp add: kernarg_pair_def d d')
    from expand_effect [OF emit2 E L k2 off g2_def, unfolded same] I show ?thesis
      by (simp add: kernarg_regs_def expands_kernarg_def Req_def)
  qed
  then show "keeps SVS ?IL (kernarg_regs K info m') g1 g2"
    "IMPLICIT_ARG_BUFFER \<in> Req \<Longrightarrow> \<exists>l. findArgumentLane Specs IMPLICIT_ARG_BUFFER = Some l \<and>
      lane_pair g2 SVS l = sgpr_pair g1 ?P + (if 1 \<le> arg_count K then 8 else 0)"
    "expands_kernarg K info \<Longrightarrow> sregs g2 (fst ?P) = gm (sgpr_pair g1 ?P) \<and> sregs g2 (snd ?P) = gm (sgpr_pair g1 ?P + 4)"
    using 2 by (cases "IMPLICIT_ARG_BUFFER \<in> Req"; simp add: g2_def expands_kernarg_def Req_def)+
qed

lemma prologue_effect:
  assumes emit: "emitInitialEntryKernelSetup st E Specs K info m = Inr (m', code, store)"
    and segs: "EntrySegments K = (b, e, (i, s)) # rest" and used: "usesSVA info"
    and ok: "prologue_ok st E Specs info (setup_vgpr s) m m'"
    and h: "h = exec_ks st E gm code g"
  defines "SVS \<equiv> setup_vgpr s" and "Req \<equiv> set (RequestedKernelArguments info)"
  shows "keeps SVS (set (sva_lanes Specs)) (kernarg_regs K info m') g h"
    and "SA \<in> Req \<Longrightarrow> preloadedValueForSVA SA = Some pv \<Longrightarrow> \<exists>b d. findArgumentLane Specs SA = Some b \<and>
      ArgInfo m' pv = Some d \<and> (\<forall>i<getArgumentLaneSize SA. vregs h SVS (b + i) = arg_dword st h d i)"
    and "RequiresScratchAndStackSetup info \<Longrightarrow>
      vregs h SVS StackPointerStoreLane = stack_start E (stack_use_of K info) m' g"
    and "RequiresScratchAndStackSetup info \<Longrightarrow> \<not> hasArchitectedFlatScratch st \<Longrightarrow> FLAT_SCRATCH \<notin> Req \<Longrightarrow>
      \<exists>l. findArgumentLane Specs FLAT_SCRATCH = Some l \<and> lane_pair h SVS l = wave_base g m' PV_FLAT_SCRATCH_INIT"
    and "IMPLICIT_ARG_BUFFER \<in> Req \<Longrightarrow> \<exists>l. findArgumentLane Specs IMPLICIT_ARG_BUFFER = Some l \<and>
      lane_pair h SVS l = sgpr_pair g (kernarg_pair m') + (if 1 \<le> arg_count K then 8 else 0)"
    and "expands_kernarg K info \<Longrightarrow> sregs h (fst (kernarg_pair m')) = gm (sgpr_pair g (kernarg_pair m')) \<and>
      sregs h (snd (kernarg_pair m')) = gm (sgpr_pair g (kernarg_pair m') + 4)"
proof -
  obtain m1 c1 m2 c2 c3 where
    1: "if RequiresScratchAndStackSetup info
     then emitCodeToSetupScratch st E Specs SVS (stack_use_of K info) m = Inr (m1, c1) else m1 = m \<and> c1 = []" and
    2: "if IMPLICIT_ARG_BUFFER \<in> Req then expand_kernarg E Specs K info SVS m1 = Inr (m2, c2) else m2 = m1 \<and> c2 = []" and
    3: "emit_arguments E Specs SVS (RequestedKernelArguments info) m2 = Inr (m', c3)" and
    code: "code = c1 @ c2 @ c3" and s1: "stays m m1" and s2: "stays m1 m2" and s3: "stays m2 m'"
    unfolding SVS_def Req_def by (rule prologue_parts [OF emit segs used ok]) iprover
  have E: "enables_one E" and L: "lanes_ok st Specs" and R: "regs_ok SVS m'"
    and off: "smrd_bytes E (convertSMRDOffsetUnits E 0) = 0" and D: "distinct (RequestedKernelArguments info)"
    using ok by (simp_all add: prologue_ok_def SVS_def)
  have s12: "stays m1 m'" using s2 s3 by (rule stays_trans)
  define g1 where "g1 = exec_ks st E gm c1 g"
  define g2 where "g2 = exec_ks st E gm c2 g1"
  have h3: "h = exec_ks st E gm c3 g2" by (simp add: h code g1_def g2_def)
  let ?SL = "{0, 1, 2} \<union> arg_lanes Specs FLAT_SCRATCH \<union> arg_lanes Specs WAVEFRONT_PRIVATE_SEGMENT_BUFFER"
  let ?IL = "{0, 1} \<union> (if IMPLICIT_ARG_BUFFER \<in> Req then arg_lanes Specs IMPLICIT_ARG_BUFFER else {})"
  let ?AL = "insert 0 (\<Union>SA\<in>Req. written Specs SA)"
  have ok': "prologue_ok st E Specs info SVS m m'" using ok by (simp add: SVS_def)
  let ?P = "kernarg_pair m'"
  note S = prologue_setup_part [OF 1 s12 ok' g1_def]
  note X = prologue_expand_part [where info = info, folded Req_def, OF 2 s3 ok' g2_def]
  have A: "keeps SVS ?AL {} g2 h" using arguments_effect [OF 3 h3 E L R D] by (simp add: Req_def)
  have XA: "keeps SVS (?IL \<union> ?AL) (kernarg_regs K info m') g1 h" using keeps_trans [OF X(1) A] by simp
  show "keeps SVS (set (sva_lanes Specs)) (kernarg_regs K info m') g h"
    using keeps_trans [OF S(1) XA]
  proof (rule keeps_mono)
    have "{0, 1, 2} \<subseteq> set (sva_lanes Specs)" by (auto simp: sva_lanes_def fixed_lanes)
    moreover have "arg_lanes Specs a \<subseteq> set (sva_lanes Specs)" for a using arg_lanes_props(2) [OF L] by blast
    moreover from this have "written Specs a \<subseteq> set (sva_lanes Specs)" for a by (simp add: written_def)
    ultimately show "?SL \<union> (?IL \<union> ?AL) \<subseteq> set (sva_lanes Specs)" by (auto split: if_splits)
  qed simp
  show "\<exists>b d. findArgumentLane Specs SA = Some b \<and> ArgInfo m' pv = Some d \<and>
      (\<forall>i<getArgumentLaneSize SA. vregs h SVS (b + i) = arg_dword st h d i)"
    if SA: "SA \<in> Req" and pv: "preloadedValueForSVA SA = Some pv"
  proof -
    from arguments_effect [OF 3 h3 E L R D] SA pv obtain b d where bd: "findArgumentLane Specs SA = Some b"
      "ArgInfo m' pv = Some d" "\<forall>i<getArgumentLaneSize SA. vregs h SVS (b + i) = arg_dword st g2 d i"
      unfolding Req_def by blast
    have "arg_dword st h d i = arg_dword st g2 d i" for i
      using R bd(2) by (intro arg_dword_cong [OF A]) (auto simp: regs_ok_def)
    with bd show ?thesis by simp
  qed
  show "vregs h SVS StackPointerStoreLane = stack_start E (stack_use_of K info) m' g"
    if req: "RequiresScratchAndStackSetup info"
  proof -
    have "2 \<notin> ?IL \<union> ?AL"
      using arg_lanes_props(2) [OF L, of 2] by (auto simp: written_def split: if_splits)
    then have "vregs h SVS 2 = vregs g1 SVS 2" using XA unfolding keeps_def by blast
    then show ?thesis using S(2) [OF req] by (simp add: fixed_lanes)
  qed
  show "\<exists>l. findArgumentLane Specs FLAT_SCRATCH = Some l \<and> lane_pair h SVS l = wave_base g m' PV_FLAT_SCRATCH_INIT"
    if req: "RequiresScratchAndStackSetup info" and na: "\<not> hasArchitectedFlatScratch st" and nr: "FLAT_SCRATCH \<notin> Req"
  proof -
    from S(3) [OF req na] obtain l where l: "findArgumentLane Specs FLAT_SCRATCH = Some l"
      "lane_pair g1 SVS l = wave_base g m' PV_FLAT_SCRATCH_INIT" by blast
    have "lane_pair h SVS l = lane_pair g1 SVS l"
      by (rule lane_pair_cong [OF XA]; rule pair_outside [OF L l(1), of _ "insert IMPLICIT_ARG_BUFFER Req"])
        (use nr in \<open>auto simp: written_def split: if_splits\<close>)
    with l show ?thesis by simp
  qed
  show "\<exists>l. findArgumentLane Specs IMPLICIT_ARG_BUFFER = Some l \<and>
      lane_pair h SVS l = sgpr_pair g ?P + (if 1 \<le> arg_count K then 8 else 0)" if I: "IMPLICIT_ARG_BUFFER \<in> Req"
  proof -
    from X(2) [OF I] obtain l where l: "findArgumentLane Specs IMPLICIT_ARG_BUFFER = Some l"
      "lane_pair g2 SVS l = sgpr_pair g1 ?P + (if 1 \<le> arg_count K then 8 else 0)" by blast
    have "lane_pair h SVS l = lane_pair g2 SVS l"
      by (rule lane_pair_cong [OF A]; rule pair_outside [OF L l(1), of _ "Req - {IMPLICIT_ARG_BUFFER}"])
        (auto simp: written_def split: if_splits)
    with l show ?thesis by (simp add: keeps_pair [OF S(1)])
  qed
  show "sregs h (fst ?P) = gm (sgpr_pair g ?P) \<and> sregs h (snd ?P) = gm (sgpr_pair g ?P + 4)"
    if "expands_kernarg K info"
    using X(3) [OF that] by (simp add: keeps_sregs [OF A] keeps_pair [OF S(1)])
qed


subsection \<open>Types\<close>

text \<open>The register class and the number of channels of a preloaded value.\<close>

fun preloaded_width :: "PreloadedValue \<Rightarrow> nat" where
  "preloaded_width PV_PRIVATE_SEGMENT_BUFFER = 4"
| "preloaded_width PV_DISPATCH_PTR = 2"
| "preloaded_width PV_QUEUE_PTR = 2"
| "preloaded_width PV_KERNARG_SEGMENT_PTR = 2"
| "preloaded_width PV_DISPATCH_ID = 2"
| "preloaded_width PV_FLAT_SCRATCH_INIT = 2"
| "preloaded_width PV_IMPLICIT_BUFFER_PTR = 2"
| "preloaded_width pv = 1"

fun is_workitem_id :: "PreloadedValue \<Rightarrow> bool" where
  "is_workitem_id PV_WORKITEM_ID_X = True"
| "is_workitem_id PV_WORKITEM_ID_Y = True"
| "is_workitem_id PV_WORKITEM_ID_Z = True"
| "is_workitem_id pv = False"

definition desc_typed :: "PreloadedValue \<Rightarrow> arg_desc \<Rightarrow> bool" where
  "desc_typed pv d \<longleftrightarrow>
     (if is_workitem_id pv then is_vgpr (getRegister d) else is_sgpr (getRegister d)) \<and>
     channels d = preloaded_width pv"

definition mfi_typed :: "sim_mfi \<Rightarrow> bool" where
  "mfi_typed m \<longleftrightarrow> (\<forall>pv d. ArgInfo m pv = Some d \<longrightarrow> desc_typed pv d)"

definition env_typed :: "preamble_env \<Rightarrow> bool" where
  "env_typed E \<longleftrightarrow> enables_one E \<and>
     (\<forall>pv m d. \<not> is_workitem_id pv \<longrightarrow> ArgInfo (addPreloaded E pv m) pv = Some d \<longrightarrow> desc_typed pv d)"

lemma mfi_typed_cong: "ArgInfo m = ArgInfo k \<Longrightarrow> mfi_typed m = mfi_typed k"
  by (simp add: mfi_typed_def)

lemma mfi_typed_add:
  assumes E: "env_typed E" and m: "mfi_typed m" and "\<not> is_workitem_id pv"
  shows "mfi_typed (addPreloaded E pv m)" "mfi_typed (AddUserSGPR E pv m)"
proof -
  have add: "mfi_typed (addPreloaded E pv m)" if "mfi_typed m" for m
    unfolding mfi_typed_def
  proof (intro allI impI)
    fix pv' d
    assume a: "ArgInfo (addPreloaded E pv m) pv' = Some d"
    show "desc_typed pv' d"
    proof (cases "pv' = pv")
      case True
      then show ?thesis using a E assms(3) by (simp add: env_typed_def)
    next
      case False
      moreover have "enables_one E" using E by (simp add: env_typed_def)
      ultimately show ?thesis using a that ArgInfo_add(1) [of E pv' pv m] by (simp add: mfi_typed_def)
    qed
  qed
  then show "mfi_typed (addPreloaded E pv m)" using m .
  have "mfi_typed (m\<lparr>NumSystemSGPRs := 0\<rparr>)" using m by (simp add: mfi_typed_def)
  from add [OF this] show "mfi_typed (AddUserSGPR E pv m)" by (simp add: AddUserSGPR_def mfi_typed_def)
qed

lemma mfi_typed_updates [simp]:
  "mfi_typed (force_field E pv m) = mfi_typed m" "mfi_typed (removeFnAttr a m) = mfi_typed m"
  by (simp_all add: mfi_typed_def)

lemma typed_force_preloaded:
  assumes "env_typed E" "mfi_typed m"
  shows "mfi_typed (force_preloaded E pv m)"
proof -
  have "mfi_typed (setWorkItemID E pv v n (removeFnAttr a m))" if "is_workitem_id pv" for pv v n a
    using that assms(2) by (cases pv) (simp_all add: setWorkItemID_def mfi_typed_def desc_typed_def)
  with mfi_typed_add [OF assms(1)] assms(2) show ?thesis by (cases pv) simp_all
qed

lemma force_preloaded_enables:
  assumes "enables_one E" and "preloadedValueForSVA SA = Some pv"
  shows "ArgInfo (force_preloaded E pv m) pv \<noteq> None"
  using assms by (cases SA) (auto simp: enables_one_def AddUserSGPR_def setWorkItemID_def)

lemma workitem_argument:
  "preloadedValueForSVA SA = Some pv \<Longrightarrow> is_workitem_id pv \<Longrightarrow> getArgumentLaneSize SA = 1"
  "preloadedValueForSVA SA = Some pv \<Longrightarrow> preloaded_width pv = getArgumentLaneSize SA"
  by (cases SA; auto)+

lemma sgpr_not_vgpr: "is_sgpr r \<Longrightarrow> \<not> is_vgpr r"
  by (cases r) simp_all

lemma emit_argument_typed:
  assumes E: "env_typed E" and m: "mfi_typed m" and "findArgumentLane Specs SA \<noteq> None"
  shows "\<exists>m' c. emit_argument E Specs SVS SA m = Inr (m', c) \<and> mfi_typed m'"
proof (cases "preloadedValueForSVA SA")
  case None
  then show ?thesis using assms by (auto simp: emit_argument_def)
next
  case (Some pv)
  obtain b where b: "findArgumentLane Specs SA = Some b" using assms(3) by auto
  let ?m = "if ArgInfo m pv = None then force_preloaded E pv m else m"
  have t: "mfi_typed ?m" using typed_force_preloaded [OF E m] m by simp
  have "ArgInfo ?m pv \<noteq> None"
    using force_preloaded_enables [OF _ Some] E by (auto simp: env_typed_def)
  then obtain d where d: "ArgInfo ?m pv = Some d" by blast
  then have "desc_typed pv d" using t by (simp add: mfi_typed_def)
  then show ?thesis
    using workitem_argument [OF Some] b d Some t
    by (auto simp: emit_argument_def Let_def desc_typed_def sgpr_not_vgpr emitCodeToStoreSGPRKernelArg_def
        split: if_splits)
qed

lemma emit_arguments_typed:
  assumes E: "env_typed E"
  shows "mfi_typed m \<Longrightarrow> \<forall>SA\<in>set SAs. findArgumentLane Specs SA \<noteq> None \<Longrightarrow>
    \<exists>m' c. emit_arguments E Specs SVS SAs m = Inr (m', c) \<and> mfi_typed m'"
proof (induction SAs arbitrary: m)
  case (Cons SA SAs)
  obtain m1 c1 where 1: "emit_argument E Specs SVS SA m = Inr (m1, c1)" "mfi_typed m1"
    using emit_argument_typed [OF E Cons.prems(1), of Specs SA SVS] Cons.prems(2) by auto
  then obtain m2 c2 where "emit_arguments E Specs SVS SAs m1 = Inr (m2, c2)" "mfi_typed m2"
    using Cons.IH [of m1] Cons.prems(2) by auto
  with 1 show ?case by simp
qed simp

lemma setup_scratch_typed:
  assumes E: "env_typed E" and m: "mfi_typed m"
    and lanes: "\<not> hasArchitectedFlatScratch st \<Longrightarrow> findArgumentLane Specs FLAT_SCRATCH \<noteq> None \<and>
      (enableFlatScratch st \<or> findArgumentLane Specs WAVEFRONT_PRIVATE_SEGMENT_BUFFER \<noteq> None)"
  shows "\<exists>m' c. emitCodeToSetupScratch st E Specs SVS u m = Inr (m', c) \<and> mfi_typed m'"
proof -
  let ?m1 = "if ArgInfo m PV_PRIVATE_SEGMENT_WAVE_BYTE_OFFSET = None
      then addPreloaded E PV_PRIVATE_SEGMENT_WAVE_BYTE_OFFSET m else m"
  have t1: "mfi_typed ?m1" using mfi_typed_add(1) [OF E m] m by simp
  have base: "\<exists>k c. (if hasArchitectedFlatScratch st then Inr (m, []) else setup_scratch_base st E Specs SVS m) =
      Inr (k, c) \<and> mfi_typed k"
  proof (cases "hasArchitectedFlatScratch st")
    case False
    let ?m2 = "if enableFlatScratch st \<or> ArgInfo ?m1 PV_PRIVATE_SEGMENT_BUFFER \<noteq> None then ?m1
        else addPreloaded E PV_PRIVATE_SEGMENT_BUFFER ?m1"
    have t2: "mfi_typed ?m2" using mfi_typed_add(1) [OF E t1, of PV_PRIVATE_SEGMENT_BUFFER] t1 by simp
    obtain l where l: "findArgumentLane Specs FLAT_SCRATCH = Some l" using lanes [OF False] by auto
    have "\<exists>c. setup_scratch_base st E Specs SVS m = Inr (?m2, c)"
      using lanes [OF False] unfolding setup_scratch_base_def Let_def
      by (cases "enableFlatScratch st") (auto simp: l simp del: if_split split: option.splits)
    with t2 show ?thesis using False by auto
  qed (use m in simp)
  have sp: "\<exists>k' c. setup_stack_pointer E SVS u k = Inr (k', c) \<and> mfi_typed k'" if k: "mfi_typed k" for k
  proof -
    let ?k = "AddUserSGPR E PV_PRIVATE_SEGMENT_SIZE (force_field E PV_PRIVATE_SEGMENT_SIZE k)"
    have "ArgInfo ?k PV_PRIVATE_SEGMENT_SIZE \<noteq> None"
      using E by (auto simp: env_typed_def enables_one_def AddUserSGPR_def)
    moreover have "mfi_typed ?k" using k by (intro mfi_typed_add(2) [OF E]) simp_all
    ultimately show ?thesis using k by (auto simp: setup_stack_pointer_def Let_def split: option.splits)
  qed
  from base obtain k c where k: "(if hasArchitectedFlatScratch st then Inr (m, []) else setup_scratch_base st E Specs SVS m) =
      Inr (k, c)" "mfi_typed k" by blast
  with sp [OF k(2)] show ?thesis by (auto simp: emitCodeToSetupScratch_def)
qed

lemma expand_kernarg_typed:
  assumes E: "env_typed E" and m: "mfi_typed m" and "findArgumentLane Specs IMPLICIT_ARG_BUFFER \<noteq> None"
  shows "\<exists>m' c. expand_kernarg E Specs K info SVS m = Inr (m', c) \<and> mfi_typed m'"
proof -
  let ?m = "fold (clear_implicit_attr E) (ImplicitArgsExplicitlyRequested info) m"
  have "mfi_typed (clear_implicit_attr E k m)" if "mfi_typed m" for k m
    using that mfi_typed_add(2) [OF E] by (cases k) simp_all
  then have "mfi_typed (fold (clear_implicit_attr E) ks m)" for ks
    using m by (induction ks arbitrary: m) auto
  then have t: "mfi_typed ?m" .
  have kern: "\<exists>d. ArgInfo (enableKernargSegmentPtr E k) PV_KERNARG_SEGMENT_PTR = Some d"
    "mfi_typed (enableKernargSegmentPtr E k)" if "ArgInfo k = ArgInfo ?m" for k
  proof -
    have k: "mfi_typed k" using t that by (simp add: mfi_typed_def)
    show "\<exists>d. ArgInfo (enableKernargSegmentPtr E k) PV_KERNARG_SEGMENT_PTR = Some d"
      using E by (auto simp: enableKernargSegmentPtr_def env_typed_def enables_one_def AddUserSGPR_def)
    show "mfi_typed (enableKernargSegmentPtr E k)"
      using k mfi_typed_add(2) [OF E, of "force_field E PV_KERNARG_SEGMENT_PTR k" PV_KERNARG_SEGMENT_PTR]
      by (simp add: enableKernargSegmentPtr_def)
  qed
  have "\<exists>m' c. emitKernargBufferExpansion E Specs SVS app k = Inr (m', c) \<and> mfi_typed m'"
    if "ArgInfo k = ArgInfo ?m" for app k
    using kern [OF that] assms(3) by (auto simp: emitKernargBufferExpansion_def Let_def)
  then show ?thesis unfolding expand_kernarg_def Let_def by auto
qed


subsection \<open>An example\<close>

definition alloc_user :: "PreloadedValue \<Rightarrow> sim_mfi \<Rightarrow> sim_mfi" where
  "alloc_user pv m =
     m\<lparr>ArgInfo := (ArgInfo m)(pv := Some
         \<lparr>getRegister = SGPR (10 + NumUserSGPRs m), channels = preloaded_width pv, getMask = -1\<rparr>),
       NumUserSGPRs := NumUserSGPRs m + preloaded_width pv\<rparr>"

definition example_env :: preamble_env where
  "example_env = \<lparr>addPreloaded = alloc_user, getNumUserSGPRForField = preloaded_width,
     preloaded_values = [PV_QUEUE_PTR, PV_KERNARG_SEGMENT_PTR, PV_FLAT_SCRATCH_INIT], maxNumUserSGPRs = 16,
     convertSMRDOffsetUnits = \<lambda>n. n, smrd_bytes = \<lambda>n. n, hasPackedTID = True,
     InstrumentationStackSize = 4096\<rparr>"

definition example_mfi :: sim_mfi where
  "example_mfi = \<lparr>ArgInfo = (\<lambda>pv. None)(
       PV_KERNARG_SEGMENT_PTR := Some \<lparr>getRegister = SGPR 4, channels = 2, getMask = -1\<rparr>,
       PV_FLAT_SCRATCH_INIT := Some \<lparr>getRegister = SGPR 6, channels = 2, getMask = -1\<rparr>,
       PV_PRIVATE_SEGMENT_WAVE_BYTE_OFFSET := Some \<lparr>getRegister = SGPR 9, channels = 1, getMask = -1\<rparr>,
       PV_WORKITEM_ID_Y := Some \<lparr>getRegister = VGPR 0, channels = 1, getMask = 0xffc00\<rparr>),
     UserField = \<lambda>pv. pv = PV_KERNARG_SEGMENT_PTR \<or> pv = PV_FLAT_SCRATCH_INIT,
     NumUsedUserSGPRs = 8, NumKernargPreloadSGPRs = 0, NumUserSGPRs = 8, NumSystemSGPRs = 2,
     FnAttrs = [], Arg0Attrs = [''byref'']\<rparr>"

definition example_specs :: StateValueArraySpecs where
  "example_specs = \<lparr>BufferRsrcSpillLane = None, ScratchSpillLane = Some 5, ScalarArguments =
     [(FLAT_SCRATCH, 3), (KERNEL_ARG_PTR, 7), (IMPLICIT_ARG_BUFFER, 9), (WORKITEM_ID_Y, 11)]\<rparr>"

definition example_info :: "ScalarValueArgument list \<Rightarrow> SVAScratchSetupInfo" where
  "example_info SAs = \<lparr>RequiresScratchAndStackSetup = True, AnyPayloadUsesDynamicStack = False,
     PayloadMaxFixedStackSize = 64, RequestedKernelArguments = SAs, ImplicitArgsExplicitlyRequested = [HiddenHeapV1]\<rparr>"

definition example_kernel :: "SVAStorage \<Rightarrow> kernel" where
  "example_kernel s = \<lparr>NumBlocks = 3, NumEntryInsts = 2, EntrySegments = [(0, 9, (1, s))],
     KernelVarSizedObjects = False, KernelStackSize = 128, arg_count = 1, preload_offset_attr = None\<rparr>"

lemma example_enables: "enables_one example_env"
  by (simp add: enables_one_def example_env_def alloc_user_def)

lemma example_lanes: "lanes_ok mai_absolute_fs example_specs"
  by code_simp

lemma example_arg_info:
  "ArgInfo m = ArgInfo example_mfi \<Longrightarrow> SVS = VGPR 3 \<or> SVS = VGPR 7 \<Longrightarrow> regs_ok SVS m"
  by (auto simp: regs_ok_def example_mfi_def split: if_splits)

lemma example_emission:
  assumes "set SAs \<subseteq> {FLAT_SCRATCH, KERNEL_ARG_PTR, IMPLICIT_ARG_BUFFER, WORKITEM_ID_Y}" "distinct SAs"
    and "s = VGPRStateValueArrayStorage (VGPR 7) \<or> s = SpilledWithThreeSGPRsValueStorage (SGPR 20) (SGPR 21) (SGPR 22)"
  obtains m' code store where
    "emitInitialEntryKernelSetup mai_absolute_fs example_env example_specs (example_kernel s) (example_info SAs) example_mfi =
       Inr (m', code, store)"
    "prologue_ok mai_absolute_fs example_env example_specs (example_info SAs) (setup_vgpr s) example_mfi m'"
    "ArgInfo m' = ArgInfo example_mfi"
    "store = (if is_vgpr (getStateValueStorageReg s) then [] else emitCodeToStoreSVA mai_absolute_fs s (VGPR 3))"
proof -
  have arg: "\<exists>c. emit_argument example_env example_specs SVS SA m = Inr (m, c)"
    if "SA \<in> {FLAT_SCRATCH, KERNEL_ARG_PTR, IMPLICIT_ARG_BUFFER, WORKITEM_ID_Y}" "ArgInfo m = ArgInfo example_mfi" for SA m SVS
    using that by (auto simp: emit_argument_def example_specs_def findArgumentLane_def example_mfi_def Let_def
        emitCodeToStoreSGPRKernelArg_def)
  have args: "\<exists>c. emit_arguments example_env example_specs SVS SAs m = Inr (m, c)"
    if "set SAs \<subseteq> {FLAT_SCRATCH, KERNEL_ARG_PTR, IMPLICIT_ARG_BUFFER, WORKITEM_ID_Y}" "ArgInfo m = ArgInfo example_mfi" for SAs m SVS
    using that
  proof (induction SAs)
    case (Cons SA SAs)
    from Cons.prems arg [of SA m SVS] obtain c where "emit_argument example_env example_specs SVS SA m = Inr (m, c)" by auto
    with Cons show ?case by auto
  qed simp
  have sc: "\<exists>c. emitCodeToSetupScratch mai_absolute_fs example_env example_specs SVS
      (stack_use_of (example_kernel s) (example_info SAs)) example_mfi = Inr (example_mfi, c)" for SVS
    by (simp add: emitCodeToSetupScratch_def setup_scratch_base_def setup_stack_pointer_def Let_def example_mfi_def
        example_targets stack_use_of_def example_kernel_def example_specs_def findArgumentLane_def)
  have ex: "\<exists>m1 c. expand_kernarg example_env example_specs (example_kernel s) (example_info SAs) SVS example_mfi = Inr (m1, c) \<and>
      ArgInfo m1 = ArgInfo example_mfi \<and> NumKernargPreloadSGPRs m1 = 0" for SVS
    by (simp add: expand_kernarg_def emitKernargBufferExpansion_def Let_def example_kernel_def example_info_def
        example_mfi_def example_specs_def findArgumentLane_def enableKernargSegmentPtr_def removeFnAttr_def)
  let ?SVS = "setup_vgpr s"
  obtain c1 where c1: "emitCodeToSetupScratch mai_absolute_fs example_env example_specs ?SVS
      (stack_use_of (example_kernel s) (example_info SAs)) example_mfi = Inr (example_mfi, c1)" using sc by blast
  obtain m1 c2 where c2: "expand_kernarg example_env example_specs (example_kernel s) (example_info SAs) ?SVS example_mfi = Inr (m1, c2)"
    "ArgInfo m1 = ArgInfo example_mfi" using ex by blast
  define m2 where "m2 = (if IMPLICIT_ARG_BUFFER \<in> set SAs then m1 else example_mfi)"
  have m2: "ArgInfo m2 = ArgInfo example_mfi" by (simp add: m2_def c2)
  obtain c3 where c3: "emit_arguments example_env example_specs ?SVS SAs m2 = Inr (m2, c3)"
    using args [OF assms(1) m2] by blast
  have N: "NumKernargPreloadSGPRs example_mfi = 0" by (simp add: example_mfi_def)
  have info: "RequiresScratchAndStackSetup (example_info SAs)" "RequestedKernelArguments (example_info SAs) = SAs"
    by (simp_all add: example_info_def)
  have "\<exists>code store. emitInitialEntryKernelSetup mai_absolute_fs example_env example_specs (example_kernel s)
      (example_info SAs) example_mfi = Inr (m2, code, store) \<and>
      store = (if is_vgpr (getStateValueStorageReg s) then [] else emitCodeToStoreSVA mai_absolute_fs s ?SVS)"
  proof -
    have K: "NumBlocks (example_kernel s) \<noteq> 0" "NumEntryInsts (example_kernel s) \<noteq> 0"
      "EntrySegments (example_kernel s) = [(0, 9, (1, s))]" by (simp_all add: example_kernel_def)
    show ?thesis
    proof (cases "IMPLICIT_ARG_BUFFER \<in> set SAs")
      case True
      then show ?thesis using c3
        by (simp add: emitInitialEntryKernelSetup_def emit_prologue_def usesSVA_def info c1 Let_def N K
            restore_kernarg_preload_def c2(1) m2_def del: One_nat_def)
    next
      case False
      then show ?thesis using c3
        by (simp add: emitInitialEntryKernelSetup_def emit_prologue_def usesSVA_def info c1 Let_def N K
            restore_kernarg_preload_def m2_def del: One_nat_def)
    qed
  qed
  then obtain code store where emit: "emitInitialEntryKernelSetup mai_absolute_fs example_env example_specs (example_kernel s)
      (example_info SAs) example_mfi = Inr (m2, code, store)"
      "store = (if is_vgpr (getStateValueStorageReg s) then [] else emitCodeToStoreSVA mai_absolute_fs s ?SVS)" by blast
  have "setup_vgpr s = VGPR 3 \<or> setup_vgpr s = VGPR 7" using assms(3) by (auto simp: setup_vgpr_def)
  then have "regs_ok ?SVS m2" using example_arg_info [OF m2] by blast
  then have "prologue_ok mai_absolute_fs example_env example_specs (example_info SAs) ?SVS example_mfi m2"
    using example_enables example_lanes assms(2) m2
    by (simp add: prologue_ok_def example_env_def example_info_def example_mfi_def sgpr_arg_def example_targets)
  with emit m2 that assms(3) show thesis by (auto simp: setup_vgpr_def)
qed


subsection \<open>Properties\<close>





text \<open>
  When a payload needs a stack, the prologue puts the start of the instrumentation's stack into its
  lane (above the application's frame, or below the end of the scratch of the wave by the reservation of
  the payloads), and, where the target computes the scratch base in registers and no payload asks for the
  base itself, the base of the wave into the lanes of the base: the preloaded base plus the offset of the
  wave, as one addition on 64 bits.
\<close>

lemma prologue_sets_up_stack:
  assumes "emitInitialEntryKernelSetup st E Specs K info m = Inr (m', code, store)"
    and "EntrySegments K = (b, e, (i, s)) # rest" and "usesSVA info"
    and "prologue_ok st E Specs info (setup_vgpr s) m m'"
    and "h = exec_ks st E gm code g"
    and "RequiresScratchAndStackSetup info"
  shows "vregs h (setup_vgpr s) StackPointerStoreLane = stack_start E (stack_use_of K info) m' g \<and>
    (hasArchitectedFlatScratch st \<or> FLAT_SCRATCH \<in> set (RequestedKernelArguments info) \<or>
     (\<exists>l. findArgumentLane Specs FLAT_SCRATCH = Some l \<and>
        lane_pair h (setup_vgpr s) l = wave_base g m' PV_FLAT_SCRATCH_INIT))"
  using prologue_effect(3,4) [OF assms] by blast

lemma prologue_sets_up_stack_instance:
  "\<exists>m' code. emitInitialEntryKernelSetup mai_absolute_fs example_env example_specs
       (example_kernel (VGPRStateValueArrayStorage (VGPR 7))) (example_info []) example_mfi = Inr (m', code, []) \<and>
     vregs (exec_ks mai_absolute_fs example_env (\<lambda>a. 0) code start_gpu) (VGPR 7) 2 = 136"
proof -
  let ?s = "VGPRStateValueArrayStorage (VGPR 7)"
  obtain m' code store where ex:
    "emitInitialEntryKernelSetup mai_absolute_fs example_env example_specs (example_kernel ?s) (example_info []) example_mfi =
       Inr (m', code, store)"
    "prologue_ok mai_absolute_fs example_env example_specs (example_info []) (setup_vgpr ?s) example_mfi m'"
    "ArgInfo m' = ArgInfo example_mfi" "store = []"
    by (rule example_emission [of "[]" ?s]) auto
  have k: "EntrySegments (example_kernel ?s) = (0, 9, (1, ?s)) # []" "usesSVA (example_info [])"
    "RequiresScratchAndStackSetup (example_info [])"
    by (simp_all add: example_kernel_def usesSVA_def example_info_def)
  from prologue_sets_up_stack [OF ex(1) k(1,2) ex(2) refl k(3), of "\<lambda>a. 0" start_gpu]
  have "vregs (exec_ks mai_absolute_fs example_env (\<lambda>a. 0) code start_gpu) (VGPR 7) 2 = 136"
    by (simp add: setup_vgpr_def fixed_lanes stack_start_def stack_use_of_def example_kernel_def SVSSlotsReservation_def)
  then show ?thesis using ex(1,4) by auto
qed


text \<open>
  A payload that reads the scratch base as an argument gets the wrong one, and so does the stack of all
  payloads: the loop over the arguments comes after the scratch setup and writes the preloaded base of the
  whole dispatch over the base of the wave, in the same lanes.
\<close>

lemma scratch_base_argument_overwrites_wave_base:
  assumes "emitInitialEntryKernelSetup st E Specs K info m = Inr (m', code, store)"
    and "EntrySegments K = (b, e, (i, s)) # rest" and "usesSVA info"
    and "prologue_ok st E Specs info (setup_vgpr s) m m'"
    and "h = exec_ks st E gm code g"
    and "FLAT_SCRATCH \<in> set (RequestedKernelArguments info)"
    and "sgpr_arg m' PV_FLAT_SCRATCH_INIT"
    and "fst (sub_pair (ArgInfo m' PV_FLAT_SCRATCH_INIT)) \<notin> kernarg_regs K info m'"
      "snd (sub_pair (ArgInfo m' PV_FLAT_SCRATCH_INIT)) \<notin> kernarg_regs K info m'"
    and "sregs g (preloaded_reg (ArgInfo m' PV_PRIVATE_SEGMENT_WAVE_BYTE_OFFSET)) \<noteq> 0"
  shows "\<exists>l. findArgumentLane Specs FLAT_SCRATCH = Some l \<and>
    lane_pair h (setup_vgpr s) l = sgpr_pair g (sub_pair (ArgInfo m' PV_FLAT_SCRATCH_INIT)) \<and>
    lane_pair h (setup_vgpr s) l \<noteq> wave_base g m' PV_FLAT_SCRATCH_INIT"
proof -
  obtain l d where l: "findArgumentLane Specs FLAT_SCRATCH = Some l" and d: "ArgInfo m' PV_FLAT_SCRATCH_INIT = Some d"
    and v: "\<forall>j<2. vregs h (setup_vgpr s) (l + j) = arg_dword st h d j"
    using prologue_effect(2) [OF assms(1-6), of PV_FLAT_SCRATCH_INIT] by auto
  have nv: "\<not> is_vgpr (getRegister d)" using assms(7) d by (auto simp: sgpr_arg_def sgpr_not_vgpr)
  have "sregs h r = sregs g r" if "r \<notin> kernarg_regs K info m'" for r
    using prologue_effect(1) [OF assms(1-5)] that by (simp add: keeps_def)
  with assms(8,9) have r: "sregs h (getSubReg (getRegister d) 0) = sregs g (getSubReg (getRegister d) 0)"
    "sregs h (getSubReg (getRegister d) 1) = sregs g (getSubReg (getRegister d) 1)"
    by (simp_all add: sub_pair_def preloaded_sub_def d)
  have eq: "lane_pair h (setup_vgpr s) l = sgpr_pair g (sub_pair (ArgInfo m' PV_FLAT_SCRATCH_INIT))"
    using v [rule_format, of 0] v [rule_format, of 1] r nv
    by (simp add: lane_pair_def sgpr_pair_def sub_pair_def preloaded_sub_def d arg_dword_def)
  have "ucast x \<noteq> (0 :: 64 word)" if "x \<noteq> 0" for x :: "32 word"
    using that by (metis ucast_down_up unsigned_0)
  with assms(10) eq have "lane_pair h (setup_vgpr s) l \<noteq> wave_base g m' PV_FLAT_SCRATCH_INIT"
    by (simp add: wave_base_def)
  with l eq show ?thesis by blast
qed

lemma scratch_base_argument_overwrites_wave_base_instance:
  "\<exists>m' code. emitInitialEntryKernelSetup mai_absolute_fs example_env example_specs
       (example_kernel (VGPRStateValueArrayStorage (VGPR 7))) (example_info [FLAT_SCRATCH]) example_mfi = Inr (m', code, []) \<and>
     lane_pair (exec_ks mai_absolute_fs example_env (\<lambda>a. 0) code start_gpu) (VGPR 7) 3 = sgpr_pair start_gpu (SGPR 6, SGPR 7)"
proof -
  let ?s = "VGPRStateValueArrayStorage (VGPR 7)" and ?SAs = "[FLAT_SCRATCH]"
  obtain m' code store where ex:
    "emitInitialEntryKernelSetup mai_absolute_fs example_env example_specs (example_kernel ?s) (example_info ?SAs) example_mfi =
       Inr (m', code, store)"
    "prologue_ok mai_absolute_fs example_env example_specs (example_info ?SAs) (setup_vgpr ?s) example_mfi m'"
    "ArgInfo m' = ArgInfo example_mfi" "store = []"
    by (rule example_emission [of ?SAs ?s]) auto
  have k: "EntrySegments (example_kernel ?s) = (0, 9, (1, ?s)) # []" "usesSVA (example_info ?SAs)"
    "FLAT_SCRATCH \<in> set (RequestedKernelArguments (example_info ?SAs))" "sgpr_arg m' PV_FLAT_SCRATCH_INIT"
    "fst (sub_pair (ArgInfo m' PV_FLAT_SCRATCH_INIT)) \<notin> kernarg_regs (example_kernel ?s) (example_info ?SAs) m'"
    "snd (sub_pair (ArgInfo m' PV_FLAT_SCRATCH_INIT)) \<notin> kernarg_regs (example_kernel ?s) (example_info ?SAs) m'"
    "sregs start_gpu (preloaded_reg (ArgInfo m' PV_PRIVATE_SEGMENT_WAVE_BYTE_OFFSET)) \<noteq> 0"
    by (simp_all add: example_kernel_def usesSVA_def example_info_def sgpr_arg_def ex(3) example_mfi_def
        kernarg_regs_def expands_kernarg_def start_gpu_def)
  from scratch_base_argument_overwrites_wave_base [OF ex(1) k(1,2) ex(2) refl k(3-7), of "\<lambda>a. 0"]
  show ?thesis using ex(1,4)
    by (auto simp: findArgumentLane_def example_specs_def setup_vgpr_def sub_pair_def preloaded_sub_def ex(3) example_mfi_def)
qed

text \<open>
  When a payload reads the implicit arguments, the prologue exchanges the pointer to the kernel
  arguments: the lanes of the argument buffer get the address behind the first eight bytes of the extended
  buffer (its start, when the kernel takes no arguments), and the register pair of the kernel gets the
  application's own pointer, which the first eight bytes hold.
\<close>

lemma prologue_exchanges_kernarg_pointer:
  assumes "emitInitialEntryKernelSetup st E Specs K info m = Inr (m', code, store)"
    and "EntrySegments K = (b, e, (i, s)) # rest" and "usesSVA info"
    and "prologue_ok st E Specs info (setup_vgpr s) m m'"
    and "h = exec_ks st E gm code g"
    and "IMPLICIT_ARG_BUFFER \<in> set (RequestedKernelArguments info)"
  shows "case kernarg_pair m' of P \<Rightarrow>
    (\<exists>l. findArgumentLane Specs IMPLICIT_ARG_BUFFER = Some l \<and>
       lane_pair h (setup_vgpr s) l = sgpr_pair g P + (if 1 \<le> arg_count K then 8 else 0)) \<and>
    (if 1 \<le> arg_count K
     then sregs h (fst P) = gm (sgpr_pair g P) \<and> sregs h (snd P) = gm (sgpr_pair g P + 4)
     else sregs h = sregs g)"
proof -
  have "sregs h = sregs g" if "\<not> 1 \<le> arg_count K"
    using prologue_effect(1) [OF assms(1-5)] that
    by (simp add: keeps_def kernarg_regs_def expands_kernarg_def fun_eq_iff)
  then show ?thesis
    using prologue_effect(5,6) [OF assms(1-5)] assms(6) by (simp add: expands_kernarg_def)
qed

lemma prologue_exchanges_kernarg_pointer_instance:
  "\<exists>m' code. emitInitialEntryKernelSetup mai_absolute_fs example_env example_specs
       (example_kernel (VGPRStateValueArrayStorage (VGPR 7))) (example_info [IMPLICIT_ARG_BUFFER]) example_mfi =
       Inr (m', code, []) \<and>
     lane_pair (exec_ks mai_absolute_fs example_env (\<lambda>a. ucast a) code start_gpu) (VGPR 7) 9 = 0x1000000018 \<and>
     sregs (exec_ks mai_absolute_fs example_env (\<lambda>a. ucast a) code start_gpu) (SGPR 5) = 20"
proof -
  let ?s = "VGPRStateValueArrayStorage (VGPR 7)" and ?SAs = "[IMPLICIT_ARG_BUFFER]"
  obtain m' code store where ex:
    "emitInitialEntryKernelSetup mai_absolute_fs example_env example_specs (example_kernel ?s) (example_info ?SAs) example_mfi =
       Inr (m', code, store)"
    "prologue_ok mai_absolute_fs example_env example_specs (example_info ?SAs) (setup_vgpr ?s) example_mfi m'"
    "ArgInfo m' = ArgInfo example_mfi" "store = []"
    by (rule example_emission [of ?SAs ?s]) auto
  have k: "EntrySegments (example_kernel ?s) = (0, 9, (1, ?s)) # []" "usesSVA (example_info ?SAs)"
    "IMPLICIT_ARG_BUFFER \<in> set (RequestedKernelArguments (example_info ?SAs))"
    by (simp_all add: example_kernel_def usesSVA_def example_info_def)
  have P: "kernarg_pair m' = (SGPR 4, SGPR 5)"
    by (simp add: kernarg_pair_def sub_pair_def preloaded_sub_def ex(3) example_mfi_def)
  have v: "sgpr_pair start_gpu (SGPR 4, SGPR 5) = 0x1000000010"
    by (simp add: sgpr_pair_def start_gpu_def)
  have "1 \<le> arg_count (example_kernel ?s)" by (simp add: example_kernel_def)
  with prologue_exchanges_kernarg_pointer [OF ex(1) k(1,2) ex(2) refl k(3), of ucast start_gpu]
  show ?thesis using ex(1,4)
    by (auto simp: P v findArgumentLane_def example_specs_def setup_vgpr_def)
qed

text \<open>
  When the storage at the entry keeps scratch address registers of its own, the prologue stores the
  array through registers that nobody has set: it goes straight from the setup VGPR to the store code of
  the storage, where a switch from a VGPR would load these registers from the array first. At the end they
  hold what the hardware left in them at the launch, and the array lies at the address they happen to form.
\<close>

lemma prologue_stores_through_unset_registers:
  assumes "emitInitialEntryKernelSetup st E Specs K info m = Inr (m', code, store)"
    and "EntrySegments K = (b, e, (i, s)) # rest" and "usesSVA info"
    and "prologue_ok st E Specs info (setup_vgpr s) m m'"
    and "h = exec_ks st E gm code g"
    and s: "s = SpilledWithThreeSGPRsValueStorage hi lo sp" "storage_wf s" "\<not> hasArchitectedFlatScratch st"
    and "\<And>r. r \<in> {hi, lo, sp} \<Longrightarrow> r \<notin> kernarg_regs K info m'"
    and h': "h' = exec_items st store h"
  shows "sregs h' hi = sregs g hi \<and> sregs h' lo = sregs g lo \<and> sregs h' sp = sregs g sp \<and>
    (\<forall>l<wave_size st. scratch h' (sregs g hi, sregs g lo) l (svs_slot (sregs g sp)) = vregs h (VGPR 3) l)"
proof -
  have "sregs h r = sregs g r" if "r \<in> {hi, lo, sp}" for r
    using prologue_effect(1) [OF assms(1-5)] assms(9) [OF that] by (simp add: keeps_def)
  then have r: "sregs h hi = sregs g hi" "sregs h lo = sregs g lo" "sregs h sp = sregs g sp" by simp_all
  obtain store_eq: "store = emitCodeToStoreSVA st s (VGPR 3)"
    by (rule prologue_parts [OF assms(1-4)]) (simp add: s(1) setup_vgpr_def)
  have ok: "sva_config_ok (st, s, VGPR 3)" using s by (simp add: sva_config_ok_def)
  have fr: "sregs h' = sregs h"
    using ls.frame_stv [OF ok, of h] by (simp add: h' store_eq app_frame_sregs)
  have h2: "exec_items st (emitCodeToStoreSVA st s (VGPR 3)) h = h'" by (simp add: h' store_eq)
  have "sva_of st s h' l = vregs h (VGPR 3) l" if "l < wave_size st" for l
    using ls.arr_stv [OF ok, of l h] that by (simp add: h2)
  then show ?thesis by (simp add: s(1) fr r)
qed

lemma prologue_stores_through_unset_registers_instance:
  "\<exists>m' code store. emitInitialEntryKernelSetup mai_absolute_fs example_env example_specs
       (example_kernel (SpilledWithThreeSGPRsValueStorage (SGPR 20) (SGPR 21) (SGPR 22))) (example_info []) example_mfi =
       Inr (m', code, store) \<and>
     sregs (exec_items mai_absolute_fs store (exec_ks mai_absolute_fs example_env (\<lambda>a. 0) code start_gpu)) (SGPR 22) = 16"
proof -
  let ?s = "SpilledWithThreeSGPRsValueStorage (SGPR 20) (SGPR 21) (SGPR 22)"
  obtain m' code store where ex:
    "emitInitialEntryKernelSetup mai_absolute_fs example_env example_specs (example_kernel ?s) (example_info []) example_mfi =
       Inr (m', code, store)"
    "prologue_ok mai_absolute_fs example_env example_specs (example_info []) (setup_vgpr ?s) example_mfi m'"
    by (rule example_emission [of "[]" ?s]) auto
  have k: "EntrySegments (example_kernel ?s) = (0, 9, (1, ?s)) # []" "usesSVA (example_info [])"
    "storage_wf ?s" "\<not> hasArchitectedFlatScratch mai_absolute_fs"
    "\<And>r. r \<in> {SGPR 20, SGPR 21, SGPR 22} \<Longrightarrow> r \<notin> kernarg_regs (example_kernel ?s) (example_info []) m'"
    by (simp_all add: example_kernel_def usesSVA_def example_info_def kernarg_regs_def expands_kernarg_def example_targets)
  from prologue_stores_through_unset_registers [OF ex(1) k(1,2) ex(2) refl refl k(3,4,5) refl, of "\<lambda>a. 0" start_gpu] ex(1)
  show ?thesis by (auto simp: start_gpu_def)
qed


lemma prologue_types:
  assumes E: "env_typed E" and m: "mfi_typed m"
    and K: "NumBlocks K \<noteq> 0" "NumEntryInsts K \<noteq> 0" "EntrySegments K \<noteq> []"
    and req: "\<And>SA. SA \<in> set (RequestedKernelArguments info) \<Longrightarrow> findArgumentLane Specs SA \<noteq> None"
    and scratch: "RequiresScratchAndStackSetup info \<Longrightarrow> \<not> hasArchitectedFlatScratch st \<Longrightarrow>
      findArgumentLane Specs FLAT_SCRATCH \<noteq> None \<and>
      (enableFlatScratch st \<or> findArgumentLane Specs WAVEFRONT_PRIVATE_SEGMENT_BUFFER \<noteq> None)"
  shows "\<exists>m' code store. emitInitialEntryKernelSetup st E Specs K info m = Inr (m', code, store) \<and> mfi_typed m'"
proof (cases "usesSVA info")
  case True
  obtain b e i s rest where segs: "EntrySegments K = (b, e, (i, s)) # rest"
    using K(3) by (cases "EntrySegments K") auto
  let ?SVS = "setup_vgpr s"
  obtain m1 c1 where 1: "(if RequiresScratchAndStackSetup info
      then emitCodeToSetupScratch st E Specs ?SVS (stack_use_of K info) m else Inr (m, [])) = Inr (m1, c1)" "mfi_typed m1"
    using setup_scratch_typed [OF E m, of st Specs ?SVS "stack_use_of K info"] scratch m
    by (cases "RequiresScratchAndStackSetup info") auto
  obtain m2 c2 where 2: "(if IMPLICIT_ARG_BUFFER \<in> set (RequestedKernelArguments info)
      then expand_kernarg E Specs K info ?SVS m1 else Inr (m1, [])) = Inr (m2, c2)" "mfi_typed m2"
    using expand_kernarg_typed [OF E 1(2), of Specs K info ?SVS] req 1(2)
    by (cases "IMPLICIT_ARG_BUFFER \<in> set (RequestedKernelArguments info)") auto
  obtain m3 c3 where 3: "emit_arguments E Specs ?SVS (RequestedKernelArguments info) m2 = Inr (m3, c3)" "mfi_typed m3"
    using emit_arguments_typed [OF E 2(2), of "RequestedKernelArguments info" Specs ?SVS] req by auto
  have kern: "mfi_typed (enableKernargSegmentPtr E m3)"
    using 3(2) mfi_typed_add(2) [OF E, of "force_field E PV_KERNARG_SEGMENT_PTR m3" PV_KERNARG_SEGMENT_PTR]
    by (simp add: enableKernargSegmentPtr_def)
  let ?r = "restore_kernarg_preload E (NumUsedUserSGPRs m) (NumKernargPreloadSGPRs m) (preload_offset_attr K) m3"
  have "mfi_typed (disableKernargPreload n k) = mfi_typed k" for n k
    by (simp add: mfi_typed_def)
  with kern 3(2) have "mfi_typed (fst ?r)" by (simp add: restore_kernarg_preload_def Let_def)
  moreover obtain m5 c5 where r: "?r = (m5, c5)" by (cases ?r)
  have "\<exists>code store. emit_prologue st E Specs K info s m = Inr (m5, code, store)"
    unfolding emit_prologue_Inr_iff using 1(1) 2(1) 3(1) by (fastforce simp: r simp del: if_split)
  then have "\<exists>code store. emitInitialEntryKernelSetup st E Specs K info m = Inr (fst ?r, code, store)"
    using K(1,2) by (simp add: emitInitialEntryKernelSetup_def True segs r)
  ultimately show ?thesis by blast
qed (use m in \<open>simp add: emitInitialEntryKernelSetup_def\<close>)

text \<open>
  C23: The emission of the prologue is well-typed: if preloaded values are in registers of their class and
  width, and enabling a value keeps that, the loop finds for every argument a register with as many
  channels as the argument has lanes. A kernel with blocks and a storage at its entry gets a prologue
  whenever the specification has a lane for every requested argument and for the scratch base, and the
  preloaded values are then again in registers of their class and width.
\<close>

theorem prologue_well_typed:
  assumes E: "env_typed E" and m: "mfi_typed m"
    and K: "NumBlocks K \<noteq> 0" "NumEntryInsts K \<noteq> 0" "EntrySegments K \<noteq> []"
    and req: "\<And>SA. SA \<in> set (RequestedKernelArguments info) \<Longrightarrow> findArgumentLane Specs SA \<noteq> None"
    and scratch: "RequiresScratchAndStackSetup info \<Longrightarrow> \<not> hasArchitectedFlatScratch st \<Longrightarrow>
      findArgumentLane Specs FLAT_SCRATCH \<noteq> None \<and>
      (enableFlatScratch st \<or> findArgumentLane Specs WAVEFRONT_PRIVATE_SEGMENT_BUFFER \<noteq> None)"
  shows "\<exists>m' code store. emitInitialEntryKernelSetup st E Specs K info m = Inr (m', code, store) \<and> mfi_typed m'"
  using assms by (rule prologue_types)

theorem prologue_well_typed_witness:
  "\<exists>m' code store. emitInitialEntryKernelSetup mai_absolute_fs example_env example_specs
     (example_kernel (TwoAGPRValueStorage (AGPR 1) (AGPR 2))) (example_info [IMPLICIT_ARG_BUFFER, WORKITEM_ID_Y]) example_mfi =
       Inr (m', code, store) \<and> mfi_typed m'"
proof (rule prologue_well_typed)
  show "env_typed example_env"
    using example_enables by (auto simp: env_typed_def example_env_def alloc_user_def desc_typed_def)
  show "mfi_typed example_mfi"
    by (auto simp: mfi_typed_def example_mfi_def desc_typed_def split: if_splits)
qed (auto simp: example_kernel_def example_info_def example_specs_def findArgumentLane_def example_targets)

text \<open>
  On a kernel that the hardware already gives the queue pointer, the extension of the argument buffer
  enables the queue pointer a second time: LLVM then assigns it another register, although the hardware
  loads it once, and the prologue copies that other register over the application's queue pointer. With a
  call graph that is not fully recovered this happens to every such kernel.
\<close>

lemma queue_pointer_enabled_twice:
  assumes emit: "emitInitialEntryKernelSetup st E Specs K info m = Inr (m', code, store)"
    and segs: "EntrySegments K = (b, e, (i, s)) # rest" and used: "usesSVA info"
    and E: "enables_one E"
    and I: "IMPLICIT_ARG_BUFFER \<in> set (RequestedKernelArguments info)"
    and Q: "HiddenQueuePtr \<in> set (ImplicitArgsExplicitlyRequested info)"
    and d: "ArgInfo m PV_QUEUE_PTR = Some d" and pv: "PV_QUEUE_PTR \<in> set (preloaded_values E)"
    and fresh: "\<And>k. \<exists>d'. ArgInfo (addPreloaded E PV_QUEUE_PTR k) PV_QUEUE_PTR = Some d' \<and> getRegister d' \<noteq> getRegister d"
  shows "\<exists>d'. ArgInfo m' PV_QUEUE_PTR = Some d' \<and> getRegister d' \<noteq> getRegister d \<and>
    set (restore_moves (getRegister d, channels d) (getRegister d', channels d')) \<subseteq> set code"
proof -
  let ?moved = "\<lambda>k. \<exists>d'. ArgInfo k PV_QUEUE_PTR = Some d' \<and> getRegister d' \<noteq> getRegister d"
  have body: "emit_prologue st E Specs K info s m = Inr (m', code, store)"
    using emit segs used by (auto simp: emitInitialEntryKernelSetup_def split: if_splits)
  obtain m1 m2 m3 c c3 where
    2: "expand_kernarg E Specs K info (setup_vgpr s) m1 = Inr (m2, c)" and
    3: "emit_arguments E Specs (setup_vgpr s) (RequestedKernelArguments info) m2 = Inr (m3, c3)" and
    code: "set (restore_preloaded (PreloadedArgSnapshot E m) m3) \<subseteq> set code" and
    m': "m' = fst (restore_kernarg_preload E (NumUsedUserSGPRs m) (NumKernargPreloadSGPRs m) (preload_offset_attr K) m3)"
    using body I unfolding emit_prologue_Inr_iff by (fastforce simp: case_prod_unfold split: if_splits)
  have add: "?moved (AddUserSGPR E PV_QUEUE_PTR k)" for k
    using fresh by (simp add: AddUserSGPR_def)
  have attr: "?moved (clear_implicit_attr E k m)" if "?moved m \<or> k = HiddenQueuePtr" for k m
    using that add by (cases k) auto
  have "?moved (fold (clear_implicit_attr E) ks k)" if "?moved k \<or> HiddenQueuePtr \<in> set ks" for ks k
    using that
  proof (induction ks arbitrary: k)
    case (Cons x ks)
    then have "?moved (clear_implicit_attr E x k) \<or> HiddenQueuePtr \<in> set ks" using attr [of k x] by auto
    from Cons.IH [OF this] show ?case by simp
  qed simp
  then have f: "?moved (fold (clear_implicit_attr E) (ImplicitArgsExplicitlyRequested info) m1)" using Q by blast
  have "?moved m2"
  proof -
    from 2 obtain k where k: "ArgInfo k = ArgInfo (fold (clear_implicit_attr E) (ImplicitArgsExplicitlyRequested info) m1)"
      "m2 = enableKernargSegmentPtr E k" by (rule expand_kernarg_step)
    then show ?thesis using f stays_enableKernarg [OF E, of k] by (auto simp: stays_def)
  qed
  then obtain d' where d': "ArgInfo m2 PV_QUEUE_PTR = Some d'" "getRegister d' \<noteq> getRegister d" by blast
  then have d3: "ArgInfo m3 PV_QUEUE_PTR = Some d'"
    using stays_emit_arguments [OF E 3] by (simp add: stays_def)
  have "ArgInfo m' PV_QUEUE_PTR = Some d'"
    using d3 stays_enableKernarg [OF E, of m3]
    by (auto simp: m' restore_kernarg_preload_def Let_def stays_def)
  moreover have "(PV_QUEUE_PTR, getRegister d, channels d) \<in> set (PreloadedArgSnapshot E m)"
    using pv d by (force simp: PreloadedArgSnapshot_def List.map_filter_def getPreloadedReg_def)
  then have "set (restore_moves (getRegister d, channels d) (getRegister d', channels d')) \<subseteq> set code"
    using code d3 d'(2) by (force simp: restore_preloaded_def getPreloadedReg_def)
  ultimately show ?thesis using d'(2) by blast
qed

lemma queue_pointer_enabled_twice_instance:
  "\<exists>m' code store d'. emitInitialEntryKernelSetup mai_absolute_fs example_env example_specs
       (example_kernel (VGPRStateValueArrayStorage (VGPR 7)))
       ((example_info [IMPLICIT_ARG_BUFFER])\<lparr>ImplicitArgsExplicitlyRequested := [HiddenQueuePtr]\<rparr>)
       (example_mfi\<lparr>ArgInfo := (ArgInfo example_mfi)(PV_QUEUE_PTR := Some
          \<lparr>getRegister = SGPR 2, channels = 2, getMask = -1\<rparr>)\<rparr>) = Inr (m', code, store) \<and>
     ArgInfo m' PV_QUEUE_PTR = Some d' \<and> getRegister d' \<noteq> SGPR 2 \<and>
     set (restore_moves (SGPR 2, 2) (getRegister d', channels d')) \<subseteq> set code"
proof -
  let ?s = "VGPRStateValueArrayStorage (VGPR 7)"
  let ?info = "(example_info [IMPLICIT_ARG_BUFFER])\<lparr>ImplicitArgsExplicitlyRequested := [HiddenQueuePtr]\<rparr>"
  let ?d = "\<lparr>getRegister = SGPR 2, channels = 2, getMask = -1\<rparr>"
  let ?m = "example_mfi\<lparr>ArgInfo := (ArgInfo example_mfi)(PV_QUEUE_PTR := Some ?d)\<rparr>"
  have E: "env_typed example_env"
    using example_enables by (auto simp: env_typed_def example_env_def alloc_user_def desc_typed_def)
  have "mfi_typed ?m" by (auto simp: mfi_typed_def example_mfi_def desc_typed_def split: if_splits)
  then have "\<exists>m' code store. emitInitialEntryKernelSetup mai_absolute_fs example_env example_specs (example_kernel ?s)
      ?info ?m = Inr (m', code, store) \<and> mfi_typed m'"
    using E by (intro prologue_types)
      (auto simp: example_kernel_def example_info_def example_specs_def findArgumentLane_def example_targets)
  then obtain m' code store where emit: "emitInitialEntryKernelSetup mai_absolute_fs example_env example_specs
      (example_kernel ?s) ?info ?m = Inr (m', code, store)" by blast
  have k: "EntrySegments (example_kernel ?s) = (0, 9, (1, ?s)) # []" "usesSVA ?info"
    "IMPLICIT_ARG_BUFFER \<in> set (RequestedKernelArguments ?info)"
    "HiddenQueuePtr \<in> set (ImplicitArgsExplicitlyRequested ?info)"
    "ArgInfo ?m PV_QUEUE_PTR = Some ?d" "PV_QUEUE_PTR \<in> set (preloaded_values example_env)"
    by (simp_all add: example_kernel_def usesSVA_def example_info_def example_env_def)
  have fresh: "\<exists>d'. ArgInfo (addPreloaded example_env PV_QUEUE_PTR n) PV_QUEUE_PTR = Some d' \<and>
      getRegister d' \<noteq> getRegister ?d" for n
    by (simp add: example_env_def alloc_user_def)
  from queue_pointer_enabled_twice [OF emit k(1,2) example_enables k(3-6) fresh] emit show ?thesis by auto
qed


end
