(* ===== verification/SVA_Switch.thy ===== *)
theory SVA_Switch
  imports SVA_Storage
begin

text \<open>
  The code that moves the state value array from one storage to another
  (\<open>emitCodeToSwitchSVS\<close> in \<open>src/lib/ToolCodeGen/StateValueArrayStorage.cpp\<close>):
  one definition per overload, in the order of the file, and the virtual dispatch over the two
  schemes, where \<open>None\<close> is \<open>llvm_unreachable\<close>. A fatal error is a value of the
  left side of the sum. The lemmas give the effect of every switch, show that the array under the
  target scheme is the array under the source scheme and that the application keeps its state, and
  say for which switches the shadow SGPRs of the target scheme are set up.
\<close>

subsection \<open>Reading shadow registers out of the array\<close>

definition loadStackPointerFromSVALanes :: "mcreg \<Rightarrow> mcreg \<Rightarrow> mir_item list" where
  "loadStackPointerFromSVALanes SrcVGPR SP =
     map MI (emitMoveFromVGPRLaneToSGPR SrcVGPR SP StackPointerStoreLane False)"

definition loadFlatScratchFromSVALanes ::
    "StateValueArraySpecs \<Rightarrow> mcreg \<Rightarrow> mcreg \<Rightarrow> mcreg \<Rightarrow> sva_error + mir_item list" where
  "loadFlatScratchFromSVALanes specs SrcVGPR FSLo FSHi =
     (case findArgumentLane specs FLAT_SCRATCH of
        None \<Rightarrow> Inl NoFlatScratchLane
      | Some Start \<Rightarrow>
          err_bind (err_check (getArgumentLaneSize FLAT_SCRATCH = 2) FlatScratchLaneSize) (\<lambda>_.
            Inr (map MI (emitMoveFromVGPRLaneToSGPR SrcVGPR FSLo Start False) @
                 map MI (emitMoveFromVGPRLaneToSGPR SrcVGPR FSHi (Start + 1) False))))"

subsection \<open>From a VGPR\<close>

definition switch_VGPR_VGPR ::
    "gcn_subtarget \<Rightarrow> mcreg \<Rightarrow> mcreg \<Rightarrow> mir_item list" where
  "switch_VGPR_VGPR st Src Tgt =
     [SCCSafe (
        (emitMoveFromVGPRToVGPR Src Tgt False) @
        emitExecMaskFlip st @
        (emitMoveFromVGPRToVGPR Src Tgt True) @
        emitExecMaskFlip st)]"

definition switch_VGPR_TwoAGPR ::
    "gcn_subtarget \<Rightarrow> mcreg \<Rightarrow> mcreg \<Rightarrow> mcreg \<Rightarrow> mir_item list" where
  "switch_VGPR_TwoAGPR st Src TgtAGPR TgtTemp =
     [SCCSafe (
        (emitMoveFromVGPRToAGPR Src TgtAGPR False) @
        emitExecMaskFlip st @
        (emitMoveFromVGPRToAGPR Src TgtAGPR True) @
        emitExecMaskFlip st)]"

definition switch_VGPR_AGPR3 ::
    "gcn_subtarget \<Rightarrow> mcreg \<Rightarrow> mcreg \<Rightarrow> mcreg \<Rightarrow> mcreg \<Rightarrow> mcreg \<Rightarrow> mir_item list" where
  "switch_VGPR_AGPR3 st Src TgtAGPR TgtHi TgtLo TgtSP =
     [SCCSafe (
        (emitMoveFromVGPRToAGPR Src TgtAGPR False) @
        emitExecMaskFlip st @
        (emitMoveFromVGPRToAGPR Src TgtAGPR True) @
        emitExecMaskFlip st)]"

definition switch_VGPR_Spilled3 ::
    "gcn_subtarget \<Rightarrow> StateValueArraySpecs \<Rightarrow> mcreg \<Rightarrow> mcreg \<Rightarrow> mcreg \<Rightarrow> mcreg \<Rightarrow> sva_error + mir_item list" where
  "switch_VGPR_Spilled3 st specs Src TgtHi TgtLo TgtSP =
     err_bind (loadFlatScratchFromSVALanes specs Src TgtLo TgtHi) (\<lambda>fs.
     Inr (fs @ loadStackPointerFromSVALanes Src TgtSP @
     [SCCSafe (
        emitSGPRSwap FLAT_SCR_HI TgtHi @
        emitSGPRSwap FLAT_SCR_LO TgtLo @
        (emitStoreToEmergencySVSScratchSpillLocation TgtSP Src False) @
        emitExecMaskFlip st @
        (emitStoreToEmergencySVSScratchSpillLocation TgtSP Src True) @
        emitExecMaskFlip st @
        emitSGPRSwap TgtHi FLAT_SCR_HI @
        emitSGPRSwap TgtLo FLAT_SCR_LO)] @
     map MI (emitWaitCnt 0)))"

definition switch_VGPR_Spilled1 ::
    "gcn_subtarget \<Rightarrow> mcreg \<Rightarrow> mcreg \<Rightarrow> mir_item list" where
  "switch_VGPR_Spilled1 st Src TgtSP =
     map MI (emitMoveFromVGPRLaneToSGPR Src TgtSP StackPointerStoreLane False) @
     [SCCSafe (
        (emitStoreToEmergencySVSScratchSpillLocation TgtSP Src False) @
        emitExecMaskFlip st @
        (emitStoreToEmergencySVSScratchSpillLocation TgtSP Src True) @
        emitExecMaskFlip st)] @
     map MI (emitWaitCnt 0)"

subsection \<open>From two AGPRs\<close>

definition switch_TwoAGPR_VGPR ::
    "gcn_subtarget \<Rightarrow> mcreg \<Rightarrow> mcreg \<Rightarrow> mcreg \<Rightarrow> mir_item list" where
  "switch_TwoAGPR_VGPR st SrcAGPR SrcTemp Tgt =
     [SCCSafe (
        (emitMoveFromAGPRToVGPR SrcAGPR Tgt False) @
        emitExecMaskFlip st @
        (emitMoveFromAGPRToVGPR SrcAGPR Tgt True) @
        emitExecMaskFlip st)]"

definition EmitAGPRMove :: "mcreg \<Rightarrow> mcreg \<Rightarrow> bool \<Rightarrow> minst list" where
  "EmitAGPRMove SrcAGPR TgtAGPR KillSource =
     [V_ACCVGPR_MOV_B32 TgtAGPR (getKillRegState SrcAGPR KillSource)]"

definition switch_TwoAGPR_TwoAGPR ::
    "gcn_subtarget \<Rightarrow> mcreg \<Rightarrow> mcreg \<Rightarrow> mcreg \<Rightarrow> mcreg \<Rightarrow> mir_item list" where
  "switch_TwoAGPR_TwoAGPR st SrcAGPR SrcTemp TgtAGPR TgtTemp =
     (if hasGFX90AInsts st
      then [SCCSafe (
        (EmitAGPRMove SrcAGPR TgtAGPR False) @
        emitExecMaskFlip st @
        (EmitAGPRMove SrcAGPR TgtAGPR True) @
        emitExecMaskFlip st)]
      else [SCCSafe (
        (emitMoveFromVGPRToAGPR (VGPR 0) SrcTemp False @
         emitMoveFromAGPRToVGPR SrcAGPR (VGPR 0) False @
         emitMoveFromVGPRToAGPR (VGPR 0) TgtAGPR False @
         emitMoveFromAGPRToVGPR SrcTemp (VGPR 0) False) @
        emitExecMaskFlip st @
        (emitMoveFromVGPRToAGPR (VGPR 0) SrcTemp False @
         emitMoveFromAGPRToVGPR SrcAGPR (VGPR 0) True @
         emitMoveFromVGPRToAGPR (VGPR 0) TgtAGPR False @
         emitMoveFromAGPRToVGPR SrcTemp (VGPR 0) True) @
        emitExecMaskFlip st)])"

definition switch_TwoAGPR_AGPR3 ::
    "gcn_subtarget \<Rightarrow> mcreg \<Rightarrow> mcreg \<Rightarrow> mcreg \<Rightarrow> mcreg \<Rightarrow> mcreg \<Rightarrow> mcreg \<Rightarrow> mir_item list" where
  "switch_TwoAGPR_AGPR3 st SrcAGPR SrcTemp TgtAGPR TgtHi TgtLo TgtSP =
     (if hasGFX90AInsts st
      then [SCCSafe (
        (EmitAGPRMove SrcAGPR TgtAGPR False) @
        emitExecMaskFlip st @
        (EmitAGPRMove SrcAGPR TgtAGPR True) @
        emitExecMaskFlip st)]
      else [SCCSafe (
        (emitMoveFromVGPRToAGPR (VGPR 0) SrcTemp False @
         emitMoveFromAGPRToVGPR SrcAGPR (VGPR 0) False @
         emitMoveFromVGPRToAGPR (VGPR 0) TgtAGPR False @
         emitMoveFromAGPRToVGPR SrcTemp (VGPR 0) False) @
        emitExecMaskFlip st @
        (emitMoveFromVGPRToAGPR (VGPR 0) SrcTemp False @
         emitMoveFromAGPRToVGPR SrcAGPR (VGPR 0) True @
         emitMoveFromVGPRToAGPR (VGPR 0) TgtAGPR False @
         emitMoveFromAGPRToVGPR SrcTemp (VGPR 0) True) @
        emitExecMaskFlip st)])"

definition switch_TwoAGPR_Spilled3 ::
    "gcn_subtarget \<Rightarrow> StateValueArraySpecs \<Rightarrow> mcreg \<Rightarrow> mcreg \<Rightarrow> mcreg \<Rightarrow> mcreg \<Rightarrow> mcreg \<Rightarrow> sva_error + mir_item list" where
  "switch_TwoAGPR_Spilled3 st specs SrcAGPR SrcTemp TgtHi TgtLo TgtSP =
     err_bind (loadFlatScratchFromSVALanes specs (VGPR 0) TgtLo TgtHi) (\<lambda>fs.
     Inr ([SCCSafe (
        (emitMoveFromVGPRToAGPR (VGPR 0) SrcTemp True @
         emitMoveFromAGPRToVGPR SrcAGPR (VGPR 0) False) @
        emitExecMaskFlip st @
        (emitMoveFromVGPRToAGPR (VGPR 0) SrcTemp True @
         emitMoveFromAGPRToVGPR SrcAGPR (VGPR 0) True) @
        emitExecMaskFlip st)] @
     fs @ loadStackPointerFromSVALanes (VGPR 0) TgtSP @
     [SCCSafe (
        emitSGPRSwap FLAT_SCR_HI TgtHi @
        emitSGPRSwap FLAT_SCR_LO TgtLo @
        (emitStoreToEmergencySVSScratchSpillLocation TgtSP (VGPR 0) False) @
        emitExecMaskFlip st @
        (emitStoreToEmergencySVSScratchSpillLocation TgtSP (VGPR 0) True) @
        emitExecMaskFlip st @
        emitSGPRSwap TgtHi FLAT_SCR_HI @
        emitSGPRSwap TgtLo FLAT_SCR_LO)] @
     map MI (emitWaitCnt 0) @
     [SCCSafe (
        (emitMoveFromAGPRToVGPR SrcTemp (VGPR 0) False) @
        emitExecMaskFlip st @
        (emitMoveFromAGPRToVGPR SrcTemp (VGPR 0) True) @
        emitExecMaskFlip st)]))"

subsection \<open>From an AGPR with three SGPRs\<close>

definition switch_AGPR3_VGPR ::
    "gcn_subtarget \<Rightarrow> mcreg \<Rightarrow> mcreg \<Rightarrow> mcreg \<Rightarrow> mcreg \<Rightarrow> mcreg \<Rightarrow> mir_item list" where
  "switch_AGPR3_VGPR st SrcAGPR SrcHi SrcLo SrcSP Tgt =
     [SCCSafe (
        (emitMoveFromAGPRToVGPR SrcAGPR Tgt False) @
        emitExecMaskFlip st @
        (emitMoveFromAGPRToVGPR SrcAGPR Tgt True) @
        emitExecMaskFlip st)]"

definition switch_AGPR3_TwoAGPR ::
    "gcn_subtarget \<Rightarrow> mcreg \<Rightarrow> mcreg \<Rightarrow> mcreg \<Rightarrow> mcreg \<Rightarrow> mcreg \<Rightarrow> mcreg \<Rightarrow> mir_item list" where
  "switch_AGPR3_TwoAGPR st SrcAGPR SrcHi SrcLo SrcSP TgtAGPR TgtTemp =
     [SCCSafe (
        (emitMoveFromVGPRToAGPR (VGPR 0) TgtTemp False @
         emitMoveFromAGPRToVGPR SrcAGPR (VGPR 0) False @
         emitMoveFromVGPRToAGPR (VGPR 0) TgtAGPR True @
         emitMoveFromAGPRToVGPR TgtTemp (VGPR 0) True) @
        emitExecMaskFlip st @
        (emitMoveFromVGPRToAGPR (VGPR 0) TgtTemp False @
         emitMoveFromAGPRToVGPR SrcAGPR (VGPR 0) False @
         emitMoveFromVGPRToAGPR (VGPR 0) TgtAGPR True @
         emitMoveFromAGPRToVGPR TgtTemp (VGPR 0) True) @
        emitExecMaskFlip st)]"

definition switch_AGPR3_AGPR3 ::
    "gcn_subtarget \<Rightarrow> mcreg \<Rightarrow> mcreg \<Rightarrow> mcreg \<Rightarrow> mcreg \<Rightarrow> mcreg \<Rightarrow> mcreg \<Rightarrow> mcreg \<Rightarrow> mcreg \<Rightarrow> mir_item list" where
  "switch_AGPR3_AGPR3 st SrcAGPR SrcHi SrcLo SrcSP TgtAGPR TgtHi TgtLo TgtSP =
     map MI (emitMoveFromSGPRToSGPR SrcHi TgtHi True) @
     map MI (emitMoveFromSGPRToSGPR SrcLo TgtLo True) @
     map MI (emitMoveFromSGPRToSGPR SrcSP TgtSP True) @
     [SCCSafe (
        emitSGPRSwap FLAT_SCR_HI TgtHi @
        emitSGPRSwap FLAT_SCR_LO TgtLo @
        (emitStoreToEmergencyVGPRScratchSpillLocation TgtSP (VGPR 0) True @
         emitMoveFromAGPRToVGPR SrcAGPR (VGPR 0) False @
         emitMoveFromVGPRToAGPR (VGPR 0) TgtAGPR True @
         emitLoadFromEmergencyVGPRScratchSpillLocation TgtSP (VGPR 0)) @
        emitExecMaskFlip st @
        (emitStoreToEmergencyVGPRScratchSpillLocation TgtSP (VGPR 0) True @
         emitMoveFromAGPRToVGPR SrcAGPR (VGPR 0) False @
         emitMoveFromVGPRToAGPR (VGPR 0) TgtAGPR True @
         emitLoadFromEmergencyVGPRScratchSpillLocation TgtSP (VGPR 0)) @
        emitExecMaskFlip st @
        emitSGPRSwap TgtHi FLAT_SCR_HI @
        emitSGPRSwap TgtLo FLAT_SCR_LO)] @
     map MI (emitWaitCnt 0)"

definition switch_AGPR3_Spilled3 ::
    "gcn_subtarget \<Rightarrow> mcreg \<Rightarrow> mcreg \<Rightarrow> mcreg \<Rightarrow> mcreg \<Rightarrow> mcreg \<Rightarrow> mcreg \<Rightarrow> mcreg \<Rightarrow> mir_item list" where
  "switch_AGPR3_Spilled3 st SrcAGPR SrcHi SrcLo SrcSP TgtHi TgtLo TgtSP =
     map MI (emitMoveFromSGPRToSGPR SrcHi TgtHi True) @
     map MI (emitMoveFromSGPRToSGPR SrcLo TgtLo True) @
     map MI (emitMoveFromSGPRToSGPR SrcSP TgtSP True) @
     [SCCSafe (
        emitSGPRSwap FLAT_SCR_HI TgtHi @
        emitSGPRSwap FLAT_SCR_LO TgtLo @
        (emitStoreToEmergencyVGPRScratchSpillLocation TgtSP (VGPR 0) True @
         emitWaitCnt 0 @
         emitMoveFromAGPRToVGPR SrcAGPR (VGPR 0) False @
         emitStoreToEmergencySVSScratchSpillLocation TgtSP (VGPR 0) True @
         emitWaitCnt 0 @
         emitLoadFromEmergencyVGPRScratchSpillLocation TgtSP (VGPR 0)) @
        emitExecMaskFlip st @
        (emitStoreToEmergencyVGPRScratchSpillLocation TgtSP (VGPR 0) True @
         emitWaitCnt 0 @
         emitMoveFromAGPRToVGPR SrcAGPR (VGPR 0) False @
         emitStoreToEmergencySVSScratchSpillLocation TgtSP (VGPR 0) True @
         emitWaitCnt 0 @
         emitLoadFromEmergencyVGPRScratchSpillLocation TgtSP (VGPR 0)) @
        emitExecMaskFlip st @
        emitSGPRSwap TgtHi FLAT_SCR_HI @
        emitSGPRSwap TgtLo FLAT_SCR_LO)] @
     map MI (emitWaitCnt 0)"

subsection \<open>From scratch memory\<close>

definition switch_Spilled3_VGPR ::
    "gcn_subtarget \<Rightarrow> mcreg \<Rightarrow> mcreg \<Rightarrow> mcreg \<Rightarrow> mcreg \<Rightarrow> mir_item list" where
  "switch_Spilled3_VGPR st SrcHi SrcLo SrcSP Tgt =
     [SCCSafe (
        emitSGPRSwap FLAT_SCR_HI SrcHi @
        emitSGPRSwap FLAT_SCR_LO SrcLo @
        (emitLoadFromEmergencySVSScratchSpillLocation SrcSP Tgt) @
        emitExecMaskFlip st @
        (emitLoadFromEmergencySVSScratchSpillLocation SrcSP Tgt) @
        emitExecMaskFlip st @
        emitSGPRSwap SrcHi FLAT_SCR_HI @
        emitSGPRSwap SrcLo FLAT_SCR_LO)] @
     map MI (emitWaitCnt 0)"

definition switch_Spilled3_TwoAGPR ::
    "gcn_subtarget \<Rightarrow> mcreg \<Rightarrow> mcreg \<Rightarrow> mcreg \<Rightarrow> mcreg \<Rightarrow> mcreg \<Rightarrow> mir_item list" where
  "switch_Spilled3_TwoAGPR st SrcHi SrcLo SrcSP TgtAGPR TgtTemp =
     [SCCSafe (
        emitSGPRSwap FLAT_SCR_HI SrcHi @
        emitSGPRSwap FLAT_SCR_LO SrcLo @
        (emitMoveFromVGPRToAGPR (VGPR 0) TgtTemp True @
         emitLoadFromEmergencySVSScratchSpillLocation SrcSP (VGPR 0) @
         emitWaitCnt 0 @
         emitMoveFromVGPRToAGPR (VGPR 0) TgtAGPR True @
         emitMoveFromAGPRToVGPR TgtTemp (VGPR 0) True) @
        emitExecMaskFlip st @
        (emitMoveFromVGPRToAGPR (VGPR 0) TgtTemp True @
         emitLoadFromEmergencySVSScratchSpillLocation SrcSP (VGPR 0) @
         emitWaitCnt 0 @
         emitMoveFromVGPRToAGPR (VGPR 0) TgtAGPR True @
         emitMoveFromAGPRToVGPR TgtTemp (VGPR 0) True) @
        emitExecMaskFlip st @
        emitSGPRSwap SrcHi FLAT_SCR_HI @
        emitSGPRSwap SrcLo FLAT_SCR_LO)] @
     map MI (emitWaitCnt 0)"

definition switch_Spilled3_AGPR3 ::
    "gcn_subtarget \<Rightarrow> mcreg \<Rightarrow> mcreg \<Rightarrow> mcreg \<Rightarrow> mcreg \<Rightarrow> mcreg \<Rightarrow> mcreg \<Rightarrow> mcreg \<Rightarrow> mir_item list" where
  "switch_Spilled3_AGPR3 st SrcHi SrcLo SrcSP TgtAGPR TgtHi TgtLo TgtSP =
     [SCCSafe (
        emitSGPRSwap FLAT_SCR_HI SrcHi @
        emitSGPRSwap FLAT_SCR_LO SrcLo @
        (emitStoreToEmergencyVGPRScratchSpillLocation SrcSP (VGPR 0) True @
         emitWaitCnt 0 @
         emitLoadFromEmergencySVSScratchSpillLocation SrcSP (VGPR 0) @
         emitWaitCnt 0 @
         emitMoveFromVGPRToAGPR (VGPR 0) TgtAGPR True @
         emitLoadFromEmergencyVGPRScratchSpillLocation SrcSP (VGPR 0)) @
        emitExecMaskFlip st @
        (emitStoreToEmergencyVGPRScratchSpillLocation SrcSP (VGPR 0) True @
         emitWaitCnt 0 @
         emitLoadFromEmergencySVSScratchSpillLocation SrcSP (VGPR 0) @
         emitWaitCnt 0 @
         emitMoveFromVGPRToAGPR (VGPR 0) TgtAGPR True @
         emitLoadFromEmergencyVGPRScratchSpillLocation SrcSP (VGPR 0)) @
        emitExecMaskFlip st @
        emitSGPRSwap SrcHi FLAT_SCR_HI @
        emitSGPRSwap SrcLo FLAT_SCR_LO)] @
     map MI (emitWaitCnt 0)"

definition switch_Spilled3_Spilled3 ::
    "gcn_subtarget \<Rightarrow> mcreg \<Rightarrow> mcreg \<Rightarrow> mcreg \<Rightarrow> mcreg \<Rightarrow> mcreg \<Rightarrow> mcreg \<Rightarrow> mir_item list" where
  "switch_Spilled3_Spilled3 st SrcHi SrcLo SrcSP TgtHi TgtLo TgtSP =
     map MI (emitMoveFromSGPRToSGPR SrcHi TgtHi True) @
     map MI (emitMoveFromSGPRToSGPR SrcLo TgtLo True) @
     map MI (emitMoveFromSGPRToSGPR SrcSP TgtSP True)"

definition switch_Spilled1_VGPR ::
    "gcn_subtarget \<Rightarrow> mcreg \<Rightarrow> mcreg \<Rightarrow> mir_item list" where
  "switch_Spilled1_VGPR st SrcSP Tgt =
     [SCCSafe (
        (emitLoadFromEmergencySVSScratchSpillLocation SrcSP Tgt) @
        emitExecMaskFlip st @
        (emitLoadFromEmergencySVSScratchSpillLocation SrcSP Tgt) @
        emitExecMaskFlip st)] @
     map MI (emitWaitCnt 0)"

definition switch_Spilled1_Spilled1 ::
    "gcn_subtarget \<Rightarrow> mcreg \<Rightarrow> mcreg \<Rightarrow> mir_item list" where
  "switch_Spilled1_Spilled1 st SrcSP TgtSP =
     map MI (emitMoveFromSGPRToSGPR SrcSP TgtSP True)"

subsection \<open>Dispatch\<close>

text \<open>
  \<open>emitCodeToSwitchSVS\<close> of each class tries the target classes in turn; \<open>None\<close> is the
  \<open>llvm_unreachable\<close> at its end.
\<close>

fun VGPR_emitCodeToSwitchSVS ::
    "gcn_subtarget \<Rightarrow> StateValueArraySpecs \<Rightarrow> mcreg \<Rightarrow> SVAStorage \<Rightarrow>
     (sva_error + mir_item list) option" where
  "VGPR_emitCodeToSwitchSVS st specs v (VGPRStateValueArrayStorage v') =
     Some (Inr (switch_VGPR_VGPR st v v'))"
| "VGPR_emitCodeToSwitchSVS st specs v (TwoAGPRValueStorage a' t') =
     Some (Inr (switch_VGPR_TwoAGPR st v a' t'))"
| "VGPR_emitCodeToSwitchSVS st specs v (AGPRWithThreeSGPRSValueStorage a' hi' lo' sp') =
     Some (Inr (switch_VGPR_AGPR3 st v a' hi' lo' sp'))"
| "VGPR_emitCodeToSwitchSVS st specs v (SpilledWithThreeSGPRsValueStorage hi' lo' sp') =
     Some (switch_VGPR_Spilled3 st specs v hi' lo' sp')"
| "VGPR_emitCodeToSwitchSVS st specs v (SpilledWithOneSGPRsValueStorage sp') =
     Some (Inr (switch_VGPR_Spilled1 st v sp'))"

fun TwoAGPR_emitCodeToSwitchSVS ::
    "gcn_subtarget \<Rightarrow> StateValueArraySpecs \<Rightarrow> mcreg \<Rightarrow> mcreg \<Rightarrow> SVAStorage \<Rightarrow>
     (sva_error + mir_item list) option" where
  "TwoAGPR_emitCodeToSwitchSVS st specs a t (VGPRStateValueArrayStorage v') =
     Some (Inr (switch_TwoAGPR_VGPR st a t v'))"
| "TwoAGPR_emitCodeToSwitchSVS st specs a t (TwoAGPRValueStorage a' t') =
     Some (Inr (switch_TwoAGPR_TwoAGPR st a t a' t'))"
| "TwoAGPR_emitCodeToSwitchSVS st specs a t (AGPRWithThreeSGPRSValueStorage a' hi' lo' sp') =
     Some (Inr (switch_TwoAGPR_AGPR3 st a t a' hi' lo' sp'))"
| "TwoAGPR_emitCodeToSwitchSVS st specs a t (SpilledWithThreeSGPRsValueStorage hi' lo' sp') =
     Some (switch_TwoAGPR_Spilled3 st specs a t hi' lo' sp')"
| "TwoAGPR_emitCodeToSwitchSVS st specs a t _ = None"

fun AGPR3_emitCodeToSwitchSVS ::
    "gcn_subtarget \<Rightarrow> StateValueArraySpecs \<Rightarrow> mcreg \<Rightarrow> mcreg \<Rightarrow> mcreg \<Rightarrow> mcreg \<Rightarrow> SVAStorage \<Rightarrow>
     (sva_error + mir_item list) option" where
  "AGPR3_emitCodeToSwitchSVS st specs a hi lo sp (VGPRStateValueArrayStorage v') =
     Some (Inr (switch_AGPR3_VGPR st a hi lo sp v'))"
| "AGPR3_emitCodeToSwitchSVS st specs a hi lo sp (TwoAGPRValueStorage a' t') =
     Some (Inr (switch_AGPR3_TwoAGPR st a hi lo sp a' t'))"
| "AGPR3_emitCodeToSwitchSVS st specs a hi lo sp (AGPRWithThreeSGPRSValueStorage a' hi' lo' sp') =
     Some (Inr (switch_AGPR3_AGPR3 st a hi lo sp a' hi' lo' sp'))"
| "AGPR3_emitCodeToSwitchSVS st specs a hi lo sp (SpilledWithThreeSGPRsValueStorage hi' lo' sp') =
     Some (Inr (switch_AGPR3_Spilled3 st a hi lo sp hi' lo' sp'))"
| "AGPR3_emitCodeToSwitchSVS st specs a hi lo sp _ = None"

fun Spilled3_emitCodeToSwitchSVS ::
    "gcn_subtarget \<Rightarrow> StateValueArraySpecs \<Rightarrow> mcreg \<Rightarrow> mcreg \<Rightarrow> mcreg \<Rightarrow> SVAStorage \<Rightarrow>
     (sva_error + mir_item list) option" where
  "Spilled3_emitCodeToSwitchSVS st specs hi lo sp (VGPRStateValueArrayStorage v') =
     Some (Inr (switch_Spilled3_VGPR st hi lo sp v'))"
| "Spilled3_emitCodeToSwitchSVS st specs hi lo sp (TwoAGPRValueStorage a' t') =
     Some (Inr (switch_Spilled3_TwoAGPR st hi lo sp a' t'))"
| "Spilled3_emitCodeToSwitchSVS st specs hi lo sp (AGPRWithThreeSGPRSValueStorage a' hi' lo' sp') =
     Some (Inr (switch_Spilled3_AGPR3 st hi lo sp a' hi' lo' sp'))"
| "Spilled3_emitCodeToSwitchSVS st specs hi lo sp (SpilledWithThreeSGPRsValueStorage hi' lo' sp') =
     Some (Inr (switch_Spilled3_Spilled3 st hi lo sp hi' lo' sp'))"
| "Spilled3_emitCodeToSwitchSVS st specs hi lo sp _ = None"

fun Spilled1_emitCodeToSwitchSVS ::
    "gcn_subtarget \<Rightarrow> StateValueArraySpecs \<Rightarrow> mcreg \<Rightarrow> SVAStorage \<Rightarrow>
     (sva_error + mir_item list) option" where
  "Spilled1_emitCodeToSwitchSVS st specs sp (VGPRStateValueArrayStorage v') =
     Some (Inr (switch_Spilled1_VGPR st sp v'))"
| "Spilled1_emitCodeToSwitchSVS st specs sp (SpilledWithOneSGPRsValueStorage sp') =
     Some (Inr (switch_Spilled1_Spilled1 st sp sp'))"
| "Spilled1_emitCodeToSwitchSVS st specs sp _ = None"

fun emitCodeToSwitchSVS ::
    "gcn_subtarget \<Rightarrow> StateValueArraySpecs \<Rightarrow> SVAStorage \<Rightarrow> SVAStorage \<Rightarrow>
     (sva_error + mir_item list) option" where
  "emitCodeToSwitchSVS st specs (VGPRStateValueArrayStorage v) tgt = VGPR_emitCodeToSwitchSVS st specs v tgt"
| "emitCodeToSwitchSVS st specs (TwoAGPRValueStorage a t) tgt = TwoAGPR_emitCodeToSwitchSVS st specs a t tgt"
| "emitCodeToSwitchSVS st specs (AGPRWithThreeSGPRSValueStorage a hi lo sp) tgt = AGPR3_emitCodeToSwitchSVS st specs a hi lo sp tgt"
| "emitCodeToSwitchSVS st specs (SpilledWithThreeSGPRsValueStorage hi lo sp) tgt = Spilled3_emitCodeToSwitchSVS st specs hi lo sp tgt"
| "emitCodeToSwitchSVS st specs (SpilledWithOneSGPRsValueStorage sp) tgt = Spilled1_emitCodeToSwitchSVS st specs sp tgt"

subsection \<open>Effect of each switch\<close>

text \<open>The shadow registers after \<open>loadFlatScratchFromSVALanes\<close> and the stack pointer.\<close>

definition read_lane :: "gcn_subtarget \<Rightarrow> gpu \<Rightarrow> mcreg \<Rightarrow> nat \<Rightarrow> 32 word" where
  "read_lane st g v n = vregs g v (n mod wave_size st)"

lemma exec_items_readlane:
  "exec_items st (map MI (emitMoveFromVGPRLaneToSGPR v r n k) @ xs) g =
     exec_items st xs (g\<lparr>sregs := (sregs g)(r := read_lane st g v n)\<rparr>)"
  by (simp add: emitMoveFromVGPRLaneToSGPR_def getKillRegState_def read_lane_def)

lemma exec_items_smov:
  "exec_items st (map MI (emitMoveFromSGPRToSGPR r s k) @ xs) g =
     exec_items st xs (g\<lparr>sregs := (sregs g)(s := sregs g r)\<rparr>)"
  "exec_items st (map MI (emitMoveFromSGPRToSGPR r s k)) g = g\<lparr>sregs := (sregs g)(s := sregs g r)\<rparr>"
  by (simp_all add: emitMoveFromSGPRToSGPR_def getKillRegState_def)

lemma loadFlatScratch_Inr:
  "loadFlatScratchFromSVALanes specs v lo hi = Inr fs \<longleftrightarrow>
   (\<exists>n. findArgumentLane specs FLAT_SCRATCH = Some n \<and>
      fs = map MI (emitMoveFromVGPRLaneToSGPR v lo n False) @
           map MI (emitMoveFromVGPRLaneToSGPR v hi (n + 1) False))"
  by (auto simp: loadFlatScratchFromSVALanes_def split: option.splits)

definition shadow_loaded ::
    "gcn_subtarget \<Rightarrow> gpu \<Rightarrow> mcreg \<Rightarrow> nat \<Rightarrow> mcreg \<Rightarrow> mcreg \<Rightarrow> mcreg \<Rightarrow> gpu" where
  "shadow_loaded st g v n hi lo sp =
     g\<lparr>sregs := (sregs g)(lo := read_lane st g v n, hi := read_lane st g v (n + 1),
                         sp := read_lane st g v StackPointerStoreLane)\<rparr>"

definition shadow_moved ::
    "gpu \<Rightarrow> mcreg \<Rightarrow> mcreg \<Rightarrow> mcreg \<Rightarrow> mcreg \<Rightarrow> mcreg \<Rightarrow> mcreg \<Rightarrow> gpu" where
  "shadow_moved g hi lo sp hi' lo' sp' =
     g\<lparr>sregs := (sregs g)(hi' := sregs g hi, lo' := sregs g lo, sp' := sregs g sp)\<rparr>"

lemma exec_shadow_loaded:
  "exec_items st ((map MI (emitMoveFromVGPRLaneToSGPR v lo n False) @
       map MI (emitMoveFromVGPRLaneToSGPR v hi (Suc n) False)) @
       loadStackPointerFromSVALanes v sp @ xs) g =
     exec_items st xs (shadow_loaded st g v n hi lo sp)"
  by (simp add: loadStackPointerFromSVALanes_def exec_items_readlane shadow_loaded_def read_lane_def)

lemma exec_shadow_moved:
  assumes "hi' \<noteq> lo" "hi' \<noteq> sp" "lo' \<noteq> sp"
  shows "exec_items st (map MI (emitMoveFromSGPRToSGPR hi hi' k1) @
       map MI (emitMoveFromSGPRToSGPR lo lo' k2) @ map MI (emitMoveFromSGPRToSGPR sp sp' k3) @ xs) g =
     exec_items st xs (shadow_moved g hi lo sp hi' lo' sp')"
    "exec_items st (map MI (emitMoveFromSGPRToSGPR hi hi' k1) @
       map MI (emitMoveFromSGPRToSGPR lo lo' k2) @ map MI (emitMoveFromSGPRToSGPR sp sp' k3)) g =
     shadow_moved g hi lo sp hi' lo' sp'"
  using assms by (simp_all add: exec_items_smov shadow_moved_def)

lemma sel_shadow [simp]:
  "vregs (shadow_loaded st g v n hi lo sp) = vregs g"
  "exec_mask (shadow_loaded st g v n hi lo sp) = exec_mask g"
  "scc (shadow_loaded st g v n hi lo sp) = scc g"
  "scratch (shadow_loaded st g v n hi lo sp) = scratch g"
  "vregs (shadow_moved g hi lo sp hi' lo' sp') = vregs g"
  "exec_mask (shadow_moved g hi lo sp hi' lo' sp') = exec_mask g"
  "scc (shadow_moved g hi lo sp hi' lo' sp') = scc g"
  "scratch (shadow_moved g hi lo sp hi' lo' sp') = scratch g"
  by (simp_all add: shadow_loaded_def shadow_moved_def)

text \<open>Moves between registers only.\<close>

lemma exec_switch_moves:
  "exec_items st (switch_VGPR_VGPR st s t) g = base_lanes st (fs_base_of st g) (\<lambda>v m. (v(t := v s), m)) g"
  "exec_items st (switch_VGPR_TwoAGPR st s a' t') g =
     base_lanes st (fs_base_of st g) (\<lambda>v m. (v(a' := v s), m)) g"
  "exec_items st (switch_VGPR_AGPR3 st s a' hi' lo' sp') g =
     base_lanes st (fs_base_of st g) (\<lambda>v m. (v(a' := v s), m)) g"
  "exec_items st (switch_TwoAGPR_VGPR st a t v') g =
     base_lanes st (fs_base_of st g) (\<lambda>v m. (v(v' := v a), m)) g"
  "exec_items st (switch_AGPR3_VGPR st a hi lo sp v') g =
     base_lanes st (fs_base_of st g) (\<lambda>v m. (v(v' := v a), m)) g"
  unfolding switch_VGPR_VGPR_def switch_VGPR_TwoAGPR_def switch_VGPR_AGPR3_def
    switch_TwoAGPR_VGPR_def switch_AGPR3_VGPR_def exec_items_safe_wait
  by (intro safe_halves; simp add: lane_calc)+

text \<open>Moves between AGPRs, through VGPR0 where the target has no AGPR move.\<close>

definition agpr_move_lane ::
    "gcn_subtarget \<Rightarrow> mcreg \<Rightarrow> mcreg \<Rightarrow> mcreg \<Rightarrow>
     (mcreg \<Rightarrow> 32 word) \<Rightarrow> (32 word \<Rightarrow> 32 word) \<Rightarrow> lane" where
  "agpr_move_lane st a t a' v m =
     (if hasGFX90AInsts st then (v(a' := v a), m) else (v(t := v (VGPR 0), a' := v a), m))"

lemma exec_switch_TwoAGPR:
  assumes "is_agpr a" "is_agpr t" "a \<noteq> t" "is_agpr a'" "hasGFX90AInsts st \<or> a' \<noteq> t"
  shows "exec_items st (switch_TwoAGPR_TwoAGPR st a t a' t') g =
      base_lanes st (fs_base_of st g) (agpr_move_lane st a t a') g"
    and "exec_items st (switch_TwoAGPR_AGPR3 st a t a' hi' lo' sp') g =
      base_lanes st (fs_base_of st g) (agpr_move_lane st a t a') g"
  unfolding switch_TwoAGPR_TwoAGPR_def switch_TwoAGPR_AGPR3_def
  using assms
  by (cases "hasGFX90AInsts st"; simp only: if_True if_False exec_items_safe_wait;
      intro safe_halves;
      auto simp: lane_calc agpr_move_lane_def EmitAGPRMove_def fun_eq_iff elim!: is_agprE)+

lemma exec_switch_AGPR3_TwoAGPR:
  assumes "is_agpr a" "is_agpr a'" "is_agpr t'" "a' \<noteq> t'" "t' \<noteq> a"
  shows "exec_items st (switch_AGPR3_TwoAGPR st a hi lo sp a' t') g =
      base_lanes st (fs_base_of st g) (\<lambda>v m. (v(t' := v (VGPR 0), a' := v a), m)) g"
  unfolding switch_AGPR3_TwoAGPR_def exec_items_safe_wait
  using assms
  by (intro safe_halves) (auto simp: lane_calc fun_eq_iff elim!: is_agprE)

text \<open>Spills and reloads.\<close>

lemma exec_switch_VGPR_Spilled3:
  assumes sw: "switch_VGPR_Spilled3 st specs s hi lo sp = Inr is"
    and r: "is_sgpr hi" "is_sgpr lo" "is_sgpr sp" "hi \<noteq> lo" "sp \<noteq> hi" "sp \<noteq> lo"
    and na: "\<not> hasArchitectedFlatScratch st"
    and n: "findArgumentLane specs FLAT_SCRATCH = Some n"
  shows "exec_items st is g =
    base_lanes st (read_lane st g s (n + 1), read_lane st g s n)
      (\<lambda>v m. (v, m(svs_slot (read_lane st g s StackPointerStoreLane) := v s)))
      (shadow_loaded st g s n hi lo sp)"
proof -
  let ?h = "shadow_loaded st g s n hi lo sp"
  have regs: "sregs ?h hi = read_lane st g s (n + 1)" "sregs ?h lo = read_lane st g s n"
    "sregs ?h sp = read_lane st g s StackPointerStoreLane"
    using r by (simp_all add: shadow_loaded_def)
  let ?f = "\<lambda>v m. (v, m(svs_slot (read_lane st g s StackPointerStoreLane) := v s))"
  let ?c = "emitStoreToEmergencySVSScratchSpillLocation sp s"
  have "exec_items st is g = safe st (emitSGPRSwap FLAT_SCR_HI hi @ emitSGPRSwap FLAT_SCR_LO lo @
        ?c False @ emitExecMaskFlip st @ ?c True @ emitExecMaskFlip st @
        emitSGPRSwap hi FLAT_SCR_HI @ emitSGPRSwap lo FLAT_SCR_LO) ?h"
    using sw n
    by (auto simp: switch_VGPR_Spilled3_def err_bind_Inr_iff loadFlatScratch_Inr
        exec_shadow_loaded emitWaitCnt_def simp del: append_assoc)
  also have "\<dots> = base_lanes st (sregs ?h hi, sregs ?h lo) ?f ?h"
    by (rule safe_fs_window(2)) (use r na regs in \<open>auto simp: lane_calc\<close>)
  finally show ?thesis by (simp add: regs)
qed

lemma exec_switch_VGPR_Spilled1:
  assumes "is_sgpr sp"
  shows "exec_items st (switch_VGPR_Spilled1 st s sp) g =
    base_lanes st (fs_base_of st g)
      (\<lambda>v m. (v, m(svs_slot (read_lane st g s StackPointerStoreLane) := v s)))
      (g\<lparr>sregs := (sregs g)(sp := read_lane st g s StackPointerStoreLane)\<rparr>)"
proof -
  let ?h = "g\<lparr>sregs := (sregs g)(sp := read_lane st g s StackPointerStoreLane)\<rparr>"
  let ?f = "\<lambda>v m. (v, m(svs_slot (read_lane st g s StackPointerStoreLane) := v s))"
  have base: "fs_base_of st ?h = fs_base_of st g"
    using assms by (auto simp: fs_base_of_def elim!: is_sgprE)
  have "exec_items st (switch_VGPR_Spilled1 st s sp) g = base_lanes st (fs_base_of st ?h) ?f ?h"
    unfolding switch_VGPR_Spilled1_def exec_items_readlane exec_items_safe_wait
    by (rule safe_halves) (simp_all add: lane_calc)
  then show ?thesis by (simp add: base)
qed

lemma exec_switch_AGPR3_moved:
  assumes r: "is_sgpr hi'" "is_sgpr lo'" "is_sgpr sp'" "hi' \<noteq> lo'" "sp' \<noteq> hi'" "sp' \<noteq> lo'"
    and na: "\<not> hasArchitectedFlatScratch st" and a: "is_agpr a"
    and mv: "hi' \<noteq> lo" "hi' \<noteq> sp" "lo' \<noteq> sp"
  shows "is_agpr a' \<Longrightarrow> exec_items st (switch_AGPR3_AGPR3 st a hi lo sp a' hi' lo' sp') g =
    base_lanes st (sregs g hi, sregs g lo)
      (\<lambda>v m. (v(a' := v a), m(vgpr_slot (sregs g sp) := v (VGPR 0))))
      (shadow_moved g hi lo sp hi' lo' sp')"
    and "exec_items st (switch_AGPR3_Spilled3 st a hi lo sp hi' lo' sp') g =
    base_lanes st (sregs g hi, sregs g lo)
      (\<lambda>v m. (v, m(vgpr_slot (sregs g sp) := v (VGPR 0), svs_slot (sregs g sp) := v a)))
      (shadow_moved g hi lo sp hi' lo' sp')"
proof -
  let ?h = "shadow_moved g hi lo sp hi' lo' sp'"
  have regs: "sregs ?h hi' = sregs g hi" "sregs ?h lo' = sregs g lo" "sregs ?h sp' = sregs g sp"
    using r by (simp_all add: shadow_moved_def)
  note win = safe_fs_window(2) [OF r(1,2,4) na, of ?h, unfolded regs]
  have sp: "fs_swapped hi' lo' (sregs ?h) sp' = sregs g sp"
    using r regs by simp
  show "exec_items st (switch_AGPR3_AGPR3 st a hi lo sp a' hi' lo' sp') g =
    base_lanes st (sregs g hi, sregs g lo)
      (\<lambda>v m. (v(a' := v a), m(vgpr_slot (sregs g sp) := v (VGPR 0)))) ?h" if "is_agpr a'"
    unfolding switch_AGPR3_AGPR3_def exec_shadow_moved [OF mv] exec_items_safe_wait
    by (rule win) (use a that sp in \<open>auto simp: lane_calc fun_eq_iff elim!: is_agprE\<close>)
  show "exec_items st (switch_AGPR3_Spilled3 st a hi lo sp hi' lo' sp') g =
    base_lanes st (sregs g hi, sregs g lo)
      (\<lambda>v m. (v, m(vgpr_slot (sregs g sp) := v (VGPR 0), svs_slot (sregs g sp) := v a))) ?h"
    unfolding switch_AGPR3_Spilled3_def exec_shadow_moved [OF mv] exec_items_safe_wait
    by (rule win) (use a sp in \<open>auto simp: lane_calc fun_eq_iff elim!: is_agprE\<close>)
qed

lemma exec_switch_Spilled3:
  assumes r: "is_sgpr hi" "is_sgpr lo" "is_sgpr sp" "hi \<noteq> lo" "sp \<noteq> hi" "sp \<noteq> lo"
    and na: "\<not> hasArchitectedFlatScratch st"
  shows "exec_items st (switch_Spilled3_VGPR st hi lo sp v') g =
      base_lanes st (sregs g hi, sregs g lo) (\<lambda>v m. (v(v' := m (svs_slot (sregs g sp))), m)) g"
    and "is_agpr a' \<Longrightarrow> is_agpr t' \<Longrightarrow> a' \<noteq> t' \<Longrightarrow>
      exec_items st (switch_Spilled3_TwoAGPR st hi lo sp a' t') g =
      base_lanes st (sregs g hi, sregs g lo)
        (\<lambda>v m. (v(t' := v (VGPR 0), a' := m (svs_slot (sregs g sp))), m)) g"
    and "is_agpr a' \<Longrightarrow>
      exec_items st (switch_Spilled3_AGPR3 st hi lo sp a' hi' lo' sp') g =
      base_lanes st (sregs g hi, sregs g lo)
        (\<lambda>v m. (v(a' := m (svs_slot (sregs g sp))), m(vgpr_slot (sregs g sp) := v (VGPR 0)))) g"
proof -
  note win = safe_fs_window(2) [OF r(1,2,4) na]
  have sp: "fs_swapped hi lo (sregs g) sp = sregs g sp"
    using r by simp
  show "exec_items st (switch_Spilled3_VGPR st hi lo sp v') g =
      base_lanes st (sregs g hi, sregs g lo) (\<lambda>v m. (v(v' := m (svs_slot (sregs g sp))), m)) g"
    unfolding switch_Spilled3_VGPR_def exec_items_safe_wait
    by (rule win) (use sp in \<open>auto simp: lane_calc\<close>)
  show "exec_items st (switch_Spilled3_TwoAGPR st hi lo sp a' t') g =
      base_lanes st (sregs g hi, sregs g lo)
        (\<lambda>v m. (v(t' := v (VGPR 0), a' := m (svs_slot (sregs g sp))), m)) g"
    if "is_agpr a'" "is_agpr t'" "a' \<noteq> t'"
    unfolding switch_Spilled3_TwoAGPR_def exec_items_safe_wait
    by (rule win) (use that sp in \<open>auto simp: lane_calc fun_eq_iff elim!: is_agprE\<close>)
  show "exec_items st (switch_Spilled3_AGPR3 st hi lo sp a' hi' lo' sp') g =
      base_lanes st (sregs g hi, sregs g lo)
        (\<lambda>v m. (v(a' := m (svs_slot (sregs g sp))), m(vgpr_slot (sregs g sp) := v (VGPR 0)))) g"
    if "is_agpr a'"
    unfolding switch_Spilled3_AGPR3_def exec_items_safe_wait
    by (rule win) (use that sp in \<open>auto simp: lane_calc fun_eq_iff elim!: is_agprE\<close>)
qed

lemma exec_switch_Spilled1_VGPR:
  "exec_items st (switch_Spilled1_VGPR st sp v') g =
     base_lanes st (fs_base_of st g) (\<lambda>v m. (v(v' := m (svs_slot (sregs g sp))), m)) g"
  unfolding switch_Spilled1_VGPR_def exec_items_safe_wait
  by (rule safe_halves) (simp_all add: lane_calc)

text \<open>VGPR0 parked in an AGPR, used as the courier of another AGPR, and taken back.\<close>

lemma park_and_spill:
  assumes "is_agpr a" "is_agpr t" "a \<noteq> t"
  shows "base_lanes st b3 (\<lambda>v m. (v(VGPR 0 := v t), m))
      (base_lanes st B (\<lambda>v m. (v, m(x := v (VGPR 0))))
        ((base_lanes st b1 (\<lambda>v m. (v(t := v (VGPR 0), VGPR 0 := v a), m)) g)\<lparr>sregs := S\<rparr>)) =
    base_lanes st B (\<lambda>v m. (v(t := v (VGPR 0)), m(x := v a))) (g\<lparr>sregs := S\<rparr>)"
  using assms
  by (intro gpu_eqI) (auto simp: vregs_base_lanes scratch_base_lanes fun_eq_iff elim!: is_agprE)

lemma exec_switch_TwoAGPR_Spilled3:
  assumes sw: "switch_TwoAGPR_Spilled3 st specs a t hi lo sp = Inr is"
    and r: "is_sgpr hi" "is_sgpr lo" "is_sgpr sp" "hi \<noteq> lo" "sp \<noteq> hi" "sp \<noteq> lo"
    and na: "\<not> hasArchitectedFlatScratch st" and a: "is_agpr a" "is_agpr t" "a \<noteq> t"
    and n: "findArgumentLane specs FLAT_SCRATCH = Some n"
  shows "exec_items st is g =
    base_lanes st (read_lane st g a (n + 1), read_lane st g a n)
      (\<lambda>v m. (v(t := v (VGPR 0)), m(svs_slot (read_lane st g a StackPointerStoreLane) := v a)))
      (shadow_loaded st g a n hi lo sp)"
proof -
  let ?b = "fs_base_of st g"
  let ?g1 = "base_lanes st ?b (\<lambda>v m. (v(t := v (VGPR 0), VGPR 0 := v a), m)) g"
  have lanes: "read_lane st ?g1 (VGPR 0) k = read_lane st g a k" for k
    using a by (auto simp: read_lane_def vregs_base_lanes wave_size_bounds elim!: is_agprE)
  let ?h = "shadow_loaded st ?g1 (VGPR 0) n hi lo sp"
  have regs: "sregs ?h hi = read_lane st g a (n + 1)" "sregs ?h lo = read_lane st g a n"
    "sregs ?h sp = read_lane st g a StackPointerStoreLane"
    using r by (simp_all add: shadow_loaded_def lanes)
  let ?f = "\<lambda>v m. (v, m(svs_slot (read_lane st g a StackPointerStoreLane) := v (VGPR 0)))"
  let ?B = "(read_lane st g a (n + 1), read_lane st g a n)"
  let ?g2 = "base_lanes st ?B ?f ?h"
  have s1: "safe st ((emitMoveFromVGPRToAGPR (VGPR 0) t True @ emitMoveFromAGPRToVGPR a (VGPR 0) False) @
      emitExecMaskFlip st @
      (emitMoveFromVGPRToAGPR (VGPR 0) t True @ emitMoveFromAGPRToVGPR a (VGPR 0) True) @
      emitExecMaskFlip st) g = ?g1"
    by (rule safe_halves) (use a in \<open>auto simp: lane_calc elim!: is_agprE\<close>)
  let ?c = "emitStoreToEmergencySVSScratchSpillLocation sp (VGPR 0)"
  have s2: "safe st (emitSGPRSwap FLAT_SCR_HI hi @ emitSGPRSwap FLAT_SCR_LO lo @
        ?c False @ emitExecMaskFlip st @ ?c True @ emitExecMaskFlip st @
        emitSGPRSwap hi FLAT_SCR_HI @ emitSGPRSwap lo FLAT_SCR_LO) ?h = ?g2"
    by (rule safe_fs_window(2) [OF r(1,2,4) na, of ?h, unfolded regs])
      (use r regs in \<open>auto simp: lane_calc\<close>)
  have s3: "safe st (emitMoveFromAGPRToVGPR t (VGPR 0) False @ emitExecMaskFlip st @
        emitMoveFromAGPRToVGPR t (VGPR 0) True @ emitExecMaskFlip st) ?g2 =
      base_lanes st (fs_base_of st ?g2) (\<lambda>v m. (v(VGPR 0 := v t), m)) ?g2"
    by (rule safe_halves) (simp_all add: lane_calc)
  have "exec_items st is g = base_lanes st (fs_base_of st ?g2) (\<lambda>v m. (v(VGPR 0 := v t), m)) ?g2"
    using sw n s1 s2 s3
    by (auto simp: switch_TwoAGPR_Spilled3_def err_bind_Inr_iff loadFlatScratch_Inr
        exec_shadow_loaded emitWaitCnt_def simp del: append_assoc)
  also have "\<dots> = base_lanes st ?B
      (\<lambda>v m. (v(t := v (VGPR 0)), m(svs_slot (read_lane st g a StackPointerStoreLane) := v a)))
      (shadow_loaded st g a n hi lo sp)"
    unfolding shadow_loaded_def lanes base_lanes_sel by (rule park_and_spill [OF a])
  finally show ?thesis .
qed

subsection \<open>The array and the application state across a switch\<close>

text \<open>
  The registers that a switch reads late are not overwritten early: the shadow SGPRs are moved one
  after the other, and VGPR0 is parked in a temporary AGPR.
\<close>

fun switch_regs :: "gcn_subtarget \<Rightarrow> SVAStorage \<Rightarrow> SVAStorage \<Rightarrow> bool" where
  "switch_regs st (TwoAGPRValueStorage a t) (TwoAGPRValueStorage a' t') =
     (hasGFX90AInsts st \<or> a' \<noteq> t)"
| "switch_regs st (TwoAGPRValueStorage a t) (AGPRWithThreeSGPRSValueStorage a' hi' lo' sp') =
     (hasGFX90AInsts st \<or> a' \<noteq> t)"
| "switch_regs st (AGPRWithThreeSGPRSValueStorage a hi lo sp) (TwoAGPRValueStorage a' t') = (t' \<noteq> a)"
| "switch_regs st (AGPRWithThreeSGPRSValueStorage a hi lo sp)
     (AGPRWithThreeSGPRSValueStorage a' hi' lo' sp') = (hi' \<noteq> lo \<and> hi' \<noteq> sp \<and> lo' \<noteq> sp)"
| "switch_regs st (AGPRWithThreeSGPRSValueStorage a hi lo sp)
     (SpilledWithThreeSGPRsValueStorage hi' lo' sp') = (hi' \<noteq> lo \<and> hi' \<noteq> sp \<and> lo' \<noteq> sp)"
| "switch_regs st (SpilledWithThreeSGPRsValueStorage hi lo sp)
     (SpilledWithThreeSGPRsValueStorage hi' lo' sp') = (hi' \<noteq> lo \<and> hi' \<noteq> sp \<and> lo' \<noteq> sp)"
| "switch_regs st _ _ = True"

definition switch_pre :: "gcn_subtarget \<Rightarrow> SVAStorage \<Rightarrow> SVAStorage \<Rightarrow> bool" where
  "switch_pre st src tgt \<longleftrightarrow>
     storage_wf src \<and> storage_wf tgt \<and> storage_target st src \<and> storage_target st tgt \<and>
     switch_regs st src tgt"

definition switch_frame :: "gcn_subtarget \<Rightarrow> SVAStorage \<Rightarrow> SVAStorage \<Rightarrow> gpu \<Rightarrow> gpu \<Rightarrow> bool" where
  "switch_frame st src tgt g g' \<longleftrightarrow>
     exec_mask g' = exec_mask g \<and> scc g' = scc g \<and>
     (\<forall>r. r \<in> set (getAllStorageRegisters tgt []) \<or> sregs g' r = sregs g r) \<and>
     (\<forall>r l. l < wave_size st \<and>
        (r \<in> set (getAllStorageRegisters src []) \<or> r \<in> set (getAllStorageRegisters tgt [])) \<or>
        vregs g' r l = vregs g r l) \<and>
     (\<forall>b l x. l < wave_size st \<and> (in_slots st src g b x \<or> in_slots st tgt g' b x) \<or>
        scratch g' b l x = scratch g b l x)"

lemma switch_frameI:
  assumes "vregs h = vregs g" "exec_mask h = exec_mask g" "scc h = scc g" "scratch h = scratch g"
    and regs: "\<And>r. r \<notin> set (getAllStorageRegisters tgt []) \<Longrightarrow> sregs h r = sregs g r"
    and v: "\<And>v m r. r \<notin> set (getAllStorageRegisters src []) \<Longrightarrow>
      r \<notin> set (getAllStorageRegisters tgt []) \<Longrightarrow> fst (f v m) r = v r"
    and m: "\<And>v m x. \<not> in_slots st src g b x \<Longrightarrow> \<not> in_slots st tgt h b x \<Longrightarrow> snd (f v m) x = m x"
  shows "switch_frame st src tgt g (base_lanes st b f h)"
  unfolding switch_frame_def
proof (intro conjI allI)
  fix r l b' x
  show "r \<in> set (getAllStorageRegisters tgt []) \<or> sregs (base_lanes st b f h) r = sregs g r"
    using regs [of r] by auto
  show "l < wave_size st \<and>
      (r \<in> set (getAllStorageRegisters src []) \<or> r \<in> set (getAllStorageRegisters tgt [])) \<or>
      vregs (base_lanes st b f h) r l = vregs g r l"
    using v [of r "\<lambda>r. vregs g r l" "scratch g b l"] by (simp add: vregs_base_lanes assms(1,4)) blast
  have "in_slots st tgt (base_lanes st b f h) = in_slots st tgt h"
    by (rule slots_cong(1)) simp
  then show "l < wave_size st \<and> (in_slots st src g b' x \<or> in_slots st tgt (base_lanes st b f h) b' x) \<or>
      scratch (base_lanes st b f h) b' l x = scratch g b' l x"
    using m [of x "\<lambda>r. vregs g r l" "scratch g b l"]
    by (simp add: scratch_base_lanes assms(1,4)) blast
qed (simp_all add: assms)

definition switched :: "gcn_subtarget \<Rightarrow> SVAStorage \<Rightarrow> SVAStorage \<Rightarrow> gpu \<Rightarrow> gpu \<Rightarrow> bool" where
  "switched st src tgt g g' \<longleftrightarrow>
     (\<forall>l<wave_size st. sva_of st tgt g' l = sva_of st src g l) \<and> switch_frame st src tgt g g'"

lemmas sel_lanes = vregs_base_lanes scratch_base_lanes shadow_loaded_def shadow_moved_def

lemma switchedI:
  assumes "g' = base_lanes st b f h"
    and "\<And>l. l < wave_size st \<Longrightarrow> sva_of st tgt (base_lanes st b f h) l = sva_of st src g l"
    and "vregs h = vregs g" "exec_mask h = exec_mask g" "scc h = scc g" "scratch h = scratch g"
    and "\<And>r. r \<notin> set (getAllStorageRegisters tgt []) \<Longrightarrow> sregs h r = sregs g r"
    and "\<And>v m r. r \<notin> set (getAllStorageRegisters src []) \<Longrightarrow>
      r \<notin> set (getAllStorageRegisters tgt []) \<Longrightarrow> fst (f v m) r = v r"
    and "\<And>v m x. \<not> in_slots st src g b x \<Longrightarrow> \<not> in_slots st tgt h b x \<Longrightarrow> snd (f v m) x = m x"
  shows "switched st src tgt g g'"
  unfolding switched_def
proof (intro conjI allI impI)
  show "sva_of st tgt g' l = sva_of st src g l" if "l < wave_size st" for l
    using assms(1,2) that by simp
  show "switch_frame st src tgt g g'"
    unfolding assms(1) by (rule switch_frameI) (use assms in simp_all)
qed

lemma switched_from_VGPR:
  assumes pre: "switch_pre st (VGPRStateValueArrayStorage v) tgt"
    and sw: "emitCodeToSwitchSVS st specs (VGPRStateValueArrayStorage v) tgt = Some (Inr is)"
  shows "switched st (VGPRStateValueArrayStorage v) tgt g (exec_items st is g)"
proof (cases tgt)
  case (VGPRStateValueArrayStorage v')
  with sw have s: "is = switch_VGPR_VGPR st v v'" by simp
  show ?thesis
    unfolding VGPRStateValueArrayStorage s
    by (rule switchedI [OF exec_switch_moves(1)]) (auto simp: sel_lanes)
next
  case (TwoAGPRValueStorage a' t')
  with sw have s: "is = switch_VGPR_TwoAGPR st v a' t'" by simp
  show ?thesis
    unfolding TwoAGPRValueStorage s
    by (rule switchedI [OF exec_switch_moves(2)]) (auto simp: sel_lanes)
next
  case (AGPRWithThreeSGPRSValueStorage a' hi' lo' sp')
  with sw have s: "is = switch_VGPR_AGPR3 st v a' hi' lo' sp'" by simp
  show ?thesis
    unfolding AGPRWithThreeSGPRSValueStorage s
    by (rule switchedI [OF exec_switch_moves(3)]) (auto simp: sel_lanes)
next
  case (SpilledWithThreeSGPRsValueStorage hi' lo' sp')
  with sw have s: "switch_VGPR_Spilled3 st specs v hi' lo' sp' = Inr is" by simp
  then obtain n where n: "findArgumentLane specs FLAT_SCRATCH = Some n"
    by (auto simp: switch_VGPR_Spilled3_def err_bind_Inr_iff loadFlatScratch_Inr)
  have r: "is_sgpr hi'" "is_sgpr lo'" "is_sgpr sp'" "hi' \<noteq> lo'" "sp' \<noteq> hi'" "sp' \<noteq> lo'"
    "\<not> hasArchitectedFlatScratch st"
    using pre by (simp_all add: switch_pre_def SpilledWithThreeSGPRsValueStorage)
  show ?thesis
    unfolding SpilledWithThreeSGPRsValueStorage
    by (rule switchedI [OF exec_switch_VGPR_Spilled3 [OF s r n]])
      (use r in \<open>auto simp: sel_lanes\<close>)
next
  case (SpilledWithOneSGPRsValueStorage sp')
  with sw have s: "is = switch_VGPR_Spilled1 st v sp'" by simp
  have r: "is_sgpr sp'" "hasArchitectedFlatScratch st"
    using pre by (simp_all add: switch_pre_def SpilledWithOneSGPRsValueStorage)
  show ?thesis
    unfolding SpilledWithOneSGPRsValueStorage s
    by (rule switchedI [OF exec_switch_VGPR_Spilled1 [OF r(1)]])
      (use r in \<open>auto simp: sel_lanes fs_base_of_def\<close>)
qed

lemma switched_from_TwoAGPR:
  assumes pre: "switch_pre st (TwoAGPRValueStorage a t) tgt"
    and sw: "emitCodeToSwitchSVS st specs (TwoAGPRValueStorage a t) tgt = Some (Inr is)"
  shows "switched st (TwoAGPRValueStorage a t) tgt g (exec_items st is g)"
proof (cases tgt)
  case (VGPRStateValueArrayStorage v')
  with sw have s: "is = switch_TwoAGPR_VGPR st a t v'" by simp
  show ?thesis
    unfolding VGPRStateValueArrayStorage s
    by (rule switchedI [OF exec_switch_moves(4)]) (auto simp: sel_lanes)
next
  case (TwoAGPRValueStorage a' t')
  with sw have s: "is = switch_TwoAGPR_TwoAGPR st a t a' t'" by simp
  have r: "is_agpr a" "is_agpr t" "a \<noteq> t" "is_agpr a'" "hasGFX90AInsts st \<or> a' \<noteq> t"
    using pre by (simp_all add: switch_pre_def TwoAGPRValueStorage)
  show ?thesis
    unfolding TwoAGPRValueStorage s
    by (rule switchedI [OF exec_switch_TwoAGPR(1) [OF r]])
      (auto simp: sel_lanes agpr_move_lane_def)
next
  case (AGPRWithThreeSGPRSValueStorage a' hi' lo' sp')
  with sw have s: "is = switch_TwoAGPR_AGPR3 st a t a' hi' lo' sp'" by simp
  have r: "is_agpr a" "is_agpr t" "a \<noteq> t" "is_agpr a'" "hasGFX90AInsts st \<or> a' \<noteq> t"
    using pre by (simp_all add: switch_pre_def AGPRWithThreeSGPRSValueStorage)
  show ?thesis
    unfolding AGPRWithThreeSGPRSValueStorage s
    by (rule switchedI [OF exec_switch_TwoAGPR(2) [OF r]])
      (auto simp: sel_lanes agpr_move_lane_def)
next
  case (SpilledWithThreeSGPRsValueStorage hi' lo' sp')
  with sw have s: "switch_TwoAGPR_Spilled3 st specs a t hi' lo' sp' = Inr is" by simp
  then obtain n where n: "findArgumentLane specs FLAT_SCRATCH = Some n"
    by (auto simp: switch_TwoAGPR_Spilled3_def err_bind_Inr_iff loadFlatScratch_Inr)
  have r: "is_sgpr hi'" "is_sgpr lo'" "is_sgpr sp'" "hi' \<noteq> lo'" "sp' \<noteq> hi'" "sp' \<noteq> lo'"
    "\<not> hasArchitectedFlatScratch st" "is_agpr a" "is_agpr t" "a \<noteq> t"
    using pre by (simp_all add: switch_pre_def SpilledWithThreeSGPRsValueStorage)
  show ?thesis
    unfolding SpilledWithThreeSGPRsValueStorage
    by (rule switchedI [OF exec_switch_TwoAGPR_Spilled3 [OF s r n]])
      (use r in \<open>auto simp: sel_lanes\<close>)
qed (use sw in simp)

lemma switched_from_AGPR3:
  assumes pre: "switch_pre st (AGPRWithThreeSGPRSValueStorage a hi lo sp) tgt"
    and sw: "emitCodeToSwitchSVS st specs (AGPRWithThreeSGPRSValueStorage a hi lo sp) tgt = Some (Inr is)"
  shows "switched st (AGPRWithThreeSGPRSValueStorage a hi lo sp) tgt g (exec_items st is g)"
proof (cases tgt)
  case (VGPRStateValueArrayStorage v')
  with sw have s: "is = switch_AGPR3_VGPR st a hi lo sp v'" by simp
  show ?thesis
    unfolding VGPRStateValueArrayStorage s
    by (rule switchedI [OF exec_switch_moves(5)]) (auto simp: sel_lanes)
next
  case (TwoAGPRValueStorage a' t')
  with sw have s: "is = switch_AGPR3_TwoAGPR st a hi lo sp a' t'" by simp
  have r: "is_agpr a" "is_agpr a'" "is_agpr t'" "a' \<noteq> t'" "t' \<noteq> a"
    using pre by (simp_all add: switch_pre_def TwoAGPRValueStorage)
  show ?thesis
    unfolding TwoAGPRValueStorage s
    by (rule switchedI [OF exec_switch_AGPR3_TwoAGPR [OF r]]) (use r in \<open>auto simp: sel_lanes\<close>)
next
  case (AGPRWithThreeSGPRSValueStorage a' hi' lo' sp')
  with sw have s: "is = switch_AGPR3_AGPR3 st a hi lo sp a' hi' lo' sp'" by simp
  have r: "is_sgpr hi'" "is_sgpr lo'" "is_sgpr sp'" "hi' \<noteq> lo'" "sp' \<noteq> hi'" "sp' \<noteq> lo'"
    "\<not> hasArchitectedFlatScratch st" "is_agpr a" "hi' \<noteq> lo" "hi' \<noteq> sp" "lo' \<noteq> sp" "is_agpr a'"
    using pre by (simp_all add: switch_pre_def AGPRWithThreeSGPRSValueStorage)
  show ?thesis
    unfolding AGPRWithThreeSGPRSValueStorage s
    by (rule switchedI [OF exec_switch_AGPR3_moved(1) [OF r]]) (use r in \<open>auto simp: sel_lanes\<close>)
next
  case (SpilledWithThreeSGPRsValueStorage hi' lo' sp')
  with sw have s: "is = switch_AGPR3_Spilled3 st a hi lo sp hi' lo' sp'" by simp
  have r: "is_sgpr hi'" "is_sgpr lo'" "is_sgpr sp'" "hi' \<noteq> lo'" "sp' \<noteq> hi'" "sp' \<noteq> lo'"
    "\<not> hasArchitectedFlatScratch st" "is_agpr a" "hi' \<noteq> lo" "hi' \<noteq> sp" "lo' \<noteq> sp"
    using pre by (simp_all add: switch_pre_def SpilledWithThreeSGPRsValueStorage)
  show ?thesis
    unfolding SpilledWithThreeSGPRsValueStorage s
    by (rule switchedI [OF exec_switch_AGPR3_moved(2) [OF r]]) (use r in \<open>auto simp: sel_lanes\<close>)
qed (use sw in simp)

lemma switched_from_Spilled3:
  assumes pre: "switch_pre st (SpilledWithThreeSGPRsValueStorage hi lo sp) tgt"
    and sw: "emitCodeToSwitchSVS st specs (SpilledWithThreeSGPRsValueStorage hi lo sp) tgt = Some (Inr is)"
  shows "switched st (SpilledWithThreeSGPRsValueStorage hi lo sp) tgt g (exec_items st is g)"
proof -
  have r: "is_sgpr hi" "is_sgpr lo" "is_sgpr sp" "hi \<noteq> lo" "sp \<noteq> hi" "sp \<noteq> lo"
    "\<not> hasArchitectedFlatScratch st"
    using pre by (simp_all add: switch_pre_def)
  show ?thesis
  proof (cases tgt)
    case (VGPRStateValueArrayStorage v')
    with sw have s: "is = switch_Spilled3_VGPR st hi lo sp v'" by simp
    show ?thesis
      unfolding VGPRStateValueArrayStorage s
      by (rule switchedI [OF exec_switch_Spilled3(1) [OF r]]) (auto simp: sel_lanes)
  next
    case (TwoAGPRValueStorage a' t')
    with sw have s: "is = switch_Spilled3_TwoAGPR st hi lo sp a' t'" by simp
    have a: "is_agpr a'" "is_agpr t'" "a' \<noteq> t'"
      using pre by (simp_all add: switch_pre_def TwoAGPRValueStorage)
    show ?thesis
      unfolding TwoAGPRValueStorage s
      by (rule switchedI [OF exec_switch_Spilled3(2) [OF r a]]) (use a in \<open>auto simp: sel_lanes\<close>)
  next
    case (AGPRWithThreeSGPRSValueStorage a' hi' lo' sp')
    with sw have s: "is = switch_Spilled3_AGPR3 st hi lo sp a' hi' lo' sp'" by simp
    have a: "is_agpr a'"
      using pre by (simp_all add: switch_pre_def AGPRWithThreeSGPRSValueStorage)
    show ?thesis
      unfolding AGPRWithThreeSGPRSValueStorage s
      by (rule switchedI [OF exec_switch_Spilled3(3) [OF r a]]) (auto simp: sel_lanes)
  next
    case (SpilledWithThreeSGPRsValueStorage hi' lo' sp')
    with sw have s: "is = switch_Spilled3_Spilled3 st hi lo sp hi' lo' sp'" by simp
    have d: "hi' \<noteq> lo" "hi' \<noteq> sp" "lo' \<noteq> sp" "hi' \<noteq> lo'" "sp' \<noteq> hi'" "sp' \<noteq> lo'"
      using pre by (simp_all add: switch_pre_def SpilledWithThreeSGPRsValueStorage)
    have "exec_items st is g = base_lanes st (0, 0) Pair (shadow_moved g hi lo sp hi' lo' sp')"
      unfolding base_lanes_id s switch_Spilled3_Spilled3_def by (rule exec_shadow_moved(2) [OF d(1-3)])
    then show ?thesis
      unfolding SpilledWithThreeSGPRsValueStorage
      by (rule switchedI) (use d in \<open>auto simp: sel_lanes\<close>)
  qed (use sw in simp)
qed

lemma switched_from_Spilled1:
  assumes pre: "switch_pre st (SpilledWithOneSGPRsValueStorage sp) tgt"
    and sw: "emitCodeToSwitchSVS st specs (SpilledWithOneSGPRsValueStorage sp) tgt = Some (Inr is)"
  shows "switched st (SpilledWithOneSGPRsValueStorage sp) tgt g (exec_items st is g)"
proof (cases tgt)
  case (VGPRStateValueArrayStorage v')
  with sw have s: "is = switch_Spilled1_VGPR st sp v'" by simp
  show ?thesis
    unfolding VGPRStateValueArrayStorage s
    by (rule switchedI [OF exec_switch_Spilled1_VGPR]) (auto simp: sel_lanes)
next
  case (SpilledWithOneSGPRsValueStorage sp')
  with sw have s: "is = switch_Spilled1_Spilled1 st sp sp'" by simp
  have r: "is_sgpr sp'" "hasArchitectedFlatScratch st"
    using pre by (simp_all add: switch_pre_def SpilledWithOneSGPRsValueStorage)
  have "exec_items st is g =
      base_lanes st (0, 0) Pair (g\<lparr>sregs := (sregs g)(sp' := sregs g sp)\<rparr>)"
    by (simp add: base_lanes_id s switch_Spilled1_Spilled1_def exec_items_smov)
  then show ?thesis
    unfolding SpilledWithOneSGPRsValueStorage
    by (rule switchedI) (use r in \<open>auto simp: sel_lanes fs_base_of_def\<close>)
qed (use sw in simp_all)

lemma switched_all:
  assumes "switch_pre st src tgt" "emitCodeToSwitchSVS st specs src tgt = Some (Inr is)"
  shows "switched st src tgt g (exec_items st is g)"
  using assms switched_from_VGPR switched_from_TwoAGPR switched_from_AGPR3 switched_from_Spilled3
    switched_from_Spilled1
  by (cases src) metis+

subsection \<open>Shadow registers\<close>

text \<open>
  The schemes that spill keep the wavefront's flat scratch base and the instrumentation stack
  pointer in SGPRs; they are right when they hold what the array holds in the FLAT_SCRATCH lanes and
  in the stack pointer lane.
\<close>

definition arr_lane :: "gcn_subtarget \<Rightarrow> SVAStorage \<Rightarrow> gpu \<Rightarrow> nat \<Rightarrow> 32 word" where
  "arr_lane st s g n = sva_of st s g (n mod wave_size st)"

fun shadow_ok :: "gcn_subtarget \<Rightarrow> StateValueArraySpecs \<Rightarrow> SVAStorage \<Rightarrow> gpu \<Rightarrow> bool" where
  "shadow_ok st specs (AGPRWithThreeSGPRSValueStorage a hi lo sp) g =
     (let s = AGPRWithThreeSGPRSValueStorage a hi lo sp in
      case findArgumentLane specs FLAT_SCRATCH of
        None \<Rightarrow> False
      | Some n \<Rightarrow> sregs g lo = arr_lane st s g n \<and> sregs g hi = arr_lane st s g (n + 1) \<and>
          sregs g sp = arr_lane st s g StackPointerStoreLane)"
| "shadow_ok st specs (SpilledWithThreeSGPRsValueStorage hi lo sp) g =
     (let s = SpilledWithThreeSGPRsValueStorage hi lo sp in
      case findArgumentLane specs FLAT_SCRATCH of
        None \<Rightarrow> False
      | Some n \<Rightarrow> sregs g lo = arr_lane st s g n \<and> sregs g hi = arr_lane st s g (n + 1) \<and>
          sregs g sp = arr_lane st s g StackPointerStoreLane)"
| "shadow_ok st specs (SpilledWithOneSGPRsValueStorage sp) g =
     (sregs g sp = arr_lane st (SpilledWithOneSGPRsValueStorage sp) g StackPointerStoreLane)"
| "shadow_ok st specs _ g = True"

lemma mod_wave_size [simp]: "n mod wave_size st < wave_size st"
  by (simp add: wave_size_bounds)

lemma arr_lane_switched:
  "switched st src tgt g g' \<Longrightarrow> arr_lane st tgt g' n = arr_lane st src g n"
  by (simp add: switched_def arr_lane_def)

text \<open>The switches whose target scheme gets its shadow registers from the emitted code.\<close>

fun sets_shadow :: "SVAStorage \<Rightarrow> SVAStorage \<Rightarrow> bool" where
  "sets_shadow (AGPRWithThreeSGPRSValueStorage a hi lo sp)
     (AGPRWithThreeSGPRSValueStorage a' hi' lo' sp') = True"
| "sets_shadow _ (AGPRWithThreeSGPRSValueStorage a' hi' lo' sp') = False"
| "sets_shadow _ _ = True"

lemma shadow_of_loaded:
  assumes "sregs g' = sregs (shadow_loaded st g v n hi lo sp)"
    and "findArgumentLane specs FLAT_SCRATCH = Some n"
    and "hi \<noteq> lo" "sp \<noteq> hi" "sp \<noteq> lo"
  shows "findArgumentLane specs FLAT_SCRATCH = Some n \<and> sregs g' lo = read_lane st g v n \<and>
    sregs g' hi = read_lane st g v (n + 1) \<and> sregs g' sp = read_lane st g v StackPointerStoreLane"
  using assms by (simp add: shadow_loaded_def)

lemma shadow_after_switch:
  assumes pre: "switch_pre st src tgt"
    and sw: "emitCodeToSwitchSVS st specs src tgt = Some (Inr is)"
    and sh: "shadow_ok st specs src g" and set: "sets_shadow src tgt"
  shows "shadow_ok st specs tgt (exec_items st is g)"
proof -
  let ?g = "exec_items st is g"
  have arr: "arr_lane st tgt ?g n = arr_lane st src g n" for n
    by (rule arr_lane_switched) (rule switched_all [OF pre sw])
  show ?thesis
  proof (cases tgt)
    case (AGPRWithThreeSGPRSValueStorage a' hi' lo' sp')
    with set obtain a hi lo sp where src: "src = AGPRWithThreeSGPRSValueStorage a hi lo sp"
      by (cases src) auto
    with sw have s: "is = switch_AGPR3_AGPR3 st a hi lo sp a' hi' lo' sp'"
      by (simp add: AGPRWithThreeSGPRSValueStorage)
    have r: "is_sgpr hi'" "is_sgpr lo'" "is_sgpr sp'" "hi' \<noteq> lo'" "sp' \<noteq> hi'" "sp' \<noteq> lo'"
      "\<not> hasArchitectedFlatScratch st" "is_agpr a" "hi' \<noteq> lo" "hi' \<noteq> sp" "lo' \<noteq> sp" "is_agpr a'"
      using pre by (simp_all add: switch_pre_def AGPRWithThreeSGPRSValueStorage src)
    show ?thesis
      using sh r arr [unfolded AGPRWithThreeSGPRSValueStorage src]
      by (simp add: AGPRWithThreeSGPRSValueStorage src s exec_switch_AGPR3_moved(1) Let_def
          shadow_moved_def split: option.splits)
  next
    case (SpilledWithThreeSGPRsValueStorage hi' lo' sp')
    have r: "is_sgpr hi'" "is_sgpr lo'" "is_sgpr sp'" "hi' \<noteq> lo'" "sp' \<noteq> hi'" "sp' \<noteq> lo'"
      "\<not> hasArchitectedFlatScratch st"
      using pre by (simp_all add: switch_pre_def SpilledWithThreeSGPRsValueStorage)
    show ?thesis
    proof (cases src)
      case (VGPRStateValueArrayStorage v)
      with sw have s: "switch_VGPR_Spilled3 st specs v hi' lo' sp' = Inr is"
        by (simp add: SpilledWithThreeSGPRsValueStorage)
      then obtain n where n: "findArgumentLane specs FLAT_SCRATCH = Some n"
        by (auto simp: switch_VGPR_Spilled3_def err_bind_Inr_iff loadFlatScratch_Inr)
      have rd: "read_lane st g v k = arr_lane st src g k" for k
        by (simp add: read_lane_def arr_lane_def VGPRStateValueArrayStorage)
      show ?thesis
        using shadow_of_loaded [of ?g, OF _ n r(4-6)] exec_switch_VGPR_Spilled3 [OF s r n, of g]
          arr [unfolded SpilledWithThreeSGPRsValueStorage]
        by (simp add: SpilledWithThreeSGPRsValueStorage n rd)
    next
      case (TwoAGPRValueStorage a t)
      with sw have s: "switch_TwoAGPR_Spilled3 st specs a t hi' lo' sp' = Inr is"
        by (simp add: SpilledWithThreeSGPRsValueStorage)
      then obtain n where n: "findArgumentLane specs FLAT_SCRATCH = Some n"
        by (auto simp: switch_TwoAGPR_Spilled3_def err_bind_Inr_iff loadFlatScratch_Inr)
      have a: "is_agpr a" "is_agpr t" "a \<noteq> t"
        using pre by (simp_all add: switch_pre_def TwoAGPRValueStorage)
      have rd: "read_lane st g a k = arr_lane st src g k" for k
        by (simp add: read_lane_def arr_lane_def TwoAGPRValueStorage)
      show ?thesis
        using shadow_of_loaded [of ?g, OF _ n r(4-6)] exec_switch_TwoAGPR_Spilled3 [OF s r a n, of g]
          arr [unfolded SpilledWithThreeSGPRsValueStorage]
        by (simp add: SpilledWithThreeSGPRsValueStorage n rd)
    next
      case (AGPRWithThreeSGPRSValueStorage a hi lo sp)
      with sw have s: "is = switch_AGPR3_Spilled3 st a hi lo sp hi' lo' sp'"
        by (simp add: SpilledWithThreeSGPRsValueStorage)
      have q: "is_agpr a" "hi' \<noteq> lo" "hi' \<noteq> sp" "lo' \<noteq> sp"
        using pre by (simp_all add: switch_pre_def AGPRWithThreeSGPRSValueStorage
            SpilledWithThreeSGPRsValueStorage)
      show ?thesis
        using sh r arr [unfolded AGPRWithThreeSGPRSValueStorage SpilledWithThreeSGPRsValueStorage]
          exec_switch_AGPR3_moved(2) [OF r q, where g = g and hi = hi]
        by (simp add: AGPRWithThreeSGPRSValueStorage SpilledWithThreeSGPRsValueStorage s Let_def
            shadow_moved_def split: option.splits)
    next
      case (SpilledWithThreeSGPRsValueStorage hi lo sp)
      note src = this
      with sw have s: "is = switch_Spilled3_Spilled3 st hi lo sp hi' lo' sp'"
        by (simp add: \<open>tgt = SpilledWithThreeSGPRsValueStorage hi' lo' sp'\<close>)
      have q: "hi' \<noteq> lo" "hi' \<noteq> sp" "lo' \<noteq> sp"
        using pre by (simp_all add: switch_pre_def src
            \<open>tgt = SpilledWithThreeSGPRsValueStorage hi' lo' sp'\<close>)
      show ?thesis
        using sh r arr [unfolded src \<open>tgt = SpilledWithThreeSGPRsValueStorage hi' lo' sp'\<close>]
        by (simp add: src \<open>tgt = SpilledWithThreeSGPRsValueStorage hi' lo' sp'\<close> s
            switch_Spilled3_Spilled3_def exec_shadow_moved(2) [OF q] Let_def shadow_moved_def
            split: option.splits)
    next
      case (SpilledWithOneSGPRsValueStorage sp)
      with sw show ?thesis by (simp add: SpilledWithThreeSGPRsValueStorage)
    qed
  next
    case (SpilledWithOneSGPRsValueStorage sp')
    have r: "is_sgpr sp'"
      using pre by (simp_all add: switch_pre_def SpilledWithOneSGPRsValueStorage)
    show ?thesis
    proof (cases src)
      case (VGPRStateValueArrayStorage v)
      with sw have s: "is = switch_VGPR_Spilled1 st v sp'"
        by (simp add: SpilledWithOneSGPRsValueStorage)
      show ?thesis
        using arr [of StackPointerStoreLane]
        by (simp add: SpilledWithOneSGPRsValueStorage VGPRStateValueArrayStorage s
            exec_switch_VGPR_Spilled1 [OF r])
          (simp add: arr_lane_def read_lane_def)
    next
      case (SpilledWithOneSGPRsValueStorage sp)
      note src = this
      with sw have s: "is = switch_Spilled1_Spilled1 st sp sp'"
        by (simp add: \<open>tgt = SpilledWithOneSGPRsValueStorage sp'\<close>)
      show ?thesis
        using arr [of StackPointerStoreLane] sh
        by (simp add: src \<open>tgt = SpilledWithOneSGPRsValueStorage sp'\<close> s
            switch_Spilled1_Spilled1_def exec_items_smov)
    qed (use sw SpilledWithOneSGPRsValueStorage in simp_all)
  qed simp_all
qed

text \<open>The three switches into the AGPR scheme that leave every scalar register alone.\<close>

lemma no_shadow_switch:
  assumes pre: "switch_pre st src (AGPRWithThreeSGPRSValueStorage a hi lo sp)"
    and sw: "emitCodeToSwitchSVS st specs src (AGPRWithThreeSGPRSValueStorage a hi lo sp) = Some (Inr is)"
    and src: "\<not> sets_shadow src (AGPRWithThreeSGPRSValueStorage a hi lo sp)"
  shows "sregs (exec_items st is g) = sregs g"
proof (cases src)
  case (VGPRStateValueArrayStorage v)
  with sw show ?thesis by (auto simp: exec_switch_moves)
next
  case (TwoAGPRValueStorage b t)
  with sw pre show ?thesis by (auto simp: switch_pre_def exec_switch_TwoAGPR(2))
next
  case (AGPRWithThreeSGPRSValueStorage b h l s)
  with src show ?thesis by simp
next
  case (SpilledWithThreeSGPRsValueStorage h l s)
  with sw pre show ?thesis by (auto simp: switch_pre_def exec_switch_Spilled3(3))
next
  case (SpilledWithOneSGPRsValueStorage s)
  with sw show ?thesis by simp
qed

text \<open>Which pairs of schemes the code can switch between.\<close>

lemma switch_None_iff:
  "emitCodeToSwitchSVS st specs src tgt = None \<longleftrightarrow>
   (getScheme src = SVS_SPILLED_WITH_ONE_SGPR_architected_fs) \<noteq>
     (getScheme tgt = SVS_SPILLED_WITH_ONE_SGPR_architected_fs) \<and>
   getScheme src \<noteq> SVS_SINGLE_VGPR \<and> getScheme tgt \<noteq> SVS_SINGLE_VGPR"
  by (cases src; cases tgt) simp_all

lemma switch_Inl_iff:
  "(\<exists>e. emitCodeToSwitchSVS st specs src tgt = Some (Inl e)) \<longleftrightarrow>
   (getScheme src = SVS_SINGLE_VGPR \<or> getScheme src = SVS_TWO_AGPRs) \<and>
   getScheme tgt = SVS_SPILLED_WITH_THREE_SGPRS_absolute_fs \<and>
   findArgumentLane specs FLAT_SCRATCH = None"
  by (cases src; cases tgt)
    (auto simp: switch_VGPR_Spilled3_def switch_TwoAGPR_Spilled3_def err_bind_Inl_iff
      loadFlatScratchFromSVALanes_def split: option.splits)

subsection \<open>Properties\<close>

text \<open>
  C2: whatever the two schemes, after the emitted switch the array read under the target scheme is, on
  every lane, the array read under the source scheme before it.
\<close>

theorem switch_preserves_array:
  assumes "switch_pre st src tgt" "emitCodeToSwitchSVS st specs src tgt = Some (Inr is)"
    and "l < wave_size st"
  shows "sva_of st tgt (exec_items st is g) l = sva_of st src g l"
  using switched_all [OF assms(1,2), of g] assms(3) by (simp add: switched_def)

lemma switch_preserves_array_witness:
  "let st = mai_absolute_fs; src = TwoAGPRValueStorage (AGPR 0) (AGPR 1);
       tgt = SpilledWithThreeSGPRsValueStorage (SGPR 0) (SGPR 1) (SGPR 2);
       specs = run_specs_analysis st [] True
   in \<exists>is. emitCodeToSwitchSVS st specs src tgt = Some (Inr is) \<and>
        sva_of st tgt (exec_items st is start_gpu) 33 = sva_of st src start_gpu 33"
proof -
  let ?st = mai_absolute_fs and ?src = "TwoAGPRValueStorage (AGPR 0) (AGPR 1)"
    and ?tgt = "SpilledWithThreeSGPRsValueStorage (SGPR 0) (SGPR 1) (SGPR 2)"
  let ?specs = "run_specs_analysis ?st [] True"
  have "findArgumentLane ?specs FLAT_SCRATCH \<noteq> None"
    using argument_has_lane_iff_none [of ?st "[]" True] by (simp add: example_targets)
  then obtain code where c: "emitCodeToSwitchSVS ?st ?specs ?src ?tgt = Some (Inr code)"
    by (auto simp: switch_TwoAGPR_Spilled3_def loadFlatScratchFromSVALanes_def)
  have "sva_of ?st ?tgt (exec_items ?st code start_gpu) 33 = sva_of ?st ?src start_gpu 33"
    by (rule switch_preserves_array [OF _ c])
      (simp_all add: switch_pre_def example_targets wave_size_def)
  with c show ?thesis by (auto simp: Let_def)
qed

text \<open>
  C5: a switch leaves the application alone: exec mask and SCC, every scalar register that is not one
  of the target storage, every vector register outside the two storages (VGPR0, which serves as a
  courier, included) and all memory outside the spill slots.
\<close>

theorem switch_preserves_application:
  assumes "switch_pre st src tgt" "emitCodeToSwitchSVS st specs src tgt = Some (Inr is)"
  shows "switch_frame st src tgt g (exec_items st is g)"
  using switched_all [OF assms, of g] by (simp add: switched_def)

lemma switch_preserves_application_witness:
  "let src = AGPRWithThreeSGPRSValueStorage (AGPR 0) (SGPR 0) (SGPR 1) (SGPR 2);
       tgt = AGPRWithThreeSGPRSValueStorage (AGPR 1) (SGPR 4) (SGPR 5) (SGPR 6)
   in \<exists>is. emitCodeToSwitchSVS mai_absolute_fs (run_specs_analysis mai_absolute_fs [] True) src tgt =
        Some (Inr is) \<and>
      switch_frame mai_absolute_fs src tgt start_gpu (exec_items mai_absolute_fs is start_gpu)"
  using switch_preserves_application [of mai_absolute_fs
      "AGPRWithThreeSGPRSValueStorage (AGPR 0) (SGPR 0) (SGPR 1) (SGPR 2)"
      "AGPRWithThreeSGPRSValueStorage (AGPR 1) (SGPR 4) (SGPR 5) (SGPR 6)"
      "run_specs_analysis mai_absolute_fs [] True" _ start_gpu]
  by (simp add: Let_def switch_pre_def example_targets)

text \<open>
  every switch whose target is not the AGPR scheme, or whose source is, leaves the shadow SGPRs of
  the target scheme (flat scratch base and stack pointer) equal to the values the array holds.
\<close>

lemma switch_sets_up_shadow_registers:
  assumes "switch_pre st src tgt" "emitCodeToSwitchSVS st specs src tgt = Some (Inr is)"
    and "shadow_ok st specs src g" "sets_shadow src tgt"
  shows "shadow_ok st specs tgt (exec_items st is g)"
  using assms by (rule shadow_after_switch)

lemma switch_sets_up_shadow_registers_instance:
  "\<exists>is. emitCodeToSwitchSVS mai_architected_fs (run_specs_analysis mai_architected_fs [] True)
        (VGPRStateValueArrayStorage (VGPR 4)) (SpilledWithOneSGPRsValueStorage (SGPR 8)) = Some (Inr is) \<and>
      shadow_ok mai_architected_fs (run_specs_analysis mai_architected_fs [] True)
        (SpilledWithOneSGPRsValueStorage (SGPR 8)) (exec_items mai_architected_fs is start_gpu)"
  using switch_sets_up_shadow_registers [of mai_architected_fs "VGPRStateValueArrayStorage (VGPR 4)"
      "SpilledWithOneSGPRsValueStorage (SGPR 8)" "run_specs_analysis mai_architected_fs [] True" _
      start_gpu]
  by (simp add: switch_pre_def example_targets)

text \<open>
  the switches from a VGPR, from two AGPRs and from scratch memory into the AGPR scheme write no
  scalar register, so the flat scratch base and the stack pointer of the target scheme are whatever
  those SGPRs held before.
\<close>

lemma switch_into_AGPR_scheme_leaves_shadow_unset:
  assumes "switch_pre st src (AGPRWithThreeSGPRSValueStorage a hi lo sp)"
    and "emitCodeToSwitchSVS st specs src (AGPRWithThreeSGPRSValueStorage a hi lo sp) = Some (Inr is)"
    and "\<not> sets_shadow src (AGPRWithThreeSGPRSValueStorage a hi lo sp)"
  shows "sregs (exec_items st is g) = sregs g"
  using assms by (rule no_shadow_switch)

lemma switch_into_AGPR_scheme_leaves_shadow_unset_witness:
  "\<exists>is. emitCodeToSwitchSVS mai_absolute_fs (run_specs_analysis mai_absolute_fs [] True)
        (VGPRStateValueArrayStorage (VGPR 4))
        (AGPRWithThreeSGPRSValueStorage (AGPR 0) (SGPR 0) (SGPR 1) (SGPR 2)) = Some (Inr is) \<and>
      sregs (exec_items mai_absolute_fs is start_gpu) = sregs start_gpu"
  using switch_into_AGPR_scheme_leaves_shadow_unset [of mai_absolute_fs
      "VGPRStateValueArrayStorage (VGPR 4)" "AGPR 0" "SGPR 0" "SGPR 1" "SGPR 2"
      "run_specs_analysis mai_absolute_fs [] True" _ start_gpu]
  by (simp add: switch_pre_def example_targets)

text \<open>
  The only pairs of schemes without switch code are those of the one-SGPR spilled scheme with a
  scheme other than itself and the VGPR; and the only failure is a missing flat scratch lane on the
  way from a VGPR or two AGPRs to the three-SGPR spilled scheme.
\<close>

lemma switch_outcome:
  "(emitCodeToSwitchSVS st specs src tgt = None \<longleftrightarrow>
     (getScheme src = SVS_SPILLED_WITH_ONE_SGPR_architected_fs) \<noteq>
       (getScheme tgt = SVS_SPILLED_WITH_ONE_SGPR_architected_fs) \<and>
     getScheme src \<noteq> SVS_SINGLE_VGPR \<and> getScheme tgt \<noteq> SVS_SINGLE_VGPR) \<and>
   ((\<exists>e. emitCodeToSwitchSVS st specs src tgt = Some (Inl e)) \<longleftrightarrow>
     (getScheme src = SVS_SINGLE_VGPR \<or> getScheme src = SVS_TWO_AGPRs) \<and>
     getScheme tgt = SVS_SPILLED_WITH_THREE_SGPRS_absolute_fs \<and>
     findArgumentLane specs FLAT_SCRATCH = None)"
  by (simp only: switch_None_iff switch_Inl_iff simp_thms)

text \<open>
  On a target with MAI instructions and architected flat scratch the two-AGPR scheme and the
  one-SGPR spilled scheme are both supported, yet a switch between them is unreachable code.
\<close>

lemma supported_schemes_without_switch:
  assumes "hasMAIInsts st" "hasArchitectedFlatScratch st"
  shows "isSupportedOnSubTarget (getScheme (TwoAGPRValueStorage a t)) st \<and>
    isSupportedOnSubTarget (getScheme (SpilledWithOneSGPRsValueStorage sp)) st \<and>
    emitCodeToSwitchSVS st specs (TwoAGPRValueStorage a t) (SpilledWithOneSGPRsValueStorage sp) = None \<and>
    emitCodeToSwitchSVS st specs (SpilledWithOneSGPRsValueStorage sp) (TwoAGPRValueStorage a t) = None"
  using assms by simp

end
