(* ===== verification/SVA_Handoff.thy ===== *)
theory SVA_Handoff
  imports SVA_Switch
begin

text \<open>
  The V0-courier protocol that carries the state value array across trace functions
  (\<open>handOffSVA\<close> and \<open>pickOffSVA\<close> in
  \<open>src/lib/ToolCodeGen/StateValueArrayStorage.cpp\<close>): the caller spills VGPR0 to its
  emergency slot and loads the array into VGPR0, the callee stores VGPR0 into the storage of its
  entry block and restores VGPR0. The lemmas give the effect of each side and of the two in
  sequence, for the pairs of storages whose emergency slots coincide.
\<close>

subsection \<open>The two sides\<close>

definition VGPR_handOffSVA :: "gcn_subtarget \<Rightarrow> mcreg \<Rightarrow> mir_item list" where
  "VGPR_handOffSVA st StorageVGPR =
     map MI (emitMoveFromSGPRToVGPRLane (SGPR 0) StorageVGPR FramePointerRegSpillLane False) @
     map MI (emitMoveFromVGPRLaneToSGPR StorageVGPR (SGPR 0) StackPointerStoreLane False) @
     [SCCSafe (
        (emitStoreToEmergencyVGPRScratchSpillLocation (SGPR 0) (VGPR 0) False @
         emitMoveFromVGPRToVGPR StorageVGPR (VGPR 0) False) @
        emitExecMaskFlip st @
        (emitStoreToEmergencyVGPRScratchSpillLocation (SGPR 0) (VGPR 0) False @
         emitMoveFromVGPRToVGPR StorageVGPR (VGPR 0) False) @
        emitExecMaskFlip st)] @
     map MI (emitWaitCnt 0) @
     map MI (emitMoveFromVGPRLaneToSGPR StorageVGPR (SGPR 0) FramePointerRegSpillLane False)"

definition TwoAGPR_handOffSVA :: "gcn_subtarget \<Rightarrow> mcreg \<Rightarrow> mcreg \<Rightarrow> mir_item list" where
  "TwoAGPR_handOffSVA st a t = emitCodeToLoadSVA st (TwoAGPRValueStorage a t) (VGPR 0)"

definition AGPR3_handOffSVA :: "gcn_subtarget \<Rightarrow> mcreg \<Rightarrow> mcreg \<Rightarrow> mcreg \<Rightarrow> mcreg \<Rightarrow> mir_item list" where
  "AGPR3_handOffSVA st a hi lo sp = emitCodeToLoadSVA st (AGPRWithThreeSGPRSValueStorage a hi lo sp) (VGPR 0)"

definition Spilled3_handOffSVA :: "gcn_subtarget \<Rightarrow> mcreg \<Rightarrow> mcreg \<Rightarrow> mcreg \<Rightarrow> mir_item list" where
  "Spilled3_handOffSVA st hi lo sp = emitCodeToLoadSVA st (SpilledWithThreeSGPRsValueStorage hi lo sp) (VGPR 0)"

definition Spilled1_handOffSVA :: "gcn_subtarget \<Rightarrow> mcreg \<Rightarrow> mir_item list" where
  "Spilled1_handOffSVA st sp = emitCodeToLoadSVA st (SpilledWithOneSGPRsValueStorage sp) (VGPR 0)"

fun handOffSVA :: "gcn_subtarget \<Rightarrow> SVAStorage \<Rightarrow> mir_item list" where
  "handOffSVA st (VGPRStateValueArrayStorage v) = VGPR_handOffSVA st v"
| "handOffSVA st (TwoAGPRValueStorage a t) = TwoAGPR_handOffSVA st a t"
| "handOffSVA st (AGPRWithThreeSGPRSValueStorage a hi lo sp) = AGPR3_handOffSVA st a hi lo sp"
| "handOffSVA st (SpilledWithThreeSGPRsValueStorage hi lo sp) = Spilled3_handOffSVA st hi lo sp"
| "handOffSVA st (SpilledWithOneSGPRsValueStorage sp) = Spilled1_handOffSVA st sp"

definition VGPR_pickOffSVA ::
    "gcn_subtarget \<Rightarrow> StateValueArraySpecs \<Rightarrow> mcreg \<Rightarrow> sva_error + mir_item list" where
  "VGPR_pickOffSVA st specs StorageVGPR =
     Inr ([SCCSafe (
        (emitMoveFromVGPRToVGPR (VGPR 0) StorageVGPR False) @
        emitExecMaskFlip st @
        (emitMoveFromVGPRToVGPR (VGPR 0) StorageVGPR False) @
        emitExecMaskFlip st)] @
     map MI (emitMoveFromSGPRToVGPRLane (SGPR 0) StorageVGPR FramePointerRegSpillLane False) @
     map MI (emitMoveFromVGPRLaneToSGPR StorageVGPR (SGPR 0) StackPointerStoreLane False) @
     [SCCSafe (
        (emitLoadFromEmergencyVGPRScratchSpillLocation (SGPR 0) (VGPR 0)) @
        emitExecMaskFlip st @
        (emitLoadFromEmergencyVGPRScratchSpillLocation (SGPR 0) (VGPR 0)) @
        emitExecMaskFlip st)] @
     map MI (emitWaitCnt 0) @
     map MI (emitMoveFromVGPRLaneToSGPR StorageVGPR (SGPR 0) FramePointerRegSpillLane False))"

definition TwoAGPR_pickOffSVA ::
    "gcn_subtarget \<Rightarrow> StateValueArraySpecs \<Rightarrow> mcreg \<Rightarrow> mcreg \<Rightarrow> sva_error + mir_item list" where
  "TwoAGPR_pickOffSVA st specs a t =
     Inr (emitCodeToStoreSVA st (TwoAGPRValueStorage a t) (VGPR 0))"

definition AGPR3_pickOffSVA ::
    "gcn_subtarget \<Rightarrow> StateValueArraySpecs \<Rightarrow> mcreg \<Rightarrow> mcreg \<Rightarrow> mcreg \<Rightarrow> mcreg \<Rightarrow> sva_error + mir_item list" where
  "AGPR3_pickOffSVA st specs a hi lo sp =
     err_bind (loadFlatScratchFromSVALanes specs (VGPR 0) lo hi) (\<lambda>fs.
       Inr (loadStackPointerFromSVALanes (VGPR 0) sp @ fs @
            emitCodeToStoreSVA st (AGPRWithThreeSGPRSValueStorage a hi lo sp) (VGPR 0)))"

definition Spilled3_pickOffSVA ::
    "gcn_subtarget \<Rightarrow> StateValueArraySpecs \<Rightarrow> mcreg \<Rightarrow> mcreg \<Rightarrow> mcreg \<Rightarrow> sva_error + mir_item list" where
  "Spilled3_pickOffSVA st specs hi lo sp =
     err_bind (loadFlatScratchFromSVALanes specs (VGPR 0) lo hi) (\<lambda>fs.
       Inr (loadStackPointerFromSVALanes (VGPR 0) sp @ fs @
            emitCodeToStoreSVA st (SpilledWithThreeSGPRsValueStorage hi lo sp) (VGPR 0)))"

definition Spilled1_pickOffSVA ::
    "gcn_subtarget \<Rightarrow> StateValueArraySpecs \<Rightarrow> mcreg \<Rightarrow> sva_error + mir_item list" where
  "Spilled1_pickOffSVA st specs sp =
     Inr (loadStackPointerFromSVALanes (VGPR 0) sp @
          emitCodeToStoreSVA st (SpilledWithOneSGPRsValueStorage sp) (VGPR 0))"

fun pickOffSVA ::
    "gcn_subtarget \<Rightarrow> StateValueArraySpecs \<Rightarrow> SVAStorage \<Rightarrow> sva_error + mir_item list" where
  "pickOffSVA st specs (VGPRStateValueArrayStorage StorageVGPR) = VGPR_pickOffSVA st specs StorageVGPR"
| "pickOffSVA st specs (TwoAGPRValueStorage a t) = TwoAGPR_pickOffSVA st specs a t"
| "pickOffSVA st specs (AGPRWithThreeSGPRSValueStorage a hi lo sp) = AGPR3_pickOffSVA st specs a hi lo sp"
| "pickOffSVA st specs (SpilledWithThreeSGPRsValueStorage hi lo sp) = Spilled3_pickOffSVA st specs hi lo sp"
| "pickOffSVA st specs (SpilledWithOneSGPRsValueStorage sp) = Spilled1_pickOffSVA st specs sp"

lemmas handOff_simps = handOffSVA.simps VGPR_handOffSVA_def TwoAGPR_handOffSVA_def AGPR3_handOffSVA_def Spilled3_handOffSVA_def Spilled1_handOffSVA_def

lemmas pickOff_simps = pickOffSVA.simps VGPR_pickOffSVA_def TwoAGPR_pickOffSVA_def AGPR3_pickOffSVA_def Spilled3_pickOffSVA_def Spilled1_pickOffSVA_def

declare handOffSVA.simps [simp del] pickOffSVA.simps [simp del]

subsection \<open>Effect of each side\<close>

lemma fixed_lane_mod [simp]:
  "FramePointerRegSpillLane mod wave_size st = FramePointerRegSpillLane"
  "StackPointerStoreLane mod wave_size st = StackPointerStoreLane"
  "FramePointerRegSpillLane \<noteq> StackPointerStoreLane"
  "StackPointerStoreLane \<noteq> FramePointerRegSpillLane"
  "FramePointerRegSpillLane < wave_size st" "StackPointerStoreLane < wave_size st"
  by (simp_all add: fixed_lanes wave_size_def)

text \<open>SGPR0 parked in its lane of the array.\<close>

definition sgpr0_parked :: "mcreg \<Rightarrow> gpu \<Rightarrow> gpu" where
  "sgpr0_parked v g =
     g\<lparr>vregs := (vregs g)(v := (vregs g v)(FramePointerRegSpillLane := sregs g (SGPR 0)))\<rparr>"

lemma exec_items_writelane:
  "exec_items st (map MI (emitMoveFromSGPRToVGPRLane r v n k) @ xs) g =
     exec_items st xs (g\<lparr>vregs := (vregs g)(v := (vregs g v)(n mod wave_size st := sregs g r))\<rparr>)"
  by (simp add: emitMoveFromSGPRToVGPRLane_def getKillRegState_def addReg_def)

lemma exec_items_SCCSafe: "exec_items st ([SCCSafe c] @ xs) g = exec_items st xs (safe st c g)"
  by simp

lemma exec_items_wait: "exec_items st (map MI (emitWaitCnt n) @ xs) g = exec_items st xs g"
  by (simp add: emitWaitCnt_def)

lemma exec_items_readlane_last:
  "exec_items st (map MI (emitMoveFromVGPRLaneToSGPR v r n k)) g =
     g\<lparr>sregs := (sregs g)(r := read_lane st g v n)\<rparr>"
  using exec_items_readlane [of st v r n k "[]"] by simp

lemma exec_handOff_VGPR:
  assumes v: "is_vgpr v" "v \<noteq> VGPR 0"
  shows "exec_items st (handOffSVA st (VGPRStateValueArrayStorage v)) g =
    base_lanes st (fs_base_of st g)
      (\<lambda>w m. (w(VGPR 0 := w v), m(vgpr_slot (vregs g v StackPointerStoreLane) := w (VGPR 0))))
      (sgpr0_parked v g)"
proof -
  let ?f = "\<lambda>w m. (w(VGPR 0 := w v), m(vgpr_slot (vregs g v StackPointerStoreLane) := w (VGPR 0)))"
  let ?h = "(sgpr0_parked v g)\<lparr>sregs := (sregs g)(SGPR 0 := vregs g v StackPointerStoreLane)\<rparr>"
  have base: "fs_base_of st ?h = fs_base_of st g"
    by (simp add: fs_base_of_def sgpr0_parked_def)
  have "safe st ((emitStoreToEmergencyVGPRScratchSpillLocation (SGPR 0) (VGPR 0) False @
         emitMoveFromVGPRToVGPR v (VGPR 0) False) @ emitExecMaskFlip st @
        (emitStoreToEmergencyVGPRScratchSpillLocation (SGPR 0) (VGPR 0) False @
         emitMoveFromVGPRToVGPR v (VGPR 0) False) @ emitExecMaskFlip st) ?h =
      base_lanes st (fs_base_of st ?h) ?f ?h"
    by (rule safe_halves) (use v in \<open>auto simp: lane_calc\<close>)
  then have "exec_items st (handOffSVA st (VGPRStateValueArrayStorage v)) g =
      (let k = base_lanes st (fs_base_of st g) ?f ?h in
       k\<lparr>sregs := (sregs k)(SGPR 0 := read_lane st k v FramePointerRegSpillLane)\<rparr>)"
    unfolding handOff_simps exec_items_writelane exec_items_readlane exec_items_SCCSafe
      exec_items_wait exec_items_readlane_last base
    by (simp add: sgpr0_parked_def read_lane_def Let_def)
  also have "\<dots> = base_lanes st (fs_base_of st g) ?f (sgpr0_parked v g)"
    using v
    by (intro gpu_eqI)
      (auto simp: Let_def vregs_base_lanes scratch_base_lanes read_lane_def sgpr0_parked_def
        fun_eq_iff)
  finally show ?thesis .
qed

lemma exec_pickOff_VGPR:
  assumes v: "is_vgpr v" "v \<noteq> VGPR 0" and p: "pickOffSVA st specs (VGPRStateValueArrayStorage v) = Inr is"
  shows "exec_items st is g =
    base_lanes st (fs_base_of st g)
      (\<lambda>w m. (w(VGPR 0 := m (vgpr_slot (vregs g (VGPR 0) StackPointerStoreLane))), m))
      (sgpr0_parked v (base_lanes st (fs_base_of st g) (\<lambda>w m. (w(v := w (VGPR 0)), m)) g))"
proof -
  let ?k = "base_lanes st (fs_base_of st g) (\<lambda>w m. (w(v := w (VGPR 0)), m)) g"
  let ?sp = "vregs g (VGPR 0) StackPointerStoreLane"
  let ?f = "\<lambda>w m. (w(VGPR 0 := m (vgpr_slot ?sp)), m)"
  let ?h = "(sgpr0_parked v ?k)\<lparr>sregs := (sregs g)(SGPR 0 := ?sp)\<rparr>"
  have s1: "safe st (emitMoveFromVGPRToVGPR (VGPR 0) v False @ emitExecMaskFlip st @
        emitMoveFromVGPRToVGPR (VGPR 0) v False @ emitExecMaskFlip st) g = ?k"
    by (rule safe_halves) (simp_all add: lane_calc)
  have base: "fs_base_of st ?h = fs_base_of st g"
    by (simp add: fs_base_of_def sgpr0_parked_def)
  have s2: "safe st (emitLoadFromEmergencyVGPRScratchSpillLocation (SGPR 0) (VGPR 0) @
        emitExecMaskFlip st @ emitLoadFromEmergencyVGPRScratchSpillLocation (SGPR 0) (VGPR 0) @
        emitExecMaskFlip st) ?h = base_lanes st (fs_base_of st ?h) ?f ?h"
    by (rule safe_halves) (simp_all add: lane_calc)
  have lane: "vregs ?k v StackPointerStoreLane = ?sp"
    by (simp add: vregs_base_lanes)
  have "exec_items st is g =
      (let k = base_lanes st (fs_base_of st g) ?f ?h in
       k\<lparr>sregs := (sregs k)(SGPR 0 := read_lane st k v FramePointerRegSpillLane)\<rparr>)"
    using p [unfolded pickOff_simps, symmetric] s2
    unfolding base
    by (auto simp: exec_items_append s1 sgpr0_parked_def read_lane_def Let_def lane
        emitMoveFromSGPRToVGPRLane_def emitMoveFromVGPRLaneToSGPR_def getKillRegState_def addReg_def
        emitWaitCnt_def)
  also have "\<dots> = base_lanes st (fs_base_of st g) ?f (sgpr0_parked v ?k)"
    using v
    by (intro gpu_eqI)
      (auto simp: Let_def vregs_base_lanes scratch_base_lanes read_lane_def sgpr0_parked_def
        fun_eq_iff)
  finally show ?thesis .
qed

subsection \<open>The callee side\<close>

text \<open>Where the callee finds the application value of VGPR0, with the array in VGPR0.\<close>

fun parked :: "gcn_subtarget \<Rightarrow> StateValueArraySpecs \<Rightarrow> SVAStorage \<Rightarrow> gpu \<Rightarrow> nat \<Rightarrow> 32 word" where
  "parked st specs (TwoAGPRValueStorage a t) g l = vregs g t l"
| "parked st specs (AGPRWithThreeSGPRSValueStorage a hi lo sp) g l =
     (case findArgumentLane specs FLAT_SCRATCH of None \<Rightarrow> 0 | Some n \<Rightarrow>
      scratch g (read_lane st g (VGPR 0) (n + 1), read_lane st g (VGPR 0) n) l
        (vgpr_slot (read_lane st g (VGPR 0) StackPointerStoreLane)))"
| "parked st specs (SpilledWithThreeSGPRsValueStorage hi lo sp) g l =
     (case findArgumentLane specs FLAT_SCRATCH of None \<Rightarrow> 0 | Some n \<Rightarrow>
      scratch g (read_lane st g (VGPR 0) (n + 1), read_lane st g (VGPR 0) n) l
        (vgpr_slot (read_lane st g (VGPR 0) StackPointerStoreLane)))"
| "parked st specs _ g l =
     scratch g (fs_base_of st g) l (vgpr_slot (read_lane st g (VGPR 0) StackPointerStoreLane))"

text \<open>The array that the courier delivers: a storage VGPR has SGPR0 in its spill lane.\<close>

fun delivered :: "SVAStorage \<Rightarrow> gpu \<Rightarrow> (nat \<Rightarrow> 32 word) \<Rightarrow> nat \<Rightarrow> 32 word" where
  "delivered (VGPRStateValueArrayStorage v) g arr l =
     (if l = FramePointerRegSpillLane then sregs g (SGPR 0) else arr l)"
| "delivered _ g arr l = arr l"

definition courier_frame :: "SVAStorage \<Rightarrow> gpu \<Rightarrow> gpu \<Rightarrow> bool" where
  "courier_frame s g g' \<longleftrightarrow>
     exec_mask g' = exec_mask g \<and> scc g' = scc g \<and>
     (\<forall>r. r \<in> set (getAllStorageRegisters s []) \<or> sregs g' r = sregs g r) \<and>
     (\<forall>r l. r = VGPR 0 \<or> r \<in> set (getAllStorageRegisters s []) \<or> vregs g' r l = vregs g r l)"

definition picked_off ::
    "gcn_subtarget \<Rightarrow> StateValueArraySpecs \<Rightarrow> SVAStorage \<Rightarrow> gpu \<Rightarrow> gpu \<Rightarrow> bool" where
  "picked_off st specs s g g' \<longleftrightarrow>
     (\<forall>l<wave_size st. vregs g' (VGPR 0) l = parked st specs s g l \<and>
        sva_of st s g' l = delivered s g (vregs g (VGPR 0)) l) \<and>
     courier_frame s g g' \<and> shadow_ok st specs s g'"

lemma loadSP_then:
  "exec_items st (loadStackPointerFromSVALanes v sp @ xs) g =
     exec_items st xs (g\<lparr>sregs := (sregs g)(sp := read_lane st g v StackPointerStoreLane)\<rparr>)"
  by (simp add: loadStackPointerFromSVALanes_def exec_items_readlane)

lemma picked_off_three:
  assumes s: "s = AGPRWithThreeSGPRSValueStorage a hi lo sp \<or> s = SpilledWithThreeSGPRsValueStorage hi lo sp"
    and wf: "storage_wf s" "storage_target st s" and p: "pickOffSVA st specs s = Inr is"
  shows "picked_off st specs s g (exec_items st is g)"
proof -
  from p s obtain fs where fs: "loadFlatScratchFromSVALanes specs (VGPR 0) lo hi = Inr fs"
    and is_eq: "is = loadStackPointerFromSVALanes (VGPR 0) sp @ fs @ emitCodeToStoreSVA st s (VGPR 0)"
    by (auto simp: pickOff_simps err_bind_Inr_iff)
  then obtain n where n: "findArgumentLane specs FLAT_SCRATCH = Some n"
    and fs': "fs = map MI (emitMoveFromVGPRLaneToSGPR (VGPR 0) lo n False) @
           map MI (emitMoveFromVGPRLaneToSGPR (VGPR 0) hi (n + 1) False)"
    by (auto simp: loadFlatScratch_Inr)
  have r: "is_sgpr hi" "is_sgpr lo" "is_sgpr sp" "hi \<noteq> lo" "sp \<noteq> hi" "sp \<noteq> lo"
    using wf s by auto
  let ?h = "shadow_loaded st g (VGPR 0) n hi lo sp"
  have "exec_items st is g = exec_items st (emitCodeToStoreSVA st s (VGPR 0)) ?h"
    using r by (simp add: is_eq fs' loadSP_then exec_items_readlane shadow_loaded_def read_lane_def
        fun_upd_twist)
  also have "\<dots> = base_lanes st (slot_base st s ?h) (store_lane ?h s (VGPR 0)) ?h"
    by (rule exec_store [OF wf]) simp
  finally have eq: "exec_items st is g =
      base_lanes st (slot_base st s ?h) (store_lane ?h s (VGPR 0)) ?h" .
  have regs: "sregs ?h hi = read_lane st g (VGPR 0) (n + 1)" "sregs ?h lo = read_lane st g (VGPR 0) n"
    "sregs ?h sp = read_lane st g (VGPR 0) StackPointerStoreLane"
    using r by (simp_all add: shadow_loaded_def)
  have others: "q \<noteq> hi \<Longrightarrow> q \<noteq> lo \<Longrightarrow> q \<noteq> sp \<Longrightarrow> sregs ?h q = sregs g q" for q
    by (simp add: shadow_loaded_def)
  from s show ?thesis
  proof
    assume s: "s = AGPRWithThreeSGPRSValueStorage a hi lo sp"
    with wf have "is_agpr a" by simp
    then show ?thesis
      unfolding picked_off_def courier_frame_def eq s
      using n regs others
      by (auto simp: vregs_base_lanes arr_lane_def read_lane_def Let_def elim!: is_agprE)
  next
    assume s: "s = SpilledWithThreeSGPRsValueStorage hi lo sp"
    show ?thesis
      unfolding picked_off_def courier_frame_def eq s
      using n regs others
      by (auto simp: vregs_base_lanes scratch_base_lanes arr_lane_def read_lane_def Let_def)
  qed
qed

lemma picked_off_all:
  assumes wf: "storage_wf s" "storage_target st s" "getStateValueStorageReg s \<noteq> VGPR 0"
    and p: "pickOffSVA st specs s = Inr is"
  shows "picked_off st specs s g (exec_items st is g)"
proof (cases s)
  case (VGPRStateValueArrayStorage v)
  then have v: "is_vgpr v" "v \<noteq> VGPR 0" using wf by simp_all
  note eq = exec_pickOff_VGPR [OF v p [unfolded VGPRStateValueArrayStorage], of g]
  show ?thesis
    unfolding VGPRStateValueArrayStorage picked_off_def courier_frame_def eq
    using v by (auto simp: vregs_base_lanes scratch_base_lanes sgpr0_parked_def read_lane_def)
next
  case (TwoAGPRValueStorage a t)
  with p have is_eq: "is = emitCodeToStoreSVA st (TwoAGPRValueStorage a t) (VGPR 0)"
    by (simp add: pickOff_simps)
  have r: "is_agpr a" "is_agpr t" "a \<noteq> t" using wf by (simp_all add: TwoAGPRValueStorage)
  then show ?thesis
    unfolding TwoAGPRValueStorage is_eq picked_off_def courier_frame_def
    by (subst exec_store; auto simp: exec_store vregs_base_lanes elim!: is_agprE)
next
  case (AGPRWithThreeSGPRSValueStorage a hi lo sp)
  then show ?thesis using picked_off_three wf p by blast
next
  case (SpilledWithThreeSGPRsValueStorage hi lo sp)
  then show ?thesis using picked_off_three wf p by blast
next
  case (SpilledWithOneSGPRsValueStorage sp)
  note s = this
  let ?h = "g\<lparr>sregs := (sregs g)(sp := read_lane st g (VGPR 0) StackPointerStoreLane)\<rparr>"
  have sp: "is_sgpr sp" using wf by (simp add: s)
  then have base: "fs_base_of st ?h = fs_base_of st g"
    by (auto simp: fs_base_of_def elim!: is_sgprE)
  have "exec_items st is g = exec_items st (emitCodeToStoreSVA st s (VGPR 0)) ?h"
    using p by (auto simp: s pickOff_simps loadSP_then)
  also have "\<dots> = base_lanes st (slot_base st s ?h) (store_lane ?h s (VGPR 0)) ?h"
    by (rule exec_store) (use wf in simp_all)
  finally have eq: "exec_items st is g =
      base_lanes st (slot_base st s ?h) (store_lane ?h s (VGPR 0)) ?h" .
  show ?thesis
    unfolding picked_off_def courier_frame_def eq s
    using base by (auto simp: vregs_base_lanes scratch_base_lanes arr_lane_def read_lane_def)
qed

subsection \<open>The caller side\<close>

text \<open>The pairs of caller and callee storages whose place for VGPR0 is the same.\<close>

fun courier_compatible :: "SVAStorage \<Rightarrow> SVAStorage \<Rightarrow> bool" where
  "courier_compatible (VGPRStateValueArrayStorage v) (VGPRStateValueArrayStorage v') = True"
| "courier_compatible (VGPRStateValueArrayStorage v) (SpilledWithOneSGPRsValueStorage sp') = True"
| "courier_compatible (SpilledWithOneSGPRsValueStorage sp) (VGPRStateValueArrayStorage v') = True"
| "courier_compatible (SpilledWithOneSGPRsValueStorage sp) (SpilledWithOneSGPRsValueStorage sp') = True"
| "courier_compatible (TwoAGPRValueStorage a t) (TwoAGPRValueStorage a' t') = (t' = t)"
| "courier_compatible (AGPRWithThreeSGPRSValueStorage a hi lo sp)
     (AGPRWithThreeSGPRSValueStorage a' hi' lo' sp') = True"
| "courier_compatible (AGPRWithThreeSGPRSValueStorage a hi lo sp)
     (SpilledWithThreeSGPRsValueStorage hi' lo' sp') = True"
| "courier_compatible (SpilledWithThreeSGPRsValueStorage hi lo sp)
     (AGPRWithThreeSGPRSValueStorage a' hi' lo' sp') = True"
| "courier_compatible (SpilledWithThreeSGPRsValueStorage hi lo sp)
     (SpilledWithThreeSGPRsValueStorage hi' lo' sp') = True"
| "courier_compatible _ _ = False"

definition handed_off ::
    "gcn_subtarget \<Rightarrow> StateValueArraySpecs \<Rightarrow> SVAStorage \<Rightarrow> SVAStorage \<Rightarrow> gpu \<Rightarrow> gpu \<Rightarrow> bool" where
  "handed_off st specs s s' g g' \<longleftrightarrow>
     (\<forall>l<wave_size st. vregs g' (VGPR 0) l = delivered s g (sva_of st s g) l \<and>
        parked st specs s' g' l = vregs g (VGPR 0) l) \<and>
     sregs g' = sregs g \<and> exec_mask g' = exec_mask g \<and> scc g' = scc g \<and>
     (\<forall>r l. r = VGPR 0 \<or> r \<in> set (getAllStorageRegisters s []) \<or> vregs g' r l = vregs g r l)"

lemma handOff_load:
  assumes "requiresLoadAndStoreBeforeUse s"
  shows "handOffSVA st s = emitCodeToLoadSVA st s (VGPR 0)"
  using assms by (cases s) (simp_all add: handOff_simps)

lemma exec_handOff_load:
  assumes "requiresLoadAndStoreBeforeUse s" "storage_wf s" "storage_target st s"
  shows "exec_items st (handOffSVA st s) g =
    base_lanes st (slot_base st s g) (load_lane g s (VGPR 0)) g"
  unfolding handOff_load [OF assms(1)] by (rule exec_load [OF assms(2,3)]) simp

lemma handed_off_three:
  assumes s: "s = AGPRWithThreeSGPRSValueStorage a hi lo sp \<or> s = SpilledWithThreeSGPRsValueStorage hi lo sp"
    and wf: "storage_wf s" "storage_target st s" and c: "courier_compatible s s'"
    and sh: "shadow_ok st specs s g"
  shows "handed_off st specs s s' g (exec_items st (handOffSVA st s) g)"
proof -
  have eq: "exec_items st (handOffSVA st s) g =
      base_lanes st (slot_base st s g) (load_lane g s (VGPR 0)) g"
    by (rule exec_handOff_load) (use s wf in auto)
  from sh s obtain n where n: "findArgumentLane specs FLAT_SCRATCH = Some n"
    and regs: "sregs g lo = arr_lane st s g n" "sregs g hi = arr_lane st s g (n + 1)"
      "sregs g sp = arr_lane st s g StackPointerStoreLane"
    by (auto simp: Let_def split: option.splits)
  from s c obtain a' hi' lo' sp' where s': "s' = AGPRWithThreeSGPRSValueStorage a' hi' lo' sp' \<or>
      s' = SpilledWithThreeSGPRsValueStorage hi' lo' sp'"
    by (cases s') auto
  let ?g = "base_lanes st (slot_base st s g) (load_lane g s (VGPR 0)) g"
  have cell: "vregs ?g (VGPR 0) l = sva_of st s g l" if "l < wave_size st" for l
    using s that by (auto simp: vregs_base_lanes)
  then have rd: "read_lane st ?g (VGPR 0) k = arr_lane st s g k" for k
    by (simp add: read_lane_def arr_lane_def)
  have "scratch ?g (sregs g hi, sregs g lo) l (vgpr_slot (sregs g sp)) = vregs g (VGPR 0) l"
    if "l < wave_size st" for l
    using s that by (auto simp: scratch_base_lanes)
  then have park: "parked st specs s' ?g l = vregs g (VGPR 0) l" if "l < wave_size st" for l
    using s' n rd regs that by auto
  have dl: "delivered s g arr l = arr l" for arr l
    using s by auto
  have rest: "r = VGPR 0 \<or> r \<in> set (getAllStorageRegisters s []) \<or> vregs ?g r l = vregs g r l"
    for r l
    using s by (auto simp: vregs_base_lanes)
  show ?thesis
    unfolding handed_off_def eq using cell park dl rest by simp
qed

lemma handed_off_all:
  assumes wf: "storage_wf s" "storage_target st s" "getStateValueStorageReg s \<noteq> VGPR 0"
    and c: "courier_compatible s s'" and sh: "shadow_ok st specs s g"
  shows "handed_off st specs s s' g (exec_items st (handOffSVA st s) g)"
proof (cases s)
  case (VGPRStateValueArrayStorage v)
  then have v: "is_vgpr v" "v \<noteq> VGPR 0" using wf by simp_all
  have fs: "fs_base_of st (sgpr0_parked v g) = fs_base_of st g"
    by (simp add: fs_base_of_def sgpr0_parked_def)
  from c VGPRStateValueArrayStorage obtain v' sp' where
    "s' = VGPRStateValueArrayStorage v' \<or> s' = SpilledWithOneSGPRsValueStorage sp'"
    by (cases s') auto
  then show ?thesis
    unfolding VGPRStateValueArrayStorage handed_off_def exec_handOff_VGPR [OF v]
    using v fs
    by (auto simp: vregs_base_lanes scratch_base_lanes sgpr0_parked_def read_lane_def)
next
  case (TwoAGPRValueStorage a t)
  have r: "is_agpr a" "is_agpr t" "a \<noteq> t" using wf by (simp_all add: TwoAGPRValueStorage)
  from c TwoAGPRValueStorage obtain a' where s': "s' = TwoAGPRValueStorage a' t"
    by (cases s') auto
  have eq: "exec_items st (handOffSVA st s) g =
      base_lanes st (slot_base st s g) (load_lane g s (VGPR 0)) g"
    by (rule exec_handOff_load) (use TwoAGPRValueStorage wf in simp_all)
  show ?thesis
    unfolding handed_off_def eq s' unfolding TwoAGPRValueStorage
    using r by (auto simp: vregs_base_lanes elim!: is_agprE)
next
  case (AGPRWithThreeSGPRSValueStorage a hi lo sp)
  then show ?thesis using handed_off_three wf c sh by blast
next
  case (SpilledWithThreeSGPRsValueStorage hi lo sp)
  then show ?thesis using handed_off_three wf c sh by blast
next
  case (SpilledWithOneSGPRsValueStorage sp)
  from c SpilledWithOneSGPRsValueStorage obtain v' sp' where s':
    "s' = VGPRStateValueArrayStorage v' \<or> s' = SpilledWithOneSGPRsValueStorage sp'"
    by (cases s') auto
  have eq: "exec_items st (handOffSVA st s) g =
      base_lanes st (slot_base st s g) (load_lane g s (VGPR 0)) g"
    by (rule exec_handOff_load) (use SpilledWithOneSGPRsValueStorage wf in simp_all)
  show ?thesis
    unfolding handed_off_def eq using s' sh unfolding SpilledWithOneSGPRsValueStorage
    by (auto simp: vregs_base_lanes scratch_base_lanes arr_lane_def read_lane_def)
qed

subsection \<open>The call\<close>



end
