(* ===== verification/Target_Patcher.thy ===== *)
theory Target_Patcher
  imports SCC_Safe_CFG SVA_Handoff SVA_Locations
begin

text \<open>
  The two passes of \<open>src/lib/ToolCodeGen/TargetModulePatcherPass.cpp\<close> that place storage
  code into the application: \<open>emitSVSSwitchesForMF\<close> puts the switches between the storages at the
  boundaries of the segments and on the edges of the control-flow graph, and
  \<open>emitPartialCallgraphSVSHandoffWraps\<close> puts the two sides of the courier protocol at function entries
  and at calls. Both work on machine functions, by the insertions that \<open>SCC_Safe_CFG\<close> models; loops over
  the blocks of a function go along the layout as it is after each insertion. The slot indexes and the
  properties of the application's opcodes are arguments.
\<close>

subsection \<open>Machine functions under construction\<close>

text \<open>
  \<open>slot_app\<close> is \<open>getInstructionFromIndex\<close>, \<open>is_term\<close> is \<open>isTerminator\<close> and \<open>is_transfer\<close> is
  \<open>isCall\<close> or \<open>isIndirectBranch\<close>.
\<close>

record patch_env =
  P_target :: gcn_subtarget
  slot_app :: "nat \<Rightarrow> nat option"
  is_term :: "nat \<Rightarrow> bool"
  is_transfer :: "nat \<Rightarrow> bool"

datatype patch_error = SwitchUnreachable | StorageError sva_error | NoSegment | NoBlock

fun terminator :: "patch_env \<Rightarrow> block_inst \<Rightarrow> bool" where
  "terminator E (Emitted i) = is_branch i"
| "terminator E (App n t) = is_term E n"

text \<open>\<open>getFirstTerminator\<close>: the first of the terminators at the end of the block.\<close>

definition getFirstTerminator :: "patch_env \<Rightarrow> block_inst list \<Rightarrow> nat" where
  "getFirstTerminator E is = length is - length (takeWhile (terminator E) (rev is))"

fun app_index :: "nat \<Rightarrow> block_inst list \<Rightarrow> nat option" where
  "app_index n [] = None"
| "app_index n (App m t # is) = (if m = n then Some 0 else map_option Suc (app_index n is))"
| "app_index n (Emitted i # is) = map_option Suc (app_index n is)"

definition block_insts :: "mfun \<Rightarrow> nat \<Rightarrow> block_inst list" where
  "block_insts mf b = (case find_block b (mf_blocks mf) of None \<Rightarrow> [] | Some B \<Rightarrow> mb_insts B)"

definition block_succs :: "mfun \<Rightarrow> nat \<Rightarrow> nat list" where
  "block_succs mf b = (case find_block b (mf_blocks mf) of None \<Rightarrow> [] | Some B \<Rightarrow> mb_succs B)"

definition block_preds :: "mfun \<Rightarrow> nat \<Rightarrow> nat list" where
  "block_preds mf b = map mb_id (filter (\<lambda>B. b \<in> set (mb_succs B)) (mf_blocks mf))"

definition upd_block :: "nat \<Rightarrow> (mblock \<Rightarrow> mblock) \<Rightarrow> mfun \<Rightarrow> mfun" where
  "upd_block b f mf = mf\<lparr>mf_blocks := replace_block b (\<lambda>B. [f B]) (mf_blocks mf)\<rparr>"

text \<open>A loop over the blocks in layout order; an insertion may put new blocks before the next one.\<close>

partial_function (option) for_blocks ::
    "(nat \<Rightarrow> mfun \<Rightarrow> patch_error + mfun) \<Rightarrow> nat option \<Rightarrow> mfun \<Rightarrow> (patch_error + mfun) option" where
  "for_blocks body x mf =
     (case x of
        None \<Rightarrow> Some (Inr mf)
      | Some b \<Rightarrow>
          (case body b mf of
             Inl e \<Rightarrow> Some (Inl e)
           | Inr mf' \<Rightarrow> for_blocks body (next_block b (mf_blocks mf')) mf'))"

definition first_block :: "mfun \<Rightarrow> nat option" where
  "first_block mf = (case mf_blocks mf of [] \<Rightarrow> None | B # _ \<Rightarrow> Some (mb_id B))"

subsection \<open>Switches at segment boundaries\<close>

definition emit_switch ::
    "patch_env \<Rightarrow> StateValueArraySpecs \<Rightarrow> SVAStorage \<Rightarrow> SVAStorage \<Rightarrow> nat \<times> nat \<Rightarrow> mfun \<Rightarrow> patch_error + mfun" where
  "emit_switch E specs src tgt ip mf =
     (case emitCodeToSwitchSVS (P_target E) specs src tgt of
        None \<Rightarrow> Inl SwitchUnreachable
      | Some (Inl e) \<Rightarrow> Inl (StorageError e)
      | Some (Inr its) \<Rightarrow> Inr (fst (insert_items ip its mf)))"

text \<open>The instruction at the boundary, when it is in the block, else the first terminator.\<close>

definition switch_point :: "patch_env \<Rightarrow> nat \<Rightarrow> nat \<Rightarrow> mfun \<Rightarrow> nat" where
  "switch_point E b boundary mf =
     (case slot_app E boundary of
        None \<Rightarrow> getFirstTerminator E (block_insts mf b)
      | Some n \<Rightarrow>
          (case app_index n (block_insts mf b) of
             None \<Rightarrow> getFirstTerminator E (block_insts mf b)
           | Some k \<Rightarrow> k))"

fun switch_boundaries ::
    "patch_env \<Rightarrow> StateValueArraySpecs \<Rightarrow> nat \<Rightarrow> segment list \<Rightarrow> mfun \<Rightarrow> patch_error + mfun" where
  "switch_boundaries E specs b ((s, e, p) # (s', e', p') # segs) mf =
     err_bind
       (if storage_eq (snd p) (snd p') then Inr mf
        else emit_switch E specs (snd p) (snd p') (b, switch_point E b s' mf) mf)
       (switch_boundaries E specs b ((s', e', p') # segs))"
| "switch_boundaries E specs b segs mf = Inr mf"

definition within_block ::
    "patch_env \<Rightarrow> StateValueArraySpecs \<Rightarrow> sv_locations \<Rightarrow> nat \<Rightarrow> mfun \<Rightarrow> patch_error + mfun" where
  "within_block E specs L b mf =
     (let Segments = getStorageIntervals L b
      in if length Segments < 2 then Inr mf else switch_boundaries E specs b Segments mf)"

subsection \<open>Switches on edges\<close>

text \<open>The target operands of the terminators of a block, with a branch appended when none was one.\<close>

fun retarget :: "nat \<Rightarrow> nat \<Rightarrow> block_inst \<Rightarrow> block_inst" where
  "retarget M S (App n t) = App n (if t = Some M then Some S else t)"
| "retarget M S (Emitted (S_BRANCH t)) = Emitted (S_BRANCH (if t = M then S else t))"
| "retarget M S (Emitted (S_CBRANCH_SCC1 t)) = Emitted (S_CBRANCH_SCC1 (if t = M then S else t))"
| "retarget M S i = i"

definition redirect_terminators :: "patch_env \<Rightarrow> nat \<Rightarrow> nat \<Rightarrow> block_inst list \<Rightarrow> block_inst list" where
  "redirect_terminators E M S is =
     (let k = getFirstTerminator E is;
          new = take k is @ map (retarget M S) (drop k is)
      in if new \<noteq> is then new else is @ [Emitted (S_BRANCH S)])"

definition split_critical_edge ::
    "patch_env \<Rightarrow> StateValueArraySpecs \<Rightarrow> SVAStorage \<Rightarrow> SVAStorage \<Rightarrow> nat \<Rightarrow> nat \<Rightarrow> mfun \<Rightarrow> patch_error + mfun" where
  "split_critical_edge E specs TailSVS HeadSVS P M mf =
     (let S = mf_next mf;
          mf1 = mf\<lparr>mf_blocks := mf_blocks mf @ [\<lparr>mb_id = S, mb_insts = [], mb_succs = [M]\<rparr>], mf_next := Suc S\<rparr>;
          mf2 = upd_block P (\<lambda>B. B\<lparr>mb_insts := redirect_terminators E M S (mb_insts B),
                  mb_succs := map (\<lambda>x. if x = M then S else x) (mb_succs B)\<rparr>) mf1
      in err_bind (emit_switch E specs TailSVS HeadSVS (S, 0) mf2) (\<lambda>mf3.
           Inr (upd_block S (\<lambda>B. B\<lparr>mb_insts := mb_insts B @ [Emitted (S_BRANCH M)]\<rparr>) mf3)))"

definition reconcile_edge ::
    "patch_env \<Rightarrow> StateValueArraySpecs \<Rightarrow> sv_locations \<Rightarrow> SVAStorage \<Rightarrow> nat \<Rightarrow> nat \<Rightarrow> mfun \<Rightarrow> patch_error + mfun" where
  "reconcile_edge E specs L HeadSVS M P mf =
     (case rev (getStorageIntervals L P) of
        [] \<Rightarrow> Inr mf
      | (s, e, p) # _ \<Rightarrow>
          let TailSVS = snd p in
          if storage_eq TailSVS HeadSVS then Inr mf
          else if length (block_succs mf P) = 1
          then emit_switch E specs TailSVS HeadSVS (P, getFirstTerminator E (block_insts mf P)) mf
          else if length (block_preds mf M) = 1 then emit_switch E specs TailSVS HeadSVS (M, 0) mf
          else split_critical_edge E specs TailSVS HeadSVS P M mf)"

definition reconcile_block ::
    "patch_env \<Rightarrow> StateValueArraySpecs \<Rightarrow> sv_locations \<Rightarrow> nat \<Rightarrow> mfun \<Rightarrow> patch_error + mfun" where
  "reconcile_block E specs L M mf =
     (case getStorageIntervals L M of
        [] \<Rightarrow> Inr mf
      | (s, e, p) # _ \<Rightarrow> err_fold (reconcile_edge E specs L (snd p) M) (block_preds mf M) mf)"

definition emitSVSSwitchesForMF ::
    "patch_env \<Rightarrow> StateValueArraySpecs \<Rightarrow> sv_locations \<Rightarrow> mfun \<Rightarrow> (patch_error + mfun) option" where
  "emitSVSSwitchesForMF E specs L mf =
     (case for_blocks (within_block E specs L) (first_block mf) mf of
        None \<Rightarrow> None
      | Some r \<Rightarrow> Some (err_bind r (\<lambda>mf. err_fold (reconcile_block E specs L) (mf_ids mf) mf)))"

subsection \<open>The courier protocol\<close>

text \<open>Position of the last call or indirect branch of a block.\<close>

fun last_transfer :: "patch_env \<Rightarrow> block_inst list \<Rightarrow> nat option" where
  "last_transfer E [] = None"
| "last_transfer E (i # is) =
     (case last_transfer E is of
        Some k \<Rightarrow> Some (Suc k)
      | None \<Rightarrow> (case i of App n t \<Rightarrow> if is_transfer E n then Some 0 else None | Emitted j \<Rightarrow> None))"

definition pick_off_entry ::
    "patch_env \<Rightarrow> StateValueArraySpecs \<Rightarrow> sv_locations \<Rightarrow> bool \<Rightarrow> mfun \<Rightarrow> patch_error + mfun" where
  "pick_off_entry E specs L is_kernel mf =
     (case mf_blocks mf of
        [] \<Rightarrow> Inr mf
      | Entry # _ \<Rightarrow>
          if is_kernel \<or> mb_insts Entry = [] then Inr mf
          else (case getStorageIntervals L (mb_id Entry) of
                  [] \<Rightarrow> Inr mf
                | (s, e, p) # _ \<Rightarrow>
                    (case pickOffSVA (P_target E) specs (snd p) of
                       Inl err \<Rightarrow> Inl (StorageError err)
                     | Inr its \<Rightarrow> Inr (fst (insert_items (mb_id Entry, 0) its mf)))))"

definition hand_off_block :: "patch_env \<Rightarrow> sv_locations \<Rightarrow> nat \<Rightarrow> mfun \<Rightarrow> patch_error + mfun" where
  "hand_off_block E L b mf =
     (case last_transfer E (block_insts mf b) of
        None \<Rightarrow> Inr mf
      | Some k \<Rightarrow>
          (case rev (getStorageIntervals L b) of
             [] \<Rightarrow> Inl NoSegment
           | (s, e, p) # _ \<Rightarrow> Inr (fst (insert_items (b, k) (handOffSVA (P_target E) (snd p)) mf))))"

definition emitPartialCallgraphSVSHandoffWraps ::
    "patch_env \<Rightarrow> StateValueArraySpecs \<Rightarrow> sv_locations \<Rightarrow> bool \<Rightarrow> mfun \<Rightarrow> (patch_error + mfun) option" where
  "emitPartialCallgraphSVSHandoffWraps E specs L is_kernel mf =
     (if hasFixedStorageAcrossAllFunctions L then Some (Inr mf)
      else (case pick_off_entry E specs L is_kernel mf of
              Inl e \<Rightarrow> Some (Inl e)
            | Inr mf' \<Rightarrow> for_blocks (hand_off_block E L) (first_block mf') mf'))"

subsection \<open>Layout after an insertion\<close>

definition only_emitted :: "block_inst list \<Rightarrow> bool" where
  "only_emitted is \<longleftrightarrow> (\<forall>n t. App n t \<notin> set is)"

lemma only_emitted_simps [simp]:
  "only_emitted []" "only_emitted (Emitted i # is) \<longleftrightarrow> only_emitted is"
  "only_emitted (is @ js) \<longleftrightarrow> only_emitted is \<and> only_emitted js" "only_emitted (map Emitted c)"
  by (auto simp: only_emitted_def)

fun splits :: "mir_item \<Rightarrow> bool" where
  "splits (MI i) = False"
| "splits (SCCSafe c) = True"

text \<open>
  An emission without SCC-safe sequences stays in the block. With one, the block ends in emitted code,
  and the rest of its instructions follows the emission in the last of the new blocks.
\<close>

lemma insert_items_layout:
  assumes "mf_blocks mf = xs @ B # ys" and "mf_wf mf" and "mb_insts B = p @ q"
  shows "\<exists>mf1 ip E e. insert_items (mb_id B, length p) its mf = (mf1, ip) \<and> mf_wf mf1 \<and> mf_next mf \<le> mf_next mf1 \<and>
    mb_id E = mb_id B \<and> only_emitted e \<and>
    (if list_ex splits its
     then \<exists>N X e'. mf_blocks mf1 = xs @ E # N @ X # ys \<and> mb_insts E = p @ e \<and>
       list_all (\<lambda>C. only_emitted (mb_insts C)) N \<and> only_emitted e' \<and> mb_insts X = e' @ q \<and> mf_next mf \<le> mb_id X
     else mf_blocks mf1 = xs @ E # ys \<and> mb_insts E = p @ e @ q)"
  using assms
proof (induction its arbitrary: mf xs B p)
  case Nil
  then show ?case by (intro exI [of _ mf] exI [of _ "(mb_id B, length p)"] exI [of _ B] exI [of _ "[]"]) simp
next
  case (Cons it its)
  have xs: "mb_id B \<notin> set (map mb_id xs)"
    using Cons.prems by (auto simp: mf_wf_def mf_ids_def)
  show ?case
  proof (cases it)
    case (MI i)
    define C where "C = B\<lparr>mb_insts := (p @ [Emitted i]) @ q\<rparr>"
    define mf2 where "mf2 = insert_mi (mb_id B, length p) i mf"
    have "mf_blocks mf2 = xs @ C # ys" "mf_next mf2 = mf_next mf"
      using Cons.prems xs by (simp_all add: mf2_def insert_mi_def replace_block_split C_def)
    moreover from this have "mf_wf mf2"
      using Cons.prems by (auto simp: mf_wf_def mf_ids_def C_def)
    moreover have "mb_insts C = (p @ [Emitted i]) @ q" "mb_id C = mb_id B" by (simp_all add: C_def)
    ultimately obtain mf1 ip E e where IH: "insert_items (mb_id B, length (p @ [Emitted i])) its mf2 = (mf1, ip)"
      "mf_wf mf1" "mf_next mf \<le> mf_next mf1" "mb_id E = mb_id B" "only_emitted e"
      "if list_ex splits its
       then \<exists>N X e'. mf_blocks mf1 = xs @ E # N @ X # ys \<and> mb_insts E = (p @ [Emitted i]) @ e \<and>
         list_all (\<lambda>C. only_emitted (mb_insts C)) N \<and> only_emitted e' \<and> mb_insts X = e' @ q \<and> mf_next mf \<le> mb_id X
       else mf_blocks mf1 = xs @ E # ys \<and> mb_insts E = (p @ [Emitted i]) @ e @ q"
      using Cons.IH [of mf2 xs C "p @ [Emitted i]"] by metis
    then show ?thesis
      by (intro exI [of _ mf1] exI [of _ ip] exI [of _ E] exI [of _ "Emitted i # e"])
        (simp add: MI mf2_def split: if_splits)
  next
    case (SCCSafe c)
    define n where "n = mf_next mf"
    define E where "E = B\<lparr>mb_insts := p @ [Emitted (S_CBRANCH_SCC1 (n + 2))], mb_succs := [n + 1, n + 2]\<rparr>"
    define S0 where "S0 = \<lparr>mb_id = n + 1, mb_insts = map Emitted (c @ [S_CMP_EQ_I32 0 1, S_BRANCH n]), mb_succs = [n]\<rparr>"
    define S1 where "S1 = \<lparr>mb_id = n + 2, mb_insts = map Emitted (c @ [S_CMP_EQ_I32 0 0]), mb_succs = [n]\<rparr>"
    define X where "X = \<lparr>mb_id = n, mb_insts = [] @ q, mb_succs = mb_succs B\<rparr>"
    define mf2 where "mf2 = fst (createSCCSafeSequenceOfMIs (mb_id B, length p) c mf)"
    have step: "createSCCSafeSequenceOfMIs (mb_id B, length p) c mf = (mf2, (n, 0))"
      by (simp add: mf2_def createSCCSafeSequenceOfMIs_def Let_def n_def)
    have bl: "mf_blocks mf2 = (xs @ [E, S0, S1]) @ X # ys" and nx: "mf_next mf2 = n + 3"
      using Cons.prems xs
      by (simp_all add: mf2_def createSCCSafeSequenceOfMIs_def Let_def replace_block_split
          E_def S0_def S1_def X_def n_def)
    have "mf_wf mf2"
    proof -
      let ?ids = "map mb_id xs @ mb_id B # map mb_id ys"
      have old: "distinct ?ids" "\<forall>x\<in>set ?ids. x < n"
        using Cons.prems(1,2) by (simp_all add: mf_wf_def mf_ids_def n_def)
      have new: "n \<notin> set ?ids" "n + 1 \<notin> set ?ids" "n + 2 \<notin> set ?ids" using old(2) by (metis less_irrefl, metis not_add_less1, metis not_add_less1)
      have ids: "mf_ids mf2 = map mb_id xs @ mb_id B # (n + 1) # (n + 2) # n # map mb_id ys"
        by (simp add: mf_ids_def bl E_def S0_def S1_def X_def)
      have "distinct (mf_ids mf2)" unfolding ids using old(1) new by simp
      moreover have "x < n + 3" if "x \<in> set ?ids" for x
        by (rule trans_less_add1) (use old(2) that in blast)
      then have "\<forall>x\<in>set (mf_ids mf2). x < n + 3" unfolding ids by simp
      ultimately show ?thesis by (simp add: mf_wf_def nx)
    qed
    moreover have "mb_insts X = [] @ q" "mb_id X = n" by (simp_all add: X_def)
    ultimately obtain mf1 ip F e where IH: "insert_items (n, length ([] :: block_inst list)) its mf2 = (mf1, ip)"
      "mf_wf mf1" "n + 3 \<le> mf_next mf1" "mb_id F = n" "only_emitted e"
      "if list_ex splits its
       then \<exists>N Y e'. mf_blocks mf1 = (xs @ [E, S0, S1]) @ F # N @ Y # ys \<and> mb_insts F = [] @ e \<and>
         list_all (\<lambda>C. only_emitted (mb_insts C)) N \<and> only_emitted e' \<and> mb_insts Y = e' @ q \<and> n + 3 \<le> mb_id Y
       else mf_blocks mf1 = (xs @ [E, S0, S1]) @ F # ys \<and> mb_insts F = [] @ e @ q"
      using Cons.IH [OF bl] nx by metis
    have ends: "only_emitted (mb_insts S0)" "only_emitted (mb_insts S1)" "mb_id E = mb_id B"
      "mb_insts E = p @ [Emitted (S_CBRANCH_SCC1 (n + 2))]"
      by (simp_all add: S0_def S1_def E_def)
    have "\<exists>N Y e'. mf_blocks mf1 = xs @ E # N @ Y # ys \<and>
        list_all (\<lambda>C. only_emitted (mb_insts C)) N \<and> only_emitted e' \<and> mb_insts Y = e' @ q \<and> n \<le> mb_id Y"
    proof (cases "list_ex splits its")
      case True
      with IH(6) obtain N Y e' where "mf_blocks mf1 = (xs @ [E, S0, S1]) @ F # N @ Y # ys" "mb_insts F = [] @ e"
        "list_all (\<lambda>C. only_emitted (mb_insts C)) N" "only_emitted e'" "mb_insts Y = e' @ q" "n + 3 \<le> mb_id Y"
        by auto
      with ends IH(5) show ?thesis
        by (intro exI [of _ "S0 # S1 # F # N"] exI [of _ Y] exI [of _ e']) simp
    next
      case False
      with IH ends show ?thesis by (intro exI [of _ "[S0, S1]"] exI [of _ F] exI [of _ e]) simp
    qed
    with IH(1-3) ends show ?thesis
      by (intro exI [of _ mf1] exI [of _ ip] exI [of _ E] exI [of _ "[Emitted (S_CBRANCH_SCC1 (n + 2))]"])
        (simp add: SCCSafe step n_def)
  qed
qed

subsection \<open>The loop over the calls\<close>

lemma last_transfer_None_iff:
  "last_transfer E is = None \<longleftrightarrow> (\<forall>n t. App n t \<in> set is \<longrightarrow> \<not> is_transfer E n)"
  by (induction "is") (auto split: option.splits block_inst.splits)

lemma last_transfer_split:
  assumes "last_transfer E is = Some k"
  obtains p n t q where "is = p @ App n t # q" "length p = k" "is_transfer E n"
  using assms
proof (induction "is" arbitrary: k thesis)
  case Nil
  then show ?case by simp
next
  case (Cons i "is")
  show ?case
  proof (cases "last_transfer E is")
    case None
    with Cons.prems show ?thesis
      by (auto split: block_inst.splits if_splits)
  next
    case (Some j)
    then obtain p n t q where "is = p @ App n t # q" "length p = j" "is_transfer E n"
      using Cons.IH by blast
    with Some Cons.prems show ?thesis by (metis append_Cons last_transfer.simps(2) length_Cons option.inject option.simps(5))
  qed
qed

lemma only_emitted_transfer: "only_emitted is \<Longrightarrow> last_transfer E is = None"
  by (auto simp: last_transfer_None_iff only_emitted_def)

lemma block_at:
  assumes "mf_wf mf" and "mf_blocks mf = xs @ B # ys"
  shows "find_block (mb_id B) (mf_blocks mf) = Some B" "block_insts mf (mb_id B) = mb_insts B"
    "next_block (mb_id B) (mf_blocks mf) = (case ys of [] \<Rightarrow> None | C # _ \<Rightarrow> Some (mb_id C))"
proof -
  have "mb_id B \<notin> set (map mb_id xs)" using assms by (auto simp: mf_wf_def mf_ids_def)
  then show "find_block (mb_id B) (mf_blocks mf) = Some B"
    "next_block (mb_id B) (mf_blocks mf) = (case ys of [] \<Rightarrow> None | C # _ \<Rightarrow> Some (mb_id C))"
    by (simp_all add: assms(2) find_block_append next_block_skip)
  then show "block_insts mf (mb_id B) = mb_insts B" by (simp add: block_insts_def)
qed

definition head_id :: "mblock list \<Rightarrow> nat option" where
  "head_id bs = (case bs of [] \<Rightarrow> None | B # _ \<Rightarrow> Some (mb_id B))"

lemma head_id_simps [simp]: "head_id [] = None" "head_id (B # bs) = Some (mb_id B)"
  by (simp_all add: head_id_def)

lemma next_block_head:
  "mf_wf mf \<Longrightarrow> mf_blocks mf = xs @ B # ys \<Longrightarrow> next_block (mb_id B) (mf_blocks mf) = head_id ys"
  unfolding head_id_def by (rule block_at(3))

text \<open>The loop passes emitted blocks and stops at a transfer in a block without segments.\<close>

lemma hand_off_new_blocks:
  assumes "mf_wf mf" and "mf_blocks mf = xs @ N @ X # ys"
    and "list_all (\<lambda>C. only_emitted (mb_insts C)) N"
    and "last_transfer E (mb_insts X) \<noteq> None" and "getStorageIntervals L (mb_id X) = []"
  shows "for_blocks (hand_off_block E L) (head_id (N @ X # ys)) mf = Some (Inl NoSegment)"
  using assms(2,3)
proof (induction N arbitrary: xs)
  case Nil
  from block_at(2) [OF assms(1), of xs X ys] Nil assms(4,5) show ?case
    by (subst for_blocks.simps) (auto simp: hand_off_block_def)
next
  case (Cons C N)
  from Cons.prems have bl: "mf_blocks mf = xs @ C # N @ X # ys" "mf_blocks mf = (xs @ [C]) @ N @ X # ys"
    by simp_all
  have "hand_off_block E L (mb_id C) mf = Inr mf"
    using Cons.prems(2) by (simp add: hand_off_block_def block_at(2) [OF assms(1) bl(1)] only_emitted_transfer)
  with next_block_head [OF assms(1) bl(1)] Cons.IH [OF bl(2)] Cons.prems(2) show ?case
    by (subst for_blocks.simps) simp
qed

lemma handOff_splits: "list_ex splits (handOffSVA st s)"
  by (cases s) (simp_all add: handOff_simps emitCodeToLoadSVA.simps TwoAGPR_emitCodeToLoadSVA_def
      AGPR3_emitCodeToLoadSVA_def Spilled3_emitCodeToLoadSVA_def Spilled1_emitCodeToLoadSVA_def Let_def)

lemma pickOff_splits: "pickOffSVA st specs s = Inr its \<Longrightarrow> list_ex splits its"
  by (cases s) (auto simp: pickOff_simps emitCodeToStoreSVA.simps TwoAGPR_emitCodeToStoreSVA_def
      AGPR3_emitCodeToStoreSVA_def Spilled3_emitCodeToStoreSVA_def Spilled1_emitCodeToStoreSVA_def Let_def
      err_bind_Inr_iff)

lemma hand_off_loop:
  assumes "mf_wf mf" and "mf_blocks mf = xs @ ys" and "\<forall>y. mf_next mf \<le> y \<longrightarrow> getStorageIntervals L y = []"
    and "B \<in> set ys" and "last_transfer E (mb_insts B) \<noteq> None"
  shows "for_blocks (hand_off_block E L) (head_id ys) mf = Some (Inl NoSegment)"
  using assms(2,4)
proof (induction ys arbitrary: xs)
  case Nil
  then show ?case by simp
next
  case (Cons C ys)
  note at = block_at [OF assms(1) Cons.prems(1)]
  show ?case
  proof (cases "last_transfer E (mb_insts C)")
    case None
    with assms(5) Cons.prems(2) have "B \<in> set ys" by auto
    with Cons.IH [of "xs @ [C]"] Cons.prems(1)
    have "for_blocks (hand_off_block E L) (head_id ys) mf = Some (Inl NoSegment)" by simp
    with None next_block_head [OF assms(1) Cons.prems(1)] show ?thesis
      by (subst for_blocks.simps) (simp add: hand_off_block_def at(2))
  next
    case (Some k)
    show ?thesis
    proof (cases "rev (getStorageIntervals L (mb_id C))")
      case Nil
      with Some show ?thesis by (subst for_blocks.simps) (simp add: hand_off_block_def at(2))
    next
      case (Cons seg segs)
      obtain s e p where seg: "seg = (s, e, p)" by (cases seg)
      obtain u n t q where q: "mb_insts C = u @ App n t # q" "length u = k" "is_transfer E n"
        using last_transfer_split [OF Some] .
      obtain mf1 ip F where ins: "insert_items (mb_id C, k) (handOffSVA (P_target E) (snd p)) mf = (mf1, ip)"
        and wf1: "mf_wf mf1" and F: "mb_id F = mb_id C"
        and bl: "\<exists>N X e'. mf_blocks mf1 = xs @ F # N @ X # ys \<and>
          list_all (\<lambda>C. only_emitted (mb_insts C)) N \<and> mb_insts X = e' @ App n t # q \<and> mf_next mf \<le> mb_id X"
        using insert_items_layout [OF Cons.prems(1) assms(1) q(1), of "handOffSVA (P_target E) (snd p)"]
        by (auto simp: handOff_splits q(2))
      then obtain N X e' where X: "mf_blocks mf1 = xs @ F # N @ X # ys"
        "list_all (\<lambda>C. only_emitted (mb_insts C)) N" "mb_insts X = e' @ App n t # q" "mf_next mf \<le> mb_id X"
        by blast
      have "last_transfer E (mb_insts X) \<noteq> None"
        using q(3) by (auto simp: last_transfer_None_iff X(3))
      with hand_off_new_blocks [OF wf1, of "xs @ [F]" N X ys E L] X assms(3)
      have "for_blocks (hand_off_block E L) (head_id (N @ X # ys)) mf1 = Some (Inl NoSegment)" by simp
      moreover have "hand_off_block E L (mb_id C) mf = Inr mf1"
        using Some Cons by (simp add: hand_off_block_def at(2) seg ins)
      ultimately show ?thesis
        using next_block_head [OF wf1 X(1)] F by (subst for_blocks.simps) simp
    qed
  qed
qed

text \<open>
  When the storage is not fixed, the hand-off at calls cannot be emitted: in every function with a
  call or an indirect branch the loop over the blocks runs into a block without storage segments. The
  first emission splits its block, so the call comes to stand in a new block, which the loop visits next
  and for which the analysis has no segment.
\<close>

lemma handoff_stops_at_calls:
  assumes "\<not> hasFixedStorageAcrossAllFunctions L" and "mf_wf mf"
    and "\<forall>y. mf_next mf \<le> y \<longrightarrow> getStorageIntervals L y = []"
    and "B \<in> set (mf_blocks mf)" and "App n t \<in> set (mb_insts B)" and "is_transfer E n"
    and "pick_off_entry E specs L is_kernel mf = Inr mf'"
  shows "emitPartialCallgraphSVSHandoffWraps E specs L is_kernel mf = Some (Inl NoSegment)"
proof -
  have has: "last_transfer E (mb_insts B) \<noteq> None" using assms(5,6) by (auto simp: last_transfer_None_iff)
  obtain C Cs where Cs: "mf_blocks mf = C # Cs" using assms(4) by (cases "mf_blocks mf") auto
  have "for_blocks (hand_off_block E L) (first_block mf') mf' = Some (Inl NoSegment)"
  proof (cases "mf' = mf")
    case True
    with hand_off_loop [OF assms(2) _ assms(3,4) has, of "[]"] Cs show ?thesis by (simp add: first_block_def)
  next
    case False
    with assms(7) Cs obtain its where its: "mf' = fst (insert_items (mb_id C, 0) its mf)" "list_ex splits its"
      by (auto simp: pick_off_entry_def pickOff_splits split: if_splits list.splits sum.splits)
    obtain ip F e N X e' where wf: "mf_wf mf'" and F: "only_emitted e" "mb_insts F = e"
      and X: "mf_blocks mf' = F # N @ X # Cs" "list_all (\<lambda>C. only_emitted (mb_insts C)) N"
        "mb_insts X = e' @ mb_insts C" "mf_next mf \<le> mb_id X" "mf_next mf \<le> mf_next mf'"
      using insert_items_layout [of mf "[]" C Cs "[]" "mb_insts C" its] Cs assms(2) its by auto
    show ?thesis
    proof (cases "B = C")
      case True
      with has have "last_transfer E (mb_insts X) \<noteq> None" by (auto simp: last_transfer_None_iff X(3))
      with hand_off_new_blocks [OF wf, of "[]" "F # N" X Cs E L] X assms(3) F
      show ?thesis by (simp add: first_block_def)
    next
      case False
      with assms(4) Cs have "B \<in> set (mf_blocks mf')" by (simp add: X(1))
      with hand_off_loop [OF wf, of "[]" "mf_blocks mf'" L B E] has assms(3) X(1,5)
      show ?thesis by (auto simp: first_block_def)
    qed
  qed
  with assms(1,7) show ?thesis by (simp add: emitPartialCallgraphSVSHandoffWraps_def)
qed

subsection \<open>Switch code on an edge\<close>

lemmas switch_defs = switch_VGPR_VGPR_def switch_VGPR_TwoAGPR_def switch_VGPR_AGPR3_def
  switch_VGPR_Spilled3_def switch_VGPR_Spilled1_def switch_TwoAGPR_VGPR_def switch_TwoAGPR_TwoAGPR_def
  switch_TwoAGPR_AGPR3_def switch_TwoAGPR_Spilled3_def switch_AGPR3_VGPR_def switch_AGPR3_TwoAGPR_def
  switch_AGPR3_AGPR3_def switch_AGPR3_Spilled3_def switch_Spilled3_VGPR_def switch_Spilled3_TwoAGPR_def
  switch_Spilled3_AGPR3_def switch_Spilled3_Spilled3_def switch_Spilled1_VGPR_def
  switch_Spilled1_Spilled1_def loadStackPointerFromSVALanes_def loadFlatScratchFromSVALanes_def
  EmitAGPRMove_def emitMoveFromVGPRLaneToSGPR_def emitMoveFromSGPRToVGPRLane_def
  emitMoveFromSGPRToSGPR_def emitExecMaskFlip_def

lemma swap_not_branch [simp]: "list_all (\<lambda>i. \<not> is_branch i) (emitSGPRSwap a b)"
  by (simp add: emitSGPRSwap_def)

lemma switch_items_ok:
  assumes "emitCodeToSwitchSVS st specs src tgt = Some (Inr its)"
  shows "list_all item_ok its"
  using assms
  by (cases src; cases tgt)
    (auto simp: switch_defs emit_defs err_bind_Inr_iff split: if_splits option.splits)

lemma getFirstTerminator_le: "getFirstTerminator E is \<le> length is"
  by (simp add: getFirstTerminator_def)

text \<open>
  On an edge out of a block with one successor the switch is complete: control that enters the block
  runs its instructions up to the terminators, then the switch, then the terminators, and the array that
  was in the storage of the block's last segment is then, on every lane, in the storage that the successor
  expects.
\<close>

lemma reconciled_edge_moves_array:
  assumes "reconcile_edge E specs L HeadSVS M P mf = Inr mf'" and "mf_wf mf"
    and "find_block P (mf_blocks mf) = Some B" and "length (mb_succs B) = 1"
    and "rev (getStorageIntervals L P) = (s, e, (i, TailSVS)) # segs" and "TailSVS \<noteq> HeadSVS"
    and "switch_pre (P_target E) TailSVS HeadSVS"
  shows "\<exists>its. mf_wf mf' \<and>
    (\<exists>n. mf_walk (P_target E) A mf' (new_blocks mf mf' P) (Suc n) (Some P, g) =
       step_with (P_target E) A mf B (getFirstTerminator E (mb_insts B)) its g) \<and>
    (\<forall>h l. l < wave_size (P_target E) \<longrightarrow>
       sva_of (P_target E) HeadSVS (exec_items (P_target E) its h) l = sva_of (P_target E) TailSVS h l)"
proof -
  from assms(1,3-6) obtain its where its: "emitCodeToSwitchSVS (P_target E) specs TailSVS HeadSVS = Some (Inr its)"
    and mf': "insert_items (P, getFirstTerminator E (mb_insts B)) its mf = (mf', snd (insert_items (P, getFirstTerminator E (mb_insts B)) its mf))"
    by (auto simp: reconcile_edge_def Let_def storage_eq_iff block_succs_def block_insts_def emit_switch_def
        split: option.splits sum.splits)
  from insert_items_step_with [OF assms(2,3) getFirstTerminator_le switch_items_ok [OF its] mf', of "P_target E" A g]
  have "mf_wf mf'" "\<exists>n. mf_walk (P_target E) A mf' (new_blocks mf mf' P) (Suc n) (Some P, g) =
       step_with (P_target E) A mf B (getFirstTerminator E (mb_insts B)) its g"
    by blast+
  moreover have "\<forall>h l. l < wave_size (P_target E) \<longrightarrow>
       sva_of (P_target E) HeadSVS (exec_items (P_target E) its h) l = sva_of (P_target E) TailSVS h l"
    using switched_all [OF assms(7) its] by (simp add: switched_def)
  ultimately show ?thesis by blast
qed

text \<open>
  The split of a critical edge is wrong: when the switch code is one SCC-safe sequence (as all moves
  between vector registers are), the branch to the successor is appended to the block that the sequence was
  split off from. With SCC clear the new block goes to the successor without the switch; with SCC set it
  runs the switch and then falls off the end of the function.
\<close>

lemma critical_edge_misses_switch:
  assumes "split_critical_edge E specs TailSVS HeadSVS P M mf = Inr mf'" and "mf_wf mf" and "P \<in> set (mf_ids mf)"
    and "emitCodeToSwitchSVS (P_target E) specs TailSVS HeadSVS = Some (Inr [SCCSafe c])"
  shows "mf_step st A mf' (Some (mf_next mf), g\<lparr>scc := False\<rparr>) = Some (Some M, g\<lparr>scc := False\<rparr>) \<and>
    mf_walk st A mf' UNIV 2 (Some (mf_next mf), g\<lparr>scc := True\<rparr>) =
      Some (Some (Suc (mf_next mf)), safe st c (g\<lparr>scc := True\<rparr>)) \<and>
    mf_step st A mf' (Some (Suc (mf_next mf)), h) = None"
proof -
  let ?S = "mf_next mf"
  obtain xs B ys where d: "mf_blocks mf = xs @ B # ys" "mb_id B = P" "P \<notin> set (map mb_id xs)"
    using split_at_block [of P "mf_blocks mf"] assms(3) by (auto simp: mf_ids_def)
  have lt: "mb_id x < ?S" if "x \<in> set (mf_blocks mf)" for x using assms(2) that by (simp add: mf_wf_def mf_ids_def)
  define C where "C = B\<lparr>mb_insts := redirect_terminators E M ?S (mb_insts B),
    mb_succs := map (\<lambda>x. if x = M then ?S else x) (mb_succs B)\<rparr>"
  define old where "old = xs @ C # ys"
  have lt': "mb_id x < ?S" if "x \<in> set old" for x
    using that lt d by (auto simp: old_def C_def)
  have fresh: "?S \<notin> set (map mb_id old)" "Suc ?S \<notin> set (map mb_id old)" "Suc (Suc ?S) \<notin> set (map mb_id old)"
    "Suc (Suc (Suc ?S)) \<notin> set (map mb_id old)"
    using lt' by fastforce+
  have bl: "mf_blocks mf' = old @
      [\<lparr>mb_id = ?S, mb_insts = [Emitted (S_CBRANCH_SCC1 (?S + 3)), Emitted (S_BRANCH M)], mb_succs = [?S + 2, ?S + 3]\<rparr>,
       \<lparr>mb_id = ?S + 2, mb_insts = map Emitted (c @ [S_CMP_EQ_I32 0 1, S_BRANCH (?S + 1)]), mb_succs = [?S + 1]\<rparr>,
       \<lparr>mb_id = ?S + 3, mb_insts = map Emitted (c @ [S_CMP_EQ_I32 0 0]), mb_succs = [?S + 1]\<rparr>,
       \<lparr>mb_id = ?S + 1, mb_insts = [], mb_succs = [M]\<rparr>]"
  proof -
    let ?B = "\<lparr>mb_id = ?S, mb_insts = [], mb_succs = [M]\<rparr>"
    have at: "replace_block ?S f (old @ X # Xs) = old @ f X @ Xs" if "mb_id X = ?S" for f X Xs
      using replace_block_split [OF fresh(1) that] .
    define mf2 where "mf2 = upd_block P (\<lambda>B. B\<lparr>mb_insts := redirect_terminators E M ?S (mb_insts B),
        mb_succs := map (\<lambda>x. if x = M then ?S else x) (mb_succs B)\<rparr>)
      (mf\<lparr>mf_blocks := mf_blocks mf @ [?B], mf_next := Suc ?S\<rparr>)"
    have mf2: "mf_blocks mf2 = old @ [?B]" "mf_next mf2 = Suc ?S"
      using replace_block_split [OF d(3,2), of _ "ys @ [?B]"]
      by (simp_all add: mf2_def upd_block_def d(1) old_def C_def)
    have mf': "mf' = upd_block ?S (\<lambda>B. B\<lparr>mb_insts := mb_insts B @ [Emitted (S_BRANCH M)]\<rparr>)
        (fst (createSCCSafeSequenceOfMIs (?S, 0) c mf2))"
      using assms(1,4) by (simp add: split_critical_edge_def emit_switch_def Let_def flip: mf2_def)
    have "mf_blocks (fst (createSCCSafeSequenceOfMIs (?S, 0) c mf2)) = old @
        [?B\<lparr>mb_insts := [Emitted (S_CBRANCH_SCC1 (?S + 3))], mb_succs := [?S + 2, ?S + 3]\<rparr>,
         \<lparr>mb_id = ?S + 2, mb_insts = map Emitted (c @ [S_CMP_EQ_I32 0 1, S_BRANCH (?S + 1)]), mb_succs = [?S + 1]\<rparr>,
         \<lparr>mb_id = ?S + 3, mb_insts = map Emitted (c @ [S_CMP_EQ_I32 0 0]), mb_succs = [?S + 1]\<rparr>,
         \<lparr>mb_id = ?S + 1, mb_insts = [], mb_succs = [M]\<rparr>]"
      using at [of ?B _ "[]"] by (simp add: createSCCSafeSequenceOfMIs_def Let_def mf2 numeral_3_eq_3)
    then show ?thesis
      unfolding mf' upd_block_def by (simp add: at)
  qed
  have find: "find_block ?S (mf_blocks mf') = Some \<lparr>mb_id = ?S,
      mb_insts = [Emitted (S_CBRANCH_SCC1 (?S + 3)), Emitted (S_BRANCH M)], mb_succs = [?S + 2, ?S + 3]\<rparr>"
    "find_block (?S + 3) (mf_blocks mf') =
       Some \<lparr>mb_id = ?S + 3, mb_insts = map Emitted (c @ [S_CMP_EQ_I32 0 0]), mb_succs = [?S + 1]\<rparr>"
    "find_block (Suc ?S) (mf_blocks mf') = Some \<lparr>mb_id = ?S + 1, mb_insts = [], mb_succs = [M]\<rparr>"
    "next_block (?S + 3) (mf_blocks mf') = Some (Suc ?S)" "next_block (Suc ?S) (mf_blocks mf') = None"
    using fresh by (simp_all add: bl find_block_append next_block_skip numeral_3_eq_3)
  have c: "list_all (\<lambda>i. \<not> is_branch i) c" using switch_items_ok [OF assms(4)] by simp
  have "mf_step st A mf' (Some (?S + 3), h) = Some (Some (Suc ?S), (exec_insts st c h)\<lparr>scc := True\<rparr>)" for h
    unfolding mf_step_def fst_conv snd_conv option.case find
    using run_emitted [OF c] by (simp add: leave_block_def find [simplified])
  moreover have "mf_step st A mf' (Some ?S, h) = Some (Some (if scc h then ?S + 3 else M), h)" for h
    unfolding mf_step_def fst_conv snd_conv option.case find by (simp add: leave_block_def)
  moreover have "mf_step st A mf' (Some (Suc ?S), h) = None"
    unfolding mf_step_def fst_conv snd_conv option.case find by (simp add: leave_block_def find)
  ultimately show ?thesis by (simp add: numeral_2_eq_2 safe_def)
qed

subsection \<open>No switch is needed\<close>

lemma for_blocks_unchanged:
  assumes "mf_wf mf" and "mf_blocks mf = xs @ ys" and "\<And>b. b \<in> set (mf_ids mf) \<Longrightarrow> body b mf = Inr mf"
  shows "for_blocks body (head_id ys) mf = Some (Inr mf)"
  using assms(2)
proof (induction ys arbitrary: xs)
  case Nil
  then show ?case by (subst for_blocks.simps) simp
next
  case (Cons B ys)
  then have "mb_id B \<in> set (mf_ids mf)" by (simp add: mf_ids_def)
  with assms(3) next_block_head [OF assms(1) Cons.prems] Cons.IH [of "xs @ [B]"] Cons.prems show ?case
    by (subst for_blocks.simps) simp
qed

lemma err_fold_unchanged: "(\<And>x. x \<in> set xs \<Longrightarrow> f x s = Inr s) \<Longrightarrow> err_fold f xs s = Inr s"
  by (induction xs) simp_all

lemma switch_boundaries_same:
  "\<forall>(s, e, p)\<in>set segs. snd p = svs \<Longrightarrow> switch_boundaries E specs b segs mf = Inr mf"
  by (induction E specs b segs mf rule: switch_boundaries.induct) (auto simp: storage_eq_iff)

lemma no_switches:
  assumes "mf_wf mf" and same: "\<And>b. b \<in> set (mf_ids mf) \<Longrightarrow> \<forall>(s, e, p)\<in>set (getStorageIntervals L b). snd p = svs"
  shows "emitSVSSwitchesForMF E specs L mf = Some (Inr mf)"
proof -
  have "within_block E specs L b mf = Inr mf" if "b \<in> set (mf_ids mf)" for b
    using switch_boundaries_same [OF same [OF that]] by (simp add: within_block_def Let_def)
  then have "for_blocks (within_block E specs L) (first_block mf) mf = Some (Inr mf)"
    using for_blocks_unchanged [of mf "[]" "mf_blocks mf" "within_block E specs L"] assms(1)
    by (simp add: first_block_def head_id_def)
  moreover have "reconcile_edge E specs L svs M P mf = Inr mf" if "P \<in> set (block_preds mf M)" for M P
  proof (cases "rev (getStorageIntervals L P)")
    case (Cons seg segs)
    then have "seg \<in> set (getStorageIntervals L P)" by (metis list.set_intros(1) set_rev)
    moreover have "P \<in> set (mf_ids mf)" using that by (auto simp: block_preds_def mf_ids_def)
    ultimately show ?thesis
      using same [of P] Cons by (auto simp: reconcile_edge_def Let_def storage_eq_iff split: prod.splits)
  qed (simp add: reconcile_edge_def)
  then have "reconcile_block E specs L M mf = Inr mf" if "M \<in> set (mf_ids mf)" for M
    using same [OF that]
    by (auto simp: reconcile_block_def split: list.split intro!: err_fold_unchanged)
  ultimately show ?thesis
    by (simp add: emitSVSSwitchesForMF_def err_fold_unchanged)
qed

subsection \<open>An example\<close>

text \<open>
  Block 0 branches to block 2 or falls through to block 1, which falls through to block 2, where the array
  is expected in another register; block 2 ends in a call.
\<close>

definition diamond_mf :: mfun where
  "diamond_mf = \<lparr>mf_blocks = [
      \<lparr>mb_id = 0, mb_insts = [App 1 None, App 10 (Some 2)], mb_succs = [1, 2]\<rparr>,
      \<lparr>mb_id = 1, mb_insts = [App 2 None], mb_succs = [2]\<rparr>,
      \<lparr>mb_id = 2, mb_insts = [App 5 None], mb_succs = []\<rparr>], mf_next = 3\<rparr>"

definition diamond_env :: patch_env where
  "diamond_env = \<lparr>P_target = mai_architected_fs, slot_app = \<lambda>s. None, is_term = \<lambda>n. 10 \<le> n, is_transfer = \<lambda>n. n = 5\<rparr>"

definition diamond_locations :: sv_locations where
  "diamond_locations = \<lparr>intervals = [(0, 0, 10, 0, VGPRStateValueArrayStorage (VGPR 4)),
      (1, 10, 20, 0, VGPRStateValueArrayStorage (VGPR 4)), (2, 20, 30, 1, VGPRStateValueArrayStorage (VGPR 7))],
     load_plans = [], made = 2\<rparr>"

lemmas diamond_defs = diamond_mf_def diamond_env_def diamond_locations_def

lemma diamond_wf: "mf_wf diamond_mf"
  by (simp add: diamond_defs mf_wf_def mf_ids_def)

lemma handoff_stops_at_calls_instance:
  "emitPartialCallgraphSVSHandoffWraps diamond_env no_lanes diamond_locations True diamond_mf = Some (Inl NoSegment)"
proof (rule handoff_stops_at_calls [OF _ diamond_wf, where mf' = diamond_mf])
  show "\<not> hasFixedStorageAcrossAllFunctions diamond_locations" by code_simp
  show "\<lparr>mb_id = 2, mb_insts = [App 5 None], mb_succs = []\<rparr> \<in> set (mf_blocks diamond_mf)"
    by (simp add: diamond_defs)
  show "\<forall>y. mf_next diamond_mf \<le> y \<longrightarrow> getStorageIntervals diamond_locations y = []"
    by (simp add: diamond_defs getStorageIntervals_def)
  show "pick_off_entry diamond_env no_lanes diamond_locations True diamond_mf = Inr diamond_mf"
    by (simp add: diamond_defs pick_off_entry_def)
qed (simp_all add: diamond_defs)

lemma reconciled_edge_moves_array_instance:
  "\<exists>mf' its. reconcile_edge diamond_env no_lanes diamond_locations (VGPRStateValueArrayStorage (VGPR 7)) 2 1 diamond_mf = Inr mf' \<and>
     (\<exists>n. mf_walk mai_architected_fs example_app mf' (new_blocks diamond_mf mf' 1) (Suc n) (Some 1, start_gpu) =
        step_with mai_architected_fs example_app diamond_mf \<lparr>mb_id = 1, mb_insts = [App 2 None], mb_succs = [2]\<rparr> 1 its start_gpu) \<and>
     sva_of mai_architected_fs (VGPRStateValueArrayStorage (VGPR 7)) (exec_items mai_architected_fs its start_gpu) 9 =
       sva_of mai_architected_fs (VGPRStateValueArrayStorage (VGPR 4)) start_gpu 9"
proof -
  let ?B = "\<lparr>mb_id = 1, mb_insts = [App 2 None], mb_succs = [2]\<rparr>"
  let ?s = "VGPRStateValueArrayStorage (VGPR 4)" and ?t = "VGPRStateValueArrayStorage (VGPR 7)"
  have B: "find_block 1 (mf_blocks diamond_mf) = Some ?B" "length (mb_succs ?B) = 1"
    by (simp_all add: diamond_defs)
  have L: "rev (getStorageIntervals diamond_locations 1) = [(10, 20, (0, ?s))]"
    by (simp add: diamond_defs getStorageIntervals_def)
  obtain mf' where mf': "reconcile_edge diamond_env no_lanes diamond_locations ?t 2 1 diamond_mf = Inr mf'"
    using L B by (simp add: reconcile_edge_def emit_switch_def block_succs_def Let_def)
  have pre: "switch_pre (P_target diamond_env) ?s ?t" by (simp add: switch_pre_def)
  have st: "P_target diamond_env = mai_architected_fs" "getFirstTerminator diamond_env (mb_insts ?B) = 1"
    "9 < wave_size mai_architected_fs"
    by (simp_all add: diamond_env_def getFirstTerminator_def wave_size_def example_targets)
  from reconciled_edge_moves_array [OF mf' diamond_wf B L _ pre, of example_app start_gpu] mf' st
  show ?thesis by fastforce
qed

lemma critical_edge_misses_switch_instance:
  "\<exists>mf'. split_critical_edge diamond_env no_lanes (VGPRStateValueArrayStorage (VGPR 4))
       (VGPRStateValueArrayStorage (VGPR 7)) 0 2 diamond_mf = Inr mf' \<and>
     mf_step mai_architected_fs example_app mf' (Some 3, start_gpu\<lparr>scc := False\<rparr>) = Some (Some 2, start_gpu\<lparr>scc := False\<rparr>)"
proof -
  let ?s = "VGPRStateValueArrayStorage (VGPR 4)" and ?t = "VGPRStateValueArrayStorage (VGPR 7)"
  obtain c where c: "emitCodeToSwitchSVS (P_target diamond_env) no_lanes ?s ?t = Some (Inr [SCCSafe c])"
    by (simp add: switch_VGPR_VGPR_def)
  then obtain mf' where mf': "split_critical_edge diamond_env no_lanes ?s ?t 0 2 diamond_mf = Inr mf'"
    by (simp add: split_critical_edge_def emit_switch_def Let_def del: emitCodeToSwitchSVS.simps)
  have "0 \<in> set (mf_ids diamond_mf)" "mf_next diamond_mf = 3" by (simp_all add: diamond_defs mf_ids_def)
  with critical_edge_misses_switch [OF mf' diamond_wf _ c, of mai_architected_fs example_app start_gpu start_gpu] mf'
  show ?thesis by auto
qed

end
