(* ===== verification/Instruction_Traces.thy ===== *)
theory Instruction_Traces
  imports Luthier_Prelude "HOL-Library.Product_Lexorder"
begin

text \<open>
  \<open>src/lib/ToolCodeGen/InstructionTracesAnalysis.cpp\<close> with the entry point and the trace
  containers of its headers: from the entry point of a function the analysis disassembles forward
  until a trace ends and follows direct branches until no target is left. The disassembler, the
  memory of the host process and the allocation accessor are inputs. Addresses are 64-bit words. The
  loops run on fuel; \<open>None\<close> is a loop that has not ended yet.
\<close>

type_synonym addr = "64 word"

subsection \<open>Inputs\<close>

text \<open>
  What the analysis reads of an instruction: its operands and the flags of its opcode. The flag
  \<open>is_I_FORK\<close> compares the decoded opcode with \<open>S_CBRANCH_I_FORK\<close>, \<open>is_G_FORK\<close>
  the pseudo opcode with \<open>S_CBRANCH_G_FORK\<close>.
\<close>

datatype mc_operand = Imm "64 word" | RegOp nat

record mc_inst =
  operands :: "mc_operand list"
  isReturn :: bool
  isCall :: bool
  isBranch :: bool
  isIndirectBranch :: bool
  isUnconditionalBranch :: bool
  is_I_FORK :: bool
  is_G_FORK :: bool

record allocation_descriptor =
  DeviceAllocation :: addr
  HostAccessibleAllocation :: addr
  Size :: "64 word"

record trace_env =
  getAllocationDescriptor :: "addr \<Rightarrow> unit + allocation_descriptor"
  host_byte :: "addr \<Rightarrow> 8 word"
  getInstruction :: "8 word list \<Rightarrow> addr \<Rightarrow> (mc_inst \<times> 64 word) option"
  MaxReadSize :: "64 word"

subsection \<open>Entry points\<close>

text \<open>A kernel descriptor at its address with the signed byte offset of its code.\<close>

datatype entry_point = Kernel addr "64 word" | DeviceAddress addr

definition isKernel :: "entry_point \<Rightarrow> bool" where
  "isKernel ep = (case ep of Kernel kd off \<Rightarrow> True | DeviceAddress a \<Rightarrow> False)"

fun getEntryPointAddress :: "entry_point \<Rightarrow> addr" where
  "getEntryPointAddress (DeviceAddress a) = a"
| "getEntryPointAddress (Kernel kd off) = (if 0 <s off then kd + off else kd - off)"

fun getRawAddress :: "entry_point \<Rightarrow> addr" where
  "getRawAddress (Kernel kd off) = kd"
| "getRawAddress (DeviceAddress a) = a"

definition entry_point_isEqual :: "entry_point \<Rightarrow> entry_point \<Rightarrow> bool" where
  "entry_point_isEqual l r \<longleftrightarrow>
     getEntryPointAddress l = getEntryPointAddress r \<and> isKernel l = isKernel r"

subsection \<open>Branch targets\<close>

datatype trace_error =
    AllocationError
  | DisassemblyFailed addr
  | BranchOperandNotImmediate
  | OperandAssertion

definition SignExtend64_16 :: "64 word \<Rightarrow> 64 word" where
  "SignExtend64_16 x = scast (ucast x :: 16 word)"

definition branch_target_of_imm :: "64 word \<Rightarrow> addr \<Rightarrow> addr" where
  "branch_target_of_imm imm a = SignExtend64_16 imm * 4 + a + 4"

text \<open>
  Reading an operand that is missing or no immediate fails an assertion of LLVM. The operand that is
  checked and the one that is read are the code's.
\<close>

definition getImm :: "mc_inst \<Rightarrow> nat \<Rightarrow> trace_error + 64 word" where
  "getImm i n = (if n < length (operands i)
     then (case operands i ! n of Imm x \<Rightarrow> Inr x | RegOp r \<Rightarrow> Inl OperandAssertion)
     else Inl OperandAssertion)"

definition evaluateDirectBranchOrCall :: "mc_inst \<Rightarrow> addr \<Rightarrow> trace_error + addr" where
  "evaluateDirectBranchOrCall i a =
     (let n = (if is_I_FORK i then 1 else 0)
      in if length (operands i) \<le> n then Inl OperandAssertion
         else case operands i ! n of
           RegOp r \<Rightarrow> Inl BranchOperandNotImmediate
         | Imm x \<Rightarrow> err_bind (getImm i 0) (\<lambda>imm. Inr (branch_target_of_imm imm a)))"

subsection \<open>Traces\<close>

record trace_instr =
  MCInst :: mc_inst
  LoadedDeviceAddress :: addr
  InstSize :: "64 word"

type_synonym trace = "(addr \<times> trace_instr) list"
type_synonym trace_group = "((addr \<times> addr) \<times> trace) list"

definition contains :: "trace \<Rightarrow> addr \<Rightarrow> bool" where
  "contains t a \<longleftrightarrow> map_of t a \<noteq> None"

definition covered_in :: "trace_group \<Rightarrow> addr \<Rightarrow> bool" where
  "covered_in ts a \<longleftrightarrow> list_ex (\<lambda>((s, e), t). s \<le> a \<and> a \<le> e \<and> contains t a) ts"

definition is_trace_end :: "mc_inst \<Rightarrow> bool" where
  "is_trace_end i \<longleftrightarrow>
     isReturn i \<or> isCall i \<or> isIndirectBranch i \<or> isUnconditionalBranch i \<or> is_G_FORK i"

record dis_state =
  CurrentDeviceAddress :: addr
  CurrentHostAddr :: addr
  WasTraceTerm :: bool
  StoppedByOverlap :: bool
  Instructions :: trace
  LastInstructionAddr :: addr

definition read_host :: "trace_env \<Rightarrow> addr \<Rightarrow> 64 word \<Rightarrow> 8 word list" where
  "read_host E a n = map (\<lambda>i. host_byte E (a + of_nat i)) [0..<unat n]"

text \<open>One pass of the inner loop.\<close>

definition dis_step :: "trace_env \<Rightarrow> trace_group \<Rightarrow> addr \<Rightarrow> dis_state \<Rightarrow> trace_error + dis_state" where
  "dis_step E ts SegmentHostEndAddr st =
     (let dev = CurrentDeviceAddress st; host = CurrentHostAddr st in
      if covered_in ts dev then Inr (st\<lparr>StoppedByOverlap := True\<rparr>)
      else let ReadSize = (if host + MaxReadSize E < SegmentHostEndAddr then MaxReadSize E
                           else SegmentHostEndAddr - host)
        in case getInstruction E (read_host E host ReadSize) dev of
          None \<Rightarrow> Inl (DisassemblyFailed dev)
        | Some (i, sz) \<Rightarrow> Inr (st\<lparr>
            WasTraceTerm := is_trace_end i,
            Instructions := mv_insert dev
              \<lparr>MCInst = i, LoadedDeviceAddress = dev, InstSize = sz\<rparr> (Instructions st),
            LastInstructionAddr := dev,
            CurrentDeviceAddress := dev + sz,
            CurrentHostAddr := host + sz\<rparr>))"

fun dis_inner ::
    "nat \<Rightarrow> trace_env \<Rightarrow> trace_group \<Rightarrow> addr \<Rightarrow> dis_state \<Rightarrow> (trace_error + dis_state) option" where
  "dis_inner 0 E ts end_addr st = None"
| "dis_inner (Suc n) E ts end_addr st =
     (if \<not> WasTraceTerm st \<and> \<not> StoppedByOverlap st \<and> CurrentHostAddr st < end_addr
      then (case dis_step E ts end_addr st of
          Inl e \<Rightarrow> Some (Inl e)
        | Inr st' \<Rightarrow> dis_inner n E ts end_addr st')
      else Some (Inr st))"

text \<open>The host address is computed from the device allocation twice, as in the code.\<close>

definition EntryPointHostAddr :: "allocation_descriptor \<Rightarrow> addr \<Rightarrow> addr" where
  "EntryPointHostAddr d dev = dev - DeviceAllocation d + DeviceAllocation d"

fun dis_outer :: "nat \<Rightarrow> trace_env \<Rightarrow> trace_group \<Rightarrow> dis_state \<Rightarrow> (trace_error + dis_state) option" where
  "dis_outer 0 E ts st = None"
| "dis_outer (Suc n) E ts st =
     (if WasTraceTerm st \<or> StoppedByOverlap st then Some (Inr st)
      else case getAllocationDescriptor E (CurrentDeviceAddress st) of
        Inl u \<Rightarrow> Some (Inl AllocationError)
      | Inr d \<Rightarrow>
          if Size d = 0 then Some (Inr st)
          else let host = EntryPointHostAddr d (CurrentDeviceAddress st)
            in case dis_inner n E ts (host + Size d) (st\<lparr>CurrentHostAddr := host\<rparr>) of
                None \<Rightarrow> None
              | Some (Inl e) \<Rightarrow> Some (Inl e)
              | Some (Inr st') \<Rightarrow> dis_outer n E ts st')"

definition start_state :: "addr \<Rightarrow> dis_state" where
  "start_state a = \<lparr>CurrentDeviceAddress = a, CurrentHostAddr = 0, WasTraceTerm = False,
     StoppedByOverlap = False, Instructions = [], LastInstructionAddr = 0\<rparr>"

definition disassembleTrace ::
    "nat \<Rightarrow> trace_env \<Rightarrow> addr \<Rightarrow> trace_group \<Rightarrow> (trace_error + trace \<times> addr) option" where
  "disassembleTrace n E a ts =
     (case dis_outer n E ts (start_state a) of
        None \<Rightarrow> None
      | Some (Inl e) \<Rightarrow> Some (Inl e)
      | Some (Inr st) \<Rightarrow> Some (Inr (Instructions st, LastInstructionAddr st)))"

subsection \<open>The worklist\<close>

record instruction_traces =
  Traces :: trace_group
  DirectBranchTargets :: "addr list"

record discovery =
  found :: instruction_traces
  UnvisitedTraceAddresses :: "addr list"

definition isDirectBranch :: "mc_inst \<Rightarrow> bool" where
  "isDirectBranch i \<longleftrightarrow> isBranch i \<and> \<not> isIndirectBranch i \<or> is_I_FORK i"

text \<open>The loop body for one instruction of the new trace \<open>t\<close>.\<close>

definition visit_branch :: "trace \<Rightarrow> addr \<times> trace_instr \<Rightarrow> discovery \<Rightarrow> trace_error + discovery" where
  "visit_branch t e D =
     (if isDirectBranch (MCInst (snd e))
      then err_bind (evaluateDirectBranchOrCall (MCInst (snd e)) (fst e)) (\<lambda>target.
        let D = D\<lparr>found := (found D)\<lparr>DirectBranchTargets :=
              List.insert target (DirectBranchTargets (found D))\<rparr>\<rparr>
        in Inr (if contains t target \<or> list_ex (\<lambda>(k, t'). contains t' target) (Traces (found D)) then D
                else D\<lparr>UnvisitedTraceAddresses :=
                  List.insert target (UnvisitedTraceAddresses D)\<rparr>))
      else Inr D)"

definition add_trace :: "addr \<Rightarrow> addr \<Rightarrow> trace \<Rightarrow> discovery \<Rightarrow> discovery" where
  "add_trace s e t D =
     (if t = [] then D
      else D\<lparr>found := (found D)\<lparr>Traces := omap_insert (s, e) t (Traces (found D))\<rparr>\<rparr>)"

definition erase :: "addr \<Rightarrow> discovery \<Rightarrow> discovery" where
  "erase a D = D\<lparr>UnvisitedTraceAddresses := removeAll a (UnvisitedTraceAddresses D)\<rparr>"

definition next_address :: "discovery \<Rightarrow> addr" where
  "next_address D = Min (set (UnvisitedTraceAddresses D))"

definition visit_address :: "nat \<Rightarrow> trace_env \<Rightarrow> discovery \<Rightarrow> (trace_error + discovery) option" where
  "visit_address n E D =
     (let a = next_address D in
      if covered_in (Traces (found D)) a then Some (Inr (erase a D))
      else case disassembleTrace n E a (Traces (found D)) of
          None \<Rightarrow> None
        | Some (Inl e) \<Rightarrow> Some (Inl e)
        | Some (Inr (t, last_addr)) \<Rightarrow>
            Some (err_bind (err_fold (visit_branch t) t D) (\<lambda>D.
              Inr (erase a (add_trace a last_addr t D)))))"

fun discover_loop :: "nat \<Rightarrow> trace_env \<Rightarrow> discovery \<Rightarrow> (trace_error + instruction_traces) option" where
  "discover_loop 0 E D = None"
| "discover_loop (Suc n) E D =
     (if UnvisitedTraceAddresses D = [] then Some (Inr (found D))
      else case visit_address n E D of
          None \<Rightarrow> None
        | Some (Inl e) \<Rightarrow> Some (Inl e)
        | Some (Inr D') \<Rightarrow> discover_loop n E D')"

definition start_discovery :: "addr \<Rightarrow> discovery" where
  "start_discovery a =
     \<lparr>found = \<lparr>Traces = [], DirectBranchTargets = []\<rparr>, UnvisitedTraceAddresses = [a]\<rparr>"

definition discoverTraces ::
    "nat \<Rightarrow> entry_point \<Rightarrow> trace_env \<Rightarrow> (trace_error + instruction_traces) option" where
  "discoverTraces n ep E = discover_loop n E (start_discovery (getEntryPointAddress ep))"

text \<open>
  The analysis of a function: nothing for a function without an entry point or without a memory
  accessor; an error of the discovery is reported and the result is empty.
\<close>

definition run_traces_analysis ::
    "nat \<Rightarrow> entry_point option \<Rightarrow> trace_env option \<Rightarrow> instruction_traces option option" where
  "run_traces_analysis n ep E =
     (case ep of None \<Rightarrow> Some None
      | Some ep \<Rightarrow> (case E of None \<Rightarrow> Some None
        | Some E \<Rightarrow> (case discoverTraces n ep E of
            None \<Rightarrow> None
          | Some (Inl e) \<Rightarrow> Some None
          | Some (Inr T) \<Rightarrow> Some (Some T))))"

subsection \<open>One trace\<close>

text \<open>
  What the loader, the allocator and the disassembler guarantee: allocations end below \<open>B\<close>, which is
  not within one read of the end of the address space, and an instruction takes at least one byte and
  no more bytes than were given.
\<close>

definition mem_bounded :: "trace_env \<Rightarrow> nat \<Rightarrow> bool" where
  "mem_bounded E B \<longleftrightarrow>
     (\<forall>a d. getAllocationDescriptor E a = Inr d \<longrightarrow> Size d \<noteq> 0 \<longrightarrow> unat a + unat (Size d) \<le> B) \<and>
     B + unat (MaxReadSize E) < 2 ^ 64 \<and>
     (\<forall>bs a i sz. getInstruction E bs a = Some (i, sz) \<longrightarrow> 0 < unat sz \<and> unat sz \<le> length bs)"

text \<open>A trace from \<open>a\<close> whose instructions follow each other up to \<open>b\<close>.\<close>

fun chain_from :: "addr \<Rightarrow> trace \<Rightarrow> addr \<Rightarrow> bool" where
  "chain_from a [] b \<longleftrightarrow> a = b"
| "chain_from a ((x, i) # t) b \<longleftrightarrow> x = a \<and> LoadedDeviceAddress i = a \<and> a < a + InstSize i \<and>
     chain_from (a + InstSize i) t b"

lemma chain_from_range:
  "chain_from a t b \<Longrightarrow> a \<le> b \<and> (\<forall>x\<in>fst ` set t. a \<le> x \<and> x < b)"
proof (induction a t b rule: chain_from.induct)
  case (1 a b)
  then show ?case by simp
next
  case (2 a x i t b)
  then have "a < a + InstSize i" "a + InstSize i \<le> b" "\<forall>x\<in>fst ` set t. a + InstSize i \<le> x \<and> x < b"
    by auto
  with 2 show ?case by (auto intro: less_imp_le less_le_trans order_trans)
qed

lemma chain_from_snoc:
  "chain_from a (t @ [(b, i)]) c \<longleftrightarrow>
   chain_from a t b \<and> LoadedDeviceAddress i = b \<and> b < b + InstSize i \<and> c = b + InstSize i"
  by (induction a t b rule: chain_from.induct) auto

lemma chain_from_last:
  assumes "chain_from a t b" and "t \<noteq> []" and "x \<in> fst ` set t"
  shows "x \<le> fst (last t)"
proof -
  obtain u e where t: "t = u @ [e]" using assms(2) by (cases t rule: rev_cases) auto
  with assms(1) have "chain_from a u (fst e)" by (cases e) (simp add: chain_from_snoc)
  from chain_from_range [OF this] assms(3) t show ?thesis by auto
qed

lemma chain_from_start: "chain_from a t b \<Longrightarrow> t \<noteq> [] \<Longrightarrow> a \<in> fst ` set t"
  by (cases t) auto

lemma contains_iff: "contains t a \<longleftrightarrow> a \<in> fst ` set t"
  by (simp add: contains_def map_of_eq_None_iff)

definition decoded :: "trace_env \<Rightarrow> addr \<times> trace_instr \<Rightarrow> bool" where
  "decoded E e \<longleftrightarrow>
     (\<exists>n. getInstruction E (read_host E (fst e) n) (fst e) = Some (MCInst (snd e), InstSize (snd e)))"

text \<open>The invariant of the two loops for a trace that starts at \<open>s\<close>.\<close>

definition dis_inv :: "trace_env \<Rightarrow> trace_group \<Rightarrow> addr \<Rightarrow> dis_state \<Rightarrow> bool" where
  "dis_inv E ts s st \<longleftrightarrow>
     chain_from s (Instructions st) (CurrentDeviceAddress st) \<and>
     (Instructions st \<noteq> [] \<longrightarrow> LastInstructionAddr st = fst (last (Instructions st))) \<and>
     (\<forall>e\<in>set (Instructions st). \<not> covered_in ts (fst e) \<and> decoded E e) \<and>
     (\<forall>e\<in>set (butlast (Instructions st)). \<not> is_trace_end (MCInst (snd e))) \<and>
     (WasTraceTerm st \<longleftrightarrow> Instructions st \<noteq> [] \<and> is_trace_end (MCInst (snd (last (Instructions st))))) \<and>
     (StoppedByOverlap st \<longrightarrow> covered_in ts (CurrentDeviceAddress st))"

lemma read_size_le:
  fixes host end_addr m :: addr
  assumes "host < end_addr" and "unat end_addr + unat m < 2 ^ 64"
  shows "unat (if host + m < end_addr then m else end_addr - host) \<le> unat end_addr - unat host"
proof -
  have h: "unat host < unat end_addr" using assms(1) by (simp add: word_less_nat_alt)
  have "unat (host + m) = unat host + unat m"
    using h assms(2) by (simp add: unat_word_ariths)
  moreover have "unat (end_addr - host) = unat end_addr - unat host"
    using h by (simp add: unat_sub word_le_nat_alt)
  ultimately show ?thesis by (auto simp: word_less_nat_alt)
qed

lemma dis_step_inv:
  assumes mem: "mem_bounded E B" and inv: "dis_inv E ts s st"
    and host: "CurrentHostAddr st = CurrentDeviceAddress st"
    and lt: "CurrentDeviceAddress st < end_addr" and B: "unat end_addr \<le> B"
    and go: "\<not> WasTraceTerm st" and step: "dis_step E ts end_addr st = Inr st'"
  shows "dis_inv E ts s st' \<and> CurrentHostAddr st' = CurrentDeviceAddress st' \<and>
    (if StoppedByOverlap st' then CurrentDeviceAddress st' = CurrentDeviceAddress st
     else unat (CurrentDeviceAddress st) < unat (CurrentDeviceAddress st') \<and>
       unat (CurrentDeviceAddress st') \<le> unat end_addr)"
proof (cases "covered_in ts (CurrentDeviceAddress st)")
  case True
  with step inv host show ?thesis by (auto simp: dis_step_def Let_def dis_inv_def)
next
  case False
  let ?dev = "CurrentDeviceAddress st"
  define rs where "rs = (if ?dev + MaxReadSize E < end_addr then MaxReadSize E else end_addr - ?dev)"
  from step False host obtain i sz where
    dec: "getInstruction E (read_host E ?dev rs) ?dev = Some (i, sz)"
    and st': "st' = st\<lparr>WasTraceTerm := is_trace_end i,
      Instructions := mv_insert ?dev \<lparr>MCInst = i, LoadedDeviceAddress = ?dev, InstSize = sz\<rparr> (Instructions st),
      LastInstructionAddr := ?dev, CurrentDeviceAddress := ?dev + sz, CurrentHostAddr := ?dev + sz\<rparr>"
    by (auto simp: dis_step_def Let_def rs_def split: option.splits)
  have "unat rs \<le> unat end_addr - unat ?dev"
    unfolding rs_def by (rule read_size_le [OF lt]) (use mem B in \<open>simp add: mem_bounded_def\<close>)
  moreover have "0 < unat sz" "unat sz \<le> unat rs"
    using mem dec by (fastforce simp: mem_bounded_def read_host_def)+
  ultimately have sz: "0 < unat sz" "unat ?dev + unat sz \<le> unat end_addr"
    using lt by (simp_all add: word_less_nat_alt)
  then have sum: "unat (?dev + sz) = unat ?dev + unat sz"
    using mem B by (simp add: unat_word_ariths mem_bounded_def)
  have new: "?dev \<notin> fst ` set (Instructions st)"
    using inv chain_from_range by (fastforce simp: dis_inv_def)
  then have ins: "Instructions st' = Instructions st @
      [(?dev, \<lparr>MCInst = i, LoadedDeviceAddress = ?dev, InstSize = sz\<rparr>)]"
    by (simp add: st' mv_insert_def map_of_eq_None_iff)
  have ends: "\<forall>e\<in>set (Instructions st). \<not> is_trace_end (MCInst (snd e))"
  proof (cases "Instructions st" rule: rev_cases)
    case (snoc u e)
    with inv go show ?thesis by (auto simp: dis_inv_def)
  qed simp
  have "dis_inv E ts s st'"
    using inv ins ends False dec sz(1) go unfolding dis_inv_def
    by (auto simp: chain_from_snoc st' decoded_def word_less_nat_alt sum)
  then show ?thesis
    using sz sum inv host go False by (auto simp: st' dis_inv_def)
qed

lemma dis_inner_inv:
  assumes mem: "mem_bounded E B" and B: "unat end_addr \<le> B"
  shows "dis_inv E ts s st \<Longrightarrow> CurrentHostAddr st = CurrentDeviceAddress st \<Longrightarrow>
    dis_inner n E ts end_addr st = Some (Inr st') \<Longrightarrow>
    dis_inv E ts s st' \<and> unat (CurrentDeviceAddress st) \<le> unat (CurrentDeviceAddress st')"
proof (induction n arbitrary: st)
  case 0
  then show ?case by simp
next
  case (Suc n)
  show ?case
  proof (cases "\<not> WasTraceTerm st \<and> \<not> StoppedByOverlap st \<and> CurrentHostAddr st < end_addr")
    case False
    with Suc.prems show ?thesis by auto
  next
    case True
    with Suc.prems(3) obtain st1 where st1: "dis_step E ts end_addr st = Inr st1"
      "dis_inner n E ts end_addr st1 = Some (Inr st')"
      by (auto split: sum.splits)
    have "CurrentDeviceAddress st < end_addr" using True Suc.prems(2) by simp
    from dis_step_inv [OF mem Suc.prems(1,2) this B _ st1(1)] True
    have inv1: "dis_inv E ts s st1" "CurrentHostAddr st1 = CurrentDeviceAddress st1"
      "unat (CurrentDeviceAddress st) \<le> unat (CurrentDeviceAddress st1)"
      by (auto split: if_splits)
    from Suc.IH [OF inv1(1,2) st1(2)] inv1(3) show ?thesis by simp
  qed
qed

text \<open>With enough fuel for the rest of the segment the inner loop ends, and it has made progress.\<close>

lemma dis_inner_terminates:
  assumes mem: "mem_bounded E B" and B: "unat end_addr \<le> B"
  shows "dis_inv E ts s st \<Longrightarrow> CurrentHostAddr st = CurrentDeviceAddress st \<Longrightarrow>
    unat end_addr - unat (CurrentDeviceAddress st) + 1 < n \<Longrightarrow>
    \<exists>r. dis_inner n E ts end_addr st = Some r \<and>
      (case r of Inl e \<Rightarrow> True | Inr st' \<Rightarrow>
        WasTraceTerm st' \<or> StoppedByOverlap st' \<or> unat end_addr \<le> unat (CurrentDeviceAddress st'))"
proof (induction n arbitrary: st)
  case 0
  then show ?case by simp
next
  case (Suc n)
  show ?case
  proof (cases "\<not> WasTraceTerm st \<and> \<not> StoppedByOverlap st \<and> CurrentHostAddr st < end_addr")
    case False
    with Suc.prems(2) show ?thesis by (auto simp: word_less_nat_alt)
  next
    case True
    show ?thesis
    proof (cases "dis_step E ts end_addr st")
      case (Inl e)
      with True show ?thesis by auto
    next
      case (Inr st1)
      have lt: "CurrentDeviceAddress st < end_addr" using True Suc.prems(2) by simp
      from dis_step_inv [OF mem Suc.prems(1,2) lt B _ Inr] True
      have inv1: "dis_inv E ts s st1" "CurrentHostAddr st1 = CurrentDeviceAddress st1"
        "StoppedByOverlap st1 \<or> unat (CurrentDeviceAddress st) < unat (CurrentDeviceAddress st1)"
        by (auto split: if_splits)
      show ?thesis
      proof (cases "StoppedByOverlap st1")
        case True1: True
        obtain m where "n = Suc m" using Suc.prems(3) by (cases n) auto
        with True Inr True1 show ?thesis by auto
      next
        case False
        with inv1(3) Suc.prems(3) lt
        have "unat end_addr - unat (CurrentDeviceAddress st1) + 1 < n"
          by (simp add: word_less_nat_alt)
        from Suc.IH [OF inv1(1,2) this] True Inr show ?thesis by auto
      qed
    qed
  qed
qed

text \<open>There is no code at an address when no allocation contains it.\<close>

definition no_code :: "trace_env \<Rightarrow> addr \<Rightarrow> bool" where
  "no_code E a \<longleftrightarrow> (case getAllocationDescriptor E a of Inl u \<Rightarrow> False | Inr d \<Rightarrow> Size d = 0)"

lemma EntryPointHostAddr_eq [simp]: "EntryPointHostAddr d a = a"
  by (simp add: EntryPointHostAddr_def)

lemma dis_inv_host [simp]: "dis_inv E ts s (st\<lparr>CurrentHostAddr := h\<rparr>) = dis_inv E ts s st"
  by (simp add: dis_inv_def)

lemma segment_end:
  assumes "mem_bounded E B" and "getAllocationDescriptor E a = Inr d" and "Size d \<noteq> 0"
  shows "unat (a + Size d) = unat a + unat (Size d)" "unat (a + Size d) \<le> B" "0 < unat (Size d)"
proof -
  have le: "unat a + unat (Size d) \<le> B" "B < 2 ^ 64"
    using assms by (auto simp: mem_bounded_def)
  then show "unat (a + Size d) = unat a + unat (Size d)" by (simp add: unat_word_ariths)
  with le show "unat (a + Size d) \<le> B" by simp
  show "0 < unat (Size d)" using assms(3) by (simp add: unat_gt_0)
qed

lemma dis_inner_go:
  assumes "\<not> WasTraceTerm st \<and> \<not> StoppedByOverlap st \<and> CurrentHostAddr st < e"
  shows "dis_inner (Suc n) E ts e st =
    (case dis_step E ts e st of Inl x \<Rightarrow> Some (Inl x) | Inr st' \<Rightarrow> dis_inner n E ts e st')"
  using assms by simp

lemma dis_outer_go:
  assumes "\<not> (WasTraceTerm st \<or> StoppedByOverlap st)"
    and "getAllocationDescriptor E (CurrentDeviceAddress st) = Inr d" and "Size d \<noteq> 0"
  shows "dis_outer (Suc n) E ts st =
    (case dis_inner n E ts (CurrentDeviceAddress st + Size d)
        (st\<lparr>CurrentHostAddr := CurrentDeviceAddress st\<rparr>) of
       None \<Rightarrow> None
     | Some (Inl e) \<Rightarrow> Some (Inl e)
     | Some (Inr st') \<Rightarrow> dis_outer n E ts st')"
  using assms by (simp add: Let_def)

lemma dis_outer_inv:
  assumes mem: "mem_bounded E B"
  shows "dis_inv E ts s st \<Longrightarrow> dis_outer n E ts st = Some (Inr st') \<Longrightarrow>
    dis_inv E ts s st' \<and>
    (WasTraceTerm st' \<or> StoppedByOverlap st' \<or> no_code E (CurrentDeviceAddress st'))"
proof (induction n arbitrary: st)
  case 0
  then show ?case by simp
next
  case (Suc n)
  show ?case
  proof (cases "WasTraceTerm st \<or> StoppedByOverlap st")
    case True
    with Suc.prems show ?thesis by auto
  next
    case False
    with Suc.prems(2) obtain d where d: "getAllocationDescriptor E (CurrentDeviceAddress st) = Inr d"
      by (auto split: sum.splits)
    show ?thesis
    proof (cases "Size d = 0")
      case True
      with False d Suc.prems show ?thesis by (auto simp: no_code_def)
    next
      case size: False
      let ?dev = "CurrentDeviceAddress st"
      from Suc.prems(2) obtain st1 where
        st1: "dis_inner n E ts (?dev + Size d) (st\<lparr>CurrentHostAddr := ?dev\<rparr>) = Some (Inr st1)"
          "dis_outer n E ts st1 = Some (Inr st')"
        unfolding dis_outer_go [OF False d size] by (auto split: option.splits sum.splits)
      have "dis_inv E ts s st1"
        using dis_inner_inv [OF mem segment_end(2) [OF mem d size] _ _ st1(1)] Suc.prems(1) by simp
      from Suc.IH [OF this st1(2)] show ?thesis .
    qed
  qed
qed

lemma dis_outer_terminates:
  assumes mem: "mem_bounded E B"
  shows "dis_inv E ts s st \<Longrightarrow> B - unat (CurrentDeviceAddress st) + 2 < n \<Longrightarrow>
    \<exists>r. dis_outer n E ts st = Some r"
proof (induction n arbitrary: st)
  case 0
  then show ?case by simp
next
  case (Suc n)
  let ?dev = "CurrentDeviceAddress st"
  obtain m where m: "n = Suc m" using Suc.prems(2) by (cases n) auto
  show ?case
  proof (cases "WasTraceTerm st \<or> StoppedByOverlap st")
    case True
    then show ?thesis by auto
  next
    case go: False
    show ?thesis
    proof (cases "getAllocationDescriptor E ?dev")
      case (Inl u)
      with go show ?thesis by auto
    next
      case (Inr d)
      show ?thesis
      proof (cases "Size d = 0")
        case True
        with go Inr show ?thesis by auto
      next
        case size: False
        note seg = segment_end [OF mem Inr size]
        let ?st = "st\<lparr>CurrentHostAddr := ?dev\<rparr>"
        have inv: "dis_inv E ts s ?st" using Suc.prems(1) by simp
        have fuel: "unat (?dev + Size d) - unat (CurrentDeviceAddress ?st) + 1 < n"
          using Suc.prems(2) seg by simp
        from dis_inner_terminates [OF mem seg(2) inv _ fuel] obtain r where
          r: "dis_inner n E ts (?dev + Size d) ?st = Some r"
            "case r of Inl e \<Rightarrow> True | Inr st' \<Rightarrow> WasTraceTerm st' \<or> StoppedByOverlap st' \<or>
               unat (?dev + Size d) \<le> unat (CurrentDeviceAddress st')"
          by auto
        show ?thesis
        proof (cases r)
          case (Inl e)
          with r show ?thesis unfolding dis_outer_go [OF go Inr size] by auto
        next
          case st1: (Inr st1)
          have inv1: "dis_inv E ts s st1"
            using dis_inner_inv [OF mem seg(2) inv _ r(1) [unfolded st1]] by simp
          have "\<exists>r. dis_outer n E ts st1 = Some r"
          proof (cases "WasTraceTerm st1 \<or> StoppedByOverlap st1")
            case True
            then show ?thesis by (auto simp: m)
          next
            case False
            with r(2) st1 have "unat (?dev + Size d) \<le> unat (CurrentDeviceAddress st1)" by simp
            with Suc.prems(2) seg have "B - unat (CurrentDeviceAddress st1) + 2 < n" by linarith
            from Suc.IH [OF inv1 this] show ?thesis .
          qed
          with r(1) st1 show ?thesis
            unfolding dis_outer_go [OF go \<open>getAllocationDescriptor E ?dev = Inr d\<close> size] by auto
        qed
      qed
    qed
  qed
qed

text \<open>More fuel gives the same result.\<close>

lemma dis_inner_mono:
  "dis_inner n E ts e st = Some r \<Longrightarrow> dis_inner (Suc n) E ts e st = Some r"
proof (induction n arbitrary: st)
  case 0
  then show ?case by simp
next
  case (Suc n)
  show ?case
  proof (cases "\<not> WasTraceTerm st \<and> \<not> StoppedByOverlap st \<and> CurrentHostAddr st < e")
    case True
    show ?thesis
    proof (cases "dis_step E ts e st")
      case (Inl x)
      with Suc.prems show ?thesis unfolding dis_inner_go [OF True]
        by (auto simp del: dis_inner.simps)
    next
      case (Inr st1)
      with Suc.prems have "dis_inner n E ts e st1 = Some r"
        unfolding dis_inner_go [OF True] by simp
      from Suc.IH [OF this] Inr show ?thesis unfolding dis_inner_go [OF True, of "Suc n"]
        by (simp only: sum.case)
    qed
  next
    case False
    with Suc.prems show ?thesis by auto
  qed
qed

lemma dis_outer_mono:
  "dis_outer n E ts st = Some r \<Longrightarrow> dis_outer (Suc n) E ts st = Some r"
proof (induction n arbitrary: st)
  case 0
  then show ?case by simp
next
  case (Suc n)
  show ?case
  proof (cases "WasTraceTerm st \<or> StoppedByOverlap st")
    case True
    with Suc.prems show ?thesis by auto
  next
    case go: False
    show ?thesis
    proof (cases "getAllocationDescriptor E (CurrentDeviceAddress st)")
      case (Inl u)
      with go Suc.prems show ?thesis by simp
    next
      case (Inr d)
      show ?thesis
      proof (cases "Size d = 0")
        case True
        with go Inr Suc.prems show ?thesis by simp
      next
        case False
        let ?st = "st\<lparr>CurrentHostAddr := CurrentDeviceAddress st\<rparr>"
        let ?e = "CurrentDeviceAddress st + Size d"
        note go' = dis_outer_go [OF go Inr False]
        from Suc.prems obtain q where q: "dis_inner n E ts ?e ?st = Some q"
          unfolding go' by (auto split: option.splits)
        note q' = dis_inner_mono [OF q]
        show ?thesis
        proof (cases q)
          case (Inl x)
          with Suc.prems q q' show ?thesis
            unfolding go' go' [of "Suc n"] by (auto simp del: dis_inner.simps dis_outer.simps)
        next
          case st1: (Inr st1)
          with Suc.prems q have "dis_outer n E ts st1 = Some r" unfolding go' by simp
          from Suc.IH [OF this] q' st1 show ?thesis
            unfolding go' [of "Suc n"] by (simp only: option.case sum.case)
        qed
      qed
    qed
  qed
qed

lemma dis_outer_mono_le:
  "n \<le> m \<Longrightarrow> dis_outer n E ts st = Some r \<Longrightarrow> dis_outer m E ts st = Some r"
proof (induction m rule: dec_induct)
  case base
  then show ?case .
next
  case (step m)
  then show ?case by (blast intro: dis_outer_mono)
qed

lemma disassembleTrace_terminates:
  assumes "mem_bounded E B"
  shows "\<exists>r. \<forall>n. B + 3 \<le> n \<longrightarrow> disassembleTrace n E a ts = Some r"
proof -
  have inv: "dis_inv E ts a (start_state a)"
    by (simp add: dis_inv_def start_state_def)
  from dis_outer_terminates [OF assms inv, of "B + 3"] obtain r where
    "dis_outer (B + 3) E ts (start_state a) = Some r"
    by (fastforce simp: start_state_def)
  then have "\<forall>n\<ge>B + 3. dis_outer n E ts (start_state a) = Some r"
    using dis_outer_mono_le by blast
  then show ?thesis by (cases r) (auto simp: disassembleTrace_def)
qed

text \<open>A trace from \<open>a\<close> to its last instruction at \<open>l\<close>, next to the traces \<open>ts\<close>.\<close>

definition trace_ok :: "trace_env \<Rightarrow> (addr \<Rightarrow> bool) \<Rightarrow> addr \<Rightarrow> trace \<Rightarrow> bool" where
  "trace_ok E cov a t \<longleftrightarrow> (\<exists>b. chain_from a t b \<and>
     (is_trace_end (MCInst (snd (last t))) \<or> cov b \<or> no_code E b)) \<and>
     (\<forall>e\<in>set t. decoded E e) \<and> (\<forall>e\<in>set (butlast t). \<not> is_trace_end (MCInst (snd e)))"

lemma trace_ok_mono: "trace_ok E cov a t \<Longrightarrow> (\<And>b. cov b \<Longrightarrow> cov' b) \<Longrightarrow> trace_ok E cov' a t"
  by (auto simp: trace_ok_def)

lemma disassembleTrace_ok:
  assumes mem: "mem_bounded E B" and new: "\<not> covered_in ts a"
    and dis: "disassembleTrace n E a ts = Some (Inr (t, l))"
  shows "if t = [] then no_code E a
    else l = fst (last t) \<and> trace_ok E (covered_in ts) a t \<and> (\<forall>e\<in>set t. \<not> covered_in ts (fst e))"
proof -
  have inv0: "dis_inv E ts a (start_state a)"
    by (simp add: dis_inv_def start_state_def)
  from dis obtain st where st: "dis_outer n E ts (start_state a) = Some (Inr st)"
    "t = Instructions st" "l = LastInstructionAddr st"
    by (auto simp: disassembleTrace_def split: option.splits sum.splits)
  from dis_outer_inv [OF mem inv0 st(1)] have inv: "dis_inv E ts a st"
    and fin: "WasTraceTerm st \<or> StoppedByOverlap st \<or> no_code E (CurrentDeviceAddress st)"
    by auto
  show ?thesis
  proof (cases "t = []")
    case True
    with inv st(2) have "CurrentDeviceAddress st = a" "\<not> WasTraceTerm st"
      by (auto simp: dis_inv_def)
    with fin inv new have "no_code E a" by (auto simp: dis_inv_def)
    with True show ?thesis by simp
  next
    case False
    have "is_trace_end (MCInst (snd (last t))) \<or> covered_in ts (CurrentDeviceAddress st) \<or>
        no_code E (CurrentDeviceAddress st)"
      using fin inv st(2) by (auto simp: dis_inv_def)
    with False inv st(2,3) show ?thesis by (auto simp: dis_inv_def trace_ok_def)
  qed
qed

subsection \<open>The worklist\<close>

definition branches_known :: "trace \<Rightarrow> addr set \<Rightarrow> bool" where
  "branches_known t tg \<longleftrightarrow> (\<forall>x\<in>set t. isDirectBranch (MCInst (snd x)) \<longrightarrow>
     (\<exists>b\<in>tg. evaluateDirectBranchOrCall (MCInst (snd x)) (fst x) = Inr b))"

lemma branches_known_mono: "branches_known t tg \<Longrightarrow> tg \<subseteq> tg' \<Longrightarrow> branches_known t tg'"
  by (auto simp: branches_known_def)

definition group_ok :: "trace_env \<Rightarrow> trace_group \<Rightarrow> addr set \<Rightarrow> bool" where
  "group_ok E ts tg \<longleftrightarrow> sorted_wrt (<) (map fst ts) \<and>
     (\<forall>((s, e), t)\<in>set ts. t \<noteq> [] \<and> e = fst (last t) \<and> trace_ok E (covered_in ts) s t \<and>
        branches_known t tg) \<and>
     (\<forall>(k, t)\<in>set ts. \<forall>(k', t')\<in>set ts. k = k' \<or> fst ` set t \<inter> fst ` set t' = {})"

lemma group_okD:
  assumes "group_ok E ts tg" and "((s, e), t) \<in> set ts"
  shows "t \<noteq> []" "e = fst (last t)" "trace_ok E (covered_in ts) s t" "branches_known t tg"
  using assms by (auto simp: group_ok_def)

lemma group_ok_disjoint:
  assumes "group_ok E ts tg" and "(k, u) \<in> set ts" and "(k', u') \<in> set ts"
  shows "k = k' \<or> fst ` set u \<inter> fst ` set u' = {}"
proof -
  have "\<forall>(k, u)\<in>set ts. \<forall>(k', u')\<in>set ts. k = k' \<or> fst ` set u \<inter> fst ` set u' = {}"
    using assms(1) by (simp add: group_ok_def)
  from bspec [OF this assms(2)] have "\<forall>(k', u')\<in>set ts. k = k' \<or> fst ` set u \<inter> fst ` set u' = {}"
    by simp
  from bspec [OF this assms(3)] show ?thesis by simp
qed

lemma trace_ok_covers:
  assumes "trace_ok E cov s t" and "t \<noteq> []"
  shows "s \<in> fst ` set t" "x \<in> fst ` set t \<Longrightarrow> s \<le> x \<and> x \<le> fst (last t)"
proof -
  from assms(1) obtain b where b: "chain_from s t b" by (auto simp: trace_ok_def)
  show "s \<in> fst ` set t" by (rule chain_from_start [OF b assms(2)])
  show "s \<le> x \<and> x \<le> fst (last t)" if "x \<in> fst ` set t"
    using chain_from_range [OF b] chain_from_last [OF b assms(2) that] that by blast
qed

lemma covered_in_iff:
  assumes "\<And>s e t. ((s, e), t) \<in> set ts \<Longrightarrow> t \<noteq> [] \<and> e = fst (last t) \<and> trace_ok E cov s t"
  shows "covered_in ts a \<longleftrightarrow> (\<exists>(k, t)\<in>set ts. a \<in> fst ` set t)"
proof
  assume "covered_in ts a"
  then show "\<exists>(k, t)\<in>set ts. a \<in> fst ` set t"
    by (auto simp: covered_in_def list_ex_iff contains_iff)
next
  assume "\<exists>(k, t)\<in>set ts. a \<in> fst ` set t"
  then obtain s e t where t: "((s, e), t) \<in> set ts" "a \<in> fst ` set t" by auto
  from assms [OF t(1)] have "s \<le> a \<and> a \<le> e" using trace_ok_covers(2) [OF _ _ t(2)] by blast
  with t show "covered_in ts a" by (auto simp: covered_in_def list_ex_iff contains_iff)
qed

lemma covered_iff: "group_ok E ts tg \<Longrightarrow> covered_in ts a \<longleftrightarrow> (\<exists>(k, t)\<in>set ts. a \<in> fst ` set t)"
  by (rule covered_in_iff) (use group_okD in blast)

lemma set_omap_insert_new:
  assumes "k \<notin> fst ` set m"
  shows "set (omap_insert k v m) = insert (k, v) (set m)"
proof -
  have "k \<in> fst ` set (omap_insert k v m)" by (simp add: fst_omap_insert)
  then obtain w where w: "(k, w) \<in> set (omap_insert k v m)" by auto
  with set_omap_insert [of k v m] have "(k, w) \<in> insert (k, v) (set m)" by (rule subsetD)
  moreover from assms have "(k, w) \<notin> set m" by (metis fst_conv imageI)
  ultimately have "w = v" by simp
  with w have "insert (k, v) (set m) \<subseteq> set (omap_insert k v m)"
    by (simp add: set_omap_insert_mono)
  with set_omap_insert [of k v m] show ?thesis by (rule equalityI)
qed

lemma group_ok_add:
  assumes ok: "group_ok E ts tg" and new: "\<not> covered_in ts a" and ne: "t \<noteq> []"
    and t: "trace_ok E (covered_in ts) a t" and fresh: "\<forall>e\<in>set t. \<not> covered_in ts (fst e)"
    and tg: "tg \<subseteq> tg'" and br: "branches_known t tg'"
  shows "group_ok E (omap_insert (a, fst (last t)) t ts) tg'"
    and "covered_in (omap_insert (a, fst (last t)) t ts) x \<longleftrightarrow> covered_in ts x \<or> contains t x"
proof -
  let ?ts = "omap_insert (a, fst (last t)) t ts"
  have "(a, fst (last t)) \<notin> fst ` set ts"
  proof
    assume "(a, fst (last t)) \<in> fst ` set ts"
    then obtain u where u: "((a, fst (last t)), u) \<in> set ts" by auto
    from group_okD [OF ok u] trace_ok_covers(1) have "a \<in> fst ` set u" by blast
    with u new show False by (auto simp: covered_iff [OF ok])
  qed
  then have set: "set ?ts = insert ((a, fst (last t)), t) (set ts)" by (rule set_omap_insert_new)
  have cov: "covered_in ?ts x \<longleftrightarrow> covered_in ts x \<or> contains t x" for x
    by (subst covered_in_iff [where E = E and cov = "covered_in ts"])
      (use ok t ne in \<open>auto simp: set covered_iff [OF ok] contains_iff dest: group_okD\<close>)
  then show "covered_in ?ts x \<longleftrightarrow> covered_in ts x \<or> contains t x" .
  have mono: "trace_ok E (covered_in ?ts) s u" if "trace_ok E (covered_in ts) s u" for s u
    using that by (rule trace_ok_mono) (simp add: cov)
  have "sorted_wrt (<) (map fst ?ts)"
    using ok by (simp add: group_ok_def sorted_omap_insert)
  moreover have "\<forall>((s, e), u)\<in>set ?ts. u \<noteq> [] \<and> e = fst (last u) \<and>
      trace_ok E (covered_in ?ts) s u \<and> branches_known u tg'"
  proof -
    have "u \<noteq> [] \<and> e = fst (last u) \<and> trace_ok E (covered_in ?ts) s u \<and> branches_known u tg'"
      if "((s, e), u) \<in> set ts" for s e u
      using group_okD [OF ok that] mono branches_known_mono [OF _ tg] by simp
    then have "\<forall>((s, e), u)\<in>set ts. u \<noteq> [] \<and> e = fst (last u) \<and>
        trace_ok E (covered_in ?ts) s u \<and> branches_known u tg'"
      by auto
    moreover have "trace_ok E (covered_in ?ts) a t" by (rule mono [OF t])
    ultimately show ?thesis using ne br by (simp add: set)
  qed
  moreover have "k = k' \<or> fst ` set u \<inter> fst ` set u' = {}"
    if "(k, u) \<in> set ?ts" "(k', u') \<in> set ?ts" for k u k' u'
  proof -
    have fresh': "fst ` set t \<inter> fst ` set v = {}" if "(l, v) \<in> set ts" for l v
      using fresh that by (auto simp: covered_iff [OF ok])
    from that consider "(k, u) \<in> set ts" "(k', u') \<in> set ts"
      | "u = t" "(k', u') \<in> set ts" | "u' = t" "(k, u) \<in> set ts" | "k = k'"
      unfolding set by auto
    then show ?thesis
    proof cases
      case 2
      then show ?thesis using fresh' by simp
    next
      case 3
      then show ?thesis using fresh' [of k u] by (simp add: Int_commute)
    qed (use group_ok_disjoint [OF ok] in blast)+
  qed
  then have "\<forall>(k, u)\<in>set ?ts. \<forall>(k', u')\<in>set ?ts. k = k' \<or> fst ` set u \<inter> fst ` set u' = {}"
    by (simp add: case_prod_beta')
  ultimately show "group_ok E ?ts tg'" by (simp add: group_ok_def)
qed

lemma visit_branch_Inr:
  assumes "visit_branch t e D = Inr D'"
  shows "Traces (found D') = Traces (found D) \<and>
    set (DirectBranchTargets (found D)) \<subseteq> set (DirectBranchTargets (found D')) \<and>
    set (UnvisitedTraceAddresses D) \<subseteq> set (UnvisitedTraceAddresses D') \<and>
    branches_known [e] (set (DirectBranchTargets (found D'))) \<and>
    (\<forall>b\<in>set (DirectBranchTargets (found D')). b \<in> set (DirectBranchTargets (found D)) \<or>
       contains t b \<or> (\<exists>(k, u)\<in>set (Traces (found D)). b \<in> fst ` set u) \<or>
       b \<in> set (UnvisitedTraceAddresses D'))"
proof (cases "isDirectBranch (MCInst (snd e))")
  case True
  with assms obtain b where b: "evaluateDirectBranchOrCall (MCInst (snd e)) (fst e) = Inr b"
    by (auto simp: visit_branch_def err_bind_Inr_iff)
  show ?thesis
  proof (cases "contains t b \<or> list_ex (\<lambda>(k, t'). contains t' b) (Traces (found D))")
    case known: True
    with assms True b have "D' = D\<lparr>found := (found D)\<lparr>DirectBranchTargets :=
        List.insert b (DirectBranchTargets (found D))\<rparr>\<rparr>"
      by (simp add: visit_branch_def Let_def)
    with b known show ?thesis
      by (auto simp: branches_known_def list_ex_iff contains_iff)
  next
    case False
    with assms True b have "D' = D\<lparr>found := (found D)\<lparr>DirectBranchTargets :=
        List.insert b (DirectBranchTargets (found D))\<rparr>,
        UnvisitedTraceAddresses := List.insert b (UnvisitedTraceAddresses D)\<rparr>"
      by (simp add: visit_branch_def Let_def)
    with b show ?thesis by (auto simp: branches_known_def)
  qed
next
  case False
  with assms show ?thesis by (simp add: visit_branch_def branches_known_def)
qed

lemma visit_branch_fold:
  assumes "err_fold (visit_branch t) u D = Inr D'"
  shows "Traces (found D') = Traces (found D) \<and>
    set (DirectBranchTargets (found D)) \<subseteq> set (DirectBranchTargets (found D')) \<and>
    set (UnvisitedTraceAddresses D) \<subseteq> set (UnvisitedTraceAddresses D') \<and>
    branches_known u (set (DirectBranchTargets (found D'))) \<and>
    (\<forall>b\<in>set (DirectBranchTargets (found D')). b \<in> set (DirectBranchTargets (found D)) \<or>
       contains t b \<or> (\<exists>(k, u)\<in>set (Traces (found D)). b \<in> fst ` set u) \<or>
       b \<in> set (UnvisitedTraceAddresses D'))"
  using assms
proof (induction u arbitrary: D)
  case Nil
  then show ?case by (simp add: branches_known_def)
next
  case (Cons e u)
  then obtain D1 where D1: "visit_branch t e D = Inr D1" "err_fold (visit_branch t) u D1 = Inr D'"
    by (auto simp: err_bind_Inr_iff)
  note step = visit_branch_Inr [OF D1(1)] and rest = Cons.IH [OF D1(2)]
  have "branches_known (e # u) (set (DirectBranchTargets (found D')))"
    using step rest branches_known_mono [of "[e]" "set (DirectBranchTargets (found D1))"]
    by (simp add: branches_known_def)
  moreover have "b \<in> set (DirectBranchTargets (found D)) \<or> contains t b \<or>
      (\<exists>(k, u)\<in>set (Traces (found D)). b \<in> fst ` set u) \<or> b \<in> set (UnvisitedTraceAddresses D')"
    if "b \<in> set (DirectBranchTargets (found D'))" for b
  proof -
    have "b \<in> set (DirectBranchTargets (found D1)) \<or> contains t b \<or>
        (\<exists>(k, u)\<in>set (Traces (found D1)). b \<in> fst ` set u) \<or> b \<in> set (UnvisitedTraceAddresses D')"
      using rest that by (elim conjE) (rule bspec)
    moreover have "b \<in> set (DirectBranchTargets (found D)) \<or> contains t b \<or>
        (\<exists>(k, u)\<in>set (Traces (found D)). b \<in> fst ` set u) \<or> b \<in> set (UnvisitedTraceAddresses D1)"
      if "b \<in> set (DirectBranchTargets (found D1))"
      using step that by (elim conjE) (rule bspec)
    moreover have "Traces (found D1) = Traces (found D)"
      "set (UnvisitedTraceAddresses D1) \<subseteq> set (UnvisitedTraceAddresses D')"
      using step rest by simp_all
    ultimately show ?thesis by (elim disjE) auto
  qed
  moreover have "Traces (found D') = Traces (found D)"
    "set (DirectBranchTargets (found D)) \<subseteq> set (DirectBranchTargets (found D'))"
    "set (UnvisitedTraceAddresses D) \<subseteq> set (UnvisitedTraceAddresses D')"
    using step rest by auto
  ultimately show ?case by blast
qed

definition disc_inv :: "trace_env \<Rightarrow> addr \<Rightarrow> discovery \<Rightarrow> bool" where
  "disc_inv E s D \<longleftrightarrow> group_ok E (Traces (found D)) (set (DirectBranchTargets (found D))) \<and>
     (\<forall>b\<in>insert s (set (DirectBranchTargets (found D))).
        covered_in (Traces (found D)) b \<or> no_code E b \<or> b \<in> set (UnvisitedTraceAddresses D))"

definition uncovered :: "discovery \<Rightarrow> addr set" where
  "uncovered D = {a. \<not> covered_in (Traces (found D)) a}"

lemma next_address_in: "UnvisitedTraceAddresses D \<noteq> [] \<Longrightarrow> next_address D \<in> set (UnvisitedTraceAddresses D)"
  by (simp add: next_address_def)

lemma erase_simps [simp]:
  "found (erase a D) = found D"
  "set (UnvisitedTraceAddresses (erase a D)) = set (UnvisitedTraceAddresses D) - {a}"
  by (auto simp: erase_def)

lemma erase_shorter:
  "a \<in> set (UnvisitedTraceAddresses D) \<Longrightarrow>
   length (UnvisitedTraceAddresses (erase a D)) < length (UnvisitedTraceAddresses D)"
  by (simp add: erase_def length_removeAll_less)

text \<open>
  An iteration keeps the invariant and either shrinks the set of uncovered addresses or keeps it and
  shortens the worklist.
\<close>

lemma visit_address_step:
  assumes mem: "mem_bounded E B" and inv: "disc_inv E s D" and ne: "UnvisitedTraceAddresses D \<noteq> []"
    and visit: "visit_address n E D = Some (Inr D')"
  shows "disc_inv E s D' \<and> (uncovered D' \<subset> uncovered D \<or>
    uncovered D' = uncovered D \<and>
    length (UnvisitedTraceAddresses D') < length (UnvisitedTraceAddresses D))"
proof -
  let ?a = "next_address D" and ?ts = "Traces (found D)"
  have a: "?a \<in> set (UnvisitedTraceAddresses D)" by (rule next_address_in [OF ne])
  have ok: "group_ok E ?ts (set (DirectBranchTargets (found D)))" using inv by (simp add: disc_inv_def)
  show ?thesis
  proof (cases "covered_in ?ts ?a")
    case True
    with visit have "D' = erase ?a D" by (simp add: visit_address_def Let_def)
    with True inv erase_shorter [OF a] show ?thesis by (auto simp: disc_inv_def uncovered_def)
  next
    case False
    with visit obtain t l D1 where dis: "disassembleTrace n E ?a ?ts = Some (Inr (t, l))"
      and D1: "err_fold (visit_branch t) t D = Inr D1" and D': "D' = erase ?a (add_trace ?a l t D1)"
      by (auto simp: visit_address_def Let_def err_bind_Inr_iff split: option.splits sum.splits)
    from disassembleTrace_ok [OF mem False dis] have t: "if t = [] then no_code E ?a
      else l = fst (last t) \<and> trace_ok E (covered_in ?ts) ?a t \<and> (\<forall>e\<in>set t. \<not> covered_in ?ts (fst e))" .
    from visit_branch_fold [OF D1] have D1': "Traces (found D1) = ?ts"
      "set (DirectBranchTargets (found D)) \<subseteq> set (DirectBranchTargets (found D1))"
      "set (UnvisitedTraceAddresses D) \<subseteq> set (UnvisitedTraceAddresses D1)"
      "branches_known t (set (DirectBranchTargets (found D1)))"
      "\<forall>b\<in>set (DirectBranchTargets (found D1)). b \<in> set (DirectBranchTargets (found D)) \<or>
         contains t b \<or> (\<exists>(k, u)\<in>set ?ts. b \<in> fst ` set u) \<or> b \<in> set (UnvisitedTraceAddresses D1)"
      by auto
    show ?thesis
    proof (cases "t = []")
      case True
      with D1 D' have "D' = erase ?a D" by (simp add: add_trace_def)
      with True t inv erase_shorter [OF a] show ?thesis by (auto simp: disc_inv_def uncovered_def)
    next
      case t_ne: False
      with t have t': "l = fst (last t)" "trace_ok E (covered_in ?ts) ?a t"
        "\<forall>e\<in>set t. \<not> covered_in ?ts (fst e)" by simp_all
      let ?ts' = "omap_insert (?a, fst (last t)) t ?ts"
      note add = group_ok_add [OF ok False t_ne t'(2,3) D1'(2,4)]
      have found': "Traces (found D') = ?ts'" "DirectBranchTargets (found D') = DirectBranchTargets (found D1)"
        "set (UnvisitedTraceAddresses D') = set (UnvisitedTraceAddresses D1) - {?a}"
        using t_ne D1'(1) by (simp_all add: D' add_trace_def t'(1))
      have a_cov: "covered_in ?ts' ?a"
        using trace_ok_covers(1) [OF t'(2) t_ne] by (simp add: add(2) contains_iff)
      have "covered_in ?ts' b \<or> no_code E b \<or> b \<in> set (UnvisitedTraceAddresses D1)"
        if b: "b \<in> insert s (set (DirectBranchTargets (found D1)))" for b
      proof -
        have "b \<in> insert s (set (DirectBranchTargets (found D))) \<Longrightarrow>
            covered_in ?ts b \<or> no_code E b \<or> b \<in> set (UnvisitedTraceAddresses D)"
          using inv by (auto simp: disc_inv_def)
        then show ?thesis
          using b D1'(3,5) add(2) covered_iff [OF ok, of b] by blast
      qed
      with add(1) a_cov have "disc_inv E s D'"
        unfolding disc_inv_def found' by blast
      moreover have "uncovered D' \<subset> uncovered D"
      proof
        show "uncovered D' \<subseteq> uncovered D" by (auto simp: uncovered_def found' add(2))
        show "uncovered D' \<noteq> uncovered D" using False a_cov by (auto simp: uncovered_def found')
      qed
      ultimately show ?thesis by simp
    qed
  qed
qed

lemma discover_loop_inv:
  assumes "mem_bounded E B"
  shows "disc_inv E s D \<Longrightarrow> discover_loop n E D = Some (Inr T) \<Longrightarrow>
    group_ok E (Traces T) (set (DirectBranchTargets T)) \<and>
    (\<forall>b\<in>insert s (set (DirectBranchTargets T)). covered_in (Traces T) b \<or> no_code E b)"
proof (induction n arbitrary: D)
  case 0
  then show ?case by simp
next
  case (Suc n)
  show ?case
  proof (cases "UnvisitedTraceAddresses D = []")
    case True
    with Suc.prems show ?thesis by (auto simp: disc_inv_def)
  next
    case False
    with Suc.prems(2) obtain D' where D': "visit_address n E D = Some (Inr D')"
      "discover_loop n E D' = Some (Inr T)"
      by (auto split: option.splits sum.splits)
    from visit_address_step [OF assms Suc.prems(1) False D'(1)] Suc.IH D'(2) show ?thesis by blast
  qed
qed

lemma start_discovery_inv: "disc_inv E s (start_discovery s)"
  by (simp add: disc_inv_def start_discovery_def group_ok_def)

lemma visit_address_terminates:
  assumes "mem_bounded E B"
  shows "\<exists>r. \<forall>n. B + 3 \<le> n \<longrightarrow> visit_address n E D = Some r"
proof -
  obtain r where "\<forall>n. B + 3 \<le> n \<longrightarrow> disassembleTrace n E (next_address D) (Traces (found D)) = Some r"
    using disassembleTrace_terminates [OF assms] by blast
  then show ?thesis
    by (cases "covered_in (Traces (found D)) (next_address D)"; cases r)
      (auto simp: visit_address_def Let_def)
qed

lemma discover_loop_terminates:
  assumes mem: "mem_bounded E B"
  shows "disc_inv E s D \<Longrightarrow> \<exists>N r. \<forall>n\<ge>N. discover_loop n E D = Some r"
proof (induction D rule: wf_induct_rule [OF wf_measures
      [of "[\<lambda>D. card (uncovered D), \<lambda>D. length (UnvisitedTraceAddresses D)]"]])
  case (1 D)
  show ?case
  proof (cases "UnvisitedTraceAddresses D = []")
    case True
    have "discover_loop n E D = Some (Inr (found D))" if "1 \<le> n" for n
      using True that by (cases n) auto
    then show ?thesis by blast
  next
    case False
    obtain v where v: "\<forall>n. B + 3 \<le> n \<longrightarrow> visit_address n E D = Some v"
      using visit_address_terminates [OF mem] by blast
    have "\<exists>N r. \<forall>n\<ge>N. B + 3 \<le> n \<longrightarrow> discover_loop (Suc n) E D = Some r"
    proof (cases v)
      case (Inl e)
      with v False show ?thesis by (intro exI [of _ 0] exI [of _ "Inl e"]) auto
    next
      case (Inr D')
      with v have "visit_address (B + 3) E D = Some (Inr D')" by simp
      from visit_address_step [OF mem 1(2) False this] have D': "disc_inv E s D'"
        "uncovered D' \<subset> uncovered D \<or> uncovered D' = uncovered D \<and>
          length (UnvisitedTraceAddresses D') < length (UnvisitedTraceAddresses D)"
        by auto
      then have "(D', D) \<in> measures [\<lambda>D. card (uncovered D), \<lambda>D. length (UnvisitedTraceAddresses D)]"
        by (auto intro: psubset_card_mono)
      from 1(1) [OF this D'(1)] obtain N r where "\<forall>n\<ge>N. discover_loop n E D' = Some r" by blast
      with v Inr False show ?thesis by (intro exI [of _ N] exI [of _ r]) auto
    qed
    then obtain N r where N: "\<forall>n\<ge>N. B + 3 \<le> n \<longrightarrow> discover_loop (Suc n) E D = Some r" by blast
    have "discover_loop n E D = Some r" if "Suc (N + B + 3) \<le> n" for n
    proof -
      obtain m where "n = Suc m" "N \<le> m" "B + 3 \<le> m" using \<open>Suc (N + B + 3) \<le> n\<close> by (cases n) auto
      with N show ?thesis by simp
    qed
    then show ?thesis by blast
  qed
qed

subsection \<open>A small program in memory\<close>

text \<open>
  Four-byte instructions at \<open>16\<close> to \<open>35\<close>: a conditional branch over one instruction, two plain
  instructions, a return, then unreachable bytes. Memory outside is not allocated.
\<close>

definition plain_inst :: mc_inst where
  "plain_inst = \<lparr>operands = [], isReturn = False, isCall = False, isBranch = False,
     isIndirectBranch = False, isUnconditionalBranch = False, is_I_FORK = False, is_G_FORK = False\<rparr>"

definition cond_branch :: "64 word \<Rightarrow> mc_inst" where
  "cond_branch x = plain_inst\<lparr>operands := [Imm x], isBranch := True\<rparr>"

definition return_inst :: mc_inst where
  "return_inst = plain_inst\<lparr>isReturn := True\<rparr>"

definition i_fork :: mc_inst where
  "i_fork = plain_inst\<lparr>operands := [RegOp 0, Imm 1], is_I_FORK := True\<rparr>"

definition small_env :: trace_env where
  "small_env = \<lparr>
     getAllocationDescriptor = \<lambda>a. Inr \<lparr>DeviceAllocation = 16, HostAccessibleAllocation = 4096,
        Size = (if 16 \<le> a \<and> a < 32 then 32 - a else 0)\<rparr>,
     host_byte = \<lambda>a. 0,
     getInstruction = \<lambda>bs a. if length bs < 4 then None
        else Some (if a = 16 then cond_branch 1 else if a = 28 then return_inst else plain_inst, 4),
     MaxReadSize = 8\<rparr>"

lemma small_env_bounded: "mem_bounded small_env 32"
proof -
  have "unat a + unat (32 - a) \<le> 32" if "a < 32" for a :: addr
    using that by (simp add: unat_sub word_le_nat_alt word_less_nat_alt)
  then show ?thesis
    by (auto simp: mem_bounded_def small_env_def split: if_splits)
qed

text \<open>The traces of the program, by evaluation.\<close>

lemma small_traces:
  "case discoverTraces 12 (DeviceAddress 16) small_env of
     Some (Inr T) \<Rightarrow> map fst (Traces T) = [(16, 28)] \<and> DirectBranchTargets T = [24]
   | _ \<Rightarrow> False"
  by code_simp

lemma small_traces_ex:
  obtains T where "discoverTraces 12 (DeviceAddress 16) small_env = Some (Inr T)"
    "map fst (Traces T) = [(16, 28)]" "DirectBranchTargets T = [24]"
  using small_traces by (auto split: option.splits sum.splits)

subsection \<open>Properties\<close>

text \<open>
  C10: The discovery ends: with memory that is bounded below the end of the address space and a
  disassembler that consumes at least one byte, enough fuel gives a result, always the same one.
\<close>

theorem discoverTraces_terminates:
  assumes "mem_bounded E B"
  shows "\<exists>N r. \<forall>n\<ge>N. discoverTraces n ep E = Some r"
  unfolding discoverTraces_def
  by (rule discover_loop_terminates [OF assms start_discovery_inv])

theorem discoverTraces_terminates_witness:
  "\<exists>N r. \<forall>n\<ge>N. discoverTraces n (DeviceAddress 16) small_env = Some r"
  by (rule discoverTraces_terminates [OF small_env_bounded])

text \<open>
  C9: The discovered traces are closed under the control flow that the code can see. The entry point
  and every recorded branch target are in a trace unless no allocation contains them; the target of
  every direct branch in a trace is recorded; and a trace ends only after an instruction that ends
  it, or where another trace or no allocation continues.
\<close>

theorem discovered_traces_closed:
  assumes "mem_bounded E B" and "discoverTraces n ep E = Some (Inr T)"
  shows "(\<forall>a\<in>insert (getEntryPointAddress ep) (set (DirectBranchTargets T)).
      covered_in (Traces T) a \<or> no_code E a) \<and>
    (\<forall>((s, e), t)\<in>set (Traces T). branches_known t (set (DirectBranchTargets T)) \<and>
      trace_ok E (covered_in (Traces T)) s t)"
  using discover_loop_inv [OF assms(1) start_discovery_inv assms(2) [unfolded discoverTraces_def]]
  by (auto simp: group_ok_def)

theorem discovered_traces_closed_witness:
  "\<exists>T. discoverTraces 12 (DeviceAddress 16) small_env = Some (Inr T) \<and>
     (covered_in (Traces T) 24 \<or> no_code small_env 24) \<and> \<not> no_code small_env 24"
proof -
  obtain T where T: "discoverTraces 12 (DeviceAddress 16) small_env = Some (Inr T)"
    "DirectBranchTargets T = [24]"
    by (rule small_traces_ex)
  moreover have "\<not> no_code small_env 24"
    by (simp add: no_code_def small_env_def)
  ultimately show ?thesis
    using discovered_traces_closed [OF small_env_bounded T(1)] by simp
qed

text \<open>
  No instruction is disassembled into two traces: every address of the program is in at most one
  trace, also when a branch goes into the middle of one or a trace falls through into another.
\<close>

lemma traces_do_not_overlap:
  assumes "mem_bounded E B" and "discoverTraces n ep E = Some (Inr T)"
    and "(k, t) \<in> set (Traces T)" and "(k', t') \<in> set (Traces T)"
    and "contains t a" and "contains t' a"
  shows "k = k'"
proof -
  have "group_ok E (Traces T) (set (DirectBranchTargets T))"
    using discover_loop_inv [OF assms(1) start_discovery_inv assms(2) [unfolded discoverTraces_def]]
    by simp
  from group_ok_disjoint [OF this assms(3,4)] assms(5,6) show ?thesis by (auto simp: contains_iff)
qed

lemma traces_do_not_overlap_instance:
  "\<exists>T t. discoverTraces 12 (DeviceAddress 16) small_env = Some (Inr T) \<and> ((16, 28), t) \<in> set (Traces T) \<and>
     (\<forall>k t'. (k, t') \<in> set (Traces T) \<and> contains t 16 \<and> contains t' 16 \<longrightarrow> (16, 28) = k)"
proof -
  obtain T where T: "discoverTraces 12 (DeviceAddress 16) small_env = Some (Inr T)"
    "map fst (Traces T) = [(16, 28)]"
    by (rule small_traces_ex)
  then obtain t where t: "((16, 28), t) \<in> set (Traces T)" by auto
  from T(1) t show ?thesis
    using traces_do_not_overlap [OF small_env_bounded T(1) t] by blast
qed

text \<open>The environment with the host copies of the allocations moved.\<close>

definition with_host_copies :: "(addr \<Rightarrow> addr) \<Rightarrow> trace_env \<Rightarrow> trace_env" where
  "with_host_copies f E = E\<lparr>getAllocationDescriptor := \<lambda>a.
     (case getAllocationDescriptor E a of Inl u \<Rightarrow> Inl u
      | Inr d \<Rightarrow> Inr (d\<lparr>HostAccessibleAllocation := f a\<rparr>))\<rparr>"

lemma with_host_copies_simps [simp]:
  "host_byte (with_host_copies f E) = host_byte E"
  "getInstruction (with_host_copies f E) = getInstruction E"
  "MaxReadSize (with_host_copies f E) = MaxReadSize E"
  "getAllocationDescriptor (with_host_copies f E) a = (case getAllocationDescriptor E a of
      Inl u \<Rightarrow> Inl u | Inr d \<Rightarrow> Inr (d\<lparr>HostAccessibleAllocation := f a\<rparr>))"
  by (simp_all add: with_host_copies_def)

lemma read_host_copies [simp]: "read_host (with_host_copies f E) a n = read_host E a n"
  by (simp add: read_host_def)

lemma dis_step_host: "dis_step (with_host_copies f E) ts e st = dis_step E ts e st"
  by (simp only: dis_step_def with_host_copies_simps read_host_copies)

lemma dis_inner_host: "dis_inner n (with_host_copies f E) ts e st = dis_inner n E ts e st"
  by (induction n arbitrary: st) (simp_all add: dis_step_host split: sum.split)

lemma dis_outer_host: "dis_outer n (with_host_copies f E) ts st = dis_outer n E ts st"
proof (induction n arbitrary: st)
  case 0
  then show ?case by simp
next
  case (Suc n)
  show ?case
    by (cases "getAllocationDescriptor E (CurrentDeviceAddress st)")
      (simp_all add: dis_inner_host Suc.IH Let_def split: option.split sum.split)
qed

lemma visit_address_host: "visit_address n (with_host_copies f E) D = visit_address n E D"
  unfolding visit_address_def disassembleTrace_def dis_outer_host by (rule refl)

text \<open>
  The traces do not depend on the allocations' copies in host memory: whatever address the
  accessor gives for the host-accessible copy, the disassembler reads at the device address.
\<close>

lemma traces_ignore_host_copies:
  "discoverTraces n ep (with_host_copies f E) = discoverTraces n ep E"
proof -
  have "discover_loop n (with_host_copies f E) D = discover_loop n E D" for D
    by (induction n arbitrary: D) (simp_all add: visit_address_host split: option.split sum.split)
  then show ?thesis by (simp add: discoverTraces_def)
qed

text \<open>
  The target of a direct branch with the immediate \<open>x\<close>. A fork, whose target is its second operand,
  never gets one: the code checks that operand but reads the first one, a register.
\<close>

lemma direct_branch_target:
  "evaluateDirectBranchOrCall (i\<lparr>operands := [Imm x], is_I_FORK := False\<rparr>) a =
     Inr (a + 4 + 4 * scast (ucast x :: 16 word))"
  by (simp add: evaluateDirectBranchOrCall_def getImm_def branch_target_of_imm_def
      SignExtend64_16_def)

lemma fork_has_no_target:
  "evaluateDirectBranchOrCall (i\<lparr>operands := [RegOp r, Imm x], is_I_FORK := True\<rparr>) a =
     Inl OperandAssertion"
  by (simp add: evaluateDirectBranchOrCall_def getImm_def)

lemma word64_double_zero: "(w::64 word) + w = 0 \<longleftrightarrow> w = 0 \<or> w = 2 ^ 63"
proof
  assume "w + w = 0"
  then have "unat (w + w) = 0" by simp
  then have "(unat w + unat w) mod 2 ^ 64 = 0" by (simp only: unat_word_ariths(1)) simp
  then have "(2 * unat w) mod 2 ^ 64 = 0" by (simp only: mult_2)
  then obtain q where q: "2 * unat w = 2 ^ 64 * q" by (auto simp: mod_eq_0_iff_dvd)
  moreover have "unat w < 2 ^ 64" using unsigned_less [of w] by simp
  ultimately have "q < 2" by simp
  then have "q = 0 \<or> q = 1" by auto
  with q have "unat w = 0 \<or> unat w = 2 ^ 63" by auto
  moreover have "unat (2 ^ 63 :: 64 word) = 2 ^ 63" by simp
  ultimately show "w = 0 \<or> w = 2 ^ 63" by (simp only: word_unat_eq_iff unat_0)
next
  assume "w = 0 \<or> w = 2 ^ 63"
  then show "w + w = 0" by auto
qed

text \<open>
  The entry address of a kernel is its descriptor's address plus the signed byte offset when the
  offset is not negative. For a negative offset it is not, the smallest one apart: the code subtracts
  the offset.
\<close>

lemma kernel_entry_address:
  "if 0 \<le>s off then getEntryPointAddress (Kernel kd off) = kd + off
   else getEntryPointAddress (Kernel kd off) = kd + off \<longleftrightarrow> off = 2 ^ 63"
proof (cases "0 \<le>s off")
  case True
  then have "0 <s off \<or> off = 0" by (auto simp: word_sless_eq)
  with True show ?thesis by auto
next
  case False
  then have "\<not> 0 <s off" "off \<noteq> 0" by (auto simp: word_sless_alt word_sle_eq)
  then have "getEntryPointAddress (Kernel kd off) = kd + off \<longleftrightarrow> kd - off = kd + off" by simp
  also have "\<dots> \<longleftrightarrow> off + off = 0" by (simp add: diff_eq_eq add.assoc)
  also have "\<dots> \<longleftrightarrow> off = 2 ^ 63" using \<open>off \<noteq> 0\<close> word64_double_zero [of off] by blast
  finally show ?thesis using False by (simp only: if_False)
qed

end
