(* ===== verification/Mock_Loader.thy ===== *)
theory Mock_Loader
  imports Luthier_Prelude
begin

text \<open>
  \<open>src/lib/ToolCodeGen/MockAMDGPULoader.cpp\<close>: a loader that places AMD GPU code objects in host
  memory, applies their relocations and then is final. The parsed object file (LLVM's ELF reader), its
  hash section lookup and the address that the allocator returns are inputs. A constructor that fails
  still leaves its object in the loader, so loading returns the new state and the error. \<open>Fault\<close>
  stands for a null dereference or an access outside a buffer.
\<close>

subsection \<open>Object files\<close>

type_synonym byte = "8 word"

record elf_symbol =
  sym_name :: "string option"
  sym_address :: "unit + 64 word"
  sym_global :: bool
  sym_notype :: bool

record phdr =
  p_load :: bool
  p_vaddr :: "64 word"
  p_memsz :: "64 word"
  p_filesz :: "64 word"
  p_offset :: "64 word"

datatype reloc_type =
    R_ABS32 | R_ABS32_LO | R_ABS32_HI | R_ABS64 | R_REL32 | R_REL64 | R_REL32_LO | R_REL32_HI
  | R_REL16 | R_RELATIVE64 | R_OTHER

record reloc =
  r_offset :: "64 word"
  r_type :: reloc_type
  r_symbol :: "elf_symbol option"
  r_addend :: "64 word option"

record elf_obj =
  os_AMDHSA :: bool
  ABIVersion :: nat
  dynsym :: "elf_symbol list"
  symtab :: "elf_symbol list"
  hash_lookup :: "string \<Rightarrow> unit + elf_symbol option"
  program_headers :: "phdr list option"
  file_bytes :: "byte list"
  static_relocs :: "reloc list"
  dynamic_relocs :: "reloc list"

datatype ld_error =
    ParseFailed
  | UnsupportedVersion nat
  | LookupFailed
  | SymbolRedefined string
  | SymbolIsExternal string
  | BadProgramHeaders
  | NoLoadSegments
  | AllocationFailed
  | RelocSymbolZero
  | NameFailed
  | AddressFailed
  | AlreadyFinalized
  | ExternalDefined string
  | Fault

text \<open>
  \<open>lookupSymbolByName\<close> of \<open>ELFObjectFileUtils.h\<close>: the hash section first, then the symbol
  table in order. Both contain undefined symbols as well.
\<close>

fun find_symbol :: "elf_symbol list \<Rightarrow> string \<Rightarrow> ld_error + elf_symbol option" where
  "find_symbol [] n = Inr None"
| "find_symbol (s # ss) n =
     (case sym_name s of None \<Rightarrow> Inl NameFailed
      | Some m \<Rightarrow> if m = n then Inr (Some s) else find_symbol ss n)"

definition lookupSymbol :: "elf_obj \<Rightarrow> string \<Rightarrow> ld_error + elf_symbol option" where
  "lookupSymbol e n =
     (case hash_lookup e n of
        Inl u \<Rightarrow> Inl LookupFailed
      | Inr (Some s) \<Rightarrow> Inr (Some s)
      | Inr None \<Rightarrow> find_symbol (symtab e) n)"

subsection \<open>State\<close>

record loaded_code_object =
  Elf :: "elf_obj option"
  LoadBase :: "64 word"
  LoadedRegion :: "byte list"
  PTLoadSegments :: "phdr list"

record loader =
  IsFinalized :: bool
  ExternalSymbols :: "(string \<times> 64 word) list"
  LoadedCodeObjects :: "loaded_code_object list"

definition empty_loader :: loader where
  "empty_loader = \<lparr>IsFinalized = False, ExternalSymbols = [], LoadedCodeObjects = []\<rparr>"

subsection \<open>Loading\<close>

text \<open>The search for a global symbol of that name in the loaded objects, in order.\<close>

fun global_symbol :: "loaded_code_object list \<Rightarrow> string \<Rightarrow>
    ld_error + (loaded_code_object \<times> elf_symbol) option" where
  "global_symbol [] n = Inr None"
| "global_symbol (l # ls) n =
     (case Elf l of None \<Rightarrow> Inl Fault
      | Some e \<Rightarrow> (case lookupSymbol e n of
          Inl x \<Rightarrow> Inl x
        | Inr None \<Rightarrow> global_symbol ls n
        | Inr (Some s) \<Rightarrow> if sym_global s then Inr (Some (l, s)) else global_symbol ls n))"

text \<open>
  The check of the dynamic symbols. \<open>Inr False\<close> is the early return on a name that cannot be
  read: it leaves the constructor without an error.
\<close>

fun check_dynsyms :: "loader \<Rightarrow> elf_symbol list \<Rightarrow> ld_error + bool" where
  "check_dynsyms L [] = Inr True"
| "check_dynsyms L (s # ss) =
     (case sym_name s of
        None \<Rightarrow> Inr False
      | Some n \<Rightarrow> (case global_symbol (LoadedCodeObjects L) n of
          Inl x \<Rightarrow> Inl x
        | Inr (Some p) \<Rightarrow> Inl (SymbolRedefined n)
        | Inr None \<Rightarrow>
            if map_of (ExternalSymbols L) n \<noteq> None then Inl (SymbolIsExternal n)
            else check_dynsyms L ss))"

definition write_bytes :: "nat \<Rightarrow> byte list \<Rightarrow> byte list \<Rightarrow> byte list" where
  "write_bytes a bs m = take a m @ bs @ drop (a + length bs) m"

definition copy_segment :: "byte list \<Rightarrow> phdr \<Rightarrow> byte list \<Rightarrow> ld_error + byte list" where
  "copy_segment file p region =
     (let a = unat (p_vaddr p); off = unat (p_offset p); n = unat (p_filesz p)
      in if a < length region \<and> a + n \<le> length region \<and> off + n \<le> length file
         then Inr (write_bytes a (take n (drop off file)) region)
         else Inl Fault)"

definition load_segments :: "elf_obj \<Rightarrow> phdr list \<Rightarrow> phdr list" where
  "load_segments e phdrs = sort_key p_vaddr (filter p_load phdrs)"

definition region_size :: "phdr list \<Rightarrow> 64 word" where
  "region_size segs = p_vaddr (last segs) + p_memsz (last segs)"

definition no_object :: loaded_code_object where
  "no_object = \<lparr>Elf = None, LoadBase = 0, LoadedRegion = [], PTLoadSegments = []\<rparr>"

text \<open>The part of the constructor after the symbol check.\<close>

definition place_segments ::
    "elf_obj \<Rightarrow> 64 word option \<Rightarrow> loaded_code_object \<Rightarrow> loaded_code_object \<times> ld_error option" where
  "place_segments e alloc l =
     (case program_headers e of
        None \<Rightarrow> (l, Some BadProgramHeaders)
      | Some phdrs \<Rightarrow>
          if filter p_load phdrs = [] then (l, Some NoLoadSegments)
          else let segs = load_segments e phdrs; l = l\<lparr>PTLoadSegments := segs\<rparr>
            in case alloc of
                None \<Rightarrow> (l, Some AllocationFailed)
              | Some base \<Rightarrow>
                  let zeroed = replicate (unat (region_size segs)) 0
                  in (case err_fold (copy_segment (file_bytes e)) segs zeroed of
                        Inl x \<Rightarrow> (l\<lparr>LoadBase := base, LoadedRegion := zeroed\<rparr>, Some x)
                      | Inr region \<Rightarrow> (l\<lparr>LoadBase := base, LoadedRegion := region\<rparr>, None)))"

definition MockLoadedCodeObject ::
    "loader \<Rightarrow> elf_obj option \<Rightarrow> 64 word option \<Rightarrow> loaded_code_object \<times> ld_error option" where
  "MockLoadedCodeObject L parsed alloc =
     (case parsed of
        None \<Rightarrow> (no_object, Some ParseFailed)
      | Some e \<Rightarrow>
          let l = no_object\<lparr>Elf := Some e\<rparr>
          in if os_AMDHSA e \<and> (ABIVersion e < 1 \<or> ABIVersion e > 4)
             then (l, Some (UnsupportedVersion (ABIVersion e + 2)))
             else (case check_dynsyms L (dynsym e) of
                 Inl x \<Rightarrow> (l, Some x)
               | Inr False \<Rightarrow> (l, None)
               | Inr True \<Rightarrow> place_segments e alloc l))"

definition loadCodeObject ::
    "elf_obj option \<Rightarrow> 64 word option \<Rightarrow> loader \<Rightarrow> ld_error option \<times> loader" where
  "loadCodeObject parsed alloc L =
     (if IsFinalized L then (Some AlreadyFinalized, L)
      else case MockLoadedCodeObject L parsed alloc of
        (l, err) \<Rightarrow> (err, L\<lparr>LoadedCodeObjects := LoadedCodeObjects L @ [l]\<rparr>))"

definition defineExternalSymbol :: "string \<Rightarrow> 64 word \<Rightarrow> loader \<Rightarrow> ld_error option \<times> loader" where
  "defineExternalSymbol n a L =
     (if IsFinalized L then (Some AlreadyFinalized, L)
      else if map_of (ExternalSymbols L) n \<noteq> None then (Some (ExternalDefined n), L)
      else (None, L\<lparr>ExternalSymbols := mv_insert n a (ExternalSymbols L)\<rparr>))"

subsection \<open>Relocations\<close>

definition le_bytes :: "nat \<Rightarrow> 64 word \<Rightarrow> byte list" where
  "le_bytes n w = map (\<lambda>i. ucast (drop_bit (8 * i) w)) [0..<n]"

fun le_value :: "byte list \<Rightarrow> 64 word" where
  "le_value [] = 0"
| "le_value (b # bs) = ucast b OR push_bit 8 (le_value bs)"

definition read_le :: "nat \<Rightarrow> byte list \<Rightarrow> 64 word \<Rightarrow> ld_error + 64 word" where
  "read_le n region off =
     (if unat off + n \<le> length region then Inr (le_value (take n (drop (unat off) region)))
      else Inl Fault)"

definition write_le :: "nat \<Rightarrow> 64 word \<Rightarrow> 64 word \<Rightarrow> byte list \<Rightarrow> ld_error + byte list" where
  "write_le n off w region =
     (if unat off + n \<le> length region then Inr (write_bytes (unat off) (le_bytes n w) region)
      else Inl Fault)"

definition symbol_address ::
    "loader \<Rightarrow> 64 word \<Rightarrow> elf_symbol option \<Rightarrow> ld_error + 64 word" where
  "symbol_address L base ref =
     (case ref of
        None \<Rightarrow> Inr 0
      | Some s \<Rightarrow>
          if sym_notype s
          then (case sym_name s of
              None \<Rightarrow> Inl NameFailed
            | Some n \<Rightarrow> (case global_symbol (LoadedCodeObjects L) n of
                Inl x \<Rightarrow> Inl x
              | Inr (Some (l, d)) \<Rightarrow> (case sym_address d of
                  Inl u \<Rightarrow> Inl AddressFailed
                | Inr a \<Rightarrow> Inr (a + LoadBase l))
              | Inr None \<Rightarrow> (case map_of (ExternalSymbols L) n of
                  None \<Rightarrow> Inr 0
                | Some a \<Rightarrow> Inr a)))
          else (case sym_address s of
              Inl u \<Rightarrow> Inl AddressFailed
            | Inr a \<Rightarrow> Inr (a + base)))"

text \<open>A relocation without an addend field (REL) has it in the place that it relocates.\<close>

definition rel_addend_width :: "reloc_type \<Rightarrow> nat" where
  "rel_addend_width t =
     (case t of
        R_REL16 \<Rightarrow> 2
      | R_ABS32 \<Rightarrow> 4 | R_ABS32_LO \<Rightarrow> 4 | R_ABS32_HI \<Rightarrow> 4
      | R_REL32 \<Rightarrow> 4 | R_REL32_LO \<Rightarrow> 4 | R_REL32_HI \<Rightarrow> 4
      | R_ABS64 \<Rightarrow> 8 | R_REL64 \<Rightarrow> 8
      | R_RELATIVE64 \<Rightarrow> 0 | R_OTHER \<Rightarrow> 0)"

definition reloc_addend :: "reloc \<Rightarrow> byte list \<Rightarrow> ld_error + 64 word" where
  "reloc_addend r region =
     (case r_addend r of
        Some a \<Rightarrow> Inr a
      | None \<Rightarrow> if rel_addend_width (r_type r) = 0 then Inr 0
                else read_le (rel_addend_width (r_type r)) region (r_offset r))"

text \<open>The written width and value; no width for the types that are skipped.\<close>

definition reloc_write :: "reloc_type \<Rightarrow> 64 word \<Rightarrow> 64 word \<Rightarrow> 64 word \<Rightarrow> 64 word \<Rightarrow> (nat \<times> 64 word) option" where
  "reloc_write t S A P base =
     (case t of
        R_ABS32 \<Rightarrow> Some (4, (S + A) AND 0xFFFFFFFF)
      | R_ABS32_LO \<Rightarrow> Some (4, (S + A) AND 0xFFFFFFFF)
      | R_ABS32_HI \<Rightarrow> Some (4, drop_bit 32 (S + A))
      | R_ABS64 \<Rightarrow> Some (8, S + A)
      | R_REL32 \<Rightarrow> Some (4, S + A - P - base)
      | R_REL64 \<Rightarrow> Some (8, S + A - P - base)
      | R_REL32_LO \<Rightarrow> Some (4, (S + A - P - base) AND 0xFFFFFFFF)
      | R_REL32_HI \<Rightarrow> Some (4, drop_bit 32 (S + A - P - base))
      | R_REL16 \<Rightarrow> Some (2, (S + A - P - base - 4) div 4)
      | R_RELATIVE64 \<Rightarrow> Some (8, A + base)
      | R_OTHER \<Rightarrow> None)"

definition applyRelocation :: "loader \<Rightarrow> 64 word \<Rightarrow> reloc \<Rightarrow> byte list \<Rightarrow> ld_error + byte list" where
  "applyRelocation L base r region =
     err_bind (symbol_address L base (r_symbol r)) (\<lambda>S.
     err_bind (reloc_addend r region) (\<lambda>A.
       case reloc_write (r_type r) S A (r_offset r) base of
         None \<Rightarrow> Inr region
       | Some (n, w) \<Rightarrow>
           if S = 0 \<and> r_type r \<noteq> R_RELATIVE64 then Inl RelocSymbolZero
           else write_le n (r_offset r) w region))"

text \<open>Relocations up to the first failing one; the region keeps those that were applied.\<close>

fun apply_all :: "loader \<Rightarrow> 64 word \<Rightarrow> reloc list \<Rightarrow> byte list \<Rightarrow> ld_error option \<times> byte list" where
  "apply_all L base [] region = (None, region)"
| "apply_all L base (r # rs) region =
     (case applyRelocation L base r region of
        Inl x \<Rightarrow> (Some x, region)
      | Inr region' \<Rightarrow> apply_all L base rs region')"

definition finalize_object :: "loader \<Rightarrow> loaded_code_object \<Rightarrow> ld_error option \<times> loaded_code_object" where
  "finalize_object L l =
     (case Elf l of
        None \<Rightarrow> (Some Fault, l)
      | Some e \<Rightarrow>
          (case apply_all L (LoadBase l) (static_relocs e @ dynamic_relocs e) (LoadedRegion l) of
             (err, region) \<Rightarrow> (err, l\<lparr>LoadedRegion := region\<rparr>)))"

fun finalize_objects ::
    "loader \<Rightarrow> loaded_code_object list \<Rightarrow> ld_error option \<times> loaded_code_object list" where
  "finalize_objects L [] = (None, [])"
| "finalize_objects L (l # ls) =
     (case finalize_object L l of
        (Some x, l') \<Rightarrow> (Some x, l' # ls)
      | (None, l') \<Rightarrow> (case finalize_objects L ls of (err, ls') \<Rightarrow> (err, l' # ls')))"

definition finalize_loader :: "loader \<Rightarrow> ld_error option \<times> loader" where
  "finalize_loader L =
     (if IsFinalized L then (Some AlreadyFinalized, L)
      else case finalize_objects L (LoadedCodeObjects L) of
        (Some x, ls) \<Rightarrow> (Some x, L\<lparr>LoadedCodeObjects := ls\<rparr>)
      | (None, ls) \<Rightarrow> (None, L\<lparr>LoadedCodeObjects := ls, IsFinalized := True\<rparr>))"

subsection \<open>Entry points of the command line\<close>

text \<open>
  \<open>src/lib/ToolCodeGen/MockLoadAMDGPUCodeObjects.cpp\<close>: an entry point is given by the index of a
  loaded object and a symbol or an offset. Whether a symbol is a kernel descriptor is an input.
\<close>

datatype resolve_error = IndexOutOfRange | LookupError ld_error | SymbolMissing | OutsideObject

datatype resolved = ResolvedKernel "64 word" | ResolvedAddress "64 word"

definition getLoadedCodeObjectAtIndex :: "loader \<Rightarrow> nat \<Rightarrow> resolve_error + loaded_code_object" where
  "getLoadedCodeObjectAtIndex L i =
     (if i < length (LoadedCodeObjects L) then Inr (LoadedCodeObjects L ! i) else Inl IndexOutOfRange)"

definition resolveSymbol ::
    "(elf_symbol \<Rightarrow> bool) \<Rightarrow> loaded_code_object \<Rightarrow> string \<Rightarrow> resolve_error + 64 word \<times> bool" where
  "resolveSymbol isKernelDescriptor l n =
     (case Elf l of None \<Rightarrow> Inl (LookupError Fault)
      | Some e \<Rightarrow> (case lookupSymbol e n of
          Inl x \<Rightarrow> Inl (LookupError x)
        | Inr None \<Rightarrow> Inl SymbolMissing
        | Inr (Some s) \<Rightarrow> (case sym_address s of
            Inl u \<Rightarrow> Inl (LookupError AddressFailed)
          | Inr off \<Rightarrow> if length (LoadedRegion l) \<le> unat off then Inl OutsideObject
                       else Inr (LoadBase l + off, isKernelDescriptor s))))"

definition resolveEntryPoint ::
    "(elf_symbol \<Rightarrow> bool) \<Rightarrow> loader \<Rightarrow> nat \<times> (64 word + string) \<Rightarrow> resolve_error + resolved" where
  "resolveEntryPoint isKernelDescriptor L spec =
     err_bind (getLoadedCodeObjectAtIndex L (fst spec)) (\<lambda>l.
       case snd spec of
         Inl off \<Rightarrow> if unat off > length (LoadedRegion l) then Inl OutsideObject
                    else Inr (ResolvedAddress (LoadBase l + off))
       | Inr n \<Rightarrow> err_bind (resolveSymbol isKernelDescriptor l n) (\<lambda>(a, k).
           Inr (if k then ResolvedKernel a else ResolvedAddress a)))"

text \<open>
  \<open>MockLoadAMDGPUCodeObjects::run\<close>: the objects are loaded in order, then the external symbols
  are defined, the loader is finalized, and the initial entry point and execution point are resolved.
  The first error is reported and ends the pass.
\<close>

datatype driver_error = LoaderError ld_error | ResolveError resolve_error | NotAKernel

fun run_steps :: "(loader \<Rightarrow> ld_error option \<times> loader) list \<Rightarrow> loader \<Rightarrow> ld_error option \<times> loader" where
  "run_steps [] L = (None, L)"
| "run_steps (f # fs) L =
     (case f L of (Some x, L') \<Rightarrow> (Some x, L') | (None, L') \<Rightarrow> run_steps fs L')"

record driver_options =
  code_objects :: "(elf_obj option \<times> 64 word option) list"
  ExternalVars :: "(string \<times> 64 word) list"
  InitialEntryPoint :: "(nat \<times> (64 word + string)) option"
  InitialExecutionPoint :: "(nat \<times> string) option"

record driver_result =
  initial_entry :: "resolved option"
  initial_execution :: "64 word option"

definition load_steps :: "driver_options \<Rightarrow> (loader \<Rightarrow> ld_error option \<times> loader) list" where
  "load_steps opts = map (\<lambda>(parsed, alloc). loadCodeObject parsed alloc) (code_objects opts) @
     map (\<lambda>(n, a). defineExternalSymbol n a) (ExternalVars opts) @ [finalize_loader]"

definition resolve_execution ::
    "(elf_symbol \<Rightarrow> bool) \<Rightarrow> loader \<Rightarrow> nat \<times> string \<Rightarrow> driver_error + 64 word" where
  "resolve_execution isKernelDescriptor L spec =
     (case getLoadedCodeObjectAtIndex L (fst spec) of
        Inl x \<Rightarrow> Inl (ResolveError x)
      | Inr l \<Rightarrow> (case resolveSymbol isKernelDescriptor l (snd spec) of
          Inl x \<Rightarrow> Inl (ResolveError x)
        | Inr (a, k) \<Rightarrow> if k then Inr a else Inl NotAKernel))"

definition run_loader_pass ::
    "(elf_symbol \<Rightarrow> bool) \<Rightarrow> driver_options \<Rightarrow> loader \<Rightarrow>
     driver_error option \<times> loader \<times> driver_result" where
  "run_loader_pass isKernelDescriptor opts L =
     (let none = \<lparr>initial_entry = None, initial_execution = None\<rparr> in
      case run_steps (load_steps opts) L of
        (Some x, L') \<Rightarrow> (Some (LoaderError x), L', none)
      | (None, L') \<Rightarrow>
          (case (case InitialEntryPoint opts of None \<Rightarrow> Inr none
             | Some spec \<Rightarrow> (case resolveEntryPoint isKernelDescriptor L' spec of
                 Inl x \<Rightarrow> Inl x | Inr r \<Rightarrow> Inr (none\<lparr>initial_entry := Some r\<rparr>))) of
             Inl x \<Rightarrow> (Some (ResolveError x), L', none)
           | Inr res \<Rightarrow>
               (case InitialExecutionPoint opts of None \<Rightarrow> (None, L', res)
                | Some spec \<Rightarrow> (case resolve_execution isKernelDescriptor L' spec of
                    Inl x \<Rightarrow> (Some x, L', res)
                  | Inr a \<Rightarrow> (None, L', res\<lparr>initial_execution := Some a\<rparr>)))))"

subsection \<open>Bytes\<close>

lemma length_write_bytes [simp]: "a + length bs \<le> length m \<Longrightarrow> length (write_bytes a bs m) = length m"
  by (simp add: write_bytes_def)

lemma nth_write_bytes:
  "a + length bs \<le> length m \<Longrightarrow> i < length m \<Longrightarrow>
   write_bytes a bs m ! i = (if a \<le> i \<and> i < a + length bs then bs ! (i - a) else m ! i)"
  by (auto simp: write_bytes_def nth_append)

lemma length_le_bytes [simp]: "length (le_bytes n w) = n"
  by (simp add: le_bytes_def)

lemma le_value_bytes_from:
  "le_value (map (\<lambda>i. ucast (drop_bit (8 * i) w)) [k..<k + n]) = take_bit (8 * n) (drop_bit (8 * k) w)"
proof (induction n arbitrary: k)
  case 0
  then show ?case by simp
next
  case (Suc n)
  have "[k..<k + Suc n] = k # [Suc k..<Suc k + n]" by (simp add: upt_conv_Cons)
  then have "le_value (map (\<lambda>i. ucast (drop_bit (8 * i) w)) [k..<k + Suc n]) =
      ucast (ucast (drop_bit (8 * k) w) :: byte) OR
      push_bit 8 (take_bit (8 * n) (drop_bit (8 * Suc k) w))"
    using Suc.IH [of "Suc k"] by simp
  also have "\<dots> = take_bit (8 * Suc n) (drop_bit (8 * k) w)"
    by (rule bit_word_eqI) (auto simp: bit_simps)
  finally show ?case .
qed

lemma le_value_bytes: "le_value (le_bytes n w) = take_bit (8 * n) w"
  using le_value_bytes_from [of w 0 n] by (simp add: le_bytes_def)

lemma read_after_write:
  assumes "write_le n off w m = Inr m'"
  shows "read_le n m' off = Inr (take_bit (8 * n) w)" and "length m' = length m"
    and "i < length m \<Longrightarrow> \<not> (unat off \<le> i \<and> i < unat off + n) \<Longrightarrow> m' ! i = m ! i"
proof -
  have m': "unat off + n \<le> length m" "m' = write_bytes (unat off) (le_bytes n w) m"
    using assms by (auto simp: write_le_def split: if_splits)
  then show "length m' = length m" by simp
  have "take n (drop (unat off) m') = le_bytes n w"
    using m' by (simp add: write_bytes_def)
  then show "read_le n m' off = Inr (take_bit (8 * n) w)"
    using m' by (simp add: read_le_def le_value_bytes)
  show "m' ! i = m ! i" if "i < length m" "\<not> (unat off \<le> i \<and> i < unat off + n)"
    using that m' by (auto simp: nth_write_bytes)
qed

subsection \<open>The image of an object\<close>

definition in_segment :: "phdr \<Rightarrow> nat \<Rightarrow> bool" where
  "in_segment p i \<longleftrightarrow> unat (p_vaddr p) \<le> i \<and> i < unat (p_vaddr p) + unat (p_filesz p)"

definition segments_disjoint :: "phdr \<Rightarrow> phdr \<Rightarrow> bool" where
  "segments_disjoint p q \<longleftrightarrow> (\<forall>i. \<not> (in_segment p i \<and> in_segment q i))"

definition image_of :: "elf_obj \<Rightarrow> phdr list \<Rightarrow> byte list \<Rightarrow> bool" where
  "image_of e segs region \<longleftrightarrow>
     (\<forall>p\<in>set segs. \<forall>k<unat (p_filesz p).
        region ! (unat (p_vaddr p) + k) = file_bytes e ! (unat (p_offset p) + k))"

lemma copy_segment_Inr:
  assumes "copy_segment file p m = Inr m'"
  shows "length m' = length m" "i < length m \<Longrightarrow> \<not> in_segment p i \<Longrightarrow> m' ! i = m ! i"
    "k < unat (p_filesz p) \<Longrightarrow> m' ! (unat (p_vaddr p) + k) = file ! (unat (p_offset p) + k)"
    "unat (p_vaddr p) + unat (p_filesz p) \<le> length m"
proof -
  have m': "unat (p_vaddr p) + unat (p_filesz p) \<le> length m"
    "unat (p_offset p) + unat (p_filesz p) \<le> length file"
    "m' = write_bytes (unat (p_vaddr p)) (take (unat (p_filesz p)) (drop (unat (p_offset p)) file)) m"
    using assms by (auto simp: copy_segment_def Let_def split: if_splits)
  then show "length m' = length m" "unat (p_vaddr p) + unat (p_filesz p) \<le> length m" by simp_all
  show "m' ! i = m ! i" if "i < length m" "\<not> in_segment p i"
    using that m' by (auto simp: nth_write_bytes in_segment_def)
  show "m' ! (unat (p_vaddr p) + k) = file ! (unat (p_offset p) + k)" if "k < unat (p_filesz p)"
    using that m' by (simp add: nth_write_bytes)
qed

lemma copy_segments_Inr:
  assumes "err_fold (copy_segment file) segs m = Inr m'" and "sorted_wrt segments_disjoint segs"
  shows "length m' = length m \<and>
    (\<forall>i<length m. (\<forall>p\<in>set segs. \<not> in_segment p i) \<longrightarrow> m' ! i = m ! i) \<and>
    (\<forall>p\<in>set segs. \<forall>k<unat (p_filesz p).
       m' ! (unat (p_vaddr p) + k) = file ! (unat (p_offset p) + k))"
  using assms
proof (induction segs arbitrary: m)
  case Nil
  then show ?case by simp
next
  case (Cons p segs)
  from Cons.prems(1) obtain m1 where m1: "copy_segment file p m = Inr m1"
    "err_fold (copy_segment file) segs m1 = Inr m'"
    by (auto simp: err_bind_Inr_iff)
  note c = copy_segment_Inr [OF m1(1)]
  have IH: "length m' = length m1"
    "\<And>i. i < length m1 \<Longrightarrow> (\<forall>p\<in>set segs. \<not> in_segment p i) \<Longrightarrow> m' ! i = m1 ! i"
    "\<And>q k. q \<in> set segs \<Longrightarrow> k < unat (p_filesz q) \<Longrightarrow>
       m' ! (unat (p_vaddr q) + k) = file ! (unat (p_offset q) + k)"
    using Cons.IH [OF m1(2)] Cons.prems(2) by auto
  have p: "m' ! (unat (p_vaddr p) + k) = file ! (unat (p_offset p) + k)" if "k < unat (p_filesz p)" for k
  proof -
    have "in_segment p (unat (p_vaddr p) + k)" using that by (simp add: in_segment_def)
    then have "\<forall>q\<in>set segs. \<not> in_segment q (unat (p_vaddr p) + k)"
      using Cons.prems(2) by (auto simp: segments_disjoint_def)
    moreover have "unat (p_vaddr p) + k < length m1" using that c(1,4) by simp
    ultimately show ?thesis using IH(2) c(3) [OF that] by simp
  qed
  have rest: "m' ! i = m ! i" if "i < length m" "\<forall>q\<in>set (p # segs). \<not> in_segment q i" for i
    using that IH(2) [of i] c(1,2) by simp
  show ?case
    using p rest IH(1,3) c(1) by auto
qed

lemma check_dynsyms_False: "check_dynsyms L ss = Inr False \<Longrightarrow> \<exists>s\<in>set ss. sym_name s = None"
  by (induction ss) (auto split: option.splits sum.splits if_splits)

subsection \<open>Reachable loaders\<close>

text \<open>One operation of a client; its error is ignored, the loader has the state after it.\<close>

inductive loader_step :: "loader \<Rightarrow> loader \<Rightarrow> bool" where
  load: "loader_step L (snd (loadCodeObject parsed alloc L))"
| define_ext: "loader_step L (snd (defineExternalSymbol n a L))"
| final: "loader_step L (snd (finalize_loader L))"

inductive loader_reaches :: "loader \<Rightarrow> loader \<Rightarrow> bool" where
  here: "loader_reaches L L"
| more: "loader_reaches L L' \<Longrightarrow> loader_step L' L'' \<Longrightarrow> loader_reaches L L''"

lemma loader_reaches_inv:
  assumes "loader_reaches L L'" and "P L" and "\<And>M M'. P M \<Longrightarrow> loader_step M M' \<Longrightarrow> P M'"
  shows "P L'"
  using assms by (induction rule: loader_reaches.induct) blast+

definition poisoned :: "loader \<Rightarrow> bool" where
  "poisoned L \<longleftrightarrow> \<not> IsFinalized L \<and> (\<exists>l\<in>set (LoadedCodeObjects L). Elf l = None)"

lemma Elf_finalize_object [simp]: "Elf (snd (finalize_object L l)) = Elf l"
  by (simp add: finalize_object_def split: option.split prod.split)

lemma finalize_objects_Cons:
  "finalize_objects L (l # ls) =
   (if fst (finalize_object L l) = None
    then (fst (finalize_objects L ls), snd (finalize_object L l) # snd (finalize_objects L ls))
    else (fst (finalize_object L l), snd (finalize_object L l) # ls))"
  by (simp split: prod.split option.split)

lemma Elf_finalize_objects: "map Elf (snd (finalize_objects L ls)) = map Elf ls"
proof (induction ls)
  case Nil
  then show ?case by simp
next
  case (Cons l ls)
  then show ?case unfolding finalize_objects_Cons by simp
qed

lemma finalize_objects_poisoned:
  "l \<in> set ls \<Longrightarrow> Elf l = None \<Longrightarrow> fst (finalize_objects L ls) \<noteq> None"
proof (induction ls)
  case Nil
  then show ?case by simp
next
  case (Cons k ls)
  have "fst (finalize_object L k) \<noteq> None" if "Elf k = None"
    using that by (simp add: finalize_object_def)
  with Cons show ?case unfolding finalize_objects_Cons by auto
qed

lemma loader_step_poisoned:
  assumes "loader_step L L'" and "poisoned L"
  shows "poisoned L'"
  using assms
proof (cases rule: loader_step.cases)
  case (load parsed alloc)
  with assms(2) show ?thesis by (auto simp: poisoned_def loadCodeObject_def split: prod.split)
next
  case (define_ext n a)
  with assms(2) show ?thesis by (auto simp: poisoned_def defineExternalSymbol_def)
next
  case final
  from assms(2) obtain l where l: "l \<in> set (LoadedCodeObjects L)" "Elf l = None" "\<not> IsFinalized L"
    by (auto simp: poisoned_def)
  obtain err ls where f: "finalize_objects L (LoadedCodeObjects L) = (err, ls)" by fastforce
  have "err \<noteq> None" using finalize_objects_poisoned [OF l(1,2), of L] f by simp
  moreover have "None \<in> set (map Elf (LoadedCodeObjects L))" using l(1,2) by force
  then have "None \<in> set (map Elf ls)"
    using Elf_finalize_objects [of L "LoadedCodeObjects L"] f by simp
  then have "\<exists>l\<in>set ls. Elf l = None" by force
  ultimately show ?thesis
    using l(3) f final by (auto simp: finalize_loader_def poisoned_def)
qed

subsection \<open>An object with one external reference\<close>

definition ref_symbol :: elf_symbol where
  "ref_symbol = \<lparr>sym_name = Some ''ext'', sym_address = Inr 0, sym_global = True, sym_notype = True\<rparr>"

definition example_obj :: elf_obj where
  "example_obj = \<lparr>os_AMDHSA = True, ABIVersion = 3, dynsym = [ref_symbol], symtab = [ref_symbol],
     hash_lookup = \<lambda>n. Inr None,
     program_headers = Some [\<lparr>p_load = True, p_vaddr = 4, p_memsz = 8, p_filesz = 2, p_offset = 1\<rparr>,
        \<lparr>p_load = True, p_vaddr = 0, p_memsz = 4, p_filesz = 1, p_offset = 0\<rparr>],
     file_bytes = [10, 20, 30],
     static_relocs = [],
     dynamic_relocs = [\<lparr>r_offset = 4, r_type = R_ABS64, r_symbol = Some ref_symbol, r_addend = Some 0\<rparr>]\<rparr>"

definition example_loader :: loader where
  "example_loader = snd (loadCodeObject (Some example_obj) (Some 4096) empty_loader)"

lemmas example_loader_eval = example_obj_def ref_symbol_def empty_loader_def loadCodeObject_def
  MockLoadedCodeObject_def place_segments_def load_segments_def region_size_def copy_segment_def
  write_bytes_def no_object_def Let_def

subsection \<open>Properties\<close>

text \<open>
  C11: A successful load places the object: the region has the size given by the last segment, every
  loadable segment's file bytes are at its virtual address, and every other byte is zero. It holds for
  segments that do not overlap and dynamic symbols whose names can be read.
\<close>

theorem loaded_image:
  assumes "loadCodeObject (Some e) alloc L = (None, L')" and "program_headers e = Some phdrs"
    and "\<forall>s\<in>set (dynsym e). sym_name s \<noteq> None"
    and "sorted_wrt segments_disjoint (load_segments e phdrs)"
  shows "\<exists>l. LoadedCodeObjects L' = LoadedCodeObjects L @ [l] \<and> alloc = Some (LoadBase l) \<and>
    length (LoadedRegion l) = unat (region_size (load_segments e phdrs)) \<and>
    image_of e (load_segments e phdrs) (LoadedRegion l) \<and>
    (\<forall>i<length (LoadedRegion l).
       (\<forall>p\<in>set (load_segments e phdrs). \<not> in_segment p i) \<longrightarrow> LoadedRegion l ! i = 0)"
proof -
  let ?segs = "load_segments e phdrs"
  let ?zero = "replicate (unat (region_size ?segs)) 0"
  from assms(1) obtain l where l: "MockLoadedCodeObject L (Some e) alloc = (l, None)"
    "LoadedCodeObjects L' = LoadedCodeObjects L @ [l]"
    by (auto simp: loadCodeObject_def split: if_splits prod.splits)
  have "check_dynsyms L (dynsym e) \<noteq> Inr False"
    using assms(3) check_dynsyms_False by blast
  with l(1) have "place_segments e alloc (no_object\<lparr>Elf := Some e\<rparr>) = (l, None)"
    by (auto simp: MockLoadedCodeObject_def Let_def split: if_splits sum.splits bool.splits)
  then obtain base region where base: "alloc = Some base"
    and region: "err_fold (copy_segment (file_bytes e)) ?segs ?zero = Inr region"
    and lr: "LoadBase l = base" "LoadedRegion l = region"
    by (auto simp: place_segments_def assms(2) Let_def split: if_splits option.splits sum.splits)
  from copy_segments_Inr [OF region assms(4)] show ?thesis
    using l(2) base lr by (auto simp: image_of_def)
qed

theorem loaded_image_witness:
  "\<exists>l. LoadedCodeObjects example_loader = [l] \<and> length (LoadedRegion l) = 12 \<and>
     LoadedRegion l ! 4 = 20 \<and> LoadedRegion l ! 1 = 0"
proof -
  let ?phdrs = "[\<lparr>p_load = True, p_vaddr = 4, p_memsz = 8, p_filesz = 2, p_offset = 1\<rparr>,
        \<lparr>p_load = True, p_vaddr = 0, p_memsz = 4, p_filesz = 1, p_offset = 0\<rparr>] :: phdr list"
  have segs: "load_segments example_obj ?phdrs = rev ?phdrs"
    by (simp add: load_segments_def)
  have "loadCodeObject (Some example_obj) (Some 4096) empty_loader = (None, example_loader)"
    by (simp add: example_loader_def example_loader_eval)
  moreover have "program_headers example_obj = Some ?phdrs"
    "\<forall>s\<in>set (dynsym example_obj). sym_name s \<noteq> None"
    by (simp_all add: example_obj_def ref_symbol_def)
  moreover have "sorted_wrt segments_disjoint (load_segments example_obj ?phdrs)"
    unfolding segs by (auto simp: segments_disjoint_def in_segment_def)
  ultimately obtain l where l: "LoadedCodeObjects example_loader = LoadedCodeObjects empty_loader @ [l]"
    "length (LoadedRegion l) = unat (region_size (load_segments example_obj ?phdrs))"
    "image_of example_obj (load_segments example_obj ?phdrs) (LoadedRegion l)"
    "\<forall>i<length (LoadedRegion l). (\<forall>p\<in>set (load_segments example_obj ?phdrs). \<not> in_segment p i) \<longrightarrow>
      LoadedRegion l ! i = 0"
    using loaded_image [of example_obj "Some 4096" empty_loader example_loader ?phdrs] by blast
  have "length (LoadedRegion l) = 12" using l(2) by (simp add: segs region_size_def)
  moreover from this have "LoadedRegion l ! 1 = 0" using l(4) by (simp add: segs in_segment_def)
  moreover have "LoadedRegion l ! 4 = 20"
  proof -
    have "\<forall>k<2. LoadedRegion l ! (4 + k) = [20, 30] ! k"
      using l(3) unfolding segs by (auto simp: image_of_def example_obj_def)
    from spec [OF this, of 0] show ?thesis by simp
  qed
  ultimately show ?thesis using l(1) by (simp add: empty_loader_def)
qed

text \<open>
  What the field of a relocation holds, by the address \<open>T\<close> of the target (symbol plus addend) and the
  place \<open>P\<close> of the field. A 16-bit field is a signed number of 4-byte words after the next instruction.
\<close>

definition reloc_resolves :: "reloc_type \<Rightarrow> 64 word \<Rightarrow> 64 word \<Rightarrow> 64 word \<Rightarrow> 64 word \<Rightarrow> 64 word \<Rightarrow> bool" where
  "reloc_resolves t T P A base v \<longleftrightarrow>
     (case t of
        R_ABS32 \<Rightarrow> v = take_bit 32 T
      | R_ABS32_LO \<Rightarrow> v = take_bit 32 T
      | R_ABS32_HI \<Rightarrow> v = drop_bit 32 T
      | R_ABS64 \<Rightarrow> v = T
      | R_REL32 \<Rightarrow> v = take_bit 32 (T - P)
      | R_REL64 \<Rightarrow> P + v = T
      | R_REL32_LO \<Rightarrow> v = take_bit 32 (T - P)
      | R_REL32_HI \<Rightarrow> v = drop_bit 32 (T - P)
      | R_REL16 \<Rightarrow> (\<forall>j. T - (P + 4) = 4 * word_of_int j \<and> -32768 \<le> j \<and> j < 32768 \<longrightarrow>
          scast (ucast v :: 16 word) = (word_of_int j :: 64 word))
      | R_RELATIVE64 \<Rightarrow> v = base + A
      | R_OTHER \<Rightarrow> False)"

definition reloc_width :: "reloc_type \<Rightarrow> nat" where
  "reloc_width t = (if t = R_REL16 then 2
     else if t \<in> {R_ABS64, R_REL64, R_RELATIVE64} then 8 else 4)"

lemma rel16_imm:
  fixes D :: "64 word"
  assumes D: "D = 4 * word_of_int j" and j: "-32768 \<le> j" "j < 32768"
  shows "scast (ucast (take_bit 16 (D div 4)) :: 16 word) = (word_of_int j :: 64 word)"
proof -
  have "uint D = (4 * j) mod (4 * 2 ^ 62)"
    by (simp add: D uint_word_ariths uint_word_of_int mod_mult_right_eq)
  then have "uint D div 4 = j mod 2 ^ 62" by (simp only: mult_mod_right [symmetric])
  then have div: "uint (D div 4) = j mod 2 ^ 62" by (simp add: uint_div)
  have "(ucast (take_bit 16 (D div 4)) :: 16 word) = word_of_int (uint (take_bit 16 (D div 4)))"
    by (simp add: word_of_int_uint)
  also have "\<dots> = word_of_int (take_bit 16 (j mod 2 ^ 62))" by (simp add: unsigned_take_bit_eq div)
  also have "\<dots> = word_of_int (take_bit 16 j)"
    by (simp add: take_bit_eq_mod mod_mod_cancel)
  finally have imm: "(ucast (take_bit 16 (D div 4)) :: 16 word) = word_of_int (take_bit 16 j)" .
  have "sint (word_of_int (take_bit 16 j) :: 16 word) = signed_take_bit 15 j"
    by (simp add: sint_sbintrunc' signed_take_bit_take_bit)
  also have "\<dots> = j" using j by (simp add: signed_take_bit_int_eq_self)
  finally show ?thesis by (simp add: imm scast_eq)
qed

lemma mask32: "(w :: 64 word) AND 0xFFFFFFFF = take_bit 32 w"
  by (simp add: take_bit_eq_mask mask_eq_exp_minus_1)

lemma reloc_write_resolves:
  assumes "reloc_write t S A off base = Some (n, w)"
  shows "n = reloc_width t \<and> reloc_resolves t (S + A) (base + off) A base (take_bit (8 * n) w)"
proof -
  have full: "take_bit 64 (x :: 64 word) = x" for x by (rule bit_word_eqI) (simp add: bit_take_bit_iff)
  have half: "take_bit 32 (drop_bit 32 (x :: 64 word)) = drop_bit 32 x" for x
    by (simp add: take_bit_drop_bit full)
  have dist: "S + A - off - base = S + A - (base + off)" by simp
  show ?thesis
  proof (cases "t = R_REL16")
    case True
    have "S + A - off - base - 4 = S + A - (base + off + 4)" by simp
    with assms rel16_imm True show ?thesis
      by (auto simp: reloc_write_def reloc_resolves_def reloc_width_def)
  next
    case False
    with assms show ?thesis
      by (cases t) (auto simp: reloc_write_def reloc_resolves_def reloc_width_def mask32 half dist full)
  qed
qed

lemma relocated:
  assumes "applyRelocation L base r m = Inr m'"
    and "symbol_address L base (r_symbol r) = Inr S" and "reloc_addend r m = Inr A"
  shows "if r_type r = R_OTHER then m' = m
    else length m' = length m \<and>
      (\<exists>v. read_le (reloc_width (r_type r)) m' (r_offset r) = Inr v \<and>
         reloc_resolves (r_type r) (S + A) (base + r_offset r) A base v) \<and>
      (\<forall>i<length m. unat (r_offset r) \<le> i \<and> i < unat (r_offset r) + reloc_width (r_type r) \<or> m' ! i = m ! i)"
proof (cases "reloc_write (r_type r) S A (r_offset r) base")
  case None
  then have "r_type r = R_OTHER" by (simp add: reloc_write_def split: reloc_type.splits)
  with None assms show ?thesis by (simp add: applyRelocation_def)
next
  case (Some nw)
  obtain n w where nw: "nw = (n, w)" by (cases nw)
  with Some assms have "write_le n (r_offset r) w m = Inr m'"
    by (simp add: applyRelocation_def split: if_splits)
  from read_after_write [OF this] reloc_write_resolves [OF Some [unfolded nw]]
  show ?thesis using Some by (auto simp: reloc_write_def)
qed

text \<open>
  A relocation that succeeds writes exactly its field, and the field then leads to the target:
  it holds the target's address, or the distance to it, in the form that the type prescribes. No
  other byte of the region changes, and the types that are skipped change nothing.
\<close>

lemma relocation_effect:
  assumes "applyRelocation L base r m = Inr m'"
    and "symbol_address L base (r_symbol r) = Inr S" and "reloc_addend r m = Inr A"
  shows "if r_type r = R_OTHER then m' = m
    else length m' = length m \<and>
      (\<exists>v. read_le (reloc_width (r_type r)) m' (r_offset r) = Inr v \<and>
         reloc_resolves (r_type r) (S + A) (base + r_offset r) A base v) \<and>
      (\<forall>i<length m. unat (r_offset r) \<le> i \<and> i < unat (r_offset r) + reloc_width (r_type r) \<or> m' ! i = m ! i)"
  using assms by (rule relocated)

lemma relocation_effect_instance:
  "\<exists>m'. applyRelocation (example_loader\<lparr>LoadedCodeObjects := []\<rparr>) 4096
      \<lparr>r_offset = 4, r_type = R_RELATIVE64, r_symbol = None, r_addend = Some 8\<rparr> (replicate 12 0) = Inr m' \<and>
     read_le 8 m' 4 = Inr 4104"
proof -
  let ?r = "\<lparr>r_offset = 4, r_type = R_RELATIVE64, r_symbol = None, r_addend = Some 8\<rparr>"
  let ?L = "example_loader\<lparr>LoadedCodeObjects := []\<rparr>"
  obtain m' where m': "applyRelocation ?L 4096 ?r (replicate 12 0) = Inr m'"
    by (simp add: applyRelocation_def symbol_address_def reloc_addend_def reloc_write_def write_le_def)
  from relocation_effect [OF this, of 0 8] have "read_le 8 m' 4 = Inr 4104"
    by (simp add: symbol_address_def reloc_addend_def reloc_width_def reloc_resolves_def)
  with m' show ?thesis by blast
qed

text \<open>
  A finalized loader is final: after a successful finalization every further load, definition of an
  external symbol or finalization is refused and changes nothing.
\<close>

lemma finalized_is_final:
  assumes "finalize_loader L = (None, L')"
  shows "loadCodeObject parsed alloc L' = (Some AlreadyFinalized, L') \<and>
    defineExternalSymbol n a L' = (Some AlreadyFinalized, L') \<and>
    finalize_loader L' = (Some AlreadyFinalized, L')"
proof -
  have "IsFinalized L'"
    using assms by (auto simp: finalize_loader_def split: if_splits prod.splits option.splits)
  then show ?thesis
    by (simp add: loadCodeObject_def defineExternalSymbol_def finalize_loader_def)
qed

lemma finalized_is_final_witness:
  "\<exists>L'. finalize_loader empty_loader = (None, L') \<and>
     loadCodeObject (Some example_obj) (Some 4096) L' = (Some AlreadyFinalized, L')"
proof -
  obtain L' where L': "finalize_loader empty_loader = (None, L')"
    by (simp add: finalize_loader_def empty_loader_def)
  from finalized_is_final [OF this] L' show ?thesis by blast
qed

text \<open>
  C12: After a load whose object file could not be parsed the loader can never be finalized, whatever
  operations follow: the unparsed object stays in the list of loaded objects.
\<close>

theorem failed_parse_blocks_finalization:
  assumes "\<not> IsFinalized L" and "loader_reaches (snd (loadCodeObject None alloc L)) L'"
  shows "\<not> IsFinalized L'"
proof -
  have "poisoned (snd (loadCodeObject None alloc L))"
    using assms by (simp add: poisoned_def loadCodeObject_def MockLoadedCodeObject_def no_object_def)
  with assms(2) have "poisoned L'"
    using loader_step_poisoned by (rule loader_reaches_inv [where P = poisoned])
  then show ?thesis by (simp add: poisoned_def)
qed

theorem failed_parse_blocks_finalization_witness:
  "\<not> IsFinalized (snd (finalize_loader (snd (loadCodeObject None (Some 0) empty_loader))))"
proof (rule failed_parse_blocks_finalization)
  show "\<not> IsFinalized empty_loader" by (simp add: empty_loader_def)
  show "loader_reaches (snd (loadCodeObject None (Some 0) empty_loader))
      (snd (finalize_loader (snd (loadCodeObject None (Some 0) empty_loader))))"
    by (rule loader_reaches.more [OF loader_reaches.here loader_step.final])
qed

text \<open>
  A reference to an external symbol does not get the external's address when the first loaded
  object knows the reference's own symbol: the lookup returns that undefined global symbol and the
  reference resolves to the load base of the object, with any external symbols defined.
\<close>

lemma external_reference_resolves_to_load_base:
  assumes "LoadedCodeObjects L = l # ls" and "Elf l = Some e" and "sym_name s = Some n"
    and "lookupSymbol e n = Inr (Some s)"
    and "sym_global s" and "sym_notype s" and "sym_address s = Inr 0"
  shows "symbol_address (L\<lparr>ExternalSymbols := ext\<rparr>) base (Some s) = Inr (LoadBase l)"
  using assms by (simp add: symbol_address_def)

lemma external_reference_resolves_to_load_base_instance:
  "symbol_address (example_loader\<lparr>ExternalSymbols := [(''ext'', 77)]\<rparr>) 0 (Some ref_symbol) = Inr 4096"
proof -
  obtain l where "LoadedCodeObjects example_loader = [l]" "Elf l = Some example_obj" "LoadBase l = 4096"
    by (simp add: example_loader_def example_loader_eval)
  moreover have "sym_name ref_symbol = Some ''ext''" "lookupSymbol example_obj ''ext'' = Inr (Some ref_symbol)"
    "sym_global ref_symbol" "sym_notype ref_symbol" "sym_address ref_symbol = Inr 0"
    by (simp_all add: lookupSymbol_def example_obj_def ref_symbol_def)
  ultimately show ?thesis
    using external_reference_resolves_to_load_base
      [of example_loader l "[]" example_obj ref_symbol "''ext''" "[(''ext'', 77)]" 0] by simp
qed

text \<open>
  An object with a dynamic symbol whose name cannot be read is reported as loaded, but nothing is
  placed: it has no region and no segments.
\<close>

lemma unreadable_name_loads_nothing:
  assumes "\<not> IsFinalized L" and "dynsym e = s # ss" and "sym_name s = None"
    and "1 \<le> ABIVersion e \<and> ABIVersion e \<le> 4"
  shows "\<exists>l. loadCodeObject (Some e) alloc L =
      (None, L\<lparr>LoadedCodeObjects := LoadedCodeObjects L @ [l]\<rparr>) \<and>
    LoadedRegion l = [] \<and> PTLoadSegments l = []"
  using assms by (auto simp: loadCodeObject_def MockLoadedCodeObject_def no_object_def Let_def)

lemma unreadable_name_loads_nothing_witness:
  "\<exists>L l. loadCodeObject (Some (example_obj\<lparr>dynsym := [ref_symbol\<lparr>sym_name := None\<rparr>]\<rparr>)) (Some 4096)
      empty_loader = (None, L) \<and> LoadedCodeObjects L = [l] \<and> LoadedRegion l = []"
proof -
  let ?e = "example_obj\<lparr>dynsym := [ref_symbol\<lparr>sym_name := None\<rparr>]\<rparr>"
  have "\<not> IsFinalized empty_loader" "dynsym ?e = [ref_symbol\<lparr>sym_name := None\<rparr>]"
    "1 \<le> ABIVersion ?e \<and> ABIVersion ?e \<le> 4"
    by (simp_all add: empty_loader_def example_obj_def)
  from unreadable_name_loads_nothing [OF this(1,2) _ this(3), of "Some 4096"] show ?thesis
    by (fastforce simp: empty_loader_def)
qed

lemma run_steps_append:
  "run_steps (fs @ gs) L =
   (case run_steps fs L of (Some x, L') \<Rightarrow> (Some x, L') | (None, L') \<Rightarrow> run_steps gs L')"
  by (induction fs arbitrary: L) (auto split: prod.split option.split)

lemma run_loads:
  "run_steps (map (\<lambda>(parsed, alloc). loadCodeObject parsed alloc) objs) L = (None, L') \<Longrightarrow>
   map Elf (LoadedCodeObjects L') = map Elf (LoadedCodeObjects L) @ map fst objs \<and>
   ExternalSymbols L' = ExternalSymbols L"
proof (induction objs arbitrary: L)
  case Nil
  then show ?case by simp
next
  case (Cons obj objs)
  obtain parsed alloc where obj: "obj = (parsed, alloc)" by (cases obj)
  with Cons.prems obtain L1 where L1: "loadCodeObject parsed alloc L = (None, L1)"
    "run_steps (map (\<lambda>(parsed, alloc). loadCodeObject parsed alloc) objs) L1 = (None, L')"
    by (auto split: prod.splits option.splits)
  from L1(1) obtain l where l: "MockLoadedCodeObject L parsed alloc = (l, None)"
    "L1 = L\<lparr>LoadedCodeObjects := LoadedCodeObjects L @ [l]\<rparr>"
    by (auto simp: loadCodeObject_def split: if_splits prod.splits)
  from l(1) have "Elf l = parsed"
    by (auto simp: MockLoadedCodeObject_def place_segments_def Let_def
        split: option.splits if_splits sum.splits bool.splits)
  with Cons.IH [OF L1(2)] l(2) obj show ?case by simp
qed

lemma run_defines:
  "run_steps (map (\<lambda>(n, a). defineExternalSymbol n a) vars) L = (None, L') \<Longrightarrow>
   LoadedCodeObjects L' = LoadedCodeObjects L \<and>
   (\<forall>n a. map_of (ExternalSymbols L) n = Some a \<or> (n, a) \<in> set vars \<longrightarrow>
      map_of (ExternalSymbols L') n = Some a)"
proof (induction vars arbitrary: L)
  case Nil
  then show ?case by simp
next
  case (Cons v vars)
  obtain n a where v: "v = (n, a)" by (cases v)
  with Cons.prems obtain L1 where L1: "defineExternalSymbol n a L = (None, L1)"
    "run_steps (map (\<lambda>(n, a). defineExternalSymbol n a) vars) L1 = (None, L')"
    by (auto split: prod.splits option.splits)
  then have "map_of (ExternalSymbols L) n = None"
    "L1 = L\<lparr>ExternalSymbols := ExternalSymbols L @ [(n, a)]\<rparr>"
    by (auto simp: defineExternalSymbol_def mv_insert_def split: if_splits)
  then have "map_of (ExternalSymbols L1) m = Some b"
    if "map_of (ExternalSymbols L) m = Some b \<or> (m, b) = (n, a)" for m b
    using that by (auto simp: map_of_snoc simp del: map_of_append)
  with Cons.IH [OF L1(2)] \<open>L1 = _\<close> v show ?case by auto
qed

text \<open>
  When the pass reports no error, every object of the command line is loaded, in order, every
  external variable is defined with its address, and the loader is finalized.
\<close>

lemma loader_pass_success:
  assumes "run_loader_pass k opts L = (None, L', res)"
  shows "IsFinalized L' \<and>
    map Elf (LoadedCodeObjects L') = map Elf (LoadedCodeObjects L) @ map fst (code_objects opts) \<and>
    (\<forall>(n, a)\<in>set (ExternalVars opts). map_of (ExternalSymbols L') n = Some a)"
proof -
  from assms have "run_steps (load_steps opts) L = (None, L')"
    by (auto simp: run_loader_pass_def Let_def split: prod.splits option.splits sum.splits if_splits)
  then obtain L1 L2 where L1: "run_steps (map (\<lambda>(parsed, alloc). loadCodeObject parsed alloc) (code_objects opts)) L = (None, L1)"
    and L2: "run_steps (map (\<lambda>(n, a). defineExternalSymbol n a) (ExternalVars opts)) L1 = (None, L2)"
    and fin: "finalize_loader L2 = (None, L')"
    by (auto simp: load_steps_def run_steps_append split: prod.splits option.splits)
  from fin obtain ls where ls: "finalize_objects L2 (LoadedCodeObjects L2) = (None, ls)"
    "L' = L2\<lparr>LoadedCodeObjects := ls, IsFinalized := True\<rparr>"
    by (auto simp: finalize_loader_def split: if_splits prod.splits option.splits)
  have "map Elf ls = map Elf (LoadedCodeObjects L2)"
    using Elf_finalize_objects [of L2 "LoadedCodeObjects L2"] ls(1) by simp
  with run_loads [OF L1] run_defines [OF L2] ls(2) show ?thesis by auto
qed

lemma loader_pass_success_instance:
  "\<exists>L' res. run_loader_pass (\<lambda>s. True)
     \<lparr>code_objects = [(Some (example_obj\<lparr>dynamic_relocs := []\<rparr>), Some 4096)],
      ExternalVars = [(''ext'', 77)], InitialEntryPoint = Some (0, Inl 4), InitialExecutionPoint = None\<rparr>
     empty_loader = (None, L', res) \<and> initial_entry res = Some (ResolvedAddress 4100) \<and>
     map_of (ExternalSymbols L') ''ext'' = Some 77"
proof -
  let ?opts = "\<lparr>code_objects = [(Some (example_obj\<lparr>dynamic_relocs := []\<rparr>), Some 4096)],
      ExternalVars = [(''ext'', 77)], InitialEntryPoint = Some (0, Inl 4), InitialExecutionPoint = None\<rparr>"
  obtain L' res where run: "run_loader_pass (\<lambda>s. True) ?opts empty_loader = (None, L', res)"
    "initial_entry res = Some (ResolvedAddress 4100)"
    by (simp add: run_loader_pass_def load_steps_def resolveEntryPoint_def getLoadedCodeObjectAtIndex_def
        finalize_loader_def finalize_object_def defineExternalSymbol_def mv_insert_def example_loader_eval)
  from loader_pass_success [OF this(1)] run show ?thesis by auto
qed

end
