(* ===== verification/Predicated_CFG.thy ===== *)
theory Predicated_CFG
  imports Luthier_Prelude "HOL-Library.While_Combinator"
begin

text \<open>
  \<open>src/lib/ToolCodeGen/IPPredicatedCFG.cpp\<close>: the inter-procedural control-flow graph of the target
  module. Machine blocks get edges to the machine blocks that the translated IR reaches from their IR
  block without passing another body block, and to the entry blocks of the functions that the call
  graph knows as targets of a call in them. The IR, the result of flushing the translation of a
  function and the call graph are inputs. \<open>addSuccessorBlock\<close> updates the successors of one block
  and the predecessors of the other; here both are one set of edges, kept as a list.
\<close>

subsection \<open>Inputs\<close>

type_synonym bb_id = nat
type_synonym mbb_id = nat
type_synonym fn_id = nat

record ir_function =
  fn_name :: fn_id
  flush_succeeds :: bool
  has_initial_entry_attr :: bool
  fn_mbbs :: "(mbb_id \<times> bb_id option) list"

record ir_module =
  mod_functions :: "ir_function list"
  bb_successors :: "bb_id \<Rightarrow> bb_id list"
  has_terminator :: "bb_id \<Rightarrow> bool"

text \<open>A call is given by the IR block that contains it.\<close>

record call_graph =
  call_targets :: "(bb_id \<times> fn_id list) list"
  incomplete_call_sites :: "bb_id list"

subsection \<open>The graph\<close>

datatype cfg_error =
    FlushFailed fn_id
  | TwoEntryFunctions fn_id fn_id
  | BlockWithoutIR mbb_id
  | NoEntryFunction
  | EntryWithoutBlocks

text \<open>\<open>AllPredMBBs\<close> with the IR block of each machine block, in order: a position is the global index.\<close>

record ip_cfg =
  AllPredMBBs :: "(mbb_id \<times> bb_id) list"
  MFToEntryPredMBB :: "(fn_id \<times> mbb_id) list"
  EntryFunc :: "fn_id option"
  edges :: "(mbb_id \<times> mbb_id) list"
  unresolved :: "mbb_id list"

definition cfg_successors :: "ip_cfg \<Rightarrow> mbb_id \<Rightarrow> mbb_id list" where
  "cfg_successors C b = map snd (filter (\<lambda>e. fst e = b) (edges C))"

definition cfg_predecessors :: "ip_cfg \<Rightarrow> mbb_id \<Rightarrow> mbb_id list" where
  "cfg_predecessors C b = map fst (filter (\<lambda>e. snd e = b) (edges C))"

definition addSuccessorBlock :: "mbb_id \<Rightarrow> mbb_id \<Rightarrow> ip_cfg \<Rightarrow> ip_cfg" where
  "addSuccessorBlock b s C = C\<lparr>edges := List.insert (b, s) (edges C)\<rparr>"

text \<open>The two reverse maps: an IR block has the last machine block that names it.\<close>

definition body_block :: "(mbb_id \<times> bb_id) list \<Rightarrow> bb_id \<Rightarrow> mbb_id option" where
  "body_block blocks bb = map_of (rev (map (\<lambda>(m, b). (b, m)) blocks)) bb"

subsection \<open>Phase 1: blocks\<close>

definition add_mbb :: "mbb_id \<times> bb_id option \<Rightarrow> ip_cfg \<Rightarrow> cfg_error + ip_cfg" where
  "add_mbb e C =
     (case snd e of
        None \<Rightarrow> Inl (BlockWithoutIR (fst e))
      | Some bb \<Rightarrow> Inr (C\<lparr>AllPredMBBs := AllPredMBBs C @ [(fst e, bb)]\<rparr>))"

definition add_function :: "ir_function \<Rightarrow> ip_cfg \<Rightarrow> cfg_error + ip_cfg" where
  "add_function f C =
     err_bind (err_check (flush_succeeds f) (FlushFailed (fn_name f))) (\<lambda>_.
     err_bind
       (if has_initial_entry_attr f
        then (case EntryFunc C of
            Some g \<Rightarrow> Inl (TwoEntryFunctions (fn_name f) g)
          | None \<Rightarrow> Inr (C\<lparr>EntryFunc := Some (fn_name f)\<rparr>))
        else Inr C) (\<lambda>C.
     err_bind (err_fold add_mbb (fn_mbbs f) C) (\<lambda>C.
       Inr (case fn_mbbs f of
           [] \<Rightarrow> C
         | first # _ \<Rightarrow> C\<lparr>MFToEntryPredMBB := (fn_name f, fst first) # MFToEntryPredMBB C\<rparr>))))"

definition empty_cfg :: ip_cfg where
  "empty_cfg = \<lparr>AllPredMBBs = [], MFToEntryPredMBB = [], EntryFunc = None, edges = [], unresolved = []\<rparr>"

definition entry_block :: "ip_cfg \<Rightarrow> cfg_error + mbb_id" where
  "entry_block C =
     (case EntryFunc C of
        None \<Rightarrow> Inl NoEntryFunction
      | Some f \<Rightarrow> (case map_of (MFToEntryPredMBB C) f of
          None \<Rightarrow> Inl EntryWithoutBlocks
        | Some b \<Rightarrow> Inr b))"

subsection \<open>Phase 2: edges inside a function\<close>

text \<open>
  The walk over IR blocks: \<open>seen\<close>, the work list with its back first, and the body blocks found.
\<close>

type_synonym walk = "bb_id list \<times> bb_id list \<times> mbb_id list"

definition walk_step :: "ir_module \<Rightarrow> (bb_id \<Rightarrow> mbb_id option) \<Rightarrow> walk \<Rightarrow> walk" where
  "walk_step M body w =
     (case w of (seen, work, out) \<Rightarrow>
        (case work of
           [] \<Rightarrow> w
         | n # rest \<Rightarrow>
             if n \<in> set seen then (seen, rest, out)
             else (case body n of
                 Some b \<Rightarrow> (n # seen, rest, List.insert b out)
               | None \<Rightarrow> (n # seen, rev (bb_successors M n) @ rest, out))))"

definition walk_from :: "ir_module \<Rightarrow> (bb_id \<Rightarrow> mbb_id option) \<Rightarrow> bb_id \<Rightarrow> walk option" where
  "walk_from M body bb =
     while_option (\<lambda>w. fst (snd w) \<noteq> []) (walk_step M body) ([], rev (bb_successors M bb), [])"

definition body_successors :: "ir_module \<Rightarrow> (bb_id \<Rightarrow> mbb_id option) \<Rightarrow> bb_id \<Rightarrow> mbb_id list option" where
  "body_successors M body bb =
     (if \<not> has_terminator M bb then Some []
      else case walk_from M body bb of
        None \<Rightarrow> None
      | Some w \<Rightarrow> Some (snd (snd w)))"

fun intra_edges :: "ir_module \<Rightarrow> (bb_id \<Rightarrow> mbb_id option) \<Rightarrow> (mbb_id \<times> bb_id) list \<Rightarrow> ip_cfg \<Rightarrow> ip_cfg option" where
  "intra_edges M body [] C = Some C"
| "intra_edges M body ((m, bb) # blocks) C =
     (case body_successors M body bb of
        None \<Rightarrow> None
      | Some ss \<Rightarrow> intra_edges M body blocks (fold (addSuccessorBlock m) ss C))"

subsection \<open>Phase 3: edges between functions\<close>

definition call_edges :: "bb_id \<times> fn_id list \<Rightarrow> ip_cfg \<Rightarrow> ip_cfg" where
  "call_edges ct C =
     (case body_block (AllPredMBBs C) (fst ct) of
        None \<Rightarrow> C
      | Some m \<Rightarrow> fold (\<lambda>callee C.
          case map_of (MFToEntryPredMBB C) callee of
            None \<Rightarrow> C
          | Some e \<Rightarrow> addSuccessorBlock m e C) (snd ct) C)"

definition mark_unresolved :: "bb_id \<Rightarrow> ip_cfg \<Rightarrow> ip_cfg" where
  "mark_unresolved bb C =
     (case body_block (AllPredMBBs C) bb of
        None \<Rightarrow> C
      | Some m \<Rightarrow> C\<lparr>unresolved := List.insert m (unresolved C)\<rparr>)"

subsection \<open>The whole construction\<close>

definition getIPPredCFG :: "ir_module \<Rightarrow> call_graph \<Rightarrow> (cfg_error + ip_cfg) option" where
  "getIPPredCFG M CG =
     (case err_fold add_function (mod_functions M) empty_cfg of
        Inl x \<Rightarrow> Some (Inl x)
      | Inr C \<Rightarrow> (case entry_block C of
          Inl x \<Rightarrow> Some (Inl x)
        | Inr e \<Rightarrow> (case intra_edges M (body_block (AllPredMBBs C)) (AllPredMBBs C) C of
            None \<Rightarrow> None
          | Some C \<Rightarrow> Some (Inr (fold mark_unresolved (incomplete_call_sites CG)
              (fold call_edges (call_targets CG) C))))))"

definition global_index :: "ip_cfg \<Rightarrow> mbb_id \<Rightarrow> nat option" where
  "global_index C m = map_of (zip (map fst (AllPredMBBs C)) [0..<length (AllPredMBBs C)]) m"

subsection \<open>The walk\<close>

text \<open>An IR block reached from \<open>bb\<close> through blocks that are no body blocks.\<close>

inductive reaches :: "ir_module \<Rightarrow> (bb_id \<Rightarrow> mbb_id option) \<Rightarrow> bb_id \<Rightarrow> bb_id \<Rightarrow> bool"
  for M body bb where
  start: "n \<in> set (bb_successors M bb) \<Longrightarrow> reaches M body bb n"
| through: "reaches M body bb n \<Longrightarrow> body n = None \<Longrightarrow> n' \<in> set (bb_successors M n) \<Longrightarrow>
     reaches M body bb n'"

inductive_cases reachesE: "reaches M body bb n"

text \<open>
  The invariant of the walk: everything on the lists is reached, what a seen block leads to is seen or
  in the work list, and the found machine blocks are those of the seen body blocks.
\<close>

definition walk_inv :: "ir_module \<Rightarrow> (bb_id \<Rightarrow> mbb_id option) \<Rightarrow> bb_id \<Rightarrow> walk \<Rightarrow> bool" where
  "walk_inv M body bb w \<longleftrightarrow> (case w of (seen, work, out) \<Rightarrow>
     (\<forall>n\<in>set seen \<union> set work. reaches M body bb n) \<and>
     set (bb_successors M bb) \<subseteq> set seen \<union> set work \<and>
     (\<forall>n\<in>set seen. body n = None \<longrightarrow> set (bb_successors M n) \<subseteq> set seen \<union> set work) \<and>
     set out = {m. \<exists>n\<in>set seen. body n = Some m})"

lemma walk_inv_start: "walk_inv M body bb ([], rev (bb_successors M bb), [])"
  by (auto simp: walk_inv_def intro: reaches.start)

lemma walk_step_inv:
  assumes "walk_inv M body bb (seen, n # rest, out)"
  shows "walk_inv M body bb (walk_step M body (seen, n # rest, out))"
proof (cases "n \<in> set seen")
  case True
  with assms show ?thesis by (auto simp: walk_inv_def walk_step_def)
next
  case new: False
  show ?thesis
  proof (cases "body n")
    case None
    with assms have "\<forall>n'\<in>set (bb_successors M n). reaches M body bb n'"
      by (auto simp: walk_inv_def intro: reaches.through)
    with assms new None show ?thesis by (auto simp: walk_inv_def walk_step_def)
  next
    case (Some m)
    with assms new show ?thesis by (auto simp: walk_inv_def walk_step_def)
  qed
qed

lemma walk_result:
  assumes "walk_from M body bb = Some w"
  shows "set (snd (snd w)) = {m. \<exists>n. reaches M body bb n \<and> body n = Some m}"
proof -
  have inv: "walk_inv M body bb w"
  proof (rule while_option_rule [OF _ assms [unfolded walk_from_def]])
    show "walk_inv M body bb ([], rev (bb_successors M bb), [])" by (rule walk_inv_start)
  next
    fix v
    assume "walk_inv M body bb v" and "fst (snd v) \<noteq> []"
    then show "walk_inv M body bb (walk_step M body v)"
      by (cases v; cases "fst (snd v)") (auto intro: walk_step_inv)
  qed
  have "fst (snd w) = []" using while_option_stop [OF assms [unfolded walk_from_def]] by simp
  then obtain seen out where w: "w = (seen, [], out)" by (cases w) auto
  have seen: "n \<in> set seen" if "reaches M body bb n" for n
    using that inv by induction (auto simp: w walk_inv_def)
  with inv show ?thesis by (auto simp: w walk_inv_def)
qed

lemma walk_terminates:
  assumes fin: "finite {n. reaches M body bb n}"
  shows "\<exists>w. walk_from M body bb = Some w"
proof -
  let ?R = "{n. reaches M body bb n}"
  let ?r = "inv_image (measures [\<lambda>w::walk. card (?R - set (fst w)), \<lambda>w. length (fst (snd w))]) id"
  show ?thesis
    unfolding walk_from_def
  proof (rule wf_rel_while_option_Some [where R = ?r and P = "walk_inv M body bb"])
    show "wf ?r" by simp
    show "walk_inv M body bb ([], rev (bb_successors M bb), [])" by (rule walk_inv_start)
  next
    fix v
    assume v: "walk_inv M body bb v \<and> fst (snd v) \<noteq> []"
    then obtain seen n rest out where vs: "v = (seen, n # rest, out)"
      by (cases v; cases "fst (snd v)") auto
    from v have "n \<in> ?R" by (auto simp: vs walk_inv_def)
    then have "card (?R - set (n # seen)) < card (?R - set seen)" if "n \<notin> set seen"
      using fin that by (intro psubset_card_mono) auto
    then show "(walk_step M body v, v) \<in> ?r"
      by (auto simp: vs walk_step_def split: option.split)
  next
    fix v
    assume "walk_inv M body bb v \<and> fst (snd v) \<noteq> []"
    then show "walk_inv M body bb (walk_step M body v)"
      by (cases v; cases "fst (snd v)") (auto intro: walk_step_inv)
  qed
qed

subsection \<open>The phases\<close>

lemma addSuccessorBlock_simps [simp]:
  "AllPredMBBs (addSuccessorBlock b s C) = AllPredMBBs C"
  "MFToEntryPredMBB (addSuccessorBlock b s C) = MFToEntryPredMBB C"
  "unresolved (addSuccessorBlock b s C) = unresolved C"
  "set (edges (addSuccessorBlock b s C)) = insert (b, s) (set (edges C))"
  by (simp_all add: addSuccessorBlock_def)

lemma fold_addSuccessorBlock [simp]:
  "AllPredMBBs (fold (addSuccessorBlock b) ss C) = AllPredMBBs C"
  "MFToEntryPredMBB (fold (addSuccessorBlock b) ss C) = MFToEntryPredMBB C"
  "unresolved (fold (addSuccessorBlock b) ss C) = unresolved C"
  "set (edges (fold (addSuccessorBlock b) ss C)) = Pair b ` set ss \<union> set (edges C)"
  by (induction ss arbitrary: C) auto

definition intra_edge :: "ir_module \<Rightarrow> (bb_id \<Rightarrow> mbb_id option) \<Rightarrow> bb_id \<Rightarrow> mbb_id \<Rightarrow> bool" where
  "intra_edge M body bb s \<longleftrightarrow> has_terminator M bb \<and> (\<exists>n. reaches M body bb n \<and> body n = Some s)"

lemma body_successors_result:
  "body_successors M body bb = Some ss \<Longrightarrow> set ss = {s. intra_edge M body bb s}"
  using walk_result by (fastforce simp: body_successors_def intra_edge_def split: if_splits option.splits)

lemma intra_edges_result:
  "intra_edges M body blocks C = Some C' \<Longrightarrow>
   AllPredMBBs C' = AllPredMBBs C \<and> MFToEntryPredMBB C' = MFToEntryPredMBB C \<and>
   unresolved C' = unresolved C \<and>
   set (edges C') = {(m, s). \<exists>bb. (m, bb) \<in> set blocks \<and> intra_edge M body bb s} \<union> set (edges C)"
proof (induction blocks arbitrary: C)
  case Nil
  then show ?case by simp
next
  case (Cons e blocks)
  obtain m bb where e: "e = (m, bb)" by (cases e)
  with Cons.prems obtain ss where ss: "body_successors M body bb = Some ss"
    "intra_edges M body blocks (fold (addSuccessorBlock m) ss C) = Some C'"
    by (auto split: option.splits)
  from Cons.IH [OF ss(2)] body_successors_result [OF ss(1)] e show ?case by auto
qed

lemma call_edges_result:
  "AllPredMBBs (call_edges ct C) = AllPredMBBs C \<and> MFToEntryPredMBB (call_edges ct C) = MFToEntryPredMBB C \<and>
   unresolved (call_edges ct C) = unresolved C \<and>
   set (edges (call_edges ct C)) = {(m, s). \<exists>f. body_block (AllPredMBBs C) (fst ct) = Some m \<and>
     f \<in> set (snd ct) \<and> map_of (MFToEntryPredMBB C) f = Some s} \<union> set (edges C)"
proof (cases "body_block (AllPredMBBs C) (fst ct)")
  case None
  then show ?thesis by (simp add: call_edges_def)
next
  case (Some m)
  have "AllPredMBBs D = AllPredMBBs C \<and> MFToEntryPredMBB D = MFToEntryPredMBB C \<and>
      unresolved D = unresolved C \<and>
      set (edges D) = {(m', s). m' = m \<and> (\<exists>f\<in>set fs. map_of (MFToEntryPredMBB C) f = Some s)} \<union> set (edges C)"
    if "D = fold (\<lambda>callee C. case map_of (MFToEntryPredMBB C) callee of
        None \<Rightarrow> C | Some e \<Rightarrow> addSuccessorBlock m e C) fs C" for D fs
    using that by (induction fs arbitrary: C) (auto split: option.split)
  from this [OF refl, of "snd ct"] Some show ?thesis by (auto simp: call_edges_def)
qed

lemma fold_call_edges:
  "AllPredMBBs (fold call_edges cts C) = AllPredMBBs C \<and>
   MFToEntryPredMBB (fold call_edges cts C) = MFToEntryPredMBB C \<and>
   unresolved (fold call_edges cts C) = unresolved C \<and>
   set (edges (fold call_edges cts C)) = {(m, s). \<exists>bb fs f. (bb, fs) \<in> set cts \<and>
     body_block (AllPredMBBs C) bb = Some m \<and> f \<in> set fs \<and>
     map_of (MFToEntryPredMBB C) f = Some s} \<union> set (edges C)"
proof (induction cts arbitrary: C)
  case Nil
  then show ?case by simp
next
  case (Cons ct cts)
  from Cons.IH [of "call_edges ct C"] call_edges_result [of ct C] show ?case by (cases ct) auto
qed

lemma fold_mark_unresolved:
  "AllPredMBBs (fold mark_unresolved bbs C) = AllPredMBBs C \<and>
   MFToEntryPredMBB (fold mark_unresolved bbs C) = MFToEntryPredMBB C \<and>
   edges (fold mark_unresolved bbs C) = edges C \<and>
   set (unresolved (fold mark_unresolved bbs C)) =
     {m. \<exists>bb\<in>set bbs. body_block (AllPredMBBs C) bb = Some m} \<union> set (unresolved C)"
proof (induction bbs arbitrary: C)
  case Nil
  then show ?case by simp
next
  case (Cons bb bbs)
  have "AllPredMBBs (mark_unresolved bb C) = AllPredMBBs C"
    "MFToEntryPredMBB (mark_unresolved bb C) = MFToEntryPredMBB C"
    "edges (mark_unresolved bb C) = edges C"
    "set (unresolved (mark_unresolved bb C)) =
       {m. body_block (AllPredMBBs C) bb = Some m} \<union> set (unresolved C)"
    by (auto simp: mark_unresolved_def split: option.split)
  with Cons.IH [of "mark_unresolved bb C"] show ?case by auto
qed

text \<open>Phase 1 adds no edges.\<close>

lemma add_function_edges:
  "add_function f C = Inr C' \<Longrightarrow> edges C = [] \<and> unresolved C = [] \<Longrightarrow> edges C' = [] \<and> unresolved C' = []"
proof -
  assume f: "add_function f C = Inr C'" and e: "edges C = [] \<and> unresolved C = []"
  have mbbs: "edges D' = [] \<and> unresolved D' = []"
    if "err_fold add_mbb es D = Inr D'" "edges D = [] \<and> unresolved D = []" for es D D'
    using that by (rule err_fold_inv [where P = "\<lambda>C. edges C = [] \<and> unresolved C = []"])
      (auto simp: add_mbb_def split: option.splits)
  obtain C0 C2 where C0: "edges C0 = [] \<and> unresolved C0 = []"
    and C2: "err_fold add_mbb (fn_mbbs f) C0 = Inr C2"
    and C': "C' = (case fn_mbbs f of
        [] \<Rightarrow> C2
      | first # _ \<Rightarrow> C2\<lparr>MFToEntryPredMBB := (fn_name f, fst first) # MFToEntryPredMBB C2\<rparr>)"
    using f e unfolding add_function_def err_bind_Inr_iff
    by (elim exE conjE; cases "has_initial_entry_attr f"; cases "EntryFunc C")
      (fastforce intro: that [of "C\<lparr>EntryFunc := Some (fn_name f)\<rparr>"] that [of C])+
  from mbbs [OF C2 C0] show ?thesis by (simp add: C' split: list.split)
qed

lemma phase1_edges:
  assumes "err_fold add_function fs empty_cfg = Inr C"
  shows "edges C = [] \<and> unresolved C = []"
  using assms by (rule err_fold_inv) (simp_all add: empty_cfg_def add_function_edges)

lemma ip_cfg_edge_sets:
  assumes "getIPPredCFG M CG = Some (Inr C)"
  shows "set (edges C) = {(m, s). \<exists>bb fs f. (bb, fs) \<in> set (call_targets CG) \<and>
      body_block (AllPredMBBs C) bb = Some m \<and> f \<in> set fs \<and> map_of (MFToEntryPredMBB C) f = Some s} \<union>
    {(m, s). \<exists>bb. (m, bb) \<in> set (AllPredMBBs C) \<and> intra_edge M (body_block (AllPredMBBs C)) bb s}"
    and "set (unresolved C) = {m. \<exists>bb\<in>set (incomplete_call_sites CG). body_block (AllPredMBBs C) bb = Some m}"
proof -
  from assms obtain C1 C2 where C1: "err_fold add_function (mod_functions M) empty_cfg = Inr C1"
    and C2: "intra_edges M (body_block (AllPredMBBs C1)) (AllPredMBBs C1) C1 = Some C2"
    and C: "C = fold mark_unresolved (incomplete_call_sites CG) (fold call_edges (call_targets CG) C2)"
    by (auto simp: getIPPredCFG_def split: sum.splits option.splits)
  define D where "D = fold call_edges (call_targets CG) C2"
  note intra = intra_edges_result [OF C2] and call = fold_call_edges [of "call_targets CG" C2, folded D_def]
    and marked = fold_mark_unresolved [of "incomplete_call_sites CG" D]
  have C: "C = fold mark_unresolved (incomplete_call_sites CG) D" by (simp add: C D_def)
  have blocks: "AllPredMBBs C1 = AllPredMBBs C" "AllPredMBBs C2 = AllPredMBBs C" "AllPredMBBs D = AllPredMBBs C"
    "MFToEntryPredMBB C2 = MFToEntryPredMBB C"
    using intra call marked by (simp_all add: C)
  have "set (edges C2) = {(m, s). \<exists>bb. (m, bb) \<in> set (AllPredMBBs C) \<and>
      intra_edge M (body_block (AllPredMBBs C)) bb s}" and "unresolved C2 = []"
    using intra phase1_edges [OF C1] by (simp_all add: blocks)
  moreover have "set (edges D) = {(m, s). \<exists>bb fs f. (bb, fs) \<in> set (call_targets CG) \<and>
      body_block (AllPredMBBs C) bb = Some m \<and> f \<in> set fs \<and>
      map_of (MFToEntryPredMBB C) f = Some s} \<union> set (edges C2)" and "unresolved D = unresolved C2"
    using call [unfolded blocks] by blast+
  moreover have "edges C = edges D" and "set (unresolved C) =
      {m. \<exists>bb\<in>set (incomplete_call_sites CG). body_block (AllPredMBBs C) bb = Some m} \<union> set (unresolved D)"
    using marked [folded C, unfolded blocks] by blast+
  ultimately show "set (edges C) = {(m, s). \<exists>bb fs f. (bb, fs) \<in> set (call_targets CG) \<and>
      body_block (AllPredMBBs C) bb = Some m \<and> f \<in> set fs \<and> map_of (MFToEntryPredMBB C) f = Some s} \<union>
    {(m, s). \<exists>bb. (m, bb) \<in> set (AllPredMBBs C) \<and> intra_edge M (body_block (AllPredMBBs C)) bb s}"
    and "set (unresolved C) = {m. \<exists>bb\<in>set (incomplete_call_sites CG). body_block (AllPredMBBs C) bb = Some m}"
    by simp_all
qed

subsection \<open>A module with two functions\<close>

text \<open>
  Function \<open>0\<close> has the machine blocks \<open>0\<close> and \<open>1\<close>; between their IR blocks \<open>10\<close> and \<open>12\<close> lies the
  block \<open>11\<close> that belongs to no machine block, with a loop to itself. Block \<open>12\<close> calls function
  \<open>1\<close> and contains an unknown call.
\<close>

definition two_functions :: ir_module where
  "two_functions = \<lparr>
     mod_functions = [\<lparr>fn_name = 0, flush_succeeds = True, has_initial_entry_attr = True,
        fn_mbbs = [(0, Some 10), (1, Some 12)]\<rparr>,
       \<lparr>fn_name = 1, flush_succeeds = True, has_initial_entry_attr = False, fn_mbbs = [(2, Some 20)]\<rparr>],
     bb_successors = \<lambda>b. if b = 10 then [11] else if b = 11 then [11, 12] else [],
     has_terminator = \<lambda>b. True\<rparr>"

definition one_call :: call_graph where
  "one_call = \<lparr>call_targets = [(12, [1])], incomplete_call_sites = [12]\<rparr>"

lemma two_functions_graph:
  "\<exists>C. getIPPredCFG two_functions one_call = Some (Inr C) \<and> (0, 1) \<in> set (edges C) \<and>
     AllPredMBBs C = [(0, 10), (1, 12), (2, 20)]"
proof -
  have "case getIPPredCFG two_functions one_call of
      Some (Inr C) \<Rightarrow> (0, 1) \<in> set (edges C) \<and> AllPredMBBs C = [(0, 10), (1, 12), (2, 20)]
    | _ \<Rightarrow> False"
    by code_simp
  then show ?thesis by (auto split: option.splits sum.splits)
qed

subsection \<open>Properties\<close>

text \<open>
  C13: The edges of the graph are exactly those of the program: a block leads to the block of every IR
  block that its IR block reaches through IR blocks without a machine block, and, when it contains a
  call, to the entry of every known target that has blocks. The blocks with unresolved edges are those
  that contain an incomplete call site.
\<close>

theorem ip_cfg_edges:
  assumes "getIPPredCFG M CG = Some (Inr C)"
  shows "((m, s) \<in> set (edges C) \<longleftrightarrow>
      (\<exists>bb. (m, bb) \<in> set (AllPredMBBs C) \<and> intra_edge M (body_block (AllPredMBBs C)) bb s) \<or>
      (\<exists>bb fs f. (bb, fs) \<in> set (call_targets CG) \<and> body_block (AllPredMBBs C) bb = Some m \<and>
         f \<in> set fs \<and> map_of (MFToEntryPredMBB C) f = Some s)) \<and>
    (m \<in> set (unresolved C) \<longleftrightarrow>
      (\<exists>bb\<in>set (incomplete_call_sites CG). body_block (AllPredMBBs C) bb = Some m))"
  unfolding ip_cfg_edge_sets [OF assms] mem_Collect_eq Un_iff prod.case by (rule conjI [OF disj_commute refl])

theorem ip_cfg_edges_witness:
  "\<exists>C. getIPPredCFG two_functions one_call = Some (Inr C) \<and> 1 \<in> set (unresolved C)"
proof -
  obtain C where C: "getIPPredCFG two_functions one_call = Some (Inr C)"
    "AllPredMBBs C = [(0, 10), (1, 12), (2, 20)]"
    using two_functions_graph by blast
  have "body_block (AllPredMBBs C) 12 = Some 1" by (simp add: C(2) body_block_def)
  with ip_cfg_edges [OF C(1), of 1] have "1 \<in> set (unresolved C)" by (simp add: one_call_def)
  with C(1) show ?thesis by blast
qed

text \<open>
  The construction ends on every module with finitely many IR blocks, also when the IR blocks
  between two machine blocks form loops.
\<close>

lemma ip_cfg_terminates:
  assumes "finite S" and "\<And>bb. set (bb_successors M bb) \<subseteq> S"
  shows "\<exists>r. getIPPredCFG M CG = Some r"
proof -
  have "{n. reaches M body bb n} \<subseteq> S" for body bb
  proof
    fix n
    assume "n \<in> {n. reaches M body bb n}"
    then show "n \<in> S" using assms(2) by (auto elim: reachesE)
  qed
  then have fin: "finite {n. reaches M body bb n}" for body bb
    using assms(1) by (rule finite_subset)
  have walk: "\<exists>ss. body_successors M body bb = Some ss" for body bb
  proof -
    obtain w where "walk_from M body bb = Some w" using walk_terminates [OF fin] by blast
    then show ?thesis by (simp add: body_successors_def)
  qed
  have "\<exists>C'. intra_edges M body blocks C = Some C'" for body blocks C
  proof (induction blocks arbitrary: C)
    case Nil
    then show ?case by simp
  next
    case (Cons e blocks)
    obtain ss where "body_successors M body (snd e) = Some ss" using walk by blast
    with Cons.IH show ?case by (cases e) simp
  qed
  then have intra: "intra_edges M body blocks C \<noteq> None" for body blocks C
    by simp
  show ?thesis by (simp add: getIPPredCFG_def intra split: sum.split option.split)
qed

lemma ip_cfg_terminates_instance: "\<exists>r. getIPPredCFG two_functions one_call = Some r"
proof (rule ip_cfg_terminates [of "{11, 12}"])
  show "finite {11, 12 :: bb_id}" by simp
  show "set (bb_successors two_functions bb) \<subseteq> {11, 12}" for bb by (auto simp: two_functions_def)
qed

end
