(* ===== verification/Predicated_Liveness.thy ===== *)
theory Predicated_Liveness
  imports Predicated_CFG "HOL-Library.Word"
begin

text \<open>
  \<open>src/lib/ToolCodeGen/IPPredicatedLivenessPass.cpp\<close>: the backward liveness analysis on the
  inter-procedural graph of \<open>Predicated_CFG\<close>, with one set of live registers for the active and one
  for the inactive lanes of every block, and \<open>isVectorMBB\<close> of \<open>MIRConvenience.cpp\<close>. LLVM's part is a
  parameter: the sub-registers, \<open>LivePhysRegs::stepBackward\<close>, and the post order of the blocks that
  are reachable from the entry. A live set is a set of \<open>MCPhysReg\<close> numbers, which are 16 bits wide.
\<close>

subsection \<open>Inputs\<close>

type_synonym phys_reg = "16 word"

datatype mi_opcode =
    V_READLANE_B32 | SI_RESTORE_S32_FROM_VGPR | V_WRITELANE_B32 | SI_SPILL_S32_TO_VGPR | OtherOpcode nat

record mach_instr =
  mi_index :: nat
  mi_opc :: mi_opcode
  isVALU :: bool
  isSALU :: bool
  isSMRD :: bool
  isDebugOrPseudoProbe :: bool

record reg_pool =
  num_sgpr :: nat
  num_vgpr :: nat
  reserved_regs :: "bool list"

record liveness_env =
  sub_regs :: "phys_reg \<Rightarrow> phys_reg set"
  step_backward :: "nat \<Rightarrow> phys_reg set \<Rightarrow> phys_reg set"
  SGPR0 :: phys_reg
  VGPR0 :: phys_reg
  AGPR0 :: phys_reg
  SCC_reg :: phys_reg
  VCC_reg :: phys_reg
  hasMAIInsts :: bool
  mbb_instrs :: "mbb_id \<Rightarrow> mach_instr list"
  mbb_pool :: "mbb_id \<Rightarrow> reg_pool"
  post_order :: "mbb_id list"

subsection \<open>Vector blocks\<close>

definition shouldImplicitReadExec :: "mach_instr \<Rightarrow> bool" where
  "shouldImplicitReadExec mi =
     (if isVALU mi
      then (case mi_opc mi of
          V_READLANE_B32 \<Rightarrow> False
        | SI_RESTORE_S32_FROM_VGPR \<Rightarrow> False
        | V_WRITELANE_B32 \<Rightarrow> False
        | SI_SPILL_S32_TO_VGPR \<Rightarrow> False
        | OtherOpcode n \<Rightarrow> True)
      else \<not> (isSALU mi \<or> isSMRD mi))"

definition isVectorMBB :: "mach_instr list \<Rightarrow> bool" where
  "isVectorMBB mis =
     (case dropWhile isDebugOrPseudoProbe mis of
        [] \<Rightarrow> False
      | mi # _ \<Rightarrow> shouldImplicitReadExec mi)"

subsection \<open>Live sets\<close>

definition addReg :: "liveness_env \<Rightarrow> phys_reg \<Rightarrow> phys_reg set \<Rightarrow> phys_reg set" where
  "addReg E r L = sub_regs E r \<union> L"

definition unionLivePhysRegs :: "liveness_env \<Rightarrow> phys_reg set \<Rightarrow> phys_reg set \<Rightarrow> phys_reg set" where
  "unionLivePhysRegs E src dst = \<Union> (sub_regs E ` src) \<union> dst"

definition copyLivePhysRegs :: "liveness_env \<Rightarrow> phys_reg set \<Rightarrow> phys_reg set" where
  "copyLivePhysRegs E src = unionLivePhysRegs E src {}"

text \<open>Every register of the first set is in the second, and the counts agree.\<close>

definition livePhysRegsEqual :: "phys_reg set \<Rightarrow> phys_reg set \<Rightarrow> bool" where
  "livePhysRegsEqual A B = ((\<forall>r\<in>A. r \<in> B) \<and> card A = card B)"

text \<open>
  The function's registers: \<open>amdgpu-num-sgpr\<close> SGPRs, \<open>amdgpu-num-vgpr\<close> VGPRs and, with MAI
  instructions, as many AGPRs, the condition codes, and the reserved registers.
\<close>

definition addRegRange :: "liveness_env \<Rightarrow> phys_reg \<Rightarrow> nat \<Rightarrow> phys_reg set \<Rightarrow> phys_reg set" where
  "addRegRange E base n L = fold (\<lambda>i. addReg E (base + of_nat i)) [0..<n] L"

definition buildAllocatableSet :: "liveness_env \<Rightarrow> reg_pool \<Rightarrow> phys_reg set" where
  "buildAllocatableSet E P =
     (let L = addRegRange E (SGPR0 E) (num_sgpr P) {};
          L = addRegRange E (VGPR0 E) (num_vgpr P) L;
          L = (if hasMAIInsts E then addRegRange E (AGPR0 E) (num_vgpr P) L else L);
          L = addReg E (VCC_reg E) (addReg E (SCC_reg E) L)
      in fold (\<lambda>i L. if reserved_regs P ! i then addReg E (of_nat i) L else L)
           [0..<length (reserved_regs P)] L)"

subsection \<open>The analysis\<close>

record live_ins =
  ActiveLiveIns :: "mbb_id \<Rightarrow> phys_reg set option"
  InactiveLiveIns :: "mbb_id \<Rightarrow> phys_reg set option"

record liveness_result = live_ins +
  ResultFullyDiscovered :: bool

definition isFullyDiscovered :: "ip_cfg \<Rightarrow> bool" where
  "isFullyDiscovered C = list_all (\<lambda>b. fst b \<notin> set (unresolved C)) (AllPredMBBs C)"

definition ExitSeed :: "liveness_env \<Rightarrow> ip_cfg \<Rightarrow> mbb_id \<Rightarrow> phys_reg set option" where
  "ExitSeed E C b =
     (if \<not> isFullyDiscovered C \<and> b \<in> set (map fst (AllPredMBBs C)) \<and> cfg_successors C b = []
      then Some (copyLivePhysRegs E (buildAllocatableSet E (mbb_pool E b)))
      else None)"

definition add_live_in :: "liveness_env \<Rightarrow> phys_reg set option \<Rightarrow> phys_reg set \<times> phys_reg set \<Rightarrow>
    phys_reg set \<times> phys_reg set" where
  "add_live_in E found out =
     (case found of
        None \<Rightarrow> out
      | Some L \<Rightarrow> (unionLivePhysRegs E L (fst out), unionLivePhysRegs E L (snd out)))"

definition computeLiveOut :: "liveness_env \<Rightarrow> ip_cfg \<Rightarrow> live_ins \<Rightarrow> mbb_id \<Rightarrow>
    phys_reg set \<times> phys_reg set" where
  "computeLiveOut E C S b =
     fold (\<lambda>s out. add_live_in E (InactiveLiveIns S s) (add_live_in E (ActiveLiveIns S s) out))
       (cfg_successors C b)
       (case ExitSeed E C b of
          None \<Rightarrow> ({}, {})
        | Some L \<Rightarrow> (copyLivePhysRegs E L, copyLivePhysRegs E L))"

definition step_block :: "liveness_env \<Rightarrow> mach_instr list \<Rightarrow> phys_reg set \<times> phys_reg set \<Rightarrow>
    phys_reg set \<times> phys_reg set" where
  "step_block E mis out =
     fold (\<lambda>mi (act, inact).
         (step_backward E (mi_index mi) act,
          if isVectorMBB mis then inact else step_backward E (mi_index mi) inact))
       (rev mis) out"

definition visit_pmbb :: "liveness_env \<Rightarrow> ip_cfg \<Rightarrow> mbb_id \<Rightarrow> bool \<times> live_ins \<Rightarrow> bool \<times> live_ins" where
  "visit_pmbb E C b st =
     (let (change, S) = st;
          (act, inact) = step_block E (mbb_instrs E b) (computeLiveOut E C S b);
          curA = the (ActiveLiveIns S b);
          curI = the (InactiveLiveIns S b);
          (change, S) = (if livePhysRegsEqual curA act then (change, S)
            else (True, S\<lparr>ActiveLiveIns := (ActiveLiveIns S)(b \<mapsto> copyLivePhysRegs E act)\<rparr>))
      in if livePhysRegsEqual curI inact then (change, S)
         else (True, S\<lparr>InactiveLiveIns := (InactiveLiveIns S)(b \<mapsto> copyLivePhysRegs E inact)\<rparr>))"

definition sweep :: "liveness_env \<Rightarrow> ip_cfg \<Rightarrow> live_ins \<Rightarrow> bool \<times> live_ins" where
  "sweep E C S = fold (visit_pmbb E C) (post_order E) (False, S)"

definition init_live_ins :: "ip_cfg \<Rightarrow> live_ins" where
  "init_live_ins C =
     (let m = map_of (map (\<lambda>b. (fst b, {})) (AllPredMBBs C))
      in \<lparr>ActiveLiveIns = m, InactiveLiveIns = m\<rparr>)"

definition liveness_loop :: "liveness_env \<Rightarrow> ip_cfg \<Rightarrow> (bool \<times> live_ins) option" where
  "liveness_loop E C = while_option fst (\<lambda>st. sweep E C (snd st)) (True, init_live_ins C)"

definition run_liveness :: "liveness_env \<Rightarrow> ip_cfg \<Rightarrow> liveness_result option" where
  "run_liveness E C =
     (let result = (\<lambda>S. \<lparr>ActiveLiveIns = ActiveLiveIns S, InactiveLiveIns = InactiveLiveIns S,
          ResultFullyDiscovered = isFullyDiscovered C\<rparr>)
      in if AllPredMBBs C = [] then Some (result (init_live_ins C))
         else (case liveness_loop E C of
             None \<Rightarrow> None
           | Some st \<Rightarrow> Some (result (snd st))))"

subsection \<open>The equations\<close>

text \<open>
  The dataflow equations over plain functions from blocks to sets. The registers live out of a block
  are those of its exit seed and those live into a successor on either kind of lane.
\<close>

definition live_at :: "(mbb_id \<Rightarrow> phys_reg set option) \<Rightarrow> mbb_id \<Rightarrow> phys_reg set" where
  "live_at m b = (case m b of None \<Rightarrow> {} | Some L \<Rightarrow> L)"

definition live_out :: "liveness_env \<Rightarrow> ip_cfg \<Rightarrow> (mbb_id \<Rightarrow> phys_reg set) \<Rightarrow> (mbb_id \<Rightarrow> phys_reg set) \<Rightarrow>
    mbb_id \<Rightarrow> phys_reg set" where
  "live_out E C A I b =
     (case ExitSeed E C b of None \<Rightarrow> {} | Some L \<Rightarrow> L) \<union> (\<Union>s\<in>set (cfg_successors C b). A s \<union> I s)"

definition block_live :: "liveness_env \<Rightarrow> mbb_id \<Rightarrow> phys_reg set \<Rightarrow> phys_reg set" where
  "block_live E b L = foldr (\<lambda>mi. step_backward E (mi_index mi)) (mbb_instrs E b) L"

definition active_in :: "liveness_env \<Rightarrow> ip_cfg \<Rightarrow> (mbb_id \<Rightarrow> phys_reg set) \<Rightarrow> (mbb_id \<Rightarrow> phys_reg set) \<Rightarrow>
    mbb_id \<Rightarrow> phys_reg set" where
  "active_in E C A I b = block_live E b (live_out E C A I b)"

definition inactive_in :: "liveness_env \<Rightarrow> ip_cfg \<Rightarrow> (mbb_id \<Rightarrow> phys_reg set) \<Rightarrow> (mbb_id \<Rightarrow> phys_reg set) \<Rightarrow>
    mbb_id \<Rightarrow> phys_reg set" where
  "inactive_in E C A I b =
     (if isVectorMBB (mbb_instrs E b) then live_out E C A I b else active_in E C A I b)"

definition live_solution :: "liveness_env \<Rightarrow> ip_cfg \<Rightarrow> (mbb_id \<Rightarrow> phys_reg set) \<Rightarrow>
    (mbb_id \<Rightarrow> phys_reg set) \<Rightarrow> bool" where
  "live_solution E C A I \<longleftrightarrow> (\<forall>b\<in>set (post_order E). A b = active_in E C A I b \<and> I b = inactive_in E C A I b)"

text \<open>
  What the analysis relies on: sub-registers form a preorder, \<open>stepBackward\<close> is monotone and, as it
  removes a register with its super-registers and adds it with its sub-registers, keeps sets closed
  under sub-registers; the post order consists of blocks of the graph.
\<close>

definition subreg_closed :: "liveness_env \<Rightarrow> phys_reg set \<Rightarrow> bool" where
  "subreg_closed E L \<longleftrightarrow> (\<forall>r\<in>L. sub_regs E r \<subseteq> L)"

definition liveness_library :: "liveness_env \<Rightarrow> ip_cfg \<Rightarrow> bool" where
  "liveness_library E C \<longleftrightarrow>
     (\<forall>r. r \<in> sub_regs E r \<and> subreg_closed E (sub_regs E r)) \<and>
     (\<forall>i. mono (step_backward E i)) \<and>
     (\<forall>i L. subreg_closed E L \<longrightarrow> subreg_closed E (step_backward E i L)) \<and>
     set (post_order E) \<subseteq> fst ` set (AllPredMBBs C)"

lemma library_refl: "liveness_library E C \<Longrightarrow> r \<in> sub_regs E r"
  by (simp add: liveness_library_def)

lemma library_closed: "liveness_library E C \<Longrightarrow> subreg_closed E (sub_regs E r)"
  by (simp add: liveness_library_def)

lemma library_mono: "liveness_library E C \<Longrightarrow> L \<subseteq> L' \<Longrightarrow> step_backward E i L \<subseteq> step_backward E i L'"
  unfolding liveness_library_def by (meson monoD)

lemma library_step: "liveness_library E C \<Longrightarrow> subreg_closed E L \<Longrightarrow> subreg_closed E (step_backward E i L)"
  by (simp add: liveness_library_def)

lemma closed_Un [intro]: "subreg_closed E L \<Longrightarrow> subreg_closed E L' \<Longrightarrow> subreg_closed E (L \<union> L')"
  by (auto simp: subreg_closed_def)

lemma closed_UN [intro]: "(\<And>s. s \<in> S \<Longrightarrow> subreg_closed E (f s)) \<Longrightarrow> subreg_closed E (\<Union>s\<in>S. f s)"
  unfolding subreg_closed_def by blast

lemma closed_empty [intro, simp]: "subreg_closed E {}"
  by (simp add: subreg_closed_def)

subsection \<open>The operations on closed sets\<close>

lemma union_closed [simp]:
  assumes "liveness_library E C" and "subreg_closed E L"
  shows "unionLivePhysRegs E L L' = L \<union> L'"
  using assms library_refl [OF assms(1)] by (auto simp: unionLivePhysRegs_def subreg_closed_def)

lemma copy_closed:
  "liveness_library E C \<Longrightarrow> subreg_closed E L \<Longrightarrow> copyLivePhysRegs E L = L"
  by (simp add: copyLivePhysRegs_def)

lemma livePhysRegsEqual_iff [simp]: "livePhysRegsEqual A B \<longleftrightarrow> A = B"
proof
  assume "livePhysRegsEqual A B"
  then have "A \<subseteq> B" and "card A = card B" by (auto simp: livePhysRegsEqual_def)
  then show "A = B" by (simp add: card_subset_eq)
qed (simp add: livePhysRegsEqual_def)

lemma closed_addReg: "liveness_library E C \<Longrightarrow> subreg_closed E L \<Longrightarrow> subreg_closed E (addReg E r L)"
  by (auto simp: addReg_def library_closed)

lemma closed_fold:
  "subreg_closed E L \<Longrightarrow> (\<And>x L. subreg_closed E L \<Longrightarrow> subreg_closed E (f x L)) \<Longrightarrow>
   subreg_closed E (fold f xs L)"
  by (induction xs arbitrary: L) auto

lemma closed_allocatable: "liveness_library E C \<Longrightarrow> subreg_closed E (buildAllocatableSet E P)"
  unfolding buildAllocatableSet_def addRegRange_def Let_def
  by (intro closed_fold) (auto intro!: closed_fold closed_addReg)

lemma closed_ExitSeed: "liveness_library E C \<Longrightarrow> ExitSeed E C b = Some L \<Longrightarrow> subreg_closed E L"
  using copy_closed closed_allocatable by (auto simp: ExitSeed_def split: if_splits)

lemma live_out_mono:
  "(\<And>b. A b \<subseteq> A' b) \<Longrightarrow> (\<And>b. I b \<subseteq> I' b) \<Longrightarrow> live_out E C A I b \<subseteq> live_out E C A' I' b"
  unfolding live_out_def by (intro Un_mono UN_mono) auto

lemma block_live_mono:
  assumes "liveness_library E C" and "L \<subseteq> L'"
  shows "block_live E b L \<subseteq> block_live E b L'"
proof -
  have "foldr (\<lambda>mi. step_backward E (mi_index mi)) mis L \<subseteq>
      foldr (\<lambda>mi. step_backward E (mi_index mi)) mis L'" for mis
    by (induction mis) (auto simp: assms(2) library_mono [OF assms(1)])
  then show ?thesis by (simp add: block_live_def)
qed

lemma active_in_mono:
  "liveness_library E C \<Longrightarrow> (\<And>b. A b \<subseteq> A' b) \<Longrightarrow> (\<And>b. I b \<subseteq> I' b) \<Longrightarrow>
   active_in E C A I b \<subseteq> active_in E C A' I' b"
  unfolding active_in_def by (intro block_live_mono live_out_mono)

lemma inactive_in_mono:
  "liveness_library E C \<Longrightarrow> (\<And>b. A b \<subseteq> A' b) \<Longrightarrow> (\<And>b. I b \<subseteq> I' b) \<Longrightarrow>
   inactive_in E C A I b \<subseteq> inactive_in E C A' I' b"
  unfolding inactive_in_def by (simp add: active_in_mono live_out_mono)

lemma closed_live_out:
  "liveness_library E C \<Longrightarrow> (\<And>b. subreg_closed E (A b) \<and> subreg_closed E (I b)) \<Longrightarrow>
   subreg_closed E (live_out E C A I b)"
  unfolding live_out_def
  by (intro closed_Un closed_UN) (simp_all split: option.split add: closed_ExitSeed)

lemma closed_block_live:
  assumes "liveness_library E C" and "subreg_closed E L"
  shows "subreg_closed E (block_live E b L)"
proof -
  have "subreg_closed E (foldr (\<lambda>mi. step_backward E (mi_index mi)) mis L)" for mis
    by (induction mis) (auto simp: assms(2) library_step [OF assms(1)])
  then show ?thesis by (simp add: block_live_def)
qed

lemma closed_in:
  assumes "liveness_library E C" and "\<And>b. subreg_closed E (A b) \<and> subreg_closed E (I b)"
  shows "subreg_closed E (active_in E C A I b)" "subreg_closed E (inactive_in E C A I b)"
  using closed_live_out [OF assms] closed_block_live [OF assms(1)]
  by (simp_all add: active_in_def inactive_in_def)

lemma step_block_eq:
  "step_block E (mbb_instrs E b) (act, inact) =
     (block_live E b act, if isVectorMBB (mbb_instrs E b) then inact else block_live E b inact)"
proof -
  have "fold (\<lambda>mi (act, inact). (step_backward E (mi_index mi) act,
        if v then inact else step_backward E (mi_index mi) inact)) (rev mis) (act, inact) =
      (foldr (\<lambda>mi. step_backward E (mi_index mi)) mis act,
       if v then inact else foldr (\<lambda>mi. step_backward E (mi_index mi)) mis inact)" for v mis
    by (induction mis) auto
  then show ?thesis unfolding step_block_def block_live_def .
qed

lemma computeLiveOut_eq:
  assumes lib: "liveness_library E C"
    and cl: "\<And>b. subreg_closed E (live_at (ActiveLiveIns S) b) \<and> subreg_closed E (live_at (InactiveLiveIns S) b)"
  shows "computeLiveOut E C S b =
    (live_out E C (live_at (ActiveLiveIns S)) (live_at (InactiveLiveIns S)) b,
     live_out E C (live_at (ActiveLiveIns S)) (live_at (InactiveLiveIns S)) b)"
proof -
  have add: "add_live_in E (m s) (L, L) = (live_at m s \<union> L, live_at m s \<union> L)"
    if "subreg_closed E (live_at m s)" for m s L
    using that union_closed [OF lib] by (auto simp: add_live_in_def live_at_def split: option.split)
  have "fold (\<lambda>s out. add_live_in E (InactiveLiveIns S s) (add_live_in E (ActiveLiveIns S s) out)) ss (L, L) =
      (L \<union> (\<Union>s\<in>set ss. live_at (ActiveLiveIns S) s \<union> live_at (InactiveLiveIns S) s),
       L \<union> (\<Union>s\<in>set ss. live_at (ActiveLiveIns S) s \<union> live_at (InactiveLiveIns S) s))" for ss L
    by (induction ss arbitrary: L) (auto simp: add cl)
  then show ?thesis
    by (auto simp: computeLiveOut_def live_out_def copy_closed [OF lib] split: option.split
        dest: closed_ExitSeed [OF lib])
qed

subsection \<open>One visit\<close>

text \<open>The entries of all blocks of the post order are present.\<close>

definition has_entries :: "liveness_env \<Rightarrow> live_ins \<Rightarrow> bool" where
  "has_entries E S \<longleftrightarrow>
     (\<forall>b\<in>set (post_order E). ActiveLiveIns S b \<noteq> None \<and> InactiveLiveIns S b \<noteq> None)"

abbreviation act_of :: "live_ins \<Rightarrow> mbb_id \<Rightarrow> phys_reg set" where
  "act_of S \<equiv> live_at (ActiveLiveIns S)"

abbreviation inact_of :: "live_ins \<Rightarrow> mbb_id \<Rightarrow> phys_reg set" where
  "inact_of S \<equiv> live_at (InactiveLiveIns S)"

definition closed_ins :: "liveness_env \<Rightarrow> live_ins \<Rightarrow> bool" where
  "closed_ins E S \<longleftrightarrow> (\<forall>b. subreg_closed E (act_of S b) \<and> subreg_closed E (inact_of S b))"

lemma live_at_upd [simp]: "live_at (m(b \<mapsto> L)) = (live_at m)(b := L)"
  by (rule ext) (simp add: live_at_def)

lemma the_live_at: "m b \<noteq> None \<Longrightarrow> the (m b) = live_at m b"
  by (auto simp: live_at_def)

lemma visit_effect:
  assumes lib: "liveness_library E C" and cl: "closed_ins E S" and ent: "has_entries E S"
    and b: "b \<in> set (post_order E)"
  shows "\<exists>S'. visit_pmbb E C b (ch, S) = (ch \<or> act_of S' \<noteq> act_of S \<or> inact_of S' \<noteq> inact_of S, S') \<and>
    act_of S' = (act_of S)(b := active_in E C (act_of S) (inact_of S) b) \<and>
    inact_of S' = (inact_of S)(b := inactive_in E C (act_of S) (inact_of S) b) \<and>
    has_entries E S'"
proof -
  let ?a = "active_in E C (act_of S) (inact_of S) b" and ?i = "inactive_in E C (act_of S) (inact_of S) b"
  from cl have cl': "subreg_closed E (act_of S x) \<and> subreg_closed E (inact_of S x)" for x
    by (simp add: closed_ins_def)
  have step: "step_block E (mbb_instrs E b) (computeLiveOut E C S b) = (?a, ?i)"
    by (simp add: computeLiveOut_eq [OF lib cl'] step_block_eq active_in_def inactive_in_def)
  have copy: "copyLivePhysRegs E ?a = ?a" "copyLivePhysRegs E ?i = ?i"
    using copy_closed [OF lib] closed_in [OF lib cl'] by simp_all
  from ent b have the: "the (ActiveLiveIns S b) = act_of S b" "the (InactiveLiveIns S b) = inact_of S b"
    by (simp_all add: has_entries_def the_live_at)
  define S1 where "S1 = (if act_of S b = ?a then S else S\<lparr>ActiveLiveIns := (ActiveLiveIns S)(b \<mapsto> ?a)\<rparr>)"
  define S2 where "S2 = (if inact_of S b = ?i then S1 else S1\<lparr>InactiveLiveIns := (InactiveLiveIns S1)(b \<mapsto> ?i)\<rparr>)"
  have visit: "visit_pmbb E C b (ch, S) = (ch \<or> act_of S b \<noteq> ?a \<or> inact_of S b \<noteq> ?i, S2)"
    by (simp add: visit_pmbb_def step copy the S1_def S2_def)
  have acts: "act_of S2 = (act_of S)(b := ?a)" and inacts: "inact_of S2 = (inact_of S)(b := ?i)"
    by (auto simp: S1_def S2_def fun_eq_iff)
  have "(act_of S2 \<noteq> act_of S \<or> inact_of S2 \<noteq> inact_of S) \<longleftrightarrow> (act_of S b \<noteq> ?a \<or> inact_of S b \<noteq> ?i)"
    unfolding acts inacts by (metis fun_upd_idem_iff)
  moreover have "has_entries E S2" using ent by (auto simp: has_entries_def S1_def S2_def)
  ultimately show ?thesis using visit acts inacts by (intro exI [of _ S2]) simp
qed

text \<open>
  The invariant of the iteration: the sets are closed and below every solution, they can only grow by
  the next visits, and the blocks outside of the post order have none.
\<close>

definition live_inv :: "liveness_env \<Rightarrow> ip_cfg \<Rightarrow> live_ins \<Rightarrow> bool" where
  "live_inv E C S \<longleftrightarrow> closed_ins E S \<and> has_entries E S \<and>
     (\<forall>b\<in>set (post_order E). act_of S b \<subseteq> active_in E C (act_of S) (inact_of S) b \<and>
        inact_of S b \<subseteq> inactive_in E C (act_of S) (inact_of S) b) \<and>
     (\<forall>b. b \<notin> set (post_order E) \<longrightarrow> act_of S b = {} \<and> inact_of S b = {}) \<and>
     (\<forall>A I. live_solution E C A I \<longrightarrow> (\<forall>b. act_of S b \<subseteq> A b \<and> inact_of S b \<subseteq> I b))"

definition below :: "live_ins \<Rightarrow> live_ins \<Rightarrow> bool" where
  "below S S' \<longleftrightarrow> (\<forall>b. act_of S b \<subseteq> act_of S' b \<and> inact_of S b \<subseteq> inact_of S' b)"

lemma below_refl [simp]: "below S S"
  by (simp add: below_def)

lemma below_trans: "below S S' \<Longrightarrow> below S' S'' \<Longrightarrow> below S S''"
  by (fastforce simp: below_def)

lemma below_antisym: "below S S' \<Longrightarrow> below S' S \<Longrightarrow> act_of S = act_of S' \<and> inact_of S = inact_of S'"
  by (auto simp: below_def fun_eq_iff)

lemma visit_inv:
  assumes lib: "liveness_library E C" and inv: "live_inv E C S" and b: "b \<in> set (post_order E)"
  shows "\<exists>S'. visit_pmbb E C b (ch, S) = (ch \<or> act_of S' \<noteq> act_of S \<or> inact_of S' \<noteq> inact_of S, S') \<and>
    act_of S' = (act_of S)(b := active_in E C (act_of S) (inact_of S) b) \<and>
    inact_of S' = (inact_of S)(b := inactive_in E C (act_of S) (inact_of S) b) \<and>
    below S S' \<and> live_inv E C S'"
proof -
  from inv have cl: "closed_ins E S" and ent: "has_entries E S"
    and grow: "\<And>x. x \<in> set (post_order E) \<Longrightarrow> act_of S x \<subseteq> active_in E C (act_of S) (inact_of S) x \<and>
        inact_of S x \<subseteq> inactive_in E C (act_of S) (inact_of S) x"
    and outside: "\<And>x. x \<notin> set (post_order E) \<Longrightarrow> act_of S x = {} \<and> inact_of S x = {}"
    and least: "\<And>A I x. live_solution E C A I \<Longrightarrow> act_of S x \<subseteq> A x \<and> inact_of S x \<subseteq> I x"
    by (auto simp: live_inv_def)
  obtain S' where visit: "visit_pmbb E C b (ch, S) = (ch \<or> act_of S' \<noteq> act_of S \<or> inact_of S' \<noteq> inact_of S, S')"
    and acts: "act_of S' = (act_of S)(b := active_in E C (act_of S) (inact_of S) b)"
    and inacts: "inact_of S' = (inact_of S)(b := inactive_in E C (act_of S) (inact_of S) b)"
    and ent': "has_entries E S'"
    using visit_effect [OF lib cl ent b] by blast
  have le: "act_of S x \<subseteq> act_of S' x" "inact_of S x \<subseteq> inact_of S' x" for x
    using grow [OF b] by (auto simp: acts inacts)
  have "closed_ins E S'"
    using closed_in [OF lib, of "act_of S" "inact_of S" b] cl
    by (simp add: closed_ins_def acts inacts)
  moreover have "act_of S' x \<subseteq> active_in E C (act_of S') (inact_of S') x \<and>
      inact_of S' x \<subseteq> inactive_in E C (act_of S') (inact_of S') x" if "x \<in> set (post_order E)" for x
  proof -
    have "act_of S' x \<subseteq> active_in E C (act_of S) (inact_of S) x"
      "inact_of S' x \<subseteq> inactive_in E C (act_of S) (inact_of S) x"
      using grow [OF that] by (simp_all add: acts inacts)
    moreover have "active_in E C (act_of S) (inact_of S) x \<subseteq> active_in E C (act_of S') (inact_of S') x"
      by (rule active_in_mono [OF lib le])
    moreover have "inactive_in E C (act_of S) (inact_of S) x \<subseteq> inactive_in E C (act_of S') (inact_of S') x"
      by (rule inactive_in_mono [OF lib le])
    ultimately show ?thesis by blast
  qed
  moreover have "act_of S' x = {} \<and> inact_of S' x = {}" if "x \<notin> set (post_order E)" for x
    using outside [OF that] that b by (auto simp: acts inacts)
  moreover have "act_of S' x \<subseteq> A x \<and> inact_of S' x \<subseteq> I x" if sol: "live_solution E C A I" for A I x
  proof -
    from least [OF sol] have le': "act_of S y \<subseteq> A y" "inact_of S y \<subseteq> I y" for y by simp_all
    have "active_in E C (act_of S) (inact_of S) b \<subseteq> active_in E C A I b"
      by (rule active_in_mono [OF lib le'])
    moreover have "inactive_in E C (act_of S) (inact_of S) b \<subseteq> inactive_in E C A I b"
      by (rule inactive_in_mono [OF lib le'])
    moreover have "A b = active_in E C A I b" "I b = inactive_in E C A I b"
      using sol b by (auto simp: live_solution_def)
    ultimately have "active_in E C (act_of S) (inact_of S) b \<subseteq> A b" "inactive_in E C (act_of S) (inact_of S) b \<subseteq> I b"
      by simp_all
    with least [OF sol, of x] show ?thesis by (simp add: acts inacts)
  qed
  ultimately have "live_inv E C S'" unfolding live_inv_def using ent' by blast
  moreover have "below S S'" unfolding below_def using le by blast
  ultimately show ?thesis using visit acts inacts by blast
qed

subsection \<open>One sweep\<close>

lemma visits_inv:
  assumes lib: "liveness_library E C"
  shows "live_inv E C S \<Longrightarrow> set bs \<subseteq> set (post_order E) \<Longrightarrow>
    \<exists>S'. fold (visit_pmbb E C) bs (ch, S) = (ch \<or> act_of S' \<noteq> act_of S \<or> inact_of S' \<noteq> inact_of S, S') \<and>
      below S S' \<and> live_inv E C S' \<and>
      (act_of S' = act_of S \<and> inact_of S' = inact_of S \<longrightarrow> (\<forall>b\<in>set bs.
         act_of S b = active_in E C (act_of S) (inact_of S) b \<and>
         inact_of S b = inactive_in E C (act_of S) (inact_of S) b))"
proof (induction bs arbitrary: S ch)
  case Nil
  then show ?case by simp
next
  case (Cons b bs)
  then obtain S1 where S1: "visit_pmbb E C b (ch, S) = (ch \<or> act_of S1 \<noteq> act_of S \<or> inact_of S1 \<noteq> inact_of S, S1)"
    "act_of S1 = (act_of S)(b := active_in E C (act_of S) (inact_of S) b)"
    "inact_of S1 = (inact_of S)(b := inactive_in E C (act_of S) (inact_of S) b)"
    "below S S1" "live_inv E C S1"
    using visit_inv [OF lib, of S b ch] by auto
  let ?ch = "ch \<or> act_of S1 \<noteq> act_of S \<or> inact_of S1 \<noteq> inact_of S"
  from Cons.IH [OF S1(5), of ?ch] Cons.prems(2) obtain S2 where
    S2: "fold (visit_pmbb E C) bs (?ch, S1) = (?ch \<or> act_of S2 \<noteq> act_of S1 \<or> inact_of S2 \<noteq> inact_of S1, S2)"
    "below S1 S2" "live_inv E C S2"
    "act_of S2 = act_of S1 \<and> inact_of S2 = inact_of S1 \<longrightarrow> (\<forall>b\<in>set bs.
         act_of S1 b = active_in E C (act_of S1) (inact_of S1) b \<and>
         inact_of S1 b = inactive_in E C (act_of S1) (inact_of S1) b)"
    by auto
  have same: "act_of S1 = act_of S \<and> inact_of S1 = inact_of S \<and> act_of S2 = act_of S1 \<and> inact_of S2 = inact_of S1"
    if "act_of S2 = act_of S" "inact_of S2 = inact_of S"
  proof -
    have "below S1 S" using S2(2) that by (simp add: below_def)
    from below_antisym [OF this S1(4)] that show ?thesis by simp
  qed
  have "fold (visit_pmbb E C) (b # bs) (ch, S) = (ch \<or> act_of S2 \<noteq> act_of S \<or> inact_of S2 \<noteq> inact_of S, S2)"
  proof -
    have "(?ch \<or> act_of S2 \<noteq> act_of S1 \<or> inact_of S2 \<noteq> inact_of S1) =
        (ch \<or> act_of S2 \<noteq> act_of S \<or> inact_of S2 \<noteq> inact_of S)"
      using same by metis
    with S1(1) S2(1) show ?thesis by simp
  qed
  moreover have "below S S2" using S1(4) S2(2) by (rule below_trans)
  moreover have "\<forall>x\<in>set (b # bs). act_of S x = active_in E C (act_of S) (inact_of S) x \<and>
      inact_of S x = inactive_in E C (act_of S) (inact_of S) x"
    if "act_of S2 = act_of S \<and> inact_of S2 = inact_of S"
  proof -
    note eq = same [OF conjunct1 [OF that] conjunct2 [OF that]]
    have bs: "\<forall>x\<in>set bs. act_of S1 x = active_in E C (act_of S1) (inact_of S1) x \<and>
        inact_of S1 x = inactive_in E C (act_of S1) (inact_of S1) x"
      by (rule mp [OF S2(4)]) (use eq in blast)
    have "act_of S1 b = active_in E C (act_of S) (inact_of S) b"
      "inact_of S1 b = inactive_in E C (act_of S) (inact_of S) b"
      unfolding S1(2,3) by (rule fun_upd_same)+
    with bs show ?thesis
      unfolding eq [THEN conjunct1] eq [THEN conjunct2, THEN conjunct1] by (simp only: list.set ball_simps)
  qed
  ultimately show ?case using S2(3) by blast
qed

lemma sweep_inv:
  assumes "liveness_library E C" and "live_inv E C S"
  shows "\<exists>S'. sweep E C S = (act_of S' \<noteq> act_of S \<or> inact_of S' \<noteq> inact_of S, S') \<and> below S S' \<and>
    live_inv E C S' \<and> (act_of S' = act_of S \<and> inact_of S' = inact_of S \<longrightarrow>
      live_solution E C (act_of S') (inact_of S'))"
  using visits_inv [OF assms, of "post_order E" False]
  by (auto simp: sweep_def live_solution_def)

lemma init_inv:
  assumes "liveness_library E C"
  shows "live_inv E C (init_live_ins C)"
proof -
  have mem: "map_of (map (\<lambda>b. (fst b, {})) xs) b = (if b \<in> fst ` set xs then Some {} else None)"
    for xs :: "(mbb_id \<times> bb_id) list" and b and dummy :: "phys_reg set"
    by (induction xs) auto
  have "live_at (map_of (map (\<lambda>b. (fst b, {})) (AllPredMBBs C))) b = {}" for b
    by (simp add: live_at_def mem)
  moreover have "set (post_order E) \<subseteq> fst ` set (AllPredMBBs C)"
    using assms by (simp add: liveness_library_def)
  ultimately show ?thesis
    by (auto simp: live_inv_def closed_ins_def has_entries_def init_live_ins_def mem Let_def)
qed

subsection \<open>The iteration\<close>

definition loop_inv :: "liveness_env \<Rightarrow> ip_cfg \<Rightarrow> bool \<times> live_ins \<Rightarrow> bool" where
  "loop_inv E C st \<longleftrightarrow> live_inv E C (snd st) \<and>
     (\<not> fst st \<longrightarrow> live_solution E C (act_of (snd st)) (inact_of (snd st)))"

lemma loop_inv_step:
  assumes "liveness_library E C" and "loop_inv E C st"
  shows "loop_inv E C (sweep E C (snd st))"
proof -
  obtain S' where "sweep E C (snd st) = (act_of S' \<noteq> act_of (snd st) \<or> inact_of S' \<noteq> inact_of (snd st), S')"
    "live_inv E C S'" "act_of S' = act_of (snd st) \<and> inact_of S' = inact_of (snd st) \<longrightarrow>
      live_solution E C (act_of S') (inact_of S')"
    using sweep_inv [OF assms(1), of "snd st"] assms(2) by (auto simp: loop_inv_def)
  then show ?thesis by (simp add: loop_inv_def)
qed

lemma loop_inv_start: "liveness_library E C \<Longrightarrow> loop_inv E C (True, init_live_ins C)"
  by (simp add: loop_inv_def init_inv)

text \<open>The registers recorded so far; every sweep that changes something adds one.\<close>

definition live_facts :: "liveness_env \<Rightarrow> live_ins \<Rightarrow> (mbb_id \<times> (phys_reg + phys_reg)) set" where
  "live_facts E S = (SIGMA b:set (post_order E). act_of S b <+> inact_of S b)"

lemma live_facts_grow:
  assumes "below S S'" and "live_inv E C S" and "live_inv E C S'"
    and "act_of S' \<noteq> act_of S \<or> inact_of S' \<noteq> inact_of S"
  shows "live_facts E S \<subset> live_facts E S'"
proof -
  have sub: "live_facts E S \<subseteq> live_facts E S'"
    using assms(1) by (auto simp: live_facts_def below_def)
  have "act_of S' b = act_of S b \<and> inact_of S' b = inact_of S b" if eq: "live_facts E S = live_facts E S'" for b
  proof (cases "b \<in> set (post_order E)")
    case True
    have "live_facts E S `` {b} = act_of S b <+> inact_of S b" "live_facts E S' `` {b} = act_of S' b <+> inact_of S' b"
      using True by (auto simp: live_facts_def)
    then have "act_of S b <+> inact_of S b = act_of S' b <+> inact_of S' b" using eq by simp
    then show ?thesis by (fastforce simp: set_eq_iff Plus_def)
  next
    case False
    with assms(2,3) show ?thesis by (simp add: live_inv_def)
  qed
  with assms(4) sub show ?thesis by (auto simp: fun_eq_iff)
qed

lemma loop_result:
  assumes lib: "liveness_library E C" and run: "run_liveness E C = Some R"
  shows "live_solution E C (live_at (ActiveLiveIns R)) (live_at (InactiveLiveIns R)) \<and>
    (\<forall>b. b \<notin> set (post_order E) \<longrightarrow> live_at (ActiveLiveIns R) b = {} \<and> live_at (InactiveLiveIns R) b = {}) \<and>
    (\<forall>A I. live_solution E C A I \<longrightarrow>
      (\<forall>b. live_at (ActiveLiveIns R) b \<subseteq> A b \<and> live_at (InactiveLiveIns R) b \<subseteq> I b))"
proof -
  obtain S where S: "live_inv E C S" "live_solution E C (act_of S) (inact_of S)"
    and R: "ActiveLiveIns R = ActiveLiveIns S" "InactiveLiveIns R = InactiveLiveIns S"
  proof (cases "AllPredMBBs C = []")
    case True
    with lib have "post_order E = []" by (simp add: liveness_library_def)
    then have "live_solution E C A I" for A I by (simp add: live_solution_def)
    with that [of "init_live_ins C"] init_inv [OF lib] run True show thesis
      by (auto simp: run_liveness_def)
  next
    case False
    with run obtain st where st: "liveness_loop E C = Some st"
      "ActiveLiveIns R = ActiveLiveIns (snd st)" "InactiveLiveIns R = InactiveLiveIns (snd st)"
      by (auto simp: run_liveness_def split: option.splits)
    have "loop_inv E C st"
      by (rule while_option_rule [OF _ st(1) [unfolded liveness_loop_def]])
        (simp_all add: loop_inv_step loop_inv_start lib)
    moreover have "\<not> fst st" by (rule while_option_stop [OF st(1) [unfolded liveness_loop_def]])
    ultimately show thesis using that [of "snd st"] st(2,3) by (simp add: loop_inv_def)
  qed
  then show ?thesis by (simp add: live_inv_def)
qed

lemma loop_total:
  assumes lib: "liveness_library E C"
  shows "\<exists>R. run_liveness E C = Some R"
proof -
  let ?bound = "set (post_order E) \<times> (UNIV :: (phys_reg + phys_reg) set)"
  let ?m = "measures [\<lambda>st. card (?bound - live_facts E (snd st)), \<lambda>st. if fst st then 1 else 0]"
  have "\<exists>st. liveness_loop E C = Some st"
    unfolding liveness_loop_def
  proof (rule wf_rel_while_option_Some [where R = ?m and P = "loop_inv E C"])
    show "wf ?m" by simp
    show "loop_inv E C (True, init_live_ins C)" using lib by (rule loop_inv_start)
    show "loop_inv E C (sweep E C (snd st))" if "loop_inv E C st \<and> fst st" for st
      using that lib by (simp add: loop_inv_step)
  next
    fix st :: "bool \<times> live_ins"
    assume st: "loop_inv E C st \<and> fst st"
    then have inv: "live_inv E C (snd st)" by (simp add: loop_inv_def)
    then obtain S' where S': "sweep E C (snd st) = (act_of S' \<noteq> act_of (snd st) \<or> inact_of S' \<noteq> inact_of (snd st), S')"
      "below (snd st) S'" "live_inv E C S'"
      using sweep_inv [OF lib] by blast
    show "(sweep E C (snd st), st) \<in> ?m"
    proof (cases "act_of S' \<noteq> act_of (snd st) \<or> inact_of S' \<noteq> inact_of (snd st)")
      case True
      then have grow: "live_facts E (snd st) \<subset> live_facts E S'" by (rule live_facts_grow [OF S'(2) inv S'(3)])
      have "live_facts E S' \<subseteq> ?bound" by (auto simp: live_facts_def)
      with grow have "card (?bound - live_facts E S') < card (?bound - live_facts E (snd st))"
        by (intro psubset_card_mono) auto
      with S'(1) show ?thesis by simp
    next
      case False
      then have "live_facts E S' = live_facts E (snd st)" by (simp add: live_facts_def)
      with S'(1) False st show ?thesis by simp
    qed
  qed
  then show ?thesis by (auto simp: run_liveness_def)
qed

subsection \<open>An example\<close>

text \<open>
  The graph of \<open>Predicated_CFG\<close> with a vector block \<open>1\<close> that defines register \<open>5\<close> and uses
  register \<open>3\<close>. Block \<open>2\<close> has no successor, and a call of block \<open>1\<close> is unknown.
\<close>

definition liveness_example :: liveness_env where
  "liveness_example = \<lparr>sub_regs = \<lambda>r. {r},
     step_backward = \<lambda>i L. if i = 1 then insert 3 (L - {5}) else L,
     SGPR0 = 5, VGPR0 = 8, AGPR0 = 12, SCC_reg = 1, VCC_reg = 2, hasMAIInsts = False,
     mbb_instrs = \<lambda>b. if b = 1
       then [\<lparr>mi_index = 1, mi_opc = OtherOpcode 0, isVALU = True, isSALU = False, isSMRD = False,
              isDebugOrPseudoProbe = False\<rparr>] else [],
     mbb_pool = \<lambda>b. \<lparr>num_sgpr = 1, num_vgpr = 1, reserved_regs = []\<rparr>,
     post_order = [2, 1, 0]\<rparr>"

definition example_cfg :: ip_cfg where
  "example_cfg = \<lparr>AllPredMBBs = [(0, 10), (1, 12), (2, 20)], MFToEntryPredMBB = [(1, 2), (0, 0)],
     EntryFunc = Some 0, edges = [(1, 2), (0, 1)], unresolved = [1]\<rparr>"

lemma example_cfg_built: "getIPPredCFG two_functions one_call = Some (Inr example_cfg)"
  by code_simp

lemma example_library: "liveness_library liveness_example example_cfg"
  by (auto simp: liveness_library_def liveness_example_def example_cfg_def subreg_closed_def mono_def)

subsection \<open>Properties\<close>

text \<open>
  C14: The result of the liveness analysis is the least solution of the dataflow equations on the
  blocks that are reachable from the entry; the other blocks have empty sets. The order in which
  the blocks are visited does not matter.
\<close>

theorem liveness_least_solution:
  assumes "liveness_library E C" and "run_liveness E C = Some R"
  shows "live_solution E C (live_at (ActiveLiveIns R)) (live_at (InactiveLiveIns R)) \<and>
    (\<forall>b. b \<notin> set (post_order E) \<longrightarrow> live_at (ActiveLiveIns R) b = {} \<and> live_at (InactiveLiveIns R) b = {}) \<and>
    (\<forall>A I. live_solution E C A I \<longrightarrow>
      (\<forall>b. live_at (ActiveLiveIns R) b \<subseteq> A b \<and> live_at (InactiveLiveIns R) b \<subseteq> I b))"
  using assms by (rule loop_result)

theorem liveness_least_solution_witness:
  "\<exists>R. run_liveness liveness_example example_cfg = Some R \<and> 3 \<in> live_at (ActiveLiveIns R) 0"
proof -
  obtain R where R: "run_liveness liveness_example example_cfg = Some R"
    using loop_total [OF example_library] by blast
  from liveness_least_solution [OF example_library R]
  have "live_solution liveness_example example_cfg (live_at (ActiveLiveIns R)) (live_at (InactiveLiveIns R))" ..
  then have "3 \<in> live_at (ActiveLiveIns R) 1 \<and> live_at (ActiveLiveIns R) 1 \<subseteq> live_at (ActiveLiveIns R) 0"
    by (auto simp: live_solution_def liveness_example_def example_cfg_def active_in_def live_out_def
        block_live_def cfg_successors_def)
  with R show ?thesis by blast
qed

text \<open>
  C15: The liveness analysis ends: a sweep that changes a set adds a register to it, and there are
  finitely many.
\<close>

theorem liveness_terminates:
  assumes "liveness_library E C"
  shows "\<exists>R. run_liveness E C = Some R"
  using assms by (rule loop_total)

theorem liveness_terminates_witness: "\<exists>R. run_liveness liveness_example example_cfg = Some R"
  using liveness_terminates [OF example_library] .

text \<open>
  A block with unresolved edges that has a known successor gets no seed: its live-out set is what
  the known successors need, and a register that only the unknown target reads is not in it. (In
  contrast, a block without successors has the registers of its function seeded.)
\<close>

lemma unresolved_block_without_seed:
  assumes "liveness_library E C" and "run_liveness E C = Some R" and "b \<in> set (post_order E)"
    and "b \<in> set (unresolved C)" and "cfg_successors C b \<noteq> []"
  shows "live_at (ActiveLiveIns R) b = block_live E b (\<Union>s\<in>set (cfg_successors C b).
    live_at (ActiveLiveIns R) s \<union> live_at (InactiveLiveIns R) s)"
proof -
  have "ExitSeed E C b = None" using assms(5) by (simp add: ExitSeed_def)
  with loop_result [OF assms(1,2)] assms(3) show ?thesis
    by (simp add: live_solution_def active_in_def live_out_def)
qed

lemma unresolved_block_without_seed_instance:
  "\<exists>R. run_liveness liveness_example example_cfg = Some R \<and>
     live_at (ActiveLiveIns R) 1 = insert 3 (live_at (ActiveLiveIns R) 2 \<union> live_at (InactiveLiveIns R) 2 - {5})"
proof -
  obtain R where R: "run_liveness liveness_example example_cfg = Some R"
    using loop_total [OF example_library] by blast
  have "cfg_successors example_cfg 1 = [2]" by code_simp
  with unresolved_block_without_seed [OF example_library R, of 1] R show ?thesis
    by (simp add: liveness_example_def example_cfg_def block_live_def)
qed

end
